(* ===== verification/Prelude.thy ===== *)
theory Prelude
  imports Main "HOL-Library.Word" "HOL-Library.Char_ord" "HOL-Library.List_Lexorder"
begin

text \<open>
  Shared vocabulary of the development: the names of the C++ integer types, the
  collections of rewrite rules the component theories extend, generic lemmas on lists, options
  and words, and the interfaces that many components share: a step relation that keeps
  an invariant (\<open>step_invariant\<close>), one that can be run (\<open>executable_moves\<close>), a machine that meets no undefined behaviour
  (\<open>safe_machine\<close>) and a log that keeps its newest entries only (\<open>bounded_log\<close>).
\<close>

section \<open>Types and collections\<close>

type_synonym size_t = "64 word"
type_synonym uint8_t = "8 word"
type_synonym uint32_t = "32 word"
type_synonym uint64_t = "64 word"

text \<open>The bytes of a C++ string.\<close>

type_synonym bytes = "8 word list"

named_theorems container_simps \<open>rewriting of the container models to lists and maps\<close>
named_theorems invariant_intros \<open>an operation keeps its component's invariant\<close>
named_theorems refine_simps \<open>an operation seen through its abstraction function\<close>

section \<open>Lists\<close>

lemma filter_neq_distinct_fst:
  "distinct (map fst xs) \<Longrightarrow> (k, v) \<in> set xs \<Longrightarrow>
   filter (\<lambda>p. fst p \<noteq> k) xs = remove1 (k, v) xs"
proof (induction xs)
  case Nil
  then show ?case by simp
next
  case (Cons p xs)
  show ?case
  proof (cases "p = (k, v)")
    case True
    with Cons.prems have "k \<notin> fst ` set xs" by auto
    then have "filter (\<lambda>p. fst p \<noteq> k) xs = xs" by (auto simp: filter_id_conv)
    with True show ?thesis by simp
  next
    case False
    with Cons.prems have "(k, v) \<in> set xs" by auto
    moreover from this Cons.prems have "fst p \<noteq> k" by (metis distinct.simps(2) fst_conv image_eqI list.set_map list.simps(9))
    ultimately show ?thesis using Cons False by auto
  qed
qed

lemma drop_excess_append:
  "drop (length (drop (length xs - n) xs @ ys) - n) (drop (length xs - n) xs @ ys)
   = drop (length (xs @ ys) - n) (xs @ ys)"
  by (cases "length xs \<le> n") (auto simp: min_def add.commute)

lemma sum_list_update_one:
  "i < length ts \<Longrightarrow> (\<Sum>t \<leftarrow> ts[i := u]. f t) + f (ts ! i) = (\<Sum>t \<leftarrow> ts. f t) + (f u :: nat)"
  by (induction ts arbitrary: i) (auto split: nat.splits)

lemma sum_list_member_le: "x \<in> set xs \<Longrightarrow> f x \<le> (\<Sum>t \<leftarrow> xs. f t :: nat)"
  by (induction xs) auto

lemma bex_set_nth: "(\<exists>x \<in> set xs. P x) \<longleftrightarrow> (\<exists>u < length xs. P (xs ! u))"
  by (metis in_set_conv_nth)

lemma bex_nth_split:
  "t < length xs \<Longrightarrow> (\<exists>x \<in> set xs. P x) \<longleftrightarrow> P (xs ! t) \<or> (\<exists>u < length xs. u \<noteq> t \<and> P (xs ! u))"
  unfolding bex_set_nth by metis

lemma bex_list_update:
  "t < length xs \<Longrightarrow> (\<exists>x \<in> set (xs[t := y]). P x) \<longleftrightarrow> P y \<or> (\<exists>u < length xs. u \<noteq> t \<and> P (xs ! u))"
  unfolding bex_set_nth length_list_update by (metis nth_list_update_eq nth_list_update_neq)

text \<open>One thread, and the others.\<close>

abbreviation others :: "nat \<Rightarrow> 'a list \<Rightarrow> 'a list" where
  "others i pcs \<equiv> take i pcs @ drop (Suc i) pcs"

lemma sum_others: "i < length pcs \<Longrightarrow> (\<Sum>pc \<leftarrow> pcs. f pc) = f (pcs ! i) + (\<Sum>pc \<leftarrow> others i pcs. f pc :: 'b :: comm_monoid_add)"
  by (subst id_take_nth_drop [of i pcs]) (simp_all add: ac_simps)

lemma sum_others_update: "i < length pcs \<Longrightarrow> (\<Sum>x \<leftarrow> pcs[i := pc]. f x) = f pc + (\<Sum>x \<leftarrow> others i pcs. f x :: 'b :: comm_monoid_add)"
  using sum_others [of i "pcs[i := pc]" f] by simp

lemma list_all_others: "i < length pcs \<Longrightarrow> list_all P (pcs[i := pc]) \<longleftrightarrow> P pc \<and> list_all P (others i pcs)"
  by (auto simp: upd_conv_take_nth_drop)

lemma list_all_others_nth: "i < length pcs \<Longrightarrow> list_all P pcs \<longleftrightarrow> P (pcs ! i) \<and> list_all P (others i pcs)"
  using list_all_others [of i pcs P "pcs ! i"] by simp

lemma list_all_others_iff:
  assumes "t < length pcs"
  shows "list_all P (others t pcs) \<longleftrightarrow> (\<forall>u < length pcs. u \<noteq> t \<longrightarrow> P (pcs ! u))"
proof
  assume l: "list_all P (others t pcs)"
  show "\<forall>u < length pcs. u \<noteq> t \<longrightarrow> P (pcs ! u)"
  proof (intro allI impI)
    fix u
    assume u: "u < length pcs" "u \<noteq> t"
    have "pcs ! u \<in> set (others t pcs)"
    proof (cases "u < t")
      case True
      then have "take t pcs ! u \<in> set (take t pcs)" using u assms by (intro nth_mem) simp
      then show ?thesis using True by simp
    next
      case False
      then have "drop (Suc t) pcs ! (u - Suc t) \<in> set (drop (Suc t) pcs)" using u by (intro nth_mem) simp
      then show ?thesis using False u by simp
    qed
    then show "P (pcs ! u)" using l by (auto simp: list_all_iff)
  qed
qed (use assms in \<open>auto simp: list_all_iff in_set_conv_nth\<close>)

section \<open>Step relations with an invariant\<close>

text \<open>
  The contract of a component that runs as a step relation, with the steps of all its threads
  interleaved: every step keeps the invariant. Every reachable state then satisfies it.
\<close>

locale step_invariant =
  fixes step :: "'s \<Rightarrow> 's \<Rightarrow> bool"
    and inv :: "'s \<Rightarrow> bool"
  assumes step_inv: "inv s \<Longrightarrow> step s s' \<Longrightarrow> inv s'"
begin

lemma reachable_inv: "step\<^sup>*\<^sup>* s s' \<Longrightarrow> inv s \<Longrightarrow> inv s'"
  by (induction rule: rtranclp_induct) (auto intro: step_inv)

end

section \<open>Machines that may meet undefined behaviour\<close>

text \<open>
  Where the code relies on its invariant to stay clear of undefined behaviour (a stale
  iterator, the last element of an empty list), an operation is a partial function and
  \<^const>\<open>None\<close> is the undefined outcome. A run is defined when every request is.
\<close>

fun run_requests :: "('s \<Rightarrow> 'e \<Rightarrow> 's option) \<Rightarrow> 's \<Rightarrow> 'e list \<Rightarrow> 's option" where
  "run_requests step s [] = Some s"
| "run_requests step s (e # es) =
     (case step s e of None \<Rightarrow> None | Some s' \<Rightarrow> run_requests step s' es)"

locale safe_machine =
  fixes step :: "'s \<Rightarrow> 'e \<Rightarrow> 's option"
    and inv :: "'s \<Rightarrow> bool"
  assumes step_safe: "inv s \<Longrightarrow> \<exists>s'. step s e = Some s' \<and> inv s'"
begin

lemma run_safe: "inv s \<Longrightarrow> \<exists>s'. run_requests step s es = Some s' \<and> inv s'"
proof (induction es arbitrary: s)
  case Nil
  then show ?case by simp
next
  case (Cons e es)
  from step_safe [OF Cons.prems] obtain s1 where "step s e = Some s1" and "inv s1" by blast
  with Cons.IH [of s1] show ?case by simp
qed

lemma run_inv_of_result: "inv s \<Longrightarrow> run_requests step s es = Some s' \<Longrightarrow> inv s'"
  by (metis option.inject run_safe)

end

section \<open>Step relations that compute\<close>

text \<open>A function that makes the steps of a relation by request: its runs on concrete requests lead to reachable states.\<close>

locale executable_moves =
  fixes move :: "'s \<Rightarrow> 'm \<Rightarrow> 's option"
    and step :: "'s \<Rightarrow> 's \<Rightarrow> bool"
  assumes move_step: "move s m = Some s' \<Longrightarrow> step s s'"
begin

lemma moves_reach: "run_requests move s ms = Some s' \<Longrightarrow> step\<^sup>*\<^sup>* s s'"
proof (induction ms arbitrary: s)
  case (Cons m ms)
  then obtain s1 where "move s m = Some s1" "run_requests move s1 ms = Some s'" by (auto split: option.splits)
  with move_step Cons.IH [of s1] show ?case by (meson converse_rtranclp_into_rtranclp)
qed simp

end

section \<open>Bounded logs\<close>

text \<open>
  The contract of a queue that is filled at the back and dropped at the front as soon as
  it holds more than \<open>bound\<close> entries: the topics of the event bus and the datagram
  queues of the UDP listeners keep it.
\<close>

locale bounded_log =
  fixes add :: "'e \<Rightarrow> 'q \<Rightarrow> 'q"
    and view :: "'q \<Rightarrow> 'e list"
    and bound :: nat
  assumes view_add: "length (view q) \<le> bound \<Longrightarrow>
      view (add e q) = drop (length (view q @ [e]) - bound) (view q @ [e])"
begin

lemma view_add_bounded: "length (view q) \<le> bound \<Longrightarrow> length (view (add e q)) \<le> bound"
  by (simp add: view_add)

text \<open>After any sequence of additions the log holds exactly the newest \<open>bound\<close> entries.\<close>

lemma view_add_all:
  "length (view q) \<le> bound \<Longrightarrow>
   view (fold add es q) = drop (length (view q @ es) - bound) (view q @ es)"
proof (induction es arbitrary: q)
  case Nil
  then show ?case by simp
next
  case (Cons e es)
  have "view (fold add (e # es) q) = view (fold add es (add e q))" by simp
  also have "\<dots> = drop (length (view (add e q) @ es) - bound) (view (add e q) @ es)"
    by (rule Cons.IH) (rule view_add_bounded [OF Cons.prems])
  also have "\<dots> = drop (length ((view q @ [e]) @ es) - bound) ((view q @ [e]) @ es)"
    by (simp only: view_add [OF Cons.prems] drop_excess_append)
  finally show ?case by simp
qed

lemma view_add_suffix:
  "length (view q) \<le> bound \<Longrightarrow> \<exists>old. view q @ es = old @ view (fold add es q)"
  by (metis append_take_drop_id view_add_all)

lemma newest_kept:
  "length (view q) \<le> bound \<Longrightarrow> length es \<le> bound \<Longrightarrow>
   \<exists>old. view (fold add es q) = old @ es"
  by (simp add: view_add_all)

end

end
