(* ===== verification/Std_Map.thy ===== *)
theory Std_Map
  imports Prelude
begin

text \<open>
  The standard library's ordered map: the sequence of its entries in the order its
  iterators visit them, strictly sorted by key. Strings are ordered byte by byte, as
  \<open>std::less<std::string>\<close> orders them. The components use it for every
  \<open>std::map\<close> of the code, so that iteration order and \<open>erase(begin())\<close> mean
  what they mean there.
\<close>

type_synonym ('k, 'v) std_map = "('k \<times> 'v) list"

section \<open>Operations\<close>

text \<open>\<open>m[k] = v\<close> and \<open>insert_or_assign\<close>.\<close>

fun map_put :: "'k :: linorder \<Rightarrow> 'v \<Rightarrow> ('k, 'v) std_map \<Rightarrow> ('k, 'v) std_map" where
  "map_put k v [] = [(k, v)]"
| "map_put k v ((k', v') # m) =
     (if k < k' then (k, v) # (k', v') # m
      else if k = k' then (k, v) # m
      else (k', v') # map_put k v m)"

text \<open>\<open>m.erase(k)\<close>; \<open>m.find(k)\<close> is \<^const>\<open>map_of\<close>, \<open>m.size()\<close> is \<^const>\<open>length\<close>.\<close>

definition map_erase :: "'k \<Rightarrow> ('k, 'v) std_map \<Rightarrow> ('k, 'v) std_map" where
  "map_erase k m = filter (\<lambda>p. fst p \<noteq> k) m"

definition map_keys :: "('k, 'v) std_map \<Rightarrow> 'k list" where
  "map_keys m = map fst m"

definition map_ok :: "('k :: linorder, 'v) std_map \<Rightarrow> bool" where
  "map_ok m \<longleftrightarrow> sorted_wrt (<) (map_keys m)"

section \<open>The contract of an ordered map\<close>

locale ordered_map =
  fixes find :: "'m \<Rightarrow> 'k :: linorder \<Rightarrow> 'v option"
    and put :: "'k \<Rightarrow> 'v \<Rightarrow> 'm \<Rightarrow> 'm"
    and erase :: "'k \<Rightarrow> 'm \<Rightarrow> 'm"
    and keys :: "'m \<Rightarrow> 'k list"
    and ok :: "'m \<Rightarrow> bool"
  assumes find_put: "find (put k v m) = (find m)(k \<mapsto> v)"
    and find_erase: "find (erase k m) = (find m)(k := None)"
    and set_keys: "set (keys m) = dom (find m)"
    and keys_sorted: "ok m \<Longrightarrow> sorted_wrt (<) (keys m)"
    and ok_put: "ok m \<Longrightarrow> ok (put k v m)"
    and ok_erase: "ok m \<Longrightarrow> ok (erase k m)"
begin

lemma keys_distinct: "ok m \<Longrightarrow> distinct (keys m)"
  using keys_sorted strict_sorted_iff by blast

lemma size_put:
  assumes "ok m"
  shows "length (keys (put k v m)) = (if find m k = None then Suc (length (keys m)) else length (keys m))"
proof -
  have "length (keys m') = card (dom (find m'))" if "ok m'" for m'
    using that by (metis distinct_card keys_distinct set_keys)
  moreover have "finite (dom (find m))" by (metis List.finite_set set_keys)
  ultimately show ?thesis
    using assms by (auto simp: find_put ok_put card_insert_if)
qed

lemma size_erase:
  assumes "ok m"
  shows "length (keys (erase k m)) = (if find m k = None then length (keys m) else length (keys m) - 1)"
proof -
  have "length (keys m') = card (dom (find m'))" if "ok m'" for m'
    using that by (metis distinct_card keys_distinct set_keys)
  moreover have "finite (dom (find m))" by (metis List.finite_set set_keys)
  ultimately show ?thesis
    using assms by (auto simp: find_erase ok_erase domIff)
qed

lemma hd_keys_least:
  assumes "ok m" and "find m k = Some v"
  shows "keys m \<noteq> [] \<and> hd (keys m) \<le> k"
proof -
  from assms(2) have k: "k \<in> set (keys m)" by (auto simp: set_keys)
  then obtain a ks where ks: "keys m = a # ks" by (cases "keys m") auto
  with k keys_sorted [OF assms(1)] show ?thesis by (auto intro: less_imp_le)
qed

end

section \<open>The model satisfies it\<close>

lemma map_of_put [container_simps]: "map_of (map_put k v m) = (map_of m)(k \<mapsto> v)"
  by (induction k v m rule: map_put.induct) (auto simp: fun_eq_iff)

lemma map_of_erase [container_simps]: "map_of (map_erase k m) = (map_of m)(k := None)"
  by (induction m) (auto simp: map_erase_def fun_eq_iff)

lemma set_map_keys: "set (map_keys m) = dom (map_of m)"
  by (simp add: map_keys_def dom_map_of_conv_image_fst)

lemma set_keys_put: "set (map_keys (map_put k v m)) = insert k (set (map_keys m))"
  by (simp add: set_map_keys map_of_put)

lemma map_ok_put [invariant_intros]: "map_ok m \<Longrightarrow> map_ok (map_put k v m)"
proof (induction k v m rule: map_put.induct)
  case (1 k v)
  then show ?case by (simp add: map_ok_def map_keys_def)
next
  case (2 k v k' v' m)
  from "2.prems" have tl: "map_ok m" and below: "\<forall>x\<in>set (map_keys m). k' < x"
    by (auto simp: map_ok_def map_keys_def)
  show ?case
  proof (cases "k \<le> k'")
    case True
    with tl below show ?thesis by (auto simp: map_ok_def map_keys_def)
  next
    case False
    with "2.IH" tl have "map_ok (map_put k v m)" by auto
    with False below show ?thesis
      using set_keys_put [of k v m] by (auto simp: map_ok_def map_keys_def)
  qed
qed

lemma map_ok_erase [invariant_intros]: "map_ok m \<Longrightarrow> map_ok (map_erase k m)"
  by (simp add: map_ok_def map_keys_def map_erase_def sorted_wrt_map sorted_wrt_filter)

lemma map_ok_Nil [simp]: "map_ok []"
  by (simp add: map_ok_def map_keys_def)

lemma map_ok_tl: "map_ok m \<Longrightarrow> map_ok (tl m)"
  by (cases m) (auto simp: map_ok_def map_keys_def)

interpretation std_map: ordered_map map_of map_put map_erase map_keys map_ok
  by unfold_locales (auto simp: map_of_put map_of_erase set_map_keys map_ok_def
      intro: map_ok_put [unfolded map_ok_def] map_ok_erase [unfolded map_ok_def])

lemma length_map_put:
  "map_ok m \<Longrightarrow> length (map_put k v m) = (if map_of m k = None then Suc (length m) else length m)"
  using std_map.size_put [of m k v] by (simp add: map_keys_def)

lemma length_map_erase:
  "map_ok m \<Longrightarrow> length (map_erase k m) = (if map_of m k = None then length m else length m - 1)"
  using std_map.size_erase [of m k] by (simp add: map_keys_def)

lemma map_of_tl_ok:
  "map_ok m \<Longrightarrow> m \<noteq> [] \<Longrightarrow> map_of (tl m) = (map_of m)(fst (hd m) := None)"
proof (cases m)
  case (Cons p ms)
  assume "map_ok m"
  with Cons have "\<forall>q\<in>set ms. fst p < fst q" by (auto simp: map_ok_def map_keys_def)
  then have "map_of ms (fst p) = None" by (auto simp: map_of_eq_None_iff)
  with Cons show ?thesis by (auto simp: fun_eq_iff)
qed simp

lemma map_ok_distinct: "map_ok m \<Longrightarrow> distinct (map fst m)"
  using std_map.keys_distinct by (simp add: map_keys_def)

lemma map_of_eq_memI: "map_ok m \<Longrightarrow> map_of m k = Some v \<longleftrightarrow> (k, v) \<in> set m"
  using map_ok_distinct by (metis map_of_SomeD map_of_is_SomeI)

end
