(* ===== verification/Lru_Cache.thy ===== *)
theory Lru_Cache
  imports Complex_Main Std_Map
begin

text \<open>
  The cross-request cache of \<open>ngx_lua_cpp_t\<close> (\<open>lru_cache_t\<close> in
  \<open>ngx_lua_cpp.cpp\<close>, with \<open>cache_set\<close>, \<open>cache_get\<close> and \<open>cache_stats\<close>).

  A node of the \<open>std::list\<close> is a pair of its address and its key, so that the
  iterators stored in \<open>iters\<close> are addresses and stay valid when a node is spliced.
  An operation that would follow a stale iterator or take the last node of an empty
  list has no result (\<^const>\<open>None\<close>). Times are the code's \<open>double\<close> milliseconds read as
  real numbers; the clock is an argument of each operation. The mutex makes
  each operation atomic.
\<close>

section \<open>State and operations\<close>

record lru_cache_t =
  max_entries :: nat
  hits :: size_t
  misses :: size_t
  evictions :: size_t
  lru :: "(nat \<times> string) list" \<comment> \<open>front is most recently used\<close>
  entries :: "(string, string \<times> real) std_map" \<comment> \<open>value and expiry time, 0 is never\<close>
  iters :: "(string, nat) std_map" \<comment> \<open>key to the address of its list node\<close>
  next_node :: nat \<comment> \<open>the address the next list node gets\<close>

definition lru_cache_init :: lru_cache_t where
  "lru_cache_init = \<lparr>max_entries = 1024, hits = 0, misses = 0, evictions = 0,
     lru = [], entries = [], iters = [], next_node = 0\<rparr>"

text \<open>\<open>lru.splice(lru.begin(), lru, it)\<close> and \<open>lru.erase(it)\<close> for the iterator \<open>it\<close>.\<close>

definition list_splice_front :: "nat \<Rightarrow> (nat \<times> string) list \<Rightarrow> (nat \<times> string) list option" where
  "list_splice_front it l =
     (case map_of l it of
        None \<Rightarrow> None
      | Some k \<Rightarrow> Some ((it, k) # filter (\<lambda>p. fst p \<noteq> it) l))"

definition list_erase :: "nat \<Rightarrow> (nat \<times> string) list \<Rightarrow> (nat \<times> string) list option" where
  "list_erase it l =
     (case map_of l it of None \<Rightarrow> None | Some k \<Rightarrow> Some (filter (\<lambda>p. fst p \<noteq> it) l))"

text \<open>The eviction branch of \<open>set\<close>.\<close>

definition lru_evict :: "lru_cache_t \<Rightarrow> lru_cache_t option" where
  "lru_evict c =
     (if length (entries c) \<ge> max_entries c then
        if lru c = [] then None
        else let victim = snd (last (lru c)) in
          Some (c\<lparr>lru := butlast (lru c),
                  entries := map_erase victim (entries c),
                  iters := map_erase victim (iters c),
                  evictions := evictions c + 1\<rparr>)
      else Some c)"

definition lru_set :: "real \<Rightarrow> lru_cache_t \<Rightarrow> string \<Rightarrow> string \<Rightarrow> real \<Rightarrow> (bool \<times> lru_cache_t) option" where
  "lru_set now c key value ttl_ms =
     (let expire = (if ttl_ms > 0 then now + ttl_ms else 0) in
      if map_of (entries c) key \<noteq> None then
        (case map_of (iters c) key of
           None \<Rightarrow> None
         | Some it \<Rightarrow>
             (case list_splice_front it (lru c) of
                None \<Rightarrow> None
              | Some l \<Rightarrow>
                  Some (True, c\<lparr>entries := map_put key (value, expire) (entries c), lru := l\<rparr>)))
      else
        (case lru_evict c of
           None \<Rightarrow> None
         | Some c1 \<Rightarrow>
             Some (True, c1\<lparr>entries := map_put key (value, expire) (entries c1),
                            lru := (next_node c1, key) # lru c1,
                            iters := map_put key (next_node c1) (iters c1),
                            next_node := next_node c1 + 1\<rparr>)))"

definition lru_get :: "real \<Rightarrow> lru_cache_t \<Rightarrow> string \<Rightarrow> ((bool \<times> string \<times> real) \<times> lru_cache_t) option" where
  "lru_get now c key =
     (case map_of (entries c) key of
        None \<Rightarrow> Some ((False, [], 0), c\<lparr>misses := misses c + 1\<rparr>)
      | Some (value, expire) \<Rightarrow>
          (case map_of (iters c) key of
             None \<Rightarrow> None
           | Some it \<Rightarrow>
               if expire > 0 \<and> now \<ge> expire then
                 (case list_erase it (lru c) of
                    None \<Rightarrow> None
                  | Some l \<Rightarrow>
                      Some ((False, [], 0),
                        c\<lparr>entries := map_erase key (entries c), lru := l,
                          iters := map_erase key (iters c), misses := misses c + 1\<rparr>))
               else
                 (case list_splice_front it (lru c) of
                    None \<Rightarrow> None
                  | Some l \<Rightarrow>
                      Some ((True, value, if expire > 0 then expire - now else 0),
                        c\<lparr>hits := hits c + 1, lru := l\<rparr>))))"

definition lru_stats :: "lru_cache_t \<Rightarrow> (string, real) std_map" where
  "lru_stats c =
     map_put ''evictions'' (real (unat (evictions c)))
     (map_put ''misses'' (real (unat (misses c)))
     (map_put ''hits'' (real (unat (hits c)))
     (map_put ''max_entries'' (real (max_entries c))
     (map_put ''entries'' (real (length (entries c))) []))))"

text \<open>The methods of the bridge: \<open>cache_set\<close> clamps the lifetime to one day.\<close>

definition cache_set :: "real \<Rightarrow> lru_cache_t \<Rightarrow> string \<Rightarrow> string \<Rightarrow> real \<Rightarrow> (bool \<times> lru_cache_t) option" where
  "cache_set now c key value ttl_ms = lru_set now c key value (min (max ttl_ms 0) 86400000)"

definition cache_get :: "real \<Rightarrow> lru_cache_t \<Rightarrow> string \<Rightarrow> ((bool \<times> string \<times> real) \<times> lru_cache_t) option" where
  "cache_get now c key = lru_get now c key"

section \<open>Invariant and abstraction\<close>

definition lru_ok :: "lru_cache_t \<Rightarrow> bool" where
  "lru_ok c \<longleftrightarrow>
     map_ok (entries c) \<and> map_ok (iters c) \<and>
     distinct (map fst (lru c)) \<and> distinct (map snd (lru c)) \<and>
     set (map snd (lru c)) = dom (map_of (entries c)) \<and>
     (\<forall>k n. map_of (iters c) k = Some n \<longleftrightarrow> (n, k) \<in> set (lru c)) \<and>
     (\<forall>p \<in> set (lru c). fst p < next_node c) \<and>
     0 < max_entries c \<and> length (lru c) \<le> max_entries c"

text \<open>The cache as its users see it: the entries in order of recency.\<close>

definition lru_abs :: "lru_cache_t \<Rightarrow> (string \<times> string \<times> real) list" where
  "lru_abs c = map (\<lambda>(n, k). (k, the (map_of (entries c) k))) (lru c)"

text \<open>The abstract cache: storing puts the entry in front and cuts the list at its capacity.\<close>

definition spec_set :: "nat \<Rightarrow> real \<Rightarrow> string \<Rightarrow> string \<Rightarrow> real \<Rightarrow>
    (string \<times> string \<times> real) list \<Rightarrow> (string \<times> string \<times> real) list" where
  "spec_set cap now key value ttl l =
     take cap ((key, value, if ttl > 0 then now + ttl else 0) # filter (\<lambda>p. fst p \<noteq> key) l)"

definition spec_get :: "real \<Rightarrow> string \<Rightarrow> (string \<times> string \<times> real) list \<Rightarrow>
    (bool \<times> string \<times> real) \<times> (string \<times> string \<times> real) list" where
  "spec_get now key l =
     (case map_of l key of
        None \<Rightarrow> ((False, [], 0), l)
      | Some (v, e) \<Rightarrow>
          if e > 0 \<and> now \<ge> e then ((False, [], 0), filter (\<lambda>p. fst p \<noteq> key) l)
          else ((True, v, if e > 0 then e - now else 0),
                (key, v, e) # filter (\<lambda>p. fst p \<noteq> key) l))"

lemma lru_okD:
  assumes "lru_ok c"
  shows "map_ok (entries c)" "map_ok (iters c)" "distinct (map fst (lru c))"
    "distinct (map snd (lru c))" "set (map snd (lru c)) = dom (map_of (entries c))"
    "\<And>k n. map_of (iters c) k = Some n \<longleftrightarrow> (n, k) \<in> set (lru c)"
    "\<And>p. p \<in> set (lru c) \<Longrightarrow> fst p < next_node c" "0 < max_entries c"
    "length (lru c) \<le> max_entries c"
  using assms unfolding lru_ok_def by blast+

lemma lru_ok_init: "lru_ok lru_cache_init"
  by (simp add: lru_ok_def lru_cache_init_def)

lemma map_of_lru_iff: "lru_ok c \<Longrightarrow> map_of (lru c) n = Some k \<longleftrightarrow> (n, k) \<in> set (lru c)"
  using lru_okD(3) by (metis map_of_SomeD map_of_is_SomeI)

lemma length_entries: "lru_ok c \<Longrightarrow> length (entries c) = length (lru c)"
  by (metis length_map lru_okD(1,4,5) distinct_card map_ok_distinct dom_map_of_conv_image_fst set_map)

lemma map_of_abs: "lru_ok c \<Longrightarrow> map_of (lru_abs c) = map_of (entries c)"
proof
  fix k
  assume ok: "lru_ok c"
  have fst_abs: "map fst (lru_abs c) = map snd (lru c)"
    by (simp add: lru_abs_def comp_def case_prod_beta)
  show "map_of (lru_abs c) k = map_of (entries c) k"
  proof (cases "map_of (entries c) k")
    case None
    with lru_okD(5) [OF ok] have "k \<notin> fst ` set (lru_abs c)"
      by (metis domIff fst_abs set_map)
    with None show ?thesis by (metis map_of_eq_None_iff)
  next
    case (Some e)
    then obtain n where "(n, k) \<in> set (lru c)"
      using lru_okD(5) [OF ok] by (metis domI imageE list.set_map prod.collapse)
    with Some have "(k, e) \<in> set (lru_abs c)" by (force simp: lru_abs_def)
    moreover have "distinct (map fst (lru_abs c))" using lru_okD(4) [OF ok] by (simp add: fst_abs)
    ultimately show ?thesis using Some by simp
  qed
qed

text \<open>A cached key has an iterator, and it points to the key's own node.\<close>

lemma cached_key_node:
  assumes "lru_ok c" and "map_of (entries c) key = Some e"
  obtains n where "map_of (iters c) key = Some n" "map_of (lru c) n = Some key"
    "(n, key) \<in> set (lru c)" "filter (\<lambda>p. fst p \<noteq> n) (lru c) = filter (\<lambda>p. snd p \<noteq> key) (lru c)"
proof -
  from assms(2) have "key \<in> set (map snd (lru c))" using lru_okD(5) [OF assms(1)] by (metis domI)
  then obtain n where mem: "(n, key) \<in> set (lru c)" by auto
  then have it: "map_of (iters c) key = Some n" by (simp add: lru_okD(6) [OF assms(1)])
  from mem have node: "map_of (lru c) n = Some key" by (simp add: map_of_lru_iff [OF assms(1)])
  have "fst p \<noteq> n \<longleftrightarrow> snd p \<noteq> key" if p: "p \<in> set (lru c)" for p
  proof
    assume "fst p \<noteq> n"
    then show "snd p \<noteq> key" using p it lru_okD(6) [OF assms(1)]
      by (metis option.inject prod.collapse)
  next
    assume "snd p \<noteq> key"
    then show "fst p \<noteq> n" using p node map_of_lru_iff [OF assms(1)]
      by (metis option.inject prod.collapse)
  qed
  then have "filter (\<lambda>p. fst p \<noteq> n) (lru c) = filter (\<lambda>p. snd p \<noteq> key) (lru c)"
    by (intro filter_cong) auto
  with it node mem that show thesis by blast
qed

section \<open>Storing\<close>

lemma filter_abs:
  "filter (\<lambda>p. fst p \<noteq> key) (lru_abs c)
   = map (\<lambda>(n, k). (k, the (map_of (entries c) k))) (filter (\<lambda>p. snd p \<noteq> key) (lru c))"
  by (simp add: lru_abs_def filter_map comp_def case_prod_beta)

lemma map_filter_key_cong:
  "(\<And>k. k \<noteq> key \<Longrightarrow> map_of e' k = map_of e k) \<Longrightarrow>
   map (\<lambda>(n, k). (k, the (map_of e' k))) (filter (\<lambda>p. snd p \<noteq> key) l)
   = map (\<lambda>(n, k). (k, the (map_of e k))) (filter (\<lambda>p. snd p \<noteq> key) l)"
  by (auto intro!: map_cong)

lemma length_filter_key:
  assumes "distinct (map snd l)" and "(n, key) \<in> set l"
  shows "Suc (length (filter (\<lambda>p. snd p \<noteq> key) l)) = length l"
proof -
  obtain xs ys where l: "l = xs @ (n, key) # ys" using assms(2) by (meson split_list)
  with assms(1) have "key \<notin> snd ` set xs" "key \<notin> snd ` set ys" by auto
  then have "filter (\<lambda>p. snd p \<noteq> key) xs = xs" "filter (\<lambda>p. snd p \<noteq> key) ys = ys"
    by (auto simp: filter_id_conv)
  with l show ?thesis by simp
qed

lemma lru_okI:
  assumes "map_ok (entries c)" "map_ok (iters c)" "distinct (map fst (lru c))"
    "distinct (map snd (lru c))" "set (map snd (lru c)) = dom (map_of (entries c))"
    "\<And>k n. map_of (iters c) k = Some n \<longleftrightarrow> (n, k) \<in> set (lru c)"
    "\<And>p. p \<in> set (lru c) \<Longrightarrow> fst p < next_node c" "0 < max_entries c"
    "length (lru c) \<le> max_entries c"
  shows "lru_ok c"
  using assms unfolding lru_ok_def by blast

lemma node_of_key_unique:
  "lru_ok c \<Longrightarrow> (n, k) \<in> set (lru c) \<Longrightarrow> (n', k) \<in> set (lru c) \<Longrightarrow> n' = n"
  using lru_okD(6) by (metis option.inject)

lemma key_of_node_unique:
  "lru_ok c \<Longrightarrow> (n, k) \<in> set (lru c) \<Longrightarrow> (n, k') \<in> set (lru c) \<Longrightarrow> k' = k"
  using map_of_lru_iff by (metis option.inject)

text \<open>Moving a node to the front keeps the invariant, whatever value its entry gets.\<close>

lemma lru_ok_front:
  assumes ok: "lru_ok c" and node: "(n, key) \<in> set (lru c)"
  shows "lru_ok (c\<lparr>entries := map_put key e (entries c),
                   lru := (n, key) # filter (\<lambda>p. snd p \<noteq> key) (lru c)\<rparr>)"
proof -
  let ?l = "(n, key) # filter (\<lambda>p. snd p \<noteq> key) (lru c)"
  note okD = lru_okD [OF ok]
  have mem: "p \<in> set ?l \<longleftrightarrow> p \<in> set (lru c)" for p
    using node by (cases p) (auto dest: node_of_key_unique [OF ok node])
  then have sets: "set ?l = set (lru c)" by blast
  have "n \<notin> fst ` set (filter (\<lambda>p. snd p \<noteq> key) (lru c))"
    by (auto dest: key_of_node_unique [OF ok node])
  then have fsts: "distinct (map fst ?l)" using okD(3) by (simp add: distinct_map_filter)
  have snds: "distinct (map snd ?l)" using okD(4) by (auto simp: distinct_map_filter)
  have len: "length ?l \<le> max_entries c"
    using length_filter_key [OF okD(4) node] okD(9) by simp
  have "key \<in> dom (map_of (entries c))" using node okD(5) by force
  moreover have "set (map snd ?l) = dom (map_of (entries c))" using okD(5) sets by (metis set_map)
  ultimately have dom: "set (map snd ?l) = dom (map_of (map_put key e (entries c)))"
    by (simp add: map_of_put insert_absorb)
  show ?thesis
  proof (rule lru_okI)
    show "map_of (iters (c\<lparr>entries := map_put key e (entries c), lru := ?l\<rparr>)) k = Some m \<longleftrightarrow>
        (m, k) \<in> set (lru (c\<lparr>entries := map_put key e (entries c), lru := ?l\<rparr>))" for k m
      using okD(6) [of k m] mem [of "(m, k)"] by simp
  next
    fix p
    assume "p \<in> set (lru (c\<lparr>entries := map_put key e (entries c), lru := ?l\<rparr>))"
    then have "p \<in> set (lru c)" using mem by simp
    then show "fst p < next_node (c\<lparr>entries := map_put key e (entries c), lru := ?l\<rparr>)"
      using okD(7) by simp
  qed (use okD(2,8) okD(1) [THEN map_ok_put] fsts snds len dom in simp_all)
qed

lemma abs_front:
  assumes "lru_ok c" and "map_of (entries c') key = Some e"
    and "lru c' = (n, key) # filter (\<lambda>p. snd p \<noteq> key) (lru c)"
    and "\<And>k. k \<noteq> key \<Longrightarrow> map_of (entries c') k = map_of (entries c) k"
  shows "lru_abs c' = (key, e) # filter (\<lambda>p. fst p \<noteq> key) (lru_abs c)"
  using assms(2,3) map_filter_key_cong [of key "entries c'" "entries c", OF assms(4)]
  by (simp add: filter_abs lru_abs_def [of c'])

lemma length_abs [simp]: "length (lru_abs c) = length (lru c)"
  by (simp add: lru_abs_def)

text \<open>Evicting the last node.\<close>

lemma lru_ok_evict:
  assumes ok: "lru_ok c" and ne: "lru c \<noteq> []"
    and v: "victim = snd (last (lru c))"
  shows "lru_ok (c\<lparr>lru := butlast (lru c), entries := map_erase victim (entries c),
            iters := map_erase victim (iters c), evictions := x\<rparr>)"
    and "victim \<notin> snd ` set (butlast (lru c))"
proof -
  note okD = lru_okD [OF ok]
  obtain n where l: "lru c = butlast (lru c) @ [(n, victim)]"
    using ne v by (metis append_butlast_last_id prod.collapse)
  show notin: "victim \<notin> snd ` set (butlast (lru c))"
    using okD(4) by (subst (asm) l) auto
  have sets: "set (lru c) = insert (n, victim) (set (butlast (lru c)))" by (subst l) simp
  have fsts: "distinct (map fst (butlast (lru c)))" using okD(3) by (subst (asm) l) auto
  have snds: "distinct (map snd (butlast (lru c)))" using okD(4) by (subst (asm) l) auto
  have dom: "set (map snd (butlast (lru c))) = dom (map_of (map_erase victim (entries c)))"
    using okD(5) notin sets by (auto simp: map_of_erase)
  have it: "map_of (map_erase victim (iters c)) k = Some m \<longleftrightarrow> (m, k) \<in> set (butlast (lru c))" for k m
    using okD(6) [of k m] notin sets by (force simp: map_of_erase)
  show "lru_ok (c\<lparr>lru := butlast (lru c), entries := map_erase victim (entries c),
            iters := map_erase victim (iters c), evictions := x\<rparr>)"
    by (rule lru_okI)
      (use okD(7,8,9) okD(1,2) [THEN map_ok_erase] fsts snds dom it sets in auto)
qed

text \<open>Linking a new node in front of the list.\<close>

lemma lru_ok_insert:
  assumes ok: "lru_ok c" and new: "map_of (entries c) key = None"
    and room: "length (lru c) < max_entries c"
  shows "lru_ok (c\<lparr>entries := map_put key e (entries c), lru := (next_node c, key) # lru c,
            iters := map_put key (next_node c) (iters c), next_node := next_node c + 1\<rparr>)"
proof -
  note okD = lru_okD [OF ok]
  have key: "key \<notin> snd ` set (lru c)" using new okD(5) by (metis domIff set_map)
  have addr: "next_node c \<notin> fst ` set (lru c)" using okD(7) by force
  have it: "map_of (map_put key (next_node c) (iters c)) k = Some m \<longleftrightarrow>
      (m, k) \<in> insert (next_node c, key) (set (lru c))" for k m
    using okD(6) [of k m] key by (force simp: map_of_put)
  have dom: "insert key (set (map snd (lru c))) = dom (map_of (map_put key e (entries c)))"
    using okD(5) by (simp add: map_of_put)
  have bnd: "fst p < next_node c + 1" if "p \<in> insert (next_node c, key) (set (lru c))" for p
    using that okD(7) [of p] by auto
  show ?thesis
  proof (rule lru_okI, goal_cases)
    case (6 k m)
    show ?case using it [of k m] by simp
  next
    case (7 p)
    then show ?case using bnd [of p] by simp
  qed (use okD(3,4,8) okD(1,2) [THEN map_ok_put] key addr dom room in simp_all)
qed

text \<open>What \<open>lru_evict\<close> leaves behind: room for one entry, and the old list without its last entry.\<close>

lemma lru_evict_ok:
  assumes ok: "lru_ok c"
  obtains c1 where "lru_evict c = Some c1" "lru_ok c1" "length (lru c1) < max_entries c1"
    "max_entries c1 = max_entries c" "hits c1 = hits c" "misses c1 = misses c"
    "lru_abs c1 = take (max_entries c - 1) (lru_abs c)"
    "evictions c1 = (if length (lru_abs c) \<ge> max_entries c then evictions c + 1 else evictions c)"
    "\<And>k. map_of (entries c) k = None \<Longrightarrow> map_of (entries c1) k = None"
proof (cases "length (entries c) \<ge> max_entries c")
  case False
  with ok have "length (lru c) < max_entries c" by (simp add: length_entries)
  with False ok show thesis
    by (intro that [of c]) (auto simp: lru_evict_def length_entries)
next
  case True
  note okD = lru_okD [OF ok]
  from True ok have len: "length (lru c) = max_entries c" using okD(9) by (simp add: length_entries)
  then have ne: "lru c \<noteq> []" using okD(8) by auto
  define victim where "victim = snd (last (lru c))"
  define c1 where "c1 = c\<lparr>lru := butlast (lru c), entries := map_erase victim (entries c),
     iters := map_erase victim (iters c), evictions := evictions c + 1\<rparr>"
  note ev = lru_ok_evict [OF ok ne victim_def]
  have "lru_abs c1 = map (\<lambda>(n, k). (k, the (map_of (entries c) k))) (butlast (lru c))"
    using ev(2) by (force simp: c1_def lru_abs_def map_of_erase)
  also have "\<dots> = take (max_entries c - 1) (lru_abs c)"
    by (simp add: lru_abs_def butlast_conv_take len take_map)
  finally have abs: "lru_abs c1 = take (max_entries c - 1) (lru_abs c)" .
  have "lru_evict c = Some c1"
    using True ne by (simp add: lru_evict_def c1_def victim_def Let_def)
  moreover have "lru_ok c1" unfolding c1_def by (rule ev(1))
  moreover have "length (lru c1) < max_entries c1" using len okD(8) by (simp add: c1_def)
  ultimately show thesis
    using abs len by (intro that [of c1]) (auto simp: c1_def map_of_erase)
qed

lemma take_filter_absent:
  "0 < cap \<Longrightarrow> map_of l key = None \<Longrightarrow>
   take cap (x # filter (\<lambda>p. fst p \<noteq> key) l) = x # take (cap - 1) l"
proof -
  assume "0 < cap" and "map_of l key = None"
  then have "filter (\<lambda>p. fst p \<noteq> key) l = l"
    by (auto simp: filter_id_conv map_of_eq_None_iff)
  with \<open>0 < cap\<close> show ?thesis by (cases cap) auto
qed

lemma lru_set_correct:
  assumes ok: "lru_ok c"
  shows "\<exists>c'. lru_set now c key value ttl = Some (True, c') \<and> lru_ok c' \<and>
    lru_abs c' = spec_set (max_entries c) now key value ttl (lru_abs c) \<and>
    max_entries c' = max_entries c \<and> hits c' = hits c \<and> misses c' = misses c \<and>
    evictions c' = (if map_of (lru_abs c) key = None \<and> length (lru_abs c) \<ge> max_entries c
                    then evictions c + 1 else evictions c)"
proof (cases "map_of (entries c) key")
  case (Some e)
  from cached_key_node [OF ok Some] obtain n where n: "map_of (iters c) key = Some n"
    "map_of (lru c) n = Some key" "(n, key) \<in> set (lru c)"
    "filter (\<lambda>p. fst p \<noteq> n) (lru c) = filter (\<lambda>p. snd p \<noteq> key) (lru c)" .
  define e' where "e' = (value, if ttl > 0 then now + ttl else 0 :: real)"
  define c' where "c' = c\<lparr>entries := map_put key e' (entries c),
      lru := (n, key) # filter (\<lambda>p. snd p \<noteq> key) (lru c)\<rparr>"
  have "lru_abs c' = (key, e') # filter (\<lambda>p. fst p \<noteq> key) (lru_abs c)"
    by (rule abs_front [OF ok, where n = n]) (auto simp: c'_def map_of_put)
  moreover have "lru_ok c'" unfolding c'_def by (rule lru_ok_front [OF ok n(3)])
  moreover from this have "length (lru_abs c') \<le> max_entries c"
    using lru_okD(9) by (fastforce simp: c'_def)
  ultimately have "lru_abs c' = spec_set (max_entries c) now key value ttl (lru_abs c)"
    by (simp add: spec_set_def e'_def)
  moreover have "lru_set now c key value ttl = Some (True, c')"
    using Some n by (simp add: lru_set_def list_splice_front_def c'_def e'_def Let_def)
  ultimately show ?thesis
    using \<open>lru_ok c'\<close> Some by (auto simp: c'_def map_of_abs [OF ok])
next
  case None
  obtain c1 where c1: "lru_evict c = Some c1" "lru_ok c1" "length (lru c1) < max_entries c1"
    "max_entries c1 = max_entries c" "hits c1 = hits c" "misses c1 = misses c"
    "lru_abs c1 = take (max_entries c - 1) (lru_abs c)"
    "evictions c1 = (if length (lru_abs c) \<ge> max_entries c then evictions c + 1 else evictions c)"
    "\<And>k. map_of (entries c) k = None \<Longrightarrow> map_of (entries c1) k = None"
    using lru_evict_ok [OF ok] by blast
  define e' where "e' = (value, if ttl > 0 then now + ttl else 0 :: real)"
  define c' where "c' = c1\<lparr>entries := map_put key e' (entries c1), lru := (next_node c1, key) # lru c1,
      iters := map_put key (next_node c1) (iters c1), next_node := next_node c1 + 1\<rparr>"
  have absent: "map_of (lru_abs c) key = None" using None by (simp add: map_of_abs [OF ok])
  have "lru_abs c' = (key, e') # lru_abs c1"
  proof -
    have "key \<notin> snd ` set (lru c1)" using c1(9) [OF None] lru_okD(5) [OF c1(2)] by (metis domIff set_map)
    then show ?thesis by (force simp: lru_abs_def c'_def map_of_put)
  qed
  then have "lru_abs c' = spec_set (max_entries c) now key value ttl (lru_abs c)"
    using lru_okD(8) [OF ok] absent by (simp add: spec_set_def e'_def take_filter_absent c1(7))
  moreover have "lru_ok c'" unfolding c'_def by (rule lru_ok_insert [OF c1(2) c1(9) [OF None] c1(3)])
  moreover have "lru_set now c key value ttl = Some (True, c')"
    using None c1(1) by (simp add: lru_set_def c'_def e'_def Let_def)
  ultimately show ?thesis using absent c1(4-6,8) by (simp add: c'_def)
qed

section \<open>Looking up\<close>

lemma lru_ok_erase:
  assumes ok: "lru_ok c" and node: "(n, key) \<in> set (lru c)"
  shows "lru_ok (c\<lparr>entries := map_erase key (entries c),
            lru := filter (\<lambda>p. snd p \<noteq> key) (lru c), iters := map_erase key (iters c), misses := x\<rparr>)"
proof -
  note okD = lru_okD [OF ok]
  show ?thesis
  proof (rule lru_okI, goal_cases)
    case 5
    show ?case using okD(5) by (auto simp: map_of_erase)
  next
    case (6 k m)
    show ?case using okD(6) [of k m] by (auto simp: map_of_erase)
  next
    case 9
    show ?case using okD(9) le_trans [OF length_filter_le [of "\<lambda>p. snd p \<noteq> key" "lru c"]] by simp
  qed (use okD(3,4,7,8) okD(1,2) [THEN map_ok_erase] in \<open>simp_all add: distinct_map_filter\<close>)
qed

lemma lru_ok_hit:
  assumes ok: "lru_ok c" and node: "(n, key) \<in> set (lru c)" and e: "map_of (entries c) key = Some e"
  shows "lru_ok (c\<lparr>hits := x, lru := (n, key) # filter (\<lambda>p. snd p \<noteq> key) (lru c)\<rparr>)"
proof -
  have "map_put k v m = m" if "map_ok m" "map_of m k = Some v" for k :: string and v :: "string \<times> real" and m
    using that
  proof (induction k v m rule: map_put.induct)
    case (2 k v k' v' m)
    then have "map_ok m" and "\<forall>q \<in> set m. k' < fst q" by (auto simp: map_ok_def map_keys_def)
    with 2 show ?case by (force dest: map_of_SomeD)
  qed simp
  then have same: "map_put key e (entries c) = entries c" using e lru_okD(1) [OF ok] by blast
  have "lru_ok (c\<lparr>entries := map_put key e (entries c), lru := (n, key) # filter (\<lambda>p. snd p \<noteq> key) (lru c)\<rparr>)"
    by (rule lru_ok_front [OF ok node])
  then show ?thesis unfolding same by (simp add: lru_ok_def)
qed

lemma lru_get_correct:
  assumes ok: "lru_ok c"
  shows "\<exists>r c'. lru_get now c key = Some (r, c') \<and> lru_ok c' \<and>
    spec_get now key (lru_abs c) = (r, lru_abs c') \<and>
    max_entries c' = max_entries c \<and> evictions c' = evictions c \<and>
    (if fst r then hits c' = hits c + 1 \<and> misses c' = misses c
     else hits c' = hits c \<and> misses c' = misses c + 1)"
proof (cases "map_of (entries c) key")
  case None
  define c' where "c' = c\<lparr>misses := misses c + 1\<rparr>"
  have "lru_ok c'" using ok by (simp add: lru_ok_def c'_def)
  moreover have "lru_abs c' = lru_abs c" by (simp add: lru_abs_def c'_def)
  ultimately show ?thesis using None
    by (auto simp: lru_get_def spec_get_def map_of_abs [OF ok] c'_def)
next
  case (Some e)
  obtain v x where e: "e = (v, x)" by (cases e)
  from cached_key_node [OF ok Some] obtain n where n: "map_of (iters c) key = Some n"
    "map_of (lru c) n = Some key" "(n, key) \<in> set (lru c)"
    "filter (\<lambda>p. fst p \<noteq> n) (lru c) = filter (\<lambda>p. snd p \<noteq> key) (lru c)" .
  show ?thesis
  proof (cases "x > 0 \<and> now \<ge> x")
    case True
    define c' where "c' = c\<lparr>entries := map_erase key (entries c),
        lru := filter (\<lambda>p. snd p \<noteq> key) (lru c), iters := map_erase key (iters c), misses := misses c + 1\<rparr>"
    have ok': "lru_ok c'" unfolding c'_def by (rule lru_ok_erase [OF ok n(3)])
    have "lru_abs c' = filter (\<lambda>p. fst p \<noteq> key) (lru_abs c)"
      using map_filter_key_cong [of key "entries c'" "entries c" "lru c"]
      unfolding filter_abs lru_abs_def [of c'] by (simp add: c'_def map_of_erase)
    moreover have "lru_get now c key = Some ((False, [], 0), c')"
      using Some e n True by (simp add: lru_get_def list_erase_def c'_def)
    ultimately show ?thesis using ok' True Some e
      by (auto simp: spec_get_def map_of_abs [OF ok] c'_def)
  next
    case False
    define c' where "c' = c\<lparr>hits := hits c + 1, lru := (n, key) # filter (\<lambda>p. snd p \<noteq> key) (lru c)\<rparr>"
    have ok': "lru_ok c'" unfolding c'_def by (rule lru_ok_hit [OF ok n(3) Some])
    have "lru_abs c' = (key, e) # filter (\<lambda>p. fst p \<noteq> key) (lru_abs c)"
      by (rule abs_front [OF ok, where n = n]) (auto simp: c'_def Some)
    moreover have "lru_get now c key = Some ((True, v, if x > 0 then x - now else 0), c')"
      using Some e n False by (auto simp: lru_get_def list_splice_front_def c'_def)
    ultimately show ?thesis using ok' False Some e
      by (auto simp: spec_get_def map_of_abs [OF ok] c'_def)
  qed
qed

section \<open>Properties\<close>

text \<open>
  C16. Storing through \<open>cache_set\<close> never meets undefined behaviour, answers true, and
  implements the abstract cache: the entry, with its lifetime clamped to one day, is
  in front, the other entries keep their order, and only an insertion into a full
  cache drops (and counts) one entry, the least recently used.
\<close>

theorem cache_set_refines:
  assumes "lru_ok c"
  shows "\<exists>c'. cache_set now c key value ttl = Some (True, c') \<and> lru_ok c' \<and>
    lru_abs c' = spec_set (max_entries c) now key value (min (max ttl 0) 86400000) (lru_abs c) \<and>
    max_entries c' = max_entries c \<and> hits c' = hits c \<and> misses c' = misses c \<and>
    evictions c' = (if map_of (lru_abs c) key = None \<and> length (lru_abs c) \<ge> max_entries c
                    then evictions c + 1 else evictions c)"
  using lru_set_correct [OF assms] by (simp add: cache_set_def)

theorem cache_set_refines_witness:
  "\<exists>c'. cache_set 5 lru_cache_init ''k'' ''v'' 10 = Some (True, c') \<and>
     lru_abs c' = [(''k'', ''v'', 15)] \<and> evictions c' = 0"
  using cache_set_refines [OF lru_ok_init, of 5 "''k''" "''v''" 10]
  by (auto simp: spec_set_def lru_abs_def lru_cache_init_def)

text \<open>
  C17. Looking up through \<open>cache_get\<close> implements the abstract cache: an entry that is
  present and not expired is returned with its remaining lifetime and becomes the most
  recent; an expired entry is removed; exactly one of the hit and miss counters moves.
\<close>

theorem cache_get_refines:
  assumes "lru_ok c"
  shows "\<exists>r c'. cache_get now c key = Some (r, c') \<and> lru_ok c' \<and>
    spec_get now key (lru_abs c) = (r, lru_abs c') \<and>
    max_entries c' = max_entries c \<and> evictions c' = evictions c \<and>
    (if fst r then hits c' = hits c + 1 \<and> misses c' = misses c
     else hits c' = hits c \<and> misses c' = misses c + 1)"
  using lru_get_correct [OF assms] by (simp add: cache_get_def)

theorem cache_get_refines_witness:
  "\<exists>c'. cache_get 5 lru_cache_init ''k'' = Some ((False, [], 0), c') \<and> misses c' = 1"
  using cache_get_refines [OF lru_ok_init, of 5 "''k''"]
  by (auto simp: spec_get_def lru_abs_def lru_cache_init_def)

text \<open>The requests of the Lua side, run one after the other under the cache's mutex.\<close>

datatype cache_request = Cache_Set real string string real | Cache_Get real string

fun cache_step :: "lru_cache_t \<Rightarrow> cache_request \<Rightarrow> lru_cache_t option" where
  "cache_step c (Cache_Set now key value ttl) = map_option snd (cache_set now c key value ttl)"
| "cache_step c (Cache_Get now key) = map_option snd (cache_get now c key)"

definition cache_inv :: "lru_cache_t \<Rightarrow> bool" where
  "cache_inv c \<longleftrightarrow> lru_ok c \<and> max_entries c = 1024"

lemma cache_step_safe: "cache_inv c \<Longrightarrow> \<exists>c'. cache_step c r = Some c' \<and> cache_inv c'"
proof (cases r)
  case (Cache_Set now key v ttl)
  assume "cache_inv c"
  with lru_set_correct [of c now key v "min (max ttl 0) 86400000"] show ?thesis
    by (auto simp: cache_inv_def Cache_Set cache_set_def)
next
  case (Cache_Get now key)
  assume "cache_inv c"
  with lru_get_correct [of c now key] show ?thesis
    by (auto simp: cache_inv_def Cache_Get cache_get_def)
qed

interpretation cache: safe_machine cache_step cache_inv
  by unfold_locales (rule cache_step_safe)

text \<open>
  C32. No sequence of cache requests meets undefined behaviour (a stale iterator, the
  last node of an empty list), and the cache never holds more than its 1024 entries,
  one list node and one iterator per entry.
\<close>

theorem cache_always_bounded:
  "\<exists>c. run_requests cache_step lru_cache_init rs = Some c \<and> lru_ok c \<and>
     length (entries c) \<le> 1024 \<and> length (lru c) = length (entries c)"
proof -
  have "cache_inv lru_cache_init" using lru_ok_init by (simp add: cache_inv_def lru_cache_init_def)
  from cache.run_safe [OF this, of rs] obtain c
    where "run_requests cache_step lru_cache_init rs = Some c" and "cache_inv c" by blast
  then show ?thesis
    using lru_okD(9) [of c] by (auto simp: cache_inv_def length_entries)
qed

text \<open>
  A stored value is found again until its lifetime ends, with the remaining
  lifetime, and is not found from then on; a value stored without lifetime stays.
\<close>

theorem cache_get_after_set:
  assumes "lru_ok c" and "cache_set t0 c key value ttl = Some (b, c1)"
    and "t0 \<le> t1" and "0 < t0" and "ttl \<le> 86400000"
  shows "\<exists>c2. cache_get t1 c1 key =
     Some (if ttl > 0 \<and> t1 \<ge> t0 + ttl then (False, [], 0)
           else (True, value, if ttl > 0 then t0 + ttl - t1 else 0), c2)"
proof -
  from lru_set_correct [OF assms(1), of t0 key "value" "min (max ttl 0) 86400000"] assms(2)
  have ok: "lru_ok c1" and abs: "lru_abs c1 =
      spec_set (max_entries c) t0 key value (min (max ttl 0) 86400000) (lru_abs c)"
    by (auto simp: cache_set_def)
  obtain cap where cap: "max_entries c = Suc cap"
    using lru_okD(8) [OF assms(1)] by (cases "max_entries c") auto
  have "map_of (lru_abs c1) key = Some (value, if ttl > 0 then t0 + ttl else 0)"
    unfolding abs cap using assms(5) by (auto simp: spec_set_def min_def max_def)
  then have "fst (spec_get t1 key (lru_abs c1)) =
      (if ttl > 0 \<and> t1 \<ge> t0 + ttl then (False, [], 0)
       else (True, value, if ttl > 0 then t0 + ttl - t1 else 0))"
    using assms(4) by (auto simp: spec_get_def)
  with lru_get_correct [OF ok, of t1 key] show ?thesis by (auto simp: cache_get_def)
qed

theorem cache_get_after_set_witness:
  "\<exists>c1 c2. cache_set 5 lru_cache_init ''k'' ''v'' 10 = Some (True, c1) \<and>
     cache_get 8 c1 ''k'' = Some ((True, ''v'', 7), c2)"
proof -
  obtain c1 where c1: "cache_set 5 lru_cache_init ''k'' ''v'' 10 = Some (True, c1)"
    using lru_set_correct [OF lru_ok_init, of 5 "''k''" "''v''" 10] by (auto simp: cache_set_def)
  from cache_get_after_set [OF lru_ok_init c1, of 8] show ?thesis using c1 by auto
qed

end
