(* ===== verification/Event_Bus.thy ===== *)
theory Event_Bus
  imports Complex_Main Std_Map
begin

text \<open>
  The in-memory event bus (\<open>event_bus_t\<close> in \<open>ngx_lua_cpp.cpp\<close>, with \<open>pub\<close> and
  \<open>events\<close> of the bridge): topics of at most 512 events, one id counter for all of
  them, and polls by cursor.

  Ids are \<open>double\<close>s in the code. They are whole numbers, exact up to \<open>2 ^ 53\<close>,
  where the increment rounds back to the same number; \<open>double_inc\<close> keeps that. Time stamps
  are an argument of \<open>bus_pub\<close>. The mutex makes each operation atomic.
\<close>

section \<open>State and operations\<close>

type_synonym bus_event_t = "real \<times> real \<times> string" \<comment> \<open>id, time stamp, payload\<close>

record event_bus_t =
  next_id :: real
  topics :: "(string, bus_event_t list) std_map"

definition event_bus_init :: event_bus_t where
  "event_bus_init = \<lparr>next_id = 1, topics = []\<rparr>"

definition double_inc :: "real \<Rightarrow> real" where
  "double_inc x = (if x < 2 ^ 53 then x + 1 else x)"

text \<open>\<open>topics[topic]\<close>, which creates an empty queue for a new topic.\<close>

definition bus_topic :: "event_bus_t \<Rightarrow> string \<Rightarrow> bus_event_t list" where
  "bus_topic b t = (case map_of (topics b) t of None \<Rightarrow> [] | Some q \<Rightarrow> q)"

definition topic_push :: "bus_event_t \<Rightarrow> bus_event_t list \<Rightarrow> bus_event_t list" where
  "topic_push e q = (let q1 = q @ [e] in if length q1 > 512 then tl q1 else q1)"

definition bus_pub :: "event_bus_t \<Rightarrow> real \<Rightarrow> string \<Rightarrow> string \<Rightarrow> event_bus_t" where
  "bus_pub b ts topic payload =
     (let id = next_id b;
          q = topic_push (id, ts, payload) (bus_topic b topic)
      in b\<lparr>next_id := double_inc id, topics := map_put topic q (topics b)\<rparr>)"

fun poll_loop :: "real \<Rightarrow> bus_event_t list \<Rightarrow> bus_event_t list \<Rightarrow> real \<Rightarrow> bus_event_t list \<times> real" where
  "poll_loop last_id [] out next = (out, next)"
| "poll_loop last_id (e # es) out next =
     (if fst e > last_id then poll_loop last_id es (out @ [e]) (fst e)
      else poll_loop last_id es out next)"

definition bus_poll :: "event_bus_t \<Rightarrow> string \<Rightarrow> real \<Rightarrow> bus_event_t list \<times> real" where
  "bus_poll b topic last_id =
     (case map_of (topics b) topic of
        None \<Rightarrow> ([], last_id)
      | Some q \<Rightarrow> poll_loop last_id q [] last_id)"

section \<open>Invariant\<close>

text \<open>Within a topic the ids grow, and every id is below the counter.\<close>

definition bus_ok :: "event_bus_t \<Rightarrow> bool" where
  "bus_ok b \<longleftrightarrow>
     map_ok (topics b) \<and> next_id b \<le> 2 ^ 53 \<and>
     (\<forall>t. length (bus_topic b t) \<le> 512 \<and> sorted_wrt (<) (map fst (bus_topic b t)) \<and>
          (\<forall>e \<in> set (bus_topic b t). fst e < next_id b))"

lemma bus_okD:
  assumes "bus_ok b"
  shows "map_ok (topics b)" "next_id b \<le> 2 ^ 53" "length (bus_topic b t) \<le> 512"
    "sorted_wrt (<) (map fst (bus_topic b t))"
    "e \<in> set (bus_topic b t) \<Longrightarrow> fst e < next_id b"
  using assms unfolding bus_ok_def by blast+

lemma bus_ok_init: "bus_ok event_bus_init"
  by (simp add: bus_ok_def event_bus_init_def bus_topic_def)

lemma topic_push_drop:
  "length q \<le> 512 \<Longrightarrow> topic_push e q = drop (length (q @ [e]) - 512) (q @ [e])"
  by (cases q; cases "length q = 512") (auto simp: topic_push_def Let_def drop_Suc)

interpretation topic: bounded_log topic_push "\<lambda>q. q" 512
  by unfold_locales (rule topic_push_drop)

lemma bus_topic_pub [refine_simps]:
  "bus_topic (bus_pub b ts t p) t' =
     (if t' = t then topic_push (next_id b, ts, p) (bus_topic b t) else bus_topic b t')"
  by (simp add: bus_topic_def bus_pub_def Let_def map_of_put)

lemma next_id_pub: "next_id b < 2 ^ 53 \<Longrightarrow> next_id (bus_pub b ts t p) = next_id b + 1"
  by (simp add: bus_pub_def Let_def double_inc_def)

lemma set_topic_push: "set (topic_push e q) \<subseteq> insert e (set q)"
  by (cases q) (auto simp: topic_push_def Let_def)

lemma sorted_wrt_tl: "sorted_wrt P xs \<Longrightarrow> sorted_wrt P (tl xs)"
  by (cases xs) auto

lemma bus_ok_pub:
  assumes ok: "bus_ok b" and room: "next_id b + 1 \<le> 2 ^ 53"
  shows "bus_ok (bus_pub b ts t p)"
proof -
  let ?e = "(next_id b, ts, p)"
  have nid: "next_id (bus_pub b ts t p) = next_id b + 1" using room by (simp add: next_id_pub)
  have "length (bus_topic (bus_pub b ts t p) t') \<le> 512 \<and>
      sorted_wrt (<) (map fst (bus_topic (bus_pub b ts t p) t')) \<and>
      (\<forall>e \<in> set (bus_topic (bus_pub b ts t p) t'). fst e < next_id b + 1)" for t'
  proof (cases "t' = t")
    case False
    then show ?thesis
      using bus_okD(3,4) [OF ok] bus_okD(5) [OF ok, where t = t'] by (force simp: bus_topic_pub)
  next
    case True
    have "sorted_wrt (<) (map fst (bus_topic b t @ [?e]))"
      using bus_okD(4,5) [OF ok] by (auto simp: sorted_wrt_append)
    then have "sorted_wrt (<) (map fst (topic_push ?e (bus_topic b t)))"
      by (simp add: topic_push_def Let_def map_tl sorted_wrt_tl)
    moreover have "\<forall>e \<in> set (topic_push ?e (bus_topic b t)). fst e < next_id b + 1"
      using set_topic_push bus_okD(5) [OF ok] by fastforce
    moreover have "length (topic_push ?e (bus_topic b t)) \<le> 512"
      by (rule topic.view_add_bounded) (rule bus_okD(3) [OF ok])
    ultimately show ?thesis using True by (simp add: bus_topic_pub)
  qed
  moreover have "map_ok (topics (bus_pub b ts t p))"
    using bus_okD(1) [OF ok] by (simp add: bus_pub_def Let_def map_ok_put)
  ultimately show ?thesis using nid room by (simp add: bus_ok_def)
qed

section \<open>Publishing a sequence of events\<close>

fun bus_pub_all :: "event_bus_t \<Rightarrow> (real \<times> string \<times> string) list \<Rightarrow> event_bus_t" where
  "bus_pub_all b [] = b"
| "bus_pub_all b ((ts, t, p) # ps) = bus_pub_all (bus_pub b ts t p) ps"

text \<open>The events that a sequence of publications adds to a topic, with their ids.\<close>

fun published :: "real \<Rightarrow> (real \<times> string \<times> string) list \<Rightarrow> string \<Rightarrow> bus_event_t list" where
  "published i [] t = []"
| "published i ((ts, t', p) # ps) t =
     (if t' = t then (i, ts, p) # published (i + 1) ps t else published (i + 1) ps t)"

lemma bus_ok_pub_all:
  "bus_ok b \<Longrightarrow> next_id b + real (length ps) \<le> 2 ^ 53 \<Longrightarrow> bus_ok (bus_pub_all b ps)"
proof (induction b ps rule: bus_pub_all.induct)
  case (2 b ts t p ps)
  then have "next_id b + 1 \<le> 2 ^ 53" by simp
  with 2 show ?case by (auto simp: bus_ok_pub next_id_pub)
qed simp

lemma bus_topic_pub_all:
  "next_id b + real (length ps) \<le> 2 ^ 53 \<Longrightarrow>
   bus_topic (bus_pub_all b ps) t = fold topic_push (published (next_id b) ps t) (bus_topic b t)"
proof (induction b ps rule: bus_pub_all.induct)
  case (2 b ts t' p ps)
  then have "next_id b < 2 ^ 53" by simp
  with 2 show ?case by (simp add: next_id_pub bus_topic_pub)
qed simp

lemma published_ids: "e \<in> set (published i ps t) \<Longrightarrow> i \<le> fst e"
  by (induction i ps t rule: published.induct) (auto split: if_splits)

section \<open>Polling\<close>

lemma poll_loop_filter:
  "poll_loop c q out next =
     (out @ filter (\<lambda>e. fst e > c) q,
      if filter (\<lambda>e. fst e > c) q = [] then next else fst (last (filter (\<lambda>e. fst e > c) q)))"
  by (induction c q out "next" rule: poll_loop.induct) auto

lemma bus_poll_filter [refine_simps]:
  "bus_poll b t c =
     (let new = filter (\<lambda>e. fst e > c) (bus_topic b t)
      in (new, if new = [] then c else fst (last new)))"
  by (auto simp: bus_poll_def bus_topic_def poll_loop_filter Let_def split: option.splits)

text \<open>The cursor a poll returns: nothing retained is above it, and it is below the counter.\<close>

lemma poll_cursor:
  assumes ok: "bus_ok b" and c: "c < next_id b"
  shows "snd (bus_poll b t c) < next_id b" and "e \<in> set (bus_topic b t) \<Longrightarrow> fst e \<le> snd (bus_poll b t c)"
proof -
  let ?new = "filter (\<lambda>e. fst e > c) (bus_topic b t)"
  have sorted: "sorted_wrt (<) (map fst ?new)"
    using bus_okD(4) [OF ok] by (simp add: sorted_wrt_map sorted_wrt_filter)
  show "snd (bus_poll b t c) < next_id b"
  proof (cases "?new = []")
    case False
    then have "last ?new \<in> set (bus_topic b t)" using last_in_set by fastforce
    with False show ?thesis using bus_okD(5) [OF ok] by (simp add: bus_poll_filter Let_def)
  qed (use c in \<open>simp add: bus_poll_filter Let_def\<close>)
  assume e: "e \<in> set (bus_topic b t)"
  show "fst e \<le> snd (bus_poll b t c)"
  proof (cases "fst e > c")
    case True
    with e have mem: "e \<in> set ?new" by simp
    then have ne: "?new \<noteq> []" by (metis empty_iff empty_set)
    then have new: "?new = butlast ?new @ [last ?new]" by simp
    have "fst e \<le> fst (last ?new)"
    proof (cases "e \<in> set (butlast ?new)")
      case True
      from sorted have "sorted_wrt (<) (map fst (butlast ?new @ [last ?new]))" using new by simp
      with True show ?thesis by (force simp: sorted_wrt_append)
    next
      case False
      with mem new show ?thesis by (metis Un_iff list.set(1,2) order.refl set_append singletonD)
    qed
    with ne show ?thesis by (simp add: bus_poll_filter Let_def)
  next
    case False
    have "c \<le> snd (bus_poll b t c)"
    proof (cases "?new = []")
      case False
      then have "last ?new \<in> set ?new" by (rule last_in_set)
      then show ?thesis by (auto simp: bus_poll_filter Let_def)
    qed (simp add: bus_poll_filter Let_def)
    with False show ?thesis by simp
  qed
qed

section \<open>Properties\<close>

text \<open>
  C27. The cursor protocol loses and repeats nothing: when a consumer polls a topic,
  other publications follow, and it polls again with the cursor the first poll
  returned, it receives exactly the events published to that topic in between, in
  order; if they are more than the 512 a topic retains, the newest 512 of them.
\<close>

theorem bus_cursor_delivery:
  assumes "bus_ok b" and "c < next_id b" and "next_id b + real (length ps) \<le> 2 ^ 53"
  shows "fst (bus_poll (bus_pub_all b ps) t (snd (bus_poll b t c)))
     = (let new = published (next_id b) ps t in drop (length new - 512) new)"
proof -
  define new where "new = published (next_id b) ps t"
  define c' where "c' = snd (bus_poll b t c)"
  note cur = poll_cursor [OF assms(1,2), where t = t, folded c'_def]
  have len: "length (bus_topic b t) \<le> 512" by (rule bus_okD(3) [OF assms(1)])
  have above: "fst e > c'" if "e \<in> set new" for e
    using that published_ids [of e "next_id b" ps t] cur(1) by (simp add: new_def)
  have "bus_topic (bus_pub_all b ps) t
      = drop (length (bus_topic b t @ new) - 512) (bus_topic b t @ new)"
    using topic.view_add_all [OF len] by (simp add: bus_topic_pub_all [OF assms(3)] new_def)
  then have kept: "bus_topic (bus_pub_all b ps) t
      = drop (length (bus_topic b t @ new) - 512) (bus_topic b t) @ drop (length new - 512) new"
    using len by simp
  have old_none: "filter (\<lambda>e. fst e > c') (drop n (bus_topic b t)) = []" for n
    using cur(2) by (force simp: filter_empty_conv dest: in_set_dropD)
  have new_all: "filter (\<lambda>e. fst e > c') (drop n new) = drop n new" for n
    using above by (force simp: filter_id_conv dest: in_set_dropD)
  have "filter (\<lambda>e. fst e > c') (bus_topic (bus_pub_all b ps) t) = drop (length new - 512) new"
    unfolding kept filter_append old_none new_all by simp
  then show ?thesis
    unfolding c'_def [symmetric] new_def [symmetric] by (simp add: bus_poll_filter Let_def)
qed

theorem bus_cursor_delivery_witness:
  "fst (bus_poll (bus_pub_all event_bus_init [(7, ''a'', ''x''), (8, ''b'', ''y''), (9, ''a'', ''z'')])
      ''a'' (snd (bus_poll event_bus_init ''a'' 0))) = [(1, 7, ''x''), (3, 9, ''z'')]"
  using bus_cursor_delivery [OF bus_ok_init, of 0 "[(7, ''a'', ''x''), (8, ''b'', ''y''), (9, ''a'', ''z'')]" "''a''"]
  by (simp add: event_bus_init_def)

text \<open>
  Whatever is published, each topic holds exactly its newest 512 events, with
  strictly increasing ids, as long as the id counter stays within the whole numbers a
  \<open>double\<close> represents exactly.
\<close>

theorem bus_retention:
  assumes "1 + real (length ps) \<le> 2 ^ 53"
  shows "bus_topic (bus_pub_all event_bus_init ps) t
       = (let all = published 1 ps t in drop (length all - 512) all)
     \<and> sorted_wrt (<) (map fst (bus_topic (bus_pub_all event_bus_init ps) t))"
proof (rule conjI)
  have room: "next_id event_bus_init + real (length ps) \<le> 2 ^ 53"
    using assms by (simp add: event_bus_init_def)
  have empty: "bus_topic event_bus_init t = []" by (simp add: event_bus_init_def bus_topic_def)
  have "length (bus_topic event_bus_init t) \<le> 512" by (simp add: empty)
  from topic.view_add_all [OF this] show "bus_topic (bus_pub_all event_bus_init ps) t
       = (let all = published 1 ps t in drop (length all - 512) all)"
    unfolding bus_topic_pub_all [OF room] empty by (simp add: event_bus_init_def Let_def)
  show "sorted_wrt (<) (map fst (bus_topic (bus_pub_all event_bus_init ps) t))"
    by (rule bus_okD(4) [OF bus_ok_pub_all [OF bus_ok_init room]])
qed

theorem bus_retention_witness:
  "bus_topic (bus_pub_all event_bus_init [(7, ''a'', ''x''), (8, ''b'', ''y'')]) ''b'' = [(2, 8, ''y'')]"
  using bus_retention [of "[(7, ''a'', ''x''), (8, ''b'', ''y'')]" "''b''"] by simp

end
