(* ===== verification/Fips_180.thy ===== *)
theory Fips_180
  imports Prelude Complex_Main
begin

unbundle bit_operations_syntax

text \<open>
  SHA-256 as FIPS 180-4 states it, written from the standard and independent of the program: the six
  logical functions over the library's rotation, the constants as the fractional parts of cube and square
  roots of primes, the message schedule as a recurrence, the rounds on eight working
  variables, the padding by arithmetic and the digest in hexadecimal. The program's SHA-256
  (theory \<open>Sha256\<close>) is compared with it.
\<close>

section \<open>Functions and constants\<close>

definition fips_Ch :: "uint32_t \<Rightarrow> uint32_t \<Rightarrow> uint32_t \<Rightarrow> uint32_t" where
  "fips_Ch x y z = (x AND y) XOR (NOT x AND z)"

definition fips_Maj :: "uint32_t \<Rightarrow> uint32_t \<Rightarrow> uint32_t \<Rightarrow> uint32_t" where
  "fips_Maj x y z = (x AND y) XOR (x AND z) XOR (y AND z)"

definition fips_Sum0 :: "uint32_t \<Rightarrow> uint32_t" where
  "fips_Sum0 x = word_rotr 2 x XOR word_rotr 13 x XOR word_rotr 22 x"

definition fips_Sum1 :: "uint32_t \<Rightarrow> uint32_t" where
  "fips_Sum1 x = word_rotr 6 x XOR word_rotr 11 x XOR word_rotr 25 x"

definition fips_sig0 :: "uint32_t \<Rightarrow> uint32_t" where
  "fips_sig0 x = word_rotr 7 x XOR word_rotr 18 x XOR drop_bit 3 x"

definition fips_sig1 :: "uint32_t \<Rightarrow> uint32_t" where
  "fips_sig1 x = word_rotr 17 x XOR word_rotr 19 x XOR drop_bit 10 x"

text \<open>The first 32 bits of the fractional part of a real number.\<close>

definition fraction32 :: "real \<Rightarrow> uint32_t" where
  "fraction32 x = of_int \<lfloor>frac x * 2 ^ 32\<rfloor>"

text \<open>
  The first 64 primes, by trial division: a composite number below \<open>324 = 18\<close> squared has a prime
  factor of at most 17.
\<close>

definition first_primes :: "nat list" where
  "first_primes = filter (\<lambda>p. list_all (\<lambda>d. p = d \<or> p mod d \<noteq> 0) [2, 3, 5, 7, 11, 13, 17]) [2..<312]"

definition fips_K :: "uint32_t list" where
  "fips_K = map (\<lambda>p. fraction32 (root 3 (real p))) first_primes"

type_synonym fips_hash = "uint32_t \<times> uint32_t \<times> uint32_t \<times> uint32_t \<times> uint32_t \<times> uint32_t \<times> uint32_t \<times> uint32_t"

definition fips_H0 :: fips_hash where
  "fips_H0 = (fraction32 (sqrt 2), fraction32 (sqrt 3), fraction32 (sqrt 5), fraction32 (sqrt 7),
     fraction32 (sqrt 11), fraction32 (sqrt 13), fraction32 (sqrt 17), fraction32 (sqrt 19))"

section \<open>Hash computation\<close>

text \<open>Word \<open>t\<close> of the schedule of a block; a word of the message is four bytes, the most significant first.\<close>

fun fips_W :: "bytes \<Rightarrow> nat \<Rightarrow> uint32_t" where
  "fips_W M t =
     (if t < 16
      then of_nat (unat (M ! (4 * t)) * 2 ^ 24 + unat (M ! (4 * t + 1)) * 2 ^ 16 +
                   unat (M ! (4 * t + 2)) * 2 ^ 8 + unat (M ! (4 * t + 3)))
      else fips_sig1 (fips_W M (t - 2)) + fips_W M (t - 7) + fips_sig0 (fips_W M (t - 15)) + fips_W M (t - 16))"

declare fips_W.simps [simp del]

fun fips_round :: "uint32_t \<Rightarrow> uint32_t \<Rightarrow> fips_hash \<Rightarrow> fips_hash" where
  "fips_round K W (a, b, c, d, e, f, g, h) =
     (let T1 = h + fips_Sum1 e + fips_Ch e f g + K + W; T2 = fips_Sum0 a + fips_Maj a b c
      in (T1 + T2, a, b, c, d + T1, e, f, g))"

primrec fips_rounds :: "bytes \<Rightarrow> nat \<Rightarrow> fips_hash \<Rightarrow> fips_hash" where
  "fips_rounds M 0 H = H"
| "fips_rounds M (Suc t) H = fips_round (fips_K ! t) (fips_W M t) (fips_rounds M t H)"

fun fips_add :: "fips_hash \<Rightarrow> fips_hash \<Rightarrow> fips_hash" where
  "fips_add (a, b, c, d, e, f, g, h) (a', b', c', d', e', f', g', h') =
     (a + a', b + b', c + c', d + d', e + e', f + f', g + g', h + h')"

definition fips_block :: "bytes \<Rightarrow> fips_hash \<Rightarrow> fips_hash" where
  "fips_block M H = fips_add (fips_rounds M 64 H) H"

section \<open>Preprocessing and digest\<close>

text \<open>
  A one bit, the fewest zero bits that leave eight bytes of a block, and the length in
  bits on eight bytes, the most significant first (its low 64 bits: the standard admits messages
  below \<open>2 ^ 64\<close> bits).
\<close>

definition fips_pad :: "bytes \<Rightarrow> bytes" where
  "fips_pad msg = msg @ [0x80] @ replicate ((64 - (length msg + 9) mod 64) mod 64) 0 @
     map (\<lambda>i. of_nat (8 * length msg div 256 ^ i mod 256)) [7, 6, 5, 4, 3, 2, 1, 0]"

primrec fips_H :: "bytes \<Rightarrow> nat \<Rightarrow> fips_hash" where
  "fips_H P 0 = fips_H0"
| "fips_H P (Suc i) = fips_block (take 64 (drop (64 * i) P)) (fips_H P i)"

definition word_hex :: "uint32_t \<Rightarrow> string" where
  "word_hex w = map (\<lambda>i. ''0123456789abcdef'' ! (unat w div 16 ^ i mod 16)) [7, 6, 5, 4, 3, 2, 1, 0]"

definition fips_sha256 :: "bytes \<Rightarrow> string" where
  "fips_sha256 msg =
     (let P = fips_pad msg; (a, b, c, d, e, f, g, h) = fips_H P (length P div 64)
      in concat (map word_hex [a, b, c, d, e, f, g, h]))"

section \<open>The values of the constants\<close>

lemma first_primes_eq:
  "first_primes = [2, 3, 5, 7, 11, 13, 17, 19, 23, 29, 31, 37, 41, 43, 47, 53, 59, 61, 67, 71, 73, 79,
     83, 89, 97, 101, 103, 107, 109, 113, 127, 131, 137, 139, 149, 151, 157, 163, 167, 173, 179,
     181, 191, 193, 197, 199, 211, 223, 227, 229, 233, 239, 241, 251, 257, 263, 269, 271, 277,
     281, 283, 293, 307, 311]"
  by (simp add: first_primes_def upt_rec_numeral)

lemma fraction32_eq:
  assumes "of_nat n \<le> x * 2 ^ 32" and "x * 2 ^ 32 < of_nat n + 1"
  shows "fraction32 x = of_nat n"
proof -
  have "\<lfloor>frac x * 2 ^ 32\<rfloor> = \<lfloor>x * 2 ^ 32 - of_int (\<lfloor>x\<rfloor> * 2 ^ 32)\<rfloor>"
    by (simp add: frac_def algebra_simps)
  also have "\<dots> = \<lfloor>x * 2 ^ 32\<rfloor> - \<lfloor>x\<rfloor> * 2 ^ 32" by linarith
  also have "\<lfloor>x * 2 ^ 32\<rfloor> = int n" using assms by linarith
  finally have "fraction32 x = of_int (int n - \<lfloor>x\<rfloor> * 2 ^ 32)" by (simp add: fraction32_def)
  also have "\<dots> = of_nat n - of_int \<lfloor>x\<rfloor> * 2 ^ 32" by simp
  also have "(2 :: uint32_t) ^ 32 = 0" by simp
  finally show ?thesis by simp
qed

lemma root_times: "0 < k \<Longrightarrow> root k (real p) * 2 ^ 32 = root k (real (p * 2 ^ (k * 32)))"
  using real_root_power_cancel [of k "2 ^ 32"]
  by (simp add: real_root_mult power_mult mult.commute [of k] real_root_power_cancel)

lemma fraction32_root:
  assumes "0 < k" and "n ^ k \<le> p * 2 ^ (k * 32)" and "p * 2 ^ (k * 32) < (n + 1) ^ k"
  shows "fraction32 (root k (real p)) = of_nat n"
proof (rule fraction32_eq)
  have "root k (real (n ^ k)) \<le> root k (real (p * 2 ^ (k * 32)))"
    using assms(1,2) by (simp only: real_root_le_iff of_nat_le_iff)
  then show "of_nat n \<le> root k (real p) * 2 ^ 32"
    unfolding root_times [OF assms(1)] using assms(1) by (simp add: real_root_power_cancel)
  have "root k (real (p * 2 ^ (k * 32))) < root k (real ((n + 1) ^ k))"
    using assms(1,3) by (simp only: real_root_less_iff of_nat_less_iff)
  also have "\<dots> = real (n + 1)" using assms(1) by (simp only: of_nat_power) (simp add: real_root_power_cancel)
  finally show "root k (real p) * 2 ^ 32 < of_nat n + 1"
    unfolding root_times [OF assms(1)] by simp
qed

lemma fractions32_root:
  "list_all2 (\<lambda>p n. n ^ k \<le> p * 2 ^ (k * 32) \<and> p * 2 ^ (k * 32) < (n + 1) ^ k) ps ns \<Longrightarrow> 0 < k \<Longrightarrow>
   map (\<lambda>p. fraction32 (root k (real p))) ps = map of_nat ns"
  by (induction rule: list_all2_induct) (simp_all add: fraction32_root)

end
