(* ===== verification/Sha256.thy ===== *)
theory Sha256
  imports Fips_180
begin

unbundle bit_operations_syntax

text \<open>
  SHA-256 as \<open>ngx_lua_cpp.cpp\<close> computes it: the streaming context, the block
  transform, \<open>sha256_update\<close>, the padding in \<open>sha256_final_hex\<close> and the wrapper
  \<open>sha256_hex_impl\<close>. A C++ string is the list of its bytes.

  The 64-byte buffer of the context is written with \<open>memcpy\<close>; a write past its end has no
  result (\<^const>\<open>None\<close>). The theory shows that it never happens, that hashing
  a message in pieces gives the same context as hashing it at once, and that the
  digest is the one of the padded message cut into blocks, as FIPS 180-4 defines it.
\<close>

section \<open>The code\<close>

definition sha256_k :: "uint32_t list" where
  "sha256_k =
     [0x428a2f98, 0x71374491, 0xb5c0fbcf, 0xe9b5dba5, 0x3956c25b, 0x59f111f1, 0x923f82a4, 0xab1c5ed5] @
     [0xd807aa98, 0x12835b01, 0x243185be, 0x550c7dc3, 0x72be5d74, 0x80deb1fe, 0x9bdc06a7, 0xc19bf174] @
     [0xe49b69c1, 0xefbe4786, 0x0fc19dc6, 0x240ca1cc, 0x2de92c6f, 0x4a7484aa, 0x5cb0a9dc, 0x76f988da] @
     [0x983e5152, 0xa831c66d, 0xb00327c8, 0xbf597fc7, 0xc6e00bf3, 0xd5a79147, 0x06ca6351, 0x14292967] @
     [0x27b70a85, 0x2e1b2138, 0x4d2c6dfc, 0x53380d13, 0x650a7354, 0x766a0abb, 0x81c2c92e, 0x92722c85] @
     [0xa2bfe8a1, 0xa81a664b, 0xc24b8b70, 0xc76c51a3, 0xd192e819, 0xd6990624, 0xf40e3585, 0x106aa070] @
     [0x19a4c116, 0x1e376c08, 0x2748774c, 0x34b0bcb5, 0x391c0cb3, 0x4ed8aa4a, 0x5b9cca4f, 0x682e6ff3] @
     [0x748f82ee, 0x78a5636f, 0x84c87814, 0x8cc70208, 0x90befffa, 0xa4506ceb, 0xbef9a3f7, 0xc67178f2]"

definition sha256_rotr :: "uint32_t \<Rightarrow> nat \<Rightarrow> uint32_t" where
  "sha256_rotr x n = drop_bit n x OR push_bit (32 - n) x"

record sha256_ctx_t =
  state :: "uint32_t list"
  bit_len :: uint64_t
  buffer :: bytes
  buffer_len :: nat

text \<open>The message schedule \<open>w\<close>: the first loop loads the block, the second extends it.\<close>

definition load_w :: "bytes \<Rightarrow> uint32_t list" where
  "load_w block = map (\<lambda>i.
     push_bit 24 (ucast (block ! (i * 4))) OR push_bit 16 (ucast (block ! (i * 4 + 1))) OR
     push_bit 8 (ucast (block ! (i * 4 + 2))) OR ucast (block ! (i * 4 + 3))) [0..<16]"

definition next_w :: "uint32_t list \<Rightarrow> uint32_t" where
  "next_w w =
     (let i = length w;
          s0 = sha256_rotr (w ! (i - 15)) 7 XOR sha256_rotr (w ! (i - 15)) 18 XOR drop_bit 3 (w ! (i - 15));
          s1 = sha256_rotr (w ! (i - 2)) 17 XOR sha256_rotr (w ! (i - 2)) 19 XOR drop_bit 10 (w ! (i - 2))
      in w ! (i - 16) + s0 + w ! (i - 7) + s1)"

fun extend_w :: "nat \<Rightarrow> uint32_t list \<Rightarrow> uint32_t list" where
  "extend_w 0 w = w"
| "extend_w (Suc n) w = extend_w n (w @ [next_w w])"

text \<open>One round on the working variables \<open>a\<close> to \<open>h\<close>, given \<open>sha256_k[i]\<close> and \<open>w[i]\<close>.\<close>

fun sha256_round :: "uint32_t list \<Rightarrow> uint32_t \<times> uint32_t \<Rightarrow> uint32_t list" where
  "sha256_round [a, b, c, d, e, f, g, h] (ki, wi) =
     (let S1 = sha256_rotr e 6 XOR sha256_rotr e 11 XOR sha256_rotr e 25;
          ch = (e AND f) XOR (NOT e AND g);
          temp1 = h + S1 + ch + ki + wi;
          S0 = sha256_rotr a 2 XOR sha256_rotr a 13 XOR sha256_rotr a 22;
          maj = (a AND b) XOR (a AND c) XOR (b AND c);
          temp2 = S0 + maj
      in [temp1 + temp2, a, b, c, d + temp1, e, f, g])"
| "sha256_round s _ = s"

definition sha256_compress :: "uint32_t list \<Rightarrow> bytes \<Rightarrow> uint32_t list" where
  "sha256_compress st block =
     map2 (+) st (foldl sha256_round st (zip sha256_k (extend_w 48 (load_w block))))"

definition sha256_transform :: "sha256_ctx_t \<Rightarrow> bytes \<Rightarrow> sha256_ctx_t" where
  "sha256_transform ctx block = ctx\<lparr>state := sha256_compress (state ctx) block\<rparr>"

definition sha256_init :: sha256_ctx_t where
  "sha256_init = \<lparr>
     state = [0x6a09e667, 0xbb67ae85, 0x3c6ef372, 0xa54ff53a,
              0x510e527f, 0x9b05688c, 0x1f83d9ab, 0x5be0cd19],
     bit_len = 0, buffer = replicate 64 0, buffer_len = 0\<rparr>"

text \<open>\<open>memcpy(buffer + pos, data, n)\<close> within the 64 bytes of the buffer.\<close>

definition buffer_copy :: "bytes \<Rightarrow> nat \<Rightarrow> bytes \<Rightarrow> bytes option" where
  "buffer_copy buf pos data =
     (if pos + length data \<le> length buf
      then Some (take pos buf @ data @ drop (pos + length data) buf) else None)"

text \<open>
  The copy loop of \<open>sha256_update\<close> and \<open>sha256_final_hex\<close>. With \<open>buffer_len \<le> 64\<close>
  every second turn takes bytes; beyond it the copy leaves the buffer, so the loop ends.
\<close>

function sha256_absorb :: "sha256_ctx_t \<Rightarrow> bytes \<Rightarrow> sha256_ctx_t option" where
  "sha256_absorb ctx data =
     (if data = [] then Some ctx
      else if buffer_len ctx > 64 then None
      else
        let tk = min (length data) (64 - buffer_len ctx) in
        case buffer_copy (buffer ctx) (buffer_len ctx) (take tk data) of
          None \<Rightarrow> None
        | Some buf \<Rightarrow>
            let ctx1 = ctx\<lparr>buffer := buf, buffer_len := buffer_len ctx + tk\<rparr>;
                ctx2 = (if buffer_len ctx1 = 64
                        then (sha256_transform ctx1 buf)\<lparr>buffer_len := 0\<rparr> else ctx1)
            in sha256_absorb ctx2 (drop tk data))"
  by pat_completeness auto
termination
proof (relation "measures [\<lambda>(c, d). length d, \<lambda>(c, d). buffer_len c]", goal_cases)
  case (2 ctx data tk buf ctx1 ctx2)
  then show ?case by (cases "buffer_len ctx = 64") (auto simp: sha256_transform_def)
qed simp

declare sha256_absorb.simps [simp del]

definition sha256_update :: "sha256_ctx_t \<Rightarrow> bytes \<Rightarrow> sha256_ctx_t option" where
  "sha256_update ctx data =
     sha256_absorb (ctx\<lparr>bit_len := bit_len ctx + of_nat (length data) * 8\<rparr>) data"

text \<open>The padding \<open>sha256_final_hex\<close> builds: 0x80, zeros, the bit length big-endian.\<close>

definition bits_be :: "uint64_t \<Rightarrow> bytes" where
  "bits_be bits = map (\<lambda>i. ucast (drop_bit (i * 8) bits)) (rev [0..<8])"

definition sha256_pad :: "sha256_ctx_t \<Rightarrow> bytes" where
  "sha256_pad ctx =
     (let zeros = (if buffer_len ctx < 56 then 56 - buffer_len ctx - 1 else 120 - buffer_len ctx - 1)
      in 0x80 # replicate zeros 0 @ bits_be (bit_len ctx))"

definition hexdigits :: bytes where
  "hexdigits = map of_char ''0123456789abcdef''"

definition hex_of_state :: "uint32_t list \<Rightarrow> bytes" where
  "hex_of_state st =
     concat (map (\<lambda>v. map (\<lambda>i. hexdigits ! unat (drop_bit (28 - 4 * i) v AND 0xf)) [0..<8]) st)"

definition sha256_final_hex :: "sha256_ctx_t \<Rightarrow> bytes option" where
  "sha256_final_hex ctx = map_option (\<lambda>c. hex_of_state (state c)) (sha256_absorb ctx (sha256_pad ctx))"

definition sha256_hex_impl :: "bytes \<Rightarrow> bytes option" where
  "sha256_hex_impl data = Option.bind (sha256_update sha256_init data) sha256_final_hex"

section \<open>One byte at a time\<close>

definition ctx_ok :: "sha256_ctx_t \<Rightarrow> bool" where
  "ctx_ok ctx \<longleftrightarrow> length (buffer ctx) = 64 \<and> buffer_len ctx < 64"

definition absorb_byte :: "sha256_ctx_t \<Rightarrow> uint8_t \<Rightarrow> sha256_ctx_t" where
  "absorb_byte ctx x =
     (let buf = (buffer ctx)[buffer_len ctx := x]; ctx1 = ctx\<lparr>buffer := buf, buffer_len := buffer_len ctx + 1\<rparr>
      in if buffer_len ctx + 1 = 64 then (sha256_transform ctx1 buf)\<lparr>buffer_len := 0\<rparr> else ctx1)"

lemma ctx_ok_init: "ctx_ok sha256_init"
  by (simp add: ctx_ok_def sha256_init_def)

lemma ctx_ok_byte [invariant_intros]: "ctx_ok ctx \<Longrightarrow> ctx_ok (absorb_byte ctx x)"
  by (auto simp: ctx_ok_def absorb_byte_def Let_def sha256_transform_def)

lemma ctx_ok_bytes [invariant_intros]: "ctx_ok ctx \<Longrightarrow> ctx_ok (foldl absorb_byte ctx xs)"
  by (induction xs arbitrary: ctx) (auto intro: ctx_ok_byte)

lemma list_update_middle:
  "pos + length ys < length buf \<Longrightarrow>
   (take pos buf @ ys @ drop (pos + length ys) buf)[pos + length ys := y]
   = take pos buf @ (ys @ [y]) @ drop (pos + length (ys @ [y])) buf"
  by (simp add: list_update_append min_def Cons_nth_drop_Suc [symmetric])

text \<open>A run of bytes that fits the buffer: what the \<open>memcpy\<close> of one turn does.\<close>

lemma absorb_bytes_fit:
  assumes "length (buffer ctx) = 64" and "xs \<noteq> []" and "buffer_len ctx + length xs \<le> 64"
  shows "foldl absorb_byte ctx xs =
     (let buf = take (buffer_len ctx) (buffer ctx) @ xs @ drop (buffer_len ctx + length xs) (buffer ctx);
          ctx1 = ctx\<lparr>buffer := buf, buffer_len := buffer_len ctx + length xs\<rparr>
      in if buffer_len ctx + length xs = 64 then (sha256_transform ctx1 buf)\<lparr>buffer_len := 0\<rparr> else ctx1)"
  using assms(2,3)
proof (induction xs rule: rev_induct)
  case Nil
  then show ?case by simp
next
  case (snoc x xs)
  have upd: "(take (buffer_len ctx) (buffer ctx) @ xs @ drop (buffer_len ctx + length xs) (buffer ctx))
        [buffer_len ctx + length xs := x]
      = take (buffer_len ctx) (buffer ctx) @ (xs @ [x]) @ drop (buffer_len ctx + length (xs @ [x])) (buffer ctx)"
    by (rule list_update_middle) (use assms(1) snoc.prems in simp)
  show ?case
  proof (cases "xs = []")
    case True
    with upd show ?thesis by (auto simp: absorb_byte_def Let_def)
  next
    case False
    define ctx1 where "ctx1 = ctx\<lparr>buffer := take (buffer_len ctx) (buffer ctx) @ xs @
        drop (buffer_len ctx + length xs) (buffer ctx), buffer_len := buffer_len ctx + length xs\<rparr>"
    from False snoc have "foldl absorb_byte ctx xs = ctx1" by (simp add: Let_def ctx1_def)
    then have step: "foldl absorb_byte ctx (xs @ [x]) = absorb_byte ctx1 x" by simp
    show ?thesis
      unfolding step absorb_byte_def [of ctx1 x] using upd by (auto simp: ctx1_def Let_def)
  qed
qed

text \<open>The copy loop stays inside the buffer and feeds the bytes one after the other.\<close>

lemma absorb_eq_bytes:
  "ctx_ok ctx \<Longrightarrow> sha256_absorb ctx data = Some (foldl absorb_byte ctx data)"
proof (induction ctx data rule: sha256_absorb.induct)
  case (1 ctx data)
  show ?case
  proof (cases "data = []")
    case True
    then show ?thesis by (simp add: sha256_absorb.simps)
  next
    case False
    define tk where "tk = min (length data) (64 - buffer_len ctx)"
    define buf where "buf = take (buffer_len ctx) (buffer ctx) @ take tk data @
        drop (buffer_len ctx + length (take tk data)) (buffer ctx)"
    define ctx1 where "ctx1 = ctx\<lparr>buffer := buf, buffer_len := buffer_len ctx + tk\<rparr>"
    define ctx2 where "ctx2 = (if buffer_len ctx1 = 64
        then (sha256_transform ctx1 buf)\<lparr>buffer_len := 0\<rparr> else ctx1)"
    have ok: "length (buffer ctx) = 64" "buffer_len ctx < 64" using "1.prems" by (auto simp: ctx_ok_def)
    have tk: "length (take tk data) = tk" "take tk data \<noteq> []" "buffer_len ctx + tk \<le> 64"
      using False ok by (auto simp: tk_def)
    have copy: "buffer_copy (buffer ctx) (buffer_len ctx) (take tk data) = Some buf"
      using ok tk by (simp add: buffer_copy_def buf_def)
    have fit: "foldl absorb_byte ctx (take tk data) = ctx2"
      using absorb_bytes_fit [OF ok(1) tk(2)] tk ok
      by (simp add: ctx2_def ctx1_def buf_def Let_def)
    have step: "sha256_absorb ctx data = sha256_absorb ctx2 (drop tk data)"
      using False ok copy
      by (subst sha256_absorb.simps) (simp add: tk_def [symmetric] ctx1_def [symmetric] ctx2_def Let_def)
    have "ctx_ok ctx2" unfolding fit [symmetric] by (rule ctx_ok_bytes [OF "1.prems"])
    with "1.IH" [OF False _ tk_def copy ctx1_def ctx2_def] ok
    have "sha256_absorb ctx2 (drop tk data) = Some (foldl absorb_byte ctx2 (drop tk data))" by simp
    then show ?thesis
      unfolding step fit [symmetric] by (simp add: foldl_append [symmetric])
  qed
qed

lemma bit_len_byte [simp]: "bit_len (absorb_byte ctx x) = bit_len ctx"
  by (simp add: absorb_byte_def Let_def sha256_transform_def)

lemma absorb_byte_bit_len: "absorb_byte (ctx\<lparr>bit_len := n\<rparr>) x = (absorb_byte ctx x)\<lparr>bit_len := n\<rparr>"
  by (simp add: absorb_byte_def Let_def sha256_transform_def)

lemma absorb_bytes_bit_len:
  "foldl absorb_byte (ctx\<lparr>bit_len := n\<rparr>) xs = (foldl absorb_byte ctx xs)\<lparr>bit_len := n\<rparr>"
  by (induction xs arbitrary: ctx) (simp_all add: absorb_byte_bit_len)

lemma bit_len_bytes [simp]: "bit_len (foldl absorb_byte ctx xs) = bit_len ctx"
  by (induction xs arbitrary: ctx) simp_all

lemma update_eq_bytes [refine_simps]:
  "ctx_ok ctx \<Longrightarrow> sha256_update ctx data =
     Some ((foldl absorb_byte ctx data)\<lparr>bit_len := bit_len ctx + of_nat (length data) * 8\<rparr>)"
  by (simp add: sha256_update_def absorb_eq_bytes ctx_ok_def absorb_bytes_bit_len)

lemma ctx_ok_update: "ctx_ok ctx \<Longrightarrow> sha256_update ctx data = Some ctx' \<Longrightarrow> ctx_ok ctx'"
  using ctx_ok_bytes by (fastforce simp: update_eq_bytes ctx_ok_def)

section \<open>The digest of a padded message\<close>

text \<open>FIPS 180-4: pad to whole blocks, then compress block by block from the initial state.\<close>

fun blocks :: "bytes \<Rightarrow> bytes list" where
  "blocks xs = (if length xs < 64 then [] else take 64 xs # blocks (drop 64 xs))"

declare blocks.simps [simp del]

definition spec_pad :: "bytes \<Rightarrow> bytes" where
  "spec_pad msg = 0x80 # replicate ((119 - length msg mod 64) mod 64) 0 @
     bits_be (of_nat (length msg) * 8)"

definition spec_state :: "bytes \<Rightarrow> uint32_t list" where
  "spec_state msg = foldl sha256_compress (state sha256_init) (blocks (msg @ spec_pad msg))"

text \<open>The context after a message: the whole blocks are compressed, the rest is in the buffer.\<close>

definition absorbed :: "sha256_ctx_t \<Rightarrow> bytes list \<Rightarrow> bytes \<Rightarrow> bool" where
  "absorbed ctx bs rest \<longleftrightarrow>
     ctx_ok ctx \<and> (\<forall>b \<in> set bs. length b = 64) \<and>
     state ctx = foldl sha256_compress (state sha256_init) bs \<and>
     buffer_len ctx = length rest \<and> take (length rest) (buffer ctx) = rest"

lemma absorbed_init: "absorbed sha256_init [] []"
  by (simp add: absorbed_def ctx_ok_init) (simp add: sha256_init_def)

lemma absorbed_byte:
  assumes "absorbed ctx bs rest"
  shows "if length rest = 63 then absorbed (absorb_byte ctx x) (bs @ [rest @ [x]]) []
         else absorbed (absorb_byte ctx x) bs (rest @ [x])"
proof -
  from assms have a: "length (buffer ctx) = 64" "buffer_len ctx = length rest" "length rest < 64"
    "take (length rest) (buffer ctx) = rest" "state ctx = foldl sha256_compress (state sha256_init) bs"
    "\<forall>b \<in> set bs. length b = 64"
    by (auto simp: absorbed_def ctx_ok_def)
  have upd: "take (Suc (length rest)) ((buffer ctx)[length rest := x]) = rest @ [x]"
    using a(1,3,4) by (simp add: take_Suc_conv_app_nth)
  have ok: "ctx_ok (absorb_byte ctx x)" using assms by (simp add: absorbed_def ctx_ok_byte)
  show ?thesis
  proof (cases "length rest = 63")
    case True
    then have "(buffer ctx)[length rest := x] = rest @ [x]" using upd a(1) by simp
    with True a ok show ?thesis by (simp add: absorbed_def absorb_byte_def Let_def sha256_transform_def)
  next
    case False
    with upd a ok show ?thesis by (simp add: absorbed_def absorb_byte_def Let_def)
  qed
qed

lemma absorbed_bytes:
  "absorbed ctx bs rest \<Longrightarrow> \<exists>bs' rest'. absorbed (foldl absorb_byte ctx xs) bs' rest' \<and>
     concat bs' @ rest' = concat bs @ rest @ xs"
proof (induction xs arbitrary: ctx bs rest)
  case Nil
  then show ?case by auto
next
  case (Cons x xs)
  define bs1 where "bs1 = (if length rest = 63 then bs @ [rest @ [x]] else bs)"
  define rest1 where "rest1 = (if length rest = 63 then [] else rest @ [x])"
  have "absorbed (absorb_byte ctx x) bs1 rest1"
    using absorbed_byte [OF Cons.prems, of x] by (simp add: bs1_def rest1_def split: if_splits)
  from Cons.IH [OF this] show ?case
    by (auto simp: bs1_def rest1_def split: if_splits)
qed

lemma blocks_concat: "\<forall>b \<in> set bs. length b = 64 \<Longrightarrow> blocks (concat bs) = bs"
  by (induction bs) (auto simp: blocks.simps)

lemma absorbed_whole:
  assumes "absorbed ctx bs rest" and "concat bs @ rest = msg" and "64 dvd length msg"
  shows "state ctx = foldl sha256_compress (state sha256_init) (blocks msg)"
proof -
  have 64: "\<forall>b \<in> set bs. length b = 64" and lt: "length rest < 64"
    using assms(1) by (auto simp: absorbed_def ctx_ok_def)
  have "length (concat bs) = 64 * length bs" using 64 by (induction bs) auto
  then have "length msg = 64 * length bs + length rest" using assms(2) by auto
  with assms(3) lt have "rest = []" by (metis dvd_add_right_iff dvd_triv_left length_0_conv nat_dvd_not_less neq0_conv)
  with assms(1,2) 64 show ?thesis by (auto simp: absorbed_def blocks_concat)
qed

lemma length_bits_be [simp]: "length (bits_be n) = 8"
  by (simp add: bits_be_def)

lemma spec_pad_whole: "64 dvd length (msg @ spec_pad msg)"
proof -
  define r where "r = length msg mod 64"
  have "r < 64" by (simp add: r_def)
  obtain q where q: "length msg = 64 * q + r" by (metis r_def mult_div_mod_eq)
  have "length (msg @ spec_pad msg) = 64 * q + (r + 9 + (119 - r) mod 64)"
    using q by (simp add: spec_pad_def r_def)
  moreover have "64 dvd r + 9 + (119 - r) mod 64"
  proof (cases "r < 56")
    case True
    then have "(119 - r) mod 64 = 55 - r" by (simp add: mod_if)
    with True show ?thesis by simp
  next
    case False
    with \<open>r < 64\<close> have "(119 - r) mod 64 = 119 - r" by simp
    moreover have "r + 9 + (119 - r) = 128" using \<open>r < 64\<close> by simp
    ultimately show ?thesis by simp
  qed
  ultimately show ?thesis by (simp add: dvd_add)
qed

text \<open>The padding of the code is the padding of the standard.\<close>

lemma sha256_pad_spec:
  assumes "absorbed ctx bs rest" and "concat bs @ rest = msg" and "bit_len ctx = of_nat (length msg) * 8"
  shows "sha256_pad ctx = spec_pad msg"
proof -
  have 64: "\<forall>b \<in> set bs. length b = 64" and rest: "length rest < 64" "buffer_len ctx = length rest"
    using assms(1) by (auto simp: absorbed_def ctx_ok_def)
  have "length (concat bs) = 64 * length bs" using 64 by (induction bs) auto
  then have "length msg = 64 * length bs + length rest" using assms(2) by auto
  then have mod: "length msg mod 64 = length rest" using rest by simp
  have "(119 - length rest) mod 64 = (if length rest < 56 then 55 - length rest else 119 - length rest)"
    using rest by (auto simp: mod_if)
  then show ?thesis
    using rest(2) assms(3) by (simp add: sha256_pad_def spec_pad_def mod Let_def)
qed

lemma sha256_hex_spec: "sha256_hex_impl msg = Some (hex_of_state (spec_state msg))"
proof -
  define ctx where "ctx = (foldl absorb_byte sha256_init msg)\<lparr>bit_len := of_nat (length msg) * 8\<rparr>"
  obtain bs rest where a: "absorbed (foldl absorb_byte sha256_init msg) bs rest" "concat bs @ rest = msg"
    using absorbed_bytes [OF absorbed_init, of msg] by auto
  then have ctx: "absorbed ctx bs rest" by (simp add: ctx_def absorbed_def ctx_ok_def)
  have upd: "sha256_update sha256_init msg = Some ctx"
    by (simp add: update_eq_bytes [OF ctx_ok_init] ctx_def) (simp add: sha256_init_def)
  have pad: "sha256_pad ctx = spec_pad msg" by (rule sha256_pad_spec [OF ctx a(2)]) (simp add: ctx_def)
  obtain bs' rest' where b: "absorbed (foldl absorb_byte ctx (spec_pad msg)) bs' rest'"
    "concat bs' @ rest' = msg @ spec_pad msg"
    using absorbed_bytes [OF ctx, of "spec_pad msg"] a(2) by auto
  have "state (foldl absorb_byte ctx (spec_pad msg)) = spec_state msg"
    unfolding spec_state_def by (rule absorbed_whole [OF b spec_pad_whole])
  moreover have "ctx_ok ctx" using ctx by (simp add: absorbed_def)
  ultimately show ?thesis
    by (simp add: sha256_hex_impl_def upd sha256_final_hex_def pad absorb_eq_bytes)
qed

lemma length_round [simp]: "length (sha256_round s x) = length s"
  by (induction s x rule: sha256_round.induct) (auto simp: Let_def)

lemma length_compress: "length st = 8 \<Longrightarrow> length (sha256_compress st b) = 8"
proof -
  have "length (foldl sha256_round st xs) = length st" for st xs
    by (induction xs arbitrary: st) auto
  then show "length st = 8 \<Longrightarrow> ?thesis" by (simp add: sha256_compress_def)
qed

lemma length_spec_state [simp]: "length (spec_state msg) = 8"
proof -
  have "length (foldl sha256_compress st bs) = 8" if "length st = 8" for st bs
    using that by (induction bs arbitrary: st) (auto simp: length_compress)
  then show ?thesis by (simp add: spec_state_def sha256_init_def)
qed

lemma update_append:
  "ctx_ok ctx \<Longrightarrow> sha256_update ctx (xs @ ys) =
     Option.bind (sha256_update ctx xs) (\<lambda>c. sha256_update c ys)"
  using ctx_ok_bytes [of ctx xs]
  by (simp add: update_eq_bytes ctx_ok_def absorb_bytes_bit_len algebra_simps)

section \<open>The code against the standard\<close>

definition hash_list :: "fips_hash \<Rightarrow> uint32_t list" where
  "hash_list = (\<lambda>(a, b, c, d, e, f, g, h). [a, b, c, d, e, f, g, h])"

lemma rotr_is_rotation: "0 < n \<Longrightarrow> n < 32 \<Longrightarrow> sha256_rotr x n = word_rotr n x"
proof (rule bit_word_eqI)
  fix m assume m: "m < LENGTH(32)" and n: "0 < n" "n < 32"
  show "bit (sha256_rotr x n) m = bit (word_rotr n x) m"
  proof (cases "m + n < 32")
    case True
    then show ?thesis using m n by (auto simp: sha256_rotr_def bit_simps add.commute)
  next
    case False
    have "\<not> bit x (m + n)" by (rule impossible_bit) (use False in simp)
    moreover have "(m + n) mod 32 = m + n - 32" "32 - n \<le> m" using False m n by (simp_all add: mod_if)
    ultimately show ?thesis using m n False by (simp add: sha256_rotr_def bit_simps add.commute)
  qed
qed

lemma k_is_cube_roots: "fips_K = sha256_k"
proof -
  have "fips_K = map of_nat [5411319704, 6194414737, 7344290767, 8215976869, 9551921755, 10098905585,
     11043570340, 11460697813, 12214315672, 13195500289, 13492127166, 14311783875,
     14809980276, 15046980094, 15499789991, 16133124468, 16720292289, 16907126662,
     17444216262, 17784676812, 17950125167, 18429019306, 18734950876, 19175934170,
     19734090066, 20001703533, 20132865992, 20390182855, 20516441075, 20764397895,
     21588763473, 21813078375, 22141143685, 22248366392, 22769593852, 22871018771,
     23170020180, 23461497531, 23651862830, 23931792517, 24205322401, 24295138891,
     24734567280, 24820601251, 24990902297, 25075189284, 25569408389, 26045227120,
     26200031510, 26276752392, 26428864332, 26653801653, 26727943347, 27092625994,
     27306805839, 27517677555, 27725365998, 27793908591, 27997534228, 28131656200,
     28198240250, 28526537963, 28973835255, 29099129074]"
    unfolding fips_K_def first_primes_eq by (rule fractions32_root) simp_all
  also have "\<dots> = sha256_k" by (simp add: sha256_k_def)
  finally show ?thesis .
qed

lemma init_is_square_roots: "hash_list fips_H0 = state sha256_init"
proof -
  have "map (\<lambda>p. fraction32 (root 2 (real p))) [2, 3, 5, 7, 11, 13, 17, 19] = map of_nat [6074000999, 7439101573, 9603838834, 11363415354, 14244795007,
     15485724812, 17708603819, 18721328409]"
    by (rule fractions32_root) simp_all
  then show ?thesis by (simp add: hash_list_def fips_H0_def sha256_init_def sqrt_def)
qed

lemma word_of_bytes:
  "push_bit 24 (ucast b0) OR push_bit 16 (ucast b1) OR push_bit 8 (ucast b2) OR ucast b3 =
   (of_nat (unat b0 * 2 ^ 24 + unat b1 * 2 ^ 16 + unat b2 * 2 ^ 8 + unat b3) :: uint32_t)"
  for b0 b1 b2 b3 :: uint8_t
proof -
  have add: "x OR y = x + y" if "\<And>n. \<not> bit x n \<or> \<not> bit y n" for x y :: uint32_t
    using disjunctive_add [of x y] that by simp
  have small: "n < 8" if "bit b n" for b :: uint8_t and n
    using bit_imp_le_length [OF that] by simp
  have "push_bit 8 (ucast b2) OR ucast b3 = (push_bit 8 (ucast b2) + ucast b3 :: uint32_t)"
    by (rule add) (auto simp: bit_simps dest: small)
  moreover have "push_bit 16 (ucast b1) OR (push_bit 8 (ucast b2) OR ucast b3) =
      (push_bit 16 (ucast b1) + (push_bit 8 (ucast b2) OR ucast b3) :: uint32_t)"
    by (rule add) (auto simp: bit_simps dest!: small)
  moreover have "push_bit 24 (ucast b0) OR (push_bit 16 (ucast b1) OR (push_bit 8 (ucast b2) OR ucast b3)) =
      (push_bit 24 (ucast b0) + (push_bit 16 (ucast b1) OR (push_bit 8 (ucast b2) OR ucast b3)) :: uint32_t)"
    by (rule add) (auto simp: bit_simps dest!: small)
  ultimately show ?thesis
    by (simp add: or.assoc push_bit_eq_mult mult.commute add.assoc)
qed

lemma load_w_schedule: "load_w M = map (fips_W M) [0..<16]"
proof (rule nth_equalityI)
  fix i assume "i < length (load_w M)"
  then have "i < 16" by (simp add: load_w_def)
  then show "load_w M ! i = map (fips_W M) [0..<16] ! i"
    by (simp add: load_w_def fips_W.simps [of M i] word_of_bytes mult.commute)
qed (simp add: load_w_def)

lemma next_w_schedule:
  assumes "16 \<le> n"
  shows "next_w (map (fips_W M) [0..<n]) = fips_W M n"
  using assms
  by (subst fips_W.simps) (simp add: next_w_def Let_def rotr_is_rotation fips_sig0_def fips_sig1_def algebra_simps)

lemma extend_w_schedule:
  "16 \<le> n \<Longrightarrow> extend_w k (map (fips_W M) [0..<n]) = map (fips_W M) [0..<n + k]"
proof (induction k arbitrary: n)
  case (Suc k)
  have "map (fips_W M) [0..<n] @ [fips_W M n] = map (fips_W M) [0..<Suc n]" by simp
  with Suc.IH [of "Suc n"] Suc.prems show ?case by (simp add: next_w_schedule del: upt_Suc)
qed simp

lemma hash_cases:
  obtains a b c d e f g h where "H = (a, b, c, d, e, f, g, h :: uint32_t)"
  by (cases H) auto

lemma round_is_fips: "sha256_round (hash_list H) (k, w) = hash_list (fips_round k w H)"
  by (rule hash_cases [of H]) (simp add: hash_list_def Let_def rotr_is_rotation fips_Sum0_def fips_Sum1_def
    fips_Ch_def fips_Maj_def algebra_simps)

lemma rounds_are_fips:
  "t \<le> length ws \<Longrightarrow> length ws \<le> length fips_K \<Longrightarrow> \<forall>i < length ws. ws ! i = fips_W M i \<Longrightarrow>
   foldl sha256_round (hash_list H) (take t (zip fips_K ws)) = hash_list (fips_rounds M t H)"
  by (induction t) (simp_all add: take_Suc_conv_app_nth round_is_fips)

lemma compress_is_fips: "sha256_compress (hash_list H) M = hash_list (fips_block M H)"
proof -
  have len: "length fips_K = 64" by (simp add: k_is_cube_roots sha256_k_def)
  have w: "extend_w 48 (load_w M) = map (fips_W M) [0..<64]"
    by (simp add: load_w_schedule extend_w_schedule)
  have "foldl sha256_round (hash_list H) (zip sha256_k (extend_w 48 (load_w M))) = hash_list (fips_rounds M 64 H)"
    using rounds_are_fips [of 64 "map (fips_W M) [0..<64]" M H] len
    by (simp add: w k_is_cube_roots)
  moreover obtain a b c d e f g h where "H = (a, b, c, d, e, f, g, h)" by (rule hash_cases)
  moreover obtain a' b' c' d' e' f' g' h' where "fips_rounds M 64 H = (a', b', c', d', e', f', g', h')"
    by (rule hash_cases)
  ultimately show ?thesis by (simp add: sha256_compress_def fips_block_def hash_list_def add.commute)
qed

lemma blocks_are_fips:
  "foldl sha256_compress (state sha256_init) (map (\<lambda>i. take 64 (drop (64 * i) P)) [0..<n]) = hash_list (fips_H P n)"
  by (induction n) (simp_all add: init_is_square_roots compress_is_fips)

lemma blocks_by_index: "blocks P = map (\<lambda>i. take 64 (drop (64 * i) P)) [0..<length P div 64]"
proof (induction P rule: blocks.induct)
  case (1 xs)
  show ?case
  proof (cases "length xs < 64")
    case False
    then have d: "length xs div 64 = Suc ((length xs - 64) div 64)" by (simp add: div_if)
    have "[0..<Suc n] = 0 # map Suc [0..<n]" for n by (simp add: map_Suc_upt upt_conv_Cons del: upt_Suc)
    then show ?thesis using False 1 by (simp add: blocks.simps [of xs] d comp_def add.commute del: upt_Suc)
  qed (simp add: blocks.simps)
qed

lemma byte_of_length:
  "ucast (drop_bit (i * 8) (of_nat n :: uint64_t)) = (of_nat (n div 256 ^ i mod 256) :: uint8_t)" if "i < 8"
proof (rule bit_word_eqI)
  fix m assume "m < LENGTH(8)"
  moreover have "n div 256 ^ i mod 256 = take_bit 8 (drop_bit (i * 8) n)"
    by (simp add: drop_bit_eq_div take_bit_eq_mod power_mult mult.commute [of i])
  ultimately show "bit (ucast (drop_bit (i * 8) (of_nat n :: uint64_t)) :: uint8_t) m
      = bit (of_nat (n div 256 ^ i mod 256) :: uint8_t) m"
    using that by (simp add: bit_simps)
qed

lemma zeros_are_fips: "(119 - n mod 64) mod 64 = (64 - (n + 9) mod 64) mod (64 :: nat)"
proof -
  define r where "r = n mod 64"
  have r: "r < 64" by (simp add: r_def)
  have "(n + 9) mod 64 = (r + 9) mod 64" by (simp add: r_def mod_add_left_eq)
  also have "\<dots> = (if r < 55 then r + 9 else r - 55)" using r by (simp add: mod_if)
  finally have m: "(n + 9) mod 64 = (if r < 55 then r + 9 else r - 55)" .
  consider "r < 55" | "r = 55" | "55 < r" by linarith
  then show ?thesis
  proof cases
    case 1
    then have "119 - r = 64 + (55 - r)" by simp
    then have "(119 - r) mod 64 = 55 - r" by (simp only: mod_add_self1) simp
    then show ?thesis using 1 by (simp add: m flip: r_def)
  qed (use r in \<open>simp_all add: m flip: r_def\<close>)
qed

lemma pad_is_fips: "msg @ spec_pad msg = fips_pad msg"
proof -
  have "bits_be (of_nat (8 * length msg)) = map (\<lambda>i. of_nat (8 * length msg div 256 ^ i mod 256)) (rev [0..<8])"
    unfolding bits_be_def by (rule map_cong [OF refl], rule byte_of_length) simp
  moreover have "rev [0..<8] = [7, 6, 5, 4, 3, 2, 1, 0 :: nat]" by code_simp
  ultimately show ?thesis
    by (simp add: spec_pad_def fips_pad_def zeros_are_fips mult.commute)
qed

lemma hex_digit: "n < 16 \<Longrightarrow> hexdigits ! n = of_char (''0123456789abcdef'' ! n)"
  unfolding hexdigits_def by (rule nth_map) simp

lemma nibble: "unat (drop_bit k v AND 0xf) = unat (v :: uint32_t) div 2 ^ k mod 16"
proof -
  have "drop_bit k v AND 0xf = take_bit 4 (drop_bit k v)" by (simp add: take_bit_eq_mask mask_eq_exp_minus_1)
  moreover have "unat (take_bit 4 (drop_bit k v)) = take_bit 4 (drop_bit k (unat v))"
    by (rule bit_eqI) (auto simp: bit_simps dest: bit_imp_le_length)
  ultimately show ?thesis by (simp add: take_bit_eq_mod drop_bit_eq_div)
qed

lemma hex_word: "map (\<lambda>i. hexdigits ! unat (drop_bit (28 - 4 * i) v AND 0xf)) [0..<8] = map of_char (word_hex v)"
proof -
  have "[0..<8] = [0, 1, 2, 3, 4, 5, 6, 7 :: nat]" by code_simp
  then show ?thesis by (simp add: nibble hex_digit word_hex_def)
qed

lemma hex_is_fips: "hex_of_state (hash_list (a, b, c, d, e, f, g, h)) =
   map of_char (concat (map word_hex [a, b, c, d, e, f, g, h]))"
  by (simp add: hex_of_state_def hex_word hash_list_def del: upt_Suc)

section \<open>Properties\<close>

text \<open>
  C26. The streaming implementation computes SHA-256: for every message it returns (no
  copy leaves the 64-byte buffer), and the result is the digest of FIPS 180-4 in
  hexadecimal, as theory \<open>Fips_180\<close> states the standard independently of the code: rounds, rotations,
  schedule, constants (roots of primes), padding and digits. The standard asks for
  messages below \<open>2 ^ 64\<close> bits; beyond, both sides keep the low 64 bits of the length.
\<close>

theorem sha256_implements_fips: "sha256_hex_impl msg = Some (map of_char (fips_sha256 msg))"
  by (simp add: sha256_hex_spec spec_state_def pad_is_fips blocks_by_index blocks_are_fips fips_sha256_def
      hex_is_fips Let_def split: prod.split del: map_concat map_map list.map)

end
