(* ===== verification/Crypto.thy ===== *)
theory Crypto
  imports Sha256
begin

unbundle bit_operations_syntax

text \<open>
  The crypto methods of the bridge on top of SHA-256: HMAC (\<open>hmac_sha256_raw_impl\<close>,
  \<open>hmac_sha256_hex_impl\<close>), the unpadded base64url codec, \<open>random_hex\<close> and the hashing
  loop of \<open>file_sha256\<close>. A file is its contents, or \<^const>\<open>None\<close> where it cannot be opened;
  the random generator is the sequence of the numbers it draws.
\<close>

section \<open>Hex digits\<close>

text \<open>The lambda \<open>nib\<close> and the loop \<open>for (i = 0; i + 1 < n; i += 2)\<close> around it.\<close>

definition nib :: "uint8_t \<Rightarrow> uint8_t" where
  "nib c = (if of_char (CHR ''0'') \<le> c \<and> c \<le> of_char (CHR ''9'') then c - of_char (CHR ''0'')
            else (c OR 0x20) - of_char (CHR ''a'') + 10)"

fun unhex :: "bytes \<Rightarrow> bytes" where
  "unhex (a # b # rest) = (push_bit 4 (nib a) OR nib b) # unhex rest"
| "unhex _ = []"

definition hex_of_bytes :: "bytes \<Rightarrow> bytes" where
  "hex_of_bytes raw = concat (map (\<lambda>c. [hexdigits ! unat (drop_bit 4 c), hexdigits ! unat (c AND 0xf)]) raw)"

section \<open>HMAC\<close>

definition xor_key :: "bytes \<Rightarrow> bytes \<Rightarrow> bytes" where
  "xor_key pad k = foldl (\<lambda>p i. p[i := p ! i XOR k ! i]) pad [0..<length k]"

definition hmac_sha256_raw_impl :: "bytes \<Rightarrow> bytes \<Rightarrow> bytes option" where
  "hmac_sha256_raw_impl key data =
     Option.bind (if length key > 64 then map_option unhex (sha256_hex_impl key) else Some key) (\<lambda>k.
     let ipad = xor_key (replicate 64 0x36) k; opad = xor_key (replicate 64 0x5c) k in
     Option.bind (sha256_update sha256_init ipad) (\<lambda>inner1.
     Option.bind (sha256_update inner1 data) (\<lambda>inner2.
     Option.bind (sha256_final_hex inner2) (\<lambda>inner_hex.
     Option.bind (sha256_update sha256_init opad) (\<lambda>outer1.
     Option.bind (sha256_update outer1 (unhex inner_hex)) (\<lambda>outer2.
     map_option unhex (sha256_final_hex outer2)))))))"

definition hmac_sha256_hex_impl :: "bytes \<Rightarrow> bytes \<Rightarrow> bytes option" where
  "hmac_sha256_hex_impl key data = map_option hex_of_bytes (hmac_sha256_raw_impl key data)"

section \<open>Base64url\<close>

definition b64url_table :: bytes where
  "b64url_table = map of_char ''ABCDEFGHIJKLMNOPQRSTUVWXYZabcdefghijklmnopqrstuvwxyz0123456789-_''"

definition b64_char :: "uint32_t \<Rightarrow> nat \<Rightarrow> uint8_t" where
  "b64_char v shift = b64url_table ! unat (drop_bit shift v AND 0x3f)"

text \<open>One turn of the encoding loop per three input bytes; the last may have one or two.\<close>

fun base64url_encode_impl :: "bytes \<Rightarrow> bytes" where
  "base64url_encode_impl [] = []"
| "base64url_encode_impl [a] =
     (let v = push_bit 16 (ucast a) in [b64_char v 18, b64_char v 12])"
| "base64url_encode_impl [a, b] =
     (let v = push_bit 16 (ucast a) OR push_bit 8 (ucast b)
      in [b64_char v 18, b64_char v 12, b64_char v 6])"
| "base64url_encode_impl (a # b # c # rest) =
     (let v = push_bit 16 (ucast a) OR push_bit 8 (ucast b) OR ucast c
      in [b64_char v 18, b64_char v 12, b64_char v 6, b64_char v 0] @ base64url_encode_impl rest)"

definition b64_value :: "uint8_t \<Rightarrow> uint8_t option" where
  "b64_value c =
     (if of_char (CHR ''A'') \<le> c \<and> c \<le> of_char (CHR ''Z'') then Some (c - of_char (CHR ''A''))
      else if of_char (CHR ''a'') \<le> c \<and> c \<le> of_char (CHR ''z'') then Some (c - of_char (CHR ''a'') + 26)
      else if of_char (CHR ''0'') \<le> c \<and> c \<le> of_char (CHR ''9'') then Some (c - of_char (CHR ''0'') + 52)
      else if c = of_char (CHR ''-'') then Some 62
      else if c = of_char (CHR ''_'') then Some 63
      else None)"

text \<open>The decoding loop with its accumulator \<open>buf\<close> and \<open>bits\<close>; the flag is the out-parameter \<open>ok\<close>.\<close>

fun decode_loop :: "bytes \<Rightarrow> uint32_t \<Rightarrow> nat \<Rightarrow> bytes \<Rightarrow> bytes \<times> bool" where
  "decode_loop [] buf bits out = (out, True)"
| "decode_loop (c # cs) buf bits out =
     (if c = of_char (CHR ''='') then (out, True)
      else case b64_value c of
        None \<Rightarrow> (out, False)
      | Some v \<Rightarrow>
          let buf1 = push_bit 6 buf OR ucast v; bits1 = bits + 6 in
          if bits1 \<ge> 8
          then decode_loop cs buf1 (bits1 - 8) (out @ [ucast (drop_bit (bits1 - 8) buf1 AND 0xff)])
          else decode_loop cs buf1 bits1 out)"

definition base64url_decode_impl :: "bytes \<Rightarrow> bytes \<times> bool" where
  "base64url_decode_impl cs = decode_loop cs 0 0 []"

definition base64url_decode :: "bytes \<Rightarrow> bytes \<times> bytes" where
  "base64url_decode data =
     (let (out, ok) = base64url_decode_impl data
      in if \<not> ok then ([], map of_char ''invalid base64url input'') else (out, []))"

section \<open>Random numbers and files\<close>

definition random_hex_impl :: "(nat \<Rightarrow> uint64_t) \<Rightarrow> nat \<Rightarrow> bytes" where
  "random_hex_impl rng nbytes =
     concat (map (\<lambda>i. [hexdigits ! unat (rng i AND 0xf), hexdigits ! unat (drop_bit 4 (rng i) AND 0xf)])
       [0..<nbytes])"

definition random_hex :: "(nat \<Rightarrow> uint64_t) \<Rightarrow> nat \<Rightarrow> bytes" where
  "random_hex rng nbytes = random_hex_impl rng (min (max nbytes 1) 1024)"

text \<open>\<open>fread\<close> into a buffer of 65536 bytes until it returns 0, and the running size.\<close>

function fread_loop :: "sha256_ctx_t \<Rightarrow> nat \<Rightarrow> bytes \<Rightarrow> (sha256_ctx_t \<times> nat) option" where
  "fread_loop ctx size_bytes rest =
     (let n = min 65536 (length rest) in
      if n = 0 then Some (ctx, size_bytes)
      else case sha256_update ctx (take n rest) of
        None \<Rightarrow> None
      | Some ctx1 \<Rightarrow> fread_loop ctx1 (size_bytes + n) (drop n rest))"
  by pat_completeness auto
termination
  by (relation "measure (\<lambda>(c, s, r). length r)") auto

declare fread_loop.simps [simp del]

definition file_sha256 :: "bytes option \<Rightarrow> (bytes \<times> nat) option" where
  "file_sha256 file =
     (case file of
        None \<Rightarrow> Some (map of_char ''file not found'', 0)
      | Some contents \<Rightarrow>
          (case fread_loop sha256_init 0 contents of
             None \<Rightarrow> None
           | Some (ctx, size_bytes) \<Rightarrow> map_option (\<lambda>h. (h, size_bytes)) (sha256_final_hex ctx)))"

section \<open>Hex round trip\<close>

lemma hexdigit_nib:
  assumes "n < 16"
  shows "nib (hexdigits ! n) = of_nat n"
proof -
  have "list_all (\<lambda>k. nib (hexdigits ! k) = of_nat k) [0..<16]" by code_simp
  with assms show ?thesis by (simp add: list_all_iff)
qed

lemma hexdigit_nib_word: "unat (w :: 'a :: len word) < 16 \<Longrightarrow> nib (hexdigits ! unat w) = ucast w"
  by (simp add: hexdigit_nib)

lemma and_15_take_bit: "w AND 0xf = take_bit 4 (w :: 'a :: len word)"
  by (simp add: take_bit_eq_mask mask_eq_exp_minus_1)

lemma nibble_bound: "unat (w AND 0xf :: 'a :: len word) < 16"
proof -
  have "unat (take_bit 4 w) = take_bit 4 (unat w)" by (rule unsigned_take_bit_eq)
  then show ?thesis using take_bit_nat_less_exp [of 4 "unat w"] by (simp add: and_15_take_bit)
qed

lemma nibbles_to_byte:
  "push_bit 4 (ucast (drop_bit (s + 4) v AND 0xf)) OR ucast (drop_bit s v AND 0xf)
   = (ucast (drop_bit s (v :: 32 word)) :: 8 word)"
  unfolding and_15_take_bit
  by (intro bit_word_eqI) (auto simp: bit_simps not_le not_less)

text \<open>The digest as bytes: each state word big-endian.\<close>

definition digest :: "bytes \<Rightarrow> bytes" where
  "digest msg = concat (map (\<lambda>v. map (\<lambda>j. ucast (drop_bit (24 - 8 * j) v)) [0..<4]) (spec_state msg))"

lemma unhex_word:
  fixes v :: "32 word"
  shows "unhex (map (\<lambda>i. hexdigits ! unat (drop_bit (28 - 4 * i) v AND 0xf)) [0..<8] @ rest)
   = map (\<lambda>j. ucast (drop_bit (24 - 8 * j) v)) [0..<4] @ unhex rest"
  using nibbles_to_byte [of 24 v] nibbles_to_byte [of 16 v] nibbles_to_byte [of 8 v] nibbles_to_byte [of 0 v]
  by (simp add: upt_rec hexdigit_nib_word [OF nibble_bound])

lemma unhex_hex_of_state:
  "unhex (hex_of_state st) = concat (map (\<lambda>v. map (\<lambda>j. ucast (drop_bit (24 - 8 * j) v)) [0..<4]) st)"
proof (induction st)
  case Nil
  then show ?case by (simp add: hex_of_state_def)
next
  case (Cons v st)
  have "hex_of_state (v # st) = map (\<lambda>i. hexdigits ! unat (drop_bit (28 - 4 * i) v AND 0xf)) [0..<8] @ hex_of_state st"
    by (simp add: hex_of_state_def)
  with Cons unhex_word [of v "hex_of_state st"] show ?case by simp
qed

lemma unhex_sha256: "map_option unhex (sha256_hex_impl msg) = Some (digest msg)"
  by (simp add: sha256_hex_spec unhex_hex_of_state digest_def)

lemma length_digest [simp]: "length (digest msg) = 32"
proof -
  have "length (concat (map (\<lambda>v. map (\<lambda>j. ucast (drop_bit (24 - 8 * j) v) :: 8 word) [0..<4]) st)) = 4 * length st"
    for st :: "32 word list"
    by (induction st) auto
  then show ?thesis by (simp add: digest_def)
qed

section \<open>HMAC as RFC 2104 defines it\<close>

definition hmac_spec :: "bytes \<Rightarrow> bytes \<Rightarrow> bytes" where
  "hmac_spec key data =
     (let k = (if length key > 64 then digest key else key);
          k0 = k @ replicate (64 - length k) 0
      in digest (map (\<lambda>x. x XOR 0x5c) k0 @ digest (map (\<lambda>x. x XOR 0x36) k0 @ data)))"

lemma xor_loop:
  "n \<le> length k \<Longrightarrow> length k \<le> length p \<Longrightarrow>
   foldl (\<lambda>p i. p[i := p ! i XOR k ! i]) p [0..<n] = map2 (XOR) (take n p) (take n k) @ drop n p"
proof (induction n)
  case 0
  then show ?case by simp
next
  case (Suc n)
  then have "foldl (\<lambda>p i. p[i := p ! i XOR k ! i]) p [0..<Suc n]
     = (map2 (XOR) (take n p) (take n k) @ drop n p)[n := p ! n XOR k ! n]"
    by (simp add: nth_append)
  also have "drop n p = p ! n # drop (Suc n) p" using Suc.prems by (simp add: Cons_nth_drop_Suc)
  finally show ?case
    using Suc.prems by (simp add: list_update_append take_Suc_conv_app_nth)
qed

lemma xor_key_padded:
  assumes "length k \<le> 64"
  shows "xor_key (replicate 64 v) k = map (\<lambda>x. x XOR v) (k @ replicate (64 - length k) 0)"
proof -
  have "xor_key (replicate 64 v) k = map2 (XOR) (replicate (length k) v) k @ replicate (64 - length k) v"
    using xor_loop [of "length k" k "replicate 64 v"] assms by (simp add: xor_key_def min_def)
  also have "map2 (XOR) (replicate (length k) v) k = map (\<lambda>x. x XOR v) k"
    by (induction k) (simp_all add: xor.commute)
  finally show ?thesis by simp
qed

lemma hex_two_updates:
  obtains c1 c2 where "sha256_update sha256_init a = Some c1" "sha256_update c1 b = Some c2"
    "sha256_final_hex c2 = sha256_hex_impl (a @ b)"
proof -
  from update_eq_bytes [OF ctx_ok_init] obtain c1 where c1: "sha256_update sha256_init a = Some c1" by blast
  from update_eq_bytes [OF ctx_ok_update [OF ctx_ok_init c1]] obtain c2 where c2: "sha256_update c1 b = Some c2"
    by blast
  have "sha256_hex_impl (a @ b) = sha256_final_hex c2"
    using c1 c2 by (simp add: sha256_hex_impl_def update_append [OF ctx_ok_init])
  with c1 c2 that show thesis by simp
qed

lemma hmac_raw_correct: "hmac_sha256_raw_impl key data = Some (hmac_spec key data)"
proof -
  define k where "k = (if length key > 64 then digest key else key)"
  define ipad where "ipad = xor_key (replicate 64 0x36) k"
  define opad where "opad = xor_key (replicate 64 0x5c) k"
  have len: "length k \<le> 64" by (simp add: k_def)
  have key: "(if length key > 64 then map_option unhex (sha256_hex_impl key) else Some key) = Some k"
    by (simp add: k_def unhex_sha256)
  obtain c1 c2 where c: "sha256_update sha256_init ipad = Some c1" "sha256_update c1 data = Some c2"
    "sha256_final_hex c2 = sha256_hex_impl (ipad @ data)"
    by (rule hex_two_updates)
  define inner where "inner = digest (ipad @ data)"
  obtain h where h: "sha256_hex_impl (ipad @ data) = Some h" "unhex h = inner"
    using unhex_sha256 [of "ipad @ data"] by (auto simp: inner_def)
  obtain d1 d2 where d: "sha256_update sha256_init opad = Some d1" "sha256_update d1 inner = Some d2"
    "sha256_final_hex d2 = sha256_hex_impl (opad @ inner)"
    by (rule hex_two_updates)
  have "hmac_sha256_raw_impl key data = Some (digest (opad @ inner))"
    unfolding hmac_sha256_raw_impl_def key
    by (simp add: ipad_def [symmetric] opad_def [symmetric] c h d unhex_sha256 Let_def)
  then show ?thesis
    by (simp add: hmac_spec_def k_def [symmetric] inner_def ipad_def opad_def xor_key_padded [OF len] Let_def)
qed

section \<open>Base64url round trip\<close>

lemma b64_table_decodes: "map b64_value b64url_table = map (\<lambda>n. Some (of_nat n)) [0..<64]"
  by (simp add: b64url_table_def b64_value_def upt_rec)

lemma b64_table_value:
  assumes "n < 64"
  shows "b64_value (b64url_table ! n) = Some (of_nat n)" and "b64url_table ! n \<noteq> of_char (CHR ''='')"
proof -
  have "length b64url_table = 64" by (simp add: b64url_table_def)
  then show val: "b64_value (b64url_table ! n) = Some (of_nat n)"
    using assms arg_cong [OF b64_table_decodes, of "\<lambda>xs. xs ! n"] by simp
  show "b64url_table ! n \<noteq> of_char (CHR ''='')"
  proof
    assume "b64url_table ! n = of_char (CHR ''='')"
    moreover have "b64_value (of_char (CHR ''='')) = None" by (simp add: b64_value_def)
    ultimately show False using val by simp
  qed
qed

lemma and_63_take_bit: "w AND 0x3f = take_bit 6 (w :: 32 word)"
  by (simp add: take_bit_eq_mask mask_eq_exp_minus_1)

lemma and_255_take_bit: "w AND 0xff = take_bit 8 (w :: 32 word)"
  by (simp add: take_bit_eq_mask mask_eq_exp_minus_1)

lemma six_bits_bound: "unat (take_bit 6 (w :: 32 word)) < 64"
proof -
  have "unat (take_bit 6 w) = take_bit 6 (unat w)" by (rule unsigned_take_bit_eq)
  then show ?thesis using take_bit_nat_less_exp [of 6 "unat w"] by simp
qed

lemma six_bits_cast: "ucast (ucast (take_bit 6 w) :: 8 word) = (take_bit 6 w :: 32 word)"
  by (intro bit_word_eqI) (auto simp: bit_simps)

text \<open>Decoding one character of the encoder appends its six bits to the accumulator.\<close>

definition acc6 :: "uint32_t \<Rightarrow> uint32_t \<Rightarrow> nat \<Rightarrow> uint32_t" where
  "acc6 buf v s = push_bit 6 buf OR take_bit 6 (drop_bit s v)"

lemma decode_b64_char:
  "decode_loop (b64_char v s # cs) buf bits out =
     (if bits + 6 \<ge> 8
      then decode_loop cs (acc6 buf v s) (bits + 6 - 8)
             (out @ [ucast (take_bit 8 (drop_bit (bits + 6 - 8) (acc6 buf v s)))])
      else decode_loop cs (acc6 buf v s) (bits + 6) out)"
  using b64_table_value [OF six_bits_bound [of "drop_bit s v"]]
  by (simp add: b64_char_def acc6_def and_63_take_bit and_255_take_bit six_bits_cast Let_def)

declare decode_loop.simps(2) [simp del]

text \<open>The bytes that come back out of the accumulator, whatever it held before.\<close>

lemma decode_first: "(ucast (take_bit 8 (drop_bit 4 (acc6 (acc6 buf v 18) v 12))) :: 8 word) = ucast (drop_bit 16 v)"
  unfolding acc6_def by (intro bit_word_eqI) (auto simp: bit_simps not_le not_less)

lemma decode_second: "(ucast (take_bit 8 (drop_bit 2 (acc6 (acc6 buf v 12) v 6))) :: 8 word) = ucast (drop_bit 8 v)"
  unfolding acc6_def by (intro bit_word_eqI) (auto simp: bit_simps not_le not_less)

lemma decode_third: "(ucast (take_bit 8 (acc6 (acc6 buf v 6) v 0)) :: 8 word) = ucast v"
  unfolding acc6_def by (intro bit_word_eqI) (auto simp: bit_simps not_le not_less)

lemmas decode_bytes = decode_first decode_second decode_third

lemma pack_bytes:
  fixes a b c :: uint8_t
  shows "ucast (drop_bit 16 (push_bit 16 (ucast a) OR push_bit 8 (ucast b) OR ucast c :: uint32_t)) = a"
    and "ucast (drop_bit 8 (push_bit 16 (ucast a) OR push_bit 8 (ucast b) OR ucast c :: uint32_t)) = b"
    and "ucast (push_bit 16 (ucast a) OR push_bit 8 (ucast b) OR ucast c :: uint32_t) = c"
  by (intro bit_word_eqI; auto simp: bit_simps dest: bit_imp_le_length)+

lemma decode_encode_loop:
  "decode_loop (base64url_encode_impl xs) buf 0 out = (out @ xs, True)"
proof (induction xs arbitrary: buf out rule: base64url_encode_impl.induct)
  case 1
  then show ?case by simp
next
  case (2 a)
  show ?case
    by (simp add: Let_def decode_b64_char decode_first pack_bytes(1) [of a 0 0, simplified])
next
  case (3 a b)
  show ?case
    by (simp add: Let_def decode_b64_char decode_first decode_second pack_bytes(1,2) [of a b 0, simplified])
next
  case (4 a b c rest)
  define v :: uint32_t where "v = push_bit 16 (ucast a) OR push_bit 8 (ucast b) OR ucast c"
  have "decode_loop (base64url_encode_impl (a # b # c # rest)) buf 0 out
      = (((out @ [ucast (drop_bit 16 v)]) @ [ucast (drop_bit 8 v)]) @ [ucast v] @ rest, True)"
    unfolding base64url_encode_impl.simps Let_def v_def [symmetric] append_Cons append_Nil
    by (simp add: Let_def decode_b64_char decode_bytes 4)
  then show ?case by (simp only: v_def pack_bytes append_assoc append_Cons append_Nil)
qed

lemma length_encode: "length (base64url_encode_impl xs) = (4 * length xs + 2) div 3"
  by (induction xs rule: base64url_encode_impl.induct) (auto simp: Let_def)

lemma decode_loop_ok:
  "snd (decode_loop cs buf bits out) \<longleftrightarrow>
     (\<forall>c \<in> set (takeWhile (\<lambda>c. c \<noteq> of_char (CHR ''='')) cs). b64_value c \<noteq> None)"
proof (induction cs arbitrary: buf bits out)
  case Nil
  then show ?case by simp
next
  case (Cons c cs)
  then show ?case
    by (auto simp: decode_loop.simps(2) Let_def split: option.split)
qed

text \<open>The characters of RFC 4648, section 5, spelled out: what the decoder accepts.\<close>

lemma bytes_between:
  assumes "a \<le> b" and "b < 256"
  shows "c \<in> of_nat ` {a..b} \<longleftrightarrow> of_nat a \<le> c \<and> c \<le> (of_nat b :: uint8_t)"
proof -
  have "unat (of_nat n :: uint8_t) = n" if "n \<le> b" for n
    using that assms by (simp add: unat_of_nat)
  then show ?thesis
    using assms by (auto simp: word_le_nat_alt image_iff intro!: bexI [of _ "unat c"])
qed

lemma b64_value_alphabet:
  "b64_value c = None \<longleftrightarrow>
     c \<notin> set (map of_char ''ABCDEFGHIJKLMNOPQRSTUVWXYZabcdefghijklmnopqrstuvwxyz0123456789-_'')"
proof -
  have "[65..<91] @ [97..<123] @ [48..<58] @ [45, 95] = (map of_char
      ''ABCDEFGHIJKLMNOPQRSTUVWXYZabcdefghijklmnopqrstuvwxyz0123456789-_'' :: nat list)"
    by code_simp
  then have "map of_nat ([65..<91] @ [97..<123] @ [48..<58] @ [45, 95]) =
      map of_nat (map of_char ''ABCDEFGHIJKLMNOPQRSTUVWXYZabcdefghijklmnopqrstuvwxyz0123456789-_'')"
    by (rule arg_cong)
  also have "\<dots> = (map of_char ''ABCDEFGHIJKLMNOPQRSTUVWXYZabcdefghijklmnopqrstuvwxyz0123456789-_'' :: bytes)"
    by (simp only: map_map comp_def of_nat_of_char)
  finally have "set (map of_char ''ABCDEFGHIJKLMNOPQRSTUVWXYZabcdefghijklmnopqrstuvwxyz0123456789-_'') =
      set (map of_nat ([65..<91] @ [97..<123] @ [48..<58] @ [45, 95]) :: bytes)" by (rule arg_cong [OF sym])
  also have "\<dots> = of_nat ` {65..90} \<union> of_nat ` {97..122} \<union> of_nat ` {48..57} \<union> {45, 95}"
    by (simp add: image_Un Un_assoc atLeastLessThanSuc_atLeastAtMost [symmetric] del: upt_Suc upt_rec_numeral)
  finally show ?thesis
    by (simp add: image_Un bytes_between b64_value_def del: list.map set_map)
qed

section \<open>Random numbers and files\<close>

lemma length_random_hex: "length (random_hex rng n) = 2 * min (max n 1) 1024"
proof -
  have "length (random_hex_impl rng m) = 2 * m" for m
    by (induction m) (auto simp: random_hex_impl_def)
  then show ?thesis by (simp add: random_hex_def)
qed

lemma fread_loop_update:
  "ctx_ok ctx \<Longrightarrow> fread_loop ctx n contents =
     map_option (\<lambda>c. (c, n + length contents)) (sha256_update ctx contents)"
proof (induction ctx n contents rule: fread_loop.induct)
  case (1 ctx n contents)
  show ?case
  proof (cases "contents = []")
    case True
    with "1.prems" show ?thesis by (simp add: fread_loop.simps update_eq_bytes)
  next
    case False
    define m where "m = min 65536 (length contents)"
    from False have m: "m \<noteq> 0" by (simp add: m_def)
    obtain c1 where c1: "sha256_update ctx (take m contents) = Some c1"
      using update_eq_bytes [OF "1.prems"] by blast
    have ok1: "ctx_ok c1" by (rule ctx_ok_update [OF "1.prems" c1])
    have "fread_loop ctx n contents = fread_loop c1 (n + m) (drop m contents)"
      using m c1 by (subst fread_loop.simps) (simp add: m_def [symmetric] Let_def)
    also have "\<dots> = map_option (\<lambda>c. (c, n + m + length (drop m contents))) (sha256_update c1 (drop m contents))"
      by (rule "1.IH" [OF m_def m c1 ok1])
    also have "sha256_update c1 (drop m contents) = sha256_update ctx contents"
      using update_append [OF "1.prems", of "take m contents" "drop m contents"] c1 by simp
    also have "n + m + length (drop m contents) = n + length contents" by (simp add: m_def)
    finally show ?thesis .
  qed
qed

section \<open>Properties\<close>

text \<open>
  C28. HMAC: the two nested streaming hashes, with their detour through hex, return the
  HMAC of RFC 2104 for every key (hashed first where longer than a block) and message.
\<close>

theorem hmac_implements_rfc2104:
  "hmac_sha256_raw_impl key data = Some (hmac_spec key data) \<and>
   hmac_sha256_hex_impl key data = Some (hex_of_bytes (hmac_spec key data)) \<and>
   length (hmac_spec key data) = 32"
  by (simp add: hmac_raw_correct hmac_sha256_hex_impl_def hmac_spec_def Let_def)

text \<open>
  C29. Decoding what the base64url encoder wrote gives the bytes back without an
  error, for every byte string; the encoding is unpadded, four characters per three bytes.
\<close>

theorem base64url_roundtrip:
  "base64url_decode (base64url_encode_impl xs) = (xs, []) \<and>
   length (base64url_encode_impl xs) = (4 * length xs + 2) div 3"
  by (simp add: base64url_decode_def base64url_decode_impl_def decode_encode_loop length_encode)

text \<open>
  C30. The decoder fails exactly when a character outside the alphabet of RFC 4648 (letters, digits,
  \<open>-\<close> and \<open>_\<close>, written out) stands before the first \<open>=\<close>; a failure returns no bytes and
  the error message.
\<close>

theorem base64url_decode_error:
  "base64url_decode cs = ([], map of_char ''invalid base64url input'') \<longleftrightarrow>
     (\<exists>c \<in> set (takeWhile (\<lambda>c. c \<noteq> of_char (CHR ''='')) cs).
        c \<notin> set (map of_char ''ABCDEFGHIJKLMNOPQRSTUVWXYZabcdefghijklmnopqrstuvwxyz0123456789-_''))"
  unfolding b64_value_alphabet [symmetric]
  using decode_loop_ok [of cs 0 0 "[]"]
  by (auto simp: base64url_decode_def base64url_decode_impl_def Let_def split: prod.splits if_splits)

text \<open>
  Hashing a file in reads of 65536 bytes returns the hash of its contents and its
  size, whatever its size; a file that cannot be opened is reported as not found.
\<close>

theorem file_sha256_correct:
  "file_sha256 f =
     (case f of
        None \<Rightarrow> Some (map of_char ''file not found'', 0)
      | Some contents \<Rightarrow> map_option (\<lambda>h. (h, length contents)) (sha256_hex_impl contents))"
proof (cases f)
  case None
  then show ?thesis by (simp add: file_sha256_def)
next
  case (Some contents)
  obtain c where c: "sha256_update sha256_init contents = Some c"
    using update_eq_bytes [OF ctx_ok_init] by blast
  with Some show ?thesis
    by (simp add: file_sha256_def fread_loop_update [OF ctx_ok_init] sha256_hex_impl_def)
qed

end
