(* ===== verification/Prime_Sieve.thy ===== *)
theory Prime_Sieve
  imports Prelude
begin

text \<open>
  The \<open>count_primes\<close> job of \<open>run_job\<close> in \<open>ngx_lua_cpp.cpp\<close>: a base sieve up to the
  square root of the limit and forty segments sieved with the base primes. All numbers
  stay below \<open>200000000 + 40\<close>, so the \<open>size_t\<close> arithmetic is exact and
  \<open>(size_t)std::sqrt((double)limit)\<close> is the integer square root.
\<close>

section \<open>The code\<close>

function isqrt_from :: "nat \<Rightarrow> nat \<Rightarrow> nat" where
  "isqrt_from k n = (if (k + 1) * (k + 1) \<le> n then isqrt_from (k + 1) n else k)"
  by pat_completeness auto
termination
proof (relation "measure (\<lambda>(k, n). n - k)", goal_cases)
  case (2 k n)
  have "k + 1 \<le> (k + 1) * (k + 1)" by simp
  with 2 show ?case by simp
qed simp

declare isqrt_from.simps [simp del]

text \<open>\<open>for (k = start; k < bound; k += p) a[k - lo] = 0\<close>, with a positive step.\<close>

function clear_multiples :: "nat \<Rightarrow> nat \<Rightarrow> nat \<Rightarrow> nat \<Rightarrow> bool list \<Rightarrow> bool list" where
  "clear_multiples lo bound p k a =
     (if k < bound \<and> 0 < p then clear_multiples lo bound p (k + p) (a[k - lo := False]) else a)"
  by pat_completeness auto
termination
  by (relation "measure (\<lambda>(lo, bound, p, k, a). bound - k)") auto

declare clear_multiples.simps [simp del]

text \<open>The base sieve: \<open>for (i = 2; i * i <= root; i++) if (base[i]) ...\<close>.\<close>

function base_loop :: "nat \<Rightarrow> nat \<Rightarrow> bool list \<Rightarrow> bool list" where
  "base_loop root i base =
     (if i * i \<le> root \<and> 0 < i then
        base_loop root (i + 1)
          (if base ! i then clear_multiples 0 (root + 1) i (i * i) base else base)
      else base)"
  by pat_completeness auto
termination
proof (relation "measure (\<lambda>(root, i, base). root + 1 - i)", goal_cases)
  case (2 root i base)
  then have "i \<le> root" using le_square [of i] by (meson le_trans)
  then show ?case by simp
qed simp

declare base_loop.simps [simp del]

definition base_primes :: "nat \<Rightarrow> nat list" where
  "base_primes root =
     (let base = base_loop root 2 ((replicate (root + 1) True)[0 := False, 1 := False])
      in filter (\<lambda>i. base ! i) [2..<root + 1])"

text \<open>One segment: the bytes of \<open>mark\<close>, cleared for every base prime.\<close>

definition sieve_segment :: "nat list \<Rightarrow> nat \<Rightarrow> nat \<Rightarrow> bool list" where
  "sieve_segment primes lo hi =
     foldl (\<lambda>mark p. clear_multiples lo hi p (max (p * p) ((lo + p - 1) div p * p)) mark)
       (replicate (hi - lo) True) primes"

text \<open>The loop over the forty chunks, which stops early where a segment is empty.\<close>

fun segment_loop :: "nat list \<Rightarrow> nat \<Rightarrow> nat \<Rightarrow> nat list \<Rightarrow> nat \<Rightarrow> nat" where
  "segment_loop primes limit seg_size [] count = count"
| "segment_loop primes limit seg_size (c # cs) count =
     (let lo = max (c * seg_size) 2; hi = min (lo + seg_size) limit in
      if lo \<ge> hi then count
      else segment_loop primes limit seg_size cs
             (count + length (filter (\<lambda>m. m) (sieve_segment primes lo hi))))"

text \<open>The limit of the job after \<open>std::clamp\<close>, and the count it reports.\<close>

definition clamp_limit :: "nat \<Rightarrow> nat" where
  "clamp_limit limit = min (max limit 1000) 200000000"

definition count_primes :: "nat \<Rightarrow> nat" where
  "count_primes limit =
     (let root = isqrt_from 0 limit + 1
      in segment_loop (base_primes root) limit (max (limit div 40) 1) [0..<40] 0)"

section \<open>Primes\<close>

definition is_prime :: "nat \<Rightarrow> bool" where
  "is_prime n \<longleftrightarrow> 2 \<le> n \<and> (\<forall>d. 2 \<le> d \<and> d < n \<longrightarrow> \<not> d dvd n)"

lemma least_divisor:
  assumes "2 \<le> n" and "\<not> is_prime n"
  shows "\<exists>p. is_prime p \<and> p dvd n \<and> p * p \<le> n"
proof -
  from assms obtain d where d: "2 \<le> d" "d < n" "d dvd n" by (auto simp: is_prime_def)
  define p where "p = (LEAST p. 2 \<le> p \<and> p dvd n)"
  have p: "2 \<le> p \<and> p dvd n" unfolding p_def by (rule LeastI [of _ d]) (use d in auto)
  have least: "p \<le> q" if "2 \<le> q" "q dvd n" for q
    unfolding p_def by (rule Least_le) (use that in auto)
  have "is_prime p"
    unfolding is_prime_def using p least by (meson dvd_trans leD)
  obtain m where m: "n = p * m" using p by (auto elim: dvdE)
  have "2 \<le> m"
  proof (rule ccontr)
    assume "\<not> 2 \<le> m"
    with m assms(1) have "m = 1" by (cases m) auto
    with m have "p = n" by simp
    with least [of d] d show False by simp
  qed
  with m have "p \<le> m" using least [of m] by auto
  with m have "p * p \<le> n" by simp
  with \<open>is_prime p\<close> p show ?thesis by blast
qed

lemma not_prime_multiple: "2 \<le> p \<Longrightarrow> p dvd n \<Longrightarrow> p < n \<Longrightarrow> \<not> is_prime n"
  by (auto simp: is_prime_def)

lemma less_square: "2 \<le> (p :: nat) \<Longrightarrow> p < p * p"
  using n_less_m_mult_n [of p p] by simp

section \<open>The loops\<close>

lemma isqrt_from_correct:
  "k * k \<le> n \<Longrightarrow> isqrt_from k n * isqrt_from k n \<le> n \<and> n < (isqrt_from k n + 1) * (isqrt_from k n + 1)"
proof (induction k n rule: isqrt_from.induct)
  case (1 k n)
  then show ?case by (cases "(k + 1) * (k + 1) \<le> n") (simp_all add: isqrt_from.simps [of k n])
qed

lemma length_clear [simp]: "length (clear_multiples lo bound p k a) = length a"
  by (induction lo bound p k a rule: clear_multiples.induct) (simp add: clear_multiples.simps)

text \<open>Exactly the multiples of the step from the start on are cleared.\<close>

lemma clear_multiples_nth:
  "0 < p \<Longrightarrow> p dvd k \<Longrightarrow> lo \<le> k \<Longrightarrow> lo \<le> n \<Longrightarrow> n < bound \<Longrightarrow> n - lo < length a \<Longrightarrow>
   clear_multiples lo bound p k a ! (n - lo) = (a ! (n - lo) \<and> \<not> (p dvd n \<and> k \<le> n))"
proof (induction lo bound p k a rule: clear_multiples.induct)
  case (1 lo bound p k a)
  show ?case
  proof (cases "k < bound")
    case False
    with 1 show ?thesis by (simp add: clear_multiples.simps [of lo bound p k a])
  next
    case True
    have step: "p dvd n \<and> k \<le> n \<longleftrightarrow> n = k \<or> p dvd n \<and> k + p \<le> n"
    proof -
      have "k + p \<le> n" if "p dvd n" "k < n"
      proof -
        have "p dvd n - k" using that "1.prems" by (simp add: dvd_diff_nat)
        then have "p \<le> n - k" using that by (simp add: dvd_imp_le)
        with that show ?thesis by simp
      qed
      then show ?thesis using "1.prems" by (auto simp: le_less)
    qed
    have "clear_multiples lo bound p k a ! (n - lo)
        = ((a[k - lo := False]) ! (n - lo) \<and> \<not> (p dvd n \<and> k + p \<le> n))"
      using True "1.prems" "1.IH" by (simp add: clear_multiples.simps [of lo bound p k a])
    also have "\<dots> = (a ! (n - lo) \<and> \<not> (p dvd n \<and> k \<le> n))"
      unfolding step using "1.prems" by (cases "n = k") (simp_all add: eq_diff_iff)
    finally show ?thesis .
  qed
qed

definition no_small_divisor :: "nat \<Rightarrow> nat \<Rightarrow> bool" where
  "no_small_divisor i n \<longleftrightarrow> 2 \<le> n \<and> (\<forall>d. 2 \<le> d \<and> d < i \<and> d dvd n \<longrightarrow> n \<le> d)"

lemma no_small_divisor_Suc:
  "2 \<le> i \<Longrightarrow> no_small_divisor (Suc i) n \<longleftrightarrow> no_small_divisor i n \<and> \<not> (i dvd n \<and> i < n)"
  by (auto simp: no_small_divisor_def less_Suc_eq)

text \<open>Where \<open>i\<close> is still marked, the multiples below its square were cleared before.\<close>

lemma no_small_divisor_square:
  assumes "2 \<le> i" and "no_small_divisor i n" and "i dvd n" and "i < n"
  shows "i * i \<le> n"
proof (rule ccontr)
  obtain m where m: "n = i * m" using assms(3) by (auto elim: dvdE)
  assume "\<not> i * i \<le> n"
  with m have "m < i" by (metis nat_mult_le_cancel1 not_le le_zero_eq mult_is_0 neq0_conv)
  moreover have "2 \<le> m"
  proof (rule ccontr)
    assume "\<not> 2 \<le> m"
    then have "m = 0 \<or> m = 1" by auto
    with m assms(1,4) show False by auto
  qed
  moreover have "m dvd n" using m by simp
  ultimately have "n \<le> m" using assms(2) by (auto simp: no_small_divisor_def)
  moreover have "m < n" using m assms(1) \<open>2 \<le> m\<close> by simp
  ultimately show False by simp
qed

text \<open>Where \<open>i\<close> was cleared, its multiples were cleared as well.\<close>

lemma no_small_divisor_composite:
  assumes "2 \<le> i" and "\<not> no_small_divisor i i" and "i dvd n" and "i < n"
  shows "\<not> no_small_divisor i n"
proof -
  from assms(1,2) obtain d where "2 \<le> d" "d < i" "d dvd i" by (auto simp: no_small_divisor_def)
  with assms(3,4) show ?thesis
    by (auto simp: no_small_divisor_def dest: dvd_trans intro!: exI [of _ d])
qed

lemma base_loop_correct:
  "2 \<le> i \<Longrightarrow> length base = root + 1 \<Longrightarrow> (\<forall>n \<le> root. base ! n = no_small_divisor i n) \<Longrightarrow>
   \<exists>j. root < j * j \<and> 2 \<le> j \<and> (\<forall>n \<le> root. base_loop root i base ! n = no_small_divisor j n)"
proof (induction root i base rule: base_loop.induct)
  case (1 root i base)
  show ?case
  proof (cases "i * i \<le> root")
    case False
    with "1.prems" show ?thesis by (intro exI [of _ i]) (simp add: base_loop.simps [of root i base])
  next
    case True
    define base' where "base' = (if base ! i then clear_multiples 0 (root + 1) i (i * i) base else base)"
    have "i \<le> root" using True le_square [of i] by (meson le_trans)
    then have bi: "base ! i = no_small_divisor i i" using "1.prems" by blast
    have "base' ! n = no_small_divisor (i + 1) n" if n: "n \<le> root" for n
    proof (cases "no_small_divisor i i")
      case True
      then have "base' ! n = (base ! n \<and> \<not> (i dvd n \<and> i * i \<le> n))"
        using clear_multiples_nth [of i "i * i" 0 n "root + 1" base] "1.prems" n bi
        by (simp add: base'_def)
      moreover have "i dvd n \<and> i * i \<le> n \<longrightarrow> i < n"
        using less_square [OF "1.prems"(1)] by auto
      ultimately show ?thesis
        using "1.prems" n no_small_divisor_square [of i n] no_small_divisor_Suc [of i n] by auto
    next
      case False
      with bi "1.prems" n no_small_divisor_composite [of i n] no_small_divisor_Suc [of i n]
      show ?thesis by (auto simp: base'_def)
    qed
    moreover have "length base' = root + 1" using "1.prems" by (simp add: base'_def)
    ultimately have "\<exists>j. root < j * j \<and> 2 \<le> j \<and> (\<forall>n \<le> root. base_loop root (i + 1) base' ! n = no_small_divisor j n)"
      using "1.IH" True "1.prems" by (simp add: base'_def)
    then show ?thesis
      using True "1.prems" by (simp add: base_loop.simps [of root i base] base'_def)
  qed
qed

lemma base_primes_correct: "2 \<le> root \<Longrightarrow> set (base_primes root) = {p. is_prime p \<and> p \<le> root}"
proof -
  assume root: "2 \<le> root"
  define init where "init = (replicate (root + 1) True)[0 := False, 1 := False]"
  have "init ! n = no_small_divisor 2 n" if "n \<le> root" for n
    using that root by (cases "n = 0"; cases "n = 1")
      (auto simp: init_def no_small_divisor_def nth_list_update nth_append)
  then obtain j where j: "root < j * j" "2 \<le> j"
    "\<forall>n \<le> root. base_loop root 2 init ! n = no_small_divisor j n"
    using base_loop_correct [of 2 init root] by (auto simp: init_def)
  have "no_small_divisor j n \<longleftrightarrow> is_prime n" if n: "2 \<le> n" "n \<le> root" for n
  proof
    assume "is_prime n"
    then show "no_small_divisor j n"
      using n by (auto simp: no_small_divisor_def is_prime_def not_le)
  next
    assume small: "no_small_divisor j n"
    show "is_prime n"
    proof (rule ccontr)
      assume "\<not> is_prime n"
      from least_divisor [OF n(1) this] obtain p where p: "is_prime p" "p dvd n" "p * p \<le> n" by blast
      have "2 \<le> p" using p(1) by (simp add: is_prime_def)
      have "p < j"
      proof (rule ccontr)
        assume "\<not> p < j"
        then have "j * j \<le> p * p" by (simp add: mult_le_mono)
        with p(3) n(2) j(1) show False by simp
      qed
      moreover have "p < n" by (rule less_le_trans [OF less_square [OF \<open>2 \<le> p\<close>] p(3)])
      ultimately show False using small p(2) \<open>2 \<le> p\<close> by (auto simp: no_small_divisor_def)
    qed
  qed
  with j(3) have "base_loop root 2 init ! n \<longleftrightarrow> is_prime n" if "2 \<le> n" "n \<le> root" for n
    using that by blast
  moreover have "set (base_primes root) = {n. 2 \<le> n \<and> n \<le> root \<and> base_loop root 2 init ! n}"
    unfolding base_primes_def init_def [symmetric] Let_def set_filter set_upt by auto
  moreover have "2 \<le> n" if "is_prime n" for n using that by (simp add: is_prime_def)
  ultimately show ?thesis by blast
qed

text \<open>A segment marks its primes.\<close>

lemma sieve_fold_nth:
  assumes "\<forall>p \<in> set primes. 0 < p" and "lo \<le> n" and "n < hi"
  shows "length mark = hi - lo \<Longrightarrow>
    foldl (\<lambda>mark p. clear_multiples lo hi p (max (p * p) ((lo + p - 1) div p * p)) mark) mark primes ! (n - lo)
    = (mark ! (n - lo) \<and> \<not> (\<exists>p \<in> set primes. p dvd n \<and> p * p \<le> n))"
  using assms(1)
proof (induction primes arbitrary: mark)
  case Nil
  then show ?case by simp
next
  case (Cons p ps)
  define k where "k = max (p * p) ((lo + p - 1) div p * p)"
  have p: "0 < p" using Cons.prems by simp
  have "lo \<le> (lo + p - 1) div p * p"
  proof -
    have "lo + p - 1 < ((lo + p - 1) div p + 1) * p" using p by (metis Suc_eq_plus1 dividend_less_div_times mult.commute mult_Suc_right add.commute)
    then show ?thesis by (simp add: algebra_simps)
  qed
  then have lo: "lo \<le> k" by (simp add: k_def)
  have round: "(lo + p - 1) div p * p \<le> n" if dvd: "p dvd n"
  proof -
    obtain m where m: "n = m * p" using dvd by (metis dvd_def mult.commute)
    have "lo + p - 1 < n + p" using p assms(2) by simp
    also have "n + p = (m + 1) * p" using m by simp
    finally have "(lo + p - 1) div p < m + 1" by (simp add: div_less_iff_less_mult p)
    then show ?thesis using m by simp
  qed
  have "clear_multiples lo hi p k mark ! (n - lo) = (mark ! (n - lo) \<and> \<not> (p dvd n \<and> k \<le> n))"
    using clear_multiples_nth [OF p, of k lo n hi mark] lo assms(2,3) Cons.prems(1)
    by (simp add: k_def max_def)
  moreover have "p dvd n \<and> k \<le> n \<longleftrightarrow> p dvd n \<and> p * p \<le> n" using round by (auto simp: k_def)
  moreover have "foldl (\<lambda>mark p. clear_multiples lo hi p (max (p * p) ((lo + p - 1) div p * p)) mark)
        (clear_multiples lo hi p k mark) ps ! (n - lo)
      = (clear_multiples lo hi p k mark ! (n - lo) \<and> \<not> (\<exists>q \<in> set ps. q dvd n \<and> q * q \<le> n))"
    by (rule Cons.IH) (use Cons.prems in simp_all)
  ultimately show ?case by (simp add: k_def) blast
qed

lemma length_segment [simp]: "length (sieve_segment primes lo hi) = hi - lo"
proof -
  have "length (foldl (\<lambda>mark p. clear_multiples lo hi p (max (p * p) ((lo + p - 1) div p * p)) mark) mark primes)
      = length mark" for mark
    by (induction primes arbitrary: mark) auto
  then show ?thesis by (simp add: sieve_segment_def)
qed

lemma sieve_segment_correct:
  assumes "2 \<le> lo" and "lo \<le> n" and "n < hi" and "hi \<le> root * root" and "2 \<le> root"
  shows "sieve_segment (base_primes root) lo hi ! (n - lo) = is_prime n"
proof -
  have base: "set (base_primes root) = {p. is_prime p \<and> p \<le> root}" by (rule base_primes_correct [OF assms(5)])
  have "\<forall>p \<in> set (base_primes root). 0 < p" unfolding base by (auto simp: is_prime_def)
  from sieve_fold_nth [OF this assms(2,3), of "replicate (hi - lo) True"]
  have "sieve_segment (base_primes root) lo hi ! (n - lo) =
      (\<not> (\<exists>p. is_prime p \<and> p \<le> root \<and> p dvd n \<and> p * p \<le> n))"
    using assms(2,3) by (auto simp: sieve_segment_def base)
  also have "\<dots> = is_prime n"
  proof
    assume none: "\<not> (\<exists>p. is_prime p \<and> p \<le> root \<and> p dvd n \<and> p * p \<le> n)"
    show "is_prime n"
    proof (rule ccontr)
      assume "\<not> is_prime n"
      then obtain p where p: "is_prime p" "p dvd n" "p * p \<le> n"
        using least_divisor assms(1,2) by (meson le_trans)
      have "p \<le> root"
      proof (rule ccontr)
        assume "\<not> p \<le> root"
        then have "root * root \<le> p * p" by (simp add: mult_le_mono)
        with p(3) assms(3,4) show False by simp
      qed
      with p none show False by blast
    qed
  next
    assume "is_prime n"
    then have "n < p * p" if "is_prime p" "p dvd n" for p
    proof -
      have "2 \<le> p" using that(1) by (simp add: is_prime_def)
      moreover from this have "\<not> p < n" using that(2) not_prime_multiple \<open>is_prime n\<close> by blast
      ultimately show ?thesis by (meson less_square le_less_trans not_less)
    qed
    then show "\<not> (\<exists>p. is_prime p \<and> p \<le> root \<and> p dvd n \<and> p * p \<le> n)" by (meson not_le)
  qed
  finally show ?thesis .
qed

lemma segment_count:
  assumes "2 \<le> lo" and "hi \<le> root * root" and "2 \<le> root"
  shows "length (filter (\<lambda>m. m) (sieve_segment (base_primes root) lo hi)) = card {n. is_prime n \<and> lo \<le> n \<and> n < hi}"
proof -
  let ?m = "sieve_segment (base_primes root) lo hi"
  have "length (filter (\<lambda>m. m) ?m) = card {i. i < hi - lo \<and> ?m ! i}"
    by (simp add: length_filter_conv_card)
  also have "{i. i < hi - lo \<and> ?m ! i} = (\<lambda>n. n - lo) ` {n. is_prime n \<and> lo \<le> n \<and> n < hi}"
  proof (intro set_eqI iffI)
    fix i
    assume i: "i \<in> {i. i < hi - lo \<and> ?m ! i}"
    then have "is_prime (i + lo)"
      using sieve_segment_correct [OF assms(1) _ _ assms(2,3), of "i + lo"] by auto
    with i show "i \<in> (\<lambda>n. n - lo) ` {n. is_prime n \<and> lo \<le> n \<and> n < hi}"
      by (intro image_eqI [of _ _ "i + lo"]) auto
  next
    fix i
    assume "i \<in> (\<lambda>n. n - lo) ` {n. is_prime n \<and> lo \<le> n \<and> n < hi}"
    then show "i \<in> {i. i < hi - lo \<and> ?m ! i}"
      using sieve_segment_correct [OF assms(1) _ _ assms(2,3)] by auto
  qed
  also have "card \<dots> = card {n. is_prime n \<and> lo \<le> n \<and> n < hi}"
    by (rule card_image) (auto simp: inj_on_def)
  finally show ?thesis .
qed

section \<open>The sum over the segments\<close>

definition primes_in :: "nat \<Rightarrow> nat \<Rightarrow> nat" where
  "primes_in a b = card {n. is_prime n \<and> a \<le> n \<and> n < b}"

lemma primes_in_split: "a \<le> b \<Longrightarrow> b \<le> c \<Longrightarrow> primes_in a b + primes_in b c = primes_in a c"
proof -
  assume ab: "a \<le> b" "b \<le> c"
  have "{n. is_prime n \<and> a \<le> n \<and> n < c} =
      {n. is_prime n \<and> a \<le> n \<and> n < b} \<union> {n. is_prime n \<and> b \<le> n \<and> n < c}"
    using ab by auto
  moreover have "card ({n. is_prime n \<and> a \<le> n \<and> n < b} \<union> {n. is_prime n \<and> b \<le> n \<and> n < c})
      = primes_in a b + primes_in b c"
    unfolding primes_in_def by (rule card_Un_disjoint) auto
  ultimately show ?thesis by (simp add: primes_in_def)
qed

lemma segment_loop_sum:
  assumes "limit \<le> root * root" and "2 \<le> root"
  shows "\<forall>c \<in> set cs. max (c * seg) 2 < min (max (c * seg) 2 + seg) limit \<Longrightarrow>
    segment_loop (base_primes root) limit seg cs count =
      count + (\<Sum>c \<leftarrow> cs. primes_in (max (c * seg) 2) (min (max (c * seg) 2 + seg) limit))"
proof (induction cs arbitrary: count)
  case Nil
  then show ?case by simp
next
  case (Cons c cs)
  have "length (filter (\<lambda>m. m) (sieve_segment (base_primes root) (max (c * seg) 2) (min (max (c * seg) 2 + seg) limit)))
     = primes_in (max (c * seg) 2) (min (max (c * seg) 2 + seg) limit)"
    unfolding primes_in_def by (rule segment_count) (use assms in auto)
  moreover have "\<not> max (c * seg) 2 \<ge> min (max (c * seg) 2 + seg) limit"
    using Cons.prems unfolding not_le by (meson list.set_intros(1))
  ultimately show ?case using Cons by (simp add: Let_def del: min_le_iff_disj le_max_iff_disj)
qed

lemma segments_sum: "2 \<le> seg \<Longrightarrow> (\<Sum>c \<leftarrow> [1..<Suc k]. primes_in (c * seg) (c * seg + seg)) = primes_in seg (seg + k * seg)"
proof (induction k)
  case 0
  then show ?case by (simp add: primes_in_def)
next
  case (Suc k)
  then show ?case
    using primes_in_split [of seg "seg + k * seg" "seg + Suc k * seg"] by (simp add: algebra_simps)
qed

lemma count_primes_sum:
  assumes limit: "1000 \<le> limit"
  shows "count_primes limit = primes_in 0 (40 * (limit div 40)) + primes_in (limit div 40) (limit div 40 + 2)"
proof -
  define seg where "seg = limit div 40"
  define root where "root = isqrt_from 0 limit + 1"
  have seg: "25 \<le> seg" "40 * seg \<le> limit" using limit div_le_mono [OF limit, of 40] by (simp_all add: seg_def)
  have "limit < root * root" using isqrt_from_correct [of 0 limit] by (simp add: root_def)
  then have root: "limit \<le> root * root" by simp
  have "2 \<le> root"
  proof (rule ccontr)
    assume "\<not> 2 \<le> root"
    then have "root * root \<le> 1" by (cases root) auto
    with root limit show False by simp
  qed
  have hi: "min (max (c * seg) 2 + seg) limit = max (c * seg) 2 + seg" if "c < 40" for c
  proof -
    have "Suc c * seg \<le> 40 * seg" by (rule mult_le_mono1) (use that in simp)
    from le_trans [OF this seg(2)] have "c * seg + seg \<le> limit" by (simp add: add.commute)
    moreover have "2 + seg \<le> limit" using seg by simp
    ultimately have "max (c * seg) 2 + seg \<le> limit" by (cases "c * seg \<le> 2") (simp_all add: max_def)
    then show ?thesis by (rule min.absorb1)
  qed
  define cs where "cs = [1..<Suc 39]"
  have "[0..<Suc 39] = 0 # [Suc 0..<Suc 39]" by (rule upt_conv_Cons) simp
  moreover have "Suc 39 = 40" by simp
  ultimately have up: "[0..<40] = 0 # cs" unfolding cs_def One_nat_def by metis
  have cs: "1 \<le> c \<and> c < 40" if "c \<in> set cs" for c
    using that unfolding cs_def set_upt by auto
  have all: "\<forall>c \<in> set (0 # cs). max (c * seg) 2 < min (max (c * seg) 2 + seg) limit"
    using hi cs seg(1) by fastforce
  have later: "max (c * seg) 2 = c * seg" if "c \<in> set cs" for c
  proof (rule max.absorb1)
    have "1 * seg \<le> c * seg" using cs [OF that] by (intro mult_le_mono1) simp
    with seg(1) show "2 \<le> c * seg" by linarith
  qed
  have "max seg 1 = seg" using seg(1) by simp
  then have "count_primes limit = segment_loop (base_primes root) limit seg (0 # cs) 0"
    unfolding count_primes_def Let_def seg_def [symmetric] root_def [symmetric] up by simp
  also have "\<dots> = (\<Sum>c \<leftarrow> 0 # cs. primes_in (max (c * seg) 2) (min (max (c * seg) 2 + seg) limit))"
    using segment_loop_sum [OF root \<open>2 \<le> root\<close> all, of 0] by (simp only: add_0)
  also have "\<dots> = primes_in 2 (2 + seg) +
      (\<Sum>c \<leftarrow> cs. primes_in (max (c * seg) 2) (min (max (c * seg) 2 + seg) limit))"
    using hi [of 0] by simp
  also have "(\<Sum>c \<leftarrow> cs. primes_in (max (c * seg) 2) (min (max (c * seg) 2 + seg) limit))
      = (\<Sum>c \<leftarrow> cs. primes_in (c * seg) (c * seg + seg))"
  proof (intro arg_cong [where f = sum_list] map_cong refl)
    fix c
    assume "c \<in> set cs"
    then show "primes_in (max (c * seg) 2) (min (max (c * seg) 2 + seg) limit) =
        primes_in (c * seg) (c * seg + seg)"
      using hi [of c] cs [of c] later [of c] by simp
  qed
  also have "(\<Sum>c \<leftarrow> cs. primes_in (c * seg) (c * seg + seg)) = primes_in seg (seg + 39 * seg)"
    unfolding cs_def by (rule segments_sum) (use seg in simp)
  also have "primes_in 2 (2 + seg) = primes_in 2 seg + primes_in seg (seg + 2)"
    using primes_in_split [of 2 seg "seg + 2"] seg(1) by (simp add: add.commute)
  also have "primes_in 2 seg + primes_in seg (seg + 2) + primes_in seg (seg + 39 * seg)
      = primes_in 2 (40 * seg) + primes_in seg (seg + 2)"
    using primes_in_split [of 2 seg "40 * seg"] seg(1) by simp
  also have "primes_in 2 (40 * seg) = primes_in 0 (40 * seg)"
    unfolding primes_in_def by (rule arg_cong [where f = card]) (auto simp: is_prime_def)
  finally show ?thesis by (simp add: seg_def)
qed

section \<open>Properties\<close>

text \<open>
  Each segment of the sieve marks exactly its primes: for a base sieve whose
  square covers the segment, the byte of \<open>n\<close> stays 1 if and only if \<open>n\<close> is prime.
\<close>

theorem sieve_segment_marks_primes:
  assumes "2 \<le> lo" and "lo \<le> n" and "n < hi" and "hi \<le> root * root" and "2 \<le> root"
  shows "sieve_segment (base_primes root) lo hi ! (n - lo) = is_prime n"
  using assms by (rule sieve_segment_correct)

theorem sieve_segment_marks_primes_witness:
  "sieve_segment (base_primes 4) 8 16 ! (13 - 8) = is_prime 13"
  by (rule sieve_segment_marks_primes) simp_all

text \<open>
  What the job counts, for every limit it accepts: the primes below
  \<open>40 * (limit div 40)\<close>, and the primes among \<open>limit div 40\<close> and its successor once
  more, because the first segment starts at 2 and still spans a whole segment length.
\<close>

theorem count_primes_exact:
  "count_primes (clamp_limit n) =
     card {p. is_prime p \<and> p < 40 * (clamp_limit n div 40)} +
     card {p. is_prime p \<and> clamp_limit n div 40 \<le> p \<and> p < clamp_limit n div 40 + 2}"
proof -
  have "1000 \<le> clamp_limit n" by (simp add: clamp_limit_def)
  from count_primes_sum [OF this] show ?thesis by (simp add: primes_in_def)
qed

text \<open>
  The reported text says \<open>primes <= limit\<close>, and the count can be too large: for
  the limit 1160 the prime 29 is counted twice.
\<close>

theorem count_primes_overcounts:
  "count_primes 1160 = card {p. is_prime p \<and> p \<le> 1160} + 1"
proof -
  have "is_prime 29"
  proof (rule ccontr)
    assume "\<not> is_prime 29"
    from least_divisor [OF _ this] obtain p where p: "is_prime p" "p dvd 29" "p * p \<le> 29" by auto
    have "2 \<le> p" using p(1) by (simp add: is_prime_def)
    moreover have "p < 6"
    proof (rule ccontr)
      assume "\<not> p < 6"
      then have "6 * 6 \<le> p * p" by (intro mult_le_mono) auto
      with p(3) show False by simp
    qed
    ultimately have "p = 2 \<or> p = 3 \<or> p = 4 \<or> p = 5" by auto
    with p(2) show False by auto
  qed
  then have "{p. is_prime p \<and> 29 \<le> p \<and> p < 31} = {29}"
  proof -
    have "\<not> is_prime 30" by (rule not_prime_multiple [of 2]) auto
    moreover have "p = 29 \<or> p = 30" if "29 \<le> p" "p < 31" for p :: nat using that by auto
    ultimately show ?thesis using \<open>is_prime 29\<close> by auto
  qed
  moreover have "{p. is_prime p \<and> p < 1160} = {p. is_prime p \<and> p \<le> 1160}"
  proof -
    have "\<not> is_prime 1160" by (rule not_prime_multiple [of 2]) auto
    then show ?thesis by (auto simp: le_less)
  qed
  moreover have "count_primes 1160 = primes_in 0 1160 + primes_in 29 31"
    using count_primes_sum [of 1160] by (simp del: One_nat_def)
  ultimately show ?thesis by (simp add: primes_in_def)
qed

end
