(* ===== verification/Algorithms.thy ===== *)
theory Algorithms
  imports Std_Map
begin

text \<open>
  The free-standing algorithms of \<open>iris_common.h\<close>: compile-time logarithm and index
  sequences, alignment arithmetic on machine words, the sorted-vector dictionary
  (\<open>iris_binary_find\<close>, \<open>iris_binary_insert\<close>, \<open>iris_binary_erase\<close> over
  \<open>iris_key_value_t\<close>), the position of the lowest set bit, and the disjoint-set forest
  with path compression.
\<close>

unbundle bit_operations_syntax

section \<open>Compile-time recursion\<close>

fun iris_log2 :: "nat \<Rightarrow> nat" where
  "iris_log2 i = (if i div 2 \<noteq> 0 then 1 + iris_log2 (i div 2) else 0)"

declare iris_log2.simps [simp del]

definition iris_concat :: "nat list \<Rightarrow> nat list \<Rightarrow> nat list" where
  "iris_concat i1 i2 = i1 @ map (\<lambda>i. length i1 + i) i2"

fun iris_make_sequence :: "nat \<Rightarrow> nat list" where
  "iris_make_sequence n =
     (if n = 0 then [] else if n = 1 then [0]
      else iris_concat (iris_make_sequence (n div 2)) (iris_make_sequence (n - n div 2)))"

declare iris_make_sequence.simps [simp del]

lemma iris_log2_bounds: "0 < i \<Longrightarrow> 2 ^ iris_log2 i \<le> i \<and> i < 2 ^ Suc (iris_log2 i)"
proof (induction i rule: iris_log2.induct)
  case (1 i)
  show ?case
  proof (cases "i div 2 = 0")
    case True
    with 1(2) show ?thesis by (simp add: iris_log2.simps [of i])
  next
    case False
    with 1 have "2 ^ iris_log2 (i div 2) \<le> i div 2" "i div 2 < 2 ^ Suc (iris_log2 (i div 2))" by auto
    then have "2 * 2 ^ iris_log2 (i div 2) \<le> i" "i < 2 * (2 * 2 ^ iris_log2 (i div 2))"
      unfolding power_Suc by linarith+
    with False show ?thesis by (simp add: iris_log2.simps [of i])
  qed
qed

lemma iris_make_sequence_upt: "iris_make_sequence n = [0..<n]"
proof (induction n rule: iris_make_sequence.induct)
  case (1 n)
  show ?case
  proof (cases "n < 2")
    case True
    then have "n = 0 \<or> n = 1" by auto
    then show ?thesis by (auto simp: iris_make_sequence.simps [of 0] iris_make_sequence.simps [of "Suc 0"])
  next
    case False
    then have "n = n div 2 + (n - n div 2)" by simp
    then have "[0..<n] = [0..<n div 2] @ map (\<lambda>i. n div 2 + i) [0..<n - n div 2]"
      using upt_add_eq_append [of 0 "n div 2" "n - n div 2"] map_add_upt [of "n div 2" "n - n div 2"]
      by (simp add: add.commute)
    moreover have "iris_make_sequence (n div 2) = [0..<n div 2]"
      "iris_make_sequence (n - n div 2) = [0..<n - n div 2]" using False 1 by simp_all
    ultimately show ?thesis using False unfolding iris_make_sequence.simps [of n] iris_concat_def by simp
  qed
qed

section \<open>Alignment on machine words\<close>

definition iris_get_alignment :: "'a :: len word \<Rightarrow> 'a word" where
  "iris_get_alignment a = a AND (NOT a + 1)"

definition iris_upper_size :: "'a :: len word \<Rightarrow> 'a word \<Rightarrow> 'a word" where
  "iris_upper_size a c = (a + c - 1) div c"

definition iris_lower_size :: "'a :: len word \<Rightarrow> 'a word \<Rightarrow> 'a word" where
  "iris_lower_size a c = a div c"

definition iris_to_alignment :: "'a :: len word \<Rightarrow> 'a word \<Rightarrow> 'a word" where
  "iris_to_alignment a t = (a + (t - 1)) AND NOT (t - 1)"

text \<open>\<open>__builtin_ctz\<close>: the number of zero bits below the lowest set one.\<close>

fun ctz_from :: "'a :: len word \<Rightarrow> nat \<Rightarrow> nat \<Rightarrow> nat" where
  "ctz_from value i 0 = i"
| "ctz_from value i (Suc n) = (if bit value i then i else ctz_from value (Suc i) n)"

definition iris_get_trailing_zeros :: "'a :: len word \<Rightarrow> nat" where
  "iris_get_trailing_zeros v = ctz_from v 0 LENGTH('a)"

text \<open>The 64 bit version of the compilers without a 64 bit scan, which scans the halves.\<close>

definition iris_get_trailing_zeros_halves :: "uint64_t \<Rightarrow> nat" where
  "iris_get_trailing_zeros_halves v =
     (let lowPart = ucast (v AND 0xffffffff) :: uint32_t in
      if lowPart = 0
      then iris_get_trailing_zeros (ucast (drop_bit 1 (drop_bit 31 v)) :: uint32_t) + 32
      else iris_get_trailing_zeros lowPart)"

lemma ctz_from_spec:
  "i + n = LENGTH('a) \<Longrightarrow> \<forall>j < i. \<not> bit (v :: 'a :: len word) j \<Longrightarrow> v \<noteq> 0 \<Longrightarrow>
   bit v (ctz_from v i n) \<and> (\<forall>j < ctz_from v i n. \<not> bit v j)"
proof (induction v i n rule: ctz_from.induct)
  case (1 v i)
  then have "v = 0" by (auto intro!: bit_eqI)
  with 1 show ?case by simp
next
  case (2 v i n)
  then show ?case by (auto simp: less_Suc_eq)
qed

lemma trailing_zeros_spec:
  "v \<noteq> 0 \<Longrightarrow> bit v (iris_get_trailing_zeros v) \<and> (\<forall>j < iris_get_trailing_zeros v. \<not> bit v j)"
  unfolding iris_get_trailing_zeros_def by (rule ctz_from_spec) auto

lemma trailing_zeros_unique:
  "bit v i \<Longrightarrow> \<forall>j < i. \<not> bit v j \<Longrightarrow> iris_get_trailing_zeros v = i"
  using trailing_zeros_spec [of v] by (metis bit_0_eq bot_apply bot_bool_def linorder_neqE_nat)

lemma trailing_zeros_halves:
  assumes "v \<noteq> 0"
  shows "iris_get_trailing_zeros_halves v = iris_get_trailing_zeros v"
proof -
  let ?low = "ucast (v AND 0xffffffff) :: uint32_t"
  let ?high = "ucast (drop_bit 1 (drop_bit 31 v)) :: uint32_t"
  have "(0xffffffff :: uint64_t) = mask 32" by (simp add: mask_eq_exp_minus_1)
  then have low: "bit ?low j \<longleftrightarrow> j < 32 \<and> bit v j" for j
    by (simp only: bit_simps) auto
  have high: "bit ?high j \<longleftrightarrow> j < 32 \<and> bit v (j + 32)" for j
    by (auto simp: bit_simps add.commute)
  show ?thesis
  proof (cases "?low = 0")
    case True
    then have below: "\<not> bit v j" if "j < 32" for j using low [of j] that by simp
    have "?high \<noteq> 0"
    proof
      assume "?high = 0"
      then have "\<not> bit v j" if "32 \<le> j" "j < 64" for j
        using high [of "j - 32"] that by simp
      with below have "v = 0" by (intro bit_eqI) (auto simp: not_less [symmetric])
      with assms show False ..
    qed
    from trailing_zeros_spec [OF this] have "bit v (iris_get_trailing_zeros ?high + 32)"
      "\<forall>j < iris_get_trailing_zeros ?high. j < 32 \<longrightarrow> \<not> bit v (j + 32)" 
      "iris_get_trailing_zeros ?high < 32"
      using high by auto
    moreover have "\<not> bit v j" if "j < iris_get_trailing_zeros ?high + 32" for j
    proof (cases "j < 32")
      case False
      with that have "j - 32 < iris_get_trailing_zeros ?high" "j - 32 + 32 = j" by auto
      moreover from this(1) have "j - 32 < 32" using \<open>iris_get_trailing_zeros ?high < 32\<close> by (rule less_trans)
      ultimately show ?thesis
        using \<open>\<forall>j < iris_get_trailing_zeros ?high. j < 32 \<longrightarrow> \<not> bit v (j + 32)\<close> by metis
    qed (rule below)
    ultimately have "iris_get_trailing_zeros v = iris_get_trailing_zeros ?high + 32"
      by (intro trailing_zeros_unique) auto
    with True show ?thesis by (simp add: iris_get_trailing_zeros_halves_def Let_def)
  next
    case False
    from trailing_zeros_spec [OF this] have "iris_get_trailing_zeros v = iris_get_trailing_zeros ?low"
      by (intro trailing_zeros_unique) (auto simp: low)
    with False show ?thesis by (simp add: iris_get_trailing_zeros_halves_def Let_def)
  qed
qed


lemma get_alignment_spec:
  assumes "v \<noteq> (0 :: 'a :: len word)"
  shows "iris_get_alignment v = push_bit (iris_get_trailing_zeros v) 1"
proof -
  let ?n = "iris_get_trailing_zeros v"
  from trailing_zeros_spec [OF assms] have n: "bit v ?n" "\<And>j. j < ?n \<Longrightarrow> \<not> bit v j" by auto
  then have len: "?n < LENGTH('a)" using bit_imp_le_length by auto
  define m where "m = Suc ?n"
  have m: "m \<le> j \<longleftrightarrow> ?n < j" for j by (auto simp: m_def)
  define w where "w = drop_bit m v"
  have bits: "bit (push_bit m x) j \<longleftrightarrow> ?n < j \<and> j < LENGTH('a) \<and> bit x (j - m)" for x :: "'a word" and j
    by (auto simp: bit_simps m)
  have one: "bit (push_bit ?n (1 :: 'a word)) j \<longleftrightarrow> j = ?n" for j
    using len by (auto simp: bit_exp_iff)
  have disjoint: "push_bit m x + push_bit ?n 1 = push_bit m x OR push_bit ?n 1" for x :: "'a word"
    by (rule disjunctive_add_eq_or) (intro bit_eqI, auto simp only: bits one bit_and_iff bit_0_eq bot_apply bot_bool_def)
  have w: "bit w (j - m) \<longleftrightarrow> bit v j" if "?n < j" for j
    using that by (simp add: w_def bit_simps m)
  have "v = push_bit m w OR push_bit ?n 1"
  proof (rule bit_eqI)
    fix j
    assume "possible_bit TYPE('a word) j"
    then have "j < LENGTH('a)" by simp
    then show "bit v j = bit (push_bit m w OR push_bit ?n 1) j"
      using n w [of j] len by (cases j ?n rule: linorder_cases) (auto simp only: bits one bit_or_iff)
  qed
  then have v: "v = push_bit m w + push_bit ?n 1" by (simp only: disjoint)
  have "NOT v + 1 = - v" by (simp add: minus_eq_not_plus_1)
  moreover have "- v = push_bit m (NOT w) + push_bit ?n 1"
    by (subst v) (simp add: m_def push_bit_eq_mult not_eq_complement algebra_simps)
  ultimately have "NOT v + 1 = push_bit m (NOT w) OR push_bit ?n 1" by (simp only: disjoint)
  then show ?thesis
    unfolding iris_get_alignment_def using n len w
    by (intro bit_eqI) (auto simp only: bits one bit_and_iff bit_or_iff bit_not_iff)
qed

text \<open>Rounding up to a power of two, where the sum stays within the word.\<close>

lemma to_alignment_value:
  assumes k: "k < LENGTH('a)" and room: "unat a + (2 ^ k - 1) < 2 ^ LENGTH('a)"
  shows "unat (iris_to_alignment (a :: 'a :: len word) (push_bit k 1)) = (unat a + 2 ^ k - 1) div 2 ^ k * 2 ^ k"
proof -
  let ?x = "a + (push_bit k 1 - 1)"
  have m: "push_bit k 1 - 1 = (mask k :: 'a word)" by (simp add: mask_eq_exp_minus_1 push_bit_eq_mult)
  have um: "unat (mask k :: 'a word) = 2 ^ k - 1"
    using k of_nat_inverse [of "2 ^ k - 1" "mask k :: 'a word"]
    by (simp add: mask_eq_exp_minus_1 of_nat_diff less_imp_diff_less)
  have x: "unat ?x = unat a + (2 ^ k - 1)"
    using room um unfolding m unat_word_ariths by simp
  have "?x AND NOT (mask k) = push_bit k (drop_bit k ?x)"
    by (intro bit_eqI) (auto simp: bit_simps)
  then have "iris_to_alignment a (push_bit k 1) = push_bit k (drop_bit k ?x)"
    unfolding iris_to_alignment_def m by simp
  then have "unat (iris_to_alignment a (push_bit k 1)) = (unat ?x div 2 ^ k * 2 ^ k) mod 2 ^ LENGTH('a)"
    by (simp only: unsigned_push_bit_eq unat_drop_bit_eq take_bit_eq_mod) (simp add: push_bit_eq_mult drop_bit_eq_div)
  moreover have "unat ?x div 2 ^ k * 2 ^ k < 2 ^ LENGTH('a)"
    by (rule le_less_trans [OF _ unsigned_less [of ?x]]) simp
  moreover have "unat a + (2 ^ k - 1) = unat a + 2 ^ k - 1" by simp
  ultimately show ?thesis using x by (metis mod_less)
qed

section \<open>The sorted vector as a dictionary\<close>

text \<open>
  \<open>iris_key_value_t\<close> is a pair that compares by its first component. Iterators are
  indices, and the end iterator is the length.
\<close>

type_synonym ('k, 'v) iris_key_value_t = "'k \<times> 'v"

definition key_value_less :: "('k :: linorder, 'v) iris_key_value_t \<Rightarrow> ('k, 'v) iris_key_value_t \<Rightarrow> bool" where
  "key_value_less a b \<longleftrightarrow> fst a < fst b"

definition key_value_eq :: "('k :: linorder, 'v) iris_key_value_t \<Rightarrow> ('k, 'v) iris_key_value_t \<Rightarrow> bool" where
  "key_value_eq a b \<longleftrightarrow> fst a = fst b"

text \<open>The standard library's partition point: halving until the range is empty.\<close>

function bound_search :: "('a \<Rightarrow> bool) \<Rightarrow> 'a list \<Rightarrow> nat \<Rightarrow> nat \<Rightarrow> nat" where
  "bound_search before xs first len =
     (if len = 0 then first
      else let half = len div 2 in
        if before (xs ! (first + half)) then bound_search before xs (first + half + 1) (len - half - 1)
        else bound_search before xs first half)"
  by pat_completeness auto
termination
  by (relation "measure (\<lambda>(before, xs, first, len). len)") auto

declare bound_search.simps [simp del]

definition lower_bound :: "('a \<Rightarrow> 'a \<Rightarrow> bool) \<Rightarrow> 'a list \<Rightarrow> 'a \<Rightarrow> nat" where
  "lower_bound pred xs e = bound_search (\<lambda>x. pred x e) xs 0 (length xs)"

definition upper_bound :: "('a \<Rightarrow> 'a \<Rightarrow> bool) \<Rightarrow> 'a list \<Rightarrow> 'a \<Rightarrow> nat" where
  "upper_bound pred xs e = bound_search (\<lambda>x. \<not> pred e x) xs 0 (length xs)"

definition iris_binary_find :: "('a \<Rightarrow> 'a \<Rightarrow> bool) \<Rightarrow> 'a list \<Rightarrow> 'a \<Rightarrow> nat" where
  "iris_binary_find pred xs element =
     (if xs = [] then length xs
      else if pred (last xs) element then length xs
      else let it = lower_bound pred xs element in
        if it \<noteq> length xs \<and> \<not> pred element (xs ! it) then it else length xs)"

definition iris_binary_insert :: "('a \<Rightarrow> 'a \<Rightarrow> bool) \<Rightarrow> 'a list \<Rightarrow> 'a \<Rightarrow> 'a list \<times> nat" where
  "iris_binary_insert pred xs element =
     (let it = upper_bound pred xs element in
      if it \<noteq> 0 \<and> \<not> pred (xs ! (it - 1)) element then (xs[it - 1 := element], it - 1)
      else (take it xs @ element # drop it xs, it))"

definition iris_binary_erase :: "('a \<Rightarrow> 'a \<Rightarrow> bool) \<Rightarrow> 'a list \<Rightarrow> 'a \<Rightarrow> 'a list \<times> bool" where
  "iris_binary_erase pred xs element =
     (let it = upper_bound pred xs element in
      if it \<noteq> 0 \<and> \<not> pred (xs ! (it - 1)) element then (take (it - 1) xs @ drop it xs, True)
      else (xs, False))"

lemma bound_search_spec:
  "(\<forall>i j. first \<le> i \<longrightarrow> i \<le> j \<longrightarrow> j < first + len \<longrightarrow> before (xs ! j) \<longrightarrow> before (xs ! i)) \<Longrightarrow>
   first \<le> bound_search before xs first len \<and> bound_search before xs first len \<le> first + len \<and>
   (\<forall>i. first \<le> i \<longrightarrow> i < bound_search before xs first len \<longrightarrow> before (xs ! i)) \<and>
   (\<forall>i. bound_search before xs first len \<le> i \<longrightarrow> i < first + len \<longrightarrow> \<not> before (xs ! i))"
proof (induction before xs first len rule: bound_search.induct)
  case (1 before xs first len)
  show ?case
  proof (cases "len = 0")
    case True
    then show ?thesis by (simp add: bound_search.simps [of before xs first])
  next
    case False
    define half where "half = len div 2"
    have half: "half < len" using False by (simp add: half_def)
    show ?thesis
    proof (cases "before (xs ! (first + half))")
      case True
      let ?r = "bound_search before xs (first + half + 1) (len - half - 1)"
      have eq: "bound_search before xs first len = ?r"
        using False True by (simp add: bound_search.simps [of before xs first len] half_def Let_def)
      have end_eq: "first + half + 1 + (len - half - 1) = first + len" using half by simp
      have "first + half + 1 \<le> ?r \<and> ?r \<le> first + len \<and>
          (\<forall>i. first + half + 1 \<le> i \<longrightarrow> i < ?r \<longrightarrow> before (xs ! i)) \<and>
          (\<forall>i. ?r \<le> i \<longrightarrow> i < first + len \<longrightarrow> \<not> before (xs ! i))"
        using "1.IH"(1) [OF False half_def True] "1.prems" unfolding end_eq by (meson le_trans le_add1)
      moreover have "before (xs ! i)" if "first \<le> i" "i \<le> first + half" for i
        using "1.prems" that True half by (meson add_strict_left_mono)
      ultimately show ?thesis unfolding eq by (metis Suc_eq_plus1 add_leD1 not_less_eq_eq)
    next
      case False': False
      let ?r = "bound_search before xs first half"
      have eq: "bound_search before xs first len = ?r"
        using False False' by (simp add: bound_search.simps [of before xs first len] half_def Let_def)
      have "first \<le> ?r \<and> ?r \<le> first + half \<and>
          (\<forall>i. first \<le> i \<longrightarrow> i < ?r \<longrightarrow> before (xs ! i)) \<and>
          (\<forall>i. ?r \<le> i \<longrightarrow> i < first + half \<longrightarrow> \<not> before (xs ! i))"
        using "1.IH"(2) [OF False half_def False'] "1.prems" half by (meson add_strict_left_mono less_trans)
      moreover have "\<not> before (xs ! i)" if "first + half \<le> i" "i < first + len" for i
        using "1.prems" that False' by (meson le_add1)
      ultimately show ?thesis unfolding eq using half by (metis add_le_cancel_left le_trans less_imp_le not_less)
    qed
  qed
qed

text \<open>On a vector sorted by key the searches split it at the key.\<close>

lemma map_ok_nth: "map_ok m \<Longrightarrow> i < j \<Longrightarrow> j < length m \<Longrightarrow> fst (m ! i) < fst (m ! j)"
  by (simp add: map_ok_def map_keys_def sorted_wrt_iff_nth_less)

lemma map_ok_nth_le: "map_ok m \<Longrightarrow> i \<le> j \<Longrightarrow> j < length m \<Longrightarrow> fst (m ! i) \<le> fst (m ! j)"
  using map_ok_nth [of m i j] by (cases "i = j") auto

lemma upper_bound_key:
  assumes "map_ok m" and "upper_bound key_value_less m (k, v) = it"
  shows "it \<le> length m" "\<And>i. i < it \<Longrightarrow> fst (m ! i) \<le> k" "\<And>i. it \<le> i \<Longrightarrow> i < length m \<Longrightarrow> k < fst (m ! i)"
proof -
  have "\<forall>i j. 0 \<le> i \<longrightarrow> i \<le> j \<longrightarrow> j < 0 + length m \<longrightarrow>
      \<not> key_value_less (k, v) (m ! j) \<longrightarrow> \<not> key_value_less (k, v) (m ! i)"
    using map_ok_nth_le [OF assms(1)] by (fastforce simp: key_value_less_def)
  from bound_search_spec [OF this] show "it \<le> length m" "\<And>i. i < it \<Longrightarrow> fst (m ! i) \<le> k"
    "\<And>i. it \<le> i \<Longrightarrow> i < length m \<Longrightarrow> k < fst (m ! i)"
    using assms(2) by (auto simp: upper_bound_def key_value_less_def not_less)
qed

lemma lower_bound_key:
  assumes "map_ok m" and "lower_bound key_value_less m (k, v) = it"
  shows "it \<le> length m" "\<And>i. i < it \<Longrightarrow> fst (m ! i) < k" "\<And>i. it \<le> i \<Longrightarrow> i < length m \<Longrightarrow> k \<le> fst (m ! i)"
proof -
  have "\<forall>i j. 0 \<le> i \<longrightarrow> i \<le> j \<longrightarrow> j < 0 + length m \<longrightarrow>
      key_value_less (m ! j) (k, v) \<longrightarrow> key_value_less (m ! i) (k, v)"
    using map_ok_nth_le [OF assms(1)] by (fastforce simp: key_value_less_def)
  from bound_search_spec [OF this] show "it \<le> length m" "\<And>i. i < it \<Longrightarrow> fst (m ! i) < k"
    "\<And>i. it \<le> i \<Longrightarrow> i < length m \<Longrightarrow> k \<le> fst (m ! i)"
    using assms(2) by (auto simp: lower_bound_def key_value_less_def not_less)
qed

lemma map_put_between:
  "\<forall>p \<in> set a. fst p < k \<Longrightarrow> b = [] \<or> k < fst (hd b) \<Longrightarrow> map_put k v (a @ b) = a @ (k, v) # b"
  by (induction a; cases b) (auto simp: less_imp_not_eq2)

lemma map_put_over:
  "\<forall>p \<in> set a. fst p < k \<Longrightarrow> map_put k v (a @ (k, w) # b) = a @ (k, v) # b"
  by (induction a) (auto simp: less_imp_not_eq2)

text \<open>
  The three ways the key can lie in a sorted vector: its slot is \<open>i\<close>, or it is absent and
  \<open>i\<close> is where it belongs.
\<close>

lemma sorted_vector_split:
  assumes "map_ok m" and "upper_bound key_value_less m (k, v) = it"
  shows "if it \<noteq> 0 \<and> \<not> key_value_less (m ! (it - 1)) (k, v)
     then \<exists>a w b. m = a @ (k, w) # b \<and> length a = it - 1 \<and> (\<forall>p \<in> set a. fst p < k) \<and> (\<forall>p \<in> set b. k < fst p)
     else \<exists>a b. m = a @ b \<and> length a = it \<and> (\<forall>p \<in> set a. fst p < k) \<and> (\<forall>p \<in> set b. k < fst p)"
proof -
  note ub = upper_bound_key [OF assms]
  have after: "\<forall>p \<in> set (drop it m). k < fst p"
  proof
    fix p
    assume "p \<in> set (drop it m)"
    then obtain i where "i < length m - it" "p = m ! (it + i)" by (auto simp: in_set_conv_nth)
    then show "k < fst p" using ub(3) [of "it + i"] by simp
  qed
  show ?thesis
  proof (cases "it \<noteq> 0 \<and> \<not> key_value_less (m ! (it - 1)) (k, v)")
    case True
    then have key: "fst (m ! (it - 1)) = k" using ub(2) [of "it - 1"] by (simp add: key_value_less_def)
    have lt: "it - 1 < length m" using True ub(1) by linarith
    have "m = take (it - 1) m @ m ! (it - 1) # drop (Suc (it - 1)) m" by (rule id_take_nth_drop [OF lt])
    then have "m = take (it - 1) m @ (k, snd (m ! (it - 1))) # drop it m"
      using key True by (metis Suc_pred' not_gr_zero prod.collapse)
    moreover have "\<forall>p \<in> set (take (it - 1) m). fst p < k"
      using map_ok_nth [OF assms(1) _ lt] key by (fastforce simp: in_set_conv_nth)
    ultimately show ?thesis using True after lt by (auto intro!: exI simp: min_def)
  next
    case False
    have "fst (m ! i) < k" if "i < it" for i
    proof (cases "i = it - 1")
      case True
      with False that show ?thesis by (auto simp: key_value_less_def)
    next
      case i: False
      have "fst (m ! i) < fst (m ! (it - 1))" by (rule map_ok_nth [OF assms(1)]) (use that i ub(1) in auto)
      also have "\<dots> \<le> k" by (rule ub(2)) (use that in simp)
      finally show ?thesis .
    qed
    then have "\<forall>p \<in> set (take it m). fst p < k" by (fastforce simp: in_set_conv_nth)
    with after ub(1) have "m = take it m @ drop it m \<and> length (take it m) = it \<and>
        (\<forall>p \<in> set (take it m). fst p < k) \<and> (\<forall>p \<in> set (drop it m). k < fst p)" by simp
    with False show ?thesis by meson
  qed
qed

lemma binary_insert_put:
  assumes "map_ok m"
  shows "fst (iris_binary_insert key_value_less m (k, v)) = map_put k v m"
proof -
  define it where "it = upper_bound key_value_less m (k, v)"
  note sp = sorted_vector_split [OF assms it_def [symmetric]]
  show ?thesis
  proof (cases "it \<noteq> 0 \<and> \<not> key_value_less (m ! (it - 1)) (k, v)")
    case True
    with sp obtain a w b where m: "m = a @ (k, w) # b" "length a = it - 1" "\<forall>p \<in> set a. fst p < k" by auto
    have "fst (iris_binary_insert key_value_less m (k, v)) = m[it - 1 := (k, v)]"
      using True by (simp add: iris_binary_insert_def Let_def it_def [symmetric])
    also have "\<dots> = a @ (k, v) # b" using m(2) by (simp add: m(1) list_update_append)
    finally show ?thesis using map_put_over [OF m(3)] m(1) by metis
  next
    case False
    with sp obtain a b where m: "m = a @ b" "length a = it" "\<forall>p \<in> set a. fst p < k" "\<forall>p \<in> set b. k < fst p"
      by auto
    have "fst (iris_binary_insert key_value_less m (k, v)) = take it m @ (k, v) # drop it m"
      using False by (auto simp: iris_binary_insert_def Let_def it_def [symmetric])
    then show ?thesis using map_put_between [OF m(3), of b v] m by (cases b) auto
  qed
qed

lemma binary_erase_erase:
  assumes "map_ok m"
  shows "iris_binary_erase key_value_less m (k, v) = (map_erase k m, map_of m k \<noteq> None)"
proof -
  define it where "it = upper_bound key_value_less m (k, v)"
  note sp = sorted_vector_split [OF assms it_def [symmetric]]
  have keep: "filter (\<lambda>p. fst p \<noteq> k) xs = xs" "map_of xs k = None"
    if "(\<forall>p \<in> set xs. fst p < k) \<or> (\<forall>p \<in> set xs. k < fst p)" for xs :: "('a \<times> 'b) list"
    using that by (auto simp: filter_id_conv map_of_eq_None_iff)
  show ?thesis
  proof (cases "it \<noteq> 0 \<and> \<not> key_value_less (m ! (it - 1)) (k, v)")
    case True
    with sp obtain a w b where m: "m = a @ (k, w) # b" "length a = it - 1"
      "\<forall>p \<in> set a. fst p < k" "\<forall>p \<in> set b. k < fst p" by auto
    have "iris_binary_erase key_value_less m (k, v) = (take (it - 1) m @ drop it m, True)"
      using True by (simp add: iris_binary_erase_def Let_def it_def [symmetric])
    moreover have "take (it - 1) m @ drop it m = a @ b"
    proof -
      have "it = Suc (length a)" using True m(2) by simp
      then show ?thesis by (simp add: m(1))
    qed
    moreover have "map_erase k m = a @ b" using keep(1) [of a] keep(1) [of b] m by (simp add: map_erase_def)
    moreover have "map_of m k \<noteq> None" by (simp add: m(1) map_of_eq_None_iff)
    ultimately show ?thesis by simp
  next
    case False
    with sp obtain a b where m: "m = a @ b" "\<forall>p \<in> set a. fst p < k" "\<forall>p \<in> set b. k < fst p" by metis
    have "iris_binary_erase key_value_less m (k, v) = (m, False)"
      using False by (auto simp: iris_binary_erase_def Let_def it_def [symmetric])
    then show ?thesis using keep [of a] keep [of b] m by (auto simp: map_erase_def map_add_def)
  qed
qed

lemma binary_find_slot:
  assumes "map_ok m"
  shows "map_of m k = (let i = iris_binary_find key_value_less m (k, v) in
     if i < length m then Some (snd (m ! i)) else None)"
proof -
  define it where "it = lower_bound key_value_less m (k, v)"
  note lb = lower_bound_key [OF assms it_def [symmetric]]
  show ?thesis
  proof (cases "it < length m \<and> fst (m ! it) = k")
    case True
    then have "fst (last m) \<ge> k"
      using map_ok_nth_le [OF assms, of it "length m - 1"] by (cases m) (auto simp: last_conv_nth)
    with True have "iris_binary_find key_value_less m (k, v) = it"
      by (auto simp: iris_binary_find_def Let_def it_def [symmetric] key_value_less_def)
    moreover have "map_of m k = Some (snd (m ! it))"
      unfolding map_of_eq_memI [OF assms] using True by (metis nth_mem prod.collapse)
    ultimately show ?thesis using True by simp
  next
    case False
    have "iris_binary_find key_value_less m (k, v) = length m"
      using False lb(1) lb(3) [of it]
      by (auto simp: iris_binary_find_def Let_def it_def [symmetric] key_value_less_def)
    moreover have "fst (m ! i) \<noteq> k" if "i < length m" for i
    proof (cases i it rule: linorder_cases)
      case less
      then show ?thesis using lb(2) by auto
    next
      case equal
      then show ?thesis using False that by auto
    next
      case greater
      then have "fst (m ! it) < fst (m ! i)" "k \<le> fst (m ! it)"
        using map_ok_nth [OF assms] lb(3) that by auto
      then show ?thesis by auto
    qed
    then have "map_of m k = None" by (metis fst_conv in_set_conv_nth map_of_SomeD not_None_eq)
    ultimately show ?thesis by simp
  qed
qed

text \<open>The slot found holds the key; without one the search returns the end.\<close>

lemma binary_find_key:
  assumes "map_ok m" and "iris_binary_find key_value_less m (k, v) = i"
  shows "i < length m \<and> fst (m ! i) = k \<or> i = length m \<and> k \<notin> fst ` set m"
proof -
  have "i \<le> length m \<and> (i < length m \<longrightarrow> fst (m ! i) = k)"
    using assms(2) lower_bound_key [OF assms(1) refl [of "lower_bound key_value_less m (k, v)"]]
    by (fastforce simp: iris_binary_find_def Let_def key_value_less_def split: if_splits)
  moreover have "k \<notin> fst ` set m" if "\<not> i < length m"
    using binary_find_slot [OF assms(1), of k v] assms(2) that by (simp add: map_of_eq_None_iff)
  ultimately show ?thesis by auto
qed

section \<open>Disjoint sets\<close>

text \<open>
  \<open>vec\<close> holds the parent of each index. The loops of \<open>iris_union_set_find\<close> need not
  end on a vector with a cycle, and an index outside the vector is undefined: both are
  \<^const>\<open>None\<close>.
\<close>

fun iris_union_set_init :: "nat list \<Rightarrow> nat list \<Rightarrow> nat list" where
  "iris_union_set_init vec [] = vec"
| "iris_union_set_init vec (from # rest) = iris_union_set_init (vec[from := from]) rest"

partial_function (option) union_root :: "nat list \<Rightarrow> nat \<Rightarrow> nat option" where
  "union_root vec next =
     (if next \<ge> length vec then None
      else if next \<noteq> vec ! next then union_root vec (vec ! next) else Some next)"

partial_function (option) union_compress :: "nat list \<Rightarrow> nat \<Rightarrow> nat \<Rightarrow> nat list option" where
  "union_compress vec next pos =
     (if pos \<noteq> next then
        if pos \<ge> length vec then None
        else let i = vec ! pos in union_compress (vec[pos := next]) next i
      else Some vec)"

definition iris_union_set_find :: "nat list \<Rightarrow> nat \<Rightarrow> (nat list \<times> nat) option" where
  "iris_union_set_find vec pos =
     (case union_root vec pos of
        None \<Rightarrow> None
      | Some next \<Rightarrow>
          (case union_compress vec next pos of None \<Rightarrow> None | Some vec' \<Rightarrow> Some (vec', next)))"

definition iris_union_set_join :: "nat list \<Rightarrow> nat \<Rightarrow> nat \<Rightarrow> nat list option" where
  "iris_union_set_join vec from to =
     (case iris_union_set_find vec from of
        None \<Rightarrow> None
      | Some (vec1, f) \<Rightarrow>
          (case iris_union_set_find vec1 to of
             None \<Rightarrow> None
           | Some (vec2, t) \<Rightarrow> Some (vec2[t := f])))"

text \<open>A forest: parents stay inside and some rank falls towards the root.\<close>

definition union_ranked :: "nat list \<Rightarrow> (nat \<Rightarrow> nat) \<Rightarrow> bool" where
  "union_ranked vec rank \<longleftrightarrow>
     (\<forall>i < length vec. vec ! i < length vec \<and> (vec ! i \<noteq> i \<longrightarrow> rank (vec ! i) < rank i))"

definition union_ok :: "nat list \<Rightarrow> bool" where
  "union_ok vec \<longleftrightarrow> (\<exists>rank. union_ranked vec rank)"

lemma union_rankedD:
  "union_ranked vec rank \<Longrightarrow> i < length vec \<Longrightarrow> vec ! i < length vec"
  "union_ranked vec rank \<Longrightarrow> i < length vec \<Longrightarrow> vec ! i \<noteq> i \<Longrightarrow> rank (vec ! i) < rank i"
  by (auto simp: union_ranked_def)

lemma union_root_step:
  "i < length vec \<Longrightarrow> vec ! i \<noteq> i \<Longrightarrow> union_root vec i = union_root vec (vec ! i)"
  "i < length vec \<Longrightarrow> vec ! i = i \<Longrightarrow> union_root vec i = Some i"
  by (simp_all add: union_root.simps [of vec i])

lemma union_root_total:
  assumes "union_ranked vec rank" and "i < length vec"
  shows "\<exists>r < length vec. union_root vec i = Some r \<and> vec ! r = r \<and> rank r \<le> rank i \<and> (r \<noteq> i \<longrightarrow> rank r < rank i)"
  using assms(2)
proof (induction "rank i" arbitrary: i rule: less_induct)
  case less
  show ?case
  proof (cases "vec ! i = i")
    case True
    with less show ?thesis by (auto simp: union_root_step)
  next
    case False
    note u = union_rankedD [OF assms(1) less.prems]
    from less.hyps [OF u(2) [OF False] u(1)] obtain r where
      "r < length vec" "union_root vec (vec ! i) = Some r" "vec ! r = r" "rank r \<le> rank (vec ! i)" by blast
    with u(2) [OF False] False less.prems show ?thesis by (auto simp: union_root_step)
  qed
qed

text \<open>Redirecting a node to its root changes no root.\<close>

lemma union_redirect:
  assumes ok: "union_ranked vec rank" and i: "i < length vec" and r: "union_root vec i = Some r"
  shows "union_ranked (vec[i := r]) rank \<and>
    (\<forall>j < length vec. union_root (vec[i := r]) j = union_root vec j)"
proof
  from union_root_total [OF ok i] r have r': "r < length vec" "vec ! r = r" "r \<noteq> i \<longrightarrow> rank r < rank i" by auto
  show ok': "union_ranked (vec[i := r]) rank"
    using ok i r' by (auto simp: union_ranked_def nth_list_update)
  show "\<forall>j < length vec. union_root (vec[i := r]) j = union_root vec j"
  proof (intro allI impI)
    fix j
    assume "j < length vec"
    then show "union_root (vec[i := r]) j = union_root vec j"
    proof (induction "rank j" arbitrary: j rule: less_induct)
      case less
      show ?case
      proof (cases "j = i")
        case True
        show ?thesis
        proof (cases "r = i")
          case True
          with r'(2) have "vec[i := r] = vec" using i by (simp add: list_update_same_conv)
          then show ?thesis by simp
        next
          case False
          then have "union_root (vec[i := r]) i = union_root (vec[i := r]) r"
            using i by (subst union_root_step(1)) auto
          also have "\<dots> = Some r" using False r' by (subst union_root_step(2)) auto
          finally show ?thesis using True r by simp
        qed
      next
        case False
        then have same: "vec[i := r] ! j = vec ! j" by simp
        show ?thesis
        proof (cases "vec ! j = j")
          case True
          with same less.prems show ?thesis by (simp add: union_root_step(2))
        next
          case F: False
          note u = union_rankedD [OF ok less.prems]
          from less.hyps [OF u(2) [OF F] u(1)] show ?thesis
            using same F less.prems by (simp add: union_root_step(1))
        qed
      qed
    qed
  qed
qed

lemma union_compress_total:
  assumes "union_ranked vec rank" and "pos < length vec" and "union_root vec pos = Some r"
  shows "\<exists>vec'. union_compress vec r pos = Some vec' \<and> union_ranked vec' rank \<and>
    length vec' = length vec \<and> (\<forall>j < length vec. union_root vec' j = union_root vec j)"
  using assms
proof (induction "rank pos" arbitrary: pos vec rule: less_induct)
  case less
  show ?case
  proof (cases "pos = r")
    case True
    with less.prems show ?thesis by (simp add: union_compress.simps)
  next
    case False
    then have np: "vec ! pos \<noteq> pos" using less.prems union_root_step(2) by fastforce
    let ?vec = "vec[pos := r]" and ?i = "vec ! pos"
    from union_redirect [OF less.prems] have red: "union_ranked ?vec rank"
      "\<forall>j < length vec. union_root ?vec j = union_root vec j" by auto
    note u = union_rankedD [OF less.prems(1,2)]
    have "union_root ?vec ?i = Some r"
      using red(2) u(1) less.prems(2,3) np by (simp add: union_root_step(1))
    with less.hyps [OF u(2) [OF np] red(1)] u(1) obtain vec' where
      "union_compress ?vec r ?i = Some vec'" "union_ranked vec' rank" "length vec' = length vec"
      "\<forall>j < length vec. union_root vec' j = union_root ?vec j" by auto
    with False less.prems(2) red(2) show ?thesis
      by (simp add: union_compress.simps [of vec r pos] Let_def)
  qed
qed

lemma union_find_total:
  assumes "union_ranked vec rank" and "pos < length vec"
  obtains vec' r where "iris_union_set_find vec pos = Some (vec', r)" "union_root vec pos = Some r"
    "r < length vec" "union_ranked vec' rank" "length vec' = length vec" "vec' ! r = r"
    "\<forall>j < length vec. union_root vec' j = union_root vec j"
proof -
  from union_root_total [OF assms] obtain r where r: "union_root vec pos = Some r" "r < length vec" "vec ! r = r" by blast
  from union_compress_total [OF assms r(1)] obtain vec' where v: "union_compress vec r pos = Some vec'"
    "union_ranked vec' rank" "length vec' = length vec" "\<forall>j < length vec. union_root vec' j = union_root vec j" by blast
  have "union_root vec' r = Some r" using v(4) r by (simp add: union_root_step(2))
  with union_root_total [OF v(2), of r] r(2) v(3) have "vec' ! r = r" by auto
  with that r v show ?thesis by (simp add: iris_union_set_find_def)
qed

lemma union_link:
  assumes ok: "union_ranked vec rank" and t: "t < length vec" "vec ! t = t" and f: "f < length vec" "vec ! f = f"
  shows "union_ok (vec[t := f]) \<and>
    (\<forall>j < length vec. union_root (vec[t := f]) j = (if union_root vec j = Some t then Some f else union_root vec j))"
proof (cases "t = f")
  case True
  then have "vec[t := f] = vec" using t by (simp add: list_update_same_conv)
  then show ?thesis using ok True by (auto simp: union_ok_def)
next
  case False
  define rank' where "rank' j = (if union_root vec j = Some t then rank j + Suc (rank f) else rank j)" for j
  have up: "union_root vec (vec ! j) = union_root vec j" if "j < length vec" for j
    using that by (cases "vec ! j = j") (simp_all add: union_root_step)
  have root_f: "union_root vec f = Some f" by (rule union_root_step(2)) (use f in auto)
  have root_t: "union_root vec t = Some t" by (rule union_root_step(2)) (use t in auto)
  have ranked: "union_ranked (vec[t := f]) rank'"
    unfolding union_ranked_def
  proof (intro allI impI)
    fix i
    assume i: "i < length (vec[t := f])"
    show "vec[t := f] ! i < length (vec[t := f]) \<and> (vec[t := f] ! i \<noteq> i \<longrightarrow> rank' (vec[t := f] ! i) < rank' i)"
    proof (cases "i = t")
      case True
      then show ?thesis using t f root_f root_t \<open>t \<noteq> f\<close> by (simp add: rank'_def)
    next
      case False
      then show ?thesis using i union_rankedD [OF ok, of i] up [of i] by (auto simp: rank'_def)
    qed
  qed
  have "union_root (vec[t := f]) j = (if union_root vec j = Some t then Some f else union_root vec j)"
    if "j < length vec" for j
    using that
  proof (induction "rank j" arbitrary: j rule: less_induct)
    case less
    consider "j = t" | "j \<noteq> t" "vec ! j = j" | "j \<noteq> t" "vec ! j \<noteq> j" by blast
    then show ?case
    proof cases
      case 1
      have "union_root (vec[t := f]) t = union_root (vec[t := f]) f"
        using t False by (subst union_root_step(1)) auto
      also have "\<dots> = Some f" using f False by (subst union_root_step(2)) auto
      finally show ?thesis using 1 root_t by simp
    next
      case 2
      with less.prems show ?thesis by (simp add: union_root_step(2))
    next
      case 3
      note u = union_rankedD [OF ok less.prems]
      from less.hyps [OF u(2) [OF 3(2)] u(1)] 3 less.prems show ?thesis by (simp add: union_root_step(1))
    qed
  qed
  with ranked show ?thesis by (auto simp: union_ok_def)
qed

lemma union_init_nth:
  "(\<forall>j \<in> set is. j < length vec) \<Longrightarrow>
   length (iris_union_set_init vec is) = length vec \<and>
   (\<forall>j < length vec. iris_union_set_init vec is ! j = (if j \<in> set is then j else vec ! j))"
  by (induction vec "is" rule: iris_union_set_init.induct) (auto simp: nth_list_update)

section \<open>Properties\<close>

text \<open>
  C31. The sorted vector is a dictionary: on a vector sorted by key,
  \<open>iris_binary_insert\<close> and \<open>iris_binary_erase\<close> are the insertion and the erasure of an
  ordered map, the erasure reports whether the key was there, and
  \<open>iris_binary_find\<close> returns the slot of the key, or the end iterator exactly when the
  key is absent.
\<close>

theorem binary_vector_is_map:
  assumes "map_ok m"
  shows "fst (iris_binary_insert key_value_less m (k, v)) = map_put k v m \<and>
    iris_binary_erase key_value_less m (k, w) = (map_erase k m, map_of m k \<noteq> None) \<and>
    map_of m k = (let i = iris_binary_find key_value_less m (k, w) in
      if i < length m then Some (snd (m ! i)) else None)"
  using binary_insert_put [OF assms] binary_erase_erase [OF assms] binary_find_slot [OF assms] by blast

theorem binary_vector_is_map_witness:
  "map_of [(2, ''b''), (5, ''e'')] (5 :: nat) =
     (let i = iris_binary_find key_value_less [(2 :: nat, ''b''), (5, ''e'')] (5, []) in
      if i < 2 then Some (snd ([(2 :: nat, ''b''), (5, ''e'')] ! i)) else None)"
proof -
  have "map_ok [(2 :: nat, ''b''), (5, ''e'')]" by (simp add: map_ok_def map_keys_def)
  from binary_vector_is_map [OF this, of 5 "[]" "[]"] show ?thesis by (simp add: numeral_2_eq_2)
qed

text \<open>
  The disjoint-set forest: on a forest both searches of \<open>iris_union_set_join\<close>
  end, the result is a forest again, and two elements have the same root afterwards exactly
  when they had it before or lie in the two classes that are joined. Path compression is
  part of the operation and changes no class.
\<close>

theorem union_set_join_merges:
  assumes "union_ok vec" and "from < length vec" and "to < length vec"
  shows "\<exists>vec'. iris_union_set_join vec from to = Some vec' \<and> union_ok vec' \<and> length vec' = length vec \<and>
    (\<forall>x < length vec. \<forall>y < length vec.
       union_root vec' x = union_root vec' y \<longleftrightarrow>
       union_root vec x = union_root vec y \<or>
       {union_root vec x, union_root vec y} = {union_root vec from, union_root vec to})"
proof -
  from assms(1) obtain rank where ok: "union_ranked vec rank" by (auto simp: union_ok_def)
  from union_find_total [OF ok assms(2)] obtain vec1 f where f: "iris_union_set_find vec from = Some (vec1, f)"
    "union_root vec from = Some f" "f < length vec" "union_ranked vec1 rank" "length vec1 = length vec"
    "\<forall>j < length vec. union_root vec1 j = union_root vec j" .
  have to: "to < length vec1" using assms(3) f(5) by simp
  from union_find_total [OF f(4) to] obtain vec2 t where t: "iris_union_set_find vec1 to = Some (vec2, t)"
    "union_root vec1 to = Some t" "t < length vec1" "union_ranked vec2 rank" "length vec2 = length vec1" "vec2 ! t = t"
    "\<forall>j < length vec1. union_root vec2 j = union_root vec1 j" .
  have root2: "union_root vec2 j = union_root vec j" if "j < length vec" for j using that f t by simp
  have root_f: "union_root vec f = Some f"
    using union_root_total [OF ok assms(2)] f(2) by (auto simp: union_root_step(2))
  have "vec2 ! f = f"
    using union_root_total [OF t(4), of f] f(3,5) t(5) root2 [of f] root_f by auto
  from union_link [OF t(4) _ t(6) _ this] have link: "union_ok (vec2[t := f])"
    "\<forall>j < length vec. union_root (vec2[t := f]) j = (if union_root vec j = Some t then Some f else union_root vec j)"
    using t(3,5) f(3,5) root2 by auto
  have "iris_union_set_join vec from to = Some (vec2[t := f])"
    using f(1) t(1) by (simp add: iris_union_set_join_def)
  moreover have "union_root vec to = Some t" using t(2) f(6) assms(3) by simp
  ultimately show ?thesis
    using link f(2,5) t(5) by (intro exI [of _ "vec2[t := f]"]) (auto simp: doubleton_eq_iff)
qed

theorem union_set_join_merges_witness:
  "\<exists>vec'. iris_union_set_join [0, 0, 2] 1 2 = Some vec' \<and> union_root vec' 0 = union_root vec' 2"
proof -
  have ok: "union_ok [0, 0, 2]"
    unfolding union_ok_def by (rule exI [of _ id]) (auto simp: union_ranked_def less_Suc_eq)
  have "union_root [0, 0, 2] 0 = union_root [0, 0, 2] 1" by (simp add: union_root.simps [of _ "Suc 0"])
  with union_set_join_merges [OF ok, of 1 2] show ?thesis by fastforce
qed

text \<open>
  Alignment arithmetic at any word width: \<open>iris_get_alignment\<close> isolates the lowest
  set bit, which \<open>iris_get_trailing_zeros\<close> finds, also in the version that scans the two
  halves of a 64 bit word; and \<open>iris_to_alignment\<close> rounds up to the next multiple of a
  power of two where the sum does not wrap.
\<close>

theorem alignment_arithmetic:
  fixes v :: "'a :: len word"
  assumes "v \<noteq> 0" and "w \<noteq> 0" and "k < LENGTH('a)" and "unat a + (2 ^ k - 1) < 2 ^ LENGTH('a)"
  shows "iris_get_alignment v = push_bit (iris_get_trailing_zeros v) 1 \<and>
    iris_get_trailing_zeros_halves w = iris_get_trailing_zeros w \<and>
    unat (iris_to_alignment (a :: 'a word) (push_bit k 1)) = (unat a + 2 ^ k - 1) div 2 ^ k * 2 ^ k"
  using assms get_alignment_spec trailing_zeros_halves to_alignment_value by blast

theorem alignment_arithmetic_witness:
  "iris_get_alignment (12 :: size_t) = push_bit (iris_get_trailing_zeros (12 :: size_t)) 1 \<and>
   unat (iris_to_alignment (13 :: size_t) (push_bit 3 1)) = 16"
  using alignment_arithmetic [of "12 :: size_t" 12 3 13] by simp

end
