(* ===== verification/Ring_Queue.thy ===== *)
theory Ring_Queue
  imports Algorithms "HOL-Library.Monad_Syntax"
begin

text \<open>
  The ring buffer \<open>iris_queue_t\<close> of \<open>iris_common.h\<close>, the building block of every task
  queue and of the stack and stream containers: two free-running counters at machine width, a
  ring of slots, and the shadow counters of the single-producer single-consumer mode.

  A slot holds \<^const>\<open>None\<close> while no object lives in it. Reading or destroying such a slot, and any
  access outside the ring (also through the null ring of a moved-from queue, here the
  empty list) is undefined in C++; the operations return \<^const>\<open>None\<close> there. Assertions are compiled
  out, as in the release build. The debugging fences \<open>in_fence\<close> and \<open>out_fence\<close> and the
  memory fences have no counterpart: each operation is one atomic step.
\<close>

section \<open>Parameters and state\<close>

text \<open>The template parameters that the operations depend on.\<close>

record queue_params_t =
  element_count :: nat
  spsc_optimized :: bool

record 'a iris_queue_t =
  push_count :: size_t
  pop_count :: size_t
  push_cached_pop :: size_t
  pop_cached_push :: size_t
  ring_buffer :: "'a option list"

definition element_count_pow_two :: "queue_params_t \<Rightarrow> bool" where
  "element_count_pow_two c \<longleftrightarrow> 2 ^ iris_log2 (element_count c) = element_count c"

definition counter_limit :: "queue_params_t \<Rightarrow> size_t" where
  "counter_limit c = of_nat (element_count c) * 2 ^ (63 - iris_log2 (element_count c))"

text \<open>
  \<open>ptrdiff_t\<close> values are bit patterns: the addition to a \<open>size_t\<close> and the comparison with
  \<open>counter_limit\<close> convert them to \<open>size_t\<close>.
\<close>

definition step_counter :: "queue_params_t \<Rightarrow> size_t \<Rightarrow> size_t \<Rightarrow> size_t" where
  "step_counter c count delta =
     (let result = count + delta in
      if \<not> element_count_pow_two c then
        if result \<ge> counter_limit c then result - counter_limit c else result
      else result)"

definition diff_counter :: "queue_params_t \<Rightarrow> size_t \<Rightarrow> size_t \<Rightarrow> size_t" where
  "diff_counter c lhs rhs =
     (if element_count_pow_two c then lhs - rhs
      else let diff = lhs + counter_limit c - rhs in
        if diff \<ge> counter_limit c then diff - counter_limit c else diff)"

definition ring_index :: "queue_params_t \<Rightarrow> size_t \<Rightarrow> nat" where
  "ring_index c count = unat count mod element_count c"

definition queue_make :: "queue_params_t \<Rightarrow> size_t \<Rightarrow> 'a iris_queue_t" where
  "queue_make c init_count =
     \<lparr>push_count = init_count, pop_count = init_count,
      push_cached_pop = init_count, pop_cached_push = init_count,
      ring_buffer = replicate (element_count c) None\<rparr>"

section \<open>Slots\<close>

definition slot_read :: "'a iris_queue_t \<Rightarrow> nat \<Rightarrow> 'a option" where
  "slot_read q i = (if i < length (ring_buffer q) then ring_buffer q ! i else None)"

text \<open>Placement new, assignment to a live object, and the destructor call.\<close>

definition slot_new :: "'a iris_queue_t \<Rightarrow> nat \<Rightarrow> 'a \<Rightarrow> 'a iris_queue_t option" where
  "slot_new q i t =
     (if i < length (ring_buffer q) then Some (q\<lparr>ring_buffer := (ring_buffer q)[i := Some t]\<rparr>) else None)"

definition slot_assign :: "'a iris_queue_t \<Rightarrow> nat \<Rightarrow> 'a \<Rightarrow> 'a iris_queue_t option" where
  "slot_assign q i t = (if slot_read q i = None then None else slot_new q i t)"

definition slot_destroy :: "'a iris_queue_t \<Rightarrow> nat \<Rightarrow> 'a iris_queue_t option" where
  "slot_destroy q i =
     (if slot_read q i = None then None else Some (q\<lparr>ring_buffer := (ring_buffer q)[i := None]\<rparr>))"

section \<open>Shadows and observers\<close>

definition set_push_shadow :: "queue_params_t \<Rightarrow> size_t \<Rightarrow> 'a iris_queue_t \<Rightarrow> 'a iris_queue_t" where
  "set_push_shadow c v q = (if spsc_optimized c then q\<lparr>push_cached_pop := v\<rparr> else q)"

definition set_pop_shadow :: "queue_params_t \<Rightarrow> size_t \<Rightarrow> 'a iris_queue_t \<Rightarrow> 'a iris_queue_t" where
  "set_pop_shadow c v q = (if spsc_optimized c then q\<lparr>pop_cached_push := v\<rparr> else q)"

definition shadow_init :: "queue_params_t \<Rightarrow> size_t \<Rightarrow> 'a iris_queue_t \<Rightarrow> 'a iris_queue_t" where
  "shadow_init c v q = set_pop_shadow c v (set_push_shadow c v q)"

definition queue_full :: "queue_params_t \<Rightarrow> 'a iris_queue_t \<Rightarrow> bool" where
  "queue_full c q \<longleftrightarrow> step_counter c (pop_count q) (of_nat (element_count c)) = push_count q"

definition maybe_full :: "queue_params_t \<Rightarrow> 'a iris_queue_t \<Rightarrow> bool" where
  "maybe_full c q \<longleftrightarrow>
     \<not> spsc_optimized c \<or> sint (diff_counter c (push_count q) (push_cached_pop q)) \<ge> int (element_count c)"

definition maybe_empty :: "queue_params_t \<Rightarrow> 'a iris_queue_t \<Rightarrow> bool" where
  "maybe_empty c q \<longleftrightarrow>
     \<not> spsc_optimized c \<or> sint (diff_counter c (pop_cached_push q) (pop_count q)) \<le> 0"

definition refresh_pop_cached :: "queue_params_t \<Rightarrow> 'a iris_queue_t \<Rightarrow> 'a iris_queue_t" where
  "refresh_pop_cached c q = set_push_shadow c (pop_count q) q"

definition refresh_push_cached :: "queue_params_t \<Rightarrow> 'a iris_queue_t \<Rightarrow> 'a iris_queue_t" where
  "refresh_push_cached c q = set_pop_shadow c (push_count q) q"

text \<open>\<open>empty()\<close> refreshes a mutable shadow, so it returns the queue too.\<close>

definition queue_empty :: "queue_params_t \<Rightarrow> 'a iris_queue_t \<Rightarrow> bool \<times> 'a iris_queue_t" where
  "queue_empty c q =
     (if maybe_empty c q then
        let q1 = refresh_push_cached c q in (pop_count q1 = push_count q1, q1)
      else (False, q))"

definition queue_size :: "queue_params_t \<Rightarrow> 'a iris_queue_t \<Rightarrow> nat" where
  "queue_size c q = unat (diff_counter c (push_count q) (pop_count q))"

definition queue_offset :: "'a iris_queue_t \<Rightarrow> size_t" where
  "queue_offset q = pop_count q"

section \<open>Single elements\<close>

text \<open>\<open>push\<close> returns the slot of the new element, or the null pointer when the ring is full.\<close>

definition queue_push :: "queue_params_t \<Rightarrow> 'a \<Rightarrow> 'a iris_queue_t \<Rightarrow> (nat option \<times> 'a iris_queue_t) option" where
  "queue_push c t q =
     (let q1 = (if maybe_full c q then refresh_pop_cached c q else q) in
      if maybe_full c q \<and> queue_full c q1 then Some (None, q1)
      else do {
        let i = ring_index c (push_count q1);
        q2 \<leftarrow> slot_new q1 i t;
        Some (Some i, q2\<lparr>push_count := step_counter c (push_count q2) 1\<rparr>)
      })"

definition queue_top :: "queue_params_t \<Rightarrow> 'a iris_queue_t \<Rightarrow> 'a option" where
  "queue_top c q = slot_read q (ring_index c (pop_count q))"

definition queue_get :: "queue_params_t \<Rightarrow> size_t \<Rightarrow> 'a iris_queue_t \<Rightarrow> 'a option" where
  "queue_get c index q = slot_read q (ring_index c index)"

definition queue_pop :: "queue_params_t \<Rightarrow> 'a iris_queue_t \<Rightarrow> 'a iris_queue_t option" where
  "queue_pop c q = do {
     q1 \<leftarrow> slot_destroy q (ring_index c (pop_count q));
     Some (q1\<lparr>pop_count := step_counter c (pop_count q1) 1\<rparr>)
   }"

section \<open>Bulk transfer\<close>

text \<open>
  The inner loops: an input iterator is the list of the elements it has still to deliver,
  and the loop stops at its end or at the slot \<open>bound\<close>.
\<close>

fun fill_range :: "'a list \<Rightarrow> nat \<Rightarrow> nat \<Rightarrow> 'a iris_queue_t \<Rightarrow> ('a list \<times> 'a iris_queue_t) option" where
  "fill_range [] windex bound q = Some ([], q)"
| "fill_range (x # from) windex bound q =
     (if windex < bound then do {
        q1 \<leftarrow> slot_new q windex x;
        fill_range from (windex + 1) bound q1
      } else Some (x # from, q))"

definition queue_push_range :: "queue_params_t \<Rightarrow> 'a list \<Rightarrow> 'a iris_queue_t \<Rightarrow> ('a list \<times> 'a iris_queue_t) option" where
  "queue_push_range c from q =
     (if queue_full c q then Some (from, q)
      else do {
        let windex = ring_index c (push_count q);
        let rindex = ring_index c (pop_count q);
        (from1, q1) \<leftarrow> (if rindex \<le> windex then fill_range from windex (element_count c) q else Some (from, q));
        (from2, q2) \<leftarrow> fill_range from1 (if rindex \<le> windex then 0 else windex) rindex q1;
        Some (from2, q2\<lparr>push_count := step_counter c (push_count q2) (of_nat (length from - length from2))\<rparr>)
      })"

text \<open>
  A run of non-temporal stores: bytes up to the next 16 byte boundary of the destination,
  whole 16 byte vectors, and the rest, as the offsets and lengths of the copies.
\<close>

definition stream_runs :: "nat \<Rightarrow> nat \<Rightarrow> (nat \<times> nat) list" where
  "stream_runs dst bytes =
     (let head = min ((16 - dst mod 16) mod 16) bytes;
          vecn = (bytes - head) div 16 * 16
      in (if head \<noteq> 0 then [(0, head)] else []) @
         map (\<lambda>k. (head + k * 16, 16)) [0..<vecn div 16] @
         (if head + vecn < bytes then [(head + vecn, bytes - (head + vecn))] else []))"

text \<open>
  \<open>stream_fill\<close>: one segment of \<open>push_stream\<close>. A run of at least 512 bytes of trivially
  copyable elements (\<open>trivial\<close>, of \<open>esize\<close> bytes) is streamed, which writes the same slots.
\<close>

definition stream_fill :: "queue_params_t \<Rightarrow> bool \<Rightarrow> nat \<Rightarrow> 'a list \<Rightarrow> nat \<Rightarrow> nat \<Rightarrow> bool \<Rightarrow> 'a iris_queue_t \<Rightarrow>
    ('a list \<times> bool \<times> 'a iris_queue_t) option" where
  "stream_fill c trivial esize from wbegin wend streamed q =
     (let n = min (length from) (wend - wbegin) in do {
        (_, q1) \<leftarrow> fill_range (take n from) wbegin (wbegin + n) q;
        Some (drop n from, streamed \<or> spsc_optimized c \<and> trivial \<and> n * esize \<ge> 512, q1)
      })"

definition queue_push_stream :: "queue_params_t \<Rightarrow> bool \<Rightarrow> nat \<Rightarrow> 'a list \<Rightarrow> 'a iris_queue_t \<Rightarrow> ('a list \<times> 'a iris_queue_t) option" where
  "queue_push_stream c trivial esize from q =
     (if queue_full c q then Some (from, q)
      else do {
        let windex = ring_index c (push_count q);
        let rindex = ring_index c (pop_count q);
        (from1, s1, q1) \<leftarrow> (if rindex \<le> windex
           then stream_fill c trivial esize from windex (element_count c) False q
           else Some (from, False, q));
        let windex1 = (if rindex \<le> windex then 0 else windex);
        (from2, s2, q2) \<leftarrow> (if from1 \<noteq> [] \<and> windex1 < rindex
           then stream_fill c trivial esize from1 windex1 rindex s1 q1
           else Some (from1, s1, q1));
        let q3 = set_push_shadow c (pop_count q2) q2;
        Some (from2, q3\<lparr>push_count := step_counter c (push_count q3) (of_nat (length from - length from2))\<rparr>)
      })"

fun assign_range :: "'a list \<Rightarrow> nat \<Rightarrow> nat \<Rightarrow> 'a iris_queue_t \<Rightarrow> ('a list \<times> 'a iris_queue_t) option" where
  "assign_range [] windex bound q = Some ([], q)"
| "assign_range (x # from) windex bound q =
     (if windex < bound then do {
        q1 \<leftarrow> slot_assign q windex x;
        assign_range from (windex + 1) bound q1
      } else Some (x # from, q))"

text \<open>\<open>copy\<close>, and \<open>move\<close>, which differs in how the source elements are left behind.\<close>

definition queue_copy :: "queue_params_t \<Rightarrow> 'a list \<Rightarrow> size_t \<Rightarrow> 'a iris_queue_t \<Rightarrow> ('a list \<times> 'a iris_queue_t) option" where
  "queue_copy c from offset q = do {
     let windex = ring_index c offset;
     let rindex = ring_index c (push_count q);
     (from1, q1) \<leftarrow> (if rindex \<le> windex then assign_range from windex (element_count c) q else Some (from, q));
     assign_range from1 (if rindex \<le> windex then 0 else windex) rindex q1
   }"

text \<open>An output iterator is the list written so far and the number of elements it still takes.\<close>

fun take_range :: "nat \<Rightarrow> nat \<Rightarrow> nat \<Rightarrow> 'a list \<Rightarrow> 'a iris_queue_t \<Rightarrow> (nat \<times> 'a list \<times> 'a iris_queue_t) option" where
  "take_range 0 rindex bound out q = Some (0, out, q)"
| "take_range (Suc room) rindex bound out q =
     (if rindex < bound then do {
        e \<leftarrow> slot_read q rindex;
        q1 \<leftarrow> slot_destroy q rindex;
        take_range room (rindex + 1) bound (out @ [e]) q1
      } else Some (Suc room, out, q))"

definition queue_pop_range :: "queue_params_t \<Rightarrow> nat \<Rightarrow> 'a iris_queue_t \<Rightarrow> ('a list \<times> 'a iris_queue_t) option" where
  "queue_pop_range c room q =
     (let (e, q0) = queue_empty c q in
      if e then Some ([], q0)
      else do {
        let windex = ring_index c (push_count q0);
        let rindex = ring_index c (pop_count q0);
        let q1 = set_pop_shadow c (push_count q0) q0;
        (room1, out1, q2) \<leftarrow> (if windex \<le> rindex
           then take_range room rindex (element_count c) [] q1 else Some (room, [], q1));
        (_, out2, q3) \<leftarrow> take_range room1 (if windex \<le> rindex then 0 else rindex) windex out1 q2;
        Some (out2, q3\<lparr>pop_count := step_counter c (pop_count q3) (of_nat (length out2))\<rparr>)
      })"

text \<open>\<open>pop(n)\<close>: at most \<open>n\<close> elements are destroyed; the result is how many were missing.\<close>

fun destroy_range :: "nat \<Rightarrow> nat \<Rightarrow> nat \<Rightarrow> 'a iris_queue_t \<Rightarrow> (nat \<times> 'a iris_queue_t) option" where
  "destroy_range 0 rindex bound q = Some (0, q)"
| "destroy_range (Suc k) rindex bound q =
     (if rindex < bound then do {
        q1 \<leftarrow> slot_destroy q rindex;
        destroy_range k (rindex + 1) bound q1
      } else Some (Suc k, q))"

definition queue_pop_n :: "queue_params_t \<Rightarrow> nat \<Rightarrow> 'a iris_queue_t \<Rightarrow> (nat \<times> 'a iris_queue_t) option" where
  "queue_pop_n c n q = do {
     let m = min n (queue_size c q);
     (k, q1) \<leftarrow> destroy_range m (ring_index c (pop_count q)) (element_count c) q;
     (_, q2) \<leftarrow> destroy_range k 0 k q1;
     Some (n - m, q2\<lparr>pop_count := step_counter c (pop_count q2) (of_nat m)\<rparr>)
   }"

section \<open>Traversal\<close>

text \<open>
  \<open>for_each\<close> on runs: the operation sees the first slot and the length of each contiguous
  run. The version on single elements calls it on the elements of these runs in order.
\<close>

definition queue_for_each_runs :: "queue_params_t \<Rightarrow> 'a iris_queue_t \<Rightarrow> (nat \<times> nat) list \<times> 'a iris_queue_t" where
  "queue_for_each_runs c q =
     (let (e, q1) = queue_empty c q in
      if e then ([], q1)
      else
        let windex = ring_index c (push_count q1);
            rindex = ring_index c (pop_count q1);
            first = (if rindex \<ge> windex then
                       (if element_count c - rindex \<noteq> 0 then [(rindex, element_count c - rindex)] else [])
                     else []);
            rindex1 = (if rindex \<ge> windex then 0 else rindex);
            second = (if rindex1 < windex then [(rindex1, windex - rindex1)] else [])
        in (first @ second, q1))"

fun read_range :: "nat list \<Rightarrow> 'a iris_queue_t \<Rightarrow> 'a list option" where
  "read_range [] q = Some []"
| "read_range (i # is) q = do { e \<leftarrow> slot_read q i; es \<leftarrow> read_range is q; Some (e # es) }"

definition queue_for_each :: "queue_params_t \<Rightarrow> 'a iris_queue_t \<Rightarrow> ('a list \<times> 'a iris_queue_t) option" where
  "queue_for_each c q =
     (let (e, q1) = queue_empty c q in
      if e then Some ([], q1)
      else
        let windex = ring_index c (push_count q1);
            rindex = ring_index c (pop_count q1)
        in do {
          es1 \<leftarrow> read_range (if rindex \<ge> windex then [rindex..<element_count c] else []) q1;
          es2 \<leftarrow> read_range [(if rindex \<ge> windex then 0 else rindex)..<windex] q1;
          Some (es1 @ es2, q1)
        })"

section \<open>Aligned runs\<close>

definition align_pad :: "nat \<Rightarrow> nat \<Rightarrow> nat" where
  "align_pad index alignment =
     unat ((of_nat alignment - iris_get_alignment (of_nat index :: size_t)) AND (of_nat alignment - 1))"

definition queue_pack_size :: "queue_params_t \<Rightarrow> nat \<Rightarrow> 'a iris_queue_t \<Rightarrow> nat" where
  "queue_pack_size c alignment q =
     (let index = push_count q + of_nat (align_pad (ring_index c (push_count q)) alignment) in
      min (unat (max index (pop_count q + of_nat (element_count c)) - index))
          (element_count c - unat index mod element_count c))"

fun construct_range :: "'a \<Rightarrow> nat list \<Rightarrow> 'a iris_queue_t \<Rightarrow> 'a iris_queue_t option" where
  "construct_range d [] q = Some q"
| "construct_range d (i # is) q = do { q1 \<leftarrow> slot_new q i d; construct_range d is q1 }"

text \<open>\<open>d\<close> is the value of \<open>element_t()\<close>; the result is the first slot of the run.\<close>

definition queue_allocate :: "queue_params_t \<Rightarrow> 'a \<Rightarrow> nat \<Rightarrow> nat \<Rightarrow> 'a iris_queue_t \<Rightarrow> (nat option \<times> 'a iris_queue_t) option" where
  "queue_allocate c d count0 alignment q =
     (let push_index = ring_index c (push_count q);
          count = count0 + align_pad push_index alignment;
          next_index = push_index + count
      in if count > element_count c - queue_size c q then Some (None, q)
         else if count \<noteq> 1 \<and> next_index > element_count c then Some (None, q)
         else do {
           q1 \<leftarrow> construct_range d [push_index..<next_index] q;
           Some (Some push_index, q1\<lparr>push_count := step_counter c (push_count q1) (of_nat count)\<rparr>)
         })"

fun destruct_range :: "nat list \<Rightarrow> 'a iris_queue_t \<Rightarrow> 'a iris_queue_t option" where
  "destruct_range [] q = Some q"
| "destruct_range (i # is) q = do { q1 \<leftarrow> slot_destroy q i; destruct_range is q1 }"

definition queue_deallocate :: "queue_params_t \<Rightarrow> nat \<Rightarrow> nat \<Rightarrow> 'a iris_queue_t \<Rightarrow> 'a iris_queue_t option" where
  "queue_deallocate c count0 alignment q =
     (let pop_index = ring_index c (pop_count q);
          count = count0 + align_pad pop_index alignment
      in do {
        q1 \<leftarrow> destruct_range [pop_index..<pop_index + count] q;
        Some (q1\<lparr>pop_count := step_counter c (pop_count q1) (of_nat count)\<rparr>)
      })"

section \<open>Reset, destruction and moves\<close>

definition destroy_all :: "queue_params_t \<Rightarrow> 'a iris_queue_t \<Rightarrow> 'a iris_queue_t option" where
  "destroy_all c q =
     (let (e, q1) = queue_empty c q in
      if e then Some q1
      else
        let windex = ring_index c (push_count q1);
            rindex = ring_index c (pop_count q1)
        in destruct_range ((if rindex \<ge> windex then [rindex..<element_count c] else []) @
             [(if rindex \<ge> windex then 0 else rindex)..<windex]) q1)"

definition queue_reset :: "queue_params_t \<Rightarrow> size_t \<Rightarrow> 'a iris_queue_t \<Rightarrow> 'a iris_queue_t option" where
  "queue_reset c init_count q = do {
     q1 \<leftarrow> (if ring_buffer q \<noteq> [] then destroy_all c q else Some q);
     let q2 = shadow_init c init_count q1;
     Some (q2\<lparr>push_count := init_count, pop_count := init_count\<rparr>)
   }"

text \<open>The destructor: what is left alive in the ring it hands back to the allocator.\<close>

definition queue_destruct :: "queue_params_t \<Rightarrow> 'a iris_queue_t \<Rightarrow> 'a option list option" where
  "queue_destruct c q =
     (if ring_buffer q \<noteq> [] then map_option ring_buffer (destroy_all c q) else Some [])"

definition queue_move_construct :: "'a iris_queue_t \<Rightarrow> 'a iris_queue_t \<times> 'a iris_queue_t" where
  "queue_move_construct rhs = (rhs, rhs\<lparr>ring_buffer := []\<rparr>)"

definition queue_move_assign :: "queue_params_t \<Rightarrow> 'a iris_queue_t \<Rightarrow> 'a iris_queue_t \<Rightarrow> 'a iris_queue_t \<times> 'a iris_queue_t" where
  "queue_move_assign c this rhs =
     (let this1 = this\<lparr>ring_buffer := ring_buffer rhs, push_count := push_count rhs, pop_count := pop_count rhs\<rparr>;
          rhs1 = rhs\<lparr>ring_buffer := ring_buffer this, push_count := push_count this, pop_count := pop_count this\<rparr>
      in (set_pop_shadow c (pop_count this1) (set_push_shadow c (push_count this1) this1),
          set_pop_shadow c (pop_count rhs1) (set_push_shadow c (push_count rhs1) rhs1)))"

section \<open>Iterators and indices\<close>

text \<open>An iterator is a queue and a counter value; the queue is the argument of the dereference.\<close>

definition iterator_begin :: "'a iris_queue_t \<Rightarrow> size_t" where
  "iterator_begin q = pop_count q"

definition iterator_end :: "'a iris_queue_t \<Rightarrow> size_t" where
  "iterator_end q = push_count q"

definition iterator_advance :: "queue_params_t \<Rightarrow> size_t \<Rightarrow> size_t \<Rightarrow> size_t" where
  "iterator_advance c it count = step_counter c it count"

text \<open>The prefix and the postfix increment: the value of the expression and the iterator after it.\<close>

definition iterator_preincrement :: "queue_params_t \<Rightarrow> size_t \<Rightarrow> size_t \<times> size_t" where
  "iterator_preincrement c it = (let it1 = step_counter c it 1 in (it1, it1))"

definition iterator_postincrement :: "queue_params_t \<Rightarrow> size_t \<Rightarrow> size_t \<times> size_t" where
  "iterator_postincrement c it = (step_counter c it 1, it)"

definition iterator_distance :: "queue_params_t \<Rightarrow> size_t \<Rightarrow> size_t \<Rightarrow> size_t" where
  "iterator_distance c it from = diff_counter c it from"

definition iterator_deref :: "queue_params_t \<Rightarrow> 'a iris_queue_t \<Rightarrow> size_t \<Rightarrow> 'a option" where
  "iterator_deref c q it = slot_read q (ring_index c it)"

text \<open>\<open>get_index\<close> of the element in slot \<open>index\<close>, or of one outside the ring.\<close>

definition queue_get_index :: "queue_params_t \<Rightarrow> int \<Rightarrow> 'a iris_queue_t \<Rightarrow> size_t" where
  "queue_get_index c index q =
     (if index < 0 \<or> index \<ge> int (element_count c) then NOT 0
      else
        let i = nat index; r = ring_index c (pop_count q)
        in pop_count q + of_nat (if i \<ge> r then i - r else i + element_count c - r))"

section \<open>Counters as unbounded counters\<close>

text \<open>
  The counters are free-running numbers taken modulo \<open>counter_modulus\<close>: the word size for
  a power of two, the largest multiple of the element count with the top bit set otherwise. A
  ring has fewer than \<open>2 ^ 31\<close> slots.
\<close>

definition params_ok :: "queue_params_t \<Rightarrow> bool" where
  "params_ok c \<longleftrightarrow> 0 < element_count c \<and> element_count c < 2 ^ 31"

definition counter_modulus :: "queue_params_t \<Rightarrow> nat" where
  "counter_modulus c =
     (if element_count_pow_two c then 2 ^ 64
      else element_count c * 2 ^ (63 - iris_log2 (element_count c)))"

lemma params_log2:
  assumes "params_ok c"
  shows "2 ^ iris_log2 (element_count c) \<le> element_count c" "element_count c < 2 * 2 ^ iris_log2 (element_count c)"
    "iris_log2 (element_count c) \<le> 30"
proof -
  let ?n = "element_count c" and ?l = "iris_log2 (element_count c)"
  have n: "0 < ?n" "?n < 2 ^ 31" using assms by (auto simp: params_ok_def)
  from iris_log2_bounds [OF n(1)] show l: "2 ^ ?l \<le> ?n" "?n < 2 * 2 ^ ?l" by auto
  from l(1) n(2) have "(2 :: nat) ^ ?l < 2 ^ 31" by (rule le_less_trans)
  then have "?l < 31" by (rule power_less_imp_less_exp [rotated]) simp
  then show "?l \<le> 30" by simp
qed

lemma modulus_bounds:
  assumes "params_ok c"
  shows "2 ^ 63 + 2 ^ 33 \<le> counter_modulus c" "element_count c dvd counter_modulus c"
    "counter_modulus c = 2 ^ 64 \<or> counter_modulus c + 2 ^ 33 \<le> 2 ^ 64"
    "counter_modulus c \<le> 2 ^ 64"
proof -
  let ?n = "element_count c" and ?l = "iris_log2 (element_count c)"
  note l = params_log2 [OF assms]
  have p: "(2 :: nat) ^ ?l * 2 ^ (63 - ?l) = 2 ^ 63" using l(3) by (simp add: power_add [symmetric])
  have "(2 :: nat) ^ 33 \<le> 2 ^ (63 - ?l)" using l(3) by (intro power_increasing) auto
  moreover have "?n + 1 \<le> 2 * 2 ^ ?l" using l(2) by simp
  then have "(?n + 1) * 2 ^ (63 - ?l) \<le> 2 * 2 ^ ?l * 2 ^ (63 - ?l)" by (rule mult_le_mono1)
  then have upper: "?n * 2 ^ (63 - ?l) + 2 ^ (63 - ?l) \<le> 2 ^ 64" using p by (simp add: algebra_simps)
  moreover have "(2 ^ ?l + 1) * 2 ^ (63 - ?l) \<le> ?n * 2 ^ (63 - ?l)" if "?n \<noteq> 2 ^ ?l"
    using that l(1) by (intro mult_le_mono1) simp
  then have lower: "2 ^ 63 + 2 ^ (63 - ?l) \<le> ?n * 2 ^ (63 - ?l)" if "?n \<noteq> 2 ^ ?l"
    using that p by (simp add: algebra_simps)
  ultimately show "2 ^ 63 + 2 ^ 33 \<le> counter_modulus c"
    "counter_modulus c = 2 ^ 64 \<or> counter_modulus c + 2 ^ 33 \<le> 2 ^ 64" "counter_modulus c \<le> 2 ^ 64"
    by (auto simp: counter_modulus_def element_count_pow_two_def)
  have "(2 :: nat) ^ ?l dvd 2 ^ 64" using l(3) by (intro le_imp_power_dvd) simp
  then show "?n dvd counter_modulus c"
    unfolding counter_modulus_def element_count_pow_two_def by (cases "2 ^ ?l = ?n") simp_all
qed

lemma modulus_pow_two: "element_count_pow_two c \<Longrightarrow> counter_modulus c = 2 ^ 64"
  by (simp add: counter_modulus_def)

lemma unat_counter_limit:
  assumes "params_ok c" and "\<not> element_count_pow_two c"
  shows "unat (counter_limit c) = counter_modulus c" "counter_modulus c + 2 ^ 33 \<le> 2 ^ 64"
proof -
  let ?m = "element_count c * 2 ^ (63 - iris_log2 (element_count c))"
  have eq: "counter_modulus c = ?m" using assms(2) by (simp add: counter_modulus_def)
  show le: "counter_modulus c + 2 ^ 33 \<le> 2 ^ 64"
  proof -
    let ?n = "element_count c" and ?l = "iris_log2 (element_count c)"
    note l = params_log2 [OF assms(1)]
    have p: "(2 :: nat) ^ ?l * 2 ^ (63 - ?l) = 2 ^ 63" using l(3) by (simp add: power_add [symmetric])
    have "(?n + 1) * 2 ^ (63 - ?l) \<le> 2 * 2 ^ ?l * 2 ^ (63 - ?l)" using l(2) by (intro mult_le_mono1) simp
    moreover have "(2 :: nat) ^ 33 \<le> 2 ^ (63 - ?l)" using l(3) by (intro power_increasing) auto
    ultimately show ?thesis using p unfolding eq by (simp add: algebra_simps)
  qed
  have "counter_limit c = of_nat ?m" by (simp add: counter_limit_def)
  moreover have "?m < 2 ^ 64" using le eq by simp
  ultimately show "unat (counter_limit c) = counter_modulus c"
    unfolding eq by (intro of_nat_inverse) simp_all
qed

lemma step_counter_value:
  assumes ok: "params_ok c" and x: "unat x = X mod counter_modulus c" and d: "d < 2 ^ 33"
  shows "unat (step_counter c x (of_nat d)) = (X + d) mod counter_modulus c"
proof (cases "element_count_pow_two c")
  case True
  then have "unat (step_counter c x (of_nat d)) = (unat x + d) mod 2 ^ 64"
    by (simp add: step_counter_def unat_word_ariths unat_of_nat mod_add_right_eq)
  then show ?thesis using True x by (simp add: modulus_pow_two mod_add_left_eq)
next
  case False
  let ?M = "counter_modulus c"
  note lim = unat_counter_limit [OF ok False]
  have xM: "unat x < ?M" using x modulus_bounds(1) [OF ok] by simp
  have sum: "unat (x + of_nat d) = unat x + d"
    using xM lim(2) d by (simp add: unat_word_ariths unat_of_nat)
  have "unat (step_counter c x (of_nat d)) = (if unat x + d \<ge> ?M then unat x + d - ?M else unat x + d)"
    using False sum lim(1) by (auto simp: step_counter_def word_le_nat_alt unat_sub_if' Let_def)
  also have "\<dots> = (unat x + d) mod ?M"
    using xM d modulus_bounds(1) [OF ok] by (simp add: mod_if)
  finally show ?thesis using x by (simp add: mod_add_left_eq)
qed

lemma diff_counter_word:
  assumes ok: "params_ok c" and l: "unat l = L mod counter_modulus c" and r: "unat r = R mod counter_modulus c"
    and d: "R \<le> L" "L - R < 2 ^ 33"
  shows "diff_counter c l r = of_nat (L - R)"
proof -
  let ?M = "counter_modulus c"
  note M = modulus_bounds [OF ok]
  have L: "L = R + (L - R)" using d(1) by simp
  have l': "unat l = (unat r + (L - R)) mod ?M" unfolding l r by (subst L) (simp add: mod_add_left_eq)
  have lw: "l = of_nat (unat l)" and rw: "r = of_nat (unat r)" by simp_all
  have rM: "unat r < ?M" using r M(1) by simp
  show ?thesis
  proof (cases "element_count_pow_two c")
    case True
    then have "unat l = (unat r + (L - R)) mod 2 ^ LENGTH(64)" using l' by (simp add: modulus_pow_two)
    then have "l = of_nat (unat r + (L - R))" by (metis unat_of_nat word_unat_eq_iff)
    then have "l - r = of_nat (L - R)" using rw by (metis add_diff_cancel_left' of_nat_add)
    then show ?thesis using True by (simp add: diff_counter_def)
  next
    case False
    note lim = unat_counter_limit [OF ok False]
    have limw: "counter_limit c = of_nat ?M" using lim(1) by (metis of_nat_unat ucast_id)
    show ?thesis
    proof (cases "unat r + (L - R) < ?M")
      case True
      then have "l = of_nat (unat r + (L - R))" using l' lw by simp
      then have "l = r + of_nat (L - R)" by simp
      then have V: "l + counter_limit c - r = counter_limit c + of_nat (L - R)" by simp
      have "unat (counter_limit c + of_nat (L - R)) = ?M + (L - R)"
        using lim d(2) by (simp add: unat_word_ariths unat_of_nat)
      then have "counter_limit c \<le> counter_limit c + of_nat (L - R)" using lim(1) by (simp add: word_le_nat_alt)
      then show ?thesis using False by (simp add: diff_counter_def V)
    next
      case wrapped: False
      have "unat l = unat r + (L - R) - ?M"
        using l' wrapped rM d(2) M(1) by (simp add: mod_if)
      then have "unat l + ?M = unat r + (L - R)" using wrapped by simp
      then have "(of_nat (unat l + ?M) :: size_t) = of_nat (unat r + (L - R))" by (rule arg_cong)
      then have "l + counter_limit c = r + of_nat (L - R)" using limw by simp
      then have V: "l + counter_limit c - r = of_nat (L - R)" by simp
      have "unat (of_nat (L - R) :: size_t) = L - R" using d(2) by (simp add: unat_of_nat)
      then have "\<not> counter_limit c \<le> of_nat (L - R)"
        using lim(1) M(1) d(2) by (simp add: word_le_nat_alt)
      then show ?thesis using False by (simp add: diff_counter_def V)
    qed
  qed
qed

lemma diff_counter_nat:
  assumes "params_ok c" and "unat l = L mod counter_modulus c" and "unat r = R mod counter_modulus c"
    and "R \<le> L" "L - R < 2 ^ 33"
  shows "unat (diff_counter c l r) = L - R" "sint (diff_counter c l r) = int (L - R)"
proof -
  note eq = diff_counter_word [OF assms]
  show "unat (diff_counter c l r) = L - R" unfolding eq using assms(5) by (simp add: unat_of_nat)
  show "sint (diff_counter c l r) = int (L - R)"
    unfolding eq using assms(5) by (simp add: signed_of_nat signed_take_bit_int_eq_self)
qed

lemma diff_counter_negative:
  assumes two: "element_count_pow_two c"
    and l: "unat l = L mod counter_modulus c" and r: "unat r = R mod counter_modulus c"
    and d: "L < R" "R - L < 2 ^ 33"
  shows "sint (diff_counter c l r) < 0"
proof -
  have R: "R = L + (R - L)" using d(1) by simp
  have "unat r = (unat l + (R - L)) mod 2 ^ LENGTH(64)"
    using l r two by (subst (asm) R) (simp add: modulus_pow_two mod_add_left_eq)
  then have "r = of_nat (unat l + (R - L))" by (metis unat_of_nat word_unat_eq_iff)
  then have "l - r = - of_nat (R - L)" by simp
  then have "diff_counter c l r = word_of_int (- int (R - L))" using two by (simp add: diff_counter_def)
  moreover have "sint (word_of_int (- int (R - L)) :: size_t) = - int (R - L)"
    using d(2) by (subst signed_of_int) (simp add: signed_take_bit_int_eq_self)
  ultimately show ?thesis using d(1) by simp
qed

section \<open>The ring as a queue of elements\<close>

text \<open>
  \<open>ring_holds n ring p xs\<close>: the ring of \<open>n\<close> slots holds \<open>xs\<close> from position \<open>p\<close> on and nothing
  else is alive in it.
\<close>

definition ring_holds :: "nat \<Rightarrow> 'a option list \<Rightarrow> nat \<Rightarrow> 'a list \<Rightarrow> bool" where
  "ring_holds n ring p xs \<longleftrightarrow>
     length ring = n \<and> length xs \<le> n \<and>
     (\<forall>i < n. ring ! ((p + i) mod n) = (if i < length xs then Some (xs ! i) else None))"

lemma window_inj_le:
  assumes "i \<le> j" "j < (n :: nat)" "(p + j) mod n = (p + i) mod n"
  shows "i = j"
proof -
  from assms have "n dvd (p + j) - (p + i)" by (subst mod_eq_dvd_iff_nat [symmetric]) auto
  with assms(1,2) show ?thesis by (auto dest: dvd_imp_le)
qed

lemma window_inj: "i < n \<Longrightarrow> j < (n :: nat) \<Longrightarrow> (p + i) mod n = (p + j) mod n \<Longrightarrow> i = j"
  using window_inj_le [of i j n p] window_inj_le [of j i n p] by (cases "i \<le> j") auto

lemma holds_slot: "ring_holds n ring p xs \<Longrightarrow> i < length xs \<Longrightarrow> ring ! ((p + i) mod n) = Some (xs ! i)"
  by (auto simp: ring_holds_def)

lemma holds_push:
  assumes "ring_holds n ring p xs" and "length xs < n"
  shows "ring_holds n (ring[(p + length xs) mod n := Some t]) p (xs @ [t])"
  unfolding ring_holds_def
proof (intro conjI allI impI)
  have "0 < n" using assms(2) by simp
  fix i
  assume "i < n"
  then show "ring[(p + length xs) mod n := Some t] ! ((p + i) mod n) =
      (if i < length (xs @ [t]) then Some ((xs @ [t]) ! i) else None)"
    using assms window_inj [of i n "length xs" p] \<open>0 < n\<close>
    by (cases "i = length xs") (auto simp: ring_holds_def nth_list_update nth_append)
qed (use assms in \<open>auto simp: ring_holds_def\<close>)

lemma holds_pop:
  assumes "ring_holds n ring p (x # xs)"
  shows "ring_holds n (ring[p mod n := None]) (Suc p) xs" "ring ! (p mod n) = Some x" "p mod n < n"
proof -
  have n: "length ring = n" "Suc (length xs) \<le> n" using assms by (auto simp: ring_holds_def)
  then have "0 < n" by simp
  then show "p mod n < n" by simp
  show "ring ! (p mod n) = Some x" using holds_slot [OF assms, of 0] by simp
  show "ring_holds n (ring[p mod n := None]) (Suc p) xs"
    unfolding ring_holds_def
  proof (intro conjI allI impI)
    fix i
    assume i: "i < n"
    show "ring[p mod n := None] ! ((Suc p + i) mod n) = (if i < length xs then Some (xs ! i) else None)"
    proof (cases "Suc i = n")
      case True
      then have "Suc p + i = p + n" by simp
      then have "(Suc p + i) mod n = p mod n" by (simp only: mod_add_self2)
      then show ?thesis using n True \<open>0 < n\<close> by simp
    next
      case False
      with i have "Suc i < n" by simp
      moreover from this have "(p + Suc i) mod n \<noteq> (p + 0) mod n" using window_inj [of "Suc i" n 0 p] by auto
      ultimately show ?thesis using assms by (auto simp: ring_holds_def)
    qed
  qed (use n in auto)
qed

lemma holds_set:
  assumes "ring_holds n ring p xs" and "i < length xs"
  shows "ring_holds n (ring[(p + i) mod n := Some t]) p (xs[i := t])"
  unfolding ring_holds_def
proof (intro conjI allI impI)
  have i: "i < n" "0 < n" using assms by (auto simp: ring_holds_def)
  fix j
  assume "j < n"
  then show "ring[(p + i) mod n := Some t] ! ((p + j) mod n) =
      (if j < length (xs[i := t]) then Some (xs[i := t] ! j) else None)"
    using assms window_inj [of i n j p] i by (cases "i = j") (auto simp: ring_holds_def nth_list_update)
qed (use assms in \<open>auto simp: ring_holds_def\<close>)

lemma mod_Suc_below: "Suc w < n \<Longrightarrow> w = p mod n \<Longrightarrow> Suc w = Suc p mod (n :: nat)"
  by (simp add: mod_Suc)

text \<open>The inner loops, on a stretch of the ring that does not wrap.\<close>

lemma fill_range_holds:
  assumes "ring_holds n (ring_buffer q) p xs" and "bound \<le> n"
    and "windex < bound \<Longrightarrow> windex = (p + length xs) mod n" and "length xs + (bound - windex) \<le> n"
  shows "\<exists>ring. fill_range from windex bound q = Some (drop (bound - windex) from, q\<lparr>ring_buffer := ring\<rparr>) \<and>
    ring_holds n ring p (xs @ take (bound - windex) from)"
  using assms
proof (induction "from" windex bound q arbitrary: xs rule: fill_range.induct)
  case (1 windex bound q)
  then show ?case by (intro exI [of _ "ring_buffer q"]) simp
next
  case (2 x "from" windex bound q)
  show ?case
  proof (cases "windex < bound")
    case False
    with 2 show ?thesis by (intro exI [of _ "ring_buffer q"]) simp
  next
    case True
    let ?q = "q\<lparr>ring_buffer := (ring_buffer q)[windex := Some x]\<rparr>"
    have w: "windex = (p + length xs) mod n" using 2 True by simp
    have new: "slot_new q windex x = Some ?q"
      using "2.prems"(1,2) True by (simp add: slot_new_def ring_holds_def)
    have step: "ring_holds n (ring_buffer ?q) p (xs @ [x])"
      using holds_push [OF "2.prems"(1), of x] w "2.prems"(4) True by simp
    have "\<exists>ring. fill_range from (windex + 1) bound ?q = Some (drop (bound - (windex + 1)) from, ?q\<lparr>ring_buffer := ring\<rparr>) \<and>
        ring_holds n ring p ((xs @ [x]) @ take (bound - (windex + 1)) from)"
      by (rule "2.IH" [OF True new step "2.prems"(2)])
        (use "2.prems"(2,4) True w mod_Suc_below [of windex n "p + length xs"] in auto)
    moreover have "bound - windex = Suc (bound - (windex + 1))" using True by simp
    ultimately show ?thesis using True new by simp
  qed
qed

lemma take_range_holds:
  assumes "ring_holds n (ring_buffer q) p xs" and "bound \<le> n"
    and "rindex < bound \<Longrightarrow> rindex = p mod n" and "bound - rindex \<le> length xs"
  shows "\<exists>ring. take_range room rindex bound out q =
      Some (room - (bound - rindex), out @ take (min room (bound - rindex)) xs, q\<lparr>ring_buffer := ring\<rparr>) \<and>
    ring_holds n ring (p + min room (bound - rindex)) (drop (min room (bound - rindex)) xs)"
  using assms
proof (induction room rindex bound out q arbitrary: p xs rule: take_range.induct)
  case (1 rindex bound out q)
  then show ?case by (intro exI [of _ "ring_buffer q"]) simp
next
  case (2 room rindex bound out q)
  show ?case
  proof (cases "rindex < bound")
    case False
    with 2 show ?thesis by (intro exI [of _ "ring_buffer q"]) simp
  next
    case True
    then obtain x ys where xs: "xs = x # ys" using "2.prems"(4) by (cases xs) auto
    let ?q = "q\<lparr>ring_buffer := (ring_buffer q)[rindex := None]\<rparr>"
    have r: "rindex = p mod n" using 2 True by simp
    note pop = holds_pop [OF "2.prems"(1) [unfolded xs]]
    have read: "slot_read q rindex = Some x"
      using pop(2,3) r "2.prems"(1) by (simp add: slot_read_def ring_holds_def)
    then have destroy: "slot_destroy q rindex = Some ?q" by (simp add: slot_destroy_def)
    have step: "ring_holds n (ring_buffer ?q) (Suc p) ys" using pop(1) r by simp
    have "\<exists>ring. take_range room (rindex + 1) bound (out @ [x]) ?q =
        Some (room - (bound - (rindex + 1)), (out @ [x]) @ take (min room (bound - (rindex + 1))) ys, ?q\<lparr>ring_buffer := ring\<rparr>) \<and>
        ring_holds n ring (Suc p + min room (bound - (rindex + 1))) (drop (min room (bound - (rindex + 1))) ys)"
      by (rule "2.IH" [OF True read destroy step "2.prems"(2)])
        (use "2.prems"(2,4) True r xs mod_Suc_below [of rindex n p] in auto)
    moreover have "bound - rindex = Suc (bound - (rindex + 1))" using True by simp
    ultimately show ?thesis using True read destroy xs by simp
  qed
qed

section \<open>The refinement relation\<close>

text \<open>
  The shadow counters are observations of the past. As long as elements come and go one by one, the producer's shadow
  lags behind the push counter by no more than the size of the ring, and the consumer's shadow is not behind the pop counter; this is
  the case where \<open>k\<close> is above \<open>2 ^ 32\<close>. The bulk operations move the counters without a look at the shadows: \<open>k\<close> up to \<open>2 ^ 32\<close> counts the
  elements that may still be popped before a shadow lags by more than \<open>2 ^ 32 + 2 ^ 31\<close>. Where the element count is not a power
  of two, the consumer's shadow may not lag behind the pop counter at all.
\<close>

definition shadow_between :: "queue_params_t \<Rightarrow> nat \<Rightarrow> nat \<Rightarrow> size_t \<Rightarrow> bool" where
  "shadow_between c lo hi v \<longleftrightarrow> (\<exists>t. lo \<le> t \<and> t \<le> hi \<and> unat v = t mod counter_modulus c)"

definition lag :: "nat \<Rightarrow> nat" where
  "lag k = 2 ^ 32 + 2 ^ 31 - k"

definition shadows_ok :: "queue_params_t \<Rightarrow> nat \<Rightarrow> 'a iris_queue_t \<Rightarrow> nat \<Rightarrow> nat \<Rightarrow> bool" where
  "shadows_ok c k q p len \<longleftrightarrow>
     (spsc_optimized c \<longrightarrow>
        (if k \<le> 2 ^ 32 then
           shadow_between c (p - lag k) p (push_cached_pop q) \<and>
           shadow_between c (if element_count_pow_two c then p - lag k else p) (p + len) (pop_cached_push q)
         else
           shadow_between c (p + len - element_count c) p (push_cached_pop q) \<and> shadow_between c p (p + len) (pop_cached_push q)))"

definition ring_rel :: "queue_params_t \<Rightarrow> nat \<Rightarrow> 'a iris_queue_t \<Rightarrow> nat \<Rightarrow> 'a list \<Rightarrow> bool" where
  "ring_rel c k q p xs \<longleftrightarrow>
     params_ok c \<and> ring_holds (element_count c) (ring_buffer q) p xs \<and>
     unat (pop_count q) = p mod counter_modulus c \<and>
     unat (push_count q) = (p + length xs) mod counter_modulus c \<and>
     shadows_ok c k q p (length xs)"

text \<open>After an emptiness check that found an element the consumer's shadow is ahead.\<close>

definition ring_checked :: "queue_params_t \<Rightarrow> 'a iris_queue_t \<Rightarrow> nat \<Rightarrow> nat \<Rightarrow> bool" where
  "ring_checked c q p len \<longleftrightarrow>
     (spsc_optimized c \<longrightarrow> shadow_between c (Suc p) (p + len) (pop_cached_push q))"

lemma ring_relD:
  assumes "ring_rel c k q p xs"
  shows "params_ok c" "ring_holds (element_count c) (ring_buffer q) p xs"
    "unat (pop_count q) = p mod counter_modulus c"
    "unat (push_count q) = (p + length xs) mod counter_modulus c"
    "shadows_ok c k q p (length xs)" "0 < element_count c" "element_count c < 2 ^ 31"
    "length (ring_buffer q) = element_count c" "length xs \<le> element_count c"
  using assms unfolding ring_rel_def params_ok_def ring_holds_def shadows_ok_def by auto

lemma shadow_between_mono:
  "shadow_between c lo hi v \<Longrightarrow> lo' \<le> lo \<Longrightarrow> hi \<le> hi' \<Longrightarrow> shadow_between c lo' hi' v"
  by (auto simp: shadow_between_def intro: order_trans)

lemma shadow_betweenI: "unat v = t mod counter_modulus c \<Longrightarrow> lo \<le> t \<Longrightarrow> t \<le> hi \<Longrightarrow> shadow_between c lo hi v"
  by (auto simp: shadow_between_def)

lemma ring_index_mod:
  assumes "params_ok c" and "unat v = x mod counter_modulus c"
  shows "ring_index c v = x mod element_count c"
  using modulus_bounds(2) [OF assms(1)] assms(2) by (simp add: ring_index_def mod_mod_cancel)

lemma ring_rel_make:
  assumes "params_ok c" and "unat init < counter_modulus c"
  shows "ring_rel c k (queue_make c init) (unat init) []"
  using assms
  by (auto simp: ring_rel_def queue_make_def ring_holds_def shadows_ok_def params_ok_def
      intro!: shadow_betweenI [of _ "unat init"])

lemma shadows_ok_push_shadow [simp]:
  "ring_buffer (set_push_shadow c v q) = ring_buffer q" "pop_count (set_push_shadow c v q) = pop_count q"
  "push_count (set_push_shadow c v q) = push_count q" "pop_cached_push (set_push_shadow c v q) = pop_cached_push q"
  "ring_buffer (set_pop_shadow c v q) = ring_buffer q" "pop_count (set_pop_shadow c v q) = pop_count q"
  "push_count (set_pop_shadow c v q) = push_count q" "push_cached_pop (set_pop_shadow c v q) = push_cached_pop q"
  by (simp_all add: set_push_shadow_def set_pop_shadow_def)

lemma shadows_ok_update [simp]:
  "shadows_ok c k (q\<lparr>ring_buffer := r\<rparr>) p len = shadows_ok c k q p len"
  "shadows_ok c k (q\<lparr>push_count := x\<rparr>) p len = shadows_ok c k q p len"
  "shadows_ok c k (q\<lparr>pop_count := x\<rparr>) p len = shadows_ok c k q p len"
  by (simp_all add: shadows_ok_def)

text \<open>The bounds at their widest, and with fewer elements to come.\<close>

lemma shadows_ok_bounds:
  assumes "shadows_ok c k q p len" "spsc_optimized c" "len \<le> element_count c" "element_count c < 2 ^ 31"
  obtains s t where "s \<le> p" "p + len - s < 2 ^ 33" "unat (push_cached_pop q) = s mod counter_modulus c"
    "t \<le> p + len" "element_count_pow_two c \<or> p \<le> t" "p - t < 2 ^ 33" "unat (pop_cached_push q) = t mod counter_modulus c"
  using assms that by (auto simp: shadows_ok_def shadow_between_def lag_def split: if_splits)

lemma shadows_ok_mono:
  "shadows_ok c k q p len \<Longrightarrow> k' \<le> k \<Longrightarrow> len \<le> element_count c \<Longrightarrow> element_count c < 2 ^ 31 \<Longrightarrow> shadows_ok c k' q p len"
  by (auto simp: shadows_ok_def lag_def split: if_splits intro: shadow_between_mono)

lemma refresh_pop_rel: "ring_rel c k q p xs \<Longrightarrow> ring_rel c k (refresh_pop_cached c q) p xs"
  by (auto simp: ring_rel_def refresh_pop_cached_def shadows_ok_def set_push_shadow_def ring_holds_def
      intro!: shadow_betweenI [of _ p])

lemma refresh_push_rel:
  assumes "ring_rel c k q p xs"
  shows "ring_rel c k (refresh_push_cached c q) p xs"
    "xs \<noteq> [] \<Longrightarrow> ring_checked c (refresh_push_cached c q) p (length xs)"
  using assms
  by (auto simp: ring_rel_def refresh_push_cached_def shadows_ok_def ring_checked_def set_pop_shadow_def
      Suc_le_eq intro: shadow_betweenI [of _ "p + length xs"])

section \<open>Observers\<close>

lemma queue_size_rel: "ring_rel c k q p xs \<Longrightarrow> queue_size c q = length xs"
  unfolding queue_size_def
  using diff_counter_nat(1) [of c "push_count q" "p + length xs" "pop_count q" p] ring_relD [of c k q p xs] by simp

lemma queue_full_rel:
  assumes "ring_rel c k q p xs"
  shows "queue_full c q \<longleftrightarrow> length xs = element_count c"
proof -
  note r = ring_relD [OF assms]
  let ?M = "counter_modulus c" and ?n = "element_count c"
  have "unat (step_counter c (pop_count q) (of_nat ?n)) = (p + ?n) mod ?M"
    by (rule step_counter_value [OF r(1,3)]) (use r(7) in simp)
  then have "queue_full c q \<longleftrightarrow> (p + ?n) mod ?M = (p + length xs) mod ?M"
    using r(4) by (simp add: queue_full_def word_unat_eq_iff)
  also have "\<dots> \<longleftrightarrow> length xs = ?n"
    using window_inj [of ?n ?M "length xs" p] modulus_bounds(1) [OF r(1)] r(7,9) by auto
  finally show ?thesis .
qed

lemma not_maybe_full_rel:
  assumes rel: "ring_rel c k q p xs" and no: "\<not> maybe_full c q"
  shows "length xs < element_count c" "shadow_between c (p + length xs + 1 - element_count c) p (push_cached_pop q)"
proof -
  note r = ring_relD [OF rel]
  from no have spsc: "spsc_optimized c"
    and lt: "sint (diff_counter c (push_count q) (push_cached_pop q)) < int (element_count c)"
    by (auto simp: maybe_full_def)
  from shadows_ok_bounds [OF r(5) spsc r(9,7)] obtain s where
    s: "s \<le> p" "p + length xs - s < 2 ^ 33" "unat (push_cached_pop q) = s mod counter_modulus c" by blast
  have "sint (diff_counter c (push_count q) (push_cached_pop q)) = int (p + length xs - s)"
    by (rule diff_counter_nat(2) [OF r(1,4) s(3)]) (use s in auto)
  then have "p + length xs - s < element_count c" using lt by simp
  then show "length xs < element_count c" "shadow_between c (p + length xs + 1 - element_count c) p (push_cached_pop q)"
    using s by (auto intro!: shadow_betweenI [of _ s])
qed

lemma not_maybe_empty_rel:
  assumes rel: "ring_rel c k q p xs" and no: "\<not> maybe_empty c q"
  shows "xs \<noteq> []" "ring_checked c q p (length xs)"
proof -
  note r = ring_relD [OF rel]
  from no have spsc: "spsc_optimized c" and gt: "sint (diff_counter c (pop_cached_push q) (pop_count q)) > 0"
    by (auto simp: maybe_empty_def)
  from shadows_ok_bounds [OF r(5) spsc r(9,7)] obtain t where
    t: "element_count_pow_two c \<or> p \<le> t" "p - t < 2 ^ 33" "t \<le> p + length xs" "unat (pop_cached_push q) = t mod counter_modulus c" by blast
  have "p < t"
  proof (cases "p \<le> t")
    case True
    have "sint (diff_counter c (pop_cached_push q) (pop_count q)) = int (t - p)"
      by (rule diff_counter_nat(2) [OF r(1) t(4) r(3) True]) (use t(3) r(7,9) in simp)
    with gt show ?thesis by simp
  next
    case False
    then have "sint (diff_counter c (pop_cached_push q) (pop_count q)) < 0"
      using t(1,2) by (intro diff_counter_negative [OF _ t(4) r(3)]) auto
    with gt show ?thesis by simp
  qed
  with t show "xs \<noteq> []" "ring_checked c q p (length xs)"
    by (auto simp: ring_checked_def intro!: shadow_betweenI [of _ t])
qed

lemma queue_empty_rel:
  assumes rel: "ring_rel c k q p xs"
  shows "fst (queue_empty c q) \<longleftrightarrow> xs = []" "ring_rel c k (snd (queue_empty c q)) p xs"
    "xs \<noteq> [] \<Longrightarrow> ring_checked c (snd (queue_empty c q)) p (length xs)"
proof -
  note r = ring_relD [OF rel]
  have eq: "pop_count q = push_count q \<longleftrightarrow> xs = []"
    using window_inj [of 0 "counter_modulus c" "length xs" p] modulus_bounds(1) [OF r(1)] r(3,4,7,9)
    by (auto simp: word_unat_eq_iff)
  have same: "pop_count (refresh_push_cached c q) = pop_count q" "push_count (refresh_push_cached c q) = push_count q"
    by (simp_all add: refresh_push_cached_def)
  show "fst (queue_empty c q) \<longleftrightarrow> xs = []"
    using not_maybe_empty_rel [OF rel] eq same by (auto simp: queue_empty_def Let_def)
  show "ring_rel c k (snd (queue_empty c q)) p xs"
    using refresh_push_rel [OF rel] rel by (simp add: queue_empty_def Let_def)
  show "ring_checked c (snd (queue_empty c q)) p (length xs)" if "xs \<noteq> []"
    using refresh_push_rel(2) [OF rel that] not_maybe_empty_rel(2) [OF rel] by (simp add: queue_empty_def Let_def)
qed

section \<open>Single elements\<close>

lemma queue_push_rel:
  assumes rel: "ring_rel c k q p xs"
  shows "\<exists>q'. queue_push c t q =
      Some (if length xs < element_count c then Some ((p + length xs) mod element_count c) else None, q') \<and>
    ring_rel c k q' p (if length xs < element_count c then xs @ [t] else xs)"
proof -
  define q1 where "q1 = (if maybe_full c q then refresh_pop_cached c q else q)"
  have rel1: "ring_rel c k q1 p xs" using rel refresh_pop_rel by (auto simp: q1_def)
  note r = ring_relD [OF rel1]
  show ?thesis
  proof (cases "length xs < element_count c")
    case False
    then have "length xs = element_count c" using r(9) by simp
    moreover have "maybe_full c q" using not_maybe_full_rel [OF rel] False by auto
    ultimately have "queue_push c t q = Some (None, q1)"
      using queue_full_rel [OF rel1] unfolding queue_push_def q1_def [symmetric] Let_def by simp
    then show ?thesis using rel1 False by simp
  next
    case True
    let ?i = "(p + length xs) mod element_count c"
    let ?q = "q1\<lparr>ring_buffer := (ring_buffer q1)[?i := Some t]\<rparr>"
    let ?q' = "?q\<lparr>push_count := step_counter c (push_count q1) 1\<rparr>"
    have idx: "ring_index c (push_count q1) = ?i" by (rule ring_index_mod [OF r(1,4)])
    have new: "slot_new q1 ?i t = Some ?q" using r(6,8) by (simp add: slot_new_def)
    have "\<not> queue_full c q1" using True queue_full_rel [OF rel1] by simp
    then have "queue_push c t q = Some (Some ?i, ?q')"
      using new idx unfolding queue_push_def q1_def [symmetric] Let_def by simp
    moreover have "ring_rel c k ?q' p (xs @ [t])"
    proof -
      have "unat (step_counter c (push_count q1) 1) = (p + length xs + 1) mod counter_modulus c"
        using step_counter_value [OF r(1,4), of 1] by simp
      moreover have "spsc_optimized c \<longrightarrow> shadow_between c (p + length xs + 1 - element_count c) p (push_cached_pop q1)"
        using not_maybe_full_rel(2) [OF rel] True ring_relD(3) [OF rel]
        by (auto simp: q1_def refresh_pop_cached_def set_push_shadow_def intro!: shadow_betweenI [of _ p])
      then have "shadows_ok c k q1 p (Suc (length xs))"
        using r(5) by (auto simp: shadows_ok_def split: if_splits intro: shadow_between_mono)
      ultimately show ?thesis using r(1,3) holds_push [OF r(2) True, of t] by (simp add: ring_rel_def)
    qed
    ultimately show ?thesis using True by auto
  qed
qed

lemma queue_top_rel: "ring_rel c k q p (x # xs) \<Longrightarrow> queue_top c q = Some x"
  using ring_relD [of c k q p "x # xs"] holds_pop(2,3) [of "element_count c" "ring_buffer q" p x xs]
  by (simp add: queue_top_def slot_read_def ring_index_mod)

lemma shadows_ok_pop:
  assumes "shadows_ok c (k + m) q p len" and "m \<le> len"
    and "spsc_optimized c \<and> (element_count_pow_two c \<longrightarrow> 2 ^ 32 < k + m) \<longrightarrow> shadow_between c (p + m) (p + len) (pop_cached_push q)"
    and "len \<le> element_count c" "element_count c < 2 ^ 31"
  shows "shadows_ok c k q (p + m) (len - m)"
  using assms unfolding shadows_ok_def lag_def
  by (auto split: if_splits intro: shadow_between_mono)

lemma queue_pop_rel:
  assumes rel: "ring_rel c (Suc k) q p (x # xs)" and checked: "ring_checked c q p (Suc (length xs))"
  shows "\<exists>q'. queue_pop c q = Some q' \<and> ring_rel c k q' (Suc p) xs"
proof -
  note r = ring_relD [OF rel]
  note pop = holds_pop [OF r(2)]
  let ?i = "p mod element_count c"
  let ?q = "q\<lparr>ring_buffer := (ring_buffer q)[?i := None]\<rparr>"
  let ?q' = "?q\<lparr>pop_count := step_counter c (pop_count q) 1\<rparr>"
  have idx: "ring_index c (pop_count q) = ?i" by (rule ring_index_mod [OF r(1,3)])
  have "slot_destroy q ?i = Some ?q" using pop(2,3) r(8) by (simp add: slot_destroy_def slot_read_def)
  then have "queue_pop c q = Some ?q'" using idx by (simp add: queue_pop_def)
  moreover have "ring_rel c k ?q' (Suc p) xs"
  proof -
    have "unat (step_counter c (pop_count q) 1) = (p + 1) mod counter_modulus c"
      using step_counter_value [OF r(1,3), of 1] by simp
    moreover have "shadows_ok c k q (Suc p) (length xs)"
      using shadows_ok_pop [of c k 1 q p "Suc (length xs)"] r(5,7,9) checked by (simp add: ring_checked_def)
    ultimately show ?thesis using r(1,4) pop(1) by (simp add: ring_rel_def)
  qed
  ultimately show ?thesis by blast
qed

section \<open>Bulk transfer\<close>

text \<open>Where the write index lies relative to the read index.\<close>

lemma window_split:
  fixes p len n :: nat
  assumes "len \<le> n" "0 < n"
  shows "p mod n + len < n \<Longrightarrow> (p + len) mod n = p mod n + len"
    "n \<le> p mod n + len \<Longrightarrow> (p + len) mod n = p mod n + len - n"
proof -
  have eq: "(p + len) mod n = (p mod n + len) mod n" by (simp add: mod_add_left_eq)
  show "p mod n + len < n \<Longrightarrow> (p + len) mod n = p mod n + len" unfolding eq by simp
  have "p mod n < n" using assms(2) by simp
  then have "p mod n + len - n < n" using assms(1) by linarith
  then show "n \<le> p mod n + len \<Longrightarrow> (p + len) mod n = p mod n + len - n"
    unfolding eq by (simp only: le_mod_geq mod_less)
qed

lemma window_cases:
  fixes p len n :: nat
  assumes "len < n"
  obtains "p mod n \<le> (p + len) mod n" "(p + len) mod n = p mod n + len"
  | "(p + len) mod n < p mod n" "(p + len) mod n + n = p mod n + len"
proof (cases "p mod n + len < n")
  case True
  then show ?thesis using that(1) window_split(1) [of len n p] assms by simp
next
  case False
  then show ?thesis using that(2) window_split(2) [of len n p] assms by simp
qed

lemma fill_window:
  assumes holds: "ring_holds n (ring_buffer q) p xs" and room: "length xs < n"
    and w: "w = (p + length xs) mod n" and r: "r = p mod n"
  shows "\<exists>from1 ring1 ring. (if r \<le> w then fill_range from w n q else Some (from, q)) = Some (from1, q\<lparr>ring_buffer := ring1\<rparr>) \<and>
     fill_range from1 (if r \<le> w then 0 else w) r (q\<lparr>ring_buffer := ring1\<rparr>) =
       Some (drop (n - length xs) from, q\<lparr>ring_buffer := ring\<rparr>) \<and>
     ring_holds n ring p (xs @ take (n - length xs) from)"
proof (rule window_cases [OF room, of p])
  assume c: "p mod n \<le> (p + length xs) mod n" "(p + length xs) mod n = p mod n + length xs"
  moreover have "(p + length xs) mod n < n" using room by (intro mod_less_divisor) simp
  ultimately have wr: "r \<le> w" "w = r + length xs" "w < n" unfolding w r by (simp_all only:)
  have "length xs + (n - w) \<le> n" using wr by simp
  from fill_range_holds [OF holds le_refl w this, of "from"] obtain ring1 where
    f1: "fill_range from w n q = Some (drop (n - w) from, q\<lparr>ring_buffer := ring1\<rparr>)"
    and h1: "ring_holds n ring1 p (xs @ take (n - w) from)" by blast
  show ?thesis
  proof (cases "length from \<le> n - w")
    case True
    moreover have "n - w \<le> n - length xs" using wr by simp
    ultimately show ?thesis
      using f1 h1 wr(1) by (intro exI [of _ "[]"] exI [of _ ring1]) simp
  next
    case False
    let ?xs = "xs @ take (n - w) from"
    have len: "length ?xs = length xs + (n - w)" using False by simp
    then have pos: "p + length ?xs = p + length xs + (n - w)" by simp
    have "(p + length ?xs) mod n = ((p + length xs) mod n + (n - w)) mod n"
      unfolding pos by (simp only: mod_add_left_eq)
    also have "\<dots> = (w + (n - w)) mod n" by (simp only: w)
    finally have z: "0 = (p + length ?xs) mod n" using wr(3) by simp
    have "length ?xs + (r - 0) \<le> n" unfolding len using wr by simp
    have "\<exists>ring. fill_range (drop (n - w) from) 0 r (q\<lparr>ring_buffer := ring1\<rparr>) =
          Some (drop (r - 0) (drop (n - w) from), q\<lparr>ring_buffer := ring1, ring_buffer := ring\<rparr>) \<and>
        ring_holds n ring p (?xs @ take (r - 0) (drop (n - w) from))"
      by (rule fill_range_holds) (use h1 z \<open>length ?xs + (r - 0) \<le> n\<close> wr in auto)
    then obtain ring where
      f2: "fill_range (drop (n - w) from) 0 r (q\<lparr>ring_buffer := ring1\<rparr>) = Some (drop (r + (n - w)) from, q\<lparr>ring_buffer := ring\<rparr>)"
      and h2: "ring_holds n ring p ((xs @ take (n - w) from) @ take r (drop (n - w) from))"
      by auto
    have tot: "n - length xs = (n - w) + r" using wr by simp
    show ?thesis
      using f1 f2 h2 wr(1) unfolding tot take_add by (intro exI [of _ "drop (n - w) from"] exI [of _ ring1] exI [of _ ring]) (simp add: add.commute)
  qed
next
  assume c: "(p + length xs) mod n < p mod n" "(p + length xs) mod n + n = p mod n + length xs"
  moreover have "p mod n < n" using room by (intro mod_less_divisor) simp
  ultimately have wr: "w < r" "r < n" "r - w = n - length xs" unfolding w r by linarith+
  have "length xs + (r - w) \<le> n" using wr room by simp
  from fill_range_holds [OF holds less_imp_le [OF wr(2)] w this, of "from"] obtain ring where
    "fill_range from w r q = Some (drop (n - length xs) from, q\<lparr>ring_buffer := ring\<rparr>)"
    "ring_holds n ring p (xs @ take (n - length xs) from)" unfolding wr(3) by blast
  then show ?thesis
    using wr(1) by (intro exI [of _ "from"] exI [of _ "ring_buffer q"] exI [of _ ring]) simp
qed

lemma queue_push_range_rel:
  assumes rel: "ring_rel c k q p xs" and k: "k \<le> 2 ^ 32"
  shows "\<exists>q'. queue_push_range c from q = Some (drop (element_count c - length xs) from, q') \<and>
    ring_rel c k q' p (xs @ take (element_count c - length xs) from)"
proof (cases "length xs = element_count c")
  case True
  then show ?thesis using queue_full_rel [OF rel] rel by (simp add: queue_push_range_def)
next
  case False
  note r = ring_relD [OF rel]
  let ?n = "element_count c"
  have room: "length xs < ?n" using False r(9) by simp
  have notfull: "\<not> queue_full c q" using queue_full_rel [OF rel] False by simp
  from fill_window [OF r(2) room ring_index_mod [OF r(1,4)] ring_index_mod [OF r(1,3)], of "from"]
  obtain from1 ring1 ring where
    f: "(if ring_index c (pop_count q) \<le> ring_index c (push_count q)
         then fill_range from (ring_index c (push_count q)) ?n q else Some (from, q)) = Some (from1, q\<lparr>ring_buffer := ring1\<rparr>)"
     "fill_range from1 (if ring_index c (pop_count q) \<le> ring_index c (push_count q) then 0 else ring_index c (push_count q))
        (ring_index c (pop_count q)) (q\<lparr>ring_buffer := ring1\<rparr>) = Some (drop (?n - length xs) from, q\<lparr>ring_buffer := ring\<rparr>)"
     and h: "ring_holds ?n ring p (xs @ take (?n - length xs) from)" by blast
  let ?m = "length from - length (drop (?n - length xs) from)"
  let ?q' = "q\<lparr>ring_buffer := ring, push_count := step_counter c (push_count q) (of_nat ?m)\<rparr>"
  have "queue_push_range c from q = Some (drop (?n - length xs) from, ?q')"
    using f notfull unfolding queue_push_range_def Let_def by simp
  moreover have "ring_rel c k ?q' p (xs @ take (?n - length xs) from)"
  proof -
    have m: "?m = length (take (?n - length xs) from)" by simp
    have "unat (step_counter c (push_count q) (of_nat ?m)) = (p + length xs + ?m) mod counter_modulus c"
      by (rule step_counter_value [OF r(1,4)]) (use r(7) in simp)
    moreover have "shadows_ok c k q p (length xs + ?m)"
      using r(5) k by (auto simp: shadows_ok_def split: if_splits intro: shadow_between_mono)
    ultimately show ?thesis using r(1,3) h unfolding m by (simp add: ring_rel_def add.assoc)
  qed
  ultimately show ?thesis by blast
qed

lemma fill_range_bound:
  "fill_range (take m from) w (w + m) q = Some ([], q1) \<Longrightarrow> m \<le> length from \<Longrightarrow>
   fill_range from w (w + m) q = Some (drop m from, q1)"
proof (induction m arbitrary: "from" w q)
  case 0
  then show ?case by (cases "from") auto
next
  case (Suc m)
  then obtain x xs where "from": "from = x # xs" by (cases "from") auto
  with Suc.prems obtain q2 where q2: "slot_new q w x = Some q2"
    "fill_range (take m xs) (Suc w) (Suc w + m) q2 = Some ([], q1)"
    by (auto simp: bind_eq_Some_conv)
  from Suc.IH [OF q2(2)] Suc.prems(2) "from" q2(1) show ?case by simp
qed

lemma fill_range_take:
  "fill_range (take (min (length from) (e - w)) from) w (w + min (length from) (e - w)) q =
   map_option (\<lambda>(f, q1). ([], q1)) (fill_range from w e q)"
proof (induction "from" arbitrary: w q)
  case Nil
  then show ?case by simp
next
  case (Cons x xs)
  show ?case
  proof (cases "w < e")
    case False
    then show ?thesis by simp
  next
    case True
    then have "min (length (x # xs)) (e - w) = Suc (min (length xs) (e - Suc w))" by auto
    then show ?thesis using True Cons.IH [of "Suc w"] by (auto split: Option.bind_splits)
  qed
qed

text \<open>A streamed segment writes the same slots and consumes the same elements as the plain loop.\<close>

lemma stream_fill_eq:
  assumes "fill_range from w e q = Some (drop (e - w) from, q1)"
  shows "\<exists>s'. stream_fill c trivial esize from w e s q = Some (drop (e - w) from, s', q1)"
  using fill_range_take [of "from" e w q] assms by (auto simp: stream_fill_def Let_def min_def)

lemma fill_range_drop:
  "fill_range from w e q = Some (f, q1) \<Longrightarrow> f = drop (e - w) from"
proof (induction "from" w e q rule: fill_range.induct)
  case (2 x "from" w e q)
  then show ?case
    by (cases "w < e") (auto simp: bind_eq_Some_conv Suc_diff_Suc [symmetric])
qed simp

lemma queue_push_stream_rel:
  assumes rel: "ring_rel c k q p xs" and k: "k \<le> 2 ^ 32"
  shows "\<exists>q'. queue_push_stream c trivial esize from q = Some (drop (element_count c - length xs) from, q') \<and>
    ring_rel c k q' p (xs @ take (element_count c - length xs) from)"
proof (cases "queue_full c q")
  case True
  then show ?thesis using queue_full_rel [OF rel] rel by (simp add: queue_push_stream_def)
next
  case False
  let ?w = "ring_index c (push_count q)" and ?r = "ring_index c (pop_count q)" and ?n = "element_count c"
  let ?f = "drop (?n - length xs) from"
  from queue_push_range_rel [OF rel k, of "from"] False obtain from1 q1 q2 q' where
    f1: "(if ?r \<le> ?w then fill_range from ?w ?n q else Some (from, q)) = Some (from1, q1)"
    and f2: "fill_range from1 (if ?r \<le> ?w then 0 else ?w) ?r q1 = Some (?f, q2)"
    and q': "q' = q2\<lparr>push_count := step_counter c (push_count q2) (of_nat (length from - length ?f))\<rparr>"
    and rel': "ring_rel c k q' p (xs @ take (?n - length xs) from)"
    unfolding queue_push_range_def Let_def by (auto simp: bind_eq_Some_conv split: prod.splits)
  obtain s1 where s1: "(if ?r \<le> ?w then stream_fill c trivial esize from ?w ?n False q else Some (from, False, q)) = Some (from1, s1, q1)"
    using f1 stream_fill_eq [of "from" ?w ?n q q1 c trivial esize False] fill_range_drop [of "from" ?w ?n q from1 q1]
    by (cases "?r \<le> ?w") auto
  let ?w1 = "if ?r \<le> ?w then 0 else ?w"
  obtain s2 where s2: "(if from1 \<noteq> [] \<and> ?w1 < ?r then stream_fill c trivial esize from1 ?w1 ?r s1 q1 else Some (from1, s1, q1)) = Some (?f, s2, q2)"
  proof (cases "from1 \<noteq> [] \<and> ?w1 < ?r")
    case True
    then show ?thesis
      using that f2 stream_fill_eq [of from1 ?w1 ?r q1 q2 c trivial esize s1] fill_range_drop [of from1 ?w1 ?r q1 ?f q2] by auto
  next
    case False
    then have "Some (from1, q1) = Some (?f, q2)"
      using f2 by (cases from1) (auto simp del: fill_range.simps simp: fill_range.simps(1) fill_range.simps(2) not_less)
    then show ?thesis using that False by auto
  qed
  let ?q'' = "set_push_shadow c (pop_count q2) q2\<lparr>push_count := push_count q'\<rparr>"
  have "queue_push_stream c trivial esize from q = Some (?f, ?q'')"
    using False s1 s2 q' unfolding queue_push_stream_def Let_def by simp
  moreover have "?q'' = set_push_shadow c (pop_count q') q'" unfolding q' by (simp add: set_push_shadow_def)
  then have "ring_rel c k ?q'' p (xs @ take (?n - length xs) from)"
    using refresh_pop_rel [OF rel'] by (simp add: refresh_pop_cached_def)
  ultimately show ?thesis by blast
qed

text \<open>The runs of a streamed copy are adjacent and cover all bytes.\<close>

fun runs_cover :: "nat \<Rightarrow> (nat \<times> nat) list \<Rightarrow> nat \<Rightarrow> bool" where
  "runs_cover from [] to \<longleftrightarrow> from = to"
| "runs_cover from ((off, len) # runs) to \<longleftrightarrow> off = from \<and> 0 < len \<and> runs_cover (from + len) runs to"

lemma runs_cover_append: "runs_cover a xs b \<Longrightarrow> runs_cover b ys c \<Longrightarrow> runs_cover a (xs @ ys) c"
  by (induction a xs b rule: runs_cover.induct) auto

lemma vector_runs_cover: "runs_cover h (map (\<lambda>k. (h + k * 16, 16)) [0..<n]) (h + n * 16)"
  by (induction n) (auto intro!: runs_cover_append)

lemma stream_runs_cover: "runs_cover 0 (stream_runs dst bytes) bytes"
proof -
  define head where "head = min ((16 - dst mod 16) mod 16) bytes"
  define vecs where "vecs = (bytes - head) div 16"
  have "head \<le> bytes" by (simp add: head_def)
  moreover have "vecs * 16 \<le> bytes - head" unfolding vecs_def by simp
  ultimately have h: "head + vecs * 16 \<le> bytes" by linarith
  have "runs_cover 0 (if head \<noteq> 0 then [(0, head)] else []) head" by simp
  moreover note vector_runs_cover [of head vecs]
  moreover have "runs_cover (head + vecs * 16)
      (if head + vecs * 16 < bytes then [(head + vecs * 16, bytes - (head + vecs * 16))] else []) bytes"
    using h by auto
  ultimately have "runs_cover 0 ((if head \<noteq> 0 then [(0, head)] else []) @
      map (\<lambda>k. (head + k * 16, 16)) [0..<vecs] @
      (if head + vecs * 16 < bytes then [(head + vecs * 16, bytes - (head + vecs * 16))] else [])) bytes"
    by (rule runs_cover_append [OF _ runs_cover_append])
  moreover have "vecs * 16 div 16 = vecs" by simp
  ultimately show ?thesis
    unfolding stream_runs_def Let_def head_def [symmetric] vecs_def [symmetric] by (simp only:)
qed

lemma window_cases_pop:
  fixes p len n :: nat
  assumes "0 < len" "len \<le> n"
  obtains "(p + len) mod n \<le> p mod n" "(p + len) mod n + n = p mod n + len" "p mod n < n"
  | "p mod n < (p + len) mod n" "(p + len) mod n = p mod n + len" "(p + len) mod n < n"
proof -
  have n: "0 < n" "p mod n < n" "(p + len) mod n < n" using assms by simp_all
  show ?thesis
  proof (cases "p mod n + len < n")
    case True
    then show ?thesis using that(2) window_split(1) [OF assms(2) n(1), of p] assms n by simp
  next
    case False
    then have "(p + len) mod n = p mod n + len - n" using window_split(2) [OF assms(2) n(1), of p] by simp
    then show ?thesis using that(1) False assms n by simp
  qed
qed

text \<open>Taking \<open>m\<close> elements in two stretches, the second one up to any slot that leaves enough.\<close>

lemma take_window:
  assumes holds: "ring_holds n (ring_buffer q) p xs" and r: "r = p mod n"
    and wrap: "n - r \<le> length xs" and bound: "b + (n - r) \<le> length xs" "b \<le> n" "0 < n"
  shows "\<exists>ring1 ring. take_range room r n [] q = Some (room - (n - r), take (min room (n - r)) xs, q\<lparr>ring_buffer := ring1\<rparr>) \<and>
     take_range (room - (n - r)) 0 b (take (min room (n - r)) xs) (q\<lparr>ring_buffer := ring1\<rparr>) =
       Some (room - (n - r) - b, take (min room (n - r + b)) xs, q\<lparr>ring_buffer := ring\<rparr>) \<and>
     ring_holds n ring (p + min room (n - r + b)) (drop (min room (n - r + b)) xs)"
proof -
  from take_range_holds [OF holds le_refl r wrap, of room "[]"] obtain ring1 where
    f1: "take_range room r n [] q = Some (room - (n - r), take (min room (n - r)) xs, q\<lparr>ring_buffer := ring1\<rparr>)"
    and h1: "ring_holds n ring1 (p + min room (n - r)) (drop (min room (n - r)) xs)" by auto
  show ?thesis
  proof (cases "room \<le> n - r")
    case True
    then show ?thesis using f1 h1 by (intro exI [of _ ring1]) (simp add: min_absorb1)
  next
    case False
    let ?p = "p + (n - r)" and ?xs = "drop (n - r) xs" and ?out = "take (n - r) xs" and ?room = "room - (n - r)"
    have m: "min room (n - r) = n - r" using False by simp
    have "?p mod n = (r + (n - r)) mod n" unfolding r by (simp only: mod_add_left_eq)
    then have z: "0 = ?p mod n" using r bound(3) by simp
    have "\<exists>ring. take_range ?room 0 b ?out (q\<lparr>ring_buffer := ring1\<rparr>) =
        Some (?room - (b - 0), ?out @ take (min ?room (b - 0)) ?xs, q\<lparr>ring_buffer := ring1, ring_buffer := ring\<rparr>) \<and>
        ring_holds n ring (?p + min ?room (b - 0)) (drop (min ?room (b - 0)) ?xs)"
      by (rule take_range_holds) (use h1 m z bound in auto)
    then obtain ring where
      f2: "take_range ?room 0 b ?out (q\<lparr>ring_buffer := ring1\<rparr>) = Some (?room - b, ?out @ take (min ?room b) ?xs, q\<lparr>ring_buffer := ring\<rparr>)"
      and h2: "ring_holds n ring (?p + min ?room b) (drop (min ?room b) ?xs)" by auto
    have tot: "min room (n - r + b) = n - r + min ?room b" using False by auto
    show ?thesis
      using f1 f2 h2 unfolding m tot take_add
      by (intro exI [of _ ring1] exI [of _ ring]) (simp add: add.assoc add.commute)
  qed
qed

lemma shadows_ok_refreshed:
  assumes "shadows_ok c (k + m) q p len" and "unat v = (p + len) mod counter_modulus c" and "m \<le> len"
    and "len \<le> element_count c" "element_count c < 2 ^ 31"
  shows "shadows_ok c k (set_pop_shadow c v q) (p + m) (len - m)"
  using assms
  by (auto simp: shadows_ok_def set_pop_shadow_def lag_def split: if_splits
      intro: shadow_between_mono shadow_betweenI [of v "p + len"])

lemma queue_pop_range_rel:
  assumes rel: "ring_rel c (k + min room (length xs)) q p xs"
  shows "\<exists>q'. queue_pop_range c room q = Some (take room xs, q') \<and>
    ring_rel c k q' (p + min room (length xs)) (drop room xs)"
proof (cases "xs = []")
  case True
  with queue_empty_rel [OF rel] rel show ?thesis
    by (auto simp: queue_pop_range_def split: prod.splits)
next
  case False
  obtain e q0 where eq: "queue_empty c q = (e, q0)" by force
  with queue_empty_rel [OF rel] False have e: "\<not> e" and rel0: "ring_rel c (k + min room (length xs)) q0 p xs" by auto
  note r = ring_relD [OF rel0]
  let ?n = "element_count c" and ?w = "ring_index c (push_count q0)" and ?r = "ring_index c (pop_count q0)"
  let ?q1 = "set_pop_shadow c (push_count q0) q0" and ?m = "min room (length xs)"
  have idx: "?r = p mod ?n" "?w = (p + length xs) mod ?n" using ring_index_mod [OF r(1)] r(3,4) by auto
  have h: "ring_holds ?n (ring_buffer ?q1) p xs" using r(2) by simp
  obtain room1 out1 q2 room2 ring where
    f1: "(if ?w \<le> ?r then take_range room ?r ?n [] ?q1 else Some (room, [], ?q1)) = Some (room1, out1, q2)"
    and f2: "take_range room1 (if ?w \<le> ?r then 0 else ?r) ?w out1 q2 = Some (room2, take room xs, ?q1\<lparr>ring_buffer := ring\<rparr>)"
    and h2: "ring_holds ?n ring (p + ?m) (drop room xs)"
  proof (rule window_cases_pop [of "length xs" ?n p])
    assume c: "(p + length xs) mod ?n \<le> p mod ?n" "(p + length xs) mod ?n + ?n = p mod ?n + length xs" "p mod ?n < ?n"
    then have len: "length xs = ?n - ?r + ?w" unfolding idx by linarith
    have "min room (?n - ?r + ?w) = ?m" using len by simp
    moreover have "take ?m xs = take room xs" "drop ?m xs = drop room xs" by (simp_all add: min_def)
    moreover have "?w \<le> ?n" "?n - ?r \<le> length xs" "?w + (?n - ?r) \<le> length xs" using c len unfolding idx by auto
    moreover note take_window [OF h idx(1), of ?w room]
    ultimately show ?thesis using that c(1) r(6) unfolding idx(1,2) [symmetric] by (auto simp: len)
  next
    assume c: "p mod ?n < (p + length xs) mod ?n" "(p + length xs) mod ?n = p mod ?n + length xs" "(p + length xs) mod ?n < ?n"
    then have "\<not> ?w \<le> ?r" "?w - ?r = length xs" unfolding idx by linarith+
    moreover have "take ?m xs = take room xs" "drop ?m xs = drop room xs" by (simp_all add: min_def)
    ultimately show ?thesis
      using that take_range_holds [OF h _ idx(1), of ?w room "[]"] c(3) unfolding idx(2) [symmetric] by auto
  qed (use False r(9) in auto)
  let ?q' = "?q1\<lparr>ring_buffer := ring, pop_count := step_counter c (pop_count q0) (of_nat ?m)\<rparr>"
  have "queue_pop_range c room q = Some (take room xs, ?q')"
    using eq e f1 f2 unfolding queue_pop_range_def Let_def by (simp add: min.commute)
  moreover have "ring_rel c k ?q' (p + ?m) (drop room xs)"
  proof -
    have "unat (step_counter c (pop_count q0) (of_nat ?m)) = (p + ?m) mod counter_modulus c"
      by (rule step_counter_value [OF r(1,3)]) (use r(7,9) in simp)
    moreover have "shadows_ok c k ?q1 (p + ?m) (length xs - ?m)"
      by (rule shadows_ok_refreshed [OF r(5,4) _ r(9,7)]) simp
    moreover have "length xs - ?m = length (drop room xs)" by simp
    moreover have "p + ?m + length (drop room xs) = p + length xs" by simp
    ultimately show ?thesis using r(1,4) h2 by (simp add: ring_rel_def add.assoc del: length_drop)
  qed
  ultimately show ?thesis by blast
qed

lemma destroy_take:
  "destroy_range k rindex bound q = map_option (\<lambda>(room, out, q1). (room, q1)) (take_range k rindex bound out q)"
  by (induction k rindex bound q arbitrary: out rule: destroy_range.induct)
    (auto simp: slot_destroy_def split: Option.bind_splits)

lemma queue_pop_n_rel:
  assumes rel: "ring_rel c (k + min n (length xs)) q p xs"
    and shadow: "\<not> spsc_optimized c \<or> element_count_pow_two c \<and> k + min n (length xs) \<le> 2 ^ 32"
  shows "\<exists>q'. queue_pop_n c n q = Some (n - length xs, q') \<and>
    ring_rel c k q' (p + min n (length xs)) (drop n xs)"
proof -
  note r = ring_relD [OF rel]
  let ?N = "element_count c" and ?r = "ring_index c (pop_count q)" and ?m = "min n (length xs)"
  have idx: "?r = p mod ?N" using ring_index_mod [OF r(1,3)] .
  have rN: "?r < ?N" using r(6) idx by simp
  have same: "take ?m xs = take n xs" "drop ?m xs = drop n xs" by (simp_all add: min_def)
  obtain k1 q1 out ring where
    f1: "destroy_range ?m ?r ?N q = Some (k1, q1)" and f2: "destroy_range k1 0 k1 q1 = Some (0, q\<lparr>ring_buffer := ring\<rparr>)"
    and h: "ring_holds ?N ring (p + ?m) (drop n xs)"
  proof (cases "?m \<le> ?N - ?r")
    case True
    have "\<exists>ring. take_range ?m ?r (?r + ?m) [] q =
        Some (?m - (?r + ?m - ?r), [] @ take (min ?m (?r + ?m - ?r)) xs, q\<lparr>ring_buffer := ring\<rparr>) \<and>
        ring_holds ?N ring (p + min ?m (?r + ?m - ?r)) (drop (min ?m (?r + ?m - ?r)) xs)"
      by (rule take_range_holds [OF r(2)]) (use True rN idx in auto)
    then obtain ring where t: "take_range ?m ?r (?r + ?m) [] q = Some (0, take ?m xs, q\<lparr>ring_buffer := ring\<rparr>)"
      "ring_holds ?N ring (p + ?m) (drop ?m xs)" by auto
    have "take_range j i b out' q' = Some (0, out'', q'') \<Longrightarrow> b \<le> b' \<Longrightarrow> take_range j i b' out' q' = Some (0, out'', q'')"
      for j i b b' and out' out'' :: "'a list" and q' q''
      by (induction j i b out' q' rule: take_range.induct) (auto split: Option.bind_splits if_splits)
    from this [OF t(1)] True rN have "take_range ?m ?r ?N [] q = Some (0, take ?m xs, q\<lparr>ring_buffer := ring\<rparr>)" by simp
    then show ?thesis using that t(2) same(2) by (simp add: destroy_take [where out = "[]"])
  next
    case False
    let ?k = "?m - (?N - ?r)"
    have "?N - ?r \<le> length xs" "?k + (?N - ?r) \<le> length xs" "?k \<le> ?N" using False r(9) by auto
    from take_window [OF r(2) idx this r(6), of ?m] obtain ring1 ring where
      t: "take_range ?m ?r ?N [] q = Some (?k, take (min ?m (?N - ?r)) xs, q\<lparr>ring_buffer := ring1\<rparr>)"
        "take_range ?k 0 ?k (take (min ?m (?N - ?r)) xs) (q\<lparr>ring_buffer := ring1\<rparr>) =
          Some (?k - ?k, take (min ?m (?N - ?r + ?k)) xs, q\<lparr>ring_buffer := ring\<rparr>)"
        "ring_holds ?N ring (p + min ?m (?N - ?r + ?k)) (drop (min ?m (?N - ?r + ?k)) xs)" by blast
    have "destroy_range ?m ?r ?N q = Some (?k, q\<lparr>ring_buffer := ring1\<rparr>)"
      using t(1) destroy_take [of ?m ?r ?N q "[]"] by simp
    moreover have "destroy_range ?k 0 ?k (q\<lparr>ring_buffer := ring1\<rparr>) = Some (0, q\<lparr>ring_buffer := ring\<rparr>)"
      using t(2) destroy_take [of ?k 0 ?k "q\<lparr>ring_buffer := ring1\<rparr>" "take (min ?m (?N - ?r)) xs"] by simp
    moreover have "min ?m (?N - ?r + ?k) = ?m" using False by simp
    ultimately show ?thesis using that t(3) same(2) by simp
  qed
  let ?q' = "q\<lparr>ring_buffer := ring, pop_count := step_counter c (pop_count q) (of_nat ?m)\<rparr>"
  have "queue_pop_n c n q = Some (n - length xs, ?q')"
    using f1 f2 queue_size_rel [OF rel] by (simp add: queue_pop_n_def Let_def)
  moreover have "ring_rel c k ?q' (p + ?m) (drop n xs)"
  proof -
    have "unat (step_counter c (pop_count q) (of_nat ?m)) = (p + ?m) mod counter_modulus c"
      by (rule step_counter_value [OF r(1,3)]) (use r(7,9) in simp)
    moreover have "shadows_ok c k q (p + ?m) (length xs - ?m)"
      by (rule shadows_ok_pop [OF r(5) _ _ r(9,7)]) (use shadow in auto)
    moreover have "length xs - ?m = length (drop n xs)" "p + ?m + length (drop n xs) = p + length xs" by simp_all
    ultimately show ?thesis using r(1,4) h by (simp add: ring_rel_def add.assoc del: length_drop)
  qed
  ultimately show ?thesis by blast
qed

section \<open>Traversal and reset\<close>

definition ring_window :: "nat \<Rightarrow> nat \<Rightarrow> nat \<Rightarrow> nat list" where
  "ring_window n p len = map (\<lambda>i. (p + i) mod n) [0..<len]"

lemma ring_window_Suc: "ring_window n p (Suc len) = p mod n # ring_window n (Suc p) len"
  unfolding ring_window_def by (simp only: upt_conv_Cons map_Suc_upt [symmetric] list.map map_map o_def) simp

text \<open>The two runs of a traversal are the slots of the elements in order.\<close>

lemma runs_window:
  assumes "0 < len" "len \<le> n"
  shows "(if p mod n \<ge> (p + len) mod n then [p mod n..<n] else []) @
      [(if p mod n \<ge> (p + len) mod n then 0 else p mod n)..<(p + len) mod n] = ring_window n p len"
proof (rule window_cases_pop [OF assms, of p])
  assume c: "(p + len) mod n \<le> p mod n" "(p + len) mod n + n = p mod n + len" "p mod n < n"
  have "ring_window n p len = [p mod n..<n] @ [0..<(p + len) mod n]"
  proof (rule nth_equalityI)
    show "length (ring_window n p len) = length ([p mod n..<n] @ [0..<(p + len) mod n])"
      using c unfolding ring_window_def by simp
    fix i
    assume "i < length (ring_window n p len)"
    then have i: "i < len" by (simp add: ring_window_def)
    then have "(p + i) mod n = (if i < n - p mod n then p mod n + i else i - (n - p mod n))"
      using window_split [of i n p] assms c(3) by auto
    with i show "ring_window n p len ! i = ([p mod n..<n] @ [0..<(p + len) mod n]) ! i"
      using c by (auto simp: ring_window_def nth_append)
  qed
  with c(1) show ?thesis by simp
next
  assume c: "p mod n < (p + len) mod n" "(p + len) mod n = p mod n + len" "(p + len) mod n < n"
  have "ring_window n p len = [p mod n..<(p + len) mod n]"
  proof (rule nth_equalityI)
    fix i
    assume "i < length (ring_window n p len)"
    then have "i < len" by (simp add: ring_window_def)
    then show "ring_window n p len ! i = [p mod n..<(p + len) mod n] ! i"
      using c assms window_split(1) [of i n p] by (simp add: ring_window_def)
  qed (use c in \<open>simp add: ring_window_def\<close>)
  with c(1) show ?thesis by simp
qed

lemma read_range_append:
  "read_range (is @ js) q = do { a \<leftarrow> read_range is q; b \<leftarrow> read_range js q; Some (a @ b) }"
  by (induction "is" q rule: read_range.induct) (auto split: Option.bind_splits)

lemma read_range_window:
  "ring_holds n (ring_buffer q) p (xs @ ys) \<Longrightarrow> read_range (ring_window n p (length xs)) q = Some xs"
proof (induction xs arbitrary: ys rule: rev_induct)
  case Nil
  then show ?case by (simp add: ring_window_def)
next
  case (snoc x xs)
  from snoc.prems have len: "length xs < n" "length (ring_buffer q) = n" by (auto simp: ring_holds_def)
  then have "slot_read q ((p + length xs) mod n) = Some x"
    using holds_slot [OF snoc.prems, of "length xs"] by (simp add: slot_read_def nth_append)
  moreover have "read_range (ring_window n p (length xs)) q = Some xs"
    using snoc.IH [of "x # ys"] snoc.prems by simp
  ultimately show ?case by (simp add: ring_window_def read_range_append)
qed

lemma destruct_range_window:
  "ring_holds n (ring_buffer q) p xs \<Longrightarrow>
   \<exists>ring. destruct_range (ring_window n p (length xs)) q = Some (q\<lparr>ring_buffer := ring\<rparr>) \<and> ring_holds n ring (p + length xs) []"
proof (induction xs arbitrary: q p)
  case Nil
  then show ?case by (intro exI [of _ "ring_buffer q"]) (simp add: ring_window_def)
next
  case (Cons x xs)
  note pop = holds_pop [OF Cons.prems]
  let ?q = "q\<lparr>ring_buffer := (ring_buffer q)[p mod n := None]\<rparr>"
  have "slot_destroy q (p mod n) = Some ?q"
    using pop(2,3) Cons.prems by (simp add: slot_destroy_def slot_read_def ring_holds_def)
  moreover from Cons.IH [of ?q "Suc p"] pop(1) obtain ring where
    "destruct_range (ring_window n (Suc p) (length xs)) ?q = Some (q\<lparr>ring_buffer := ring\<rparr>)"
    "ring_holds n ring (Suc p + length xs) []" by auto
  ultimately show ?case by (intro exI [of _ ring]) (simp add: ring_window_Suc)
qed

lemma destruct_range_append:
  "destruct_range (is @ js) q = do { q1 \<leftarrow> destruct_range is q; destruct_range js q1 }"
  by (induction "is" q rule: destruct_range.induct) (auto split: Option.bind_splits)

lemma queue_for_each_rel:
  assumes rel: "ring_rel c k q p xs"
  shows "\<exists>q'. queue_for_each c q = Some (xs, q') \<and> ring_rel c k q' p xs"
proof -
  obtain e q1 where eq: "queue_empty c q = (e, q1)" by force
  with queue_empty_rel [OF rel] have e: "e \<longleftrightarrow> xs = []" and rel1: "ring_rel c k q1 p xs" by auto
  note r = ring_relD [OF rel1]
  have idx: "ring_index c (pop_count q1) = p mod element_count c"
    "ring_index c (push_count q1) = (p + length xs) mod element_count c"
    using ring_index_mod [OF r(1)] r(3,4) by auto
  show ?thesis
  proof (cases "xs = []")
    case True
    then show ?thesis using eq e rel1 by (simp add: queue_for_each_def)
  next
    case False
    then have "queue_for_each c q = do { es \<leftarrow> read_range (ring_window (element_count c) p (length xs)) q1; Some (es, q1) }"
      using eq e r(9) runs_window [of "length xs" "element_count c" p, symmetric]
      by (simp add: queue_for_each_def idx read_range_append)
    then show ?thesis using read_range_window [of "element_count c" q1 p xs "[]"] r(2) rel1 by simp
  qed
qed

lemma queue_for_each_runs_rel:
  assumes rel: "ring_rel c k q p xs"
  shows "concat (map (\<lambda>(i, n). [i..<i + n]) (fst (queue_for_each_runs c q))) = ring_window (element_count c) p (length xs)"
proof -
  obtain e q1 where eq: "queue_empty c q = (e, q1)" by force
  with queue_empty_rel [OF rel] have e: "e \<longleftrightarrow> xs = []" and rel1: "ring_rel c k q1 p xs" by auto
  note r = ring_relD [OF rel1]
  have idx: "ring_index c (pop_count q1) = p mod element_count c"
    "ring_index c (push_count q1) = (p + length xs) mod element_count c"
    using ring_index_mod [OF r(1)] r(3,4) by auto
  have lt: "p mod element_count c < element_count c" using r(6) by simp
  show ?thesis
  proof (cases "xs = []")
    case True
    then show ?thesis using eq e by (simp add: queue_for_each_runs_def ring_window_def)
  next
    case False
    then show ?thesis
      using eq e r(9) runs_window [of "length xs" "element_count c" p, symmetric] lt
      by (auto simp: queue_for_each_runs_def idx Let_def)
  qed
qed

lemma destroy_all_rel:
  assumes rel: "ring_rel c k q p xs"
  shows "\<exists>q'. destroy_all c q = Some q' \<and> ring_holds (element_count c) (ring_buffer q') (p + length xs) [] \<and> params_ok c"
proof -
  obtain e q1 where eq: "queue_empty c q = (e, q1)" by force
  with queue_empty_rel [OF rel] have e: "e \<longleftrightarrow> xs = []" and rel1: "ring_rel c k q1 p xs" by auto
  note r = ring_relD [OF rel1]
  have idx: "ring_index c (pop_count q1) = p mod element_count c"
    "ring_index c (push_count q1) = (p + length xs) mod element_count c"
    using ring_index_mod [OF r(1)] r(3,4) by auto
  show ?thesis
  proof (cases "xs = []")
    case True
    then show ?thesis using eq e r(1,2) by (simp add: destroy_all_def)
  next
    case False
    then have "destroy_all c q = destruct_range (ring_window (element_count c) p (length xs)) q1"
      using eq e r(9) runs_window [of "length xs" "element_count c" p] by (simp add: destroy_all_def idx)
    then show ?thesis using destruct_range_window [OF r(2)] r(1) by auto
  qed
qed

lemma holds_nothing: "0 < n \<Longrightarrow> ring_holds n ring p [] \<longleftrightarrow> ring = replicate n None"
proof
  assume n: "0 < n" and h: "ring_holds n ring p []"
  have "ring ! i = None" if "i < n" for i
  proof -
    let ?j = "(i + n - p mod n) mod n"
    have "p mod n < n" using n by simp
    then have "(p + ?j) mod n = (p mod n + (i + n - p mod n)) mod n" by (metis mod_add_eq mod_mod_trivial)
    also have "p mod n + (i + n - p mod n) = i + n" using \<open>p mod n < n\<close> by linarith
    also have "(i + n) mod n = i" using that by simp
    finally show ?thesis using h n by (metis (no_types, lifting) list.size(3) mod_less_divisor not_less_zero ring_holds_def)
  qed
  then show "ring = replicate n None" using h by (auto simp: ring_holds_def intro: nth_equalityI)
qed (auto simp: ring_holds_def)

lemma queue_reset_rel:
  assumes rel: "ring_rel c k q p xs" and "unat init < counter_modulus c"
  shows "\<exists>q'. queue_reset c init q = Some q' \<and> ring_rel c k' q' (unat init) []"
proof -
  note r = ring_relD [OF rel]
  from destroy_all_rel [OF rel] obtain q1 where q1: "destroy_all c q = Some q1"
    "ring_holds (element_count c) (ring_buffer q1) (p + length xs) []" by blast
  have "ring_buffer q \<noteq> []" using r(6,8) by auto
  then have "queue_reset c init q = Some (shadow_init c init q1\<lparr>push_count := init, pop_count := init\<rparr>)"
    using q1(1) by (simp add: queue_reset_def)
  moreover have "ring_holds (element_count c) (ring_buffer q1) (unat init) []"
    using q1(2) r(6) by (simp add: holds_nothing)
  ultimately show ?thesis
    using assms(2) r(1)
    by (auto simp: ring_rel_def shadow_init_def shadows_ok_def set_push_shadow_def set_pop_shadow_def
        intro!: shadow_betweenI [of _ "unat init"])
qed

lemma queue_destruct_rel:
  assumes rel: "ring_rel c k q p xs"
  shows "queue_destruct c q = Some (replicate (element_count c) None)"
proof -
  note r = ring_relD [OF rel]
  from destroy_all_rel [OF rel] r(6) obtain q1 where "destroy_all c q = Some q1"
    "ring_buffer q1 = replicate (element_count c) None" by (auto simp: holds_nothing)
  moreover have "ring_buffer q \<noteq> []" using r(6,8) by auto
  ultimately show ?thesis by (simp add: queue_destruct_def)
qed

section \<open>Iterators\<close>

lemma iterator_rel:
  assumes rel: "ring_rel c k q p xs" and i: "i \<le> length xs"
  shows "unat (iterator_advance c (iterator_begin q) (of_nat i)) = (p + i) mod counter_modulus c"
    "i < length xs \<Longrightarrow> iterator_deref c q (iterator_advance c (iterator_begin q) (of_nat i)) = Some (xs ! i)"
    "iterator_advance c (iterator_begin q) (of_nat i) = iterator_end q \<longleftrightarrow> i = length xs"
    "unat (iterator_distance c (iterator_end q) (iterator_begin q)) = length xs"
proof -
  note r = ring_relD [OF rel]
  show at: "unat (iterator_advance c (iterator_begin q) (of_nat i)) = (p + i) mod counter_modulus c"
    unfolding iterator_advance_def iterator_begin_def
    by (rule step_counter_value [OF r(1,3)]) (use i r(7,9) in simp)
  show "iterator_deref c q (iterator_advance c (iterator_begin q) (of_nat i)) = Some (xs ! i)" if "i < length xs"
    using holds_slot [OF r(2) that] r(6,8) ring_index_mod [OF r(1) at]
    by (simp add: iterator_deref_def slot_read_def)
  show "iterator_advance c (iterator_begin q) (of_nat i) = iterator_end q \<longleftrightarrow> i = length xs"
    using at r(4,7,9) i window_inj [of i "counter_modulus c" "length xs" p] modulus_bounds(1) [OF r(1)]
    by (auto simp: iterator_end_def word_unat_eq_iff)
  show "unat (iterator_distance c (iterator_end q) (iterator_begin q)) = length xs"
    using queue_size_rel [OF rel] by (simp add: queue_size_def iterator_distance_def iterator_end_def iterator_begin_def)
qed

section \<open>Overwriting in place\<close>

text \<open>What \<open>copy\<close> does to the elements: those from index \<open>i\<close> on are replaced while both last.\<close>

fun overwrite :: "nat \<Rightarrow> 'a list \<Rightarrow> 'a list \<Rightarrow> 'a list" where
  "overwrite i [] xs = xs"
| "overwrite i (y # ys) xs = (if i < length xs then overwrite (Suc i) ys (xs[i := y]) else xs)"

lemma length_overwrite [simp]: "length (overwrite i ys xs) = length xs"
  by (induction i ys xs rule: overwrite.induct) auto

lemma overwrite_append: "overwrite i (ys @ zs) xs = overwrite (i + length ys) zs (overwrite i ys xs)"
proof (induction i ys xs rule: overwrite.induct)
  case (2 i y ys xs)
  then show ?case by (cases zs) auto
qed simp

lemma overwrite_take: "overwrite i (take (length xs - i) ys) xs = overwrite i ys xs"
proof (induction i ys xs rule: overwrite.induct)
  case (2 i y ys xs)
  then show ?case by (cases "i < length xs") (auto simp: Suc_diff_Suc [symmetric])
qed simp

lemma assign_range_holds:
  assumes "ring_holds n (ring_buffer q) p xs"
    and "windex < bound \<Longrightarrow> windex = (p + i) mod n" and "i + (bound - windex) \<le> length xs" and "bound \<le> n"
  shows "\<exists>ring. assign_range from windex bound q = Some (drop (bound - windex) from, q\<lparr>ring_buffer := ring\<rparr>) \<and>
    ring_holds n ring p (overwrite i (take (bound - windex) from) xs)"
  using assms
proof (induction "from" windex bound q arbitrary: xs i rule: assign_range.induct)
  case (1 windex bound q)
  then show ?case by (intro exI [of _ "ring_buffer q"]) simp
next
  case (2 x "from" windex bound q)
  show ?case
  proof (cases "windex < bound")
    case False
    with 2 show ?thesis by (intro exI [of _ "ring_buffer q"]) simp
  next
    case True
    let ?q = "q\<lparr>ring_buffer := (ring_buffer q)[windex := Some x]\<rparr>"
    have w: "windex = (p + i) mod n" and i: "i < length xs" using 2 True by auto
    have "slot_read q windex \<noteq> None"
      using holds_slot [OF "2.prems"(1) i] w True "2.prems"(1,4) by (simp add: slot_read_def ring_holds_def)
    then have new: "slot_assign q windex x = Some ?q"
      using "2.prems"(1,4) True by (simp add: slot_assign_def slot_new_def ring_holds_def)
    have step: "ring_holds n (ring_buffer ?q) p (xs[i := x])" using holds_set [OF "2.prems"(1) i, of x] w by simp
    have "\<exists>ring. assign_range from (windex + 1) bound ?q = Some (drop (bound - (windex + 1)) from, ?q\<lparr>ring_buffer := ring\<rparr>) \<and>
        ring_holds n ring p (overwrite (Suc i) (take (bound - (windex + 1)) from) (xs[i := x]))"
      by (rule "2.IH" [OF True new step])
        (use "2.prems"(3,4) True w i mod_Suc_below [of windex n "p + i"] in auto)
    moreover have "bound - windex = Suc (bound - (windex + 1))" using True by simp
    ultimately show ?thesis using True new i by simp
  qed
qed

lemma queue_copy_rel:
  assumes rel: "ring_rel c k q p xs" and i: "i < length xs" and off: "unat offset = (p + i) mod counter_modulus c"
  shows "\<exists>q'. queue_copy c from offset q = Some (drop (length xs - i) from, q') \<and> ring_rel c k q' p (overwrite i from xs)"
proof -
  note r = ring_relD [OF rel]
  let ?n = "element_count c" and ?w = "ring_index c offset" and ?r = "ring_index c (push_count q)"
  have idx: "?w = (p + i) mod ?n" "?r = (p + length xs) mod ?n" using ring_index_mod [OF r(1)] off r(4) by auto
  have len: "0 < length xs - i" "length xs - i \<le> ?n" using i r(9) by auto
  have idx': "?r = (p + i + (length xs - i)) mod ?n" using idx(2) i by simp
  obtain from1 ring1 ring where
    f: "(if ?r \<le> ?w then assign_range from ?w ?n q else Some (from, q)) = Some (from1, q\<lparr>ring_buffer := ring1\<rparr>)"
    "assign_range from1 (if ?r \<le> ?w then 0 else ?w) ?r (q\<lparr>ring_buffer := ring1\<rparr>) = Some (drop (length xs - i) from, q\<lparr>ring_buffer := ring\<rparr>)"
    and h: "ring_holds ?n ring p (overwrite i from xs)"
  proof (rule window_cases_pop [OF len, of "p + i"])
    assume "(p + i + (length xs - i)) mod ?n \<le> (p + i) mod ?n"
      "(p + i + (length xs - i)) mod ?n + ?n = (p + i) mod ?n + (length xs - i)" "(p + i) mod ?n < ?n"
    then have c: "?r \<le> ?w" "?r + ?n = ?w + (length xs - i)" "?w < ?n" unfolding idx(1) idx' by (simp_all only:)
    have "i + (?n - ?w) \<le> length xs" using c i by simp
    from assign_range_holds [OF r(2) idx(1) this le_refl, of "from"] obtain ring1 where
      a1: "assign_range from ?w ?n q = Some (drop (?n - ?w) from, q\<lparr>ring_buffer := ring1\<rparr>)"
      "ring_holds ?n ring1 p (overwrite i (take (?n - ?w) from) xs)" by blast
    let ?xs = "overwrite i (take (?n - ?w) from) xs" and ?i = "i + (?n - ?w)"
    have "(p + ?i) mod ?n = ((p + i) mod ?n + (?n - ?w)) mod ?n" unfolding add.assoc [symmetric] by (simp only: mod_add_left_eq)
    also have "\<dots> = 0" unfolding idx(1) [symmetric] using c(3) by simp
    finally have z: "(p + ?i) mod ?n = 0" .
    have "\<exists>ring. assign_range (drop (?n - ?w) from) 0 ?r (q\<lparr>ring_buffer := ring1\<rparr>) =
          Some (drop (?r - 0) (drop (?n - ?w) from), q\<lparr>ring_buffer := ring1, ring_buffer := ring\<rparr>) \<and>
        ring_holds ?n ring p (overwrite ?i (take (?r - 0) (drop (?n - ?w) from)) ?xs)"
      by (rule assign_range_holds) (use a1(2) z c in auto)
    then obtain ring where
      a2: "assign_range (drop (?n - ?w) from) 0 ?r (q\<lparr>ring_buffer := ring1\<rparr>) = Some (drop (?r + (?n - ?w)) from, q\<lparr>ring_buffer := ring\<rparr>)"
      "ring_holds ?n ring p (overwrite ?i (take ?r (drop (?n - ?w) from)) ?xs)" by auto
    have tot: "length xs - i = (?n - ?w) + ?r" using c by simp
    have "overwrite ?i (take ?r (drop (?n - ?w) from)) ?xs = overwrite i (take (?n - ?w + ?r) from) xs"
    proof (cases "length from \<le> ?n - ?w")
      case False
      then have "length (take (?n - ?w) from) = ?n - ?w" by simp
      then show ?thesis unfolding take_add overwrite_append by simp
    qed simp
    also have "\<dots> = overwrite i from xs" using overwrite_take [of i xs "from"] unfolding tot .
    finally show ?thesis
      using that [of "drop (?n - ?w) from" ring1 ring] a1(1) a2 c(1) tot by (simp add: add.commute)
  next
    assume "(p + i) mod ?n < (p + i + (length xs - i)) mod ?n"
      "(p + i + (length xs - i)) mod ?n = (p + i) mod ?n + (length xs - i)" "(p + i + (length xs - i)) mod ?n < ?n"
    then have c: "\<not> ?r \<le> ?w" "?r - ?w = length xs - i" "?r \<le> ?n" unfolding idx(1) idx' by linarith+
    have "i + (?r - ?w) \<le> length xs" using c i by simp
    from assign_range_holds [OF r(2) idx(1) this c(3), of "from"] show ?thesis
      using that [of "from" "ring_buffer q"] c(1) overwrite_take [of i xs "from"] unfolding c(2) by auto
  qed
  have "queue_copy c from offset q = Some (drop (length xs - i) from, q\<lparr>ring_buffer := ring\<rparr>)"
    using f by (simp add: queue_copy_def Let_def)
  moreover have "ring_rel c k (q\<lparr>ring_buffer := ring\<rparr>) p (overwrite i from xs)"
    using r(1,3,4,5) h by (simp add: ring_rel_def)
  ultimately show ?thesis by blast
qed

section \<open>The contract of a bounded-lifetime queue\<close>

text \<open>
  What the clients of a queue rely on: an element is accepted exactly when there is room and is then appended, and a take delivers
  the oldest element or reports that there is none. \<open>rel k\<close> allows \<open>k\<close> further takes.
\<close>

datatype 'a queue_request = Push 'a | Take

fun run_queue :: "('a \<Rightarrow> 'q \<Rightarrow> (bool \<times> 'q) option) \<Rightarrow> ('q \<Rightarrow> ('a option \<times> 'q) option) \<Rightarrow> 'q \<Rightarrow> 'a queue_request list \<Rightarrow>
    ('a list \<times> 'a list \<times> 'q) option" where
  "run_queue push deliver q [] = Some ([], [], q)"
| "run_queue push deliver q (Push t # es) = do {
     (ok, q1) \<leftarrow> push t q;
     (acc, del, q2) \<leftarrow> run_queue push deliver q1 es;
     Some (if ok then t # acc else acc, del, q2)
   }"
| "run_queue push deliver q (Take # es) = do {
     (x, q1) \<leftarrow> deliver q;
     (acc, del, q2) \<leftarrow> run_queue push deliver q1 es;
     Some (acc, (case x of None \<Rightarrow> del | Some e \<Rightarrow> e # del), q2)
   }"

text \<open>The same requests on a list; \<open>room\<close> says which queues accept one more element. What is returned was accepted, delivered and left.\<close>

fun fifo_run :: "('a list \<Rightarrow> bool) \<Rightarrow> 'a list \<Rightarrow> 'a queue_request list \<Rightarrow> 'a list \<times> 'a list \<times> 'a list" where
  "fifo_run room xs [] = ([], [], xs)"
| "fifo_run room xs (Push t # es) =
     (if room xs then let (acc, del, rest) = fifo_run room (xs @ [t]) es in (t # acc, del, rest) else fifo_run room xs es)"
| "fifo_run room xs (Take # es) =
     (case xs of
        [] \<Rightarrow> fifo_run room [] es
      | x # ys \<Rightarrow> let (acc, del, rest) = fifo_run room ys es in (acc, x # del, rest))"

lemma fifo_run_order: "fifo_run room xs es = (acc, del, rest) \<Longrightarrow> xs @ acc = del @ rest"
  by (induction room xs es arbitrary: acc del rest rule: fifo_run.induct) (auto split: if_splits prod.splits list.splits)

locale fifo_queue =
  fixes rel :: "nat \<Rightarrow> 'q \<Rightarrow> 'a list \<Rightarrow> bool"
    and room :: "'a list \<Rightarrow> bool"
    and push :: "'a \<Rightarrow> 'q \<Rightarrow> (bool \<times> 'q) option"
    and deliver :: "'q \<Rightarrow> ('a option \<times> 'q) option"
  assumes push_law: "rel k q xs \<Longrightarrow> \<exists>q'. push t q = Some (room xs, q') \<and> rel k q' (if room xs then xs @ [t] else xs)"
    and take_empty: "rel (Suc k) q [] \<Longrightarrow> \<exists>q'. deliver q = Some (None, q') \<and> rel k q' []"
    and take_law: "rel (Suc k) q (x # xs) \<Longrightarrow> \<exists>q'. deliver q = Some (Some x, q') \<and> rel k q' xs"
    and rel_weaken: "rel (Suc k) q xs \<Longrightarrow> rel k q xs"
begin

text \<open>Every run is defined and does what the list does.\<close>

lemma run_fifo:
  "rel (k + length es) q xs \<Longrightarrow>
   \<exists>acc del q' rest. run_queue push deliver q es = Some (acc, del, q') \<and> fifo_run room xs es = (acc, del, rest) \<and> rel k q' rest"
proof (induction es arbitrary: q xs)
  case Nil
  then show ?case by auto
next
  case (Cons e es)
  then have rel: "rel (Suc (k + length es)) q xs" by simp
  show ?case
  proof (cases e)
    case (Push t)
    from push_law [OF rel_weaken [OF rel], of t] obtain q1 where
      q1: "push t q = Some (room xs, q1)" "rel (k + length es) q1 (if room xs then xs @ [t] else xs)" by blast
    from Cons.IH [OF q1(2)] Push q1(1) show ?thesis by (auto split: if_splits)
  next
    case Take
    show ?thesis
    proof (cases xs)
      case Nil
      with take_empty rel obtain q1 where q1: "deliver q = Some (None, q1)" "rel (k + length es) q1 []" by blast
      from Cons.IH [OF q1(2)] Take q1(1) Nil show ?thesis by auto
    next
      case (Cons x ys)
      with take_law rel obtain q1 where q1: "deliver q = Some (Some x, q1)" "rel (k + length es) q1 ys" by blast
      from Cons.IH [OF q1(2)] Take q1(1) Cons show ?thesis by auto
    qed
  qed
qed

end

text \<open>The ring's producer and consumer: a push, and the check, read and pop of one element.\<close>

definition ring_push :: "queue_params_t \<Rightarrow> 'a \<Rightarrow> 'a iris_queue_t \<Rightarrow> (bool \<times> 'a iris_queue_t) option" where
  "ring_push c t q = do { (slot, q1) \<leftarrow> queue_push c t q; Some (slot \<noteq> None, q1) }"

definition ring_take :: "queue_params_t \<Rightarrow> 'a iris_queue_t \<Rightarrow> ('a option \<times> 'a iris_queue_t) option" where
  "ring_take c q =
     (let (e, q1) = queue_empty c q in
      if e then Some (None, q1)
      else do { x \<leftarrow> queue_top c q1; q2 \<leftarrow> queue_pop c q1; Some (Some x, q2) })"

lemma ring_rel_weaken: "ring_rel c (Suc k) q p xs \<Longrightarrow> ring_rel c k q p xs"
  using ring_relD(7,9) [of c "Suc k" q p xs] shadows_ok_mono [of c "Suc k" q p "length xs" k] by (auto simp: ring_rel_def)

interpretation ring: fifo_queue "\<lambda>k q xs. \<exists>p. ring_rel c k q p xs" "\<lambda>xs. length xs < element_count c" "ring_push c" "ring_take c" for c
proof (unfold_locales, goal_cases)
  case (1 k q xs t)
  then obtain p where rel: "ring_rel c k q p xs" by blast
  from queue_push_rel [OF rel, of t] obtain q' where
    "queue_push c t q = Some (if length xs < element_count c then Some ((p + length xs) mod element_count c) else None, q')"
    "ring_rel c k q' p (if length xs < element_count c then xs @ [t] else xs)" by blast
  then show ?case by (auto simp: ring_push_def split: if_splits)
next
  case (2 k q)
  then obtain p where rel: "ring_rel c (Suc k) q p []" by blast
  from queue_empty_rel(1) [OF rel] ring_rel_weaken [OF queue_empty_rel(2) [OF rel]] show ?case
    by (auto simp: ring_take_def split: prod.splits)
next
  case (3 k q x xs)
  then obtain p where rel: "ring_rel c (Suc k) q p (x # xs)" by blast
  obtain e q1 where eq: "queue_empty c q = (e, q1)" by force
  with queue_empty_rel [OF rel] have e: "\<not> e" and rel1: "ring_rel c (Suc k) q1 p (x # xs)"
    and checked: "ring_checked c q1 p (Suc (length xs))" by auto
  from queue_pop_rel [OF rel1 checked] queue_top_rel [OF rel1] eq e show ?case by (auto simp: ring_take_def)
next
  case (4 k q xs)
  then show ?case using ring_rel_weaken by blast
qed

section \<open>Properties\<close>



text \<open>
  Bulk transfer: \<open>push(from, to)\<close> and its streaming variant append as much of the
  input as there is room for and return the rest, and \<open>pop(from, to)\<close> moves out the
  oldest elements, as many as there are up to the room of the output, wherever the
  contents wrap around the end of the ring.
\<close>

theorem ring_bulk_transfer:
  assumes "ring_rel c (k + min room (length xs)) q p xs" and "k + min room (length xs) \<le> 2 ^ 32"
  shows "(\<exists>q'. queue_push_range c from q = Some (drop (element_count c - length xs) from, q') \<and>
      ring_rel c (k + min room (length xs)) q' p (xs @ take (element_count c - length xs) from)) \<and>
    (\<exists>q'. queue_push_stream c trivial esize from q = Some (drop (element_count c - length xs) from, q') \<and>
      ring_rel c (k + min room (length xs)) q' p (xs @ take (element_count c - length xs) from)) \<and>
    (\<exists>q'. queue_pop_range c room q = Some (take room xs, q') \<and>
      ring_rel c k q' (p + min room (length xs)) (drop room xs))"
  using queue_push_range_rel [OF assms] queue_push_stream_rel [OF assms] queue_pop_range_rel [OF assms(1)] by blast

theorem ring_bulk_transfer_witness:
  "\<exists>q'. queue_push_range \<lparr>element_count = 2, spsc_optimized = True\<rparr> [1, 2, 3 :: nat]
      (queue_make \<lparr>element_count = 2, spsc_optimized = True\<rparr> 5) = Some ([3], q')"
proof -
  let ?c = "\<lparr>element_count = 2, spsc_optimized = True\<rparr>"
  have ok: "params_ok ?c" by (simp add: params_ok_def)
  have "(5 :: nat) < 2 ^ 63 + 2 ^ 33" by simp
  then have "unat (5 :: size_t) < counter_modulus ?c"
    using less_le_trans [OF _ modulus_bounds(1) [OF ok]] by simp
  from ring_rel_make [OF ok this, of 0]
  have "ring_rel ?c (0 + min 0 (length ([] :: nat list))) (queue_make ?c 5) (unat (5 :: size_t)) ([] :: nat list)" by simp
  from ring_bulk_transfer [OF this, of "[1, 2, 3]"] show ?thesis by auto
qed

text \<open>
  Destruction: whatever a ring holds, its destructor and \<open>reset\<close> destroy every element
  exactly once and leave no slot alive, and after \<open>reset\<close> the ring is an empty queue
  at the new counter.
\<close>

theorem ring_destroys_all:
  assumes "ring_rel c k q p xs" and "unat init < counter_modulus c"
  shows "queue_destruct c q = Some (replicate (element_count c) None) \<and>
    (\<exists>q'. queue_reset c init q = Some q' \<and> ring_rel c k' q' (unat init) [])"
  using queue_destruct_rel [OF assms(1)] queue_reset_rel [OF assms] by blast

theorem ring_destroys_all_witness:
  "queue_destruct \<lparr>element_count = 2, spsc_optimized = True\<rparr>
     (queue_make \<lparr>element_count = 2, spsc_optimized = True\<rparr> 5 :: nat iris_queue_t) = Some [None, None]"
proof -
  let ?c = "\<lparr>element_count = 2, spsc_optimized = True\<rparr>"
  have ok: "params_ok ?c" by (simp add: params_ok_def)
  have "(5 :: nat) < 2 ^ 63 + 2 ^ 33" by simp
  then have lt: "unat (5 :: size_t) < counter_modulus ?c"
    using less_le_trans [OF _ modulus_bounds(1) [OF ok]] by simp
  from ring_rel_make [OF ok this, of 0] have "ring_rel ?c 0 (queue_make ?c 5) (unat (5 :: size_t)) ([] :: nat list)" by simp
  from ring_destroys_all [OF this lt, of 0] show ?thesis by (simp add: numeral_2_eq_2)
qed

section \<open>Where the code departs from its intent\<close>

text \<open>
  Move assignment sets the producer's shadow of the pop counter to the push counter: the
  shadow is ahead of what it observes, and the next push on a full ring destroys nothing,
  reports success and overwrites the oldest element.
\<close>

lemma move_assign_loses_full:
  "let c = \<lparr>element_count = 2, spsc_optimized = True\<rparr>;
       full = \<lparr>push_count = 2, pop_count = 0, push_cached_pop = 0, pop_cached_push = 0, ring_buffer = [Some ''a'', Some ''b'']\<rparr>;
       (q, _) = queue_move_assign c (queue_make c 0) full
   in queue_full c full \<and> queue_full c q \<and> map_option fst (queue_push c ''x'' full) = Some None \<and>
      map_option (\<lambda>(r, q'). (r, ring_buffer q', queue_size c q')) (queue_push c ''x'' q) =
        Some (Some 0, [Some ''x'', Some ''b''], 3)"
  by code_simp

text \<open>
  Where the element count is not a power of two, \<open>diff_counter\<close> overflows once the counters
  differ backwards across the limit. A ring of three slots whose only element is dropped by
  \<open>pop(1)\<close> at the limit then reports that it is not empty.
\<close>

lemma three_slots:
  fixes c :: queue_params_t
  assumes "c = \<lparr>element_count = 3, spsc_optimized = True\<rparr>"
  shows "\<not> element_count_pow_two c" "counter_limit c = 13835058055282163712" "element_count c = 3" "spsc_optimized c"
proof -
  have "iris_log2 3 = 1" by (simp add: iris_log2.simps)
  then show "\<not> element_count_pow_two c" "counter_limit c = 13835058055282163712" "element_count c = 3" "spsc_optimized c"
    by (simp_all add: assms element_count_pow_two_def counter_limit_def)
qed

lemma empty_wrong_at_limit:
  assumes c: "c = \<lparr>element_count = 3, spsc_optimized = True\<rparr>"
  shows "\<exists>q1 q2. queue_push c ''a'' (queue_make c (counter_limit c - 1)) = Some (Some 2, q1) \<and>
    queue_pop_n c 1 q1 = Some (0, q2) \<and>
    queue_size c q2 = 0 \<and> ring_buffer q2 = [None, None, None] \<and> \<not> fst (queue_empty c q2)"
proof -
  note t = three_slots [OF c]
  let ?q = "\<lambda>a b r. \<lparr>push_count = a, pop_count = b, push_cached_pop = 13835058055282163711,
    pop_cached_push = 13835058055282163711, ring_buffer = r :: string option list\<rparr>"
  have "queue_make c (counter_limit c - 1) = ?q 13835058055282163711 13835058055282163711 [None, None, None]"
    by (simp add: queue_make_def t numeral_3_eq_3)
  moreover have "queue_push c ''a'' (?q 13835058055282163711 13835058055282163711 [None, None, None]) =
      Some (Some 2, ?q 0 13835058055282163711 [None, None, Some ''a''])"
    by (simp add: queue_push_def maybe_full_def diff_counter_def step_counter_def t ring_index_def slot_new_def Let_def)
  moreover have "queue_pop_n c 1 (?q 0 13835058055282163711 [None, None, Some ''a'']) = Some (0, ?q 0 0 [None, None, None])"
    by (simp add: queue_pop_n_def queue_size_def diff_counter_def step_counter_def t ring_index_def slot_destroy_def slot_read_def Let_def)
  moreover have "queue_size c (?q 0 0 [None, None, None]) = 0" "\<not> fst (queue_empty c (?q 0 0 [None, None, None]))"
    by (simp_all add: queue_size_def queue_empty_def maybe_empty_def diff_counter_def t Let_def)
  ultimately show ?thesis
    by (intro exI [of _ "?q 0 13835058055282163711 [None, None, Some ''a'']"] exI [of _ "?q 0 0 [None, None, None]"]) simp
qed

text \<open>
  \<open>allocate\<close> reserves the padding but returns the first slot of it, so the run it hands out
  is not aligned; the padding itself is computed from the lowest set bit of the index
  and too large for an index such as 3.
\<close>

lemma align_pad_values: "align_pad (Suc 0) 2 = 1" "align_pad 3 4 = 3"
  by (simp_all add: align_pad_def iris_get_alignment_def)

lemma allocate_unaligned:
  "let c = \<lparr>element_count = 8, spsc_optimized = False\<rparr>
   in map_option fst (queue_allocate c 0 2 2 (queue_make c 1 :: nat iris_queue_t)) = Some (Some 1) \<and>
      align_pad 3 4 = 3"
proof -
  let ?c = "\<lparr>element_count = 8, spsc_optimized = False\<rparr>"
  have "iris_log2 8 = 3" by (simp add: iris_log2.simps)
  then have "element_count_pow_two ?c" by (simp add: element_count_pow_two_def)
  then have "queue_size ?c (queue_make ?c 1 :: nat iris_queue_t) = 0"
    by (simp add: queue_size_def queue_make_def diff_counter_def)
  moreover have "ring_index ?c (push_count (queue_make ?c 1 :: nat iris_queue_t)) = 1"
    by (simp add: ring_index_def queue_make_def)
  ultimately show ?thesis
    by (simp add: queue_allocate_def align_pad_values slot_new_def queue_make_def upt_rec Let_def)
qed

text \<open>The postfix increment of the iterators does not move the iterator.\<close>

lemma postincrement_stays: "snd (iterator_postincrement c it) = it"
  by (simp add: iterator_postincrement_def)

end
