(* ===== verification/Queue_List.thy ===== *)
theory Queue_List
  imports Ring_Queue
begin

text \<open>
  The chained queue \<open>iris_queue_list_t\<close> of \<open>iris_common.h\<close>, which every task queue of the
  dispatcher uses: a list of rings, filled at \<open>push_head\<close> and emptied at \<open>pop_head\<close>; and the
  resource pool \<open>iris_pool_t\<close> on top of it.

  The chain is the list of nodes from \<open>pop_head\<close> to \<open>push_head\<close>, followed by the nodes that
  \<open>reset\<close> keeps in reserve behind \<open>push_head\<close>. A node that no pointer reaches any more
  without having been destroyed is recorded in the ghost field \<open>leaked\<close>. The pointer to a
  moved-from list's nodes is null, here the empty list; using it is undefined. \<open>fence\<close> is the
  template parameter \<open>enable_memory_fence\<close>.
\<close>

section \<open>State and operations\<close>

record 'a queue_list_t =
  nodes :: "'a iris_queue_t list"
  spare :: "'a iris_queue_t list"
  iterator_counter :: size_t
  leaked :: "'a iris_queue_t list"

definition list_make :: "queue_params_t \<Rightarrow> 'a queue_list_t" where
  "list_make c = \<lparr>nodes = [queue_make c 0], spare = [], iterator_counter = of_nat (element_count c), leaked = []\<rparr>"

definition list_move_construct :: "'a queue_list_t \<Rightarrow> 'a queue_list_t \<times> 'a queue_list_t" where
  "list_move_construct rhs = (rhs, rhs\<lparr>nodes := [], spare := []\<rparr>)"

definition list_move_assign :: "'a queue_list_t \<Rightarrow> 'a queue_list_t \<Rightarrow> 'a queue_list_t \<times> 'a queue_list_t" where
  "list_move_assign this rhs = (rhs, this)"

text \<open>The last node is \<open>push_head\<close>; chaining a new node behind it drops what it pointed to.\<close>

definition chain_node :: "queue_params_t \<Rightarrow> 'a iris_queue_t \<Rightarrow> 'a queue_list_t \<Rightarrow> 'a queue_list_t" where
  "chain_node c p l =
     l\<lparr>nodes := nodes l @ [p], spare := [], leaked := leaked l @ spare l,
       iterator_counter := step_counter c (iterator_counter l) (of_nat (element_count c))\<rparr>"

definition set_push_head :: "'a iris_queue_t \<Rightarrow> 'a queue_list_t \<Rightarrow> 'a queue_list_t" where
  "set_push_head q l = l\<lparr>nodes := butlast (nodes l) @ [q]\<rparr>"

definition set_pop_head :: "'a iris_queue_t \<Rightarrow> 'a queue_list_t \<Rightarrow> 'a queue_list_t" where
  "set_pop_head q l = l\<lparr>nodes := q # tl (nodes l)\<rparr>"

definition list_push :: "queue_params_t \<Rightarrow> 'a \<Rightarrow> 'a queue_list_t \<Rightarrow> 'a queue_list_t option" where
  "list_push c t l =
     (if nodes l = [] then None
      else do {
        (w, q) \<leftarrow> queue_push c t (last (nodes l));
        let l1 = set_push_head q l;
        if w \<noteq> None then Some l1
        else do {
          (_, p) \<leftarrow> queue_push c t (queue_make c (iterator_counter l1));
          Some (chain_node c p l1)
        }
      })"

partial_function (option) chain_loop :: "queue_params_t \<Rightarrow> ('a list \<Rightarrow> 'a iris_queue_t \<Rightarrow> ('a list \<times> 'a iris_queue_t) option) \<Rightarrow>
    'a list \<Rightarrow> 'a queue_list_t \<Rightarrow> 'a queue_list_t option" where
  "chain_loop c push from l =
     (if from = [] then Some l
      else do {
        (from1, p) \<leftarrow> push from (queue_make c (iterator_counter l));
        chain_loop c push from1 (chain_node c p l)
      })"

text \<open>The bulk pushes: \<open>push\<close> and \<open>push_stream\<close> of a range, which always consume it all.\<close>

definition list_push_range :: "queue_params_t \<Rightarrow> 'a list \<Rightarrow> 'a queue_list_t \<Rightarrow> 'a queue_list_t option" where
  "list_push_range c from l =
     (if nodes l = [] then None
      else do {
        (from1, q) \<leftarrow> queue_push_range c from (last (nodes l));
        chain_loop c (queue_push_range c) from1 (set_push_head q l)
      })"

definition list_push_stream :: "queue_params_t \<Rightarrow> bool \<Rightarrow> nat \<Rightarrow> 'a list \<Rightarrow> 'a queue_list_t \<Rightarrow> 'a queue_list_t option" where
  "list_push_stream c trivial esize from l =
     (if nodes l = [] then None
      else do {
        (from1, q) \<leftarrow> queue_push_stream c trivial esize from (last (nodes l));
        chain_loop c (queue_push_stream c trivial esize) from1 (set_push_head q l)
      })"

text \<open>\<open>cleanup_empty\<close> unlinks and destroys the head when it is empty and not the last.\<close>

definition cleanup_empty :: "queue_params_t \<Rightarrow> 'a queue_list_t \<Rightarrow> (bool \<times> 'a queue_list_t) option" where
  "cleanup_empty c l =
     (case nodes l of
        [] \<Rightarrow> None
      | [q] \<Rightarrow> Some (False, l)
      | q # r # rest \<Rightarrow>
          (let (e, q1) = queue_empty c q in
           if e then do { _ \<leftarrow> queue_destruct c q1; Some (True, l\<lparr>nodes := r # rest\<rparr>) }
           else Some (False, set_pop_head q1 l)))"

definition cleanup_fenced :: "queue_params_t \<Rightarrow> bool \<Rightarrow> 'a queue_list_t \<Rightarrow> 'a queue_list_t option" where
  "cleanup_fenced c fence l = (if fence then map_option snd (cleanup_empty c l) else Some l)"

definition list_empty :: "queue_params_t \<Rightarrow> 'a queue_list_t \<Rightarrow> (bool \<times> 'a queue_list_t) option" where
  "list_empty c l =
     (if nodes l = [] then None
      else
        let (e, q) = queue_empty c (hd (nodes l)); l1 = set_pop_head q l in
        if e then
          (if tl (nodes l) \<noteq> [] then
             let (e2, q2) = queue_empty c (last (nodes l1)) in Some (e2, set_push_head q2 l1)
           else Some (True, l1))
        else Some (False, l1))"

definition list_top :: "queue_params_t \<Rightarrow> bool \<Rightarrow> 'a queue_list_t \<Rightarrow> ('a \<times> 'a queue_list_t) option" where
  "list_top c fence l = do {
     l1 \<leftarrow> cleanup_fenced c fence l;
     if nodes l1 = [] then None else do { x \<leftarrow> queue_top c (hd (nodes l1)); Some (x, l1) }
   }"

definition list_pop :: "queue_params_t \<Rightarrow> bool \<Rightarrow> 'a queue_list_t \<Rightarrow> 'a queue_list_t option" where
  "list_pop c fence l = do {
     l1 \<leftarrow> cleanup_fenced c fence l;
     if nodes l1 = [] then None else do {
       q \<leftarrow> queue_pop c (hd (nodes l1));
       (_, l2) \<leftarrow> cleanup_empty c (set_pop_head q l1);
       Some l2
     }
   }"

partial_function (option) pop_n_loop :: "queue_params_t \<Rightarrow> nat \<Rightarrow> 'a queue_list_t \<Rightarrow> (nat \<times> 'a queue_list_t) option" where
  "pop_n_loop c n l =
     (if n = 0 then Some (0, l)
      else if nodes l = [] then None
      else do {
        let m = min n (queue_size c (hd (nodes l)));
        (_, q) \<leftarrow> queue_pop_n c m (hd (nodes l));
        (cleaned, l1) \<leftarrow> cleanup_empty c (set_pop_head q l);
        if cleaned then pop_n_loop c (n - m) l1 else Some (n - m, l1)
      })"

definition list_pop_n :: "queue_params_t \<Rightarrow> bool \<Rightarrow> nat \<Rightarrow> 'a queue_list_t \<Rightarrow> (nat \<times> 'a queue_list_t) option" where
  "list_pop_n c fence n l = do { l1 \<leftarrow> cleanup_fenced c fence l; pop_n_loop c n l1 }"

text \<open>\<open>pop(from, to)\<close>: its loop ends only when the output is full.\<close>

partial_function (option) list_pop_range :: "queue_params_t \<Rightarrow> nat \<Rightarrow> 'a list \<Rightarrow> 'a queue_list_t \<Rightarrow> ('a list \<times> 'a queue_list_t) option" where
  "list_pop_range c room out l =
     (if nodes l = [] then None
      else do {
        (got, q) \<leftarrow> queue_pop_range c room (hd (nodes l));
        let l1 = set_pop_head q l;
        if got = [] then do {
          (_, l2) \<leftarrow> cleanup_empty c l1;
          if room = 0 then Some (out, l2) else list_pop_range c room out l2
        }
        else list_pop_range c (room - length got) (out @ got) l1
      })"

definition list_size :: "queue_params_t \<Rightarrow> 'a queue_list_t \<Rightarrow> nat" where
  "list_size c l = foldl (\<lambda>counter q. counter + queue_size c q) 0 (nodes l)"

fun probe_loop :: "queue_params_t \<Rightarrow> nat \<Rightarrow> nat \<Rightarrow> 'a iris_queue_t list \<Rightarrow> bool" where
  "probe_loop c request counter [] = False"
| "probe_loop c request counter (q # qs) =
     (if counter + queue_size c q \<ge> request then True else probe_loop c request (counter + queue_size c q) qs)"

definition list_probe :: "queue_params_t \<Rightarrow> nat \<Rightarrow> 'a queue_list_t \<Rightarrow> bool" where
  "list_probe c request l = probe_loop c request 0 (nodes l)"

definition list_pack_size :: "queue_params_t \<Rightarrow> nat \<Rightarrow> 'a queue_list_t \<Rightarrow> nat" where
  "list_pack_size c alignment l =
     (let v = queue_pack_size c alignment (last (nodes l)) in if v = 0 then element_count c else v)"

fun for_each_nodes :: "queue_params_t \<Rightarrow> 'a iris_queue_t list \<Rightarrow> ('a list \<times> 'a iris_queue_t list) option" where
  "for_each_nodes c [] = Some ([], [])"
| "for_each_nodes c (q # qs) = do {
     (xs, q1) \<leftarrow> queue_for_each c q;
     (ys, qs1) \<leftarrow> for_each_nodes c qs;
     Some (xs @ ys, q1 # qs1)
   }"

definition list_for_each :: "queue_params_t \<Rightarrow> 'a queue_list_t \<Rightarrow> ('a list \<times> 'a queue_list_t) option" where
  "list_for_each c l = do { (xs, qs) \<leftarrow> for_each_nodes c (nodes l); Some (xs, l\<lparr>nodes := qs\<rparr>) }"

section \<open>Reset and destruction\<close>

fun destruct_nodes :: "queue_params_t \<Rightarrow> 'a iris_queue_t list \<Rightarrow> 'a option list list option" where
  "destruct_nodes c [] = Some []"
| "destruct_nodes c (q # qs) = do { r \<leftarrow> queue_destruct c q; rs \<leftarrow> destruct_nodes c qs; Some (r # rs) }"

definition list_destruct :: "queue_params_t \<Rightarrow> 'a queue_list_t \<Rightarrow> 'a option list list option" where
  "list_destruct c l = destruct_nodes c (nodes l @ spare l)"

text \<open>Nodes behind the first are reset and kept while the counter is below \<open>reserved\<close>, then destroyed.\<close>

fun reset_nodes :: "queue_params_t \<Rightarrow> nat \<Rightarrow> size_t \<Rightarrow> 'a iris_queue_t list \<Rightarrow> ('a iris_queue_t list \<times> size_t) option" where
  "reset_nodes c reserved ic [] = Some ([], ic)"
| "reset_nodes c reserved ic (p # ps) =
     (if unat ic < reserved then do {
        p1 \<leftarrow> queue_reset c ic p;
        (ps1, ic1) \<leftarrow> reset_nodes c reserved (step_counter c ic (of_nat (element_count c))) ps;
        Some (p1 # ps1, ic1)
      }
      else do { _ \<leftarrow> destruct_nodes c (p # ps); Some ([], ic) })"

definition list_reset :: "queue_params_t \<Rightarrow> nat \<Rightarrow> 'a queue_list_t \<Rightarrow> 'a queue_list_t option" where
  "list_reset c reserved l =
     (case nodes l of
        [] \<Rightarrow> None
      | q # qs \<Rightarrow> do {
          q1 \<leftarrow> queue_reset c 0 q;
          (ps, ic) \<leftarrow> reset_nodes c reserved (of_nat (element_count c)) (qs @ spare l);
          Some (l\<lparr>nodes := [q1], spare := ps, iterator_counter := ic\<rparr>)
        })"

definition list_clear :: "queue_params_t \<Rightarrow> 'a queue_list_t \<Rightarrow> 'a queue_list_t option" where
  "list_clear c l = list_reset c 0 l"

section \<open>Access by index and iterators\<close>

definition list_begin_index :: "'a queue_list_t \<Rightarrow> size_t" where
  "list_begin_index l = pop_count (hd (nodes l))"

definition list_end_index :: "'a queue_list_t \<Rightarrow> size_t" where
  "list_end_index l = push_count (last (nodes l))"

fun get_nodes :: "queue_params_t \<Rightarrow> size_t \<Rightarrow> 'a iris_queue_t list \<Rightarrow> 'a iris_queue_t \<Rightarrow> 'a option" where
  "get_nodes c index [] back = queue_get c index back"
| "get_nodes c index (q # qs) back =
     (if sint (push_count q - index) > 0 then queue_get c index q else get_nodes c index qs back)"

definition list_get :: "queue_params_t \<Rightarrow> size_t \<Rightarrow> 'a queue_list_t \<Rightarrow> 'a option" where
  "list_get c index l = get_nodes c index (nodes l) (last (nodes l))"

fun copy_nodes :: "queue_params_t \<Rightarrow> 'a list \<Rightarrow> size_t \<Rightarrow> 'a iris_queue_t list \<Rightarrow> ('a list \<times> 'a iris_queue_t list) option" where
  "copy_nodes c from offset [] = Some (from, [])"
| "copy_nodes c from offset (q # qs) =
     (if sint (push_count q - offset) > 0 then do {
        (from1, q1) \<leftarrow> queue_copy c from offset q;
        if from1 = [] then Some ([], q1 # qs)
        else do {
          (from2, qs1) \<leftarrow> copy_nodes c from1 (offset + of_nat (length from - length from1)) qs;
          Some (from2, q1 # qs1)
        }
      }
      else do { (from2, qs1) \<leftarrow> copy_nodes c from offset qs; Some (from2, q # qs1) })"

definition list_copy :: "queue_params_t \<Rightarrow> 'a list \<Rightarrow> size_t \<Rightarrow> 'a queue_list_t \<Rightarrow> ('a list \<times> 'a queue_list_t) option" where
  "list_copy c from offset l = do {
     (from1, qs) \<leftarrow> copy_nodes c from offset (nodes l);
     Some (from1, l\<lparr>nodes := qs\<rparr>)
   }"

text \<open>An iterator: the position of its node in the chain and a counter value.\<close>

type_synonym list_iterator_t = "nat \<times> size_t"

definition list_iterator_eq :: "list_iterator_t \<Rightarrow> list_iterator_t \<Rightarrow> bool" where
  "list_iterator_eq a b \<longleftrightarrow> snd a = snd b"

definition list_iterator_step :: "queue_params_t \<Rightarrow> 'a iris_queue_t list \<Rightarrow> list_iterator_t \<Rightarrow> list_iterator_t" where
  "list_iterator_step c qs it =
     (let n = fst it; i = step_counter c (snd it) 1 in
      if i = push_count (qs ! n) then
        (if n + 1 < length qs then (n + 1, pop_count (qs ! (n + 1))) else (n, i))
      else (n, i))"

fun list_iterator_plus :: "queue_params_t \<Rightarrow> 'a iris_queue_t list \<Rightarrow> nat \<Rightarrow> size_t \<Rightarrow> nat \<Rightarrow> list_iterator_t option" where
  "list_iterator_plus c [] n sub count = None"
| "list_iterator_plus c (q # qs) n sub count =
     (let d = unat (diff_counter c (push_count q) sub) in
      if count \<ge> d then
        (case qs of [] \<Rightarrow> Some (n, push_count q)
         | t # _ \<Rightarrow> list_iterator_plus c qs (n + 1) (pop_count t) (count - d))
      else Some (n, step_counter c (pop_count q) (of_nat count)))"

definition list_iterator_deref :: "queue_params_t \<Rightarrow> 'a iris_queue_t list \<Rightarrow> list_iterator_t \<Rightarrow> 'a option" where
  "list_iterator_deref c qs it = (if fst it < length qs then queue_get c (snd it) (qs ! fst it) else None)"

section \<open>Refinement\<close>

text \<open>
  The abstract queue is the concatenation of the rings. Between operations no node is empty
  unless it is the only one.
\<close>

definition nodes_rel :: "queue_params_t \<Rightarrow> nat \<Rightarrow> 'a iris_queue_t list \<Rightarrow> 'a list list \<Rightarrow> bool" where
  "nodes_rel c k qs xss \<longleftrightarrow> list_all2 (\<lambda>q ys. \<exists>p. ring_rel c k q p ys) qs xss"

definition list_rel :: "queue_params_t \<Rightarrow> nat \<Rightarrow> 'a queue_list_t \<Rightarrow> 'a list \<Rightarrow> bool" where
  "list_rel c k l xs \<longleftrightarrow>
     params_ok c \<and> 0 < element_count c \<and> nodes l \<noteq> [] \<and> unat (iterator_counter l) < counter_modulus c \<and>
     (\<exists>xss. nodes_rel c k (nodes l) xss \<and> xs = concat xss \<and> (length xss > 1 \<longrightarrow> [] \<notin> set xss))"

lemma nodes_rel_simps [simp]:
  "nodes_rel c k [] xss \<longleftrightarrow> xss = []"
  "nodes_rel c k (q # qs) xss \<longleftrightarrow> (\<exists>ys yss p. xss = ys # yss \<and> ring_rel c k q p ys \<and> nodes_rel c k qs yss)"
  by (auto simp: nodes_rel_def list_all2_Cons1)

lemma nodes_rel_append:
  "nodes_rel c k (qs @ rs) xss \<longleftrightarrow> (\<exists>yss zss. xss = yss @ zss \<and> nodes_rel c k qs yss \<and> nodes_rel c k rs zss)"
  unfolding nodes_rel_def list_all2_append1 by (metis list_all2_lengthD)

lemma nodes_rel_length: "nodes_rel c k qs xss \<Longrightarrow> length qs = length xss"
  by (simp add: nodes_rel_def list_all2_lengthD)

lemma list_relE:
  assumes "list_rel c k l xs"
  obtains xss where "params_ok c" "0 < element_count c" "nodes l \<noteq> []" "unat (iterator_counter l) < counter_modulus c"
    "nodes_rel c k (nodes l) xss" "xs = concat xss" "length xss > 1 \<longrightarrow> [] \<notin> set xss"
  using assms by (auto simp: list_rel_def)

lemma nodes_rel_weaken: "nodes_rel c (Suc k) qs xss \<Longrightarrow> nodes_rel c k qs xss"
  unfolding nodes_rel_def by (erule list_all2_mono) (use ring_rel_weaken in blast)

lemma list_rel_weaken: "list_rel c (Suc k) l xs \<Longrightarrow> list_rel c k l xs"
  unfolding list_rel_def by (auto intro: nodes_rel_weaken)

lemma counter_step_bound:
  assumes "params_ok c" "unat v < counter_modulus c"
  shows "unat (step_counter c v (of_nat (element_count c))) < counter_modulus c"
proof -
  have "unat v = unat v mod counter_modulus c" using assms(2) by simp
  from step_counter_value [OF assms(1) this, of "element_count c"] show ?thesis
    using assms(1) modulus_bounds(1) [OF assms(1)] by (simp add: params_ok_def)
qed

lemma list_rel_make: "params_ok c \<Longrightarrow> list_rel c k (list_make c) []"
proof -
  assume ok: "params_ok c"
  then have "unat (of_nat (element_count c) :: size_t) < counter_modulus c"
    using modulus_bounds(1) [OF ok] by (simp add: unat_of_nat params_ok_def)
  moreover have "ring_rel c k (queue_make c 0) (unat (0 :: size_t)) []"
    by (rule ring_rel_make [OF ok]) (use modulus_bounds(1) [OF ok] in simp)
  ultimately show ?thesis using ok by (auto simp: list_rel_def list_make_def params_ok_def intro!: exI [of _ "[[]]"])
qed

lemma new_node_rel:
  assumes "list_rel c k l xs"
  shows "ring_rel c k (queue_make c (iterator_counter l)) (unat (iterator_counter l)) []"
  using assms by (auto elim!: list_relE intro: ring_rel_make)

text \<open>Chaining a node that already holds elements.\<close>

lemma chain_node_rel:
  assumes rel: "list_rel c k l xs" "xs \<noteq> []" and node: "ring_rel c k p a ys" "ys \<noteq> []"
  shows "list_rel c k (chain_node c p l) (xs @ ys)"
proof -
  from rel(1) obtain xss where x: "params_ok c" "0 < element_count c" "unat (iterator_counter l) < counter_modulus c"
    "nodes_rel c k (nodes l) xss" "xs = concat xss" "length xss > 1 \<longrightarrow> [] \<notin> set xss" by (rule list_relE)
  have "nodes_rel c k (nodes l @ [p]) (xss @ [ys])" using x(4) node(1) by (auto simp: nodes_rel_append)
  moreover have "[] \<notin> set xss" using x(5,6) rel(2) by (cases xss; cases "tl xss") auto
  ultimately show ?thesis
    using x counter_step_bound [OF x(1,3)] node(2)
    by (auto simp: list_rel_def chain_node_def intro!: exI [of _ "xss @ [ys]"])
qed

text \<open>Replacing the last node by one that holds a continuation of its contents.\<close>

lemma set_push_head_rel:
  assumes rel: "list_rel c k l xs" and next_: "\<And>p ys. ring_rel c k (last (nodes l)) p ys \<Longrightarrow> \<exists>p'. ring_rel c k q p' (ys @ zs)"
  shows "list_rel c k (set_push_head q l) (xs @ zs)"
proof -
  from rel obtain xss where x: "params_ok c" "0 < element_count c" "nodes l \<noteq> []" "unat (iterator_counter l) < counter_modulus c"
    "nodes_rel c k (nodes l) xss" "xs = concat xss" "length xss > 1 \<longrightarrow> [] \<notin> set xss" by (rule list_relE)
  from x(3) have "nodes l = butlast (nodes l) @ [last (nodes l)]" by simp
  with x(5) have "nodes_rel c k (butlast (nodes l) @ [last (nodes l)]) xss" by simp
  then obtain yss ys p where y: "xss = yss @ [ys]" "nodes_rel c k (butlast (nodes l)) yss" "ring_rel c k (last (nodes l)) p ys"
    by (auto simp: nodes_rel_append)
  from next_ [OF y(3)] obtain p' where "ring_rel c k q p' (ys @ zs)" by blast
  with y(2) have "nodes_rel c k (butlast (nodes l) @ [q]) (yss @ [ys @ zs])" by (auto simp: nodes_rel_append)
  then show ?thesis using x y(1) by (auto simp: list_rel_def set_push_head_def intro!: exI [of _ "yss @ [ys @ zs]"])
qed

lemma last_node_rel:
  assumes "list_rel c k l xs"
  obtains p ys where "ring_rel c k (last (nodes l)) p ys" "length ys \<le> length xs" "element_count c \<le> length ys \<Longrightarrow> xs \<noteq> []"
proof -
  from assms obtain xss where x: "params_ok c" "nodes l \<noteq> []" "nodes_rel c k (nodes l) xss" "xs = concat xss"
    by (rule list_relE)
  from x(2,3) have "nodes_rel c k (butlast (nodes l) @ [last (nodes l)]) xss" by simp
  then obtain yss ys p where "xss = yss @ [ys]" "ring_rel c k (last (nodes l)) p ys" by (auto simp: nodes_rel_append)
  with that [of p ys] x(1,4) show ?thesis by (cases ys) (auto simp: params_ok_def)
qed

lemma list_push_rel:
  assumes rel: "list_rel c k l xs"
  shows "\<exists>l'. list_push c t l = Some l' \<and> list_rel c k l' (xs @ [t])"
proof -
  have ne: "nodes l \<noteq> []" using rel by (auto elim: list_relE)
  from last_node_rel [OF rel] obtain p ys where y: "ring_rel c k (last (nodes l)) p ys"
    "element_count c \<le> length ys \<Longrightarrow> xs \<noteq> []" by blast
  from queue_push_rel [OF y(1), of t] obtain q where
    q: "queue_push c t (last (nodes l)) = Some (if length ys < element_count c then Some ((p + length ys) mod element_count c) else None, q)"
    "ring_rel c k q p (if length ys < element_count c then ys @ [t] else ys)" by blast
  have uniq: "ys' = ys" if "ring_rel c k (last (nodes l)) p' ys'" for p' ys'
    using queue_for_each_rel [OF that] queue_for_each_rel [OF y(1)] by auto
  show ?thesis
  proof (cases "length ys < element_count c")
    case True
    then have "list_push c t l = Some (set_push_head q l)" using ne q(1) by (simp add: list_push_def Let_def)
    moreover have "list_rel c k (set_push_head q l) (xs @ [t])"
      by (rule set_push_head_rel [OF rel]) (use True q(2) uniq in auto)
    ultimately show ?thesis by blast
  next
    case False
    let ?l = "set_push_head q l"
    have rel1: "list_rel c k ?l (xs @ [])"
      by (rule set_push_head_rel [OF rel]) (use False q(2) uniq in auto)
    from rel1 have ok: "params_ok c" by (rule list_relE)
    then have n: "0 < element_count c" by (simp add: params_ok_def)
    from queue_push_rel [OF new_node_rel [OF rel1], of t] n obtain r where
      r: "queue_push c t (queue_make c (iterator_counter ?l)) = Some (Some (unat (iterator_counter ?l) mod element_count c), r)"
      "ring_rel c k r (unat (iterator_counter ?l)) [t]" by auto
    have "list_push c t l = Some (chain_node c r ?l)"
      using ne q(1) r(1) False by (simp add: list_push_def Let_def)
    moreover have "list_rel c k (chain_node c r ?l) (xs @ [t])"
      by (rule chain_node_rel) (use rel1 False y(2) r(2) in auto)
    ultimately show ?thesis by blast
  qed
qed

text \<open>The bulk pushes chain full nodes until the input is used up.\<close>

lemma chain_loop_rel:
  assumes "list_rel c k l xs" and "xs \<noteq> []"
    and push: "\<And>from ic. unat ic < counter_modulus c \<Longrightarrow>
      \<exists>p a. push from (queue_make c ic) = Some (drop (element_count c) from, p) \<and> ring_rel c k p a (take (element_count c) from)"
  shows "\<exists>l'. chain_loop c push from l = Some l' \<and> list_rel c k l' (xs @ from)"
  using assms(1,2)
proof (induction "length from" arbitrary: "from" l xs rule: less_induct)
  case less
  show ?case
  proof (cases "from = []")
    case True
    then show ?thesis using less.prems by (simp add: chain_loop.simps)
  next
    case False
    from less.prems(1) have ok: "params_ok c" "unat (iterator_counter l) < counter_modulus c" by (auto elim: list_relE)
    then have n: "0 < element_count c" by (simp add: params_ok_def)
    from push [OF ok(2), of "from"] obtain p a where
      p: "push from (queue_make c (iterator_counter l)) = Some (drop (element_count c) from, p)"
      "ring_rel c k p a (take (element_count c) from)" by blast
    have rel: "list_rel c k (chain_node c p l) (xs @ take (element_count c) from)"
      by (rule chain_node_rel [OF less.prems p(2)]) (use False n in auto)
    have "length (drop (element_count c) from) < length from" using False n by simp
    from less.hyps [OF this rel] obtain l' where
      "chain_loop c push (drop (element_count c) from) (chain_node c p l) = Some l'"
      "list_rel c k l' ((xs @ take (element_count c) from) @ drop (element_count c) from)" using less.prems(2) by auto
    then show ?thesis using False p(1) by (simp add: chain_loop.simps [of c push "from" l])
  qed
qed

lemma bulk_push_rel:
  assumes rel: "list_rel c k l xs"
    and push: "\<And>q p ys from. ring_rel c k q p ys \<Longrightarrow>
      \<exists>q'. push from q = Some (drop (element_count c - length ys) from, q') \<and> ring_rel c k q' p (ys @ take (element_count c - length ys) from)"
  shows "\<exists>from1 q l'. push from (last (nodes l)) = Some (from1, q) \<and>
    chain_loop c push from1 (set_push_head q l) = Some l' \<and> list_rel c k l' (xs @ from)"
proof -
  from last_node_rel [OF rel] obtain p ys where y: "ring_rel c k (last (nodes l)) p ys"
    "element_count c \<le> length ys \<Longrightarrow> xs \<noteq> []" by blast
  let ?m = "element_count c - length ys"
  from push [OF y(1), of "from"] obtain q where
    q: "push from (last (nodes l)) = Some (drop ?m from, q)" "ring_rel c k q p (ys @ take ?m from)" by blast
  have uniq: "ys' = ys" if "ring_rel c k (last (nodes l)) p' ys'" for p' ys'
    using queue_for_each_rel [OF that] queue_for_each_rel [OF y(1)] by auto
  have rel1: "list_rel c k (set_push_head q l) (xs @ take ?m from)"
    by (rule set_push_head_rel [OF rel]) (use q(2) uniq in auto)
  have "\<exists>l'. chain_loop c push (drop ?m from) (set_push_head q l) = Some l' \<and> list_rel c k l' ((xs @ take ?m from) @ drop ?m from)"
  proof (cases "drop ?m from = []")
    case True
    then show ?thesis using rel1 by (simp add: chain_loop.simps)
  next
    case False
    have "xs @ take ?m from \<noteq> []" using False y(2) by (cases "element_count c \<le> length ys") auto
    moreover have "\<exists>p' a. push fr (queue_make c ic) = Some (drop (element_count c) fr, p') \<and> ring_rel c k p' a (take (element_count c) fr)"
      if "unat ic < counter_modulus c" for fr ic
    proof -
      have "ring_rel c k (queue_make c ic) (unat ic) []"
        by (rule ring_rel_make) (use rel that in \<open>auto elim: list_relE\<close>)
      from push [OF this, of fr] show ?thesis by auto
    qed
    ultimately show ?thesis by (intro chain_loop_rel [OF rel1]) auto
  qed
  with q(1) show ?thesis by auto
qed

lemma list_push_range_rel:
  assumes rel: "list_rel c k l xs" and k: "k \<le> 2 ^ 32"
  shows "\<exists>l'. list_push_range c from l = Some l' \<and> list_rel c k l' (xs @ from)"
proof -
  have "nodes l \<noteq> []" using rel by (auto elim: list_relE)
  with bulk_push_rel [OF rel, of "queue_push_range c" "from", OF queue_push_range_rel [OF _ k]] show ?thesis
    by (auto simp: list_push_range_def)
qed

lemma list_push_stream_rel:
  assumes rel: "list_rel c k l xs" and k: "k \<le> 2 ^ 32"
  shows "\<exists>l'. list_push_stream c trivial esize from l = Some l' \<and> list_rel c k l' (xs @ from)"
proof -
  have "nodes l \<noteq> []" using rel by (auto elim: list_relE)
  with bulk_push_rel [OF rel, of "queue_push_stream c trivial esize" "from", OF queue_push_stream_rel [OF _ k]] show ?thesis
    by (auto simp: list_push_stream_def)
qed

section \<open>Taking elements\<close>

text \<open>Replacing the head by one that holds a rest of its contents, and the cleanup that follows.\<close>

lemma cleanup_after_pop:
  assumes ok: "params_ok c" "0 < element_count c" "unat (iterator_counter l) < counter_modulus c"
    and nodes: "nodes l = q # qs" and q: "ring_rel c k q p ys" and qs: "nodes_rel c k qs yss" "[] \<notin> set yss"
  shows "\<exists>b l'. cleanup_empty c l = Some (b, l') \<and> list_rel c k l' (ys @ concat yss) \<and>
    (b \<longleftrightarrow> ys = [] \<and> qs \<noteq> []) \<and> length (nodes l') = (if b then length qs else Suc (length qs)) \<and>
    (b \<longrightarrow> nodes l' = qs) \<and> iterator_counter l' = iterator_counter l"
proof (cases qs)
  case Nil
  then have "cleanup_empty c l = Some (False, l)" "yss = []" using nodes qs(1) by (simp_all add: cleanup_empty_def)
  moreover have "nodes_rel c k [q] [ys]" using q by auto
  then have "list_rel c k l (ys @ concat yss)"
    unfolding list_rel_def using ok nodes Nil \<open>yss = []\<close>
    by (intro conjI exI [of _ "[ys]"]) (simp_all del: nodes_rel_simps)
  ultimately show ?thesis using Nil nodes by (intro exI [of _ False] exI [of _ l]) simp
next
  case (Cons r rest)
  obtain e q1 where eq: "queue_empty c q = (e, q1)" by force
  with queue_empty_rel [OF q] have e: "e \<longleftrightarrow> ys = []" and rel1: "ring_rel c k q1 p ys" by auto
  have d: "queue_destruct c q1 = Some (replicate (element_count c) None)" by (rule queue_destruct_rel [OF rel1])
  show ?thesis
  proof (cases "ys = []")
    case True
    let ?l = "l\<lparr>nodes := qs\<rparr>"
    have "cleanup_empty c l = Some (True, ?l)" using nodes Cons eq e d True by (simp add: cleanup_empty_def)
    moreover have "list_rel c k ?l (ys @ concat yss)"
      unfolding list_rel_def using ok qs Cons True by (intro conjI exI [of _ yss]) simp_all
    ultimately show ?thesis using True Cons by (intro exI [of _ True] exI [of _ ?l]) simp
  next
    case False
    let ?l = "set_pop_head q1 l"
    have "cleanup_empty c l = Some (False, ?l)" using nodes Cons eq e False by (simp add: cleanup_empty_def)
    moreover have "nodes_rel c k (q1 # qs) (ys # yss)" using rel1 qs(1) by auto
    then have "list_rel c k ?l (ys @ concat yss)"
      unfolding list_rel_def set_pop_head_def using ok qs(2) False nodes
      by (intro conjI exI [of _ "ys # yss"]) (simp_all del: nodes_rel_simps)
    ultimately show ?thesis
      using False nodes by (intro exI [of _ False] exI [of _ ?l]) (simp add: set_pop_head_def)
  qed
qed

lemma list_empty_rel:
  assumes rel: "list_rel c k l xs"
  shows "\<exists>l'. list_empty c l = Some (xs = [], l') \<and> list_rel c k l' xs \<and>
    (xs \<noteq> [] \<longrightarrow> (\<exists>p ys. ring_rel c k (hd (nodes l')) p ys \<and> ys \<noteq> [] \<and> ring_checked c (hd (nodes l')) p (length ys)))"
proof -
  from rel obtain xss where x: "params_ok c" "0 < element_count c" "nodes l \<noteq> []" "unat (iterator_counter l) < counter_modulus c"
    "nodes_rel c k (nodes l) xss" "xs = concat xss" "length xss > 1 \<longrightarrow> [] \<notin> set xss" by (rule list_relE)
  then obtain q qs ys yss p where n: "nodes l = q # qs" "xss = ys # yss" "ring_rel c k q p ys" "nodes_rel c k qs yss"
    by (cases "nodes l") auto
  obtain e q1 where eq: "queue_empty c q = (e, q1)" by force
  with queue_empty_rel [OF n(3)] have e: "e \<longleftrightarrow> ys = []" and rel1: "ring_rel c k q1 p ys"
    and checked: "ys \<noteq> [] \<longrightarrow> ring_checked c q1 p (length ys)" by auto
  have rel': "list_rel c k (set_pop_head q1 l) xs"
    using x n rel1 by (auto simp: list_rel_def set_pop_head_def intro!: exI [of _ "ys # yss"])
  show ?thesis
  proof (cases "ys = []")
    case True
    then have "yss = []" using x(7) n(2) by (cases yss) auto
    then have "qs = []" "xs = []" using n(2,4) x(6) True by (auto dest: nodes_rel_length)
    then show ?thesis using n(1) eq e True rel' by (simp add: list_empty_def)
  next
    case False
    then have "list_empty c l = Some (False, set_pop_head q1 l)" "xs \<noteq> []"
      using n(1,2) eq e x(6) by (auto simp: list_empty_def)
    then show ?thesis using rel' rel1 checked False by (auto simp: set_pop_head_def)
  qed
qed

text \<open>
  The cleanup before a read or a pop finds a head with elements: it only refreshes the head's
  shadow.
\<close>

lemma cleanup_fenced_rel:
  assumes rel: "list_rel c k l (x # xs)" and spsc: "spsc_optimized c \<longrightarrow> fence"
    and head: "ring_rel c k (hd (nodes l)) p ys" "ys \<noteq> []" "ring_checked c (hd (nodes l)) p (length ys)"
  shows "\<exists>l' p ys. cleanup_fenced c fence l = Some l' \<and> list_rel c k l' (x # xs) \<and>
    ring_rel c k (hd (nodes l')) p (x # ys) \<and> ring_checked c (hd (nodes l')) p (Suc (length ys))"
proof -
  from rel obtain xss where x: "params_ok c" "0 < element_count c" "nodes l \<noteq> []" "unat (iterator_counter l) < counter_modulus c"
    "nodes_rel c k (nodes l) xss" "x # xs = concat xss" "length xss > 1 \<longrightarrow> [] \<notin> set xss" by (rule list_relE)
  then obtain q qs zs yss p' where n: "nodes l = q # qs" "xss = zs # yss" "ring_rel c k q p' zs" "nodes_rel c k qs yss"
    by (cases "nodes l") auto
  have same: "ys' = zs" if "ring_rel c k q a ys'" for a ys'
    using queue_for_each_rel [OF that] queue_for_each_rel [OF n(3)] by auto
  with head(1) n(1) have "zs = ys" by simp
  with head(2) x(6) n(2) obtain zs' where zs: "ys = x # zs'" by (cases ys) auto
  show ?thesis
  proof (cases "\<not> fence \<or> qs = []")
    case True
    then have "cleanup_fenced c fence l = Some l" using n(1) by (auto simp: cleanup_fenced_def cleanup_empty_def)
    then show ?thesis using rel head zs by auto
  next
    case False
    obtain e q1 where eq: "queue_empty c q = (e, q1)" by force
    with queue_empty_rel [OF n(3)] \<open>zs = ys\<close> zs have q1: "\<not> e" "ring_rel c k q1 p' (x # zs')"
      "ring_checked c q1 p' (Suc (length zs'))" by auto
    have "cleanup_fenced c fence l = Some (set_pop_head q1 l)"
      using False n(1) eq q1(1) by (cases qs) (auto simp: cleanup_fenced_def cleanup_empty_def)
    moreover have "list_rel c k (set_pop_head q1 l) (x # xs)"
      using x n q1(2) zs \<open>zs = ys\<close> by (auto simp: list_rel_def set_pop_head_def intro!: exI [of _ "ys # yss"])
    ultimately show ?thesis using q1 by (auto simp: set_pop_head_def)
  qed
qed

text \<open>The consumer's idiom: check, read, pop.\<close>

definition list_take :: "queue_params_t \<Rightarrow> bool \<Rightarrow> 'a queue_list_t \<Rightarrow> ('a option \<times> 'a queue_list_t) option" where
  "list_take c fence l = do {
     (e, l1) \<leftarrow> list_empty c l;
     if e then Some (None, l1)
     else do { (x, l2) \<leftarrow> list_top c fence l1; l3 \<leftarrow> list_pop c fence l2; Some (Some x, l3) }
   }"

lemma nodes_rel_pop:
  assumes "nodes_rel c (Suc k) qs yss"
  shows "nodes_rel c k qs yss"
  by (rule nodes_rel_weaken [OF assms])

lemma list_take_rel:
  assumes rel: "list_rel c (Suc k) l (x # xs)" and spsc: "spsc_optimized c \<longrightarrow> fence"
  shows "\<exists>l'. list_take c fence l = Some (Some x, l') \<and> list_rel c k l' xs"
proof -
  from list_empty_rel [OF rel] obtain l1 p ys where l1: "list_empty c l = Some (False, l1)" "list_rel c (Suc k) l1 (x # xs)"
    "ring_rel c (Suc k) (hd (nodes l1)) p ys" "ys \<noteq> []" "ring_checked c (hd (nodes l1)) p (length ys)" by auto
  from cleanup_fenced_rel [OF l1(2) spsc l1(3,4,5)] obtain l2 p2 ys2 where l2: "cleanup_fenced c fence l1 = Some l2"
    "list_rel c (Suc k) l2 (x # xs)" "ring_rel c (Suc k) (hd (nodes l2)) p2 (x # ys2)"
    "ring_checked c (hd (nodes l2)) p2 (length (x # ys2))" by auto
  have ne2: "nodes l2 \<noteq> []" using l2(2) by (auto elim: list_relE)
  have top: "list_top c fence l1 = Some (x, l2)"
    using l2(1) ne2 queue_top_rel [OF l2(3)] by (simp add: list_top_def)
  from cleanup_fenced_rel [OF l2(2) spsc l2(3) _ l2(4)] obtain l3 p3 ys3 where l3: "cleanup_fenced c fence l2 = Some l3"
    "list_rel c (Suc k) l3 (x # xs)" "ring_rel c (Suc k) (hd (nodes l3)) p3 (x # ys3)"
    "ring_checked c (hd (nodes l3)) p3 (Suc (length ys3))" by auto
  from l3(2) obtain xss where x3: "params_ok c" "0 < element_count c" "nodes l3 \<noteq> []" "unat (iterator_counter l3) < counter_modulus c"
    "nodes_rel c (Suc k) (nodes l3) xss" "x # xs = concat xss" "length xss > 1 \<longrightarrow> [] \<notin> set xss" by (rule list_relE)
  then obtain q qs zs yss p4 where n: "nodes l3 = q # qs" "xss = zs # yss" "ring_rel c (Suc k) q p4 zs" "nodes_rel c (Suc k) qs yss"
    by (cases "nodes l3") auto
  have zs: "zs = x # ys3" using queue_for_each_rel [OF n(3)] queue_for_each_rel [OF l3(3)] n(1) by auto
  from queue_pop_rel [OF l3(3,4)] n(1) obtain q' where q': "queue_pop c q = Some q'" "ring_rel c k q' (Suc p3) ys3" by auto
  have "[] \<notin> set yss" using x3(7) n(2) by (cases yss) auto
  from cleanup_after_pop [where k = k and l = "set_pop_head q' l3", OF x3(1) _ _ _ q'(2) nodes_rel_pop [OF n(4)] this] x3(2,4) n(1)
  obtain b l4 where l4: "cleanup_empty c (set_pop_head q' l3) = Some (b, l4)" "list_rel c k l4 (ys3 @ concat yss)"
    by (auto simp: set_pop_head_def)
  have "list_pop c fence l2 = Some l4" using l3(1) x3(3) n(1) q'(1) l4(1) by (simp add: list_pop_def)
  moreover have "ys3 @ concat yss = xs" using x3(6) n(2) zs by simp
  ultimately show ?thesis using l1(1) top l4(2) by (auto simp: list_take_def)
qed

lemma fifo_run_all: "fifo_run (\<lambda>xs. True) xs es = (acc, del, rest) \<Longrightarrow> acc = [t. Push t \<leftarrow> es]"
  by (induction "\<lambda>xs :: 'a list. True" xs es arbitrary: acc del rest rule: fifo_run.induct) (auto split: prod.splits list.splits)

interpretation chain: fifo_queue "list_rel c" "\<lambda>xs. True" "\<lambda>t l. map_option (Pair True) (list_push c t l)" "list_take c True" for c
proof (unfold_locales, goal_cases)
  case (1 k q xs t)
  from list_push_rel [OF this, of t] show ?case by auto
next
  case (2 k q)
  from list_empty_rel [OF 2] list_rel_weaken show ?case by (fastforce simp: list_take_def)
next
  case (3 k q x xs)
  from list_take_rel [OF this, of True] show ?case by simp
next
  case (4 k q xs)
  then show ?case by (rule list_rel_weaken)
qed

section \<open>Bulk removal\<close>

lemma list_rel_head:
  assumes "list_rel c k l xs"
  obtains q qs p ys yss where "nodes l = q # qs" "ring_rel c k q p ys" "nodes_rel c k qs yss" "[] \<notin> set yss"
    "xs = ys @ concat yss" "params_ok c" "0 < element_count c" "unat (iterator_counter l) < counter_modulus c"
    "ys = [] \<Longrightarrow> yss = []"
proof -
  from assms obtain xss where x: "params_ok c" "0 < element_count c" "nodes l \<noteq> []" "unat (iterator_counter l) < counter_modulus c"
    "nodes_rel c k (nodes l) xss" "xs = concat xss" "length xss > 1 \<longrightarrow> [] \<notin> set xss" by (rule list_relE)
  then obtain q qs ys yss p where n: "nodes l = q # qs" "xss = ys # yss" "ring_rel c k q p ys" "nodes_rel c k qs yss"
    by (cases "nodes l") auto
  moreover have "[] \<notin> set yss" "ys = [] \<Longrightarrow> yss = []" using x(7) n(2) by (cases yss; auto)+
  ultimately show ?thesis using that x by auto
qed

text \<open>
  The states the loop of \<open>pop(from, to)\<close> passes through: the head may be empty while
  further nodes follow.
\<close>

definition drain_rel :: "queue_params_t \<Rightarrow> nat \<Rightarrow> 'a queue_list_t \<Rightarrow> 'a list \<Rightarrow> bool" where
  "drain_rel c k l xs \<longleftrightarrow>
     (\<exists>q qs p ys yss. nodes l = q # qs \<and> ring_rel c k q p ys \<and> nodes_rel c k qs yss \<and> [] \<notin> set yss \<and>
        xs = ys @ concat yss \<and> params_ok c \<and> 0 < element_count c \<and> unat (iterator_counter l) < counter_modulus c)"

lemma list_rel_drain: "list_rel c k l xs \<Longrightarrow> drain_rel c k l xs"
  by (erule list_rel_head) (unfold drain_rel_def, blast)

lemma nodes_rel_weaken_by: "nodes_rel c (k + m) qs yss \<Longrightarrow> nodes_rel c k qs yss"
  by (induction m) (auto dest: nodes_rel_weaken)

lemma ring_rel_weaken_by: "ring_rel c (k + m) q p xs \<Longrightarrow> ring_rel c k q p xs"
  by (induction m) (auto dest: ring_rel_weaken)

lemma cleanup_drain:
  assumes "drain_rel c k l xs"
  shows "\<exists>b l'. cleanup_empty c l = Some (b, l') \<and> list_rel c k l' xs \<and>
    length (nodes l') = (if b then length (nodes l) - 1 else length (nodes l))"
proof -
  from assms obtain q qs p ys yss where n: "nodes l = q # qs" "ring_rel c k q p ys" "nodes_rel c k qs yss" "[] \<notin> set yss"
    "xs = ys @ concat yss" "params_ok c" "0 < element_count c" "unat (iterator_counter l) < counter_modulus c"
    unfolding drain_rel_def by blast
  from cleanup_after_pop [OF n(6,7,8,1,2,3,4)] obtain b l' where "cleanup_empty c l = Some (b, l')"
    "list_rel c k l' (ys @ concat yss)" "length (nodes l') = (if b then length qs else Suc (length qs))" by blast
  then show ?thesis using n(1,5) by (intro exI [of _ b] exI [of _ l']) simp
qed

lemma pop_head_range:
  assumes "drain_rel c (k + room) l xs"
  obtains got q rest where "queue_pop_range c room (hd (nodes l)) = Some (got, q)" "length got \<le> room" "xs = got @ rest"
    "drain_rel c (k + room - length got) (set_pop_head q l) rest"
    "got = [] \<and> room \<noteq> 0 \<longrightarrow> (tl (nodes l) = [] \<longrightarrow> xs = []) \<and> fst (queue_empty c q)"
proof -
  from assms obtain q qs p ys yss where n: "nodes l = q # qs" "ring_rel c (k + room) q p ys" "nodes_rel c (k + room) qs yss" "[] \<notin> set yss"
    "xs = ys @ concat yss" "params_ok c" "0 < element_count c" "unat (iterator_counter l) < counter_modulus c"
    unfolding drain_rel_def by blast
  let ?m = "min room (length ys)"
  have eq: "k + room = (k + room - ?m) + ?m" by simp
  then have "ring_rel c ((k + room - ?m) + ?m) q p ys" using n(2) by simp
  from queue_pop_range_rel [OF this] obtain q' where q': "queue_pop_range c room q = Some (take room ys, q')"
    "ring_rel c (k + room - ?m) q' (p + ?m) (drop room ys)" by blast
  have m: "k + room - length (take room ys) = k + room - ?m" by (simp add: min.commute)
  have "nodes_rel c (k + room - ?m) qs yss" by (rule nodes_rel_weaken_by [of _ _ ?m]) (use n(3) in simp)
  then have drain: "drain_rel c (k + room - ?m) (set_pop_head q' l) (drop room ys @ concat yss)"
    unfolding drain_rel_def using n(1,4,6,7,8) q'(2)
    by (intro exI [of _ q'] exI [of _ qs] exI [of _ "p + ?m"] exI [of _ "drop room ys"] exI [of _ yss]) (auto simp: set_pop_head_def)
  show ?thesis
  proof (rule that [of "take room ys" q' "drop room ys @ concat yss"])
    show "queue_pop_range c room (hd (nodes l)) = Some (take room ys, q')" using q'(1) n(1) by simp
    show "drain_rel c (k + room - length (take room ys)) (set_pop_head q' l) (drop room ys @ concat yss)"
      using drain unfolding m .
    show "xs = take room ys @ drop room ys @ concat yss" using n(5) by simp
    show "take room ys = [] \<and> room \<noteq> 0 \<longrightarrow> (tl (nodes l) = [] \<longrightarrow> xs = []) \<and> fst (queue_empty c q')"
      using n(1,3,5) queue_empty_rel(1) [OF q'(2)] by auto
  qed simp
qed

lemma list_pop_range_returns:
  "drain_rel c (k + room) l xs \<Longrightarrow> room \<le> length xs \<Longrightarrow>
   \<exists>l'. list_pop_range c room out l = Some (out @ take room xs, l') \<and> list_rel c k l' (drop room xs)"
proof (induction "room + length (nodes l)" arbitrary: room l xs out rule: less_induct)
  case less
  note drain = less.prems(1)
  have ne: "nodes l \<noteq> []" using drain by (auto simp: drain_rel_def)
  from pop_head_range [OF drain] obtain got q rest where
    got: "queue_pop_range c room (hd (nodes l)) = Some (got, q)" "length got \<le> room" "xs = got @ rest"
    and rest: "drain_rel c (k + room - length got) (set_pop_head q l) rest"
    and stuck: "got = [] \<and> room \<noteq> 0 \<longrightarrow> (tl (nodes l) = [] \<longrightarrow> xs = []) \<and> fst (queue_empty c q)" .
  have len: "length (nodes (set_pop_head q l)) = length (nodes l)" using ne by (simp add: set_pop_head_def)
  show ?case
  proof (cases "got = []")
    case False
    then have dec: "(room - length got) + length (nodes (set_pop_head q l)) < room + length (nodes l)"
      using got(2) len by (cases got) auto
    have "k + room - length got = k + (room - length got)" using got(2) by simp
    moreover have "room - length got \<le> length rest" using less.prems(2) got(3) by simp
    ultimately obtain l' where
      "list_pop_range c (room - length got) (out @ got) (set_pop_head q l) = Some ((out @ got) @ take (room - length got) rest, l')"
      "list_rel c k l' (drop (room - length got) rest)" using less.hyps [OF dec, of rest "out @ got"] rest by auto
    moreover have "take room xs = got @ take (room - length got) rest" "drop room xs = drop (room - length got) rest"
      using got(2,3) by simp_all
    ultimately show ?thesis
      using False got(1) ne by (simp add: list_pop_range.simps [of c room out l])
  next
    case True
    with rest got(3) have "drain_rel c (k + room) (set_pop_head q l) xs" by simp
    from cleanup_drain [OF this] obtain b l2 where l2: "cleanup_empty c (set_pop_head q l) = Some (b, l2)"
      "list_rel c (k + room) l2 xs" "length (nodes l2) = (if b then length (nodes l) - 1 else length (nodes l))"
      unfolding len by blast
    show ?thesis
    proof (cases "room = 0")
      case True
      then have "list_pop_range c room out l = Some (out, l2)"
        using \<open>got = []\<close> got(1) ne l2(1) unfolding list_pop_range.simps [of c room out l] by simp
      then show ?thesis using True l2(2) by simp
    next
      case False
      have "xs \<noteq> []" using less.prems(2) False by auto
      with stuck \<open>got = []\<close> False obtain q0 r rs where nodes: "nodes l = q0 # r # rs"
        using ne by (cases "nodes l"; cases "tl (nodes l)") auto
      have "b"
        using l2(1) nodes stuck \<open>got = []\<close> False
        by (auto simp: cleanup_empty_def set_pop_head_def bind_eq_Some_conv split: prod.splits)
      then have dec: "room + length (nodes l2) < room + length (nodes l)" using l2(3) nodes by simp
      from less.hyps [OF dec list_rel_drain [OF l2(2)] less.prems(2), of out] show ?thesis
        using False \<open>got = []\<close> got(1) ne l2(1) by (simp add: list_pop_range.simps [of c room out l])
    qed
  qed
qed

text \<open>With fewer elements than the output takes, the loop never ends.\<close>

lemma list_pop_range_diverges:
  assumes "list_pop_range c room out l = Some res"
  shows "\<forall>k xs. drain_rel c (k + room) l xs \<longrightarrow> room \<le> length xs"
proof (rule list_pop_range.raw_induct [of "\<lambda>c room out l res. \<forall>k xs. drain_rel c (k + room) l xs \<longrightarrow> room \<le> length xs", OF _ assms],
    intro allI impI, goal_cases)
  case (1 f c room out l res k xs)
  then have drain: "drain_rel c (k + room) l xs" by simp
  have ne: "nodes l \<noteq> []" using drain by (auto simp: drain_rel_def)
  obtain got q rest where
    got: "queue_pop_range c room (hd (nodes l)) = Some (got, q)" "length got \<le> room" "xs = got @ rest"
    and rest: "drain_rel c (k + room - length got) (set_pop_head q l) rest" by (rule pop_head_range [OF drain])
  show "room \<le> length xs"
  proof (cases "got = []")
    case False
    with "1"(2) got(1) ne have "f c (room - length got) (out @ got) (set_pop_head q l) = Some res" by simp
    moreover have "k + room - length got = k + (room - length got)" using got(2) by simp
    ultimately have "room - length got \<le> length rest" using "1"(1) rest by metis
    with got(3) show ?thesis by simp
  next
    case True
    with rest got(3) have "drain_rel c (k + room) (set_pop_head q l) xs" by simp
    from cleanup_drain [OF this] obtain b l2 where l2: "cleanup_empty c (set_pop_head q l) = Some (b, l2)"
      "list_rel c (k + room) l2 xs" by blast
    show ?thesis
    proof (cases "room = 0")
      case False
      with "1"(2) got(1) ne True l2(1) have "f c room out l2 = Some res" by simp
      then show ?thesis using "1"(1) list_rel_drain [OF l2(2)] by blast
    qed simp
  qed
qed

section \<open>Traversal, size and reset\<close>

lemma for_each_nodes_rel:
  "nodes_rel c k qs xss \<Longrightarrow> \<exists>qs'. for_each_nodes c qs = Some (concat xss, qs') \<and> nodes_rel c k qs' xss"
proof (induction qs arbitrary: xss)
  case Nil
  then show ?case by simp
next
  case (Cons q qs)
  then obtain ys yss p where n: "xss = ys # yss" "ring_rel c k q p ys" "nodes_rel c k qs yss" by auto
  from queue_for_each_rel [OF n(2)] Cons.IH [OF n(3)] n(1) show ?case by auto
qed

lemma list_for_each_rel:
  assumes "list_rel c k l xs"
  shows "\<exists>l'. list_for_each c l = Some (xs, l') \<and> list_rel c k l' xs"
proof -
  from assms obtain xss where x: "params_ok c" "0 < element_count c" "nodes l \<noteq> []" "unat (iterator_counter l) < counter_modulus c"
    "nodes_rel c k (nodes l) xss" "xs = concat xss" "length xss > 1 \<longrightarrow> [] \<notin> set xss" by (rule list_relE)
  from for_each_nodes_rel [OF x(5)] obtain qs where qs: "for_each_nodes c (nodes l) = Some (concat xss, qs)" "nodes_rel c k qs xss"
    by blast
  have "qs \<noteq> []" using nodes_rel_length [OF qs(2)] nodes_rel_length [OF x(5)] x(3) by auto
  then have "list_rel c k (l\<lparr>nodes := qs\<rparr>) xs" using x qs(2) by (auto simp: list_rel_def)
  then show ?thesis using qs(1) x(6) by (simp add: list_for_each_def)
qed

lemma size_nodes_rel:
  "nodes_rel c k qs xss \<Longrightarrow> foldl (\<lambda>counter q. counter + queue_size c q) a qs = a + length (concat xss)"
proof (induction qs arbitrary: xss a)
  case (Cons q qs)
  then obtain ys yss p where n: "xss = ys # yss" "ring_rel c k q p ys" "nodes_rel c k qs yss" by auto
  from Cons.IH [OF n(3)] queue_size_rel [OF n(2)] n(1) show ?case by simp
qed simp

lemma list_size_rel: "list_rel c k l xs \<Longrightarrow> list_size c l = length xs"
  by (auto simp: list_size_def size_nodes_rel elim!: list_relE)

lemma probe_nodes_rel:
  "nodes_rel c k qs xss \<Longrightarrow> counter < request \<Longrightarrow> probe_loop c request counter qs \<longleftrightarrow> request \<le> counter + length (concat xss)"
proof (induction qs arbitrary: xss counter)
  case (Cons q qs)
  then obtain ys yss p where n: "xss = ys # yss" "ring_rel c k q p ys" "nodes_rel c k qs yss" by auto
  from Cons.IH [OF n(3), of "counter + length ys"] queue_size_rel [OF n(2)] n(1) show ?case by auto
qed simp

lemma list_probe_rel: "list_rel c k l xs \<Longrightarrow> 0 < request \<Longrightarrow> list_probe c request l \<longleftrightarrow> request \<le> length xs"
  by (auto simp: list_probe_def probe_nodes_rel elim!: list_relE)

lemma destruct_nodes_rel:
  "nodes_rel c k qs xss \<Longrightarrow> destruct_nodes c qs = Some (replicate (length qs) (replicate (element_count c) None))"
proof (induction qs arbitrary: xss)
  case (Cons q qs)
  then obtain ys yss p where n: "xss = ys # yss" "ring_rel c k q p ys" "nodes_rel c k qs yss" by auto
  from Cons.IH [OF n(3)] queue_destruct_rel [OF n(2)] show ?case by simp
qed simp

text \<open>Resetting keeps no element, and every node is either reset or destroyed.\<close>

lemma reset_nodes_rel:
  "nodes_rel c k qs xss \<Longrightarrow> params_ok c \<Longrightarrow> unat ic < counter_modulus c \<Longrightarrow>
   \<exists>ps ic'. reset_nodes c reserved ic qs = Some (ps, ic') \<and> unat ic' < counter_modulus c \<and>
     nodes_rel c k' ps (replicate (length ps) [])"
proof (induction qs arbitrary: xss ic)
  case (Cons q qs)
  then obtain ys yss p where n: "xss = ys # yss" "ring_rel c k q p ys" "nodes_rel c k qs yss" by auto
  show ?case
  proof (cases "unat ic < reserved")
    case True
    from queue_reset_rel [OF n(2) Cons.prems(3)] obtain q' where
      "queue_reset c ic q = Some q'" "ring_rel c k' q' (unat ic) []" by blast
    moreover from Cons.IH [OF n(3) Cons.prems(2) counter_step_bound [OF Cons.prems(2,3)]] obtain ps ic' where
      "reset_nodes c reserved (step_counter c ic (of_nat (element_count c))) qs = Some (ps, ic')"
      "unat ic' < counter_modulus c" "nodes_rel c k' ps (replicate (length ps) [])" by blast
    ultimately show ?thesis using True by auto
  next
    case False
    then show ?thesis using Cons.prems(3) destruct_nodes_rel [OF Cons.prems(1)] by (auto simp del: destruct_nodes.simps)
  qed
qed simp

lemma list_reset_rel:
  assumes "list_rel c k l xs" and spare: "nodes_rel c k (spare l) yss"
  shows "\<exists>l'. list_reset c reserved l = Some l' \<and> list_rel c k' l' [] \<and>
    nodes_rel c k' (spare l') (replicate (length (spare l')) []) \<and> leaked l' = leaked l"
proof -
  from assms(1) obtain q qs p ys zss where n: "nodes l = q # qs" "ring_rel c k q p ys" "nodes_rel c k qs zss" "params_ok c"
    by (rule list_rel_head)
  have zero: "unat (0 :: size_t) < counter_modulus c" using modulus_bounds(1) [OF n(4)] by simp
  from queue_reset_rel [OF n(2) this] obtain q' where q': "queue_reset c 0 q = Some q'" "ring_rel c k' q' 0 []" by auto
  have ec: "unat (of_nat (element_count c) :: size_t) < counter_modulus c"
    using modulus_bounds(1) [OF n(4)] n(4) by (simp add: unat_of_nat params_ok_def)
  have "nodes_rel c k (qs @ spare l) (zss @ yss)" using n(3) spare by (auto simp: nodes_rel_append)
  from reset_nodes_rel [OF this n(4) ec, of reserved] obtain ps ic where
    ps: "reset_nodes c reserved (of_nat (element_count c)) (qs @ spare l) = Some (ps, ic)"
    "unat ic < counter_modulus c" "nodes_rel c k' ps (replicate (length ps) [])" by blast
  have "list_rel c k' (l\<lparr>nodes := [q'], spare := ps, iterator_counter := ic\<rparr>) []"
    using n(4) ps(2) q'(2) by (auto simp: list_rel_def params_ok_def intro!: exI [of _ "[[]]"])
  then show ?thesis using n(1) q'(1) ps by (simp add: list_reset_def)
qed

section \<open>Properties\<close>

text \<open>
  C15. The chained queue is first in, first out and never refuses an element: for every
  sequence of pushes and takes, of any length, on a new queue whose nodes have fewer than \<open>2 ^ 31\<close> slots every step is defined, the queue does what an unbounded list
  does, and \<open>size\<close> and \<open>for_each\<close> agree with what is left. Nodes are chained and unlinked on the way.
\<close>

theorem queue_list_fifo:
  assumes "params_ok c"
  shows "\<exists>acc del l rest. run_queue (\<lambda>t l. map_option (Pair True) (list_push c t l)) (list_take c True) (list_make c) es = Some (acc, del, l) \<and>
    fifo_run (\<lambda>xs. True) [] es = (acc, del, rest) \<and> acc = [t. Push t \<leftarrow> es] \<and> acc = del @ rest \<and>
    list_size c l = length rest \<and> map_option fst (list_for_each c l) = Some rest"
proof -
  have "list_rel c (0 + length es) (list_make c) []" by (rule list_rel_make [OF assms])
  from chain.run_fifo [OF this] obtain acc del l rest where
    run: "run_queue (\<lambda>t l. map_option (Pair True) (list_push c t l)) (list_take c True) (list_make c) es = Some (acc, del, l)"
    "fifo_run (\<lambda>xs. True) [] es = (acc, del, rest)" and rel: "list_rel c 0 l rest" by auto
  with fifo_run_order [OF run(2)] fifo_run_all [OF run(2)] list_for_each_rel [OF rel] list_size_rel [OF rel] show ?thesis by auto
qed

theorem queue_list_fifo_witness:
  "\<exists>acc del l rest. run_queue (\<lambda>t l. map_option (Pair True) (list_push \<lparr>element_count = 2, spsc_optimized = True\<rparr> t l))
      (list_take \<lparr>element_count = 2, spsc_optimized = True\<rparr> True) (list_make \<lparr>element_count = 2, spsc_optimized = True\<rparr>)
      [Push ''a'', Push ''b'', Push ''c'', Take] = Some (acc, del, l) \<and> acc = del @ rest"
proof -
  have "params_ok \<lparr>element_count = 2, spsc_optimized = True\<rparr>" by (simp add: params_ok_def)
  from queue_list_fifo [OF this, of "[Push ''a'', Push ''b'', Push ''c'', Take]"] show ?thesis by force
qed

text \<open>
  The bulk operations: a pushed range is appended whole, over as many new nodes as it
  takes, also by the streaming variant; \<open>pop(from, to)\<close> returns exactly the oldest elements
  when the queue holds as many as the output takes, and it returns only then: with
  fewer elements its loop never ends.
\<close>

theorem queue_list_bulk:
  assumes "list_rel c (k + room) l xs" and "k + room \<le> 2 ^ 32"
  shows "(\<exists>l'. list_push_range c from l = Some l' \<and> list_rel c (k + room) l' (xs @ from)) \<and>
    (\<exists>l'. list_push_stream c trivial esize from l = Some l' \<and> list_rel c (k + room) l' (xs @ from)) \<and>
    (if room \<le> length xs
     then \<exists>l'. list_pop_range c room [] l = Some (take room xs, l') \<and> list_rel c k l' (drop room xs)
     else list_pop_range c room [] l = None)"
proof (intro conjI)
  show "if room \<le> length xs
     then \<exists>l'. list_pop_range c room [] l = Some (take room xs, l') \<and> list_rel c k l' (drop room xs)
     else list_pop_range c room [] l = None"
    using list_pop_range_returns [OF list_rel_drain [OF assms(1)], of "[]"] list_pop_range_diverges [of c room "[]" l] list_rel_drain [OF assms(1)]
    by (cases "list_pop_range c room [] l") auto
qed (rule list_push_range_rel [OF assms] list_push_stream_rel [OF assms])+

theorem queue_list_bulk_witness:
  "list_pop_range \<lparr>element_count = 2, spsc_optimized = True\<rparr> 1 [] (list_make \<lparr>element_count = 2, spsc_optimized = True\<rparr> :: nat queue_list_t) = None"
proof -
  let ?c = "\<lparr>element_count = 2, spsc_optimized = True\<rparr>"
  have "params_ok ?c" by (simp add: params_ok_def)
  then have "list_rel ?c (0 + 1) (list_make ?c :: nat queue_list_t) []" by (rule list_rel_make)
  from queue_list_bulk [OF this, of "[]" True 0] show ?thesis by simp
qed

section \<open>Where the code departs from its intent\<close>

text \<open>
  \<open>reset\<close> keeps nodes in reserve, but a push that needs a node allocates a new one and
  overwrites the link: the reserved nodes are unreachable afterwards.
\<close>

lemma reserved_nodes_leak:
  assumes "nodes l \<noteq> []" and "queue_push c t (last (nodes l)) = Some (None, q)"
    and "queue_push c t (queue_make c (iterator_counter l)) = Some (w, p)"
  shows "\<exists>l'. list_push c t l = Some l' \<and> spare l' = [] \<and> leaked l' = leaked l @ spare l"
  using assms by (simp add: list_push_def Let_def chain_node_def set_push_head_def)

text \<open>
  \<open>operator+\<close> of the iterator restarts at the beginning of the node it ends in: from the
  second element of a node, one step forward stays where it is.
\<close>

lemma iterator_plus_restarts:
  "list_iterator_plus \<lparr>element_count = 4, spsc_optimized = False\<rparr>
     [\<lparr>push_count = 3, pop_count = 0, push_cached_pop = 0, pop_cached_push = 0,
       ring_buffer = [Some ''a'', Some ''b'', Some ''c'', None]\<rparr>] 0 1 1 = Some (0, 1)"
  by code_simp

text \<open>
  Iterators compare their counters only, and a node's counters do not continue those of
  the node before it once a ring has been reused: a position in the first node equals the end.
\<close>

lemma iterator_equal_too_early:
  assumes "qs = [\<lparr>push_count = 5, pop_count = 3, push_cached_pop = 3, pop_cached_push = 3, ring_buffer = [Some ''b'', Some ''a'']\<rparr>,
      \<lparr>push_count = 4, pop_count = 2, push_cached_pop = 2, pop_cached_push = 2, ring_buffer = [Some ''c'', Some ''d'']\<rparr>]"
  shows "let it = list_iterator_step \<lparr>element_count = 2, spsc_optimized = True\<rparr> qs (0, 3)
     in list_iterator_deref \<lparr>element_count = 2, spsc_optimized = True\<rparr> qs it = Some ''b'' \<and> list_iterator_eq it (1, push_count (last qs))"
  unfolding assms by code_simp

end
