(* ===== verification/Resource_Pool.thy ===== *)
theory Resource_Pool
  imports Queue_List
begin

text \<open>
  The reuse pool \<open>iris_pool_t\<close> of \<open>iris_common.h\<close>, on a chained queue. What
  \<open>acquire_element\<close> of the derived class returns is an argument; what its
  \<open>release_element\<close> is called on is part of the result. The debugging counter of the debug
  build has no counterpart.
\<close>

section \<open>State and operations\<close>

record 'a iris_pool_t =
  max_size :: nat
  pool_queue :: "'a queue_list_t"

definition pool_make :: "queue_params_t \<Rightarrow> nat \<Rightarrow> 'a iris_pool_t" where
  "pool_make c n = \<lparr>max_size = n, pool_queue = list_make c\<rparr>"

definition pool_acquire :: "queue_params_t \<Rightarrow> bool \<Rightarrow> 'a \<Rightarrow> 'a iris_pool_t \<Rightarrow> ('a \<times> 'a iris_pool_t) option" where
  "pool_acquire c fence fresh p = do {
     (e, l) \<leftarrow> list_empty c (pool_queue p);
     if e then Some (fresh, p\<lparr>pool_queue := l\<rparr>)
     else do {
       (x, l1) \<leftarrow> list_top c fence l;
       l2 \<leftarrow> list_pop c fence l1;
       Some (x, p\<lparr>pool_queue := l2\<rparr>)
     }
   }"

definition pool_release :: "queue_params_t \<Rightarrow> 'a \<Rightarrow> 'a iris_pool_t \<Rightarrow> ('a list \<times> 'a iris_pool_t) option" where
  "pool_release c x p =
     (if list_size c (pool_queue p) < max_size p then do {
        l \<leftarrow> list_push c x (pool_queue p);
        Some ([], p\<lparr>pool_queue := l\<rparr>)
      }
      else Some ([x], p))"

definition pool_clear :: "queue_params_t \<Rightarrow> 'a iris_pool_t \<Rightarrow> ('a list \<times> 'a iris_pool_t) option" where
  "pool_clear c p = do {
     (xs, l) \<leftarrow> list_for_each c (pool_queue p);
     l1 \<leftarrow> list_clear c l;
     Some (xs, p\<lparr>pool_queue := l1\<rparr>)
   }"

section \<open>Refinement\<close>

definition pool_rel :: "queue_params_t \<Rightarrow> nat \<Rightarrow> 'a iris_pool_t \<Rightarrow> 'a list \<Rightarrow> bool" where
  "pool_rel c k p xs \<longleftrightarrow> list_rel c k (pool_queue p) xs \<and> length xs \<le> max_size p \<and> spare (pool_queue p) = []"

lemma cleanup_spare: "cleanup_empty c l = Some (b, l') \<Longrightarrow> spare l' = spare l"
  by (auto simp: cleanup_empty_def set_pop_head_def bind_eq_Some_conv split: list.splits prod.splits if_splits)

lemma cleanup_fenced_spare: "cleanup_fenced c fence l = Some l' \<Longrightarrow> spare l' = spare l"
  by (auto simp: cleanup_fenced_def split: if_splits dest: cleanup_spare)

lemma empty_spare: "list_empty c l = Some (e, l') \<Longrightarrow> spare l' = spare l"
  by (auto simp: list_empty_def Let_def set_pop_head_def set_push_head_def split: prod.splits if_splits)

lemma reset_none: "reset_nodes c 0 ic qs = Some (ps, ic') \<Longrightarrow> ps = []"
  by (cases qs) (auto simp: bind_eq_Some_conv)

lemma take_spare: "list_take c fence l = Some (x, l') \<Longrightarrow> spare l' = spare l"
  by (auto simp: list_take_def list_top_def list_pop_def set_pop_head_def bind_eq_Some_conv
      dest!: empty_spare cleanup_fenced_spare cleanup_spare split: prod.splits if_splits)

lemma push_spare: "spare l = [] \<Longrightarrow> list_push c t l = Some l' \<Longrightarrow> spare l' = []"
  by (auto simp: list_push_def Let_def set_push_head_def chain_node_def bind_eq_Some_conv split: if_splits)

lemma pool_acquire_take:
  "pool_acquire c fence fresh p =
     map_option (\<lambda>(x, l). (case x of None \<Rightarrow> fresh | Some y \<Rightarrow> y, p\<lparr>pool_queue := l\<rparr>)) (list_take c fence (pool_queue p))"
  by (auto simp: pool_acquire_def list_take_def split: Option.bind_splits)

section \<open>Properties\<close>

text \<open>
  The pool hands out the released element that has waited longest and makes a new one
  only when none waits; it keeps at most \<open>max_size\<close> elements, and an element that does not
  fit is released for good. Clearing releases exactly the waiting elements.
\<close>

theorem pool_reuses:
  assumes "pool_rel c (Suc k) p xs" and "spsc_optimized c \<longrightarrow> fence"
  shows "(\<exists>p'. pool_acquire c fence fresh p = Some (case xs of [] \<Rightarrow> fresh | x # _ \<Rightarrow> x, p') \<and> pool_rel c k p' (tl xs)) \<and>
    (\<exists>p'. pool_release c y p = Some (if length xs < max_size p then [] else [y], p') \<and>
      pool_rel c (Suc k) p' (if length xs < max_size p then xs @ [y] else xs)) \<and>
    (\<exists>p'. pool_clear c p = Some (xs, p') \<and> pool_rel c (Suc k) p' [])"
proof (intro conjI)
  have rel: "list_rel c (Suc k) (pool_queue p) xs" and len: "length xs \<le> max_size p" and sp: "spare (pool_queue p) = []"
    using assms(1) by (auto simp: pool_rel_def)
  show "\<exists>p'. pool_acquire c fence fresh p = Some (case xs of [] \<Rightarrow> fresh | x # _ \<Rightarrow> x, p') \<and> pool_rel c k p' (tl xs)"
  proof (cases xs)
    case Nil
    with list_empty_rel [OF rel] obtain l where "list_take c fence (pool_queue p) = Some (None, l)" "list_rel c (Suc k) l []"
      by (auto simp: list_take_def)
    then show ?thesis using Nil take_spare sp list_rel_weaken by (fastforce simp: pool_acquire_take pool_rel_def)
  next
    case (Cons x ys)
    with list_take_rel [of c k "pool_queue p" x ys fence] rel assms(2) obtain l where
      "list_take c fence (pool_queue p) = Some (Some x, l)" "list_rel c k l ys" by auto
    then show ?thesis using Cons take_spare sp len by (fastforce simp: pool_acquire_take pool_rel_def)
  qed
  show "\<exists>p'. pool_release c y p = Some (if length xs < max_size p then [] else [y], p') \<and>
      pool_rel c (Suc k) p' (if length xs < max_size p then xs @ [y] else xs)"
    using list_push_rel [OF rel, of y] list_size_rel [OF rel] rel len sp push_spare [OF sp, of c y]
    by (auto simp: pool_release_def pool_rel_def)
  show "\<exists>p'. pool_clear c p = Some (xs, p') \<and> pool_rel c (Suc k) p' []"
  proof -
    from list_for_each_rel [OF rel] obtain l where l: "list_for_each c (pool_queue p) = Some (xs, l)" "list_rel c (Suc k) l xs" by blast
    have "spare l = []" using l(1) sp by (auto simp: list_for_each_def bind_eq_Some_conv)
    then obtain l' where l': "list_reset c 0 l = Some l'" "list_rel c (Suc k) l' []"
      using list_reset_rel [OF l(2), of "[]" 0 "Suc k"] by auto
    have "spare l' = []"
      using l'(1) \<open>spare l = []\<close>
      by (auto simp: list_reset_def bind_eq_Some_conv split: list.splits dest: reset_none)
    then show ?thesis using l(1) l' by (simp add: pool_clear_def list_clear_def pool_rel_def)
  qed
qed

theorem pool_reuses_witness:
  "\<exists>p'. pool_release \<lparr>element_count = 2, spsc_optimized = True\<rparr> (7 :: nat) (pool_make \<lparr>element_count = 2, spsc_optimized = True\<rparr> 1) = Some ([], p')"
proof -
  let ?c = "\<lparr>element_count = 2, spsc_optimized = True\<rparr>"
  have "params_ok ?c" by (simp add: params_ok_def)
  then have "list_rel ?c (Suc 0) (list_make ?c :: nat queue_list_t) []" by (rule list_rel_make)
  then have "pool_rel ?c (Suc 0) (pool_make ?c 1 :: nat iris_pool_t) []" by (simp add: pool_rel_def pool_make_def list_make_def)
  from pool_reuses [OF this, of True 0 7] show ?thesis by (auto simp: pool_make_def)
qed

end
