(* ===== verification/Quota.thy ===== *)
theory Quota
  imports Prelude
begin

text \<open>
  The multi-resource quota \<open>iris_quota_t\<close> of \<open>iris_common.h\<close>. \<open>acquire\<close> takes its amounts one
  resource at a time by compare-and-swap and gives back what it took when one is short, so
  several threads interleave inside it. The theory has the operations as functions, for one
  thread at a time, and the same loops as a step relation over any number of threads, in which
  one step is one atomic access.

  \<open>quantity_t\<close> is an unsigned type; the amounts are natural numbers. The conservation law shows that no
  quantity ever exceeds its initial value, so the type cannot overflow.
\<close>

section \<open>One thread at a time\<close>

type_synonym amount_t = "nat list"

text \<open>\<open>fetch_add\<close> of the amounts at the given indices; a zero amount is skipped.\<close>

fun give_back :: "amount_t \<Rightarrow> nat list \<Rightarrow> nat list \<Rightarrow> nat list" where
  "give_back amount [] quantities = quantities"
| "give_back amount (k # ks) quantities =
     (if amount ! k = 0 then give_back amount ks quantities
      else give_back amount ks (quantities[k := quantities ! k + amount ! k]))"

fun acquire_loop :: "amount_t \<Rightarrow> nat \<Rightarrow> nat \<Rightarrow> nat list \<Rightarrow> bool \<times> nat list" where
  "acquire_loop amount i 0 quantities = (True, quantities)"
| "acquire_loop amount i (Suc left) quantities =
     (let m = amount ! i in
      if m = 0 then acquire_loop amount (Suc i) left quantities
      else if quantities ! i < m then (False, give_back amount [0..<i] quantities)
      else acquire_loop amount (Suc i) left (quantities[i := quantities ! i - m]))"

definition quota_acquire :: "amount_t \<Rightarrow> nat list \<Rightarrow> bool \<times> nat list" where
  "quota_acquire amount quantities = acquire_loop amount 0 (length quantities) quantities"

definition quota_release :: "amount_t \<Rightarrow> nat list \<Rightarrow> nat list" where
  "quota_release amount quantities = give_back amount [0..<length quantities] quantities"

text \<open>
  \<open>guard_t\<close>: the amount it holds, if its construction succeeded, and the quantities after it.
\<close>

definition guard_construct :: "amount_t \<Rightarrow> nat list \<Rightarrow> amount_t option \<times> nat list" where
  "guard_construct amount quantities =
     (let (ok, quantities1) = quota_acquire amount quantities
      in (if ok then Some amount else None, quantities1))"

definition guard_move :: "amount_t option \<Rightarrow> amount_t option \<times> amount_t option" where
  "guard_move rhs = (rhs, None)"

definition guard_destruct :: "amount_t option \<Rightarrow> nat list \<Rightarrow> nat list" where
  "guard_destruct g quantities = (case g of None \<Rightarrow> quantities | Some amount \<Rightarrow> quota_release amount quantities)"

lemma length_give_back [simp]: "length (give_back amount ks qs) = length qs"
  by (induction amount ks qs rule: give_back.induct) auto

lemma give_back_nth:
  "distinct ks \<Longrightarrow> \<forall>k \<in> set ks. k < length qs \<Longrightarrow> j < length qs \<Longrightarrow>
   give_back amount ks qs ! j = (if j \<in> set ks then qs ! j + amount ! j else qs ! j)"
  by (induction amount ks qs rule: give_back.induct) (auto simp: nth_list_update)

text \<open>What the loop has taken is the difference to the quantities at the start.\<close>

lemma acquire_loop_spec:
  "i + left = length qs \<Longrightarrow> length init = length qs \<Longrightarrow>
   \<forall>j < i. amount ! j \<le> init ! j \<and> qs ! j = init ! j - amount ! j \<Longrightarrow> \<forall>j < length qs. i \<le> j \<longrightarrow> qs ! j = init ! j \<Longrightarrow>
   acquire_loop amount i left qs =
     (if \<forall>j < length init. amount ! j \<le> init ! j
      then (True, map (\<lambda>j. init ! j - amount ! j) [0..<length init]) else (False, init))"
proof (induction amount i left qs rule: acquire_loop.induct)
  case (1 amount i qs)
  then have "qs = map (\<lambda>j. init ! j - amount ! j) [0..<length init]" by (intro nth_equalityI) auto
  moreover have "\<forall>j < length init. amount ! j \<le> init ! j" using 1 by simp
  ultimately show ?case by simp
next
  case (2 amount i left qs)
  have i: "i < length qs" "qs ! i = init ! i" using "2.prems" by auto
  consider "amount ! i = 0" | "amount ! i \<noteq> 0" "qs ! i < amount ! i" | "amount ! i \<noteq> 0" "\<not> qs ! i < amount ! i" by blast
  then show ?case
  proof cases
    case 1
    have "acquire_loop amount (Suc i) left qs =
      (if \<forall>j < length init. amount ! j \<le> init ! j
      then (True, map (\<lambda>j. init ! j - amount ! j) [0..<length init]) else (False, init))"
      by (rule "2.IH"(1) [OF refl]) (use "2.prems" 1 i in \<open>auto simp: less_Suc_eq\<close>)
    with 1 show ?thesis by (simp add: Let_def)
  next
    case 2
    have "give_back amount [0..<i] qs = init"
    proof (rule nth_equalityI)
      fix j
      assume "j < length (give_back amount [0..<i] qs)"
      then show "give_back amount [0..<i] qs ! j = init ! j"
        using "2.prems" i by (subst give_back_nth) (auto simp: not_less)
    qed (use "2.prems" in simp)
    moreover have "\<not> (\<forall>j < length init. amount ! j \<le> init ! j)"
      using 2(2) i "2.prems"(2) by (metis not_le)
    ultimately show ?thesis using 2 by (auto simp: Let_def)
  next
    case 3
    have "acquire_loop amount (Suc i) left (qs[i := qs ! i - amount ! i]) =
      (if \<forall>j < length init. amount ! j \<le> init ! j
      then (True, map (\<lambda>j. init ! j - amount ! j) [0..<length init]) else (False, init))"
      by (rule "2.IH"(2) [OF refl 3]) (use "2.prems" 3 i in \<open>auto simp: less_Suc_eq nth_list_update\<close>)
    with 3 show ?thesis by (simp add: Let_def)
  qed
qed

section \<open>Many threads\<close>

text \<open>
  Where a thread stands: inside \<open>acquire\<close> at resource \<open>i\<close>, giving back the first \<open>i\<close> resources
  from \<open>k\<close> on after a failure, holding its amount, or inside \<open>release\<close> at resource \<open>k\<close>.
\<close>

datatype quota_thread =
    Idle
  | Acquiring amount_t nat
  | Returning amount_t nat nat
  | Held amount_t
  | Releasing amount_t nat

record quota_state =
  quantities :: "nat list"
  threads :: "quota_thread list"

text \<open>One atomic access of one thread; a failed compare-and-swap changes nothing.\<close>

inductive thread_step :: "nat list \<Rightarrow> quota_thread \<Rightarrow> nat list \<Rightarrow> quota_thread \<Rightarrow> bool" where
  start: "length a = length q \<Longrightarrow> thread_step q Idle q (Acquiring a 0)"
| skip: "i < length q \<Longrightarrow> a ! i = 0 \<Longrightarrow> thread_step q (Acquiring a i) q (Acquiring a (Suc i))"
| take_one: "i < length q \<Longrightarrow> a ! i \<noteq> 0 \<Longrightarrow> a ! i \<le> q ! i \<Longrightarrow>
    thread_step q (Acquiring a i) (q[i := q ! i - a ! i]) (Acquiring a (Suc i))"
| short: "i < length q \<Longrightarrow> q ! i < a ! i \<Longrightarrow> thread_step q (Acquiring a i) q (Returning a i 0)"
| success: "thread_step q (Acquiring a (length q)) q (Held a)"
| return_one: "k < i \<Longrightarrow> thread_step q (Returning a i k) (q[k := q ! k + a ! k]) (Returning a i (Suc k))"
| failure: "thread_step q (Returning a i i) q Idle"
| release: "thread_step q (Held a) q (Releasing a 0)"
| release_one: "k < length q \<Longrightarrow> thread_step q (Releasing a k) (q[k := q ! k + a ! k]) (Releasing a (Suc k))"
| released: "thread_step q (Releasing a (length q)) q Idle"

inductive quota_step :: "quota_state \<Rightarrow> quota_state \<Rightarrow> bool" where
  "t < length (threads s) \<Longrightarrow> thread_step (quantities s) (threads s ! t) q' t' \<Longrightarrow>
   quota_step s \<lparr>quantities = q', threads = (threads s)[t := t']\<rparr>"

inductive_cases thread_stepE: "thread_step q t q' t'"

text \<open>What a thread has taken out of resource \<open>j\<close> and not yet given back.\<close>

fun owns :: "quota_thread \<Rightarrow> nat \<Rightarrow> nat" where
  "owns Idle j = 0"
| "owns (Acquiring a i) j = (if j < i then a ! j else 0)"
| "owns (Returning a i k) j = (if k \<le> j \<and> j < i then a ! j else 0)"
| "owns (Held a) j = a ! j"
| "owns (Releasing a k) j = (if k \<le> j then a ! j else 0)"

fun thread_ok :: "nat \<Rightarrow> quota_thread \<Rightarrow> bool" where
  "thread_ok n Idle = True"
| "thread_ok n (Acquiring a i) = (length a = n \<and> i \<le> n)"
| "thread_ok n (Returning a i k) = (length a = n \<and> i < n \<and> k \<le> i)"
| "thread_ok n (Held a) = (length a = n)"
| "thread_ok n (Releasing a k) = (length a = n \<and> k \<le> n)"

definition conserved :: "nat list \<Rightarrow> quota_state \<Rightarrow> bool" where
  "conserved init s \<longleftrightarrow>
     length (quantities s) = length init \<and> (\<forall>t \<in> set (threads s). thread_ok (length init) t) \<and>
     (\<forall>j < length init. quantities s ! j + (\<Sum>t \<leftarrow> threads s. owns t j) = init ! j)"

lemma thread_step_local:
  "thread_step q t q' t' \<Longrightarrow> thread_ok (length q) t \<Longrightarrow>
   length q' = length q \<and> thread_ok (length q) t' \<and> (\<forall>j < length q. q' ! j + owns t' j = q ! j + owns t j)"
  by (erule thread_step.cases) (auto simp: nth_list_update less_Suc_eq Suc_le_eq le_less)

lemma quota_step_conserves:
  assumes "quota_step s s'" and "conserved init s"
  shows "conserved init s'"
  using assms(1)
proof cases
  case (1 t q' t')
  let ?q = "quantities s" and ?ts = "threads s"
  have len: "length ?q = length init" using assms(2) by (simp add: conserved_def)
  have "thread_ok (length ?q) (?ts ! t)" using assms(2) 1(2) len by (simp add: conserved_def)
  from thread_step_local [OF 1(3) this] have loc: "length q' = length init" "thread_ok (length init) t'"
    "\<forall>j < length init. q' ! j + owns t' j = ?q ! j + owns (?ts ! t) j" using len by auto
  have "q' ! j + (\<Sum>u \<leftarrow> ?ts[t := t']. owns u j) = init ! j" if "j < length init" for j
  proof -
    have "(\<Sum>u \<leftarrow> ?ts[t := t']. owns u j) + owns (?ts ! t) j = (\<Sum>u \<leftarrow> ?ts. owns u j) + owns t' j"
      by (rule sum_list_update_one [OF 1(2)])
    moreover have "?q ! j + (\<Sum>u \<leftarrow> ?ts. owns u j) = init ! j" using assms(2) that by (simp add: conserved_def)
    moreover have "q' ! j + owns t' j = ?q ! j + owns (?ts ! t) j" using loc(3) that by blast
    ultimately show ?thesis by linarith
  qed
  then show ?thesis
    using assms(2) 1(1) loc(1,2) set_update_subset_insert [of ?ts t t'] by (auto simp: conserved_def)
qed

interpretation quota: step_invariant quota_step "conserved init" for init
  by unfold_locales (rule quota_step_conserves)

section \<open>Properties\<close>

text \<open>
  The quota as a transaction: \<open>acquire\<close> succeeds exactly when every resource has
  enough, then takes all amounts, and otherwise leaves every quantity as it was; and
  releasing what a guard acquired restores the quantities.
\<close>

theorem quota_acquire_all_or_nothing:
  assumes "length amount = length q"
  shows "quota_acquire amount q =
      (if \<forall>j < length q. amount ! j \<le> q ! j
       then (True, map (\<lambda>j. q ! j - amount ! j) [0..<length q]) else (False, q)) \<and>
    (let (g, q1) = guard_construct amount q in guard_destruct g q1 = q)"
proof -
  have acq: "quota_acquire amount q =
      (if \<forall>j < length q. amount ! j \<le> q ! j
       then (True, map (\<lambda>j. q ! j - amount ! j) [0..<length q]) else (False, q))"
    unfolding quota_acquire_def by (rule acquire_loop_spec) auto
  have "quota_release amount (map (\<lambda>j. q ! j - amount ! j) [0..<length q]) = q"
    if "\<forall>j < length q. amount ! j \<le> q ! j"
    using that by (intro nth_equalityI) (auto simp: quota_release_def give_back_nth)
  then show ?thesis using acq by (auto simp: guard_construct_def guard_destruct_def)
qed

theorem quota_acquire_all_or_nothing_witness: "quota_acquire [1, 2] [3, 1] = (False, [3, 1])"
  using quota_acquire_all_or_nothing [of "[1, 2]" "[3, 1]"] by (auto simp: less_Suc_eq)

text \<open>
  C18. Under every interleaving of any number of threads that acquire and release, each
  quantity together with what the threads have taken of it stays the initial amount, so the
  quota is never exceeded and no quantity overflows; and once all threads are idle the
  quantities are the initial ones.
\<close>

theorem quota_conserved:
  assumes "quota_step\<^sup>*\<^sup>* \<lparr>quantities = init, threads = replicate n Idle\<rparr> s" and "j < length init"
  shows "quantities s ! j + (\<Sum>t \<leftarrow> threads s. owns t j) = init ! j \<and>
    (set (threads s) \<subseteq> {Idle} \<longrightarrow> quantities s = init)"
proof -
  have "conserved init \<lparr>quantities = init, threads = replicate n Idle\<rparr>"
    by (auto simp: conserved_def sum_list_replicate)
  from quota.reachable_inv [OF assms(1) this] have c: "conserved init s" .
  have "quantities s = init" if "set (threads s) \<subseteq> {Idle}"
  proof (rule nth_equalityI)
    fix i
    assume "i < length (quantities s)"
    then have "quantities s ! i + (\<Sum>t \<leftarrow> threads s. owns t i) = init ! i" using c by (simp add: conserved_def)
    moreover have "(\<Sum>t \<leftarrow> threads s. owns t i) = 0" using that by auto
    ultimately show "quantities s ! i = init ! i" by linarith
  qed (use c in \<open>simp add: conserved_def\<close>)
  with c assms(2) show ?thesis by (simp add: conserved_def)
qed

theorem quota_conserved_witness:
  "\<exists>s. quota_step\<^sup>*\<^sup>* \<lparr>quantities = [5], threads = [Idle]\<rparr> s \<and> quantities s ! 0 + (\<Sum>t \<leftarrow> threads s. owns t 0) = 5 \<and>
     threads s = [Acquiring [2] 1]"
proof -
  let ?s0 = "\<lparr>quantities = [5], threads = [Idle]\<rparr>" and ?s1 = "\<lparr>quantities = [5], threads = [Acquiring [2] 0]\<rparr>"
    and ?s2 = "\<lparr>quantities = [3], threads = [Acquiring [2] 1]\<rparr>"
  have "quota_step ?s0 ?s1" using quota_step.intros [of 0 ?s0 "[5]" "Acquiring [2] 0"] thread_step.start [of "[2]" "[5]"] by simp
  moreover have "quota_step ?s1 ?s2" using quota_step.intros [of 0 ?s1 "[3]" "Acquiring [2] 1"] thread_step.take_one [of 0 "[5]" "[2]"] by simp
  ultimately have run: "quota_step\<^sup>*\<^sup>* ?s0 ?s2" by (meson rtranclp.rtrancl_into_rtrancl rtranclp.rtrancl_refl)
  then have "quota_step\<^sup>*\<^sup>* \<lparr>quantities = [5], threads = replicate 1 Idle\<rparr> ?s2" by simp
  from quota_conserved [OF this, of 0] run show ?thesis by (intro exI [of _ ?s2]) simp
qed

end
