(* ===== verification/Warp.thy ===== *)
theory Warp
  imports Prelude
begin

text \<open>
  The strand variant of \<open>iris_warp_t\<close> in \<open>iris_dispatcher.h\<close>: the scheduler that runs the tasks
  of one warp one at a time on whatever worker thread gets hold of it. Any number of threads
  are inside the warp's code at once. Each has a program counter \<open>warp_pc\<close>, one step is
  one access to an atomic variable (or to state only the owner touches), and the
  steps of different threads interleave freely, in a sequentially consistent memory.

  A thread outside the warp may post a task (\<open>queue_routine_post\<close>), run one at once
  (\<open>queue_routine\<close>), suspend or resume the warp, post a parallel task
  (\<open>queue_routine_parallel\<close>, \<open>queue_routine_parallel_post\<close>), or take a job of the worker
  pool. What a running task does to its own warp are steps of such other threads while the
  task runs. The ghost fields record the posted and the started tasks, the suspensions held by
  users of the warp, and whether a suspension ever interrupted a batch.

  Left out are \<open>poll\<close>, which drains a warp for shutdown, a task that yields its own warp,
  and a thread that is already on the warp when it enters \<open>execute\<close> or \<open>queue_routine\<close>.
\<close>

section \<open>State\<close>

type_synonym task = nat

datatype queue_state_t = idle | pending | executing

record warp_t =
  thread_warp :: "nat option"
  suspend_count :: nat
  queueing :: queue_state_t
  executing_head :: "task list"
  queueing_head :: "task list"
  parallel_task_head :: "task list"
  posted :: nat
  parallel_jobs :: "task list"
  user_suspends :: nat
  pushed :: "task list"
  started :: "task list"
  interrupted :: bool

definition warp_init :: warp_t where
  "warp_init = \<lparr>thread_warp = None, suspend_count = 0, queueing = idle, executing_head = [], queueing_head = [],
     parallel_task_head = [], posted = 0, parallel_jobs = [], user_suspends = 0, pushed = [], started = [],
     interrupted = False\<rparr>"

text \<open>Where a call returns to: out of the warp, to the end of \<open>execute\<close>, or to the guard's destructor.\<close>

datatype continuation = Leave | Tail | Unlock

datatype warp_pc =
    Outside
  | Push task continuation
  | Flush_Load continuation | Flush_Exchange continuation | Flush_Post continuation
  | Exec_Check | Exec_Guard | Exec_Preempt | Exec_Recheck | Exec_Parallel | Exec_Double | Exec_Postpone
  | Exec_Mark | Exec_Fetch | Exec_Next | Exec_Running task | Exec_After
  | Yield_Clear continuation | Yield_Exchange continuation
  | Tail_Check | Tail_Preempt | Tail_Parallel
  | Route_Guard task | Route_Preempt task | Route_Recheck task | Route_Running task
  | Resume_Sub | Resume_Exchange
  | Par_Test task bool | Par_Link task | Par_Running task

fun return_to :: "continuation \<Rightarrow> warp_pc" where
  "return_to Leave = Outside"
| "return_to Tail = Tail_Check"
| "return_to Unlock = Yield_Clear Leave"

section \<open>The steps of a thread inside the warp\<close>

text \<open>
  One function per method: the accesses the method makes, at the program counters inside it.
\<close>

text \<open>\<open>push\<close>\<close>

fun push_step :: "warp_pc \<Rightarrow> warp_t \<Rightarrow> warp_t \<times> warp_pc" where
  "push_step (Push f c) w =
     (w\<lparr>queueing_head := f # queueing_head w, pushed := pushed w @ [f]\<rparr>, Flush_Load c)"
| "push_step pc w = (w, pc)"

text \<open>\<open>flush\<close>\<close>

fun flush_step :: "warp_pc \<Rightarrow> warp_t \<Rightarrow> warp_t \<times> warp_pc" where
  "flush_step (Flush_Load c) w = (w, if queueing w \<noteq> pending then Flush_Exchange c else return_to c)"
| "flush_step (Flush_Exchange c) w =
     (w\<lparr>queueing := pending\<rparr>, if queueing w = idle then Flush_Post c else return_to c)"
| "flush_step (Flush_Post c) w = (w\<lparr>posted := posted w + 1\<rparr>, return_to c)"
| "flush_step pc w = (w, pc)"

text \<open>\<open>yield\<close>\<close>

fun yield_step :: "warp_pc \<Rightarrow> warp_t \<Rightarrow> warp_t \<times> warp_pc" where
  "yield_step (Yield_Clear c) w = (w\<lparr>thread_warp := None\<rparr>, Yield_Exchange c)"
| "yield_step (Yield_Exchange c) w =
     (w\<lparr>queueing := idle\<rparr>, if queueing w = pending then Flush_Load c else return_to c)"
| "yield_step pc w = (w, pc)"

text \<open>\<open>resume\<close>\<close>

fun resume_step :: "warp_pc \<Rightarrow> warp_t \<Rightarrow> warp_t \<times> warp_pc" where
  "resume_step Resume_Sub w =
     (w\<lparr>suspend_count := suspend_count w - 1\<rparr>, if suspend_count w = 1 then Resume_Exchange else Outside)"
| "resume_step Resume_Exchange w =
     (w\<lparr>queueing := idle\<rparr>, if queueing w = pending then Flush_Load Leave else Outside)"
| "resume_step pc w = (w, pc)"

text \<open>\<open>queue_routine\<close>\<close>

fun queue_routine_step :: "nat \<Rightarrow> warp_pc \<Rightarrow> warp_t \<Rightarrow> warp_t \<times> warp_pc" where
  "queue_routine_step t (Route_Guard f) w = (w, if suspend_count w \<le> 0 then Route_Preempt f else Push f Leave)"
| "queue_routine_step t (Route_Preempt f) w =
     (if thread_warp w = None then (w\<lparr>thread_warp := Some t\<rparr>, Route_Recheck f) else (w, Push f Leave))"
| "queue_routine_step t (Route_Recheck f) w = (w, if suspend_count w \<le> 0 then Route_Running f else Push f Unlock)"
| "queue_routine_step t (Route_Running f) w = (w, Yield_Clear Leave)"
| "queue_routine_step t pc w = (w, pc)"

text \<open>\<open>queue_routine_parallel_internal\<close>\<close>

fun parallel_internal_step :: "warp_pc \<Rightarrow> warp_t \<Rightarrow> warp_t \<times> warp_pc" where
  "parallel_internal_step (Par_Test f self_execute) w =
     (if thread_warp w = None then
        (if self_execute then (w, Par_Running f)
         else (w\<lparr>parallel_jobs := parallel_jobs w @ [f]\<rparr>, Outside))
      else (w, Par_Link f))"
| "parallel_internal_step (Par_Link f) w = (w\<lparr>parallel_task_head := f # parallel_task_head w\<rparr>, Flush_Load Leave)"
| "parallel_internal_step pc w = (w, pc)"

text \<open>\<open>suspend_t::operator()\<close>\<close>

fun suspend_task_step :: "warp_pc \<Rightarrow> warp_t \<Rightarrow> warp_t \<times> warp_pc" where
  "suspend_task_step (Par_Running f) w = (w, Resume_Sub)"
| "suspend_task_step pc w = (w, pc)"

text \<open>\<open>execute_parallel\<close>\<close>

fun execute_parallel_step :: "warp_pc \<Rightarrow> warp_t \<Rightarrow> warp_t \<times> warp_pc" where
  "execute_parallel_step Exec_Parallel w =
     (if parallel_task_head w \<noteq> []
      then (w\<lparr>parallel_task_head := [], parallel_jobs := parallel_jobs w @ parallel_task_head w\<rparr>, Exec_Parallel)
      else (w, Exec_Double))"
| "execute_parallel_step Tail_Parallel w =
     (if parallel_task_head w \<noteq> []
      then (w\<lparr>parallel_task_head := [], parallel_jobs := parallel_jobs w @ parallel_task_head w\<rparr>, Tail_Parallel)
      else (w, Yield_Clear Leave))"
| "execute_parallel_step pc w = (w, pc)"

text \<open>\<open>execute_internal\<close>\<close>

fun execute_internal_step :: "warp_pc \<Rightarrow> warp_t \<Rightarrow> warp_t \<times> warp_pc" where
  "execute_internal_step Exec_Mark w = (w\<lparr>queueing := executing\<rparr>, Exec_Fetch)"
| "execute_internal_step Exec_Fetch w =
     (if executing_head w \<noteq> [] then (w, Exec_Next)
      else if queueing_head w \<noteq> [] then (w\<lparr>executing_head := rev (queueing_head w), queueing_head := []\<rparr>, Exec_Next)
      else (w, Yield_Clear Tail))"
| "execute_internal_step Exec_Next w =
     (case executing_head w of
        [] \<Rightarrow> (w, Exec_Fetch)
      | f # fs \<Rightarrow> (w\<lparr>executing_head := fs, started := started w @ [f]\<rparr>, Exec_Running f))"
| "execute_internal_step (Exec_Running f) w = (w, Exec_After)"
| "execute_internal_step Exec_After w =
     (if suspend_count w \<noteq> 0 then (w\<lparr>interrupted := True\<rparr>, Yield_Clear Tail) else (w, Exec_Next))"
| "execute_internal_step pc w = (w, pc)"

text \<open>\<open>execute\<close>\<close>

fun execute_step :: "nat \<Rightarrow> warp_pc \<Rightarrow> warp_t \<Rightarrow> warp_t \<times> warp_pc" where
  "execute_step t Exec_Check w = (w, if suspend_count w = 0 then Exec_Guard else Tail_Check)"
| "execute_step t Exec_Guard w = (w, if suspend_count w \<le> 0 then Exec_Preempt else Tail_Check)"
| "execute_step t Exec_Preempt w =
     (if thread_warp w = None then (w\<lparr>thread_warp := Some t\<rparr>, Exec_Recheck) else (w, Tail_Check))"
| "execute_step t Exec_Recheck w = (w, if suspend_count w \<le> 0 then Exec_Parallel else Yield_Clear Tail)"
| "execute_step t Exec_Double w = (w, if suspend_count w = 0 then Exec_Mark else Exec_Postpone)"
| "execute_step t Exec_Postpone w = (w\<lparr>queueing := pending\<rparr>, Yield_Clear Tail)"
| "execute_step t Tail_Check w = (w, if parallel_task_head w \<noteq> [] then Tail_Preempt else Outside)"
| "execute_step t Tail_Preempt w =
     (if thread_warp w = None then (w\<lparr>thread_warp := Some t\<rparr>, Tail_Parallel) else (w, Outside))"
| "execute_step t pc w = (w, pc)"

text \<open>
  \<open>advance t pc w\<close>: the next access of thread \<open>t\<close> at \<open>pc\<close>, as the new warp state and the new
  program counter.
\<close>

fun advance :: "nat \<Rightarrow> warp_pc \<Rightarrow> warp_t \<Rightarrow> warp_t \<times> warp_pc" where
  "advance t Outside w = (w, Outside)"
| "advance t (Push f c) w = push_step (Push f c) w"
| "advance t (Flush_Load c) w = flush_step (Flush_Load c) w"
| "advance t (Flush_Exchange c) w = flush_step (Flush_Exchange c) w"
| "advance t (Flush_Post c) w = flush_step (Flush_Post c) w"
| "advance t Exec_Check w = execute_step t Exec_Check w"
| "advance t Exec_Guard w = execute_step t Exec_Guard w"
| "advance t Exec_Preempt w = execute_step t Exec_Preempt w"
| "advance t Exec_Recheck w = execute_step t Exec_Recheck w"
| "advance t Exec_Parallel w = execute_parallel_step Exec_Parallel w"
| "advance t Exec_Double w = execute_step t Exec_Double w"
| "advance t Exec_Postpone w = execute_step t Exec_Postpone w"
| "advance t Exec_Mark w = execute_internal_step Exec_Mark w"
| "advance t Exec_Fetch w = execute_internal_step Exec_Fetch w"
| "advance t Exec_Next w = execute_internal_step Exec_Next w"
| "advance t (Exec_Running f) w = execute_internal_step (Exec_Running f) w"
| "advance t Exec_After w = execute_internal_step Exec_After w"
| "advance t (Yield_Clear c) w = yield_step (Yield_Clear c) w"
| "advance t (Yield_Exchange c) w = yield_step (Yield_Exchange c) w"
| "advance t Tail_Check w = execute_step t Tail_Check w"
| "advance t Tail_Preempt w = execute_step t Tail_Preempt w"
| "advance t Tail_Parallel w = execute_parallel_step Tail_Parallel w"
| "advance t (Route_Guard f) w = queue_routine_step t (Route_Guard f) w"
| "advance t (Route_Preempt f) w = queue_routine_step t (Route_Preempt f) w"
| "advance t (Route_Recheck f) w = queue_routine_step t (Route_Recheck f) w"
| "advance t (Route_Running f) w = queue_routine_step t (Route_Running f) w"
| "advance t Resume_Sub w = resume_step Resume_Sub w"
| "advance t Resume_Exchange w = resume_step Resume_Exchange w"
| "advance t (Par_Test f self_execute) w = parallel_internal_step (Par_Test f self_execute) w"
| "advance t (Par_Link f) w = parallel_internal_step (Par_Link f) w"
| "advance t (Par_Running f) w = suspend_task_step (Par_Running f) w"

text \<open>What a thread outside the warp may begin.\<close>

inductive begin_call :: "warp_t \<Rightarrow> warp_t \<Rightarrow> warp_pc \<Rightarrow> bool" where
  post: "begin_call w w (Push f Leave)"
| route: "begin_call w w (Route_Guard f)"
| suspend: "begin_call w (w\<lparr>suspend_count := suspend_count w + 1, user_suspends := user_suspends w + 1\<rparr>) Outside"
| resume: "0 < user_suspends w \<Longrightarrow> begin_call w (w\<lparr>user_suspends := user_suspends w - 1\<rparr>) Resume_Sub"
| parallel: "begin_call w (w\<lparr>suspend_count := suspend_count w + 1\<rparr>) (Par_Test f self_execute)"
| run_execute: "0 < posted w \<Longrightarrow> begin_call w (w\<lparr>posted := posted w - 1\<rparr>) Exec_Check"
| run_parallel: "parallel_jobs w = fs @ f # gs \<Longrightarrow> begin_call w (w\<lparr>parallel_jobs := fs @ gs\<rparr>) (Par_Running f)"

inductive warp_step :: "warp_t \<times> warp_pc list \<Rightarrow> warp_t \<times> warp_pc list \<Rightarrow> bool" where
  inside: "t < length pcs \<Longrightarrow> advance t (pcs ! t) w = (w', pc') \<Longrightarrow> warp_step (w, pcs) (w', pcs[t := pc'])"
| start: "t < length pcs \<Longrightarrow> pcs ! t = Outside \<Longrightarrow> begin_call w w' pc' \<Longrightarrow> warp_step (w, pcs) (w', pcs[t := pc'])"

definition warp_reachable :: "nat \<Rightarrow> warp_t \<Rightarrow> warp_pc list \<Rightarrow> bool" where
  "warp_reachable n w pcs \<longleftrightarrow> warp_step\<^sup>*\<^sup>* (warp_init, replicate n Outside) (w, pcs)"

section \<open>Ownership\<close>

text \<open>The program counters of a thread that holds the warp.\<close>

fun owns_warp :: "warp_pc \<Rightarrow> bool" where
  "owns_warp Exec_Recheck = True"
| "owns_warp Exec_Parallel = True"
| "owns_warp Exec_Double = True"
| "owns_warp Exec_Postpone = True"
| "owns_warp Exec_Mark = True"
| "owns_warp Exec_Fetch = True"
| "owns_warp Exec_Next = True"
| "owns_warp (Exec_Running f) = True"
| "owns_warp Exec_After = True"
| "owns_warp (Yield_Clear c) = True"
| "owns_warp Tail_Parallel = True"
| "owns_warp (Route_Recheck f) = True"
| "owns_warp (Route_Running f) = True"
| "owns_warp (Push f c) = (c = Unlock)"
| "owns_warp (Flush_Load c) = (c = Unlock)"
| "owns_warp (Flush_Exchange c) = (c = Unlock)"
| "owns_warp (Flush_Post c) = (c = Unlock)"
| "owns_warp _ = False"

text \<open>A yield never continues with the guard's destructor: it is the destructor.\<close>

fun pc_ok :: "warp_pc \<Rightarrow> bool" where
  "pc_ok (Yield_Clear c) = (c \<noteq> Unlock)"
| "pc_ok (Yield_Exchange c) = (c \<noteq> Unlock)"
| "pc_ok _ = True"

definition mutex_inv :: "warp_t \<times> warp_pc list \<Rightarrow> bool" where
  "mutex_inv s \<longleftrightarrow> (case s of (w, pcs) \<Rightarrow>
     (\<forall>t < length pcs. pc_ok (pcs ! t) \<and> (owns_warp (pcs ! t) \<longleftrightarrow> thread_warp w = Some t)) \<and>
     (\<forall>t. thread_warp w = Some t \<longrightarrow> t < length pcs))"

lemma advance_owner:
  "advance t pc w = (w', pc') \<Longrightarrow> pc_ok pc \<Longrightarrow> owns_warp pc \<longleftrightarrow> thread_warp w = Some t \<Longrightarrow>
   pc_ok pc' \<and> (owns_warp pc' \<longleftrightarrow> thread_warp w' = Some t) \<and>
   (thread_warp w' = thread_warp w \<or> thread_warp w = None \<and> thread_warp w' = Some t \<or> thread_warp w = Some t \<and> thread_warp w' = None)"
  by (cases "(t, pc, w)" rule: advance.cases; (cases "case pc of Push _ c \<Rightarrow> c | Flush_Load c \<Rightarrow> c | Flush_Exchange c \<Rightarrow> c
      | Flush_Post c \<Rightarrow> c | Yield_Clear c \<Rightarrow> c | Yield_Exchange c \<Rightarrow> c | _ \<Rightarrow> Leave"))
    (auto split: if_splits list.splits)

lemma begin_owner:
  "begin_call w w' pc' \<Longrightarrow> thread_warp w' = thread_warp w \<and> \<not> owns_warp pc' \<and> pc_ok pc'"
  by (erule begin_call.cases) auto

lemma mutex_step: "mutex_inv s \<Longrightarrow> warp_step s s' \<Longrightarrow> mutex_inv s'"
  by (erule warp_step.cases)
    (force simp: mutex_inv_def nth_list_update dest!: advance_owner begin_owner split: if_splits)+

lemma mutexD:
  assumes "mutex_inv (w, pcs)"
  shows "t < length pcs \<Longrightarrow> owns_warp (pcs ! t) \<longleftrightarrow> thread_warp w = Some t"
    "pc \<in> set pcs \<Longrightarrow> owns_warp pc \<Longrightarrow> thread_warp w \<noteq> None"
    "set pcs \<subseteq> {Outside} \<Longrightarrow> thread_warp w = None"
proof -
  show 1: "t < length pcs \<Longrightarrow> owns_warp (pcs ! t) \<longleftrightarrow> thread_warp w = Some t" for t
    using assms by (simp add: mutex_inv_def)
  show "pc \<in> set pcs \<Longrightarrow> owns_warp pc \<Longrightarrow> thread_warp w \<noteq> None"
    using 1 by (metis in_set_conv_nth option.distinct(1))
  show "thread_warp w = None" if "set pcs \<subseteq> {Outside}"
  proof (rule ccontr)
    assume "thread_warp w \<noteq> None"
    then obtain t where "thread_warp w = Some t" by blast
    moreover from this have "t < length pcs" using assms by (simp add: mutex_inv_def)
    moreover from this that have "pcs ! t = Outside" using nth_mem by fastforce
    ultimately show False using 1 by fastforce
  qed
qed

section \<open>Order\<close>

definition order_inv :: "warp_t \<times> warp_pc list \<Rightarrow> bool" where
  "order_inv s \<longleftrightarrow> (case s of (w, pcs) \<Rightarrow> pushed w = started w @ executing_head w @ rev (queueing_head w))"

lemma advance_order:
  "advance t pc w = (w', pc') \<Longrightarrow> pushed w = started w @ executing_head w @ rev (queueing_head w) \<Longrightarrow>
   pushed w' = started w' @ executing_head w' @ rev (queueing_head w')"
  by (cases "(t, pc, w)" rule: advance.cases) (auto split: if_splits list.splits)

lemma begin_order:
  "begin_call w w' pc' \<Longrightarrow> pushed w' = pushed w \<and> started w' = started w \<and> executing_head w' = executing_head w \<and>
   queueing_head w' = queueing_head w \<and> queueing w' = queueing w \<and> interrupted w' = interrupted w"
  by (erule begin_call.cases) auto

lemma order_step: "order_inv s \<Longrightarrow> warp_step s s' \<Longrightarrow> order_inv s'"
  by (erule warp_step.cases) (auto simp: order_inv_def dest: advance_order begin_order)

section \<open>Suspension\<close>

text \<open>Every suspension has a holder: a user, a parallel task that waits, or one on its way.\<close>

fun holds_suspend :: "warp_pc \<Rightarrow> nat" where
  "holds_suspend (Par_Test f b) = 1"
| "holds_suspend (Par_Link f) = 1"
| "holds_suspend (Par_Running f) = 1"
| "holds_suspend Resume_Sub = 1"
| "holds_suspend _ = 0"

definition suspend_total :: "warp_t \<Rightarrow> nat" where
  "suspend_total w = user_suspends w + length (parallel_task_head w) + length (parallel_jobs w)"

definition suspend_inv :: "warp_t \<times> warp_pc list \<Rightarrow> bool" where
  "suspend_inv s \<longleftrightarrow> (case s of (w, pcs) \<Rightarrow> suspend_count w = suspend_total w + (\<Sum>pc \<leftarrow> pcs. holds_suspend pc))"

lemma holds_return [simp]: "holds_suspend (return_to c) = 0"
  by (cases c) auto

lemma advance_suspend:
  "advance t pc w = (w', pc') \<Longrightarrow> holds_suspend pc \<le> suspend_count w \<Longrightarrow>
   suspend_count w' + suspend_total w + holds_suspend pc = suspend_count w + suspend_total w' + holds_suspend pc'"
  by (cases "(t, pc, w)" rule: advance.cases) (auto simp: suspend_total_def split: if_splits list.splits)

lemma begin_suspend:
  "begin_call w w' pc' \<Longrightarrow> suspend_count w' + suspend_total w = suspend_count w + suspend_total w' + holds_suspend pc'"
  by (erule begin_call.cases) (auto simp: suspend_total_def)

lemma suspend_step:
  assumes inv: "suspend_inv s" and step: "warp_step s s'"
  shows "suspend_inv s'"
  using step
proof cases
  case (inside t pcs w w' pc')
  have "holds_suspend (pcs ! t) \<le> (\<Sum>pc \<leftarrow> pcs. holds_suspend pc)" using inside(3) by (intro sum_list_member_le) simp
  with inv inside(1) have "holds_suspend (pcs ! t) \<le> suspend_count w" by (simp add: suspend_inv_def)
  from advance_suspend [OF inside(4) this] sum_list_update_one [OF inside(3), of holds_suspend pc'] inv inside(1,2)
  show ?thesis by (simp add: suspend_inv_def)
next
  case (start t pcs w w' pc')
  from begin_suspend [OF start(5)] sum_list_update_one [OF start(3), of holds_suspend pc'] inv start(1,2,4)
  show ?thesis by (simp add: suspend_inv_def)
qed

section \<open>Exclusive and parallel tasks\<close>

text \<open>The program counters from the last check of the suspension to the end of the tasks.\<close>

fun exclusive :: "warp_pc \<Rightarrow> bool" where
  "exclusive Exec_Mark = True"
| "exclusive Exec_Fetch = True"
| "exclusive Exec_Next = True"
| "exclusive (Exec_Running f) = True"
| "exclusive Exec_After = True"
| "exclusive (Route_Running f) = True"
| "exclusive _ = False"

fun runs_parallel :: "warp_pc \<Rightarrow> bool" where
  "runs_parallel (Par_Running f) = True"
| "runs_parallel _ = False"

definition parallel_inv :: "warp_t \<times> warp_pc list \<Rightarrow> bool" where
  "parallel_inv s \<longleftrightarrow> (case s of (w, pcs) \<Rightarrow>
     (\<exists>pc \<in> set pcs. exclusive pc) \<longrightarrow> parallel_jobs w = [] \<and> (\<forall>pc \<in> set pcs. \<not> runs_parallel pc))"

lemma return_not_running [simp]: "\<not> exclusive (return_to c)" "\<not> runs_parallel (return_to c)"
  by (cases c; simp)+

lemma exclusive_owns: "exclusive pc \<Longrightarrow> owns_warp pc"
  by (cases pc rule: exclusive.cases) auto

lemma not_suspended:
  assumes "suspend_inv (w, pcs)" and "suspend_count w = 0"
  shows "parallel_jobs w = []" "pc \<in> set pcs \<Longrightarrow> \<not> runs_parallel pc"
proof -
  from assms have "parallel_jobs w = [] \<and> (\<Sum>pc \<leftarrow> pcs. holds_suspend pc) = 0" by (auto simp: suspend_inv_def suspend_total_def)
  then show "parallel_jobs w = []" "pc \<in> set pcs \<Longrightarrow> \<not> runs_parallel pc"
    by (auto elim!: runs_parallel.elims)
qed

text \<open>How a step enters a stretch of exclusive tasks, or adds a parallel task.\<close>

lemma advance_exclusive:
  "advance t pc w = (w', pc') \<Longrightarrow> exclusive pc' \<Longrightarrow> exclusive pc \<or> suspend_count w = 0 \<and> parallel_jobs w' = parallel_jobs w"
  by (cases "(t, pc, w)" rule: advance.cases) (auto split: if_splits list.splits)

lemma exclusive_advance:
  "advance t pc w = (w', pc') \<Longrightarrow> exclusive pc \<Longrightarrow> parallel_jobs w' = parallel_jobs w \<and> \<not> runs_parallel pc'"
  by (cases "(t, pc, w)" rule: advance.cases) (auto split: if_splits list.splits)

lemma owned_advance:
  "advance t pc w = (w', pc') \<Longrightarrow> \<not> owns_warp pc \<Longrightarrow> thread_warp w \<noteq> None \<Longrightarrow>
    parallel_jobs w' = parallel_jobs w \<and> (runs_parallel pc' \<longrightarrow> runs_parallel pc)"
  by (cases "(t, pc, w)" rule: advance.cases) (auto split: if_splits list.splits)

lemma begin_parallel:
  "begin_call w w' pc' \<Longrightarrow> parallel_jobs w = [] \<Longrightarrow> parallel_jobs w' = [] \<and> \<not> runs_parallel pc'"
  "begin_call w w' pc' \<Longrightarrow> \<not> exclusive pc'"
  by (erule begin_call.cases; auto)+

lemma parallel_step:
  assumes inv: "parallel_inv s" "mutex_inv s" "suspend_inv s" and step: "warp_step s s'"
  shows "parallel_inv s'"
  using step
proof cases
  case (start t pcs w w' pc')
  have "exclusive pc \<Longrightarrow> pc \<in> set (pcs[t := pc']) \<Longrightarrow> pc \<in> set pcs" for pc
    using begin_parallel(2) [OF start(5)] set_update_subset_insert [of pcs t pc'] by auto
  then show ?thesis
    using inv(1) start begin_parallel(1) [OF start(5)] set_update_subset_insert [of pcs t pc']
    by (auto simp: parallel_inv_def)
next
  case (inside t pcs w w' pc')
  have mutex: "mutex_inv (w, pcs)" and susp: "suspend_inv (w, pcs)" using inv(2,3) inside(1) by auto
  show ?thesis
    unfolding inside(2) parallel_inv_def prod.case
  proof
    assume "\<exists>pc \<in> set (pcs[t := pc']). exclusive pc"
    then consider "exclusive pc'" | u where "u < length pcs" "u \<noteq> t" "exclusive (pcs ! u)"
      using inside(3) by (auto simp: in_set_conv_nth nth_list_update split: if_splits)
    then have "parallel_jobs w' = [] \<and> \<not> runs_parallel pc' \<and> (\<forall>pc \<in> set pcs. \<not> runs_parallel pc)"
    proof cases
      case 1
      show ?thesis
      proof (cases "exclusive (pcs ! t)")
        case True
        then show ?thesis
          using exclusive_advance [OF inside(4)] inv(1) inside(1,3) by (auto simp: parallel_inv_def)
      next
        case False
        with advance_exclusive [OF inside(4) 1] have "suspend_count w = 0" "parallel_jobs w' = parallel_jobs w" by auto
        then show ?thesis using not_suspended [OF susp] 1 by (auto elim: runs_parallel.elims)
      qed
    next
      case 2
      then have "thread_warp w = Some u" using mutexD(1) [OF mutex, of u] exclusive_owns by blast
      then have "\<not> owns_warp (pcs ! t)" using mutexD(1) [OF mutex inside(3)] 2(2) by auto
      with owned_advance [OF inside(4)] \<open>thread_warp w = Some u\<close>
      have "parallel_jobs w' = parallel_jobs w" "runs_parallel pc' \<longrightarrow> runs_parallel (pcs ! t)" by auto
      moreover have "parallel_jobs w = [] \<and> (\<forall>pc \<in> set pcs. \<not> runs_parallel pc)"
        using inv(1) inside(1) 2(1,3) by (auto simp: parallel_inv_def)
      ultimately show ?thesis using inside(3) by auto
    qed
    then show "parallel_jobs w' = [] \<and> (\<forall>pc \<in> set (pcs[t := pc']). \<not> runs_parallel pc)"
      using set_update_subset_insert [of pcs t pc'] by auto
  qed
qed

section \<open>Wake-up\<close>

text \<open>
  A request to run the warp is on its way: in the flag, with a thread that is about to set
  the flag, or with a thread that will look for tasks once more.
\<close>

fun waking :: "warp_pc \<Rightarrow> bool" where
  "waking (Flush_Load c) = True"
| "waking (Flush_Exchange c) = True"
| "waking Exec_Fetch = True"
| "waking Exec_Next = True"
| "waking (Exec_Running f) = True"
| "waking Exec_After = True"
| "waking _ = False"

text \<open>Somebody acts on the flag: a job in the worker pool, or a thread on its way to it or from it.\<close>

fun carries :: "warp_pc \<Rightarrow> bool" where
  "carries (Flush_Post c) = True"
| "carries Exec_Check = True"
| "carries Exec_Guard = True"
| "carries Exec_Preempt = True"
| "carries (Yield_Exchange c) = True"
| "carries Resume_Exchange = True"
| "carries _ = False"

fun yields :: "warp_pc \<Rightarrow> bool" where
  "yields (Yield_Exchange c) = True"
| "yields _ = False"

definition attended :: "warp_t \<times> warp_pc list \<Rightarrow> bool" where
  "attended s \<longleftrightarrow> (case s of (w, pcs) \<Rightarrow>
     0 < posted w \<or> 0 < suspend_count w \<or> thread_warp w \<noteq> None \<or> (\<exists>pc \<in> set pcs. carries pc))"

definition wake_inv :: "warp_t \<times> warp_pc list \<Rightarrow> bool" where
  "wake_inv s \<longleftrightarrow> (case s of (w, pcs) \<Rightarrow>
     (executing_head w @ queueing_head w \<noteq> [] \<longrightarrow> interrupted w \<or> queueing w = pending \<or> (\<exists>pc \<in> set pcs. waking pc)) \<and>
     (queueing w = executing \<longrightarrow> thread_warp w \<noteq> None \<or> (\<exists>pc \<in> set pcs. yields pc)) \<and>
     (queueing w = pending \<longrightarrow> attended s))"

lemma return_wakes [simp]: "\<not> waking (return_to c)" "\<not> carries (return_to c)" "\<not> yields (return_to c)"
  by (cases c; simp)+

lemma advance_waking:
  "advance t pc w = (w', pc') \<Longrightarrow>
   executing_head w' @ queueing_head w' \<noteq> [] \<Longrightarrow> \<not> interrupted w' \<Longrightarrow> queueing w' \<noteq> pending \<Longrightarrow> \<not> waking pc' \<Longrightarrow>
   executing_head w @ queueing_head w \<noteq> [] \<and> \<not> interrupted w \<and> queueing w \<noteq> pending \<and> \<not> waking pc"
  by (cases "(t, pc, w)" rule: advance.cases) (auto split: if_splits list.splits)

lemma advance_executing:
  "advance t pc w = (w', pc') \<Longrightarrow> owns_warp pc \<longleftrightarrow> thread_warp w = Some t \<Longrightarrow>
   queueing w' = executing \<Longrightarrow> thread_warp w' = None \<Longrightarrow> \<not> yields pc' \<Longrightarrow>
   queueing w = executing \<and> thread_warp w = None \<and> \<not> yields pc"
  by (cases "(t, pc, w)" rule: advance.cases) (auto split: if_splits list.splits)

lemma advance_pending:
  "advance t pc w = (w', pc') \<Longrightarrow> owns_warp pc \<longleftrightarrow> thread_warp w = Some t \<Longrightarrow>
   queueing w' = pending \<Longrightarrow> posted w' = 0 \<Longrightarrow> suspend_count w' = 0 \<Longrightarrow> thread_warp w' = None \<Longrightarrow> \<not> carries pc' \<Longrightarrow>
   posted w = 0 \<and> suspend_count w = 0 \<and> thread_warp w = None \<and> \<not> carries pc \<and> queueing w \<noteq> idle"
  by (cases "(t, pc, w)" rule: advance.cases) (auto split: if_splits list.splits)

lemma begin_wake:
  "begin_call w w' pc' \<Longrightarrow> posted w' = 0 \<Longrightarrow> suspend_count w' = 0 \<Longrightarrow> \<not> carries pc' \<Longrightarrow> posted w = 0 \<and> suspend_count w = 0"
  by (erule begin_call.cases) auto

lemma yields_carries: "yields pc \<Longrightarrow> carries pc"
  by (cases pc rule: yields.cases) auto

lemma wake_step:
  assumes inv: "wake_inv s" "mutex_inv s" and step: "warp_step s s'"
  shows "wake_inv s'"
  using step
proof cases
  case (inside t pcs w w' pc')
  let ?other = "\<lambda>P. \<exists>u < length pcs. u \<noteq> t \<and> P (pcs ! u)"
  note upd = bex_nth_split [OF inside(3)] bex_list_update [OF inside(3)]
  have own: "owns_warp (pcs ! t) \<longleftrightarrow> thread_warp w = Some t" using mutexD(1) inv(2) inside(1,3) by blast
  have 1: "executing_head w @ queueing_head w \<noteq> [] \<Longrightarrow> interrupted w \<or> queueing w = pending \<or> waking (pcs ! t) \<or> ?other waking"
    and 2: "queueing w = executing \<Longrightarrow> thread_warp w \<noteq> None \<or> yields (pcs ! t) \<or> ?other yields"
    and 3: "queueing w = pending \<Longrightarrow> 0 < posted w \<or> 0 < suspend_count w \<or> thread_warp w \<noteq> None \<or> carries (pcs ! t) \<or> ?other carries"
    using inv(1) unfolding inside(1) wake_inv_def attended_def prod.case upd by blast+
  have "executing_head w' @ queueing_head w' \<noteq> [] \<longrightarrow> interrupted w' \<or> queueing w' = pending \<or> waking pc' \<or> ?other waking"
    using advance_waking [OF inside(4)] 1 by blast
  moreover have "queueing w' = executing \<longrightarrow> thread_warp w' \<noteq> None \<or> yields pc' \<or> ?other yields"
    using advance_executing [OF inside(4) own] 2 by blast
  moreover have "queueing w' = pending \<longrightarrow>
      0 < posted w' \<or> 0 < suspend_count w' \<or> thread_warp w' \<noteq> None \<or> carries pc' \<or> ?other carries"
    using advance_pending [OF inside(4) own] 2 3 yields_carries by (cases "queueing w") (fastforce)+
  ultimately show ?thesis unfolding inside(2) wake_inv_def attended_def prod.case upd by blast
next
  case (start t pcs w w' pc')
  let ?other = "\<lambda>P. \<exists>u < length pcs. u \<noteq> t \<and> P (pcs ! u)"
  note upd = bex_nth_split [OF start(3)] bex_list_update [OF start(3)]
  have [simp]: "\<not> waking (pcs ! t)" "\<not> yields (pcs ! t)" "\<not> carries (pcs ! t)" using start(4) by simp_all
  show ?thesis
    using inv(1) begin_order [OF start(5)] begin_owner [OF start(5)] begin_wake [OF start(5)]
    unfolding start(1,2) wake_inv_def attended_def prod.case upd by auto
qed

section \<open>What holds in every schedule\<close>

definition warp_inv :: "warp_t \<times> warp_pc list \<Rightarrow> bool" where
  "warp_inv s \<longleftrightarrow> mutex_inv s \<and> order_inv s \<and> suspend_inv s \<and> parallel_inv s \<and> wake_inv s"

interpretation warp: step_invariant warp_step warp_inv
  by unfold_locales (auto simp: warp_inv_def intro: mutex_step order_step suspend_step parallel_step wake_step)

lemma warp_inv_init: "warp_inv (warp_init, replicate n Outside)"
  by (auto simp: warp_inv_def mutex_inv_def order_inv_def suspend_inv_def suspend_total_def parallel_inv_def wake_inv_def
      attended_def warp_init_def sum_list_replicate)

lemma reachable_warp_inv: "warp_reachable n w pcs \<Longrightarrow> warp_inv (w, pcs)"
  unfolding warp_reachable_def by (rule warp.reachable_inv [OF _ warp_inv_init])


section \<open>Schedules\<close>

text \<open>
  A schedule names a thread and what it does: the next access, or, outside the warp, a call.
  Playing it runs the steps of the relation, one after another.
\<close>

datatype warp_action =
    Go | Do_Post task | Do_Route task | Do_Suspend | Do_Resume | Do_Parallel task bool | Do_Execute | Do_Job

fun warp_call :: "warp_action \<Rightarrow> warp_t \<Rightarrow> (warp_t \<times> warp_pc) option" where
  "warp_call Go w = None"
| "warp_call (Do_Post f) w = Some (w, Push f Leave)"
| "warp_call (Do_Route f) w = Some (w, Route_Guard f)"
| "warp_call Do_Suspend w = Some (w\<lparr>suspend_count := suspend_count w + 1, user_suspends := user_suspends w + 1\<rparr>, Outside)"
| "warp_call Do_Resume w = (if 0 < user_suspends w then Some (w\<lparr>user_suspends := user_suspends w - 1\<rparr>, Resume_Sub) else None)"
| "warp_call (Do_Parallel f b) w = Some (w\<lparr>suspend_count := suspend_count w + 1\<rparr>, Par_Test f b)"
| "warp_call Do_Execute w = (if 0 < posted w then Some (w\<lparr>posted := posted w - 1\<rparr>, Exec_Check) else None)"
| "warp_call Do_Job w = (case parallel_jobs w of [] \<Rightarrow> None | f # fs \<Rightarrow> Some (w\<lparr>parallel_jobs := fs\<rparr>, Par_Running f))"

fun perform :: "warp_t \<times> warp_pc list \<Rightarrow> nat \<times> warp_action \<Rightarrow> (warp_t \<times> warp_pc list) option" where
  "perform (w, pcs) (t, a) =
     (if t < length pcs then
        if a = Go then Some (let (w', pc') = advance t (pcs ! t) w in (w', pcs[t := pc']))
        else if pcs ! t = Outside then map_option (\<lambda>(w', pc'). (w', pcs[t := pc'])) (warp_call a w)
        else None
      else None)"

lemma warp_call_begins: "warp_call a w = Some (w', pc') \<Longrightarrow> begin_call w w' pc'"
  using begin_call.run_parallel [of w "[]"]
  by (cases a) (auto split: if_splits list.splits intro: begin_call.intros [simplified])

lemma perform_step: "perform s e = Some s' \<Longrightarrow> warp_step s s'"
  by (cases s; cases e) (auto split: if_splits prod.splits intro: warp_step.intros warp_call_begins)

lemma play_steps: "run_requests perform s es = Some s' \<Longrightarrow> warp_step\<^sup>*\<^sup>* s s'"
  by (induction es arbitrary: s) (auto split: option.splits intro: converse_rtranclp_into_rtranclp perform_step)

lemma play_reachable:
  "run_requests perform (warp_init, replicate n Outside) es = Some (w, pcs) \<Longrightarrow> warp_reachable n w pcs"
  unfolding warp_reachable_def by (rule play_steps)

text \<open>A schedule that plays to its end reaches a state, with everything a check finds there.\<close>

definition plays_to :: "nat \<Rightarrow> (nat \<times> warp_action) list \<Rightarrow> warp_pc list \<Rightarrow> (warp_t \<Rightarrow> bool) \<Rightarrow> bool" where
  "plays_to n es pcs P \<longleftrightarrow>
     (case run_requests perform (warp_init, replicate n Outside) es of
        None \<Rightarrow> False | Some (w, pcs') \<Rightarrow> pcs' = pcs \<and> P w)"

lemma plays_to_reachable: "plays_to n es pcs P \<Longrightarrow> \<exists>w. warp_reachable n w pcs \<and> P w"
  by (auto simp: plays_to_def split: option.splits intro: play_reachable)

section \<open>Properties\<close>

text \<open>A thread is inside a task of the warp, exclusive or parallel.\<close>

fun in_task :: "warp_pc \<Rightarrow> bool" where
  "in_task (Exec_Running f) = True"
| "in_task (Route_Running f) = True"
| "in_task (Par_Running f) = True"
| "in_task _ = False"

lemma in_task_cases: "in_task pc \<Longrightarrow> exclusive pc \<or> runs_parallel pc"
  by (cases pc rule: in_task.cases) auto

lemma exclusive_unique:
  assumes "mutex_inv (w, pcs)" and "t < length pcs" "u < length pcs" and "exclusive (pcs ! t)" "exclusive (pcs ! u)"
  shows "t = u"
  using assms mutexD(1) exclusive_owns by (metis option.inject)

text \<open>
  C1. A warp runs one task at a time, under every interleaving of any number of threads: while
  a thread is inside a task that it took from the queue or that \<open>queue_routine\<close> runs at once, no other
  thread is inside a task of the warp, parallel tasks included. The owner in \<open>thread_warp\<close>
  is that thread.
\<close>

theorem warp_exclusive_execution:
  assumes "warp_reachable n w pcs" and "t < length pcs" and "u < length pcs"
    and "pcs ! t = Exec_Running f \<or> pcs ! t = Route_Running f" and "in_task (pcs ! u)"
  shows "t = u \<and> thread_warp w = Some t"
proof -
  have inv: "mutex_inv (w, pcs)" "parallel_inv (w, pcs)" using reachable_warp_inv [OF assms(1)] by (auto simp: warp_inv_def)
  have t: "exclusive (pcs ! t)" using assms(4) by auto
  then have "\<not> runs_parallel (pcs ! u)" using inv(2) assms(2,3) by (auto simp: parallel_inv_def)
  then have "exclusive (pcs ! u)" using in_task_cases [OF assms(5)] by blast
  with exclusive_unique [OF inv(1) assms(2,3) t] mutexD(1) [OF inv(1) assms(2)] exclusive_owns [OF t] show ?thesis by simp
qed

text \<open>Thread 0 runs a posted task while thread 1 posts another one.\<close>

definition busy_schedule :: "(nat \<times> warp_action) list" where
  "busy_schedule = (0, Do_Post 7) # replicate 4 (0, Go) @ (0, Do_Execute) # replicate 9 (0, Go) @ (1, Do_Post 8) # replicate 2 (1, Go)"

lemma busy_run:
  "\<exists>w. warp_reachable 2 w [Exec_Running 7, Flush_Exchange Leave] \<and> started w = [7] \<and> pushed w = [7, 8]"
  by (rule plays_to_reachable [of _ busy_schedule]) code_simp

theorem warp_exclusive_execution_witness:
  "\<exists>w. warp_reachable 2 w [Exec_Running 7, Flush_Exchange Leave] \<and> thread_warp w = Some 0"
proof -
  obtain w where w: "warp_reachable 2 w [Exec_Running 7, Flush_Exchange Leave]" using busy_run by blast
  from warp_exclusive_execution [OF w, of 0 0 7] w show ?thesis by auto
qed

text \<open>
  C3. A warp is first in, first out: in every reachable state the started tasks are the oldest posted ones, in
  the order of their posting, and each posted task was started at most once. What is
  not started yet waits in the batch and in the lock-free chain.
\<close>

theorem warp_fifo:
  assumes "warp_reachable n w pcs"
  shows "pushed w = started w @ executing_head w @ rev (queueing_head w)"
  using reachable_warp_inv [OF assms] by (simp add: warp_inv_def order_inv_def)

theorem warp_fifo_witness:
  "\<exists>w. warp_reachable 2 w [Exec_Running 7, Flush_Exchange Leave] \<and> [7, 8] = [7] @ executing_head w @ rev (queueing_head w)"
proof -
  obtain w where "warp_reachable 2 w [Exec_Running 7, Flush_Exchange Leave]" "started w = [7]" "pushed w = [7, 8]"
    using busy_run by blast
  with warp_fifo [OF this(1)] show ?thesis by metis
qed

definition quiescent :: "warp_t \<Rightarrow> warp_pc list \<Rightarrow> bool" where
  "quiescent w pcs \<longleftrightarrow> list_all (\<lambda>pc. pc = Outside) pcs \<and> posted w = 0 \<and> suspend_count w = 0"

text \<open>
  C2. No wake-up is lost: when every thread has left the warp, no job for it waits in the worker
  pool, nobody suspends it, and no suspension ever cut a batch short, then every posted task was started, and
  no parallel task waits.
\<close>

theorem warp_no_lost_wakeup:
  assumes "warp_reachable n w pcs" and "quiescent w pcs" and "\<not> interrupted w"
  shows "started w = pushed w \<and> parallel_task_head w = [] \<and> parallel_jobs w = []"
proof -
  note q = assms(2) [unfolded quiescent_def list_all_iff]
  have inv: "mutex_inv (w, pcs)" "order_inv (w, pcs)" "suspend_inv (w, pcs)" "wake_inv (w, pcs)"
    using reachable_warp_inv [OF assms(1)] by (auto simp: warp_inv_def)
  have quiet: "\<not> waking pc" "\<not> carries pc" if "pc \<in> set pcs" for pc using q that by auto
  have "thread_warp w = None" using mutexD(3) [OF inv(1)] q by blast
  then have "queueing w \<noteq> pending" using inv(4) q quiet by (auto simp: wake_inv_def attended_def)
  then have "executing_head w @ queueing_head w = []" using inv(4) assms(3) quiet by (auto simp: wake_inv_def)
  with inv(2) have "started w = pushed w" by (simp add: order_inv_def)
  moreover have "suspend_total w = 0" using inv(3) q by (simp add: suspend_inv_def)
  ultimately show ?thesis by (simp add: suspend_total_def)
qed

text \<open>The second task is posted while the first one runs, and the pool runs the warp once more after the batch.\<close>

definition quiet_schedule :: "(nat \<times> warp_action) list" where
  "quiet_schedule = busy_schedule @ (1, Go) # replicate 15 (0, Go) @ (1, Do_Execute) # replicate 14 (1, Go)"

theorem warp_no_lost_wakeup_witness:
  "\<exists>w. warp_reachable 2 w [Outside, Outside] \<and> pushed w = [7, 8] \<and> started w = [7, 8]"
proof -
  have "plays_to 2 quiet_schedule [Outside, Outside] (\<lambda>w. quiescent w [Outside, Outside] \<and> \<not> interrupted w \<and> pushed w = [7, 8])"
    by code_simp
  then obtain w where "warp_reachable 2 w [Outside, Outside]" "quiescent w [Outside, Outside]" "\<not> interrupted w" "pushed w = [7, 8]"
    using plays_to_reachable by blast
  with warp_no_lost_wakeup [OF this(1-3)] show ?thesis by auto
qed

text \<open>
  Without the last condition the property fails. A suspension that arrives while a task of a
  batch runs makes \<open>execute_internal\<close> return with the rest of the batch in \<open>executing_head\<close>;
  \<open>yield\<close> leaves the flag idle, and \<open>resume\<close>, which looks at the flag only, posts nothing. The rest of the
  batch waits until somebody posts another task.
\<close>

definition stuck_schedule :: "(nat \<times> warp_action) list" where
  "stuck_schedule = (0, Do_Post 7) # replicate 4 (0, Go) @ (0, Do_Post 8) # replicate 2 (0, Go) @ (0, Do_Execute) # replicate 9 (0, Go) @
     (1, Do_Suspend) # replicate 5 (0, Go) @ (1, Do_Resume) # replicate 2 (1, Go)"

theorem warp_lost_wakeup:
  "\<exists>w pcs. warp_reachable 2 w pcs \<and> quiescent w pcs \<and> pushed w = [7, 8] \<and> started w = [7]"
proof -
  have "plays_to 2 stuck_schedule [Outside, Outside] (\<lambda>w. quiescent w [Outside, Outside] \<and> pushed w = [7, 8] \<and> started w = [7])"
    by code_simp
  then show ?thesis using plays_to_reachable by blast
qed

end
