(* ===== verification/Std_String.thy ===== *)
theory Std_String
  imports Prelude
begin

text \<open>
  The operations of \<open>std::string\<close> and of the C library on strings that the module uses: searching,
  substrings, decimal printing and reading. A string is its list of characters; a position of
  \<open>npos\<close> is \<^const>\<open>None\<close>.
\<close>

section \<open>Searching\<close>

fun find_char :: "char \<Rightarrow> string \<Rightarrow> nat option" where
  "find_char c [] = None"
| "find_char c (x # xs) = (if x = c then Some 0 else map_option Suc (find_char c xs))"

definition find_char_from :: "char \<Rightarrow> nat \<Rightarrow> string \<Rightarrow> nat option" where
  "find_char_from c from s = map_option (\<lambda>i. from + i) (find_char c (drop from s))"

definition rfind_char :: "char \<Rightarrow> string \<Rightarrow> nat option" where
  "rfind_char c s = map_option (\<lambda>i. length s - 1 - i) (find_char c (rev s))"

fun starts_with :: "string \<Rightarrow> string \<Rightarrow> bool" where
  "starts_with [] s = True"
| "starts_with (p # ps) [] = False"
| "starts_with (p # ps) (c # cs) = (p = c \<and> starts_with ps cs)"

fun find_str :: "string \<Rightarrow> string \<Rightarrow> nat option" where
  "find_str p [] = (if p = [] then Some 0 else None)"
| "find_str p (c # cs) = (if starts_with p (c # cs) then Some 0 else map_option Suc (find_str p cs))"

definition substr :: "nat \<Rightarrow> nat \<Rightarrow> string \<Rightarrow> string" where
  "substr pos n s = take n (drop pos s)"

lemma find_char_None [simp]: "find_char c s = None \<longleftrightarrow> c \<notin> set s"
  by (induction s) auto

lemma find_char_SomeD: "find_char c s = Some i \<Longrightarrow> i < length s \<and> s ! i = c \<and> c \<notin> set (take i s)"
  by (induction s arbitrary: i) (auto split: if_splits)

lemma find_char_append [simp]:
  "c \<notin> set xs \<Longrightarrow> find_char c (xs @ ys) = map_option (\<lambda>i. length xs + i) (find_char c ys)"
proof (induction xs)
  case Nil
  then show ?case by (simp add: option.map_ident)
next
  case (Cons x xs)
  then show ?case by (auto simp: option.map_comp comp_def intro!: option.map_cong)
qed

lemma find_char_at [simp]: "c \<notin> set xs \<Longrightarrow> find_char c (xs @ c # ys) = Some (length xs)"
  by simp

lemma rfind_char_None: "rfind_char c s = None \<longleftrightarrow> c \<notin> set s"
  by (simp add: rfind_char_def)

lemma rfind_char_at [simp]: "c \<notin> set ys \<Longrightarrow> rfind_char c (xs @ c # ys) = Some (length xs)"
  by (simp add: rfind_char_def)

lemma rfind_char_SomeD:
  assumes "rfind_char c s = Some i"
  shows "i < length s \<and> s ! i = c"
proof -
  from assms obtain j where j: "find_char c (rev s) = Some j" "i = length s - 1 - j" by (auto simp: rfind_char_def)
  with find_char_SomeD [OF j(1)] show ?thesis by (auto simp: rev_nth)
qed

lemma starts_with_append: "starts_with p s \<longleftrightarrow> (\<exists>t. s = p @ t)"
  by (induction p s rule: starts_with.induct) auto

section \<open>Decimal numbers\<close>

definition digit_char :: "nat \<Rightarrow> char" where
  "digit_char d = char_of (48 + d)"

definition is_digit :: "char \<Rightarrow> bool" where
  "is_digit c \<longleftrightarrow> 48 \<le> (of_char c :: nat) \<and> (of_char c :: nat) \<le> 57"

definition digit_value :: "char \<Rightarrow> int" where
  "digit_value c = int (of_char c) - 48"

fun to_string :: "nat \<Rightarrow> string" where
  "to_string n = (if n < 10 then [digit_char n] else to_string (n div 10) @ [digit_char (n mod 10)])"

declare to_string.simps [simp del]

text \<open>\<open>atol\<close>: white space, a sign, digits; out of range it saturates, as \<open>strtol\<close> does.\<close>

definition is_space :: "char \<Rightarrow> bool" where
  "is_space c \<longleftrightarrow> c = CHR '' '' \<or> 9 \<le> (of_char c :: nat) \<and> (of_char c :: nat) \<le> 13"

fun read_digits :: "int \<Rightarrow> string \<Rightarrow> int" where
  "read_digits acc [] = acc"
| "read_digits acc (c # cs) = (if is_digit c then read_digits (acc * 10 + digit_value c) cs else acc)"

definition saturate_long :: "int \<Rightarrow> int" where
  "saturate_long v = max (- (2 ^ 63)) (min (2 ^ 63 - 1) v)"

definition atol :: "string \<Rightarrow> int" where
  "atol s =
     (case dropWhile is_space s of
        [] \<Rightarrow> 0
      | c # cs \<Rightarrow>
          saturate_long (if c = CHR ''-'' then - read_digits 0 cs
                         else if c = CHR ''+'' then read_digits 0 cs
                         else read_digits 0 (c # cs)))"

text \<open>\<open>atoi\<close>: the low 32 bits of what \<open>strtol\<close> reads, as the C library has it; the values agree within an \<open>int\<close>.\<close>

definition atoi :: "string \<Rightarrow> int" where
  "atoi s = sint (word_of_int (atol s) :: 32 word)"

text \<open>\<open>%05zu\<close> of \<open>snprintf\<close>.\<close>

definition zero_padded :: "nat \<Rightarrow> nat \<Rightarrow> string" where
  "zero_padded width n = (let s = to_string n in replicate (width - length s) (CHR ''0'') @ s)"

lemma of_char_digit [simp]: "d < 10 \<Longrightarrow> (of_char (digit_char d) :: nat) = 48 + d"
  by (simp add: digit_char_def)

lemma digit_char_props [simp]:
  "d < 10 \<Longrightarrow> is_digit (digit_char d)" "d < 10 \<Longrightarrow> digit_value (digit_char d) = int d"
  by (simp_all add: is_digit_def digit_value_def)

lemma is_digit_not: "is_digit c \<Longrightarrow> c \<noteq> CHR ''/'' \<and> c \<noteq> CHR '':'' \<and> c \<noteq> CHR ''-'' \<and> c \<noteq> CHR ''+'' \<and> \<not> is_space c"
  by (auto simp: is_digit_def is_space_def)

lemma to_string_digits: "c \<in> set (to_string n) \<Longrightarrow> is_digit c"
proof (induction n rule: to_string.induct)
  case (1 n)
  then show ?case by (subst (asm) (2) to_string.simps) (auto split: if_splits)
qed

lemma to_string_not_Nil [simp]: "to_string n \<noteq> []"
  by (subst to_string.simps) simp

lemma read_digits_append:
  "(\<And>c. c \<in> set xs \<Longrightarrow> is_digit c) \<Longrightarrow> read_digits acc (xs @ ys) = read_digits (read_digits acc xs) ys"
  by (induction xs arbitrary: acc) auto

lemma read_to_string: "read_digits 0 (to_string n) = int n"
proof (induction n rule: to_string.induct)
  case (1 n)
  show ?case
  proof (cases "n < 10")
    case True
    then show ?thesis by (subst to_string.simps) simp
  next
    case False
    have "read_digits 0 (to_string n) = read_digits 0 (to_string (n div 10) @ [digit_char (n mod 10)])"
      using False by (subst to_string.simps) simp
    also have "\<dots> = int (n div 10) * 10 + int (n mod 10)"
      using 1 [OF False] by (simp add: read_digits_append to_string_digits)
    finally show ?thesis by presburger
  qed
qed

lemma to_string_inject: "to_string m = to_string n \<longleftrightarrow> m = n"
  by (metis nat_int read_to_string)

lemma atol_to_string: "int n < 2 ^ 63 \<Longrightarrow> atol (to_string n) = int n"
proof -
  assume n: "int n < 2 ^ 63"
  obtain c cs where c: "to_string n = c # cs" by (cases "to_string n") auto
  then have "is_digit c" using to_string_digits [of c n] by simp
  with c n read_to_string [of n] show ?thesis using is_digit_not [of c]
    by (auto simp: atol_def saturate_long_def)
qed

end
