(* ===== verification/Http_Client.thy ===== *)
theory Http_Client
  imports Std_String Complex_Main
begin

text \<open>
  The concurrent HTTP fetch of \<open>ngx_lua_cpp.cpp\<close>: parsing of URLs, the request itself on
  platforms without WinHTTP, and the fan-out and fan-in of one request per URL. The request is
  an argument of \<open>fetch\<close>: on Windows it is WinHTTP's. A \<open>double\<close> is a real number.
\<close>

section \<open>URLs\<close>

record http_url_t =
  host :: string
  path :: string
  port :: size_t
  url_ok :: bool
  error :: string

definition http_url_init :: http_url_t where
  "http_url_init = \<lparr>host = '''', path = ''/'', port = 80, url_ok = False, error = ''''\<rparr>"

definition parse_http_url :: "string \<Rightarrow> http_url_t" where
  "parse_http_url url =
     (if \<not> starts_with ''http://'' url then http_url_init\<lparr>error := ''only http:// URLs are supported''\<rparr>
      else
        let rest = drop 7 url;
            slash = find_char (CHR ''/'') rest;
            authority = (case slash of None \<Rightarrow> rest | Some i \<Rightarrow> substr 0 i rest);
            path' = (case slash of None \<Rightarrow> ''/'' | Some i \<Rightarrow> drop i rest);
            result = (case rfind_char (CHR '':'') authority of
                None \<Rightarrow> http_url_init\<lparr>host := authority\<rparr>
              | Some colon \<Rightarrow> http_url_init\<lparr>port := word_of_int (atol (drop (colon + 1) authority)), host := substr 0 colon authority\<rparr>)
        in if host result = '''' \<or> port result = 0 then result\<lparr>error := ''invalid url: '' @ url\<rparr>
           else result\<lparr>path := if path' = '''' then ''/'' else path', url_ok := True\<rparr>)"

section \<open>Requests\<close>

text \<open>\<open>fetch_entry_t\<close>: (url, ok, status, bytes, elapsed, body or error).\<close>

type_synonym fetch_entry_t = "string \<times> bool \<times> size_t \<times> size_t \<times> real \<times> string"

definition fetch_entry_init :: fetch_entry_t where
  "fetch_entry_init = ('''', False, 0, 0, 0, '''')"

definition url_text :: "http_url_t \<Rightarrow> string" where
  "url_text url = ''http://'' @ host url @ (if port url = 80 then '''' else '':'' @ to_string (unat (port url))) @ path url"

definition http_get :: "http_url_t \<Rightarrow> nat \<Rightarrow> nat \<Rightarrow> fetch_entry_t" where
  "http_get url timeout_ms max_bytes =
     (url_text url, False, 0, 0, 0, ''not supported on this platform'')"

section \<open>Fan-out and fan-in\<close>

type_synonym http_get_t = "http_url_t \<Rightarrow> nat \<Rightarrow> nat \<Rightarrow> fetch_entry_t"

text \<open>The first loop: a URL that does not parse fills its entry, any other one becomes a task.\<close>

fun fan_out :: "nat \<Rightarrow> string list \<Rightarrow> fetch_entry_t list \<times> http_url_t list \<times> nat list \<Rightarrow> fetch_entry_t list \<times> http_url_t list \<times> nat list" where
  "fan_out i [] s = s"
| "fan_out i (u # us) (entries, tasks, task_indices) =
     (let url = parse_http_url u in
      if \<not> url_ok url then
        fan_out (i + 1) us (entries[i := (case entries ! i of (_, a, b, c, d, _) \<Rightarrow> (u, a, b, c, d, error url))], tasks, task_indices)
      else fan_out (i + 1) us (entries, tasks @ [url], task_indices @ [i]))"

fun fan_in :: "nat list \<Rightarrow> fetch_entry_t list \<Rightarrow> fetch_entry_t list \<Rightarrow> fetch_entry_t list" where
  "fan_in (k # ks) (r # rs) entries = fan_in ks rs (entries[k := r])"
| "fan_in _ _ entries = entries"

definition clamp_timeout :: "nat \<Rightarrow> nat" where
  "clamp_timeout t = max 100 (min 30000 t)"

definition fetch :: "http_get_t \<Rightarrow> string list \<Rightarrow> nat \<Rightarrow> fetch_entry_t list" where
  "fetch get urls timeout_ms =
     (let entries = replicate (length urls) fetch_entry_init in
      if urls = [] then entries
      else
        let (entries1, tasks, task_indices) = fan_out 0 urls (entries, [], [])
        in fan_in task_indices (map (\<lambda>url. get url (clamp_timeout timeout_ms) (1024 * 1024)) tasks) entries1)"

section \<open>The loops\<close>

text \<open>What one entry should be.\<close>

definition fetch_one :: "http_get_t \<Rightarrow> nat \<Rightarrow> string \<Rightarrow> fetch_entry_t" where
  "fetch_one get t u =
     (let url = parse_http_url u in if url_ok url then get url t (1024 * 1024) else (u, False, 0, 0, 0, error url))"

lemma fan_in_append:
  "length ks = length rs \<Longrightarrow> fan_in (ks @ ks') (rs @ rs') es = fan_in ks' rs' (fan_in ks rs es)"
  by (induction ks rs es rule: fan_in.induct) auto

lemma fan_in_length [simp]: "length (fan_in ks rs es) = length es"
  by (induction ks rs es rule: fan_in.induct) auto

lemma fan_in_update_other: "k \<notin> set ks \<Longrightarrow> fan_in ks rs (es[k := e]) = (fan_in ks rs es)[k := e]"
  by (induction ks rs es rule: fan_in.induct) (auto simp: list_update_swap)

text \<open>The invariant of the first loop: entries before \<open>i\<close> are settled, or will be by their task.\<close>

lemma fan_out_in:
  assumes "fan_in task_indices (map (\<lambda>url. get url t (1024 * 1024)) tasks) entries =
      map (fetch_one get t) past @ replicate (length us) fetch_entry_init"
    and "length task_indices = length tasks" and "\<forall>k \<in> set task_indices. k < length past"
    and "fan_out (length past) us (entries, tasks, task_indices) = (entries', tasks', task_indices')"
    and "drop (length past) entries = replicate (length us) fetch_entry_init"
  shows "fan_in task_indices' (map (\<lambda>url. get url t (1024 * 1024)) tasks') entries' = map (fetch_one get t) (past @ us)"
  using assms
proof (induction us arbitrary: past entries tasks task_indices)
  case Nil
  then show ?case by simp
next
  case (Cons u us)
  let ?n = "length past" and ?run = "map (\<lambda>url. get url t (1024 * 1024))"
  have len: "length entries = ?n + Suc (length us)"
    using arg_cong [OF Cons.prems(1), of length] by simp
  have at: "entries ! ?n = fetch_entry_init"
    using Cons.prems(5) len by (metis add.right_neutral length_greater_0_conv length_replicate less_add_same_cancel1 list.size(3) nth_drop nth_replicate zero_less_Suc le_add1 length_Cons)
  have drop': "drop (Suc ?n) entries = replicate (length us) fetch_entry_init"
    using Cons.prems(5) by (metis drop_Suc list.sel(3) replicate_Suc length_Cons tl_drop)
  show ?case
  proof (cases "url_ok (parse_http_url u)")
    case True
    have "fan_in (task_indices @ [?n]) (?run (tasks @ [parse_http_url u])) entries =
        (fan_in task_indices (?run tasks) entries)[?n := get (parse_http_url u) t (1024 * 1024)]"
      using Cons.prems(2) by (simp add: fan_in_append)
    also have "\<dots> = map (fetch_one get t) (past @ [u]) @ replicate (length us) fetch_entry_init"
      using True by (simp only: Cons.prems(1)) (simp add: list_update_append fetch_one_def)
    finally show ?thesis
      using Cons.IH [of "task_indices @ [?n]" "tasks @ [parse_http_url u]" entries "past @ [u]"] Cons.prems True drop'
      by (auto simp: Let_def less_Suc_eq)
  next
    case False
    let ?e = "(u, False, 0, 0, 0, error (parse_http_url u))"
    have "fan_in task_indices (?run tasks) (entries[?n := ?e]) = (fan_in task_indices (?run tasks) entries)[?n := ?e]"
      by (rule fan_in_update_other) (use Cons.prems(3) in auto)
    also have "\<dots> = map (fetch_one get t) (past @ [u]) @ replicate (length us) fetch_entry_init"
      using False by (simp only: Cons.prems(1)) (simp add: list_update_append fetch_one_def)
    finally show ?thesis
      using Cons.IH [of task_indices tasks "entries[?n := ?e]" "past @ [u]"] Cons.prems False drop' at
      by (auto simp: Let_def less_Suc_eq fetch_entry_init_def)
  qed
qed

section \<open>Parsing\<close>

lemma parse_http_url_parts:
  assumes "CHR ''/'' \<notin> set authority"
  shows "parse_http_url (''http://'' @ authority @ CHR ''/'' # p) =
    (let result = (case rfind_char (CHR '':'') authority of
         None \<Rightarrow> http_url_init\<lparr>host := authority\<rparr>
       | Some colon \<Rightarrow> http_url_init\<lparr>port := word_of_int (atol (drop (colon + 1) authority)), host := substr 0 colon authority\<rparr>)
     in if host result = '''' \<or> port result = 0
        then result\<lparr>error := ''invalid url: http://'' @ authority @ CHR ''/'' # p\<rparr>
        else result\<lparr>path := CHR ''/'' # p, url_ok := True\<rparr>)"
  using assms by (cases "rfind_char (CHR '':'') authority") (simp_all add: parse_http_url_def Let_def substr_def)

section \<open>Properties\<close>

text \<open>
  C39. The fan-out and fan-in keep the results apart: whatever the request function does, the result has one
  entry per URL, in the order of the URLs, and each is the answer to its own URL, or the
  parser's error for it.
\<close>

theorem fetch_answers_in_order:
  "fetch get urls timeout_ms = map (fetch_one get (clamp_timeout timeout_ms)) urls"
proof (cases urls)
  case Nil
  then show ?thesis by (simp add: fetch_def)
next
  case (Cons u us)
  obtain es ts ks where out: "fan_out 0 urls (replicate (length urls) fetch_entry_init, [], []) = (es, ts, ks)"
    by (metis prod_cases3)
  with fan_out_in [where past = "[]" and us = urls and entries = "replicate (length urls) fetch_entry_init"
      and tasks = "[]" and task_indices = "[]" and get = get and t = "clamp_timeout timeout_ms"]
  show ?thesis using Cons by (simp add: fetch_def Let_def)
qed

text \<open>
  Round trip: the text \<open>http_get\<close> reports for a URL parses back to the URL, for every host
  without a colon or a slash, every port that is not zero and fits a \<open>long\<close>, and every path that starts with a slash.
\<close>

theorem http_url_roundtrip:
  assumes "host u \<noteq> ''''" and "CHR ''/'' \<notin> set (host u)" and "CHR '':'' \<notin> set (host u)"
    and "port u \<noteq> 0" and "unat (port u) < 2 ^ 63" and "path u = CHR ''/'' # p" and "url_ok u" and "error u = ''''"
  shows "parse_http_url (url_text u) = u"
proof -
  let ?digits = "to_string (unat (port u))"
  let ?authority = "host u @ (if port u = 80 then '''' else '':'' @ ?digits)"
  have slash: "CHR ''/'' \<notin> set ?authority"
    using assms(2) to_string_digits is_digit_not by (fastforce split: if_splits)
  have colon: "CHR '':'' \<notin> set ?digits" using to_string_digits is_digit_not by blast
  have port: "word_of_int (atol ?digits) = port u"
  proof -
    have "int (unat (port u)) < 2 ^ 63" using assms(5) by (metis of_nat_less_iff of_nat_numeral of_nat_power)
    from atol_to_string [OF this] show ?thesis by simp
  qed
  have text_u: "url_text u = ''http://'' @ ?authority @ CHR ''/'' # p" using assms(6) by (simp add: url_text_def)
  have u: "u = \<lparr>host = host u, path = CHR ''/'' # p, port = port u, url_ok = True, error = ''''\<rparr>" using assms by simp
  note parts = parse_http_url_parts [OF slash, of p, folded text_u]
  show ?thesis
  proof (cases "port u = 80")
    case True
    have "rfind_char (CHR '':'') (host u) = None" using assms(3) by (simp add: rfind_char_None)
    with True parts assms(1) u show ?thesis by (simp add: http_url_init_def)
  next
    case False
    have "rfind_char (CHR '':'') (host u @ CHR '':'' # ?digits) = Some (length (host u))"
      by (rule rfind_char_at [OF colon])
    with False parts port assms(1,4) u show ?thesis by (simp add: substr_def http_url_init_def)
  qed
qed

theorem http_url_roundtrip_witness:
  "parse_http_url (url_text \<lparr>host = ''example.org'', path = ''/a'', port = 8080, url_ok = True, error = ''''\<rparr>) =
   \<lparr>host = ''example.org'', path = ''/a'', port = 8080, url_ok = True, error = ''''\<rparr>"
  by (rule http_url_roundtrip) auto

text \<open>
  The parser's verdict: it accepts exactly the URLs with the scheme, a host and a port that is not
  zero, and reports an error for every other one; an error message is present exactly when the URL is refused.
\<close>

theorem http_url_verdict:
  "(url_ok (parse_http_url url) \<longleftrightarrow>
      starts_with ''http://'' url \<and> host (parse_http_url url) \<noteq> [] \<and> port (parse_http_url url) \<noteq> 0) \<and>
   (url_ok (parse_http_url url) \<longleftrightarrow> error (parse_http_url url) = [])"
  by (auto simp: parse_http_url_def Let_def http_url_init_def split: option.splits)

text \<open>The port is not checked against its range.\<close>

lemma port_out_of_range:
  "parse_http_url ''http://h:70000/'' = \<lparr>host = ''h'', path = ''/'', port = 70000, url_ok = True, error = ''''\<rparr>"
  by code_simp

end
