(* ===== verification/Jobs.thy ===== *)
theory Jobs
  imports Event_Bus Std_String Prime_Sieve
begin

text \<open>
  The in-memory job queue of \<open>ngx_lua_cpp.cpp\<close>: \<open>job_submit\<close>, \<open>job_query\<close>, \<open>job_list\<close> and the
  coroutine \<open>run_job\<close>. Jobs are shared objects: the table maps an id to a
  position in \<open>objects\<close>, and a runner keeps its object when the table drops the id. A runner
  advances from one access of shared state (the table's mutex, the event bus) to the next, and the steps
  of the runners and of the submitting thread interleave freely. \<open>fmt\<close> is
  \<open>std::to_string\<close> of a \<open>double\<close>; times are arbitrary. The work of a job between two reports is
  the sieve of \<open>Prime_Sieve\<close>, or sleep.
\<close>

section \<open>State\<close>

record ngx_job_t =
  id :: string
  kind :: string
  payload :: "(string, real) std_map"
  status :: string
  result :: string
  progress :: real
  elapsed_ms :: real
  created_ms :: real

datatype job_pc =
    Job_Start | Job_Announce | Job_Work nat | Job_Report nat | Job_Publish | Job_Over

record job_state =
  is_running :: bool
  job_counter :: nat
  jobs :: "(string, nat) std_map"
  objects :: "ngx_job_t list"
  runners :: "job_pc list"
  event_bus :: event_bus_t

definition jobs_init :: job_state where
  "jobs_init = \<lparr>is_running = True, job_counter = 0, jobs = [], objects = [], runners = [], event_bus = event_bus_init\<rparr>"

section \<open>Operations of the request thread\<close>

definition job_id :: "nat \<Rightarrow> string" where
  "job_id n = CHR ''J'' # zero_padded 5 n"

text \<open>\<open>while (jobs.size() > 200) jobs.erase(jobs.begin());\<close>\<close>

function trim_jobs :: "(string, nat) std_map \<Rightarrow> (string, nat) std_map" where
  "trim_jobs m = (if length m > 200 then trim_jobs (tl m) else m)"
  by auto
termination by (relation "measure length") auto

declare trim_jobs.simps [simp del]

definition job_submit :: "string \<Rightarrow> (string, real) std_map \<Rightarrow> real \<Rightarrow> job_state \<Rightarrow> string \<times> job_state" where
  "job_submit k p now s =
     (if \<not> is_running s then ([], s)
      else
        let n = job_counter s + 1;
            job = \<lparr>id = job_id n, kind = k, payload = p, status = ''queued'', result = [],
                   progress = 0, elapsed_ms = 0, created_ms = now\<rparr>
        in (job_id n, s\<lparr>job_counter := n, objects := objects s @ [job],
              jobs := trim_jobs (map_put (job_id n) (length (objects s)) (jobs s)),
              runners := runners s @ [Job_Start]\<rparr>))"

definition job_query :: "string \<Rightarrow> job_state \<Rightarrow> string \<times> real \<times> real \<times> string" where
  "job_query i s =
     (case map_of (jobs s) i of
        None \<Rightarrow> (''not_found'', 0, 0, [])
      | Some k \<Rightarrow> (let job = objects s ! k in (status job, progress job, elapsed_ms job, result job)))"

definition job_list :: "job_state \<Rightarrow> (string \<times> string \<times> string \<times> real \<times> real) list" where
  "job_list s =
     map (\<lambda>(i, k). let job = objects s ! k in (i, kind job, status job, progress job, elapsed_ms job)) (jobs s)"

section \<open>The runner\<close>

definition payload_or :: "ngx_job_t \<Rightarrow> string \<Rightarrow> real \<Rightarrow> real" where
  "payload_or job key dflt = (case map_of (payload job) key of None \<Rightarrow> dflt | Some v \<Rightarrow> v)"

text \<open>
  \<open>(size_t)\<close> of a \<open>double\<close> truncates when the truncated value is in the range of \<open>size_t\<close>; otherwise
  the C++ standard leaves the behaviour undefined. \<open>conv\<close> is the conversion: what it does outside the range is open.
\<close>

definition in_size_t :: "real \<Rightarrow> bool" where
  "in_size_t x \<longleftrightarrow> - 1 < x \<and> x < 2 ^ 64"

definition truncating :: "real \<Rightarrow> size_t" where
  "truncating x = word_of_int (if x < 0 then \<lceil>x\<rceil> else \<lfloor>x\<rfloor>)"

definition size_conversion :: "(real \<Rightarrow> size_t) \<Rightarrow> bool" where
  "size_conversion conv \<longleftrightarrow> (\<forall>x. in_size_t x \<longrightarrow> conv x = truncating x)"

definition job_limit :: "(real \<Rightarrow> size_t) \<Rightarrow> ngx_job_t \<Rightarrow> nat" where
  "job_limit conv job = clamp_limit (unat (conv (payload_or job ''limit'' 10000000)))"

text \<open>The chunks before the loop breaks off.\<close>

definition prime_chunks :: "nat \<Rightarrow> nat" where
  "prime_chunks limit =
     (let seg_size = max (limit div 40) 1 in
      length (takeWhile (\<lambda>c. let lo = max (c * seg_size) 2 in lo < min (lo + seg_size) limit) [0..<40]))"

definition job_steps :: "(real \<Rightarrow> size_t) \<Rightarrow> ngx_job_t \<Rightarrow> nat" where
  "job_steps conv job = max 1 (min 200 (unat (conv (payload_or job ''steps'' 50))))"

definition job_step_ms :: "(real \<Rightarrow> size_t) \<Rightarrow> ngx_job_t \<Rightarrow> nat" where
  "job_step_ms conv job =
     (let ms = max 100 (min 60000 (payload_or job ''ms'' 2000)) in max 1 (unat (conv (ms / real (job_steps conv job)))))"

text \<open>How many reports a job makes, their denominator, its result text and whether it fails.\<close>

definition job_plan :: "(real \<Rightarrow> size_t) \<Rightarrow> ngx_job_t \<Rightarrow> nat \<times> nat \<times> string \<times> bool" where
  "job_plan conv job =
     (if kind job = ''count_primes'' then
        (prime_chunks (job_limit conv job), 40,
         to_string (count_primes (job_limit conv job)) @ '' primes <= '' @ to_string (job_limit conv job), False)
      else if kind job = ''sleep_steps'' then
        (job_steps conv job, job_steps conv job,
         ''slept '' @ to_string (job_steps conv job * job_step_ms conv job) @ '' ms in '' @ to_string (job_steps conv job) @ '' steps'', False)
      else (0, 1, ''unknown job kind: '' @ kind job, True))"

definition job_message :: "ngx_job_t \<Rightarrow> string \<Rightarrow> string \<Rightarrow> string \<Rightarrow> string" where
  "job_message job st prog el = id job @ ''|'' @ kind job @ ''|'' @ st @ ''|'' @ prog @ ''|'' @ el"

text \<open>One step of the runner of object \<open>k\<close>, at times \<open>ts\<close> (of the bus) and \<open>el\<close> (since its start).\<close>

definition job_advance :: "(real \<Rightarrow> size_t) \<Rightarrow> (real \<Rightarrow> string) \<Rightarrow> real \<Rightarrow> real \<Rightarrow> nat \<Rightarrow> job_state \<Rightarrow> job_state" where
  "job_advance conv fmt ts el k s =
     (let job = objects s ! k; (reports, chunks, msg, failed) = job_plan conv job;
          goto = (\<lambda>pc s. s\<lparr>runners := (runners s)[k := pc]\<rparr>);
          put = (\<lambda>job s. s\<lparr>objects := (objects s)[k := job]\<rparr>);
          say = (\<lambda>m s. s\<lparr>event_bus := bus_pub (event_bus s) ts ''jobs'' m\<rparr>)
      in case runners s ! k of
           Job_Start \<Rightarrow> goto Job_Announce (put (job\<lparr>status := ''running''\<rparr>) s)
         | Job_Announce \<Rightarrow> goto (Job_Work 0) (say (job_message job ''running'' ''0.0'' ''0.0'') s)
         | Job_Work c \<Rightarrow>
             if c < reports then goto (Job_Report (c + 1)) (put (job\<lparr>progress := real (c + 1) / real chunks\<rparr>) s)
             else goto Job_Publish (put (job\<lparr>status := if failed then ''failed'' else ''done'', result := msg, elapsed_ms := el\<rparr>) s)
         | Job_Report c \<Rightarrow> goto (Job_Work c) (say (job_message job ''running'' (fmt (progress job)) (fmt el)) s)
         | Job_Publish \<Rightarrow> goto Job_Over (say (job_message job (if failed then ''failed'' else ''done'') ''1.0'' (fmt (elapsed_ms job))) s)
         | Job_Over \<Rightarrow> s)"

inductive job_step :: "(real \<Rightarrow> size_t) \<Rightarrow> (real \<Rightarrow> string) \<Rightarrow> job_state \<Rightarrow> job_state \<Rightarrow> bool" for conv fmt where
  submit: "job_step conv fmt s (snd (job_submit k p now s))"
| run: "k < length (runners s) \<Longrightarrow> job_step conv fmt s (job_advance conv fmt ts el k s)"

section \<open>Ids\<close>

text \<open>Decimal digits at a fixed width, on which the order of strings is the order of numbers.\<close>

fun digits :: "nat \<Rightarrow> nat \<Rightarrow> string" where
  "digits 0 n = []"
| "digits (Suc w) n = digits w (n div 10) @ [digit_char (n mod 10)]"

lemma digit_char_zero: "digit_char 0 = CHR ''0''"
  by code_simp

lemma digits_zero: "digits w 0 = replicate w (CHR ''0'')"
  by (induction w) (auto simp: digit_char_zero replicate_append_same)

lemma length_digits [simp]: "length (digits w n) = w"
  by (induction w arbitrary: n) auto

lemma length_to_string: "n < 10 ^ w \<Longrightarrow> 0 < w \<Longrightarrow> length (to_string n) \<le> w"
proof (induction w arbitrary: n)
  case (Suc w)
  show ?case
  proof (cases "n < 10")
    case True
    then show ?thesis by (simp add: to_string.simps [of n])
  next
    case False
    then have "0 < w" using Suc.prems(1) by (cases w) auto
    with Suc.IH [of "n div 10"] Suc.prems(1) False show ?thesis by (simp add: to_string.simps [of n] div_less_iff_less_mult mult.commute)
  qed
qed simp

lemma zero_padded_digits: "n < 10 ^ w \<Longrightarrow> 0 < w \<Longrightarrow> zero_padded w n = digits w n"
proof (induction w arbitrary: n)
  case (Suc w)
  show ?case
  proof (cases "n < 10")
    case True
    then show ?thesis by (simp add: zero_padded_def to_string.simps [of n] digits_zero)
  next
    case False
    then have w: "0 < w" using Suc.prems(1) by (cases w) auto
    have small: "n div 10 < 10 ^ w" using Suc.prems(1) by (simp add: div_less_iff_less_mult mult.commute)
    from Suc.IH [OF small w] length_to_string [OF small w] False show ?thesis
      by (simp add: zero_padded_def to_string.simps [of n] Let_def)
  qed
qed simp

lemma digit_char_less: "a < 10 \<Longrightarrow> b < 10 \<Longrightarrow> digit_char a < digit_char b \<longleftrightarrow> a < b"
  by (simp add: less_char_def)

lemma less_append_same_length: "xs < ys \<Longrightarrow> length xs = length ys \<Longrightarrow> xs @ as < ys @ (bs :: string)"
  by (induction xs ys rule: list_induct2') auto

lemma less_append_cancel: "xs @ as < xs @ bs \<longleftrightarrow> as < (bs :: string)"
  by (induction xs) auto

lemma digits_less: "m < n \<Longrightarrow> n < 10 ^ w \<Longrightarrow> digits w m < digits w n"
proof (induction w arbitrary: m n)
  case (Suc w)
  have small: "n div 10 < 10 ^ w" using Suc.prems(2) by (simp add: div_less_iff_less_mult mult.commute)
  show ?case
  proof (cases "m div 10 < n div 10")
    case True
    from less_append_same_length [OF Suc.IH [OF True small]] show ?thesis by simp
  next
    case False
    with Suc.prems(1) have eq: "m div 10 = n div 10" by (meson div_le_mono le_neq_implies_less less_imp_le_nat)
    then have "m mod 10 < n mod 10" using Suc.prems(1) by (metis add_less_cancel_left div_mult_mod_eq)
    with eq show ?thesis by (simp add: less_append_cancel digit_char_less)
  qed
qed simp

lemma job_id_less: "m < n \<Longrightarrow> n < 100000 \<Longrightarrow> job_id m < job_id n"
  using digits_less [of m n 5] by (simp add: job_id_def zero_padded_digits)

section \<open>The table\<close>

lemma map_put_greatest: "(\<And>k' v'. (k', v') \<in> set m \<Longrightarrow> k' < k) \<Longrightarrow> map_put k v m = m @ [(k, v)]"
proof (induction m)
  case (Cons p m)
  obtain k' v' where p: "p = (k', v')" by force
  have "k' < k" using Cons.prems p by auto
  moreover have "map_put k v m = m @ [(k, v)]" by (rule Cons.IH) (use Cons.prems in auto)
  ultimately show ?case using p by auto
qed simp

lemma trim_jobs_drop: "trim_jobs m = drop (length m - 200) m"
proof (induction m rule: trim_jobs.induct)
  case (1 m)
  show ?case
  proof (cases "length m > 200")
    case True
    with 1 have "trim_jobs m = drop (length (tl m) - 200) (tl m)" by (simp add: trim_jobs.simps [of m])
    also have "\<dots> = drop (Suc (length (tl m) - 200)) m" by (simp add: drop_Suc)
    also have "Suc (length (tl m) - 200) = length m - 200" using True by simp
    finally show ?thesis .
  qed (simp add: trim_jobs.simps [of m])
qed

text \<open>The entries of the newest 200 of \<open>n\<close> jobs.\<close>

definition newest_jobs :: "nat \<Rightarrow> (string, nat) std_map" where
  "newest_jobs n = map (\<lambda>i. (job_id (Suc i), i)) [n - 200..<n]"

lemma newest_jobs_put:
  assumes "Suc n < 100000"
  shows "trim_jobs (map_put (job_id (Suc n)) n (newest_jobs n)) = newest_jobs (Suc n)"
proof -
  have "map_put (job_id (Suc n)) n (newest_jobs n) = newest_jobs n @ [(job_id (Suc n), n)]"
    by (rule map_put_greatest) (use assms in \<open>auto simp: newest_jobs_def intro!: job_id_less\<close>)
  also have "trim_jobs \<dots> = newest_jobs (Suc n)"
  proof (cases "n < 200")
    case False
    then have "n - 199 = Suc (n - 200)" by simp
    with False show ?thesis by (simp add: trim_jobs_drop newest_jobs_def drop_map)
  qed (simp add: trim_jobs_drop newest_jobs_def)
  finally show ?thesis .
qed

section \<open>The invariant\<close>

lemma job_plan_update [simp]:
  "job_plan conv (job\<lparr>status := a\<rparr>) = job_plan conv job" "job_plan conv (job\<lparr>progress := b\<rparr>) = job_plan conv job"
  "job_plan conv (job\<lparr>result := a\<rparr>) = job_plan conv job" "job_plan conv (job\<lparr>elapsed_ms := b\<rparr>) = job_plan conv job"
  by (simp_all add: job_plan_def job_limit_def job_steps_def job_step_ms_def payload_or_def)

lemma prime_chunks_all: "1000 \<le> limit \<Longrightarrow> prime_chunks limit = 40"
proof -
  assume l: "1000 \<le> limit"
  let ?seg = "limit div 40"
  have seg: "25 \<le> ?seg" using l by (simp add: less_eq_div_iff_mult_less_eq)
  have "c * ?seg < limit" if "c < 40" for c
  proof -
    have "c * ?seg \<le> 39 * ?seg" using that by (intro mult_right_mono) auto
    moreover have "39 * ?seg + 25 \<le> 40 * ?seg" using seg by simp
    moreover have "40 * ?seg \<le> limit" by simp
    ultimately show ?thesis by linarith
  qed
  then have "takeWhile (\<lambda>c. max (c * max ?seg 1) 2 < min (max (c * max ?seg 1) 2 + max ?seg 1) limit) [0..<40] = [0..<40]"
    using seg l by (intro takeWhile_eq_all_conv [THEN iffD2]) (auto simp: max_def)
  then show ?thesis by (simp only: prime_chunks_def Let_def) simp
qed

lemma job_plan_bounds:
  assumes "job_plan conv job = (reports, chunks, msg, failed)"
  shows "reports \<le> 200" "0 < chunks" "\<not> failed \<Longrightarrow> reports = chunks" "failed \<longleftrightarrow> kind job \<notin> {''count_primes'', ''sleep_steps''}"
    "failed \<Longrightarrow> reports = 0"
proof -
  have "1000 \<le> job_limit conv job" by (auto simp: job_limit_def clamp_limit_def)
  note [simp] = prime_chunks_all [OF this]
  show "reports \<le> 200" "0 < chunks" "\<not> failed \<Longrightarrow> reports = chunks" "failed \<longleftrightarrow> kind job \<notin> {''count_primes'', ''sleep_steps''}"
    "failed \<Longrightarrow> reports = 0"
    using assms by (auto simp: job_plan_def job_steps_def split: if_splits)
qed

text \<open>The payload numbers that the job converts are in range: nothing in it is undefined.\<close>

definition payload_defined :: "ngx_job_t \<Rightarrow> bool" where
  "payload_defined job \<longleftrightarrow>
     (kind job = ''count_primes'' \<longrightarrow> in_size_t (payload_or job ''limit'' 10000000)) \<and>
     (kind job = ''sleep_steps'' \<longrightarrow> in_size_t (payload_or job ''steps'' 50))"

lemma unat_truncating: "in_size_t x \<Longrightarrow> unat (truncating x) = nat \<lfloor>x\<rfloor>"
proof -
  assume x: "in_size_t x"
  show ?thesis
  proof (cases "x < 0")
    case True
    then have "\<lceil>x\<rceil> = 0" using x unfolding in_size_t_def by linarith
    moreover have "nat \<lfloor>x\<rfloor> = 0" using True by simp
    ultimately show ?thesis using True by (simp add: truncating_def)
  next
    case False
    then have "0 \<le> \<lfloor>x\<rfloor>" "\<lfloor>x\<rfloor> < 2 ^ 64" using x by (simp_all add: in_size_t_def floor_less_iff)
    then show ?thesis using False by (simp add: truncating_def unat_eq_nat_uint uint_word_of_int)
  qed
qed

lemma step_ms_in_range: "1 \<le> n \<Longrightarrow> in_size_t (max 100 (min 60000 ms) / real n)"
proof -
  assume n: "1 \<le> n"
  have ms: "0 < max 100 (min 60000 ms)" "max 100 (min 60000 ms) \<le> 60000" by auto
  have "max 100 (min 60000 ms) / real n \<le> max 100 (min 60000 ms) / 1"
    using n ms(1) by (intro divide_left_mono) auto
  moreover have "0 < max 100 (min 60000 ms) / real n" using n ms(1) by (intro divide_pos_pos) auto
  ultimately show ?thesis using ms(2) by (simp add: in_size_t_def)
qed

lemma plan_truncates: "size_conversion conv \<Longrightarrow> payload_defined job \<Longrightarrow> job_plan conv job = job_plan truncating job"
proof -
  assume conv: "size_conversion conv" and ok: "payload_defined job"
  have limit: "kind job = ''count_primes'' \<Longrightarrow> job_limit conv job = job_limit truncating job"
    and steps: "kind job = ''sleep_steps'' \<Longrightarrow> job_steps conv job = job_steps truncating job"
    using conv ok by (simp_all add: job_limit_def job_steps_def size_conversion_def payload_defined_def)
  have "kind job = ''sleep_steps'' \<Longrightarrow> job_step_ms conv job = job_step_ms truncating job"
    using conv steps step_ms_in_range [of "job_steps truncating job"]
    by (simp add: job_step_ms_def size_conversion_def Let_def) (simp add: job_steps_def)
  with limit steps show ?thesis by (simp add: job_plan_def)
qed

text \<open>What the object of a runner looks like at each of its program counters.\<close>

fun job_ok :: "(real \<Rightarrow> size_t) \<Rightarrow> job_pc \<Rightarrow> ngx_job_t \<Rightarrow> bool" where
  "job_ok conv pc job = (case job_plan conv job of (reports, chunks, msg, failed) \<Rightarrow>
     (case pc of
        Job_Start \<Rightarrow> status job = ''queued'' \<and> progress job = 0 \<and> result job = []
      | Job_Announce \<Rightarrow> status job = ''running'' \<and> progress job = 0 \<and> result job = []
      | Job_Work c \<Rightarrow> status job = ''running'' \<and> c \<le> reports \<and> progress job = real c / real chunks \<and> result job = []
      | Job_Report c \<Rightarrow> status job = ''running'' \<and> c \<le> reports \<and> progress job = real c / real chunks \<and> result job = []
      | _ \<Rightarrow> status job = (if failed then ''failed'' else ''done'') \<and> progress job = real reports / real chunks \<and> result job = msg))"

definition jobs_inv :: "(real \<Rightarrow> size_t) \<Rightarrow> job_state \<Rightarrow> bool" where
  "jobs_inv conv s \<longleftrightarrow>
     length (runners s) = job_counter s \<and> length (objects s) = job_counter s \<and> length (jobs s) \<le> 200 \<and>
     (job_counter s < 100000 \<longrightarrow> jobs s = newest_jobs (job_counter s)) \<and>
     (\<forall>k < job_counter s. job_ok conv (runners s ! k) (objects s ! k))"

lemma job_submit_fields:
  assumes "is_running s"
  shows "job_counter (snd (job_submit k p now s)) = Suc (job_counter s)"
    "jobs (snd (job_submit k p now s)) = trim_jobs (map_put (job_id (Suc (job_counter s))) (length (objects s)) (jobs s))"
    "runners (snd (job_submit k p now s)) = runners s @ [Job_Start]"
    "objects (snd (job_submit k p now s)) = objects s @
       [\<lparr>id = job_id (Suc (job_counter s)), kind = k, payload = p, status = ''queued'', result = [],
         progress = 0, elapsed_ms = 0, created_ms = now\<rparr>]"
  using assms by (simp_all add: job_submit_def Let_def)

lemma jobs_inv_submit:
  assumes "jobs_inv conv s"
  shows "jobs_inv conv (snd (job_submit k p now s))"
proof (cases "is_running s")
  case True
  note f = job_submit_fields [OF True, of k p now]
  have "job_ok conv Job_Start \<lparr>id = job_id (Suc (job_counter s)), kind = k, payload = p, status = ''queued'', result = [],
         progress = 0, elapsed_ms = 0, created_ms = now\<rparr>" by (simp split: prod.splits)
  then have "job_ok conv (runners (snd (job_submit k p now s)) ! j) (objects (snd (job_submit k p now s)) ! j)"
    if "j < Suc (job_counter s)" for j
    using assms that by (auto simp: f jobs_inv_def nth_append less_Suc_eq simp del: job_ok.simps)
  moreover have "jobs (snd (job_submit k p now s)) = newest_jobs (Suc (job_counter s))" if "Suc (job_counter s) < 100000"
    using assms that by (simp add: f jobs_inv_def newest_jobs_put)
  moreover have "length (jobs (snd (job_submit k p now s))) \<le> 200" by (simp add: f(2) trim_jobs_drop)
  ultimately show ?thesis
    using assms by (auto simp: jobs_inv_def f(1,3,4) simp del: job_ok.simps)
qed (use assms in \<open>simp add: job_submit_def\<close>)

lemma advance_tables [simp]:
  "jobs (job_advance conv fmt ts el k s) = jobs s" "job_counter (job_advance conv fmt ts el k s) = job_counter s"
  "length (runners (job_advance conv fmt ts el k s)) = length (runners s)"
  "length (objects (job_advance conv fmt ts el k s)) = length (objects s)"
  by (auto simp: job_advance_def Let_def split: prod.splits job_pc.splits)

lemma advance_other:
  "j \<noteq> k \<Longrightarrow> runners (job_advance conv fmt ts el k s) ! j = runners s ! j"
  "j \<noteq> k \<Longrightarrow> objects (job_advance conv fmt ts el k s) ! j = objects s ! j"
  by (auto simp: job_advance_def Let_def split: prod.splits job_pc.splits)

lemma advance_job_ok:
  assumes "k < length (runners s)" "k < length (objects s)" "job_ok conv (runners s ! k) (objects s ! k)"
  shows "job_ok conv (runners (job_advance conv fmt ts el k s) ! k) (objects (job_advance conv fmt ts el k s) ! k)"
  using assms job_plan_bounds(2) [of conv "objects s ! k"]
  by (cases "runners s ! k") (auto simp: job_advance_def Let_def split: prod.splits)

lemma jobs_inv_advance: "jobs_inv conv s \<Longrightarrow> k < length (runners s) \<Longrightarrow> jobs_inv conv (job_advance conv fmt ts el k s)"
  unfolding jobs_inv_def using advance_other advance_job_ok by (metis advance_tables)

interpretation jobs: step_invariant "job_step conv fmt" "jobs_inv conv" for conv fmt
  by unfold_locales (auto elim!: job_step.cases intro: jobs_inv_submit jobs_inv_advance)

lemma jobs_inv_init: "jobs_inv conv jobs_init"
  by (simp add: jobs_inv_def jobs_init_def newest_jobs_def)

section \<open>Running to the end\<close>

text \<open>The steps a runner still has to make.\<close>

fun job_left :: "nat \<Rightarrow> job_pc \<Rightarrow> nat" where
  "job_left n Job_Start = 2 * n + 4"
| "job_left n Job_Announce = 2 * n + 3"
| "job_left n (Job_Work c) = 2 * (n - c) + 2"
| "job_left n (Job_Report c) = 2 * (n - c) + 3"
| "job_left n Job_Publish = 1"
| "job_left n Job_Over = 0"

definition reports_of :: "(real \<Rightarrow> size_t) \<Rightarrow> ngx_job_t \<Rightarrow> nat" where
  "reports_of conv job = fst (job_plan conv job)"

lemma job_left_advance:
  assumes "k < length (runners s)" "k < length (objects s)"
  shows "reports_of conv (objects (job_advance conv fmt ts el k s) ! k) = reports_of conv (objects s ! k)"
    "job_left (reports_of conv (objects s ! k)) (runners (job_advance conv fmt ts el k s) ! k) =
     job_left (reports_of conv (objects s ! k)) (runners s ! k) - 1"
  using assms by (cases "runners s ! k"; auto simp: job_advance_def reports_of_def Let_def split: prod.splits)+

lemma job_left_bound: "job_left (reports_of conv job) pc \<le> 404"
  using job_plan_bounds(1) [of conv job] by (cases pc; cases "job_plan conv job") (auto simp: reports_of_def)

lemma job_left_over: "job_left n pc = 0 \<Longrightarrow> pc = Job_Over"
  by (cases pc) auto

lemma job_runs:
  assumes "jobs_inv conv s" "k < length (runners s)"
  shows "jobs_inv conv ((job_advance conv fmt ts el k ^^ n) s) \<and>
    reports_of conv (objects ((job_advance conv fmt ts el k ^^ n) s) ! k) = reports_of conv (objects s ! k) \<and>
    job_left (reports_of conv (objects s ! k)) (runners ((job_advance conv fmt ts el k ^^ n) s) ! k) =
      job_left (reports_of conv (objects s ! k)) (runners s ! k) - n \<and>
    length (runners ((job_advance conv fmt ts el k ^^ n) s)) = length (runners s)"
proof (induction n)
  case (Suc n)
  let ?s = "(job_advance conv fmt ts el k ^^ n) s"
  have "k < length (runners ?s)" "k < length (objects ?s)"
    using Suc assms(2) by (simp_all add: jobs_inv_def)
  from job_left_advance [OF this, of conv fmt ts el] Suc jobs_inv_advance [of conv ?s k fmt ts el] \<open>k < length (runners ?s)\<close>
  show ?case by simp
qed (use assms in simp)

section \<open>Properties\<close>

text \<open>
  C33. The life of a job, in every reachable state of any interleaving of submissions and runners: it is queued, then running with a
  progress of \<open>c\<close> reported steps out of its number of steps, then done (or failed, exactly when its kind is unknown)
  with full progress and its result text; a runner never leaves the range of its steps. The text of a finished prime
  count is the number of primes the sieve counts for the truncated and clamped limit. The payload numbers
  of the jobs are in the range of \<open>size_t\<close> (above -1, below \<open>2 ^ 64\<close>): beyond it the conversion in the code is undefined.
\<close>

theorem job_lifecycle:
  assumes "(job_step conv fmt)\<^sup>*\<^sup>* jobs_init s" and "k < job_counter s"
    and "size_conversion conv" and "\<forall>j < job_counter s. payload_defined (objects s ! j)"
  shows "job_ok truncating (runners s ! k) (objects s ! k) \<and>
    0 \<le> progress (objects s ! k) \<and> progress (objects s ! k) \<le> 1 \<and>
    (runners s ! k = Job_Over \<and> kind (objects s ! k) = ''count_primes'' \<longrightarrow>
      (let limit = min (max (nat \<lfloor>payload_or (objects s ! k) ''limit'' 10000000\<rfloor>) 1000) 200000000
       in result (objects s ! k) =
            to_string (card {p. is_prime p \<and> p < 40 * (limit div 40)} +
              card {p. is_prime p \<and> limit div 40 \<le> p \<and> p < limit div 40 + 2}) @ '' primes <= '' @ to_string limit))"
proof -
  let ?job = "objects s ! k"
  have defined: "payload_defined ?job" using assms(2,4) by blast
  have "job_ok conv (runners s ! k) ?job"
    using jobs.reachable_inv [OF assms(1) jobs_inv_init] assms(2) by (simp add: jobs_inv_def)
  then have ok: "job_ok truncating (runners s ! k) ?job"
    by (simp add: plan_truncates [OF assms(3) defined])
  obtain n c m f where plan: "job_plan truncating ?job = (n, c, m, f)" by (metis prod_cases4)
  moreover have "n \<le> c" using job_plan_bounds(2,3,5) [OF plan] by (cases f) auto
  ultimately have "0 \<le> progress ?job \<and> progress ?job \<le> 1"
    using ok job_plan_bounds(2) [OF plan] by (auto simp: divide_le_eq split: job_pc.splits)
  moreover have "result ?job = (let limit = min (max (nat \<lfloor>payload_or ?job ''limit'' 10000000\<rfloor>) 1000) 200000000
       in to_string (card {p. is_prime p \<and> p < 40 * (limit div 40)} +
              card {p. is_prime p \<and> limit div 40 \<le> p \<and> p < limit div 40 + 2}) @ '' primes <= '' @ to_string limit)"
    if over: "runners s ! k = Job_Over" and count: "kind ?job = ''count_primes''"
  proof -
    let ?limit = "nat \<lfloor>payload_or ?job ''limit'' 10000000\<rfloor>"
    have "job_limit truncating ?job = clamp_limit ?limit"
      using count defined by (simp add: job_limit_def payload_defined_def unat_truncating)
    moreover have "result ?job = m" using ok over plan by simp
    ultimately have "result ?job = to_string (count_primes (clamp_limit ?limit)) @ '' primes <= '' @ to_string (clamp_limit ?limit)"
      using plan count by (simp add: job_plan_def)
    then show ?thesis unfolding count_primes_exact Let_def by (simp only: clamp_limit_def)
  qed
  ultimately show ?thesis using ok by (simp only: Let_def) blast
qed

text \<open>Two jobs are submitted, and the first one runs for two steps.\<close>

definition two_jobs :: job_state where
  "two_jobs = job_advance truncating (\<lambda>x. []) 0 0 0 (job_advance truncating (\<lambda>x. []) 0 0 0
     (snd (job_submit ''noop'' [] 0 (snd (job_submit ''sleep_steps'' [] 0 jobs_init)))))"

lemma two_jobs_counter: "job_counter two_jobs = 2" "length (runners two_jobs) = 2"
  by (simp_all add: two_jobs_def job_submit_def jobs_init_def Let_def)

lemma two_jobs_reachable: "(job_step truncating (\<lambda>x. []))\<^sup>*\<^sup>* jobs_init two_jobs"
proof -
  let ?one = "snd (job_submit ''sleep_steps'' [] 0 jobs_init)"
  let ?two = "snd (job_submit ''noop'' [] 0 ?one)"
  have run: "is_running ?one" "length (runners ?two) = 2" by (simp_all add: job_submit_def jobs_init_def Let_def)
  have "job_step truncating (\<lambda>x. []) jobs_init ?one" "job_step truncating (\<lambda>x. []) ?one ?two" by (rule job_step.submit)+
  moreover have "job_step truncating (\<lambda>x. []) ?two (job_advance truncating (\<lambda>x. []) 0 0 0 ?two)" using run(2) by (intro job_step.run) simp
  moreover have "job_step truncating (\<lambda>x. []) (job_advance truncating (\<lambda>x. []) 0 0 0 ?two) two_jobs"
    unfolding two_jobs_def using run(2) by (intro job_step.run) simp
  ultimately show ?thesis by (meson rtranclp.rtrancl_into_rtrancl rtranclp.rtrancl_refl)
qed

lemma two_jobs_defined: "\<forall>j < job_counter two_jobs. payload_defined (objects two_jobs ! j)"
  unfolding two_jobs_counter
  by (auto simp: less_Suc_eq numeral_2_eq_2 payload_defined_def payload_or_def in_size_t_def two_jobs_def
      job_submit_def jobs_init_def job_advance_def Let_def split: prod.splits)

theorem job_lifecycle_witness:
  "job_ok truncating (runners two_jobs ! 0) (objects two_jobs ! 0) \<and> progress (objects two_jobs ! 1) \<le> 1"
proof -
  have conv: "size_conversion truncating" by (simp add: size_conversion_def)
  show ?thesis
    using job_lifecycle [OF two_jobs_reachable _ conv two_jobs_defined, of 0]
      job_lifecycle [OF two_jobs_reachable _ conv two_jobs_defined, of 1] by (simp add: two_jobs_counter)
qed

text \<open>
  What the code leaves open: for a limit of -5, conversions that C++ allows give the smallest limit and the
  largest one (x86-64 gives the latter).
\<close>

definition wrapping :: "real \<Rightarrow> size_t" where
  "wrapping x = (if in_size_t x then truncating x else word_of_int \<lceil>x\<rceil>)"

definition clipping :: "real \<Rightarrow> size_t" where
  "clipping x = (if in_size_t x then truncating x else 0)"

lemma job_limit_undefined:
  assumes "payload job = [(''limit'', - 5)]"
  shows "size_conversion wrapping \<and> size_conversion clipping \<and>
    job_limit wrapping job = 200000000 \<and> job_limit clipping job = 1000"
  using assms
  by (simp add: size_conversion_def wrapping_def clipping_def job_limit_def payload_or_def in_size_t_def clamp_limit_def)

text \<open>
  C34. Every job ends: from any reachable state, at most 404 steps of its own runner take a job to its end, where it is
  done or failed with its result, and further steps change nothing. (A job makes at most 200 reports.)
\<close>

theorem job_terminates:
  assumes "(job_step conv fmt)\<^sup>*\<^sup>* jobs_init s" and "k < job_counter s" and "404 \<le> n"
  shows "runners ((job_advance conv fmt ts el k ^^ n) s) ! k = Job_Over \<and>
    status (objects ((job_advance conv fmt ts el k ^^ n) s) ! k) \<in> {''done'', ''failed''}"
proof -
  let ?s = "(job_advance conv fmt ts el k ^^ n) s"
  have inv: "jobs_inv conv s" by (rule jobs.reachable_inv [OF assms(1) jobs_inv_init])
  then have k: "k < length (runners s)" using assms(2) by (simp add: jobs_inv_def)
  note run = job_runs [OF inv k, where fmt = fmt and ts = ts and el = el and n = n]
  have "job_left (reports_of conv (objects s ! k)) (runners ?s ! k) = 0"
    using run job_left_bound [of conv "objects s ! k" "runners s ! k"] assms(3) by simp
  then have over: "runners ?s ! k = Job_Over" by (rule job_left_over)
  moreover have "job_ok conv (runners ?s ! k) (objects ?s ! k)" using run k by (simp add: jobs_inv_def del: job_ok.simps)
  ultimately show ?thesis by (auto split: prod.splits if_splits)
qed

theorem job_terminates_witness:
  "runners ((job_advance truncating (\<lambda>x. []) 0 0 0 ^^ 404) two_jobs) ! 0 = Job_Over"
  using job_terminates [OF two_jobs_reachable, of 0 404 0 0] by (simp add: two_jobs_counter)

text \<open>
  The table keeps the newest jobs: in every reachable state it has at most 200 entries, and while fewer than 100000 jobs were
  submitted it holds exactly the newest 200, oldest first, each under its id; a query of an id
  answers with the object of that job, and of no other id.
\<close>

theorem job_table_newest:
  assumes "(job_step conv fmt)\<^sup>*\<^sup>* jobs_init s"
  shows "length (jobs s) \<le> 200 \<and>
    (job_counter s < 100000 \<longrightarrow>
       jobs s = map (\<lambda>i. (job_id (Suc i), i)) [job_counter s - 200..<job_counter s] \<and>
       (\<forall>i < job_counter s. job_counter s \<le> i + 200 \<longrightarrow>
          job_query (job_id (Suc i)) s =
            (status (objects s ! i), progress (objects s ! i), elapsed_ms (objects s ! i), result (objects s ! i))))"
proof -
  have inv: "jobs_inv conv s" by (rule jobs.reachable_inv [OF assms jobs_inv_init])
  have "job_query (job_id (Suc i)) s =
      (status (objects s ! i), progress (objects s ! i), elapsed_ms (objects s ! i), result (objects s ! i))"
    if "job_counter s < 100000" "i < job_counter s" "job_counter s \<le> i + 200" for i
  proof -
    let ?ks = "[job_counter s - 200..<job_counter s]"
    have "sorted_wrt (<) (map (\<lambda>i. job_id (Suc i)) ?ks)"
      using that(1) by (auto simp: sorted_wrt_map sorted_wrt_iff_nth_less intro!: job_id_less)
    then have "distinct (map fst (map (\<lambda>i. (job_id (Suc i), i)) ?ks))"
      using strict_sorted_iff by (auto simp: comp_def)
    moreover have "(job_id (Suc i), i) \<in> set (map (\<lambda>i. (job_id (Suc i), i)) ?ks)" using that by auto
    ultimately have "map_of (jobs s) (job_id (Suc i)) = Some i"
      using inv that(1) by (simp only: jobs_inv_def newest_jobs_def map_of_is_SomeI)
    then show ?thesis by (simp add: job_query_def Let_def)
  qed
  with inv show ?thesis by (auto simp: jobs_inv_def newest_jobs_def)
qed

theorem job_table_newest_witness:
  "jobs two_jobs = [(''J00001'', 0), (''J00002'', 1)] \<and> fst (job_query ''J00001'' two_jobs) = ''running''"
proof -
  have ids: "job_id (Suc 0) = ''J00001''" "job_id (Suc (Suc 0)) = ''J00002''" by code_simp+
  have "status (objects two_jobs ! 0) = ''running''"
    by (simp add: two_jobs_def job_submit_def jobs_init_def Let_def job_advance_def split: prod.splits)
  with job_table_newest [OF two_jobs_reachable] show ?thesis
    by (auto simp: two_jobs_counter ids upt_rec numeral_2_eq_2)
qed

text \<open>
  From the hundred-thousandth job on, the ids have six digits and sort before those of the
  table: the new job itself is erased as the first entry, and is not found any more.
\<close>

lemma newest_jobs_shape:
  "length (newest_jobs n) = min n 200" "0 < n \<Longrightarrow> hd (newest_jobs n) = (job_id (Suc (n - 200)), n - 200)"
  "(i, v) \<in> set (newest_jobs n) \<Longrightarrow> n < 100000 \<Longrightarrow> length i = 6"
  by (auto simp: newest_jobs_def hd_map job_id_def zero_padded_digits)

lemma job_100000_lost:
  assumes "is_running s" and "job_counter s = 99999" and "jobs s = newest_jobs 99999"
  shows "job_query (fst (job_submit k p now s)) (snd (job_submit k p now s)) = (''not_found'', 0, 0, [])"
proof -
  have len: "length (newest_jobs 99999) = 200" by (simp add: newest_jobs_shape)
  have "job_id 100000 < job_id 99800"
    by (simp add: job_id_def zero_padded_def Let_def to_string.simps digit_char_less)
  moreover have "hd (newest_jobs 99999) = (job_id 99800, 99799)" by (simp add: newest_jobs_shape(2))
  ultimately have front: "map_put (job_id 100000) v (newest_jobs 99999) = (job_id 100000, v) # newest_jobs 99999" for v
    using len by (cases "newest_jobs 99999") auto
  have "job_id 100000 \<notin> fst ` set (newest_jobs 99999)"
  proof -
    have "length (job_id 100000) = 7" by (simp add: job_id_def zero_padded_def Let_def to_string.simps)
    then show ?thesis using newest_jobs_shape(3) [of _ _ 99999] by fastforce
  qed
  then have "map_of (newest_jobs 99999) (job_id 100000) = None" by (simp only: map_of_eq_None_iff not_False_eq_True)
  then show ?thesis
    using assms front len by (simp add: job_query_def trim_jobs_drop job_submit_def Let_def)
qed

end
