(* ===== verification/Log_Analysis.thy ===== *)
theory Log_Analysis
  imports Std_Map Std_String Complex_Main
begin

text \<open>
  The access-log analysis of \<open>ngx_lua_cpp.cpp\<close>: \<open>log_parse_time\<close> with its calendar arithmetic, the
  parser of one line, the scan of the file byte by byte, and the report of \<open>log_analyze\<close>. The file
  is its contents, or \<^const>\<open>None\<close> when it cannot be opened. Counters are \<open>double\<close>s that only
  count up; here they are natural numbers. A \<open>char\<close> is signed.
\<close>

section \<open>Time stamps\<close>

definition schar :: "char \<Rightarrow> int" where
  "schar c = (let n = int (of_char c) in if n < 128 then n else n - 256)"

text \<open>\<open>s[i] - '0'\<close>; a string is followed by a NUL.\<close>

definition digit_at :: "string \<Rightarrow> nat \<Rightarrow> int" where
  "digit_at s i = (if i < length s then schar (s ! i) else 0) - 48"

definition log_months :: "string list" where
  "log_months = [''Jan'', ''Feb'', ''Mar'', ''Apr'', ''May'', ''Jun'', ''Jul'', ''Aug'', ''Sep'', ''Oct'', ''Nov'', ''Dec'']"

fun month_index :: "string \<Rightarrow> string list \<Rightarrow> int \<Rightarrow> int" where
  "month_index s [] m = - 1"
| "month_index s (n # ns) m = (if starts_with n s then m + 1 else month_index s ns (m + 1))"

text \<open>\<open>days_from_civil\<close>, in the machine types of the code.\<close>

definition c_div :: "int \<Rightarrow> int \<Rightarrow> int" where
  "c_div a b = sgn a * sgn b * (\<bar>a\<bar> div \<bar>b\<bar>)"

definition days_from_civil :: "int \<Rightarrow> int \<Rightarrow> int \<Rightarrow> int" where
  "days_from_civil year month day =
     (let y = year - (if month \<le> 2 then 1 else 0);
          era = c_div (if y \<ge> 0 then y else y - 399) 400;
          yoe = word_of_int (y - era * 400) :: uint32_t;
          mp = word_of_int (month + (if month > 2 then - 3 else 9)) :: uint32_t;
          doy = (153 * mp + 2) div 5 + word_of_int day - 1;
          doe = yoe * 365 + yoe div 4 - yoe div 100 + doy
      in era * 146097 + uint doe - 719468)"

definition log_parse_time :: "string \<Rightarrow> int" where
  "log_parse_time s =
     (if length s < 20 \<or> s ! 0 \<noteq> CHR ''['' then 0
      else
        let day = digit_at s 1 * 10 + digit_at s 2;
            month = month_index (drop 4 s) log_months 0;
            year = ((digit_at s 8 * 10 + digit_at s 9) * 10 + digit_at s 10) * 10 + digit_at s 11;
            hh = digit_at s 13 * 10 + digit_at s 14;
            mi = digit_at s 16 * 10 + digit_at s 17;
            ss = digit_at s 19 * 10 + digit_at s 20
        in if month < 0 then 0
           else days_from_civil year month day * 86400 + (hh * 3600 + mi * 60 + ss))"

section \<open>One line\<close>

definition log_status :: "string \<Rightarrow> nat \<Rightarrow> string" where
  "log_status line quote2 = takeWhile is_digit (dropWhile (\<lambda>c. c = CHR '' '' \<or> c = CHR 0x09) (drop (quote2 + 1) line))"

definition log_url :: "string \<Rightarrow> string option" where
  "log_url req =
     (case find_char (CHR '' '') req of
        None \<Rightarrow> None
      | Some sp1 \<Rightarrow>
         (case find_char_from (CHR '' '') (sp1 + 1) req of
            None \<Rightarrow> None
          | Some sp2 \<Rightarrow> Some (substr (sp1 + 1) (sp2 - sp1 - 1) req)))"

text \<open>Time stamp, status and URL of a line that counts.\<close>

definition log_parse_line :: "string \<Rightarrow> (int \<times> string \<times> string option) option" where
  "log_parse_line line =
     (case (find_char (CHR ''['') line, find_char (CHR 0x22) line, find_str ''HTTP/'' line) of
        (Some ts_start, Some quote1, Some http_pos) \<Rightarrow>
          (case find_char_from (CHR 0x22) (quote1 + 1) line of
             None \<Rightarrow> None
           | Some quote2 \<Rightarrow>
               if http_pos < quote2 then
                 let ts = log_parse_time (drop ts_start line);
                     req = substr (quote1 + 1) (quote2 - quote1 - 1) line;
                     st = log_status line quote2
                 in if ts > 0 \<and> st \<noteq> [] then Some (ts, st, log_url req) else None
               else None)
      | _ \<Rightarrow> None)"

section \<open>The scan\<close>

record log_state =
  lines :: nat
  totals :: nat
  first_ts :: int
  last_ts :: int
  url_counts :: "(string, nat) std_map"
  second_counts :: "(int, nat) std_map"
  status_counts :: "(string, nat) std_map"

definition log_init :: log_state where
  "log_init = \<lparr>lines = 0, totals = 0, first_ts = 0, last_ts = 0, url_counts = [], second_counts = [], status_counts = []\<rparr>"

text \<open>\<open>m[k] += 1\<close>\<close>

definition map_count :: "('k :: linorder, nat) std_map \<Rightarrow> 'k \<Rightarrow> nat" where
  "map_count m k = (case map_of m k of None \<Rightarrow> 0 | Some n \<Rightarrow> n)"

definition map_inc :: "'k :: linorder \<Rightarrow> ('k, nat) std_map \<Rightarrow> ('k, nat) std_map" where
  "map_inc k m = map_put k (map_count m k + 1) m"

definition log_line :: "string \<Rightarrow> log_state \<Rightarrow> log_state" where
  "log_line line s =
     (case log_parse_line line of
        None \<Rightarrow> s
      | Some (ts, st, url) \<Rightarrow>
          s\<lparr>totals := totals s + 1, first_ts := if first_ts s = 0 then ts else first_ts s, last_ts := ts,
            second_counts := map_inc ts (second_counts s), status_counts := map_inc st (status_counts s),
            url_counts := (case url of None \<Rightarrow> url_counts s | Some u \<Rightarrow> map_inc u (url_counts s))\<rparr>)"

text \<open>
  The loop over the file. \<open>(char)fgetc(f)\<close> equals \<open>EOF\<close> at the end of the file, and at a byte 255.
\<close>

fun log_scan :: "real \<Rightarrow> string \<Rightarrow> string \<Rightarrow> log_state \<Rightarrow> log_state" where
  "log_scan max_lines line [] s = s"
| "log_scan max_lines line (c # cs) s =
     (if c = CHR 0xFF then s
      else if c = CHR 0x0A then
        let s1 = log_line line (s\<lparr>lines := lines s + 1\<rparr>) in
        if real (lines s1) \<ge> max_lines then s1 else log_scan max_lines [] cs s1
      else log_scan max_lines (line @ [c]) cs s)"

section \<open>The report\<close>

definition top_urls :: "log_state \<Rightarrow> (string \<times> nat) list" where
  "top_urls s = take 20 (sort_key (\<lambda>p. - int (snd p)) (url_counts s))"

definition log_statuses :: "log_state \<Rightarrow> (string \<times> nat) list" where
  "log_statuses s = sort_key (\<lambda>p. read_digits 0 (fst p)) (status_counts s)"

definition per_second :: "log_state \<Rightarrow> (nat \<times> nat) list" where
  "per_second s =
     (let sec_vec = second_counts s; n = length sec_vec; from = (if n > 60 then n - 60 else 0)
      in map (\<lambda>i. (i - from, snd (sec_vec ! i))) [from..<n])"

definition status_class :: "log_state \<Rightarrow> string list \<Rightarrow> real" where
  "status_class s codes = real (sum_list (map (map_count (status_counts s)) codes))"

definition log_stats :: "log_state \<Rightarrow> real \<Rightarrow> (string \<times> real) list" where
  "log_stats s elapsed =
     [(''lines'', real (lines s)), (''total'', real (totals s)),
      (''status_2xx'', status_class s [''200'', ''201'', ''202'', ''204'']),
      (''status_3xx'', status_class s [''301'', ''302'', ''304'', ''307'']),
      (''status_4xx'', status_class s [''400'', ''401'', ''403'', ''404'', ''429'']),
      (''status_5xx'', status_class s [''500'', ''502'', ''503'', ''504'']),
      (''qps'', if last_ts s > first_ts s \<and> totals s > 0 then real (totals s) / real_of_int (last_ts s - first_ts s) else 0),
      (''span_seconds'', if last_ts s > first_ts s then real_of_int (last_ts s - first_ts s) else 0),
      (''elapsed_ms'', elapsed)]"

type_synonym log_stats_t = "(string, real) std_map \<times> (string \<times> nat) list \<times> (string \<times> nat) list \<times> (nat \<times> nat) list"

definition log_analyze :: "string option \<Rightarrow> int \<Rightarrow> real \<Rightarrow> real \<Rightarrow> log_stats_t" where
  "log_analyze file_contents errno elapsed max_lines =
     (case file_contents of
        None \<Rightarrow> (fold (\<lambda>(k, v). map_put k v) [(''error'', 1), (''errno'', real_of_int errno), (''elapsed_ms'', elapsed)] [], [], [], [])
      | Some contents \<Rightarrow>
          let s = log_scan (if max_lines > 0 then max_lines else 100000) [] contents log_init
          in (fold (\<lambda>(k, v). map_put k v) (log_stats s elapsed) [], top_urls s, log_statuses s, per_second s))"

section \<open>The calendar\<close>

definition leap_year :: "int \<Rightarrow> bool" where
  "leap_year y \<longleftrightarrow> 4 dvd y \<and> \<not> 100 dvd y \<or> 400 dvd y"

definition month_days :: "int \<Rightarrow> int \<Rightarrow> int" where
  "month_days y m = (if m = 2 then (if leap_year y then 29 else 28) else if m \<in> {4, 6, 9, 11} then 30 else 31)"

definition valid_date :: "int \<Rightarrow> int \<Rightarrow> int \<Rightarrow> bool" where
  "valid_date y m d \<longleftrightarrow> 0 \<le> y \<and> 1 \<le> m \<and> m \<le> 12 \<and> 1 \<le> d \<and> d \<le> month_days y m"

definition next_date :: "int \<Rightarrow> int \<Rightarrow> int \<Rightarrow> int \<times> int \<times> int" where
  "next_date y m d =
     (if d < month_days y m then (y, m, d + 1) else if m < 12 then (y, m + 1, 1) else (y + 1, 1, 1))"

lemma c_div_floor: "c_div (if y \<ge> 0 then y else y - 399) 400 = y div 400"
proof (cases "y \<ge> 0")
  case True
  then show ?thesis by (cases "y = 0") (auto simp: c_div_def)
next
  case False
  then have "c_div (y - 399) 400 = - ((399 - y) div 400)" by (simp add: c_div_def)
  also have "(399 - y) div 400 = - (y div 400)"
    by (rule int_div_pos_eq [of _ _ _ "399 - y mod 400"]) (simp_all add: minus_mod_eq_mult_div [symmetric])
  finally show ?thesis using False by simp
qed

lemma div_word_of_int:
  "0 \<le> a \<Longrightarrow> a < 2 ^ 32 \<Longrightarrow> 0 \<le> b \<Longrightarrow> b < 2 ^ 32 \<Longrightarrow>
   (word_of_int a :: uint32_t) div word_of_int b = word_of_int (a div b)"
  by (simp add: word_div_def uint_word_of_int)

text \<open>For a month and a day in range nothing wraps, and the eras add up to one formula.\<close>

lemma days_from_civil_formula:
  assumes "1 \<le> m" "m \<le> 12" "1 \<le> d" "d \<le> 31"
  shows "days_from_civil y m d =
    (let y' = y - (if m \<le> 2 then 1 else 0); mp = m + (if m > 2 then - 3 else 9)
     in 365 * y' + y' div 4 - y' div 100 + y' div 400 + (153 * mp + 2) div 5 + d - 719469)"
proof -
  define y' where "y' = y - (if m \<le> 2 then 1 else 0)"
  define mp where "mp = m + (if m > 2 then - 3 else 9)"
  define yoe where "yoe = y' mod 400"
  have mp: "0 \<le> mp" "mp \<le> 11" using assms(1,2) by (auto simp: mp_def)
  have yoe: "0 \<le> yoe" "yoe < 400" by (auto simp: yoe_def)
  let ?e = "yoe * 365 + yoe div 4 - yoe div 100 + ((153 * mp + 2) div 5 + d - 1)"
  have r: "0 \<le> ?e" "?e < 2 ^ 32" using mp yoe assms(3,4) by auto
  have words: "(153 * word_of_int mp + 2) div 5 = (word_of_int ((153 * mp + 2) div 5) :: uint32_t)"
    "(word_of_int yoe :: uint32_t) div 4 = word_of_int (yoe div 4)"
    "(word_of_int yoe :: uint32_t) div 100 = word_of_int (yoe div 100)"
    using div_word_of_int [of "153 * mp + 2" 5] div_word_of_int [of yoe 4] div_word_of_int [of yoe 100] mp yoe by simp_all
  have "word_of_int yoe * 365 + word_of_int yoe div 4 - word_of_int yoe div 100 +
      ((153 * word_of_int mp + 2) div 5 + word_of_int d - 1) = (word_of_int ?e :: uint32_t)"
    unfolding words by simp
  then have doe: "uint (word_of_int yoe * 365 + word_of_int yoe div 4 - word_of_int yoe div 100 +
      ((153 * word_of_int mp + 2) div 5 + word_of_int d - 1) :: uint32_t) = ?e"
    using r by (simp only: uint_word_of_int) simp
  have "days_from_civil y m d = y' div 400 * 146097 + ?e - 719468"
    unfolding days_from_civil_def Let_def y'_def [symmetric] mp_def [symmetric] c_div_floor
    unfolding minus_div_mult_eq_mod yoe_def [symmetric] doe by simp
  also have "\<dots> = 365 * y' + y' div 4 - y' div 100 + y' div 400 + (153 * mp + 2) div 5 + d - 719469"
  proof -
    let ?q = "y' div 400"
    have y': "y' = yoe + 4 * (100 * ?q)" "y' = yoe + 100 * (4 * ?q)" by (simp_all add: yoe_def)
    have split: "(r + 4 * (100 * q)) div 4 = r div 4 + 100 * q" "(r + 100 * (4 * q)) div 100 = r div 100 + 4 * q" for r q :: int
      by simp_all
    have "y' div 4 = yoe div 4 + 100 * ?q" "y' div 100 = yoe div 100 + 4 * ?q"
      by (rule split(1) [of yoe ?q, folded y'(1)], rule split(2) [of yoe ?q, folded y'(2)])
    with y'(1) show ?thesis by linarith
  qed
  finally show ?thesis by (simp add: Let_def y'_def mp_def)
qed


lemma div_pred: "0 < k \<Longrightarrow> y div k = (y - 1) div k + (if k dvd y then 1 else 0)" for y k :: int
proof -
  assume k: "0 < k"
  show ?thesis
  proof (cases "k dvd y")
    case True
    then have "(y - 1) div k = y div k - 1"
      using k by (intro int_div_pos_eq [of _ _ _ "k - 1"]) (auto simp: algebra_simps)
    with True show ?thesis by simp
  next
    case False
    then have "0 < y mod k" using k by (simp add: dvd_eq_mod_eq_0 order_less_le)
    then have "(y - 1) div k = y div k"
      using k pos_mod_bound [OF k, of y] by (intro int_div_pos_eq [of _ _ _ "y mod k - 1"]) auto
    with False show ?thesis by simp
  qed
qed

lemma month_days_bound: "28 \<le> month_days y m" "month_days y m \<le> 31"
  by (auto simp: month_days_def)

lemma february_end:
  "days_from_civil y 3 1 = days_from_civil y 2 (month_days y 2) + 1"
proof -
  have "(400 dvd y \<longrightarrow> 100 dvd y) \<and> (100 dvd y \<longrightarrow> 4 dvd y)"
    using dvd_trans [of 100 400 y] dvd_trans [of 4 100 y] by simp
  then have days: "month_days y 2 = 28 + (if 4 dvd y then 1 else 0) - (if 100 dvd y then 1 else 0) + (if 400 dvd y then 1 else 0)"
    by (auto simp: month_days_def leap_year_def)
  have lin: "365 * y + a + 1 - 719469 = 365 * (y - 1) + b + 337 + d - 719469 + 1"
    if "a = b + i" "d = 28 + i" for a b d i :: int using that by simp
  have step: "y div 4 - y div 100 + y div 400 = (y - 1) div 4 - (y - 1) div 100 + (y - 1) div 400 +
      ((if 4 dvd y then 1 else 0) - (if 100 dvd y then 1 else 0) + (if 400 dvd y then 1 else 0))"
    unfolding div_pred [of 4 y, simplified] div_pred [of 100 y, simplified] div_pred [of 400 y, simplified] by (simp only: algebra_simps)
  have "days_from_civil y 3 1 = 365 * y + (y div 4 - y div 100 + y div 400) + 1 - 719469"
    by (simp add: days_from_civil_formula Let_def)
  moreover have "days_from_civil y 2 (month_days y 2) =
      365 * (y - 1) + ((y - 1) div 4 - (y - 1) div 100 + (y - 1) div 400) + 337 + month_days y 2 - 719469"
    using month_days_bound [of y 2] by (simp add: days_from_civil_formula Let_def)
  moreover note lin [OF step, of "month_days y 2"] days
  ultimately show ?thesis by (simp only: add.assoc add_diff_eq)
qed

lemma next_month:
  assumes "1 \<le> m" "m < 12"
  shows "days_from_civil y (m + 1) 1 = days_from_civil y m (month_days y m) + 1"
proof (cases "m = 2")
  case True
  then show ?thesis using february_end by simp
next
  case False
  then have "m \<in> {1, 3, 4, 5, 6, 7, 8, 9, 10, 11}" unfolding insert_iff empty_iff using assms by presburger
  then show ?thesis by (auto simp: days_from_civil_formula Let_def month_days_def)
qed

text \<open>
  The day number counted out, independently of the code's arithmetic: the days of the years before, of the
  months before and of the month, from the first of January of the year 0, less those of 1970.
\<close>

definition year_days :: "int \<Rightarrow> int" where
  "year_days y = (if leap_year y then 366 else 365)"

definition day_count :: "nat \<Rightarrow> nat \<Rightarrow> nat \<Rightarrow> int" where
  "day_count y m d =
     (\<Sum>k \<leftarrow> [0..<y]. year_days (int k)) + (\<Sum>k \<leftarrow> [1..<m]. month_days (int y) (int k)) + (int d - 1)"

definition epoch_day :: "nat \<Rightarrow> nat \<Rightarrow> nat \<Rightarrow> int" where
  "epoch_day y m d = day_count y m d - day_count 1970 1 1"

lemma civil_day:
  "1 \<le> m \<Longrightarrow> m \<le> 12 \<Longrightarrow> 1 \<le> d \<Longrightarrow> d \<le> 31 \<Longrightarrow> days_from_civil y m d = days_from_civil y m 1 + (d - 1)"
  by (simp add: days_from_civil_formula Let_def)

lemma civil_month:
  "Suc n \<le> 12 \<Longrightarrow> days_from_civil y (int (Suc n)) 1 = days_from_civil y 1 1 + (\<Sum>k \<leftarrow> [1..<Suc n]. month_days y (int k))"
proof (induction n)
  case (Suc n)
  have "days_from_civil y (int (Suc n) + 1) 1 = days_from_civil y (int (Suc n)) (month_days y (int (Suc n))) + 1"
    using Suc.prems by (intro next_month) auto
  also have "\<dots> = days_from_civil y (int (Suc n)) 1 + month_days y (int (Suc n))"
    using Suc.prems month_days_bound [of y "int (Suc n)"] by (subst civil_day) auto
  finally show ?case using Suc by (simp add: add.commute)
qed simp

lemma civil_year: "days_from_civil (int y) 1 1 = days_from_civil 0 1 1 + (\<Sum>k \<leftarrow> [0..<y]. year_days (int k))"
proof (induction y)
  case (Suc y)
  have months: "[1..<Suc 11] = [1, 2, 3, 4, 5, 6, 7, 8, 9, 10, 11]" by code_simp
  have "days_from_civil (int y + 1) 1 1 = days_from_civil (int y) 12 1 + 31"
    by (simp add: days_from_civil_formula Let_def)
  also have "days_from_civil (int y) 12 1 = days_from_civil (int y) 1 1 + (year_days (int y) - 31)"
    using civil_month [of 11 "int y"] unfolding months by (simp add: month_days_def year_days_def)
  finally show ?case using Suc by (simp add: add.commute)
qed simp

lemma days_from_civil_counts:
  assumes "1 \<le> m" "m \<le> 12" "1 \<le> d" "d \<le> 31"
  shows "days_from_civil (int y) (int m) (int d) = epoch_day y m d"
proof -
  obtain n where m: "m = Suc n" using assms(1) by (cases m) auto
  have count: "days_from_civil (int y) (int m) (int d) = days_from_civil 0 1 1 + day_count y m d"
    using civil_day [of "int m" "int d" "int y"] civil_month [of n "int y"] civil_year [of y] assms m
    by (simp add: day_count_def)
  have "days_from_civil (int 1970) (int 1) (int 1) = 0" by (simp add: days_from_civil_formula Let_def)
  moreover have "days_from_civil (int 1970) (int 1) (int 1) = days_from_civil 0 1 1 + day_count 1970 1 1"
    using civil_year [of 1970] by (simp add: day_count_def)
  ultimately show ?thesis using count by (simp add: epoch_day_def)
qed

section \<open>Text of a time stamp\<close>

definition month_abbreviation :: "nat \<Rightarrow> string" where
  "month_abbreviation m = take 3 (drop (3 * (m - 1)) ''JanFebMarAprMayJunJulAugSepOctNovDec'')"

definition two_digits :: "nat \<Rightarrow> string" where
  "two_digits n = [digit_char (n div 10), digit_char (n mod 10)]"

definition four_digits :: "nat \<Rightarrow> string" where
  "four_digits n = two_digits (n div 100) @ two_digits (n mod 100)"

definition log_time_text :: "nat \<Rightarrow> nat \<Rightarrow> nat \<Rightarrow> nat \<Rightarrow> nat \<Rightarrow> nat \<Rightarrow> string" where
  "log_time_text y m d hh mi ss =
     ''['' @ two_digits d @ ''/'' @ month_abbreviation m @ ''/'' @ four_digits y @ '':'' @ two_digits hh @ '':'' @
     two_digits mi @ '':'' @ two_digits ss"

lemma schar_digit: "d < 10 \<Longrightarrow> schar (digit_char d) = 48 + int d"
  by (simp add: schar_def)


lemma month_index_names:
  assumes "1 \<le> m" "m \<le> 12"
  shows "\<exists>a b c. month_abbreviation m = [a, b, c] \<and> (\<forall>rest. month_index (a # b # c # rest) log_months 0 = int m)"
proof -
  have "m \<in> {1, 2, 3, 4, 5, 6, 7, 8, 9, 10, 11, 12}" unfolding insert_iff empty_iff using assms by presburger
  then show ?thesis by (elim insertE) (auto simp: month_abbreviation_def log_months_def)
qed

lemma log_parse_time_chars:
  "log_parse_time (CHR ''['' # d1 # d2 # x1 # a # b # c # x2 # y1 # y2 # y3 # y4 # x3 # h1 # h2 # x4 # m1 # m2 # x5 # s1 # s2 # rest) =
   (let month = month_index (a # b # c # x2 # y1 # y2 # y3 # y4 # x3 # h1 # h2 # x4 # m1 # m2 # x5 # s1 # s2 # rest) log_months 0;
        v = (\<lambda>c. schar c - 48)
    in if month < 0 then 0
       else days_from_civil (((v y1 * 10 + v y2) * 10 + v y3) * 10 + v y4) month (v d1 * 10 + v d2) * 86400 +
         ((v h1 * 10 + v h2) * 3600 + (v m1 * 10 + v m2) * 60 + (v s1 * 10 + v s2)))"
  by (simp add: log_parse_time_def digit_at_def Let_def)

lemma log_parse_time_text:
  assumes "1 \<le> m" "m \<le> 12" "d < 100" "y < 10000" "hh < 100" "mi < 100" "ss < 100"
  shows "log_parse_time (log_time_text y m d hh mi ss @ rest) =
    days_from_civil (int y) (int m) (int d) * 86400 + int (hh * 3600 + mi * 60 + ss)"
proof -
  obtain a b c where abc: "month_abbreviation m = [a, b, c]"
    and idx: "\<And>rest. month_index (a # b # c # rest) log_months 0 = int m"
    using month_index_names [OF assms(1,2)] by blast
  have small: "n < 100 \<Longrightarrow> n div 10 < 10" for n :: nat by (simp add: div_less_iff_less_mult)
  have four: "y div 100 < 100" "y mod 100 < 100" using assms(4) by (simp_all add: div_less_iff_less_mult)
  have two: "(schar (digit_char (n div 10)) - 48) * 10 + (schar (digit_char (n mod 10)) - 48) = int n" if "n < 100" for n
    using small [OF that] by (simp add: schar_digit) (metis div_mult_mod_eq of_nat_add of_nat_mult of_nat_numeral)
  have year: "(int (y div 100) * 10 + (schar (digit_char (y mod 100 div 10)) - 48)) * 10 + (schar (digit_char (y mod 100 mod 10)) - 48) = int y"
  proof -
    have shift: "(q * 10 + a) * 10 + b = q * 100 + (a * 10 + b)" for q a b :: int by simp
    show ?thesis unfolding shift two [OF four(2)] by (metis div_mult_mod_eq of_nat_add of_nat_mult of_nat_numeral)
  qed
  have "log_time_text y m d hh mi ss @ rest =
      CHR ''['' # digit_char (d div 10) # digit_char (d mod 10) # CHR ''/'' # a # b # c # CHR ''/'' #
      digit_char (y div 100 div 10) # digit_char (y div 100 mod 10) # digit_char (y mod 100 div 10) # digit_char (y mod 100 mod 10) # CHR '':'' #
      digit_char (hh div 10) # digit_char (hh mod 10) # CHR '':'' # digit_char (mi div 10) # digit_char (mi mod 10) # CHR '':'' #
      digit_char (ss div 10) # digit_char (ss mod 10) # rest"
    unfolding log_time_text_def abc two_digits_def four_digits_def by simp
  then show ?thesis
    by (simp only: log_parse_time_chars idx Let_def two [OF assms(3)] two [OF assms(5)] two [OF assms(6)] two [OF assms(7)]
        two [OF four(1)] year) simp
qed

section \<open>The scan, line by line\<close>

text \<open>The lines of a text that a newline ends.\<close>

fun ended_lines :: "string \<Rightarrow> string \<Rightarrow> string list" where
  "ended_lines line [] = []"
| "ended_lines line (c # cs) = (if c = CHR 0x0A then line # ended_lines [] cs else ended_lines (line @ [c]) cs)"

definition log_step :: "string \<Rightarrow> log_state \<Rightarrow> log_state" where
  "log_step line s = log_line line (s\<lparr>lines := lines s + 1\<rparr>)"

lemma lines_log_line [simp]: "lines (log_line l s) = lines s"
  by (simp add: log_line_def split: option.splits prod.splits)

lemma lines_log_step [simp]: "lines (log_step l s) = Suc (lines s)"
  by (simp add: log_step_def)

lemma log_step_eq: "log_line l (s\<lparr>lines := Suc (lines s)\<rparr>) = log_step l s"
  by (simp add: log_step_def)

lemma log_scan_lines:
  "real (lines s) < max_lines \<Longrightarrow>
   log_scan max_lines line cs s =
   fold log_step (take (nat \<lceil>max_lines\<rceil> - lines s) (ended_lines line (takeWhile (\<lambda>c. c \<noteq> CHR 0xFF) cs))) s"
proof (induction max_lines line cs s rule: log_scan.induct)
  case (2 max_lines line c cs s)
  show ?case
  proof (cases "c = CHR 0xFF \<or> c \<noteq> CHR 0x0A")
    case True
    then show ?thesis using 2 by auto
  next
    case False
    let ?n = "nat \<lceil>max_lines\<rceil> - lines s"
    have n: "0 < ?n" using 2(3) by linarith
    show ?thesis
    proof (cases "real (lines (log_step line s)) \<ge> max_lines")
      case True
      then have "?n = 1" using n by simp linarith
      then show ?thesis using True False by (simp add: log_step_eq Let_def)
    next
      case next_: False
      then have "log_scan max_lines [] cs (log_step line s) =
          fold log_step (take (nat \<lceil>max_lines\<rceil> - lines (log_step line s)) (ended_lines [] (takeWhile (\<lambda>c. c \<noteq> CHR 0xFF) cs))) (log_step line s)"
        using 2(1) False by (simp add: log_step_eq)
      moreover have "?n = Suc (nat \<lceil>max_lines\<rceil> - lines (log_step line s))" using n by simp
      ultimately show ?thesis using next_ False by (simp add: log_step_eq Let_def)
    qed
  qed
qed simp

section \<open>Counting\<close>

lemma map_count_inc: "map_count (map_inc k m) k' = map_count m k' + (if k' = k then 1 else 0)"
  by (simp add: map_count_def map_inc_def map_of_put)

lemma map_ok_inc: "map_ok m \<Longrightarrow> map_ok (map_inc k m)"
  by (simp add: map_inc_def map_ok_put)

abbreviation log_entries :: "string list \<Rightarrow> (int \<times> string \<times> string option) list" where
  "log_entries ls \<equiv> List.map_filter log_parse_line ls"

text \<open>The state counts the entries.\<close>

definition counts :: "log_state \<Rightarrow> (int \<times> string \<times> string option) list \<Rightarrow> bool" where
  "counts s es \<longleftrightarrow>
     totals s = length es \<and>
     (\<forall>st. map_count (status_counts s) st = length (filter (\<lambda>(ts, st', u). st' = st) es)) \<and>
     (\<forall>u. map_count (url_counts s) u = length (filter (\<lambda>(ts, st, u'). u' = Some u) es)) \<and>
     (\<forall>ts. map_count (second_counts s) ts = length (filter (\<lambda>(ts', st, u). ts' = ts) es)) \<and>
     first_ts s = (if es = [] then 0 else fst (hd es)) \<and> last_ts s = (if es = [] then 0 else fst (last es)) \<and>
     (\<forall>e \<in> set es. 0 < fst e) \<and>
     map_ok (status_counts s) \<and> map_ok (url_counts s) \<and> map_ok (second_counts s)"

lemma counts_init: "counts log_init []"
  by (simp add: counts_def log_init_def map_count_def)

lemma log_parse_line_pos: "log_parse_line line = Some (ts, st, u) \<Longrightarrow> 0 < ts"
  by (auto simp: log_parse_line_def Let_def split: option.splits if_splits)

lemma counts_step:
  assumes "counts s es"
  shows "counts (log_step line s) (es @ (case log_parse_line line of None \<Rightarrow> [] | Some e \<Rightarrow> [e]))"
proof (cases "log_parse_line line")
  case None
  then show ?thesis using assms by (simp add: log_step_def log_line_def counts_def)
next
  case (Some e)
  obtain ts st u where e: "e = (ts, st, u)" by (metis prod_cases3)
  have pos: "0 < ts" using Some e log_parse_line_pos by simp
  have "es \<noteq> [] \<Longrightarrow> fst (hd es) \<noteq> 0" using assms by (auto simp: counts_def dest!: bspec [OF _ hd_in_set])
  with assms pos Some e show ?thesis
    by (cases u) (auto simp: log_step_def log_line_def counts_def map_count_inc intro: map_ok_inc)
qed

lemma counts_fold: "counts s es \<Longrightarrow> counts (fold log_step ls s) (es @ log_entries ls)"
proof (induction ls arbitrary: s es)
  case (Cons l ls)
  from Cons.IH [OF counts_step [OF Cons.prems, of l]] show ?case
    by (auto simp: map_filter_simps split: option.splits)
qed (simp add: map_filter_simps)

section \<open>Properties\<close>

text \<open>
  The calendar of the time stamps is the Gregorian one: day 0 is the first of January 1970, and the number of
  the day after a valid date is one more, across the ends of months, leap years and centuries.
\<close>

theorem civil_calendar:
  "days_from_civil 1970 1 1 = 0 \<and>
   (valid_date y m d \<longrightarrow>
      (case next_date y m d of (y', m', d') \<Rightarrow>
         valid_date y' m' d' \<and> days_from_civil y' m' d' = days_from_civil y m d + 1))"
proof -
  have "days_from_civil 1970 1 1 = 0" by (simp add: days_from_civil_formula Let_def)
  moreover have "valid_date y' m' d' \<and> days_from_civil y' m' d' = days_from_civil y m d + 1"
    if v: "valid_date y m d" and n: "next_date y m d = (y', m', d')" for y' m' d'
  proof -
    consider "d < month_days y m" | "d = month_days y m" "m < 12" | "d = month_days y m" "m = 12"
      using v by (cases "d < month_days y m"; cases "m < 12") (auto simp: valid_date_def)
    then show ?thesis
    proof cases
      case 1
      with v n month_days_bound [of y m] show ?thesis
        by (auto simp: valid_date_def next_date_def days_from_civil_formula Let_def)
    next
      case 2
      with v n next_month [of m y] month_days_bound(1) [of y "m + 1"] show ?thesis
        by (auto simp: valid_date_def next_date_def)
    next
      case 3
      have "days_from_civil (y + 1) 1 1 = days_from_civil y 12 31 + 1"
        by (simp add: days_from_civil_formula Let_def)
      with 3 v n show ?thesis by (auto simp: valid_date_def next_date_def month_days_def)
    qed
  qed
  ultimately show ?thesis by auto
qed

theorem civil_calendar_witness:
  "next_date 2024 2 28 = (2024, 2, 29) \<and> days_from_civil 2024 2 29 = days_from_civil 2024 2 28 + 1"
proof -
  have "valid_date 2024 2 28" "next_date 2024 2 28 = (2024, 2, 29)"
    by (simp_all add: valid_date_def next_date_def month_days_def leap_year_def)
  with civil_calendar [of 2024 2 28] show ?thesis by simp
qed

text \<open>
  C38. Time stamps are read back: the text of a date (English month names) and a time of day, whatever follows it,
  is read as the seconds since 1970 of that date and time, with the days counted out year by year and month by
  month in the Gregorian calendar. The range is every valid date of the years 0 to 9999.
\<close>

theorem log_timestamp_roundtrip:
  assumes "valid_date (int y) (int m) (int d)" and "y < 10000" and "hh < 24" and "mi < 60" and "ss < 60"
  shows "log_parse_time (log_time_text y m d hh mi ss @ rest) =
    epoch_day y m d * 86400 + int (hh * 3600 + mi * 60 + ss)"
proof -
  have v: "1 \<le> m" "m \<le> 12" "1 \<le> d" "d \<le> 31"
    using assms(1) month_days_bound(2) [of "int y" "int m"] by (auto simp: valid_date_def)
  show ?thesis
    unfolding days_from_civil_counts [OF v, symmetric] by (rule log_parse_time_text) (use v assms in auto)
qed

theorem log_timestamp_roundtrip_witness:
  "log_parse_time (''[10/Oct/2000:13:55:36'' @ '' -0700]'') = 11240 * 86400 + 50136"
proof -
  have "log_time_text 2000 10 10 13 55 36 = ''[10/Oct/2000:13:55:36''" by code_simp
  moreover have "epoch_day 2000 10 10 = 11240"
    using days_from_civil_counts [of 10 10 2000] by (simp add: days_from_civil_formula Let_def)
  moreover have "valid_date (int 2000) (int 10) (int 10)" by (simp add: valid_date_def month_days_def)
  ultimately show ?thesis using log_timestamp_roundtrip [of 2000 10 10 13 55 36 "'' -0700]''"] by simp
qed

text \<open>
  The scan of the file counts what its lines say: of the lines that a newline ends, up to the first byte 255
  and up to the limit, it counts all, and each that parses is counted once in the total, under its status, under its second and, where it has one,
  under its URL; the first and the last time stamp are those of the first and the last such line.
\<close>

theorem log_scan_counts:
  assumes "0 < max_lines"
  shows "let ls = take (nat \<lceil>max_lines\<rceil>) (ended_lines [] (takeWhile (\<lambda>c. c \<noteq> CHR 0xFF) contents));
             es = log_entries ls;
             s = log_scan max_lines [] contents log_init
         in lines s = length ls \<and> totals s = length es \<and>
            (\<forall>st. map_count (status_counts s) st = length (filter (\<lambda>(ts, st', u). st' = st) es)) \<and>
            (\<forall>u. map_count (url_counts s) u = length (filter (\<lambda>(ts, st, u'). u' = Some u) es)) \<and>
            (\<forall>ts. map_count (second_counts s) ts = length (filter (\<lambda>(ts', st, u). ts' = ts) es)) \<and>
            first_ts s = (if es = [] then 0 else fst (hd es)) \<and> last_ts s = (if es = [] then 0 else fst (last es))"
proof -
  let ?ls = "take (nat \<lceil>max_lines\<rceil>) (ended_lines [] (takeWhile (\<lambda>c. c \<noteq> CHR 0xFF) contents))"
  have scan: "log_scan max_lines [] contents log_init = fold log_step ?ls log_init"
    using log_scan_lines [of log_init max_lines "[]" contents] assms by (simp add: log_init_def)
  have n: "lines (fold log_step ls s) = lines s + length ls" for ls s by (induction ls arbitrary: s) auto
  then have l: "lines (fold log_step ?ls log_init) = length ?ls" by (simp add: log_init_def)
  have "counts (fold log_step ?ls log_init) (log_entries ?ls)" using counts_fold [OF counts_init, of ?ls] by simp
  with l show ?thesis unfolding Let_def scan counts_def by (elim conjE) (intro conjI; assumption)
qed

definition sample_line :: string where
  "sample_line = ''::1 - - [10/Oct/2000:13:55:36 -0700] '' @ [CHR 0x22] @ ''GET /a HTTP/1.0'' @ [CHR 0x22] @ '' 200 5''"

definition sample_log :: string where
  "sample_log = sample_line @ [CHR 0x0A] @ ''garbage'' @ [CHR 0x0A] @ ''cut short''"

lemma sample_entries:
  "ended_lines [] (takeWhile (\<lambda>c. c \<noteq> CHR 0xFF) sample_log) = [sample_line, ''garbage'']"
  "log_parse_line sample_line = Some (971186136, ''200'', Some ''/a'')" "log_parse_line ''garbage'' = None"
  by code_simp+

theorem log_scan_counts_witness:
  "lines (log_scan 10 [] sample_log log_init) = 2 \<and> totals (log_scan 10 [] sample_log log_init) = 1 \<and>
   map_count (status_counts (log_scan 10 [] sample_log log_init)) ''200'' = 1"
  using log_scan_counts [of 10 sample_log] by (simp add: Let_def sample_entries map_filter_simps)

text \<open>
  The report: at most 20 URLs, by falling count, and no URL that is left out has a higher count than one that is
  reported; at most 60 seconds, the latest ones, in the order of time and numbered from 0.
\<close>

theorem log_report_ranked:
  assumes "s = log_scan max_lines [] contents log_init" and "0 < max_lines"
  shows "length (top_urls s) \<le> 20 \<and> sorted_wrt (\<lambda>p q. snd q \<le> snd p) (top_urls s) \<and>
    (\<forall>p \<in> set (top_urls s). \<forall>q \<in> set (url_counts s) - set (top_urls s). snd q \<le> snd p) \<and>
    per_second s = zip [0..<length (per_second s)] (map snd (drop (length (second_counts s) - 60) (second_counts s))) \<and>
    length (per_second s) = min 60 (length (second_counts s)) \<and> sorted_wrt (<) (map fst (second_counts s))"
proof -
  let ?sorted = "sort_key (\<lambda>p. - int (snd p)) (url_counts s)"
  have "sorted_wrt (\<lambda>p q. snd q \<le> snd p) ?sorted"
    using sorted_sort_key [of "\<lambda>p. - int (snd p)" "url_counts s"] by (simp add: sorted_map)
  then have whole: "sorted_wrt (\<lambda>p q. snd q \<le> snd p) (take 20 ?sorted @ drop 20 ?sorted)" by simp
  then have top: "sorted_wrt (\<lambda>p q. snd q \<le> snd p) (top_urls s)"
    "\<And>p q. p \<in> set (top_urls s) \<Longrightarrow> q \<in> set (drop 20 ?sorted) \<Longrightarrow> snd q \<le> snd p"
    unfolding sorted_wrt_append top_urls_def by blast+
  have rest: "set (url_counts s) \<subseteq> set (top_urls s) \<union> set (drop 20 ?sorted)"
    by (metis append_take_drop_id order_refl set_append set_sort top_urls_def)
  have "counts s (log_entries (take (nat \<lceil>max_lines\<rceil>) (ended_lines [] (takeWhile (\<lambda>c. c \<noteq> CHR 0xFF) contents))))"
    using log_scan_lines [of log_init max_lines "[]" contents] counts_fold [OF counts_init] assms by (simp add: log_init_def)
  then have ok: "sorted_wrt (<) (map fst (second_counts s))" by (simp add: counts_def map_ok_def map_keys_def)
  have len: "length (per_second s) = min 60 (length (second_counts s))" by (simp add: per_second_def Let_def)
  have "per_second s = zip [0..<length (per_second s)] (map snd (drop (length (second_counts s) - 60) (second_counts s)))"
    by (rule nth_equalityI) (auto simp: per_second_def Let_def)
  moreover have "length (top_urls s) \<le> 20" by (simp add: top_urls_def)
  ultimately show ?thesis using top rest ok len by blast
qed

theorem log_report_ranked_witness:
  "top_urls (log_scan 10 [] sample_log log_init) = [(''/a'', 1)] \<and>
   per_second (log_scan 10 [] sample_log log_init) = [(0, 1)]"
proof -
  let ?s = "log_scan 10 [] sample_log log_init"
  have "?s = fold log_step [sample_line, ''garbage''] log_init"
    using log_scan_lines [of log_init 10 "[]" sample_log] by (simp add: log_init_def sample_entries)
  then have s: "url_counts ?s = [(''/a'', 1)]" "second_counts ?s = [(971186136, 1)]"
    by (auto simp: log_step_def log_line_def sample_entries log_init_def map_inc_def map_count_def)
  have r: "length (per_second ?s) = min 60 (length (second_counts ?s))"
      "per_second ?s = zip [0..<length (per_second ?s)] (map snd (drop (length (second_counts ?s) - 60) (second_counts ?s)))"
    using log_report_ranked [of ?s 10 sample_log] by auto
  then have "per_second ?s = zip [0..<1] [1]" unfolding r(1) s(2) by simp
  with s(1) show ?thesis by (simp add: top_urls_def)
qed

end
