(* ===== verification/Udp.thy ===== *)
theory Udp
  imports Std_Map Std_String
begin

text \<open>
  The UDP endpoints of \<open>ngx_lua_cpp.cpp\<close>: one-shot sending and the round trip with their sockets and address
  lists, and the listeners with their bounded queues. The network is a record of outcomes: what
  \<open>getaddrinfo\<close>, \<open>socket\<close>, \<open>bind\<close>, \<open>sendto\<close> and \<open>recvfrom\<close> answer. What the code does to the system is a list of events, so
  that a leaked or doubly closed socket is visible. Sockets are numbers, an invalid one is \<^const>\<open>None\<close>. Each critical section
  under a listener's mutex is one operation; a reply is one step too, although the code holds no lock from the
  look-up of the listener over the read of its sender to \<open>sendto\<close>. The code between \<open>#ifdef _WIN32\<close> is left out.
\<close>

section \<open>Sending\<close>

datatype 'addr udp_event =
    Open_Socket nat | Close_Socket nat | Free_Addr 'addr | Set_Timeout nat nat | Send_To nat 'addr string | Join_Thread nat

record 'addr udp_net =
  getaddrinfo :: "string \<Rightarrow> string \<Rightarrow> 'addr option"
  new_socket :: "'addr \<Rightarrow> nat option"
  sendto :: "nat \<Rightarrow> 'addr \<Rightarrow> string \<Rightarrow> int"
  recvfrom :: "nat \<Rightarrow> string option"

definition udp_sendto_impl :: "'addr udp_net \<Rightarrow> string \<Rightarrow> nat \<Rightarrow> string \<Rightarrow> (bool \<times> string) \<times> 'addr udp_event list" where
  "udp_sendto_impl net host port payload =
     (if host = [] \<or> port = 0 \<or> port > 65535 then ((False, ''invalid host or port''), [])
      else case getaddrinfo net host (to_string port) of
        None \<Rightarrow> ((False, ''getaddrinfo failed: '' @ host), [])
      | Some addr \<Rightarrow>
         (case new_socket net addr of
            None \<Rightarrow> ((False, ''socket() failed''), [Free_Addr addr])
          | Some sock \<Rightarrow>
              let events = [Open_Socket sock, Send_To sock addr payload, Close_Socket sock, Free_Addr addr]
              in if sendto net sock addr payload < 0 then ((False, ''sendto failed''), events) else ((True, []), events)))"

text \<open>\<open>udp_result_t\<close> without the elapsed time: (ok, reply, error).\<close>

definition udp_roundtrip_impl :: "'addr udp_net \<Rightarrow> string \<Rightarrow> nat \<Rightarrow> string \<Rightarrow> nat \<Rightarrow> (bool \<times> string \<times> string) \<times> 'addr udp_event list" where
  "udp_roundtrip_impl net host port payload timeout_ms =
     (if host = [] \<or> port = 0 \<or> port > 65535 then ((False, [], ''invalid host or port''), [])
      else case getaddrinfo net host (to_string port) of
        None \<Rightarrow> ((False, [], ''getaddrinfo failed: '' @ host), [])
      | Some addr \<Rightarrow>
         (case new_socket net addr of
            None \<Rightarrow> ((False, [], ''socket() failed''), [Free_Addr addr])
          | Some sock \<Rightarrow>
              let before = [Open_Socket sock, Set_Timeout sock (max 50 (min 30000 timeout_ms)), Send_To sock addr payload];
                  after = [Close_Socket sock, Free_Addr addr]
              in if sendto net sock addr payload < 0 then ((False, [], ''sendto failed''), before @ after)
                 else case recvfrom net sock of
                   None \<Rightarrow> ((False, [], ''recvfrom failed or timed out''), before @ after)
                 | Some reply \<Rightarrow> ((True, reply, []), before @ after)))"

section \<open>Listeners\<close>

type_synonym datagram = "string \<times> string \<times> size_t" \<comment> \<open>payload, host and port of the sender\<close>

record 'addr udp_listener_t =
  lport :: nat
  sock :: "nat option"
  stopped :: bool
  has_thread :: bool
  queue :: "datagram list"
  sender :: "'addr option"

record 'addr udp_state =
  udp_listeners :: "(nat, 'addr udp_listener_t) std_map"
  events :: "'addr udp_event list"

text \<open>\<open>stop_listen\<close>, which the destructor calls too.\<close>

definition stop_listen :: "'addr udp_listener_t \<Rightarrow> 'addr udp_listener_t \<times> 'addr udp_event list" where
  "stop_listen l =
     (if stopped l then (l, [])
      else (l\<lparr>stopped := True, sock := None\<rparr>,
            (case sock l of None \<Rightarrow> [] | Some s \<Rightarrow> [Close_Socket s]) @ (if has_thread l then [Join_Thread (lport l)] else [])))"

text \<open>\<open>queue.emplace_back\<close> with the bound of 4096.\<close>

definition enqueue :: "datagram \<Rightarrow> datagram list \<Rightarrow> datagram list" where
  "enqueue d q = (let q1 = q @ [d] in if length q1 > 4096 then tl q1 else q1)"

text \<open>One turn of the receive thread: a timeout or error, a sender without a name, or a datagram.\<close>

datatype 'addr received = Nothing | Nameless | Datagram string string string 'addr

fun run_turn :: "'addr received \<Rightarrow> 'addr udp_listener_t \<Rightarrow> 'addr udp_listener_t" where
  "run_turn Nothing l = l"
| "run_turn Nameless l = l"
| "run_turn (Datagram payload host_buf port_buf from) l =
     l\<lparr>queue := enqueue (payload, host_buf, word_of_int (atoi port_buf)) (queue l), sender := Some from\<rparr>"

fun run_turns :: "'addr received list \<Rightarrow> 'addr udp_listener_t \<Rightarrow> 'addr udp_listener_t" where
  "run_turns [] l = l"
| "run_turns (r # rs) l = (if stopped l then l else run_turns rs (run_turn r l))"

text \<open>\<open>udp_listen\<close>: \<open>s\<close> is the answer of \<open>socket\<close>, \<open>bound\<close> that of \<open>bind\<close>. A listener that is not registered is destroyed.\<close>

definition udp_listen :: "nat option \<Rightarrow> bool \<Rightarrow> nat \<Rightarrow> 'addr udp_state \<Rightarrow> string \<times> 'addr udp_state" where
  "udp_listen s bound port st =
     (if port = 0 \<or> port > 65535 then (''invalid port'', st)
      else if map_of (udp_listeners st) port \<noteq> None then (''already listening on port '' @ to_string port, st)
      else
        let listener = \<lparr>lport = port, sock = s, stopped = False, has_thread = False, queue = [], sender = None\<rparr> in
        case s of
          None \<Rightarrow> (''socket() failed'', st\<lparr>events := events st @ snd (stop_listen listener)\<rparr>)
        | Some k \<Rightarrow>
            if \<not> bound then
              (''bind() failed on port '' @ to_string port @ '' (already in use?)'',
               st\<lparr>events := events st @ [Open_Socket k, Close_Socket k] @ snd (stop_listen listener)\<rparr>)
            else
              ([], st\<lparr>udp_listeners := map_put port (listener\<lparr>has_thread := True\<rparr>) (udp_listeners st),
                      events := events st @ [Open_Socket k, Set_Timeout k 500]\<rparr>))"

text \<open>\<open>udp_packet_result_t\<close>: (ok, payload, host, port, error).\<close>

type_synonym udp_packet_result_t = "bool \<times> string \<times> string \<times> size_t \<times> string"

text \<open>The critical section of \<open>udp_recv\<close>, after the wait if there is one.\<close>

definition take_front :: "'addr udp_listener_t \<Rightarrow> udp_packet_result_t \<times> 'addr udp_listener_t" where
  "take_front l =
     (case queue l of
        (p, h, n) # rest \<Rightarrow> ((True, p, h, n, []), l\<lparr>queue := rest\<rparr>)
      | [] \<Rightarrow> ((False, [], [], 0, ''timeout''), l))"

definition udp_recv :: "nat \<Rightarrow> 'addr udp_state \<Rightarrow> udp_packet_result_t \<times> 'addr udp_state" where
  "udp_recv port st =
     (case map_of (udp_listeners st) port of
        None \<Rightarrow> ((False, [], [], 0, ''not listening on port '' @ to_string port), st)
      | Some l \<Rightarrow> (let (r, l') = take_front l in (r, st\<lparr>udp_listeners := map_put port l' (udp_listeners st)\<rparr>)))"

definition udp_reply :: "'addr udp_net \<Rightarrow> nat \<Rightarrow> string \<Rightarrow> 'addr udp_state \<Rightarrow> (bool \<times> string) \<times> 'addr udp_state" where
  "udp_reply net port payload st =
     (case map_of (udp_listeners st) port of
        None \<Rightarrow> ((False, ''not listening on port '' @ to_string port), st)
      | Some l \<Rightarrow>
         (case sender l of
            None \<Rightarrow> ((False, ''no sender recorded for this port yet''), st)
          | Some to \<Rightarrow>
             (case sock l of
                None \<Rightarrow> ((False, ''sendto failed''), st)
              | Some k \<Rightarrow>
                  let st1 = st\<lparr>events := events st @ [Send_To k to payload]\<rparr>
                  in if sendto net k to payload < 0 then ((False, ''sendto failed''), st1) else ((True, []), st1))))"

text \<open>A datagram arrives at a port.\<close>

definition udp_arrive :: "nat \<Rightarrow> 'addr received \<Rightarrow> 'addr udp_state \<Rightarrow> 'addr udp_state" where
  "udp_arrive port r st =
     (case map_of (udp_listeners st) port of
        None \<Rightarrow> st
      | Some l \<Rightarrow> st\<lparr>udp_listeners := map_put port (run_turns [r] l) (udp_listeners st)\<rparr>)"

text \<open>The first part of \<open>stop_impl\<close>: all listeners are stopped and forgotten.\<close>

definition stop_listeners :: "'addr udp_state \<Rightarrow> 'addr udp_state" where
  "stop_listeners st =
     st\<lparr>udp_listeners := [], events := events st @ concat (map (\<lambda>(port, l). snd (stop_listen l)) (udp_listeners st))\<rparr>"

section \<open>The queue of a listener\<close>

interpretation datagrams: bounded_log enqueue "\<lambda>q. q" 4096
proof
  fix q :: "datagram list" and d
  assume "length q \<le> 4096"
  then show "enqueue d q = drop (length (q @ [d]) - 4096) (q @ [d])"
    by (cases q; cases "length q = 4096") (auto simp: enqueue_def Let_def drop_Suc)
qed

fun datagram_of :: "'addr received \<Rightarrow> datagram option" where
  "datagram_of (Datagram payload host_buf port_buf from) = Some (payload, host_buf, word_of_int (atoi port_buf))"
| "datagram_of _ = None"

lemma run_turns_queue:
  "\<not> stopped l \<Longrightarrow> queue (run_turns rs l) = fold enqueue (List.map_filter datagram_of rs) (queue l) \<and>
   \<not> stopped (run_turns rs l) \<and> sock (run_turns rs l) = sock l \<and> lport (run_turns rs l) = lport l \<and>
   has_thread (run_turns rs l) = has_thread l"
proof (induction rs arbitrary: l)
  case (Cons r rs)
  then show ?case by (cases r) (auto simp: map_filter_simps)
qed (simp add: map_filter_simps)

section \<open>Sockets of the listeners\<close>

fun opened :: "nat \<Rightarrow> 'addr udp_event list \<Rightarrow> nat" where
  "opened k es = length (filter (\<lambda>e. e = Open_Socket k) es)"

fun closed :: "nat \<Rightarrow> 'addr udp_event list \<Rightarrow> nat" where
  "closed k es = length (filter (\<lambda>e. e = Close_Socket k) es)"

fun freed :: "'addr \<Rightarrow> 'addr udp_event list \<Rightarrow> nat" where
  "freed a es = length (filter (\<lambda>e. e = Free_Addr a) es)"

text \<open>How many registered listeners hold the socket.\<close>

definition holders :: "nat \<Rightarrow> (nat, 'addr udp_listener_t) std_map \<Rightarrow> nat" where
  "holders k m = length (filter (\<lambda>(port, l). sock l = Some k) m)"

definition listener_ok :: "nat \<times> 'addr udp_listener_t \<Rightarrow> bool" where
  "listener_ok p \<longleftrightarrow> (case p of (port, l) \<Rightarrow>
     lport l = port \<and> 0 < port \<and> port \<le> 65535 \<and> sock l \<noteq> None \<and> \<not> stopped l \<and> has_thread l \<and> length (queue l) \<le> 4096)"

definition udp_ok :: "'addr udp_state \<Rightarrow> bool" where
  "udp_ok st \<longleftrightarrow>
     map_ok (udp_listeners st) \<and> (\<forall>p \<in> set (udp_listeners st). listener_ok p) \<and>
     (\<forall>k. opened k (events st) = closed k (events st) + holders k (udp_listeners st))"

lemma holders_put_new:
  "map_of m port = None \<Longrightarrow> holders k (map_put port l m) = holders k m + (if sock l = Some k then 1 else 0)"
  by (induction m) (auto simp: holders_def split: if_splits)

lemma holders_put_same:
  "map_ok m \<Longrightarrow> map_of m port = Some l \<Longrightarrow> sock l' = sock l \<Longrightarrow> holders k (map_put port l' m) = holders k m"
proof (induction m)
  case (Cons p m)
  then have ok: "map_ok m" and least: "\<forall>q \<in> set m. fst p < fst q" by (auto simp: map_ok_def map_keys_def)
  show ?case
  proof (cases "fst p = port")
    case True
    then show ?thesis using Cons.prems by (cases p) (auto simp: holders_def)
  next
    case False
    with Cons.prems(2) have "map_of m port = Some l" by (cases p) auto
    moreover from this have "fst p < port" using least map_of_SomeD by fastforce
    ultimately show ?thesis using Cons.IH [OF ok _ Cons.prems(3)] by (cases p) (auto simp: holders_def)
  qed
qed simp

lemma set_map_put: "set (map_put k v m) \<subseteq> insert (k, v) (set m)"
  by (induction m) (auto split: if_splits)

lemma map_put_all: "\<forall>p \<in> set m. P p \<Longrightarrow> P (k, v) \<Longrightarrow> \<forall>p \<in> set (map_put k v m). P p"
  using set_map_put [of k v m] by auto

text \<open>Replacing a listener by one with the same socket.\<close>

lemma udp_ok_replace:
  assumes ok: "udp_ok st" and found: "map_of (udp_listeners st) port = Some l"
    and same: "sock l' = sock l" "lport l' = lport l" "\<not> stopped l'" "has_thread l'" "length (queue l') \<le> 4096"
  shows "udp_ok (st\<lparr>udp_listeners := map_put port l' (udp_listeners st)\<rparr>)"
proof -
  have m: "map_ok (udp_listeners st)" using ok by (simp add: udp_ok_def)
  have "listener_ok (port, l)" using ok map_of_SomeD [OF found] by (auto simp: udp_ok_def)
  with same have "listener_ok (port, l')" by (simp add: listener_ok_def)
  with ok map_put_all [of "udp_listeners st" listener_ok port l'] m holders_put_same [OF m found same(1)]
  show ?thesis by (simp add: udp_ok_def map_ok_put)
qed

datatype 'addr udp_request =
    Listen "nat option" bool nat | Recv nat | Reply nat string | Arrive nat "'addr received" | Stop

fun udp_step :: "'addr udp_net \<Rightarrow> 'addr udp_state \<Rightarrow> 'addr udp_request \<Rightarrow> 'addr udp_state" where
  "udp_step net st (Listen s bound port) = snd (udp_listen s bound port st)"
| "udp_step net st (Recv port) = snd (udp_recv port st)"
| "udp_step net st (Reply port payload) = snd (udp_reply net port payload st)"
| "udp_step net st (Arrive port r) = udp_arrive port r st"
| "udp_step net st Stop = stop_listeners st"

text \<open>Every request but one whose \<open>bind\<close> fails.\<close>

fun binds :: "'addr udp_request \<Rightarrow> bool" where
  "binds (Listen s bound port) = (s = None \<or> bound)"
| "binds _ = True"

lemma take_front_keeps:
  "lport (snd (take_front l)) = lport l" "sock (snd (take_front l)) = sock l" "stopped (snd (take_front l)) = stopped l"
  "has_thread (snd (take_front l)) = has_thread l" "length (queue (snd (take_front l))) \<le> length (queue l)"
  by (auto simp: take_front_def split: list.splits prod.splits)

lemma udp_ok_listen:
  assumes "udp_ok st" "s = None \<or> bound"
  shows "udp_ok (snd (udp_listen s bound port st))"
proof -
  have new: "listener_ok (port, \<lparr>lport = port, sock = Some k, stopped = False, has_thread = True, queue = [], sender = None\<rparr>)"
    if "0 < port" "port \<le> 65535" for k using that by (simp add: listener_ok_def)
  show ?thesis
  proof (cases "port = 0 \<or> port > 65535 \<or> map_of (udp_listeners st) port \<noteq> None \<or> s = None")
    case True
    with assms show ?thesis by (auto simp: udp_listen_def Let_def stop_listen_def)
  next
    case False
    then obtain k where "s = Some k" by auto
    with False assms new [of k] map_put_all [of "udp_listeners st" listener_ok port] show ?thesis
      by (simp add: udp_listen_def Let_def udp_ok_def holders_put_new map_ok_put)
  qed
qed

lemma udp_listener_ok:
  "udp_ok st \<Longrightarrow> map_of (udp_listeners st) port = Some l \<Longrightarrow> \<not> stopped l \<and> has_thread l \<and> length (queue l) \<le> 4096"
  by (auto simp: udp_ok_def listener_ok_def dest!: map_of_SomeD)

lemma udp_ok_recv:
  assumes "udp_ok st"
  shows "udp_ok (snd (udp_recv port st))"
proof (cases "map_of (udp_listeners st) port")
  case (Some l)
  have "udp_ok (st\<lparr>udp_listeners := map_put port (snd (take_front l)) (udp_listeners st)\<rparr>)"
    by (rule udp_ok_replace [OF assms Some])
      (use udp_listener_ok [OF assms Some] take_front_keeps [of l] in auto)
  then show ?thesis using Some by (simp add: udp_recv_def case_prod_beta Let_def)
qed (use assms in \<open>simp add: udp_recv_def\<close>)

lemma udp_ok_arrive:
  assumes "udp_ok st"
  shows "udp_ok (udp_arrive port r st)"
proof (cases "map_of (udp_listeners st) port")
  case (Some l)
  note l = udp_listener_ok [OF assms Some]
  have "udp_ok (st\<lparr>udp_listeners := map_put port (run_turns [r] l) (udp_listeners st)\<rparr>)"
  proof (rule udp_ok_replace [OF assms Some])
    show "length (queue (run_turns [r] l)) \<le> 4096"
      using l run_turns_queue [of l "[r]"] datagrams.view_add_bounded [of "queue l"]
      by (cases r) (auto simp: map_filter_simps)
  qed (use l run_turns_queue [of l "[r]"] in auto)
  then show ?thesis using Some by (simp add: udp_arrive_def)
qed (use assms in \<open>simp add: udp_arrive_def\<close>)

lemma udp_ok_reply: "udp_ok st \<Longrightarrow> udp_ok (snd (udp_reply net port payload st))"
  by (simp add: udp_reply_def udp_ok_def Let_def split: option.splits)

lemma stop_balance:
  assumes "\<forall>(port, l) \<in> set m. \<not> stopped l"
  shows "closed k (concat (map (\<lambda>(port, l). snd (stop_listen l)) m)) = holders k m"
    "opened k (concat (map (\<lambda>(port, l). snd (stop_listen l)) m)) = 0"
  using assms by (induction m) (auto simp: holders_def stop_listen_def split: option.splits)

lemma udp_ok_stop: "udp_ok st \<Longrightarrow> udp_ok (stop_listeners st) \<and> udp_listeners (stop_listeners st) = []"
proof -
  assume ok: "udp_ok st"
  then have "\<forall>(port, l) \<in> set (udp_listeners st). \<not> stopped l" by (auto simp: udp_ok_def listener_ok_def)
  from stop_balance [OF this] ok show ?thesis by (simp add: stop_listeners_def udp_ok_def holders_def)
qed

lemma udp_ok_step: "udp_ok st \<Longrightarrow> binds r \<Longrightarrow> udp_ok (udp_step net st r)"
  by (cases r) (simp_all add: udp_ok_listen udp_ok_recv udp_ok_arrive udp_ok_reply udp_ok_stop)

definition udp_init :: "'addr udp_state" where
  "udp_init = \<lparr>udp_listeners = [], events = []\<rparr>"

lemma udp_ok_run: "udp_ok st \<Longrightarrow> list_all binds rs \<Longrightarrow> udp_ok (foldl (udp_step net) st rs)"
  by (induction rs arbitrary: st) (auto intro: udp_ok_step)

lemma udp_ok_init: "udp_ok udp_init"
  by (simp add: udp_ok_def udp_init_def holders_def)

section \<open>Properties\<close>

text \<open>
  The one-shot operations leak nothing: on every path of sending and of the round trip, whatever the network answers, each socket is
  closed as often as it was opened, the address list is freed exactly once if there is one, and an invalid host
  or port touches nothing.
\<close>

theorem udp_oneshot_balanced:
  "es \<in> {snd (udp_sendto_impl net host port payload), snd (udp_roundtrip_impl net host port payload timeout_ms)} \<Longrightarrow>
   opened k es = closed k es \<and> opened k es \<le> 1 \<and>
   (\<forall>a. freed a es = (if host \<noteq> [] \<and> port \<noteq> 0 \<and> port \<le> 65535 \<and> getaddrinfo net host (to_string port) = Some a then 1 else 0)) \<and>
   (host = [] \<or> port = 0 \<or> port > 65535 \<longrightarrow> es = [])"
  by (auto simp: udp_sendto_impl_def udp_roundtrip_impl_def Let_def split: option.splits)

definition loopback :: "nat udp_net" where
  "loopback = \<lparr>getaddrinfo = (\<lambda>h p. Some 1), new_socket = (\<lambda>a. Some 3), sendto = (\<lambda>k a m. int (length m)), recvfrom = (\<lambda>k. Some ''pong'')\<rparr>"

theorem udp_oneshot_balanced_witness:
  "closed 3 (snd (udp_roundtrip_impl loopback ''h'' 9 ''ping'' 10)) = 1 \<and>
   fst (udp_roundtrip_impl loopback ''h'' 9 ''ping'' 10) = (True, ''pong'', [])"
proof -
  have "opened 3 (snd (udp_roundtrip_impl loopback ''h'' 9 ''ping'' 10)) = 1"
    by (simp add: udp_roundtrip_impl_def loopback_def Let_def)
  moreover have "fst (udp_roundtrip_impl loopback ''h'' 9 ''ping'' 10) = (True, ''pong'', [])"
    by (simp add: udp_roundtrip_impl_def loopback_def Let_def)
  ultimately show ?thesis
    using udp_oneshot_balanced [of _ loopback "''h''" 9 "''ping''" 10 3] by simp
qed

text \<open>
  A listener hands out its datagrams in the order of their arrival and keeps the newest 4096: after any turns
  of its receive thread the queue holds exactly those, and each receive takes the oldest of
  them, or reports a timeout when there is none.
\<close>

theorem udp_listener_queue:
  assumes "\<not> stopped l" and "queue l = []"
  shows "queue (run_turns rs l) =
      drop (length (List.map_filter datagram_of rs) - 4096) (List.map_filter datagram_of rs) \<and>
    (case queue (run_turns rs l) of
       [] \<Rightarrow> take_front (run_turns rs l) = ((False, [], [], 0, ''timeout''), run_turns rs l)
     | (p, h, n) # rest \<Rightarrow> take_front (run_turns rs l) = ((True, p, h, n, []), (run_turns rs l)\<lparr>queue := rest\<rparr>))"
  using run_turns_queue [OF assms(1), of rs] datagrams.view_add_all [of "[]" "List.map_filter datagram_of rs"] assms(2)
  by (auto simp: take_front_def split: list.splits)

theorem udp_listener_queue_witness:
  "fst (take_front (run_turns [Datagram ''a'' ''::1'' ''7'' (0 :: nat), Nothing, Datagram ''b'' ''::1'' ''7'' 0]
     \<lparr>lport = 53, sock = Some 3, stopped = False, has_thread = True, queue = [], sender = None\<rparr>)) = (True, ''a'', ''::1'', 7, [])"
proof -
  have "atoi ''7'' = 7" by code_simp
  then show ?thesis
    using udp_listener_queue [of "\<lparr>lport = 53, sock = Some 3, stopped = False, has_thread = True, queue = [], sender = None\<rparr>"
        "[Datagram ''a'' ''::1'' ''7'' (0 :: nat), Nothing, Datagram ''b'' ''::1'' ''7'' 0]"]
    by (simp add: map_filter_simps enqueue_def take_front_def)
qed

text \<open>
  C40. The listeners and their sockets: after any sequence of requests in which no \<open>bind\<close> fails, there is at most one listener per port, each holds a
  socket, its queue is bounded, and once the listeners are stopped every socket was closed as often as it was opened.
\<close>

theorem udp_listeners_balanced:
  assumes "list_all binds rs"
  shows "distinct (map fst (udp_listeners (foldl (udp_step net) udp_init rs))) \<and>
    (\<forall>(port, l) \<in> set (udp_listeners (foldl (udp_step net) udp_init rs)). sock l \<noteq> None \<and> length (queue l) \<le> 4096) \<and>
    opened k (events (stop_listeners (foldl (udp_step net) udp_init rs))) =
      closed k (events (stop_listeners (foldl (udp_step net) udp_init rs)))"
proof -
  let ?st = "foldl (udp_step net) udp_init rs"
  have ok: "udp_ok ?st" by (rule udp_ok_run [OF udp_ok_init assms])
  from udp_ok_stop [OF ok] have "opened k (events (stop_listeners ?st)) = closed k (events (stop_listeners ?st))"
    by (auto simp: udp_ok_def holders_def)
  moreover from ok have "distinct (map fst (udp_listeners ?st))"
    "\<forall>(port, l) \<in> set (udp_listeners ?st). sock l \<noteq> None \<and> length (queue l) \<le> 4096"
    by (auto simp: udp_ok_def listener_ok_def map_ok_distinct)
  ultimately show ?thesis by simp
qed

theorem udp_listeners_balanced_witness:
  "opened 3 (events (stop_listeners (foldl (udp_step loopback) udp_init [Listen (Some 3) True 53, Recv 53, Listen (Some 4) True 53]))) =
   closed 3 (events (stop_listeners (foldl (udp_step loopback) udp_init [Listen (Some 3) True 53, Recv 53, Listen (Some 4) True 53])))"
  using udp_listeners_balanced [of "[Listen (Some 3) True 53, Recv 53, Listen (Some 4) True 53]" loopback 3] by simp

text \<open>
  A failed \<open>bind\<close> closes the socket and leaves its number in the listener, whose destructor closes it once more:
  in a server with other threads that number may belong to another file by then.
\<close>

lemma bind_failure_closes_twice:
  "0 < port \<Longrightarrow> port \<le> 65535 \<Longrightarrow>
   events (snd (udp_listen (Some k) False port (udp_init :: 'addr udp_state))) = [Open_Socket k, Close_Socket k, Close_Socket k]"
  by (simp add: udp_listen_def udp_init_def Let_def stop_listen_def)

end
