(* ===== verification/Kd_Tree.thy ===== *)
theory Kd_Tree
  imports Prelude "HOL-Library.Multiset"
begin

text \<open>
  The kd-tree of boxes \<open>iris_tree_t\<close> of \<open>iris_tree.h\<close> with its rules \<open>iris_overlap_t\<close>. A key is a box: the lower and the upper
  corner, lists of \<open>dim\<close> coordinates each; dimension \<open>i\<close> of a node is a coordinate of the lower corner for \<open>i < dim\<close>, and of the
  upper one otherwise. Nodes are objects with an address; the tree the child pointers span is a value of
  \<open>kd_tree\<close>, and the parent pointers are the path from its root. A query returns the nodes it visits, and whether it ran to the end.
\<close>

section \<open>The rules for boxes\<close>

type_synonym 'c box = "'c list \<times> 'c list"

definition box_get :: "nat \<Rightarrow> 'c box \<Rightarrow> nat \<Rightarrow> 'c" where
  "box_get dim v i = (if i < dim then fst v ! i else snd v ! (i - dim))"

definition box_set :: "nat \<Rightarrow> 'c box \<Rightarrow> nat \<Rightarrow> 'c \<Rightarrow> 'c box" where
  "box_set dim v i c = (if i < dim then ((fst v)[i := c], snd v) else (fst v, (snd v)[i - dim := c]))"

definition box_compare :: "nat \<Rightarrow> 'c :: linorder box \<Rightarrow> 'c box \<Rightarrow> nat \<Rightarrow> bool" where
  "box_compare dim lhs rhs i \<longleftrightarrow> box_get dim rhs i < box_get dim lhs i"

definition overlap_left :: "nat \<Rightarrow> 'c :: linorder box \<Rightarrow> 'c box \<Rightarrow> nat \<Rightarrow> bool" where
  "overlap_left dim lhs rhs i \<longleftrightarrow> i < dim \<or> \<not> box_get dim lhs i < box_get dim rhs (i - dim)"

definition overlap_right :: "nat \<Rightarrow> 'c :: linorder box \<Rightarrow> 'c box \<Rightarrow> nat \<Rightarrow> bool" where
  "overlap_right dim lhs rhs i \<longleftrightarrow> i \<ge> dim \<or> \<not> box_get dim rhs (i + dim) < box_get dim lhs i"

text \<open>\<open>split_push\<close> returns the changed box; \<open>split_pop\<close> restores what it saved, that is, the old box.\<close>

definition split_push :: "nat \<Rightarrow> bool \<Rightarrow> 'c box \<Rightarrow> 'c box \<Rightarrow> nat \<Rightarrow> 'c box" where
  "split_push dim right_skew target reference i =
     (if (i < dim) \<noteq> right_skew then box_set dim target i (box_get dim reference i) else target)"

fun box_merge_from :: "nat \<Rightarrow> nat list \<Rightarrow> 'c :: linorder box \<Rightarrow> 'c box \<Rightarrow> 'c box" where
  "box_merge_from dim [] lhs rhs = lhs"
| "box_merge_from dim (i # is) lhs rhs =
     box_merge_from dim is
       (box_set dim lhs i ((if i < dim then min else max) (box_get dim lhs i) (box_get dim rhs i))) rhs"

definition box_merge :: "nat \<Rightarrow> 'c :: linorder box \<Rightarrow> 'c box \<Rightarrow> 'c box" where
  "box_merge dim lhs rhs = box_merge_from dim [0..<2 * dim] lhs rhs"

definition next_index :: "nat \<Rightarrow> nat \<Rightarrow> nat" where
  "next_index dim i = (i + 1) mod (2 * dim)"

text \<open>\<open>interleave\<close>: one bit of each number per level, from bit \<open>level\<close> down to bit 1.\<close>

definition interleave_row :: "nat \<Rightarrow> nat list \<Rightarrow> nat \<Rightarrow> nat" where
  "interleave_row n vs code = foldl (\<lambda>code v. code * 2 + (if bit v n then 1 else 0)) code vs"

definition interleave :: "nat list \<Rightarrow> nat" where
  "interleave vs = (let level = 64 div length vs in foldl (\<lambda>code n. interleave_row n vs code) 0 (rev [1..<level + 1]))"

text \<open>
  \<open>encode\<close> for whole-number coordinates: a coordinate relative to the box, scaled to \<open>range\<close> and clamped. A box that is flat in a
  dimension makes it divide by zero, and a one-dimensional box makes \<open>1 << (level + 1)\<close> shift a 32-bit \<open>int\<close> by 33: both are
  undefined, the value \<open>None\<close>. The products with \<open>range\<close> are taken in a type that holds them.
\<close>

definition quantize :: "int \<Rightarrow> int \<Rightarrow> int \<Rightarrow> int \<Rightarrow> nat option" where
  "quantize rng lo hi v =
     (if hi - lo = 0 then None
      else let a = rng * (v - lo); d = hi - lo
           in Some (nat (max 0 (min rng (sgn a * sgn d * (\<bar>a\<bar> div \<bar>d\<bar>))))))"

definition box_encode :: "nat \<Rightarrow> int box \<Rightarrow> int box \<Rightarrow> nat option" where
  "box_encode dim box v =
     (let level = 64 div (2 * dim); rng = 2 ^ (level + 1) - 1;
          qs = map (\<lambda>i. let j = (if i < dim then i else i - dim)
                        in quantize rng (box_get dim box j) (box_get dim box (j + dim)) (box_get dim v i)) [0..<2 * dim]
      in if 31 \<le> level + 1 \<or> None \<in> set qs then None else Some (interleave (map the qs)))"

section \<open>The tree\<close>

record 'c tree_node =
  addr :: nat
  key :: "'c box"
  key_index :: nat

datatype 'c kd_tree = Leaf | Node "'c kd_tree" "'c tree_node" "'c kd_tree"

fun merge :: "nat \<Rightarrow> 'c :: linorder tree_node \<Rightarrow> 'c kd_tree \<Rightarrow> 'c kd_tree" where
  "merge dim t Leaf = Node Leaf t Leaf"
| "merge dim t (Node l x r) =
     (if box_compare dim (key x) (key t) (key_index x) then Node (merge dim t l) x r else Node l x (merge dim t r))"

definition pick_min :: "nat \<Rightarrow> nat \<Rightarrow> 'c :: linorder tree_node \<Rightarrow> 'c tree_node option \<Rightarrow> 'c tree_node" where
  "pick_min dim i p compare =
     (case compare of None \<Rightarrow> p | Some c \<Rightarrow> if box_compare dim (key p) (key c) i then c else p)"

definition pick_max :: "nat \<Rightarrow> nat \<Rightarrow> 'c :: linorder tree_node \<Rightarrow> 'c tree_node option \<Rightarrow> 'c tree_node" where
  "pick_max dim i p compare =
     (case compare of None \<Rightarrow> p | Some c \<Rightarrow> if \<not> box_compare dim (key p) (key c) i then c else p)"

fun find_minimal :: "nat \<Rightarrow> nat \<Rightarrow> 'c :: linorder kd_tree \<Rightarrow> 'c tree_node option" where
  "find_minimal dim i Leaf = None"
| "find_minimal dim i (Node l x r) =
     (let p = pick_min dim i x (find_minimal dim i l)
      in Some (if i \<noteq> key_index x then pick_min dim i p (find_minimal dim i r) else p))"

fun find_maximal :: "nat \<Rightarrow> nat \<Rightarrow> 'c :: linorder kd_tree \<Rightarrow> 'c tree_node option" where
  "find_maximal dim i Leaf = None"
| "find_maximal dim i (Node l x r) =
     (let p = (if i \<noteq> key_index x then pick_max dim i x (find_maximal dim i l) else x)
      in Some (pick_max dim i p (find_maximal dim i r)))"

text \<open>\<open>light_detach\<close>: what takes the place of a node with at most one child; \<open>None\<close> when it has two.\<close>

fun light_detach :: "'c kd_tree \<Rightarrow> 'c kd_tree option" where
  "light_detach Leaf = None"
| "light_detach (Node l x r) = (if l \<noteq> Leaf then if r \<noteq> Leaf then None else Some l else Some r)"

text \<open>
  \<open>detach\<close> of the root of a subtree: with at most one child the child takes its place (\<open>light_detach\<close>), otherwise a replacement is
  detached from one of the subtrees and takes over its links and its index.
\<close>

function detach_root :: "nat \<Rightarrow> ('c :: linorder kd_tree \<Rightarrow> 'c kd_tree \<Rightarrow> bool) \<Rightarrow> 'c kd_tree \<Rightarrow> 'c kd_tree"
  and detach_at :: "nat \<Rightarrow> ('c :: linorder kd_tree \<Rightarrow> 'c kd_tree \<Rightarrow> bool) \<Rightarrow> nat \<Rightarrow> 'c kd_tree \<Rightarrow> 'c kd_tree" where
  "detach_root dim selector Leaf = Leaf"
| "detach_root dim selector (Node l x r) =
     (case light_detach (Node l x r) of Some new_root \<Rightarrow> new_root
      | None \<Rightarrow> if selector l r then
        (case find_minimal dim (key_index x) r of
           None \<Rightarrow> Leaf
         | Some p \<Rightarrow> Node l (p\<lparr>key_index := key_index x\<rparr>) (detach_at dim selector (addr p) r))
      else
        (case find_maximal dim (key_index x) l of
           None \<Rightarrow> Leaf
         | Some p \<Rightarrow> Node (detach_at dim selector (addr p) l) (p\<lparr>key_index := key_index x\<rparr>) r))"
| "detach_at dim selector i Leaf = Leaf"
| "detach_at dim selector i (Node l x r) =
     (if addr x = i then detach_root dim selector (Node l x r)
      else Node (detach_at dim selector i l) x (detach_at dim selector i r))"
  by pat_completeness auto
termination
  by (relation "measures [\<lambda>x. case x of Inl (d, s, t) \<Rightarrow> size t | Inr (d, s, i, t) \<Rightarrow> size t,
      \<lambda>x. case x of Inl _ \<Rightarrow> 0 | Inr _ \<Rightarrow> 1]") auto

text \<open>\<open>detach\<close>: the tree afterwards, and the new root that is returned when the detached node was the root.\<close>

fun root_of :: "'c kd_tree \<Rightarrow> 'c tree_node option" where
  "root_of Leaf = None"
| "root_of (Node l x r) = Some x"

definition detach :: "nat \<Rightarrow> ('c :: linorder kd_tree \<Rightarrow> 'c kd_tree \<Rightarrow> bool) \<Rightarrow> nat \<Rightarrow> 'c kd_tree \<Rightarrow> 'c kd_tree \<times> 'c tree_node option" where
  "detach dim selector i t =
     (let t' = detach_at dim selector i t
      in (t', if map_option addr (root_of t) = Some i then root_of t' else None))"

section \<open>Queries\<close>

fun kd_query :: "nat \<Rightarrow> bool \<Rightarrow> 'c :: linorder box \<Rightarrow> ('c tree_node \<Rightarrow> bool) \<Rightarrow> 'c kd_tree \<Rightarrow> 'c tree_node list \<times> bool" where
  "kd_query dim right_skew target queryer Leaf = ([], True)"
| "kd_query dim right_skew target queryer (Node l x r) =
     (if \<not> queryer x then ([x], False)
      else if right_skew then
        let (v1, c1) = (if overlap_left dim (key x) target (key_index x) then kd_query dim right_skew target queryer l else ([], True))
        in if \<not> c1 then (x # v1, False)
           else if \<not> overlap_right dim (key x) target (key_index x) then (x # v1, True)
           else let (v2, c2) = kd_query dim right_skew target queryer r in (x # v1 @ v2, c2)
      else
        let (v1, c1) = (if overlap_right dim (key x) target (key_index x) then kd_query dim right_skew target queryer r else ([], True))
        in if \<not> c1 then (x # v1, False)
           else if \<not> overlap_left dim (key x) target (key_index x) then (x # v1, True)
           else let (v2, c2) = kd_query dim right_skew target queryer l in (x # v1 @ v2, c2))"

fun kd_query_culled :: "nat \<Rightarrow> bool \<Rightarrow> 'c :: linorder box \<Rightarrow> ('c tree_node \<Rightarrow> bool) \<Rightarrow> ('c box \<Rightarrow> bool) \<Rightarrow> 'c kd_tree \<Rightarrow> 'c tree_node list \<times> bool" where
  "kd_query_culled dim right_skew target queryer culler Leaf = ([], True)"
| "kd_query_culled dim right_skew target queryer culler (Node l x r) =
     (if \<not> culler target then ([], True)
      else if culler (key x) \<and> \<not> queryer x then ([x], False)
      else
        let v0 = (if culler (key x) then [x] else []);
            pushed = split_push dim right_skew target (key x) (key_index x);
            (v1, c1) = kd_query_culled dim right_skew pushed queryer culler (if right_skew then l else r)
        in if \<not> c1 then (v0 @ v1, False)
           else let (v2, c2) = kd_query_culled dim right_skew target queryer culler (if right_skew then r else l)
                in (v0 @ v1 @ v2, c2))"

section \<open>Rebuilding\<close>

function build :: "nat \<Rightarrow> 'c :: linorder tree_node list \<Rightarrow> nat \<Rightarrow> 'c kd_tree \<Rightarrow> 'c kd_tree" where
  "build dim ns i t =
     (if ns = [] then t
      else
        let mid = length ns div 2; j = next_index dim i
        in build dim (drop (mid + 1) ns) j (build dim (take mid ns) j (merge dim ((ns ! mid)\<lparr>key_index := i\<rparr>) t)))"
  by pat_completeness auto
termination
  by (relation "measure (\<lambda>(dim, ns, i, t). length ns)") auto

declare build.simps [simp del]

text \<open>\<open>rebuild\<close>: the bounding box, a code for every node, and the nodes inserted from the middle of the order of the codes.\<close>

definition rebuild :: "nat \<Rightarrow> int tree_node list \<Rightarrow> int kd_tree option" where
  "rebuild dim ns =
     (if ns = [] then Some Leaf
      else
        let box = foldl (\<lambda>b n. box_merge dim b (key n)) (key (hd ns)) ns;
            codes = map (\<lambda>n. (box_encode dim box (key n), n)) ns
        in if None \<in> fst ` set codes then None
           else
             let sorted = map snd (sort_key (\<lambda>c. the (fst c)) codes);
                 mid = length sorted div 2;
                 root = Node Leaf ((sorted ! mid)\<lparr>key_index := 0\<rparr>) Leaf
             in Some (build dim (drop (mid + 1) sorted) 1 (build dim (take mid sorted) 1 root)))"

text \<open>\<open>optimize\<close> collects the nodes level by level.\<close>

function level_order :: "'c kd_tree list \<Rightarrow> 'c tree_node list" where
  "level_order [] = []"
| "level_order (Leaf # ts) = level_order ts"
| "level_order (Node l x r # ts) = x # level_order (ts @ [l, r])"
  by pat_completeness auto
termination
  by (relation "measure (\<lambda>ts. sum_list (map (\<lambda>t. 2 * size t + 1) ts))") auto

definition optimize :: "nat \<Rightarrow> int kd_tree \<Rightarrow> int kd_tree option" where
  "optimize dim t = rebuild dim (level_order [t])"

section \<open>Nodes and order\<close>

fun nodes :: "'c kd_tree \<Rightarrow> 'c tree_node list" where
  "nodes Leaf = []"
| "nodes (Node l x r) = x # nodes l @ nodes r"

text \<open>What a tree stores: the objects with their keys. Their indices change with their place.\<close>

definition entries :: "'c kd_tree \<Rightarrow> (nat \<times> 'c box) multiset" where
  "entries t = image_mset (\<lambda>n. (addr n, key n)) (mset (nodes t))"

lemma entries_simps [simp]:
  "entries Leaf = {#}" "entries (Node l x r) = add_mset (addr x, key x) (entries l + entries r)"
  by (simp_all add: entries_def)

lemma entries_nodes: "x \<in> set (nodes t) \<Longrightarrow> (addr x, key x) \<in># entries t"
  by (auto simp: entries_def)

lemma entries_key: "(a, k) \<in># entries t \<Longrightarrow> \<exists>x \<in> set (nodes t). addr x = a \<and> key x = k"
  by (auto simp: entries_def)

text \<open>
  The order: on the dimension of a node the left subtree is not above it and the right one not below it. (New nodes that are
  equal go right, but the largest node of a left subtree that replaces its parent leaves its equals on the left.)
\<close>

definition below :: "nat \<Rightarrow> nat \<Rightarrow> 'c :: linorder kd_tree \<Rightarrow> 'c \<Rightarrow> bool" where
  "below dim i t c \<longleftrightarrow> (\<forall>e \<in># entries t. box_get dim (snd e) i \<le> c)"

definition above :: "nat \<Rightarrow> nat \<Rightarrow> 'c :: linorder kd_tree \<Rightarrow> 'c \<Rightarrow> bool" where
  "above dim i t c \<longleftrightarrow> (\<forall>e \<in># entries t. c \<le> box_get dim (snd e) i)"

fun kd_ok :: "nat \<Rightarrow> 'c :: linorder kd_tree \<Rightarrow> bool" where
  "kd_ok dim Leaf = True"
| "kd_ok dim (Node l x r) =
     (key_index x < 2 * dim \<and> below dim (key_index x) l (box_get dim (key x) (key_index x)) \<and>
      above dim (key_index x) r (box_get dim (key x) (key_index x)) \<and> kd_ok dim l \<and> kd_ok dim r)"

lemma below_simps [simp]:
  "below dim i Leaf c" "below dim i (Node l x r) c \<longleftrightarrow> box_get dim (key x) i \<le> c \<and> below dim i l c \<and> below dim i r c"
  by (auto simp: below_def)

lemma above_simps [simp]:
  "above dim i Leaf c" "above dim i (Node l x r) c \<longleftrightarrow> c \<le> box_get dim (key x) i \<and> above dim i l c \<and> above dim i r c"
  by (auto simp: above_def)

lemma below_mono: "below dim i t c \<Longrightarrow> entries t' \<subseteq># entries t \<Longrightarrow> below dim i t' c"
  by (auto simp: below_def dest: mset_subset_eqD)

lemma above_mono: "above dim i t c \<Longrightarrow> entries t' \<subseteq># entries t \<Longrightarrow> above dim i t' c"
  by (auto simp: above_def dest: mset_subset_eqD)

lemma above_trans: "above dim i t c \<Longrightarrow> b \<le> c \<Longrightarrow> above dim i t b"
  by (auto simp: above_def)

lemma below_trans: "below dim i t c \<Longrightarrow> c \<le> b \<Longrightarrow> below dim i t b"
  by (auto simp: below_def intro: order_trans)

section \<open>Insertion\<close>

lemma entries_merge: "entries (merge dim t tree) = add_mset (addr t, key t) (entries tree)"
  by (induction dim t tree rule: merge.induct) auto

lemma merge_not_Leaf [simp]: "merge dim t tree \<noteq> Leaf"
  by (cases tree) auto

lemma kd_ok_merge: "kd_ok dim tree \<Longrightarrow> key_index t < 2 * dim \<Longrightarrow> kd_ok dim (merge dim t tree)"
  by (induction dim t tree rule: merge.induct) (auto simp: below_def above_def entries_merge box_compare_def)

section \<open>Extreme nodes\<close>

lemma pick_min_least:
  "pick_min dim i p None = p" "pick_min dim i p (Some c) = p \<or> pick_min dim i p (Some c) = c"
  "box_get dim (key (pick_min dim i p (Some c))) i \<le> box_get dim (key p) i"
  "box_get dim (key (pick_min dim i p (Some c))) i \<le> box_get dim (key c) i"
  by (auto simp: pick_min_def box_compare_def)

lemma pick_max_greatest:
  "pick_max dim i p None = p" "pick_max dim i p (Some c) = p \<or> pick_max dim i p (Some c) = c"
  "box_get dim (key p) i \<le> box_get dim (key (pick_max dim i p (Some c))) i"
  "box_get dim (key c) i \<le> box_get dim (key (pick_max dim i p (Some c))) i"
  by (auto simp: pick_max_def box_compare_def)

lemma find_minimal_ok:
  assumes "kd_ok dim t" "t \<noteq> Leaf"
  shows "\<exists>p. find_minimal dim i t = Some p \<and> p \<in> set (nodes t) \<and> above dim i t (box_get dim (key p) i)"
  using assms
proof (induction t)
  case (Node l x r)
  define p where "p = pick_min dim i x (find_minimal dim i l)"
  have l: "(p = x \<or> p \<in> set (nodes l)) \<and> box_get dim (key p) i \<le> box_get dim (key x) i \<and> above dim i l (box_get dim (key p) i)"
  proof (cases "l = Leaf")
    case False
    then obtain a where a: "find_minimal dim i l = Some a" "a \<in> set (nodes l)" "above dim i l (box_get dim (key a) i)"
      using Node by auto
    then show ?thesis using pick_min_least(2-4) [of dim i x a] above_trans [OF a(3)] unfolding p_def a(1) by auto
  qed (simp add: p_def pick_min_least)
  have fm: "find_minimal dim i (Node l x r) = Some (if i \<noteq> key_index x then pick_min dim i p (find_minimal dim i r) else p)"
    by (simp add: p_def Let_def)
  show ?case
  proof (cases "i = key_index x \<or> r = Leaf")
    case True
    moreover have "above dim i r (box_get dim (key p) i)" using True Node.prems(1) l above_trans by auto
    ultimately show ?thesis using l unfolding fm by (auto simp: pick_min_least(1))
  next
    case False
    then obtain b where b: "find_minimal dim i r = Some b" "b \<in> set (nodes r)" "above dim i r (box_get dim (key b) i)"
      using Node by auto
    let ?q = "pick_min dim i p (Some b)"
    have "above dim i l (box_get dim (key ?q) i)" "above dim i r (box_get dim (key ?q) i)"
      "box_get dim (key ?q) i \<le> box_get dim (key x) i"
      using l b(3) pick_min_least(3,4) [of dim i p b] above_trans order_trans by blast+
    with False l b(1,2) pick_min_least(2) [of dim i p b] show ?thesis unfolding fm b(1) by auto
  qed
qed simp

lemma find_maximal_ok:
  assumes "kd_ok dim t" "t \<noteq> Leaf"
  shows "\<exists>p. find_maximal dim i t = Some p \<and> p \<in> set (nodes t) \<and> below dim i t (box_get dim (key p) i)"
  using assms
proof (induction t)
  case (Node l x r)
  define p where "p = (if i \<noteq> key_index x then pick_max dim i x (find_maximal dim i l) else x)"
  have l: "(p = x \<or> p \<in> set (nodes l)) \<and> box_get dim (key x) i \<le> box_get dim (key p) i \<and> below dim i l (box_get dim (key p) i)"
  proof (cases "i = key_index x \<or> l = Leaf")
    case True
    then show ?thesis using Node.prems by (auto simp: p_def pick_max_greatest)
  next
    case False
    then obtain a where a: "find_maximal dim i l = Some a" "a \<in> set (nodes l)" "below dim i l (box_get dim (key a) i)"
      using Node by auto
    then show ?thesis using False pick_max_greatest(2-4) [where dim = dim and i = i and p = x and c = a] below_trans [OF a(3)] unfolding p_def a(1) by auto
  qed
  have fm: "find_maximal dim i (Node l x r) = Some (pick_max dim i p (find_maximal dim i r))"
    by (simp add: p_def Let_def)
  show ?case
  proof (cases "r = Leaf")
    case True
    then show ?thesis using l unfolding fm by (auto simp: pick_max_greatest(1))
  next
    case False
    then obtain b where b: "find_maximal dim i r = Some b" "b \<in> set (nodes r)" "below dim i r (box_get dim (key b) i)"
      using Node by auto
    let ?q = "pick_max dim i p (Some b)"
    have "below dim i l (box_get dim (key ?q) i)" "below dim i r (box_get dim (key ?q) i)"
      "box_get dim (key x) i \<le> box_get dim (key ?q) i"
      using l b(3) pick_max_greatest(3,4) [where dim = dim and i = i and p = p and c = b] below_trans order_trans by blast+
    with l b(1,2) pick_max_greatest(2) [of dim i p b] show ?thesis unfolding fm b(1) by auto
  qed
qed simp

section \<open>Removal\<close>

abbreviation addrs :: "'c kd_tree \<Rightarrow> nat list" where
  "addrs t \<equiv> map addr (nodes t)"

lemma entries_split:
  assumes "distinct (addrs t)" "p \<in> set (nodes t)"
  shows "entries t = add_mset (addr p, key p) (filter_mset (\<lambda>e. fst e \<noteq> addr p) (entries t))"
proof -
  from split_list [OF assms(2)] obtain as bs where s: "nodes t = as @ p # bs" by blast
  have "addr p \<notin> addr ` set as" "addr p \<notin> addr ` set bs" using assms(1) s by auto
  then have "filter (\<lambda>n. addr n \<noteq> addr p) as = as" "filter (\<lambda>n. addr n \<noteq> addr p) bs = bs"
    by (intro filter_True ballI; metis image_eqI)+
  with s show ?thesis
    by (simp add: entries_def filter_mset_image_mset comp_def flip: mset_filter)
qed

lemma filter_absent: "i \<notin> set (addrs t) \<Longrightarrow> filter_mset (\<lambda>e. fst e \<noteq> i) (entries t) = entries t"
  by (auto simp: filter_mset_eq_conv entries_def)

lemma detach_ok:
  "kd_ok dim t \<Longrightarrow> distinct (addrs t) \<Longrightarrow>
   kd_ok dim (detach_root dim selector t) \<and> entries (detach_root dim selector t) = (case t of Leaf \<Rightarrow> {#} | Node l x r \<Rightarrow> entries l + entries r)"
  "kd_ok dim t \<Longrightarrow> distinct (addrs t) \<Longrightarrow>
   kd_ok dim (detach_at dim selector i t) \<and> entries (detach_at dim selector i t) = filter_mset (\<lambda>e. fst e \<noteq> i) (entries t)"
proof (induction dim selector t and dim selector i t rule: detach_root_detach_at.induct)
  case (2 dim selector l x r)
  let ?i = "key_index x"
  consider "l = Leaf" | "l \<noteq> Leaf" "r = Leaf" | "l \<noteq> Leaf" "r \<noteq> Leaf" "selector l r" | "l \<noteq> Leaf" "r \<noteq> Leaf" "\<not> selector l r" by blast
  then show ?case
  proof cases
    case 3
    obtain p where p: "find_minimal dim ?i r = Some p" "p \<in> set (nodes r)" "above dim ?i r (box_get dim (key p) ?i)"
      using find_minimal_ok [of dim r ?i] 2(3) 3(2) by auto
    have d: "kd_ok dim (detach_at dim selector (addr p) r)"
      "entries (detach_at dim selector (addr p) r) = filter_mset (\<lambda>e. fst e \<noteq> addr p) (entries r)"
      using 2(1) [OF _ 3(3) p(1)] 3(1,2) 2(3,4) by auto
    have "box_get dim (key x) ?i \<le> box_get dim (key p) ?i"
      using 2(3) entries_nodes [OF p(2)] by (auto simp: above_def)
    moreover have "above dim ?i (detach_at dim selector (addr p) r) (box_get dim (key p) ?i)"
      by (rule above_mono [OF p(3)]) (simp add: d(2))
    moreover have "entries r = add_mset (addr p, key p) (filter_mset (\<lambda>e. fst e \<noteq> addr p) (entries r))"
      by (rule entries_split [OF _ p(2)]) (use 2(4) in simp)
    ultimately show ?thesis using 3 p(1) d 2(3) by (auto intro: below_trans)
  next
    case 4
    obtain p where p: "find_maximal dim ?i l = Some p" "p \<in> set (nodes l)" "below dim ?i l (box_get dim (key p) ?i)"
      using find_maximal_ok [of dim l ?i] 2(3) 4(1) by auto
    have d: "kd_ok dim (detach_at dim selector (addr p) l)"
      "entries (detach_at dim selector (addr p) l) = filter_mset (\<lambda>e. fst e \<noteq> addr p) (entries l)"
      using 2(2) [OF _ 4(3) p(1)] 4(1,2) 2(3,4) by auto
    have "box_get dim (key p) ?i \<le> box_get dim (key x) ?i"
      using 2(3) entries_nodes [OF p(2)] by (auto simp: below_def)
    moreover have "below dim ?i (detach_at dim selector (addr p) l) (box_get dim (key p) ?i)"
      by (rule below_mono [OF p(3)]) (simp add: d(2))
    moreover have "entries l = add_mset (addr p, key p) (filter_mset (\<lambda>e. fst e \<noteq> addr p) (entries l))"
      by (rule entries_split [OF _ p(2)]) (use 2(4) in simp)
    ultimately show ?thesis using 4 p(1) d 2(3) by (auto intro: above_trans)
  qed (use 2(3) in auto)
next
  case (4 dim selector i l x r)
  show ?case
  proof (cases "addr x = i")
    case True
    with 4 filter_absent [of i l] filter_absent [of i r] show ?thesis by auto
  next
    case False
    with 4 have "entries (detach_at dim selector i l) \<subseteq># entries l" "entries (detach_at dim selector i r) \<subseteq># entries r"
      by auto
    with False 4 show ?thesis by (auto intro: below_mono above_mono)
  qed
qed auto

section \<open>Queries find what they should\<close>

definition overlaps :: "nat \<Rightarrow> 'c :: linorder box \<Rightarrow> 'c box \<Rightarrow> bool" where
  "overlaps dim a b \<longleftrightarrow>
     (\<forall>i < dim. box_get dim a i \<le> box_get dim b (i + dim) \<and> box_get dim b i \<le> box_get dim a (i + dim))"

lemma prune_left:
  assumes "below dim i t (box_get dim k i)" "i < 2 * dim" "\<not> overlap_left dim k target i" "y \<in> set (nodes t)"
  shows "\<not> overlaps dim (key y) target"
proof
  assume over: "overlaps dim (key y) target"
  have i: "dim \<le> i" "box_get dim k i < box_get dim target (i - dim)" using assms(3) by (auto simp: overlap_left_def)
  obtain j where j: "i = j + dim" using i(1) by (metis le_add_diff_inverse2)
  then have "box_get dim target j \<le> box_get dim (key y) i" using over assms(2) by (simp add: overlaps_def)
  moreover have "box_get dim (key y) i \<le> box_get dim k i" using assms(1) entries_nodes [OF assms(4)] by (auto simp: below_def)
  ultimately show False using i(2) j by simp
qed

lemma prune_right:
  assumes "above dim i t (box_get dim k i)" "\<not> overlap_right dim k target i" "y \<in> set (nodes t)"
  shows "\<not> overlaps dim (key y) target"
proof
  assume "overlaps dim (key y) target"
  moreover have i: "i < dim" "box_get dim target (i + dim) < box_get dim k i" using assms(2) by (auto simp: overlap_right_def)
  ultimately have "box_get dim (key y) i \<le> box_get dim target (i + dim)" by (auto simp: overlaps_def)
  moreover have "box_get dim k i \<le> box_get dim (key y) i" using assms(1) entries_nodes [OF assms(3)] by (auto simp: above_def)
  ultimately show False using i by auto
qed

lemma kd_query_visits: "mset (fst (kd_query dim right_skew target queryer t)) \<subseteq># mset (nodes t)"
proof (induction t)
  case (Node l x r)
  have mono: "a \<subseteq># mset (nodes l) \<Longrightarrow> b \<subseteq># mset (nodes r) \<Longrightarrow> a + b \<subseteq># mset (nodes l) + mset (nodes r)" for a b
    by (rule mset_subset_eq_mono_add)
  have "a \<subseteq># mset (nodes l) \<Longrightarrow> a \<subseteq># mset (nodes l) + mset (nodes r)"
    "b \<subseteq># mset (nodes r) \<Longrightarrow> b \<subseteq># mset (nodes l) + mset (nodes r)" for a b
    using mono [of a "{#}"] mono [of "{#}" b] by simp_all
  with Node mono [of "mset (fst (kd_query dim right_skew target queryer l))" "mset (fst (kd_query dim right_skew target queryer r))"]
  show ?case by (auto simp: Let_def add.commute split: prod.splits)
qed simp

lemma kd_query_stops:
  "snd (kd_query dim right_skew target queryer t) = list_all queryer (fst (kd_query dim right_skew target queryer t))"
  by (induction t) (auto simp: Let_def split: prod.splits if_splits)

text \<open>A list up to and including the first element that a callback refuses.\<close>

primrec upto_refusal :: "('a \<Rightarrow> bool) \<Rightarrow> 'a list \<Rightarrow> 'a list" where
  "upto_refusal p [] = []"
| "upto_refusal p (x # xs) = x # (if p x then upto_refusal p xs else [])"

lemma upto_refusal_append:
  "upto_refusal p (xs @ ys) = (if list_all p xs then xs @ upto_refusal p ys else upto_refusal p xs)"
  by (induction xs) auto

lemma upto_refusal_all: "list_all p xs \<Longrightarrow> upto_refusal p xs = xs"
  by (induction xs) auto

lemma list_all_upto_refusal [simp]: "list_all p (upto_refusal p xs) = list_all p xs"
  by (induction xs) auto

lemma upto_refusal_butlast: "list_all p (butlast (upto_refusal p xs))"
  by (induction xs) auto

lemma upto_refusal_last: "\<not> list_all p xs \<Longrightarrow> upto_refusal p xs \<noteq> [] \<and> \<not> p (last (upto_refusal p xs))"
  by (induction xs) auto

lemma kd_query_cut:
  "kd_query dim right_skew target queryer t =
     (let all = fst (kd_query dim right_skew target (\<lambda>n. True) t) in (upto_refusal queryer all, list_all queryer all))"
proof (induction t)
  case (Node l x r)
  have "snd (kd_query dim right_skew target (\<lambda>n. True) t)" for t
    by (simp add: kd_query_stops list_all_iff)
  then obtain vl vr where "kd_query dim right_skew target (\<lambda>n. True) l = (vl, True)"
    "kd_query dim right_skew target (\<lambda>n. True) r = (vr, True)" by (metis prod.collapse)
  with Node show ?case by (auto simp: Let_def upto_refusal_append upto_refusal_all)
qed simp

lemma kd_query_complete:
  "kd_ok dim t \<Longrightarrow> snd (kd_query dim right_skew target queryer t) \<Longrightarrow> y \<in> set (nodes t) \<Longrightarrow> overlaps dim (key y) target \<Longrightarrow>
   y \<in> set (fst (kd_query dim right_skew target queryer t))"
proof (induction t)
  case (Node l x r)
  have pl: "\<not> overlap_left dim (key x) target (key_index x) \<Longrightarrow> y \<notin> set (nodes l)"
    and pr: "\<not> overlap_right dim (key x) target (key_index x) \<Longrightarrow> y \<notin> set (nodes r)"
    using prune_left prune_right Node.prems(1,4) by fastforce+
  show ?case
    using Node pl pr by (cases right_skew) (auto simp: Let_def split: prod.splits if_splits)
qed simp

section \<open>Queries with a culler\<close>

text \<open>The box of the query contains a box.\<close>

definition contains :: "nat \<Rightarrow> 'c :: linorder box \<Rightarrow> 'c box \<Rightarrow> bool" where
  "contains dim t k \<longleftrightarrow>
     (\<forall>i < dim. box_get dim t i \<le> box_get dim k i) \<and> (\<forall>i. dim \<le> i \<and> i < 2 * dim \<longrightarrow> box_get dim k i \<le> box_get dim t i)"

definition box_ok :: "nat \<Rightarrow> 'c box \<Rightarrow> bool" where
  "box_ok dim b \<longleftrightarrow> length (fst b) = dim \<and> length (snd b) = dim"

lemma box_set_ok [simp]: "box_ok dim b \<Longrightarrow> box_ok dim (box_set dim b i c)"
  by (simp add: box_ok_def box_set_def)

lemma box_get_set: "box_ok dim b \<Longrightarrow> i < 2 * dim \<Longrightarrow> box_get dim (box_set dim b i c) j = (if j = i then c else box_get dim b j)"
  by (auto simp: box_get_def box_set_def box_ok_def)

lemma split_push_ok: "box_ok dim target \<Longrightarrow> box_ok dim (split_push dim right_skew target k i)"
  by (simp add: split_push_def)

lemma split_push_contains:
  assumes "box_ok dim target" "i < 2 * dim" "contains dim target a"
    and "right_skew \<Longrightarrow> box_get dim a i \<le> box_get dim k i" "\<not> right_skew \<Longrightarrow> box_get dim k i \<le> box_get dim a i"
  shows "contains dim (split_push dim right_skew target k i) a"
  using assms by (auto simp: split_push_def contains_def box_get_set)

lemma kd_query_culled_exact:
  assumes "\<And>a b. contains dim b a \<Longrightarrow> culler a \<Longrightarrow> culler b"
  shows "kd_ok dim t \<Longrightarrow> box_ok dim target \<Longrightarrow> (\<And>y. y \<in> set (nodes t) \<Longrightarrow> contains dim target (key y)) \<Longrightarrow>
   snd (kd_query_culled dim right_skew target queryer culler t) \<Longrightarrow>
   mset (fst (kd_query_culled dim right_skew target queryer culler t)) = filter_mset (\<lambda>y. culler (key y)) (mset (nodes t)) \<and>
   list_all queryer (fst (kd_query_culled dim right_skew target queryer culler t))"
proof (induction t arbitrary: target)
  case (Node l x r)
  let ?i = "key_index x"
  let ?p = "split_push dim right_skew target (key x) ?i"
  let ?near = "if right_skew then l else r" and ?far = "if right_skew then r else l"
  show ?case
  proof (cases "culler target")
    case False
    then have "\<not> culler (key y)" if "y \<in> set (nodes (Node l x r))" for y
      using assms Node.prems(3) that by blast
    then have "filter_mset (\<lambda>y. culler (key y)) (mset (nodes (Node l x r))) = {#}" by (auto simp: filter_empty_mset filter_mset_eq_conv)
    with False show ?thesis by simp
  next
    case True
    have near: "contains dim ?p (key y)" if "y \<in> set (nodes ?near)" for y
    proof (rule split_push_contains)
      show "contains dim target (key y)" using Node.prems(3) that by (auto split: if_splits)
      show "right_skew \<Longrightarrow> box_get dim (key y) ?i \<le> box_get dim (key x) ?i"
        using Node.prems(1) that entries_nodes [of y l] by (auto simp: below_def)
      show "\<not> right_skew \<Longrightarrow> box_get dim (key x) ?i \<le> box_get dim (key y) ?i"
        using Node.prems(1) that entries_nodes [of y r] by (auto simp: above_def)
    qed (use Node.prems(1,2) in auto)
    have far: "contains dim target (key y)" if "y \<in> set (nodes ?far)" for y
      using Node.prems(3) that by (auto split: if_splits)
    have run: "\<not> (culler (key x) \<and> \<not> queryer x)" "snd (kd_query_culled dim right_skew ?p queryer culler ?near)"
      "snd (kd_query_culled dim right_skew target queryer culler ?far)"
      using Node.prems(4) True by (auto simp: Let_def split: prod.splits if_splits)
    have ok: "kd_ok dim ?near" "kd_ok dim ?far" using Node.prems(1) by auto
    note ih = Node.IH(1) [of ?p] Node.IH(2) [of ?p] Node.IH(1) [of target] Node.IH(2) [of target]
    have "mset (fst (kd_query_culled dim right_skew ?p queryer culler ?near)) = filter_mset (\<lambda>y. culler (key y)) (mset (nodes ?near)) \<and>
        list_all queryer (fst (kd_query_culled dim right_skew ?p queryer culler ?near))"
      using ih(1,2) ok(1) near run(2) split_push_ok [OF Node.prems(2)] by (cases right_skew) auto
    moreover have "mset (fst (kd_query_culled dim right_skew target queryer culler ?far)) = filter_mset (\<lambda>y. culler (key y)) (mset (nodes ?far)) \<and>
        list_all queryer (fst (kd_query_culled dim right_skew target queryer culler ?far))"
      using ih(3,4) ok(2) far run(3) Node.prems(2) by (cases right_skew) auto
    ultimately show ?thesis
      using True run by (cases right_skew) (auto simp: Let_def add.commute split: prod.splits if_splits)
  qed
qed simp

lemma kd_query_culled_runs: "snd (kd_query_culled dim right_skew target (\<lambda>n. True) culler t)"
proof (induction t arbitrary: target)
  case (Node l x r)
  then show ?case by (cases right_skew) (simp_all add: Let_def case_prod_beta)
qed simp

section \<open>Rebuilding keeps the nodes\<close>

lemma entries_build: "entries (build dim ns i t) = entries t + image_mset (\<lambda>n. (addr n, key n)) (mset ns)"
proof (induction dim ns i t rule: build.induct)
  case (1 dim ns i t)
  show ?case
  proof (cases "ns = []")
    case False
    let ?mid = "length ns div 2" and ?j = "next_index dim i"
    have "ns = take ?mid ns @ ns ! ?mid # drop (?mid + 1) ns"
      using False by (simp add: id_take_nth_drop)
    then have "mset ns = mset (take ?mid ns) + add_mset (ns ! ?mid) (mset (drop (?mid + 1) ns))"
      by (metis mset.simps(2) mset_append)
    with 1 False show ?thesis by (subst build.simps) (simp add: Let_def entries_merge)
  qed (subst build.simps, simp)
qed

lemma kd_ok_build: "kd_ok dim t \<Longrightarrow> i < 2 * dim \<Longrightarrow> kd_ok dim (build dim ns i t)"
proof (induction dim ns i t rule: build.induct)
  case (1 dim ns i t)
  have "next_index dim i < 2 * dim" using 1(4) by (simp add: next_index_def)
  with 1 show ?case by (subst build.simps) (simp add: Let_def kd_ok_merge)
qed

lemma mset_level_order: "mset (level_order ts) = sum_list (map (\<lambda>t. mset (nodes t)) ts)"
  by (induction ts rule: level_order.induct) (auto simp: ac_simps)

lemma rebuild_ok:
  assumes "rebuild dim ns = Some t" "0 < dim"
  shows "kd_ok dim t \<and> entries t = image_mset (\<lambda>n. (addr n, key n)) (mset ns)"
proof (cases "ns = []")
  case False
  define sorted where "sorted = map snd (sort_key (\<lambda>c. the (fst c))
      (map (\<lambda>n. (box_encode dim (foldl (\<lambda>b n. box_merge dim b (key n)) (key (hd ns)) ns) (key n), n)) ns))"
  let ?mid = "length sorted div 2"
  let ?root = "Node Leaf ((sorted ! ?mid)\<lparr>key_index := 0\<rparr>) Leaf"
  have perm: "mset sorted = mset ns" by (simp add: sorted_def comp_def image_mset.compositionality)
  have t: "t = build dim (drop (?mid + 1) sorted) 1 (build dim (take ?mid sorted) 1 ?root)"
    using assms(1) False by (auto simp: rebuild_def Let_def sorted_def split: if_splits)
  have "sorted \<noteq> []" using perm False by auto
  then have "sorted = take ?mid sorted @ sorted ! ?mid # drop (?mid + 1) sorted" by (simp add: id_take_nth_drop)
  then have split: "mset ns = mset (take ?mid sorted) + add_mset (sorted ! ?mid) (mset (drop (?mid + 1) sorted))"
    by (metis mset.simps(2) mset_append perm)
  have "kd_ok dim ?root" using assms(2) by simp
  then have "kd_ok dim t" unfolding t using assms(2) by (intro kd_ok_build) auto
  moreover have "entries t = image_mset (\<lambda>n. (addr n, key n)) (mset ns)"
    unfolding t by (simp only: entries_build split) (simp add: entries_def)
  ultimately show ?thesis by simp
qed (use assms in \<open>simp add: rebuild_def\<close>)

definition bounding_box :: "nat \<Rightarrow> int tree_node list \<Rightarrow> int box" where
  "bounding_box dim ns = foldl (\<lambda>b n. box_merge dim b (key n)) (key (hd ns)) ns"

lemma quantize_None: "quantize r lo hi v = None \<longleftrightarrow> lo = hi"
  by (auto simp: quantize_def Let_def)

lemma None_in_map: "None \<in> set (map f xs) \<longleftrightarrow> (\<exists>x \<in> set xs. f x = None)"
  by (induction xs) auto

lemma if_None_eq_None: "((if Q then None else Some x) = None) = Q"
  by simp

lemma shift_out_of_range: "0 < dim \<Longrightarrow> 31 \<le> 64 div (2 * dim) + 1 \<longleftrightarrow> dim = (1 :: nat)"
proof -
  assume "0 < dim"
  have "64 div (2 * dim) \<le> 64 div 4" if "2 \<le> dim" using that by (intro div_le_mono2) auto
  with \<open>0 < dim\<close> show ?thesis by (cases "dim = 1") auto
qed

lemma box_encode_None:
  assumes "0 < dim"
  shows "box_encode dim box v = None \<longleftrightarrow> dim = 1 \<or> (\<exists>j < dim. box_get dim box j = box_get dim box (j + dim))"
proof -
  let ?j = "\<lambda>i. if i < dim then i else i - dim"
  have "box_encode dim box v = None \<longleftrightarrow> dim = 1 \<or> (\<exists>i \<in> set [0..<2 * dim]. box_get dim box (?j i) = box_get dim box (?j i + dim))"
    unfolding box_encode_def Let_def None_in_map quantize_None shift_out_of_range [OF assms] by (rule if_None_eq_None)
  also have "(\<exists>i \<in> set [0..<2 * dim]. box_get dim box (?j i) = box_get dim box (?j i + dim)) \<longleftrightarrow> (\<exists>j < dim. box_get dim box j = box_get dim box (j + dim))"
  proof
    assume "\<exists>i \<in> set [0..<2 * dim]. box_get dim box (?j i) = box_get dim box (?j i + dim)"
    then obtain i where "i < 2 * dim" "box_get dim box (?j i) = box_get dim box (?j i + dim)" by auto
    moreover from this(1) have "?j i < dim" by auto
    ultimately show "\<exists>j < dim. box_get dim box j = box_get dim box (j + dim)" by blast
  next
    assume "\<exists>j < dim. box_get dim box j = box_get dim box (j + dim)"
    then obtain j where "j < dim" "box_get dim box j = box_get dim box (j + dim)" by blast
    then show "\<exists>i \<in> set [0..<2 * dim]. box_get dim box (?j i) = box_get dim box (?j i + dim)" by (intro bexI [of _ j]) auto
  qed
  finally show ?thesis .
qed

lemma rebuild_None:
  assumes "0 < dim"
  shows "rebuild dim ns = None \<longleftrightarrow>
    ns \<noteq> [] \<and> (dim = 1 \<or> (\<exists>j < dim. box_get dim (bounding_box dim ns) j = box_get dim (bounding_box dim ns) (j + dim)))"
proof (cases "ns = []")
  case False
  let ?enc = "\<lambda>n. box_encode dim (bounding_box dim ns) (key n)"
  have "rebuild dim ns = None \<longleftrightarrow> None \<in> fst ` set (map (\<lambda>n. (?enc n, n)) ns)"
    using False unfolding rebuild_def bounding_box_def [symmetric] Let_def by simp
  also have "fst ` set (map (\<lambda>n. (?enc n, n)) ns) = set (map ?enc ns)" by (simp add: image_image)
  also have "None \<in> set (map ?enc ns) \<longleftrightarrow> (\<exists>n \<in> set ns. ?enc n = None)" by (rule None_in_map)
  finally show ?thesis unfolding box_encode_None [OF assms] using False by (cases ns) auto
qed (simp add: rebuild_def)

section \<open>Properties\<close>

text \<open>
  C36. The tree keeps its order and its contents: attaching a node adds exactly that node, and detaching one, whatever replacements the selector
  chooses, removes exactly that node; both keep on every node's dimension the left subtree not above and the right one
  not below it. When the root is detached the new root is returned.
\<close>

theorem kd_tree_maintained:
  assumes "kd_ok dim t" and "distinct (addrs t)"
  shows "(key_index n < 2 * dim \<longrightarrow> kd_ok dim (merge dim n t)) \<and> entries (merge dim n t) = add_mset (addr n, key n) (entries t) \<and>
    kd_ok dim (fst (detach dim selector i t)) \<and>
    entries (fst (detach dim selector i t)) = filter_mset (\<lambda>e. fst e \<noteq> i) (entries t) \<and>
    (map_option addr (root_of t) = Some i \<longrightarrow> snd (detach dim selector i t) = root_of (fst (detach dim selector i t)))"
  using detach_ok(2) [OF assms, of selector i] kd_ok_merge [OF assms(1), of n] by (simp add: detach_def Let_def entries_merge)

definition sample_tree :: "int kd_tree" where
  "sample_tree = foldl (\<lambda>t n. merge 1 n t) Leaf
     [\<lparr>addr = 1, key = ([0], [5]), key_index = 0\<rparr>, \<lparr>addr = 2, key = ([- 3], [1]), key_index = 1\<rparr>,
      \<lparr>addr = 3, key = ([7], [9]), key_index = 1\<rparr>]"

lemma sample_tree_ok: "kd_ok 1 sample_tree" "distinct (addrs sample_tree)"
  by (simp_all add: sample_tree_def box_compare_def box_get_def)

theorem kd_tree_maintained_witness:
  "kd_ok 1 (fst (detach 1 (\<lambda>l r. True) 1 sample_tree)) \<and>
   map_option addr (snd (detach 1 (\<lambda>l r. True) 1 sample_tree)) = Some 3"
proof -
  have "map_option addr (snd (detach 1 (\<lambda>l r. True) 1 sample_tree)) = Some 3"
    by (simp add: sample_tree_def box_compare_def box_get_def detach_def pick_min_def)
  with kd_tree_maintained [OF sample_tree_ok, of _ "\<lambda>l r. True" 1] show ?thesis by blast
qed

text \<open>
  C37. Queries by overlap: in either direction a query visits nodes of the tree, none twice, and stops at the first one its callback refuses:
  all it visited before the last were accepted, the last one is refused when the query reports that it stopped, and what it visited is what the query
  that nothing stops visits, up to and including the first refused node. If the callback refuses none, every node
  whose box overlaps the target is visited, so that the pruned subtrees hold none.
\<close>

theorem kd_query_correct:
  assumes "kd_ok dim t" and "kd_query dim right_skew target queryer t = (visited, completed)"
  shows "mset visited \<subseteq># mset (nodes t) \<and>
    completed = list_all queryer visited \<and>
    list_all queryer (butlast visited) \<and>
    (\<not> completed \<longrightarrow> visited \<noteq> [] \<and> \<not> queryer (last visited)) \<and>
    visited = upto_refusal queryer (fst (kd_query dim right_skew target (\<lambda>n. True) t)) \<and>
    (completed \<longrightarrow> (\<forall>y \<in> set (nodes t). overlaps dim (key y) target \<longrightarrow> y \<in> set visited))"
proof -
  let ?all = "fst (kd_query dim right_skew target (\<lambda>n. True) t)"
  have cut: "visited = upto_refusal queryer ?all" "completed = list_all queryer ?all"
    using assms(2) kd_query_cut [of dim right_skew target queryer t] by (simp_all add: Let_def)
  have "mset visited \<subseteq># mset (nodes t)" "completed = list_all queryer visited"
    using kd_query_visits [of dim right_skew target queryer t] kd_query_stops [of dim right_skew target queryer t] assms(2) by simp_all
  moreover have "list_all queryer (butlast visited)" "\<not> completed \<longrightarrow> visited \<noteq> [] \<and> \<not> queryer (last visited)"
    unfolding cut by (simp_all add: upto_refusal_butlast upto_refusal_last)
  moreover have "completed \<longrightarrow> (\<forall>y \<in> set (nodes t). overlaps dim (key y) target \<longrightarrow> y \<in> set visited)"
    using kd_query_complete [OF assms(1), of right_skew target queryer] assms(2) by simp
  ultimately show ?thesis using cut(1) by blast
qed

theorem kd_query_correct_witness:
  "map addr (fst (kd_query 1 True ([- 2], [- 1]) (\<lambda>n. True) sample_tree)) = [1, 2] \<and>
   set (filter (\<lambda>y. overlaps 1 (key y) ([- 2], [- 1])) (nodes sample_tree)) \<subseteq>
     set (fst (kd_query 1 True ([- 2], [- 1]) (\<lambda>n. True) sample_tree)) \<and>
   map addr (fst (kd_query 1 True ([- 2], [- 1]) (\<lambda>n. False) sample_tree)) = [1]"
proof -
  have all: "map addr (fst (kd_query 1 True ([- 2], [- 1]) (\<lambda>n. True) sample_tree)) = [1, 2]"
    "snd (kd_query 1 True ([- 2], [- 1]) (\<lambda>n. True) sample_tree)"
    by (simp_all add: sample_tree_def box_compare_def box_get_def overlap_left_def overlap_right_def)
  have "set (filter (\<lambda>y. overlaps 1 (key y) ([- 2], [- 1])) (nodes sample_tree)) \<subseteq>
     set (fst (kd_query 1 True ([- 2], [- 1]) (\<lambda>n. True) sample_tree))"
    using kd_query_correct [OF sample_tree_ok(1) prod.collapse [symmetric], of True "([- 2], [- 1])" "\<lambda>n. True"] all by auto
  moreover have "map addr (fst (kd_query 1 True ([- 2], [- 1]) (\<lambda>n. False) sample_tree)) = [1]"
    using kd_query_correct [OF sample_tree_ok(1) prod.collapse [symmetric], of True "([- 2], [- 1])" "\<lambda>n. False"] all(1)
    by (cases "fst (kd_query 1 True ([- 2], [- 1]) (\<lambda>n. True) sample_tree)") auto
  ultimately show ?thesis using all(1) by blast
qed

text \<open>
  Queries with a culler: for a culler that accepts every box that contains an accepted one, and a target that contains all boxes of the tree, a query that runs
  to the end visits exactly the nodes the culler accepts, each once, although it narrows the target on its way down.
\<close>

theorem kd_query_culled_correct:
  assumes "kd_ok dim t" and "box_ok dim target" and "\<forall>y \<in> set (nodes t). contains dim target (key y)"
    and "\<forall>a b. contains dim b a \<and> culler a \<longrightarrow> culler b"
    and "snd (kd_query_culled dim right_skew target queryer culler t)"
  shows "mset (fst (kd_query_culled dim right_skew target queryer culler t)) = filter_mset (\<lambda>y. culler (key y)) (mset (nodes t)) \<and>
    list_all queryer (fst (kd_query_culled dim right_skew target queryer culler t))"
  using assms by (intro kd_query_culled_exact) auto

theorem kd_query_culled_correct_witness:
  "mset (fst (kd_query_culled 1 False ([- 9], [9]) (\<lambda>n. True) (\<lambda>b. box_get 1 b 1 \<ge> 4) sample_tree)) =
   filter_mset (\<lambda>y. box_get 1 (key y) 1 \<ge> 4) (mset (nodes sample_tree))"
proof -
  have "\<forall>y \<in> set (nodes sample_tree). contains 1 ([- 9], [9]) (key y)"
    by (simp add: sample_tree_def box_compare_def box_get_def contains_def)
  then show ?thesis
    using kd_query_culled_runs kd_query_culled_correct [OF sample_tree_ok(1), of "([- 9], [9])" "\<lambda>b. box_get 1 b 1 \<ge> 4" False "\<lambda>n. True"]
    by (fastforce simp: box_ok_def contains_def)
qed

text \<open>
  Rebuilding: \<open>rebuild\<close> is defined exactly for boxes of two and more dimensions whose bounding box is flat in none (otherwise the codes shift too far or divide by zero),
  and then, like \<open>optimize\<close>, it returns an ordered tree with exactly the nodes it was given, whatever order the codes of the nodes impose.
\<close>

theorem kd_rebuild_correct:
  assumes "0 < dim"
  shows "(rebuild dim ns = None \<longleftrightarrow>
      ns \<noteq> [] \<and> (dim = 1 \<or> (\<exists>j < dim. box_get dim (bounding_box dim ns) j = box_get dim (bounding_box dim ns) (j + dim)))) \<and>
    (rebuild dim ns = Some t \<longrightarrow> kd_ok dim t \<and> entries t = image_mset (\<lambda>n. (addr n, key n)) (mset ns)) \<and>
    (optimize dim u = Some t \<longrightarrow> kd_ok dim t \<and> entries t = entries u)"
  using rebuild_ok [OF _ assms, of ns t] rebuild_ok [OF _ assms, of "level_order [u]" t] rebuild_None [OF assms, of ns]
  by (auto simp: optimize_def mset_level_order entries_def)

definition sample_nodes :: "int tree_node list" where
  "sample_nodes =
     [\<lparr>addr = 1, key = ([0, 2], [5, 4]), key_index = 0\<rparr>, \<lparr>addr = 2, key = ([- 3, 0], [1, 1]), key_index = 1\<rparr>,
      \<lparr>addr = 3, key = ([7, - 2], [9, 8]), key_index = 1\<rparr>]"

theorem kd_rebuild_correct_witness:
  "\<exists>t. rebuild 2 sample_nodes = Some t \<and> kd_ok 2 t"
proof -
  have "\<not> (\<exists>j < 2. box_get 2 (bounding_box 2 sample_nodes) j = box_get 2 (bounding_box 2 sample_nodes) (j + 2))" by code_simp
  then have "rebuild 2 sample_nodes \<noteq> None"
    using kd_rebuild_correct [of 2 sample_nodes] by simp
  then obtain t where "rebuild 2 sample_nodes = Some t" by blast
  with kd_rebuild_correct [of 2 sample_nodes t] show ?thesis by simp
qed

text \<open>When all boxes coincide in a dimension and are flat there, the scaling of the codes divides by zero.\<close>

lemma rebuild_flat_undefined: "rebuild 2 [\<lparr>addr = 1, key = ([3, 0], [3, 1]), key_index = 0\<rparr>] = None"
  by code_simp

end
