(* ===== verification/Dispatcher.thy ===== *)
theory Dispatcher
  imports Prelude "HOL-Library.Multiset"
begin

text \<open>
  The dispatcher of dependent routines \<open>iris_dispatcher_t\<close> of \<open>iris_dispatcher.h\<close>. The routines are objects in a list, addressed by their
  position, \<open>None\<close> once they are freed. A thread is a stack of the calls it is in: entering \<open>execute\<close>, inside a user function, before the check that
  follows it, or in the loop over the next tasks. Any thread may take up a posted routine at any time, which covers the worker threads as well as a warp
  that runs a routine at once. The operations of the clients interleave with the steps of the threads; \<open>order\<close>, which only touches routines that
  wait, is one step, and so is each access to a lock count. What the asserts demand of the caller is undefined otherwise, the value \<open>None\<close>.
  Lock counts are whole numbers: they count handles and pointers, which are fewer than \<open>2 ^ 64\<close>.
\<close>

section \<open>Routines\<close>

record routine_t =
  has_routine :: bool
  lock_count :: int
  priority :: nat
  warp :: "nat option"
  next_tasks :: "nat option list"

type_synonym routines = "routine_t option list"

text \<open>
  The dispatcher. \<open>posted\<close> holds what was given to the worker or to a warp. The rest is not part of the object: \<open>handles\<close> counts the
  handles the clients hold, \<open>with_function\<close>, \<open>started\<close> and \<open>retired\<close> log the routines allocated with a function, those whose function was called and those that
  released their successors, \<open>ordered\<close> the calls of \<open>order\<close> with the mark whether the second routine had not started yet.
\<close>

record dispatcher_t =
  routines :: routines
  pending_count :: nat
  posted :: "nat list"
  completions :: nat
  handles :: "nat \<Rightarrow> nat"
  with_function :: "nat list"
  started :: "nat list"
  retired :: "nat list"
  ordered :: "(nat \<times> nat \<times> bool) list"

definition dispatcher_init :: dispatcher_t where
  "dispatcher_init = \<lparr>routines = [], pending_count = 0, posted = [], completions = 0, handles = (\<lambda>_. 0), with_function = [],
     started = [], retired = [], ordered = []\<rparr>"

definition routine_at :: "routines \<Rightarrow> nat \<Rightarrow> routine_t option" where
  "routine_at rs i = (if i < length rs then rs ! i else None)"

definition routine_make :: "bool \<Rightarrow> nat option \<Rightarrow> nat \<Rightarrow> routine_t" where
  "routine_make f w p = \<lparr>has_routine = f, lock_count = 1, priority = p, warp = w, next_tasks = replicate 4 None\<rparr>"

definition set_routine :: "nat \<Rightarrow> routine_t \<Rightarrow> dispatcher_t \<Rightarrow> dispatcher_t" where
  "set_routine i r d = d\<lparr>routines := (routines d)[i := Some r]\<rparr>"

section \<open>Operations of the clients\<close>

text \<open>\<open>allocate\<close>: the handle is returned.\<close>

definition allocate :: "nat option \<Rightarrow> bool \<Rightarrow> nat \<Rightarrow> dispatcher_t \<Rightarrow> nat \<times> dispatcher_t" where
  "allocate w f p d =
     (length (routines d), d\<lparr>routines := routines d @ [Some (routine_make f w p)], pending_count := pending_count d + 1\<rparr>)"

text \<open>The check for cycles: \<open>from\<close> must not be met in a walk over all successors of the routines of the list.\<close>

partial_function (option) validate :: "routines \<Rightarrow> nat \<Rightarrow> nat list \<Rightarrow> unit option" where
  "validate rs from ts =
     (case ts of
        [] \<Rightarrow> Some ()
      | t # ts \<Rightarrow>
          if t = from then None
          else case routine_at rs t of
                 None \<Rightarrow> None
               | Some r \<Rightarrow> validate rs from (map the (filter (\<lambda>p. p \<noteq> None) (next_tasks r)) @ ts))"

fun free_slot :: "nat \<Rightarrow> nat option list \<Rightarrow> nat option" where
  "free_slot i [] = None"
| "free_slot i (p # ps) = (if p = None then Some i else free_slot (Suc i) ps)"

definition add_lock :: "nat \<Rightarrow> dispatcher_t \<Rightarrow> dispatcher_t" where
  "add_lock i d =
     (case routine_at (routines d) i of None \<Rightarrow> d | Some r \<Rightarrow> set_routine i (r\<lparr>lock_count := lock_count r + 1\<rparr>) d)"

definition set_next :: "nat \<Rightarrow> nat \<Rightarrow> nat option \<Rightarrow> dispatcher_t \<Rightarrow> dispatcher_t" where
  "set_next i k p d =
     (case routine_at (routines d) i of None \<Rightarrow> d | Some r \<Rightarrow> set_routine i (r\<lparr>next_tasks := (next_tasks r)[k := p]\<rparr>) d)"

text \<open>The case of \<open>order_internal\<close> where all four slots are taken by routines: a junction takes over the first one.\<close>

definition add_junction :: "nat \<Rightarrow> nat \<Rightarrow> routine_t \<Rightarrow> dispatcher_t \<Rightarrow> dispatcher_t" where
  "add_junction from to r d =
     (let (p, d1) = allocate (warp r) False 0 (add_lock to d)
      in set_next from 0 (Some p) (set_next p 1 (Some to) (set_next p 0 (next_tasks r ! 0) d1)))"

partial_function (option) order_internal :: "nat \<Rightarrow> nat \<Rightarrow> dispatcher_t \<Rightarrow> dispatcher_t option" where
  "order_internal from to d =
     (case routine_at (routines d) from of
        None \<Rightarrow> None
      | Some r \<Rightarrow>
          if lock_count r = 0 \<or> (case routine_at (routines d) to of None \<Rightarrow> True | Some q \<Rightarrow> lock_count q = 0) then None
          else if validate (routines d) from [to] = None then None
          else case free_slot 0 (next_tasks r) of
                 Some i \<Rightarrow> Some (set_next from i (Some to) (add_lock to d))
               | None \<Rightarrow>
                   (case next_tasks r ! 0 of
                      None \<Rightarrow> None
                    | Some j \<Rightarrow>
                        (case routine_at (routines d) j of
                           None \<Rightarrow> None
                         | Some q \<Rightarrow> if \<not> has_routine q then order_internal j to d else Some (add_junction from to r d))))"

declare validate.simps [code] order_internal.simps [code]

definition order :: "nat \<Rightarrow> nat \<Rightarrow> dispatcher_t \<Rightarrow> dispatcher_t option" where
  "order from to d =
     map_option (\<lambda>d'. d'\<lparr>ordered := (from, to, to \<notin> set (started d)) # ordered d\<rparr>) (order_internal from to d)"

text \<open>\<open>defer\<close>: one more handle of the same routine.\<close>

definition defer_routine :: "nat \<Rightarrow> dispatcher_t \<Rightarrow> dispatcher_t" where
  "defer_routine i d = (add_lock i d)\<lparr>handles := (handles d)(i := handles d i + 1)\<rparr>"

section \<open>Execution\<close>

datatype frame = Exec nat | Run nat | Check nat | Loop nat nat

fun frame_id :: "frame \<Rightarrow> nat" where
  "frame_id (Exec i) = i"
| "frame_id (Run i) = i"
| "frame_id (Check i) = i"
| "frame_id (Loop i k) = i"

definition size_max :: int where
  "size_max = 2 ^ 64 - 1"

text \<open>
  \<open>dispatch\<close>: the count goes down, and the one who takes it to zero posts the routine, or, when it has no function, executes it at once: the
  calls to be made are returned.
\<close>

definition dispatch :: "nat \<Rightarrow> dispatcher_t \<Rightarrow> dispatcher_t \<times> frame list" where
  "dispatch i d =
     (case routine_at (routines d) i of
        None \<Rightarrow> (d, [])
      | Some r \<Rightarrow>
          let d1 = set_routine i (r\<lparr>lock_count := (if lock_count r = 0 then size_max else lock_count r - 1)\<rparr>) d
          in if lock_count r = 1 then if has_routine r then (d1\<lparr>posted := posted d1 @ [i]\<rparr>, []) else (d1, [Exec i])
             else (d1, []))"

text \<open>\<open>execute\<close>, one access at a time: the calls that take the place of the innermost one. The loop clears a slot before rather than after it dispatches the task in it; nobody reads it in between.\<close>

fun dag_execute_step :: "frame \<Rightarrow> dispatcher_t \<Rightarrow> (dispatcher_t \<times> frame list) option" where
  "dag_execute_step (Exec i) d =
     (case routine_at (routines d) i of
        None \<Rightarrow> None
      | Some r \<Rightarrow>
          if has_routine r then Some ((set_routine i (r\<lparr>has_routine := False\<rparr>) d)\<lparr>started := i # started d\<rparr>, [Run i])
          else Some (d, [Check i]))"
| "dag_execute_step (Run i) d = Some (d, [Check i])"
| "dag_execute_step (Check i) d =
     (case routine_at (routines d) i of
        None \<Rightarrow> None
      | Some r \<Rightarrow>
          if lock_count r \<noteq> 0 then Some (d, [])
          else Some ((set_routine i (r\<lparr>lock_count := size_max\<rparr>) d)\<lparr>retired := i # retired d\<rparr>, [Loop i 0]))"
| "dag_execute_step (Loop i k) d =
     (case routine_at (routines d) i of
        None \<Rightarrow> None
      | Some r \<Rightarrow>
          if k < length (next_tasks r) then
            (case next_tasks r ! k of
               None \<Rightarrow> Some (d, [Loop i (Suc k)])
             | Some p \<Rightarrow> let (d1, calls) = dispatch p (set_next i k None d) in Some (d1, calls @ [Loop i (Suc k)]))
          else Some (d\<lparr>routines := (routines d)[i := None], pending_count := pending_count d - 1,
                       completions := completions d + (if pending_count d = 1 then 1 else 0)\<rparr>, []))"

text \<open>
  The steps. A client uses handles it has; a running function may defer its own routine. Nothing in the code keeps a handle of a deferred routine from being
  dispatched while the function still runs, or before \<open>execute\<close> has looked at the count after it; the parameter \<open>apart\<close> says that the clients do not do this.
\<close>

inductive dag_step :: "bool \<Rightarrow> dispatcher_t \<times> frame list list \<Rightarrow> dispatcher_t \<times> frame list list \<Rightarrow> bool" for apart where
  allocate: "allocate w f p d = (i, d') \<Longrightarrow>
    dag_step apart (d, ts) (d'\<lparr>handles := (handles d)(i := 1), with_function := (if f then i # with_function d else with_function d)\<rparr>, ts)"
| order: "0 < handles d from \<Longrightarrow> 0 < handles d to \<Longrightarrow> order from to d = Some d' \<Longrightarrow> dag_step apart (d, ts) (d', ts)"
| deferred: "0 < handles d i \<or> (\<exists>fs \<in> set ts. Run i \<in> set fs) \<Longrightarrow> dag_step apart (d, ts) (defer_routine i d, ts)"
| dispatch: "t < length ts \<Longrightarrow> 0 < handles d i \<Longrightarrow> apart \<longrightarrow> (\<forall>fs \<in> set ts. Run i \<notin> set fs \<and> Check i \<notin> set fs) \<Longrightarrow>
    dispatch i (d\<lparr>handles := (handles d)(i := handles d i - 1)\<rparr>) = (d', calls) \<Longrightarrow>
    dag_step apart (d, ts) (d', ts[t := calls @ ts ! t])"
| pick: "t < length ts \<Longrightarrow> posted d = xs @ i # ys \<Longrightarrow> dag_step apart (d, ts) (d\<lparr>posted := xs @ ys\<rparr>, ts[t := Exec i # ts ! t])"
| run: "t < length ts \<Longrightarrow> ts ! t = f # fs \<Longrightarrow> dag_execute_step f d = Some (d', calls) \<Longrightarrow> dag_step apart (d, ts) (d', ts[t := calls @ fs])"

section \<open>The graph of the routines\<close>

definition edge :: "routines \<Rightarrow> (nat \<times> nat) set" where
  "edge rs = {(p, q). \<exists>r. routine_at rs p = Some r \<and> Some q \<in> set (next_tasks r)}"

text \<open>The number of slots that point to a routine.\<close>

definition links :: "nat \<Rightarrow> routine_t option \<Rightarrow> nat" where
  "links i r = (case r of None \<Rightarrow> 0 | Some r \<Rightarrow> count_list (next_tasks r) (Some i))"

definition edges :: "routines \<Rightarrow> nat \<Rightarrow> nat" where
  "edges rs i = (\<Sum>r \<leftarrow> rs. links i r)"

lemma routine_at_update: "routine_at (rs[i := x]) j = (if i = j \<and> i < length rs then x else routine_at rs j)"
  by (simp add: routine_at_def nth_list_update)

lemma routine_at_append: "routine_at (rs @ [x]) j = (if j = length rs then x else routine_at rs j)"
  by (auto simp: routine_at_def nth_append)

lemma routine_at_Some: "routine_at rs i = Some r \<Longrightarrow> i < length rs \<and> rs ! i = Some r"
  by (simp add: routine_at_def split: if_splits)

lemma routine_at_None: "routine_at rs i = None \<longleftrightarrow> i < length rs \<longrightarrow> rs ! i = None"
  by (simp add: routine_at_def)

lemma count_list_0_iff: "count_list xs y = 0 \<longleftrightarrow> y \<notin> set xs"
  by (induction xs) auto

lemma count_list_sum: "count_list xs z = (\<Sum>x \<leftarrow> xs. if x = z then 1 else 0)"
  by (induction xs) auto

lemma count_list_list_update:
  "k < length xs \<Longrightarrow> count_list (xs[k := y]) z + (if xs ! k = z then 1 else 0) = count_list xs z + (if y = z then 1 else 0)"
  unfolding count_list_sum by (rule sum_list_update_one)

lemma edges_0_iff: "edges rs i = 0 \<longleftrightarrow> i \<notin> Range (edge rs)"
proof -
  have "edges rs i = 0 \<longleftrightarrow> (\<forall>r \<in> set rs. links i r = 0)" by (auto simp: edges_def)
  also have "\<dots> \<longleftrightarrow> (\<forall>k < length rs. links i (rs ! k) = 0)" by (simp add: all_set_conv_all_nth)
  also have "\<dots> \<longleftrightarrow> i \<notin> Range (edge rs)"
    by (auto simp: edge_def routine_at_def links_def count_list_0_iff Range_iff split: option.splits if_splits)
  finally show ?thesis .
qed

lemma edges_update:
  "k < length rs \<Longrightarrow> edges (rs[k := x]) i + links i (rs ! k) = edges rs i + links i x"
  unfolding edges_def by (rule sum_list_update_one)

lemma edges_append: "edges (rs @ [x]) i = edges rs i + links i x"
  by (simp add: edges_def)

lemma edge_memberI: "routine_at rs p = Some r \<Longrightarrow> k < length (next_tasks r) \<Longrightarrow> next_tasks r ! k = Some q \<Longrightarrow> (p, q) \<in> edge rs"
  unfolding edge_def by (auto simp: in_set_conv_nth)

text \<open>A finite acyclic relation has a rank, and a relation with a rank is acyclic.\<close>

lemma acyclic_by_rank: "(\<And>x y. (x, y) \<in> E \<Longrightarrow> f x < (f y :: nat)) \<Longrightarrow> acyclic E"
proof (rule acyclicI, intro allI)
  fix z assume rank: "\<And>x y. (x, y) \<in> E \<Longrightarrow> f x < f y"
  have "f x < f y" if "(x, y) \<in> E\<^sup>+" for x y
    using that by (induction rule: trancl_induct) (auto dest: rank intro: less_trans)
  then show "(z, z) \<notin> E\<^sup>+" by blast
qed

lemma rank_of_acyclic:
  assumes "finite E" and "acyclic E"
  shows "\<exists>f :: 'a \<Rightarrow> nat. \<forall>x y. (x, y) \<in> E \<longrightarrow> f x < f y"
proof (intro exI allI impI)
  fix x y assume xy: "(x, y) \<in> E"
  have fin: "finite {w. (w, v) \<in> E\<^sup>+}" for v
    by (rule finite_subset [of _ "Domain (E\<^sup>+)"]) (blast, simp add: assms(1) finite_Domain)
  have "{w. (w, x) \<in> E\<^sup>+} \<subset> {w. (w, y) \<in> E\<^sup>+}"
    using xy assms(2) by (auto simp: acyclic_def intro: trancl_into_trancl)
  then show "card {w. (w, x) \<in> E\<^sup>+} < card {w. (w, y) \<in> E\<^sup>+}" by (rule psubset_card_mono [OF fin])
qed

lemma finite_edge: "finite (edge rs)"
proof -
  let ?targets = "\<Union>r \<in> {r. Some r \<in> set rs}. {q. Some q \<in> set (next_tasks r)}"
  have "finite {q. Some q \<in> set xs}" for xs :: "nat option list"
    by (rule finite_subset [of _ "the ` set xs"]) force+
  moreover have "finite {r. Some r \<in> set rs}" by (rule finite_subset [of _ "the ` set rs"]) force+
  ultimately have "finite ?targets" by blast
  moreover have "edge rs \<subseteq> {..<length rs} \<times> ?targets" by (auto simp: edge_def dest!: routine_at_Some) (metis nth_mem)
  ultimately show ?thesis by (metis finite_SigmaI finite_lessThan finite_subset)
qed

subsection \<open>The check for cycles\<close>

lemma next_ids: "set (map the (filter (\<lambda>p. p \<noteq> None) (next_tasks r))) = {q. Some q \<in> set (next_tasks r)}"
  by force

lemma validate_sound:
  assumes "validate rs source ts = Some u"
  shows "\<forall>t \<in> set ts. (t, source) \<notin> (edge rs)\<^sup>*"
proof (rule validate.raw_induct [of "\<lambda>rs source ts u. \<forall>t \<in> set ts. (t, source) \<notin> (edge rs)\<^sup>*", OF _ assms], goal_cases)
  case (1 check rs source ts u)
  show ?case
  proof (cases ts)
    case (Cons t rest)
    with 1(2) obtain r where ne: "t \<noteq> source" and r: "routine_at rs t = Some r"
      and rec: "check rs source (map the (filter (\<lambda>p. p \<noteq> None) (next_tasks r)) @ rest) = Some u"
      by (auto split: if_splits option.splits)
    from 1(1) [OF rec] have "\<forall>t \<in> {q. Some q \<in> set (next_tasks r)} \<union> set rest. (t, source) \<notin> (edge rs)\<^sup>*"
      unfolding next_ids [symmetric] by simp
    with ne r show ?thesis
      unfolding Cons by (auto simp: edge_def elim: converse_rtranclE)
  qed simp
qed

lemma validate_total:
  assumes "acyclic (edge rs)" and "\<And>p q. (p, q) \<in> edge rs \<Longrightarrow> routine_at rs q \<noteq> None"
    and "routine_at rs t \<noteq> None" and "(t, from) \<notin> (edge rs)\<^sup>*"
  shows "validate rs from (t # ts) = validate rs from ts"
proof -
  have "wf ((edge rs)\<inverse>)" by (rule finite_acyclic_wf_converse [OF finite_edge assms(1)])
  then show ?thesis using assms(3,4)
  proof (induction t arbitrary: ts rule: wf_induct_rule)
    case (less t)
    then obtain r where r: "routine_at rs t = Some r" by blast
    have "validate rs from (qs @ ts) = validate rs from ts" if "set qs \<subseteq> {q. Some q \<in> set (next_tasks r)}" for qs
      using that
    proof (induction qs)
      case (Cons q qs)
      have e: "(t, q) \<in> edge rs" using Cons.prems r by (auto simp: edge_def)
      then have "(q, from) \<notin> (edge rs)\<^sup>*" using less.prems(2) by (meson converse_rtrancl_into_rtrancl)
      with e assms(2) less.IH [of q "qs @ ts"] Cons show ?case by auto
    qed simp
    from this [OF next_ids [THEN equalityD1]] have "validate rs from (map the (filter (\<lambda>p. p \<noteq> None) (next_tasks r)) @ ts) = validate rs from ts" .
    moreover have "t \<noteq> from" using less.prems(2) by auto
    ultimately show ?case using r by (subst validate.simps) simp
  qed
qed

text \<open>On an acyclic graph the walk ends, and it succeeds exactly when the new edge closes no cycle.\<close>

lemma validate_correct:
  assumes "acyclic (edge rs)" and "\<And>p q. (p, q) \<in> edge rs \<Longrightarrow> routine_at rs q \<noteq> None" and "routine_at rs to \<noteq> None"
  shows "validate rs from [to] = Some () \<longleftrightarrow> acyclic (insert (from, to) (edge rs))"
proof
  assume "validate rs from [to] = Some ()"
  with assms(1) validate_sound show "acyclic (insert (from, to) (edge rs))" by (fastforce simp: acyclic_insert)
next
  assume "acyclic (insert (from, to) (edge rs))"
  then have "(to, from) \<notin> (edge rs)\<^sup>*" by (auto simp: acyclic_insert)
  with validate_total [OF assms] show "validate rs from [to] = Some ()" by (simp add: validate.simps)
qed

section \<open>How the operations change the graph\<close>

lemma edge_routine_update:
  "routine_at rs i = Some r \<Longrightarrow>
   edge (rs[i := Some r']) = {(p, q). (p, q) \<in> edge rs \<and> p \<noteq> i} \<union> {(i, q) |q. Some q \<in> set (next_tasks r')}"
  by (auto simp: edge_def routine_at_update dest: routine_at_Some split: if_splits)

lemma edges_routine_update:
  "routine_at rs i = Some r \<Longrightarrow>
   edges (rs[i := Some r']) j + count_list (next_tasks r) (Some j) = edges rs j + count_list (next_tasks r') (Some j)"
  using edges_update [of i rs "Some r'" j] by (auto simp: links_def dest!: routine_at_Some)

lemma same_next_graph:
  assumes "routine_at rs i = Some r" and "next_tasks r' = next_tasks r"
  shows "edge (rs[i := Some r']) = edge rs" and "edges (rs[i := Some r']) = edges rs"
proof -
  show "edge (rs[i := Some r']) = edge rs"
    unfolding edge_routine_update [OF assms(1)] using assms by (auto simp: edge_def)
  show "edges (rs[i := Some r']) = edges rs"
    using edges_routine_update [OF assms(1), of r'] assms(2) by auto
qed

lemma routine_at_length [simp]: "routine_at rs (length rs) = None"
  by (simp add: routine_at_def)

lemma fresh_graph:
  "edge (rs @ [Some (routine_make f w p)]) = edge rs" "edges (rs @ [Some (routine_make f w p)]) = edges rs"
  by (auto simp: edge_def routine_at_append routine_make_def edges_append links_def count_list_0_iff split: if_splits)

lemma slot_update_edges:
  assumes "routine_at rs i = Some r" and "k < length (next_tasks r)"
  shows "edges (rs[i := Some (r\<lparr>next_tasks := (next_tasks r)[k := p]\<rparr>)]) j + (if next_tasks r ! k = Some j then 1 else 0) =
    edges rs j + (if p = Some j then 1 else 0)"
  using edges_routine_update [OF assms(1), of "r\<lparr>next_tasks := (next_tasks r)[k := p]\<rparr>" j]
    count_list_list_update [OF assms(2), of p "Some j"] by simp

lemma slot_clear_edge:
  assumes "routine_at rs i = Some r"
  shows "edge (rs[i := Some (r\<lparr>next_tasks := (next_tasks r)[k := None]\<rparr>)]) \<subseteq> edge rs"
    and "(p, q) \<in> edge rs \<Longrightarrow> p \<noteq> i \<Longrightarrow> (p, q) \<in> edge (rs[i := Some (r\<lparr>next_tasks := (next_tasks r)[k := None]\<rparr>)])"
  unfolding edge_routine_update [OF assms] using assms
  by (auto simp: edge_def dest: set_update_subset_insert [THEN subsetD])

lemma slot_fill_edge:
  assumes "routine_at rs i = Some r" and "k < length (next_tasks r)" and "next_tasks r ! k = None"
  shows "edge (rs[i := Some (r\<lparr>next_tasks := (next_tasks r)[k := Some q]\<rparr>)]) = insert (i, q) (edge rs)"
proof -
  have "Some z \<in> set ((next_tasks r)[k := Some q]) \<longleftrightarrow> z = q \<or> Some z \<in> set (next_tasks r)" for z
    using assms(2,3) by (metis in_set_conv_nth length_list_update nth_list_update option.distinct(1) option.inject)
  then show ?thesis unfolding edge_routine_update [OF assms(1)] using assms(1) by (auto simp: edge_def)
qed

lemma free_slot_Some: "free_slot n ps = Some k \<Longrightarrow> n \<le> k \<and> k < n + length ps \<and> ps ! (k - n) = None"
  by (induction n ps rule: free_slot.induct) (auto split: if_splits simp: Suc_diff_le not_less_eq_eq nth_Cons')

lemma free_slot_None: "free_slot n ps = None \<Longrightarrow> None \<notin> set ps"
  by (induction n ps rule: free_slot.induct) (auto split: if_splits)

section \<open>The invariant of the locks\<close>

text \<open>
  A token of a routine is what keeps it from being executed: a handle, a slot that points to it, or, in the middle of a step, the reference that is about to be
  dispatched.
\<close>

definition tokens :: "nat option \<Rightarrow> dispatcher_t \<Rightarrow> nat \<Rightarrow> nat" where
  "tokens x d i = handles d i + edges (routines d) i + (if x = Some i then 1 else 0)"

definition alive :: "dispatcher_t \<Rightarrow> nat \<Rightarrow> bool" where
  "alive d i \<longleftrightarrow> routine_at (routines d) i \<noteq> None"

text \<open>The lock count of a routine that has not released its successors is the number of its tokens; the others have none.\<close>

definition lock_inv :: "nat option \<Rightarrow> dispatcher_t \<Rightarrow> bool" where
  "lock_inv x d \<longleftrightarrow>
     (\<forall>i r. routine_at (routines d) i = Some r \<longrightarrow>
        length (next_tasks r) = 4 \<and> (i \<notin> set (retired d) \<longrightarrow> lock_count r = int (tokens x d i))) \<and>
     (\<forall>i. 0 < tokens x d i \<longrightarrow> alive d i \<and> i \<notin> set (retired d))"

text \<open>What holds of a routine that is posted or that a thread works on.\<close>

fun frame_ok :: "nat option \<Rightarrow> dispatcher_t \<Rightarrow> frame \<Rightarrow> bool" where
  "frame_ok x d (Exec i) = (alive d i \<and> i \<notin> set (retired d) \<and> tokens x d i = 0)"
| "frame_ok x d (Run i) = (alive d i \<and> i \<notin> set (retired d) \<and> (0 < tokens x d i \<longrightarrow> 0 < handles d i))"
| "frame_ok x d (Check i) = (alive d i \<and> i \<notin> set (retired d) \<and> (0 < tokens x d i \<longrightarrow> 0 < handles d i))"
| "frame_ok x d (Loop i k) =
     (i \<in> set (retired d) \<and> (\<exists>r. routine_at (routines d) i = Some r \<and> k \<le> 4 \<and> (\<forall>j < k. next_tasks r ! j = None)))"

text \<open>A routine without a token is attended to, and so is one that releases its successors; nobody works twice on a routine.\<close>

definition work_inv :: "nat option \<Rightarrow> dispatcher_t \<Rightarrow> frame multiset \<Rightarrow> bool" where
  "work_inv x d W \<longleftrightarrow>
     (\<forall>f \<in># W. frame_ok x d f) \<and> (\<forall>i. count (image_mset frame_id W) i \<le> 1) \<and>
     (\<forall>i. alive d i \<and> (tokens x d i = 0 \<or> i \<in> set (retired d)) \<longrightarrow> i \<in># image_mset frame_id W)"

definition core_inv :: "nat option \<Rightarrow> dispatcher_t \<Rightarrow> frame multiset \<Rightarrow> bool" where
  "core_inv x d W \<longleftrightarrow> lock_inv x d \<and> work_inv x d W \<and> acyclic (edge (routines d)) \<and>
     (\<forall>i \<in> set (retired d). i < length (routines d))"

lemma frame_ok_alive: "frame_ok x d f \<Longrightarrow> alive d (frame_id f)"
  by (cases f) (auto simp: alive_def)

lemma frame_ok_retired: "frame_ok x d f \<Longrightarrow> frame_id f \<in> set (retired d) \<longleftrightarrow> (\<exists>i k. f = Loop i k)"
  by (cases f) auto

lemma work_frame_unique:
  assumes "work_inv x d W" and "f \<in># W" "g \<in># W" and "frame_id f = frame_id g"
  shows "f = g"
proof (rule ccontr)
  assume "f \<noteq> g"
  with assms(2,3) obtain V where "W = add_mset f (add_mset g V)" by (metis insert_noteq_member multi_member_split)
  then have "count (image_mset frame_id W) (frame_id f) \<ge> 2" using assms(4) by simp
  with assms(1) show False unfolding work_inv_def by (metis Suc_1 not_less_eq_eq)
qed

text \<open>The posted routines and the logs of what started and was ordered do not matter.\<close>

lemma core_inv_cong:
  assumes "routines d' = routines d" and "handles d' = handles d" and "retired d' = retired d"
  shows "core_inv x d' W = core_inv x d W"
proof -
  have "frame_ok x d' f = frame_ok x d f" for f using assms by (cases f) (auto simp: alive_def tokens_def)
  with assms show ?thesis by (simp add: core_inv_def lock_inv_def work_inv_def alive_def tokens_def)
qed

lemma core_frame: "core_inv x d W \<Longrightarrow> f \<in># W \<Longrightarrow> frame_ok x d f"
  unfolding core_inv_def work_inv_def by blast

lemma core_token: "core_inv x d W \<Longrightarrow> 0 < tokens x d i \<Longrightarrow> alive d i \<and> i \<notin> set (retired d)"
  unfolding core_inv_def lock_inv_def by blast

lemma core_routine:
  "core_inv x d W \<Longrightarrow> routine_at (routines d) i = Some r \<Longrightarrow>
   length (next_tasks r) = 4 \<and> (i \<notin> set (retired d) \<longrightarrow> lock_count r = int (tokens x d i))"
  unfolding core_inv_def lock_inv_def by blast

subsection \<open>Dispatching\<close>

lemma dispatch_core:
  assumes inv: "core_inv (Some i) d W" and disp: "dispatch i d = (d', calls)"
  shows "\<exists>ps. posted d' = posted d @ ps \<and> core_inv None d' (W + mset (map Exec ps @ calls))"
proof -
  have pos: "0 < tokens (Some i) d i" by (simp add: tokens_def)
  with inv have ali: "alive d i" and act: "i \<notin> set (retired d)" unfolding core_inv_def lock_inv_def by blast+
  then obtain r where r: "routine_at (routines d) i = Some r" by (auto simp: alive_def)
  with inv act have lock: "lock_count r = int (tokens (Some i) d i)" unfolding core_inv_def lock_inv_def by blast
  define r' where "r' = r\<lparr>lock_count := lock_count r - 1\<rparr>"
  define d1 where "d1 = set_routine i r' d"
  note same = same_next_graph [OF r, of r', unfolded r'_def, simplified]
  have graph: "edge (routines d1) = edge (routines d)" "edges (routines d1) = edges (routines d)"
    using same by (simp_all add: d1_def set_routine_def r'_def)
  have fields: "handles d1 = handles d" "retired d1 = retired d" "posted d1 = posted d" by (simp_all add: d1_def set_routine_def)
  have at: "routine_at (routines d1) j = (if j = i then Some r' else routine_at (routines d) j)" for j
    using routine_at_Some [OF r] by (auto simp: d1_def set_routine_def routine_at_update)
  have tok: "tokens None d1 j = tokens (Some i) d j - (if j = i then 1 else 0)" for j
    by (simp add: tokens_def graph fields)
  have al: "alive d1 j = alive d j" for j using r by (simp add: alive_def at)
  define N where "N = (if lock_count r = 1 then {#Exec i#} else {#})"
  have res: "(d', calls) = (if lock_count r = 1 then if has_routine r then (d1\<lparr>posted := posted d1 @ [i]\<rparr>, []) else (d1, [Exec i]) else (d1, []))"
    using disp r pos lock by (simp add: dispatch_def Let_def d1_def r'_def split: if_splits)
  have lock': "lock_inv None d1"
    using inv pos lock r unfolding core_inv_def lock_inv_def by (auto simp: at tok al fields r'_def split: if_splits)
  have old: "frame_ok (Some i) d f" if "f \<in># W" for f using inv that by (simp add: core_inv_def work_inv_def)
  have okay: "frame_ok None d1 f" if "f \<in># W" for f
    using old [OF that] r act by (cases f) (auto simp: at tok al fields r'_def)
  have absent: "i \<notin># image_mset frame_id W" if "lock_count r = 1"
  proof
    assume "i \<in># image_mset frame_id W"
    then obtain f where f: "f \<in># W" "frame_id f = i" by auto
    with old [OF f(1)] act pos lock that show False by (cases f) (auto simp: tokens_def)
  qed
  have work': "work_inv None d1 (W + N)"
    using inv okay absent lock act ali unfolding core_inv_def work_inv_def N_def
    by (auto simp: tok al fields not_in_iff split: if_splits)
  have core: "core_inv None d1 (W + N)" using lock' work' inv graph by (simp add: core_inv_def d1_def set_routine_def)
  have core_posted: "core_inv None (d1\<lparr>posted := ps\<rparr>) V = core_inv None d1 V" for ps V
    by (rule core_inv_cong) simp_all
  show ?thesis
    using core res core_posted by (auto simp: N_def fields split: if_splits intro!: exI [of _ "[i]"])
qed

subsection \<open>Steps that keep the tokens or add some\<close>

lemma core_transfer:
  assumes inv: "core_inv x d W" and al: "\<And>j. alive d' j = alive d j" and ret: "retired d' = retired d"
    and locks: "\<And>j r'. routine_at (routines d') j = Some r' \<Longrightarrow>
      length (next_tasks r') = 4 \<and> (j \<notin> set (retired d) \<longrightarrow> lock_count r' = int (tokens x' d' j))"
    and tok: "\<And>j. tokens x' d' j = tokens x d j \<or>
      alive d j \<and> j \<notin> set (retired d) \<and> 0 < tokens x' d' j \<and> 0 < handles d' j \<and> Exec j \<notin># W"
    and hand: "\<And>j. 0 < handles d j \<Longrightarrow> 0 < handles d' j \<or> Run j \<notin># W \<and> Check j \<notin># W"
    and slots: "\<And>j k r' l. Loop j k \<in># W \<Longrightarrow> routine_at (routines d') j = Some r' \<Longrightarrow> l < k \<Longrightarrow> next_tasks r' ! l = None"
    and acyc: "acyclic (edge (routines d'))" and len: "length (routines d') = length (routines d)"
  shows "core_inv x' d' W"
proof -
  have pos: "alive d j \<and> j \<notin> set (retired d)" if "0 < tokens x d j" for j
    using inv that by (auto simp: core_inv_def lock_inv_def)
  have "lock_inv x' d'"
    unfolding lock_inv_def al ret using locks tok pos by metis
  moreover have "frame_ok x' d' f" if "f \<in># W" for f
  proof -
    have old: "frame_ok x d f" by (rule core_frame [OF inv that])
    show ?thesis
    proof (cases f)
      case (Loop j k)
      then obtain r' where "routine_at (routines d') j = Some r'" using old al [of j] by (auto simp: alive_def)
      with Loop old ret slots that show ?thesis by auto
    next
      case (Exec j)
      with old that tok [of j] al ret show ?thesis by auto
    next
      case (Run j)
      with old that tok [of j] hand [of j] al ret show ?thesis by auto
    next
      case (Check j)
      with old that tok [of j] hand [of j] al ret show ?thesis by auto
    qed
  qed
  moreover have "j \<in># image_mset frame_id W" if "alive d' j" "tokens x' d' j = 0 \<or> j \<in> set (retired d')" for j
    using inv that tok [of j] unfolding core_inv_def work_inv_def al ret by fastforce
  ultimately show ?thesis using inv acyc unfolding core_inv_def work_inv_def len ret by blast
qed

lemma core_use_handle:
  assumes "core_inv None d W" and "0 < handles d i" and "Run i \<notin># W" and "Check i \<notin># W"
  shows "core_inv (Some i) (d\<lparr>handles := (handles d)(i := handles d i - 1)\<rparr>) W"
proof (rule core_transfer [OF assms(1)], goal_cases)
  case (3 j r)
  then show ?case using assms by (auto simp: core_inv_def lock_inv_def tokens_def)
next
  case (6 j k r l)
  then show ?case using assms(1) by (fastforce simp: core_inv_def work_inv_def)
qed (use assms in \<open>auto simp: alive_def tokens_def core_inv_def\<close>)

lemma core_loop_next:
  assumes "core_inv x d (add_mset (Loop i k) V)" and "routine_at (routines d) i = Some r" and "next_tasks r ! k = None" and "k < 4"
  shows "core_inv x d (add_mset (Loop i (Suc k)) V)"
  using assms by (auto simp: core_inv_def work_inv_def less_Suc_eq)

lemma core_clear_slot:
  assumes inv: "core_inv None d W" and loop: "Loop i k \<in># W" and r: "routine_at (routines d) i = Some r"
    and k: "k < 4" and p: "next_tasks r ! k = Some p"
  shows "core_inv (Some p) (set_next i k None d) W"
proof -
  let ?d' = "set_next i k None d"
  have len: "length (next_tasks r) = 4" using inv r by (auto simp: core_inv_def lock_inv_def)
  have ret: "i \<in> set (retired d)" using inv loop by (auto simp: core_inv_def work_inv_def)
  have rs: "routines ?d' = (routines d)[i := Some (r\<lparr>next_tasks := (next_tasks r)[k := None]\<rparr>)]"
    and fields: "retired ?d' = retired d" "handles ?d' = handles d"
    using r by (simp_all add: set_next_def set_routine_def)
  have at: "routine_at (routines ?d') j = (if j = i then Some (r\<lparr>next_tasks := (next_tasks r)[k := None]\<rparr>) else routine_at (routines d) j)" for j
    using routine_at_Some [OF r] by (simp add: rs routine_at_update)
  have size: "length (routines ?d') = length (routines d)" by (simp add: rs)
  have tok: "tokens (Some p) ?d' j = tokens None d j" for j
    using slot_update_edges [OF r, of k None j] k len p by (auto simp: tokens_def fields rs split: if_splits)
  show ?thesis
  proof (rule core_transfer [OF inv], goal_cases)
    case (3 j r')
    then show ?case using inv len ret by (auto simp: at tok core_inv_def lock_inv_def split: if_splits)
  next
    case (6 j m r' l)
    have "frame_ok None d (Loop j m)" by (rule core_frame [OF inv 6(1)])
    with 6(2,3) r len k show ?case by (auto simp: at nth_list_update split: if_splits)
  next
    case 7
    show ?case using inv acyclic_subset [OF _ slot_clear_edge(1) [OF r]] by (simp add: core_inv_def rs)
  qed (use r in \<open>auto simp: alive_def at tok fields size\<close>)
qed

lemma core_defer:
  assumes inv: "core_inv None d W" and ok: "0 < handles d i \<or> Run i \<in># W"
  shows "core_inv None (defer_routine i d) W"
proof -
  let ?d' = "defer_routine i d"
  have "alive d i \<and> i \<notin> set (retired d) \<and> Exec i \<notin># W"
  proof (cases "Run i \<in># W")
    case True
    from core_frame [OF inv this] have "frame_ok None d (Run i)" .
    moreover have "Exec i \<notin># W"
      using work_frame_unique [of None d W "Run i" "Exec i"] True inv by (auto simp: core_inv_def)
    ultimately show ?thesis by simp
  next
    case False
    with ok have "0 < tokens None d i" by (simp add: tokens_def)
    with inv show ?thesis by (fastforce simp: core_inv_def lock_inv_def work_inv_def)
  qed
  then obtain r where r: "routine_at (routines d) i = Some r" and act: "i \<notin> set (retired d)" "Exec i \<notin># W" by (auto simp: alive_def)
  have rs: "routines ?d' = (routines d)[i := Some (r\<lparr>lock_count := lock_count r + 1\<rparr>)]"
    and fields: "retired ?d' = retired d" "handles ?d' = (handles d)(i := handles d i + 1)"
    using r by (simp_all add: defer_routine_def add_lock_def set_routine_def)
  note graph = same_next_graph [OF r, of "r\<lparr>lock_count := lock_count r + 1\<rparr>", simplified]
  have at: "routine_at (routines ?d') j = (if j = i then Some (r\<lparr>lock_count := lock_count r + 1\<rparr>) else routine_at (routines d) j)" for j
    using routine_at_Some [OF r] by (simp add: rs routine_at_update)
  have size: "length (routines ?d') = length (routines d)" by (simp add: rs)
  have tok: "tokens None ?d' j = tokens None d j + (if j = i then 1 else 0)" for j
    using graph by (simp add: tokens_def fields rs)
  show ?thesis
  proof (rule core_transfer [OF inv], goal_cases)
    case (3 j r')
    then show ?case using inv r act by (auto simp: at tok core_inv_def lock_inv_def split: if_splits)
  next
    case (6 j m r' l)
    have "frame_ok None d (Loop j m)" by (rule core_frame [OF inv 6(1)])
    with 6(2,3) act show ?case by (auto simp: at split: if_splits)
  next
    case 7
    show ?case using inv graph by (simp add: core_inv_def rs)
  qed (use r act in \<open>auto simp: alive_def at tok fields size\<close>)
qed

subsection \<open>New routines\<close>

text \<open>A new routine comes with one reference, which is the value \<open>allocate\<close> returns.\<close>

lemma core_fresh:
  assumes inv: "core_inv None d W" and new: "allocate w f p d = (n, d')"
  shows "core_inv (Some n) d' W"
proof -
  have d': "n = length (routines d)" "d' = d\<lparr>routines := routines d @ [Some (routine_make f w p)], pending_count := pending_count d + 1\<rparr>"
    using new by (auto simp: allocate_def)
  have dead: "\<not> alive d n" by (simp add: alive_def d'(1))
  then have none: "tokens None d n = 0" using core_token [OF inv, of n] by blast
  have at: "routine_at (routines d') j = (if j = n then Some (routine_make f w p) else routine_at (routines d) j)" for j
    by (simp add: d' routine_at_append)
  have al: "alive d' j \<longleftrightarrow> j = n \<or> alive d j" for j by (simp add: alive_def at)
  have graph: "edge (routines d') = edge (routines d)" "edges (routines d') = edges (routines d)" by (simp_all add: d'(2) fresh_graph)
  have fields: "retired d' = retired d" "handles d' = handles d" by (simp_all add: d'(2))
  have tok: "tokens (Some n) d' j = tokens None d j + (if j = n then 1 else 0)" for j by (simp add: tokens_def graph fields)
  have noframe: "frame_id g \<noteq> n" if "g \<in># W" for g using frame_ok_alive [OF core_frame [OF inv that]] dead by auto
  have act: "n \<notin> set (retired d)" using inv by (auto simp: core_inv_def d'(1))
  have frames: "frame_ok (Some n) d' g" if "g \<in># W" for g
    using core_frame [OF inv that] noframe [OF that] by (cases g) (auto simp: at al tok fields)
  have "lock_inv (Some n) d'"
    using inv act none unfolding core_inv_def lock_inv_def
    by (auto simp: at al tok fields routine_make_def split: if_splits)
  moreover have "work_inv (Some n) d' W"
    using inv frames unfolding core_inv_def work_inv_def by (auto simp: al tok fields act split: if_splits)
  moreover have "length (routines d') = Suc (length (routines d))" by (simp add: d'(2))
  ultimately show ?thesis using inv by (auto simp: core_inv_def graph fields less_SucI)
qed

lemma core_keep_handle:
  assumes inv: "core_inv (Some n) d W" and new: "handles d n = 0" "edges (routines d) n = 0"
  shows "core_inv None (d\<lparr>handles := (handles d)(n := 1)\<rparr>) W"
proof (rule core_transfer [OF inv], goal_cases)
  case (3 j r)
  then show ?case using core_routine [OF inv, of j r] new by (auto simp: tokens_def)
next
  case (6 j k r l)
  with core_frame [OF inv 6(1)] show ?case by auto
qed (use inv new in \<open>auto simp: alive_def tokens_def core_inv_def\<close>)

subsection \<open>Ordering\<close>

lemma core_add_edge:
  assumes inv: "core_inv None d W" and to: "0 < handles d to" and r: "routine_at (routines d) i = Some r"
    and k: "k < length (next_tasks r)" "next_tasks r ! k = None" and act: "i \<notin> set (retired d)"
    and acyc: "acyclic (insert (i, to) (edge (routines d)))"
  shows "core_inv None (set_next i k (Some to) (add_lock to d)) W"
    and "edge (routines (set_next i k (Some to) (add_lock to d))) = insert (i, to) (edge (routines d))"
proof -
  let ?d' = "set_next i k (Some to) (add_lock to d)"
  have ne: "i \<noteq> to" using acyc by (auto simp: acyclic_def)
  have pos: "0 < tokens None d to" using to by (simp add: tokens_def)
  with core_token [OF inv] obtain q where q: "routine_at (routines d) to = Some q" and qact: "to \<notin> set (retired d)"
    by (auto simp: alive_def)
  let ?rs1 = "(routines d)[to := Some (q\<lparr>lock_count := lock_count q + 1\<rparr>)]"
  let ?r' = "r\<lparr>next_tasks := (next_tasks r)[k := Some to]\<rparr>"
  have r1: "routine_at ?rs1 i = Some r" using r ne by (simp add: routine_at_update)
  have rs: "routines ?d' = ?rs1[i := Some ?r']" and fields: "retired ?d' = retired d" "handles ?d' = handles d"
    using q r1 by (simp_all add: add_lock_def set_next_def set_routine_def)
  note graph1 = same_next_graph [OF q, of "q\<lparr>lock_count := lock_count q + 1\<rparr>", simplified]
  have at: "routine_at (routines ?d') j =
      (if j = i then Some ?r' else if j = to then Some (q\<lparr>lock_count := lock_count q + 1\<rparr>) else routine_at (routines d) j)" for j
    using routine_at_Some [OF r] routine_at_Some [OF q] by (simp add: rs routine_at_update)
  have size: "length (routines ?d') = length (routines d)" by (simp add: rs)
  show edge': "edge (routines ?d') = insert (i, to) (edge (routines d))"
    unfolding rs slot_fill_edge [OF r1 k] using graph1 by simp
  have tok: "tokens None ?d' j = tokens None d j + (if j = to then 1 else 0)" for j
    using slot_update_edges [OF r1 k(1), of "Some to" j] k(2) by (simp add: tokens_def fields rs graph1)
  show "core_inv None ?d' W"
  proof (rule core_transfer [OF inv], goal_cases)
    case (3 j r')
    then show ?case using core_routine [OF inv] r q qact act by (auto simp: at tok ne split: if_splits)
  next
    case (4 j)
    show ?case using core_token [OF inv pos] to core_frame [OF inv, of "Exec to"] pos by (auto simp: tok fields)
  next
    case (6 j m r' l)
    with core_frame [OF inv 6(1)] act qact show ?case by (auto simp: at split: if_splits)
  next
    case 7
    show ?case using acyc by (simp add: edge')
  qed (use r q in \<open>auto simp: alive_def at fields size\<close>)
qed

text \<open>A junction: the routines afterwards, the graph, and that the ranks leave room for it.\<close>

definition junction_of :: "nat option \<Rightarrow> nat \<Rightarrow> nat \<Rightarrow> routine_t" where
  "junction_of w y to = (routine_make False w 0)\<lparr>next_tasks := [Some y, Some to, None, None]\<rparr>"

lemma add_junction_routines:
  assumes "routine_at (routines d) i = Some r" and "next_tasks r ! 0 = Some y" and "routine_at (routines d) to = Some q" and "i \<noteq> to"
  shows "add_junction i to r d = d\<lparr>routines :=
      ((routines d)[to := Some (q\<lparr>lock_count := lock_count q + 1\<rparr>)] @ [Some (junction_of (warp r) y to)])
        [i := Some (r\<lparr>next_tasks := (next_tasks r)[0 := Some (length (routines d))]\<rparr>)],
      pending_count := pending_count d + 1\<rparr>"
  using assms routine_at_Some [OF assms(1)]
  by (simp add: add_junction_def allocate_def add_lock_def set_next_def set_routine_def routine_at_append routine_at_update
      junction_of_def routine_make_def eval_nat_numeral list_update_append)

lemma junction_edge:
  assumes "routine_at rs i = Some r" and "next_tasks r ! 0 = Some y" and "0 < length (next_tasks r)"
    and "routine_at rs to = Some q" and "i \<noteq> to" and "next_tasks q' = next_tasks q"
  defines "rs' \<equiv> (rs[to := Some q'] @ [Some (junction_of (warp r) y to)])[i := Some (r\<lparr>next_tasks := (next_tasks r)[0 := Some (length rs)]\<rparr>)]"
  shows "edge rs \<subseteq> (edge rs')\<^sup>+" and "(i, to) \<in> (edge rs')\<^sup>+"
    and "edge rs' \<subseteq> {(p, z) \<in> edge rs. p \<noteq> i} \<union> insert (i, length rs) {(i, z) |z. (i, z) \<in> edge rs} \<union> {(length rs, y), (length rs, to)}"
proof -
  have at: "routine_at rs' j = (if j = i then Some (r\<lparr>next_tasks := (next_tasks r)[0 := Some (length rs)]\<rparr>)
      else if j = to then Some q' else if j = length rs then Some (junction_of (warp r) y to) else routine_at rs j)" for j
    using routine_at_Some [OF assms(1)] routine_at_Some [OF assms(4)]
    by (simp add: rs'_def routine_at_update routine_at_append)
  have ne: "i \<noteq> length rs" "to \<noteq> length rs" using routine_at_Some [OF assms(1)] routine_at_Some [OF assms(4)] by auto
  have j: "(length rs, y) \<in> edge rs'" "(length rs, to) \<in> edge rs'" "(i, length rs) \<in> edge rs'"
    using ne assms(3) by (auto simp: edge_def at junction_of_def set_update_memI)
  then show "(i, to) \<in> (edge rs')\<^sup>+" by (meson trancl.simps)
  have "(i, y) \<in> (edge rs')\<^sup>+" using j by (meson trancl.simps)
  moreover have "(p, z) \<in> edge rs'" if "(p, z) \<in> edge rs" "\<not> (p = i \<and> z = y)" for p z
  proof (cases "p = i")
    case True
    with that assms(1) obtain k where "k < length (next_tasks r)" "next_tasks r ! k = Some z"
      by (auto simp: edge_def in_set_conv_nth)
    moreover from this that True assms(2) have "k \<noteq> 0" by (metis option.inject)
    ultimately show ?thesis unfolding edge_def using True at [of i]
      by (auto simp: in_set_conv_nth intro!: exI [of _ k])
  next
    case False
    with that(1) show ?thesis using assms(4,6) ne by (auto simp: edge_def at dest: routine_at_Some)
  qed
  ultimately show "edge rs \<subseteq> (edge rs')\<^sup>+" by fast
  show "edge rs' \<subseteq> {(p, z) \<in> edge rs. p \<noteq> i} \<union> insert (i, length rs) {(i, z) |z. (i, z) \<in> edge rs} \<union> {(length rs, y), (length rs, to)}"
  proof (clarify del: UnCI)
    fix p z assume "(p, z) \<in> edge rs'"
    then obtain s where s: "routine_at rs' p = Some s" "Some z \<in> set (next_tasks s)" by (auto simp: edge_def)
    show "(p, z) \<in> {(p, z) \<in> edge rs. p \<noteq> i} \<union> insert (i, length rs) {(i, z) |z. (i, z) \<in> edge rs} \<union> {(length rs, y), (length rs, to)}"
    proof (cases "p = i")
      case True
      with s at [of i] have "Some z \<in> set ((next_tasks r)[0 := Some (length rs)])" by auto
      from set_update_subset_insert [THEN subsetD, OF this] have "z = length rs \<or> Some z \<in> set (next_tasks r)" by simp
      with True assms(1) show ?thesis by (auto simp: edge_def)
    next
      case False
      with s ne assms(4,6) show ?thesis by (auto simp: edge_def at junction_of_def split: if_splits)
    qed
  qed
qed

lemma junction_acyclic:
  assumes sub: "E' \<subseteq> {(p, z) \<in> E. p \<noteq> i} \<union> insert (i, n) {(i, z) |z. (i, z) \<in> E} \<union> {(n, y), (n, to)}"
    and E: "finite E" "acyclic (insert (i, to) E)" "(i, y) \<in> E" and n: "n \<notin> Domain E" "n \<notin> Range E" "n \<noteq> i" "n \<noteq> to"
  shows "acyclic E'"
proof -
  obtain f :: "'a \<Rightarrow> nat" where f: "\<And>x z. (x, z) \<in> insert (i, to) E \<Longrightarrow> f x < f z"
    using rank_of_acyclic [OF _ E(2)] E(1) by blast
  let ?g = "\<lambda>x. if x = n then 2 * f i + 1 else 2 * f x"
  show ?thesis
  proof (rule acyclic_by_rank [of _ ?g])
    fix x z assume "(x, z) \<in> E'"
    with sub consider "(x, z) \<in> E" | "x = i" "z = n" | "x = n" "z = y" | "x = n" "z = to" by blast
    then show "?g x < ?g z"
    proof cases
      case 1
      then have "x \<noteq> n" "z \<noteq> n" using n by auto
      with 1 f show ?thesis by auto
    next
      case 3
      then have "y \<noteq> n" using n E(3) by auto
      with 3 f [of i y] E(3) show ?thesis by auto
    next
      case 4
      with n f [of i to] show ?thesis by auto
    qed (use n in auto)
  qed
qed

lemma core_junction:
  assumes inv: "core_inv None d W" and to: "0 < handles d to" and r: "routine_at (routines d) i = Some r"
    and full: "None \<notin> set (next_tasks r)" and act: "i \<notin> set (retired d)"
    and acyc: "acyclic (insert (i, to) (edge (routines d)))"
  shows "core_inv None (add_junction i to r d) W" and "(i, to) \<in> (edge (routines (add_junction i to r d)))\<^sup>+"
    and "edge (routines d) \<subseteq> (edge (routines (add_junction i to r d)))\<^sup>+"
proof -
  let ?n = "length (routines d)" and ?d' = "add_junction i to r d"
  have ne: "i \<noteq> to" using acyc by (auto simp: acyclic_def)
  have pos: "0 < tokens None d to" using to by (simp add: tokens_def)
  with core_token [OF inv] obtain q where q: "routine_at (routines d) to = Some q" and qact: "to \<notin> set (retired d)"
    by (auto simp: alive_def)
  let ?q' = "q\<lparr>lock_count := lock_count q + 1\<rparr>" and ?r' = "r\<lparr>next_tasks := (next_tasks r)[0 := Some ?n]\<rparr>"
  have len: "length (next_tasks r) = 4" using core_routine [OF inv r] by simp
  then have "next_tasks r ! 0 \<in> set (next_tasks r)" by simp
  then obtain y where y: "next_tasks r ! 0 = Some y" using full by (metis not_None_eq)
  have iy: "(i, y) \<in> edge (routines d)" using edge_memberI [OF r, of 0] len y by simp
  let ?J = "junction_of (warp r) y to"
  have d': "routines ?d' = ((routines d)[to := Some ?q'] @ [Some ?J])[i := Some ?r']" and fields: "retired ?d' = retired d" "handles ?d' = handles d"
    unfolding add_junction_routines [OF r y q ne] by simp_all
  note graph = junction_edge [OF r y _ q ne, of ?q', folded d']
  show "(i, to) \<in> (edge (routines ?d'))\<^sup>+" "edge (routines d) \<subseteq> (edge (routines ?d'))\<^sup>+" using graph len by simp_all
  obtain d1 where new: "allocate (warp r) False 0 d = (?n, d1)" by (simp add: allocate_def)
  have d1: "routines d1 = routines d @ [Some (routine_make False (warp r) 0)]" "handles d1 = handles d" "retired d1 = retired d"
    using new by (auto simp: allocate_def)
  have inv1: "core_inv (Some ?n) d1 W" by (rule core_fresh [OF inv new])
  have dead: "\<not> alive d ?n" by (simp add: alive_def)
  have none: "z \<noteq> ?n" if "0 < tokens None d z" for z using core_token [OF inv that] dead by auto
  have at: "routine_at (routines ?d') j = (if j = i then Some ?r' else if j = to then Some ?q' else if j = ?n then Some ?J else routine_at (routines d) j)" for j
    using routine_at_Some [OF r] routine_at_Some [OF q] by (simp add: d' routine_at_update routine_at_append)
  have at1: "routine_at (routines d1) j = (if j = ?n then Some (routine_make False (warp r) 0) else routine_at (routines d) j)" for j
    by (simp add: d1 routine_at_append)
  have edges': "edges (routines ?d') j = edges (routines d) j + (if j = to then 1 else 0) + (if j = ?n then 1 else 0)" for j
  proof -
    have "edges (routines ?d') j + count_list (next_tasks r) (Some j) =
        edges (routines d) j + count_list [Some y, Some to, None, None] (Some j) + count_list (next_tasks ?r') (Some j)"
      using edges_routine_update [of "(routines d)[to := Some ?q'] @ [Some ?J]" i r ?r' j] r ne routine_at_Some [OF r] same_next_graph(2) [OF q, of ?q']
      by (simp add: d' edges_append links_def junction_of_def routine_at_append routine_at_update)
    moreover have "count_list [Some y, Some to, None, None] (Some j) = (if j = y then 1 else 0) + (if j = to then 1 else 0)" by auto
    moreover have "count_list (next_tasks ?r') (Some j) + (if j = y then 1 else 0) = count_list (next_tasks r) (Some j) + (if j = ?n then 1 else 0)"
      using count_list_list_update [of 0 "next_tasks r" "Some ?n" "Some j"] len y by auto
    ultimately show ?thesis by linarith
  qed
  then have tok: "tokens None ?d' j = tokens (Some ?n) d1 j + (if j = to then 1 else 0)" for j
    by (simp add: tokens_def fields d1 fresh_graph)
  show "core_inv None ?d' W"
  proof (rule core_transfer [OF inv1], goal_cases)
    case (1 j)
    then show ?case using r q by (auto simp: alive_def at at1)
  next
    case (3 j r')
    have "i \<noteq> ?n" "to \<noteq> ?n" using routine_at_Some [OF r] routine_at_Some [OF q] by auto
    then show ?case
      using 3 core_routine [OF inv1, of j] r q qact act len
      by (auto simp: at at1 tok ne d1(2,3) junction_of_def routine_make_def split: if_splits)
  next
    case (4 j)
    have "Exec to \<notin># W" using core_frame [OF inv, of "Exec to"] pos by auto
    then show ?case using q qact to by (auto simp: tok fields d1(2,3) alive_def at1)
  next
    case (6 j m r' l)
    have "j \<noteq> ?n" using frame_ok_alive [OF core_frame [OF inv 6(1)]] dead by auto
    with core_frame [OF inv 6(1)] 6(2,3) act qact show ?case by (auto simp: at split: if_splits)
  next
    case 7
    have "?n \<notin> Range (edge (routines d))" using none [of ?n] edges_0_iff [of "routines d" ?n] by (auto simp: tokens_def)
    moreover have "?n \<notin> Domain (edge (routines d))" by (auto simp: edge_def)
    ultimately show ?case
      using junction_acyclic [OF _ finite_edge acyc iy] graph(3) len none [OF pos] routine_at_Some [OF r] by fastforce
  qed (use d1 d' fields in auto)
qed

subsection \<open>What the logs depend on\<close>

text \<open>The routines whose function was not called yet, those that were freed, and the number of those that were not.\<close>

definition uncalled :: "routines \<Rightarrow> nat set" where
  "uncalled rs = {i. \<exists>r. routine_at rs i = Some r \<and> has_routine r}"

definition freed :: "routines \<Rightarrow> nat set" where
  "freed rs = {i. i < length rs \<and> rs ! i = None}"

definition live :: "routines \<Rightarrow> nat" where
  "live rs = (\<Sum>r \<leftarrow> rs. if r = None then 0 else 1)"

lemma keep_update:
  assumes "routine_at rs i = Some r" and "has_routine r' = has_routine r"
  shows "uncalled (rs[i := Some r']) = uncalled rs" and "freed (rs[i := Some r']) = freed rs" and "live (rs[i := Some r']) = live rs"
proof -
  have i: "i < length rs" "rs ! i = Some r" using routine_at_Some [OF assms(1)] by auto
  show "uncalled (rs[i := Some r']) = uncalled rs"
    using i assms unfolding uncalled_def routine_at_update by (auto split: if_splits)
  show "freed (rs[i := Some r']) = freed rs" using i by (auto simp: freed_def nth_list_update split: if_splits)
  show "live (rs[i := Some r']) = live rs"
    using sum_list_update_one [OF i(1), where f = "\<lambda>r. if r = None then 0 else 1" and u = "Some r'"] i(2) by (simp add: live_def)
qed

lemma keep_append:
  "uncalled (rs @ [Some r]) = (if has_routine r then insert (length rs) (uncalled rs) else uncalled rs)"
  "freed (rs @ [Some r]) = freed rs" "live (rs @ [Some r]) = live rs + 1"
  by (auto simp: uncalled_def freed_def live_def routine_at_append nth_append split: if_splits)

text \<open>Operations that only order routines.\<close>

definition same_logs :: "dispatcher_t \<Rightarrow> dispatcher_t \<Rightarrow> bool" where
  "same_logs d d' \<longleftrightarrow>
     handles d' = handles d \<and> retired d' = retired d \<and> posted d' = posted d \<and> started d' = started d \<and>
     with_function d' = with_function d \<and> ordered d' = ordered d \<and> length (routines d) \<le> length (routines d') \<and>
     uncalled (routines d') = uncalled (routines d) \<and> freed (routines d') = freed (routines d) \<and>
     pending_count d' + live (routines d) = pending_count d + live (routines d')"

lemma same_logs_refl [simp]: "same_logs d d"
  by (simp add: same_logs_def)

lemma same_logs_trans: "same_logs a b \<Longrightarrow> same_logs b c \<Longrightarrow> same_logs a c"
  by (auto simp: same_logs_def)

lemma same_logs_set_routine:
  "routine_at (routines d) i = Some r \<Longrightarrow> has_routine r' = has_routine r \<Longrightarrow> same_logs d (set_routine i r' d)"
  by (simp add: same_logs_def set_routine_def keep_update)

lemma same_logs_add_lock: "same_logs d (add_lock i d)"
  by (auto simp: add_lock_def split: option.splits intro: same_logs_set_routine)

lemma same_logs_set_next: "same_logs d (set_next i k p d)"
  by (auto simp: set_next_def split: option.splits intro: same_logs_set_routine)

lemma same_logs_add_junction: "same_logs d (add_junction i to r d)"
proof -
  have "same_logs c (snd (allocate w False 0 c))" for w and c :: dispatcher_t
    by (simp add: same_logs_def allocate_def keep_append routine_make_def)
  then show ?thesis
    unfolding add_junction_def Let_def case_prod_beta by (meson same_logs_trans same_logs_set_next same_logs_add_lock)
qed

lemma core_order:
  assumes "order_internal i to d = Some d'" and "core_inv None d W" and "0 < handles d to" and "i \<notin> set (retired d)"
  shows "core_inv None d' W \<and> (i, to) \<in> (edge (routines d'))\<^sup>+ \<and> edge (routines d) \<subseteq> (edge (routines d'))\<^sup>+ \<and> same_logs d d'"
proof -
  have "core_inv None d W \<and> 0 < handles d to \<and> i \<notin> set (retired d) \<longrightarrow>
      core_inv None d' W \<and> (i, to) \<in> (edge (routines d'))\<^sup>+ \<and> edge (routines d) \<subseteq> (edge (routines d'))\<^sup>+ \<and> same_logs d d'"
  proof (rule order_internal.raw_induct [of "\<lambda>i to d d'. core_inv None d W \<and> 0 < handles d to \<and> i \<notin> set (retired d) \<longrightarrow>
      core_inv None d' W \<and> (i, to) \<in> (edge (routines d'))\<^sup>+ \<and> edge (routines d) \<subseteq> (edge (routines d'))\<^sup>+ \<and> same_logs d d'", OF _ assms(1)],
      intro impI, elim conjE, goal_cases)
    case (1 rec i to d d')
    note inv = 1(3)
    from 1(2) obtain r u where r: "routine_at (routines d) i = Some r" and v: "validate (routines d) i [to] = Some u"
      and cases: "(case free_slot 0 (next_tasks r) of
                 Some k \<Rightarrow> Some (set_next i k (Some to) (add_lock to d))
               | None \<Rightarrow>
                   (case next_tasks r ! 0 of
                      None \<Rightarrow> None
                    | Some j \<Rightarrow>
                        (case routine_at (routines d) j of
                           None \<Rightarrow> None
                         | Some q \<Rightarrow> if \<not> has_routine q then rec j to d else Some (add_junction i to r d)))) = Some d'"
      by (auto split: option.splits if_splits)
    have len: "length (next_tasks r) = 4" using core_routine [OF inv r] by simp
    have acyc: "acyclic (insert (i, to) (edge (routines d)))"
      using validate_sound [OF v] inv by (simp add: acyclic_insert core_inv_def)
    show ?case
    proof (cases "free_slot 0 (next_tasks r)")
      case (Some k)
      with free_slot_Some [OF this] have k: "k < length (next_tasks r)" "next_tasks r ! k = None" by auto
      from core_add_edge [OF inv 1(4) r k 1(5) acyc] Some cases show ?thesis
        by (auto intro: same_logs_trans same_logs_add_lock same_logs_set_next)
    next
      case None
      then have full: "None \<notin> set (next_tasks r)" by (rule free_slot_None)
      from cases None obtain j where j: "next_tasks r ! 0 = Some j" by (auto split: option.splits)
      with cases None obtain q where q: "routine_at (routines d) j = Some q" by (auto split: option.splits)
      have d': "(if \<not> has_routine q then rec j to d else Some (add_junction i to r d)) = Some d'"
        using cases by (simp add: None j q)
      have ij: "(i, j) \<in> edge (routines d)" using edge_memberI [OF r, of 0] j len by simp
      then have "0 < tokens None d j" using edges_0_iff [of "routines d" j] by (auto simp: tokens_def)
      then have jact: "j \<notin> set (retired d)" using core_token [OF inv] by blast
      show ?thesis
      proof (cases "has_routine q")
        case True
        with d' core_junction [OF inv 1(4) r full 1(5) acyc] same_logs_add_junction show ?thesis by auto
      next
        case False
        with d' have "rec j to d = Some d'" by simp
        from 1(1) [OF this] inv 1(4) jact have IH: "core_inv None d' W" "(j, to) \<in> (edge (routines d'))\<^sup>+"
          "edge (routines d) \<subseteq> (edge (routines d'))\<^sup>+" "same_logs d d'" by blast+
        then have "(i, to) \<in> (edge (routines d'))\<^sup>+" using ij by (meson subsetD trancl_trans)
        with IH show ?thesis by blast
      qed
    qed
  qed
  with assms(2-4) show ?thesis by blast
qed

section \<open>The steps of the threads\<close>

text \<open>Taking over the work \<open>f\<close> by \<open>g\<close> on the same routine.\<close>

lemma core_replace:
  assumes "core_inv x d (add_mset f V)" and "frame_id g = frame_id f" and "frame_ok x d g"
  shows "core_inv x d (add_mset g V)"
  using assms by (auto simp: core_inv_def work_inv_def)

lemma core_call:
  assumes inv: "core_inv None d W" and i: "routine_at (routines d) i = Some r"
  shows "core_inv None ((set_routine i (r\<lparr>has_routine := False\<rparr>) d)\<lparr>started := s\<rparr>) W"
proof -
  let ?d' = "(set_routine i (r\<lparr>has_routine := False\<rparr>) d)\<lparr>started := s\<rparr>"
  note graph = same_next_graph [OF i, of "r\<lparr>has_routine := False\<rparr>", simplified]
  have at: "routine_at (routines (set_routine i (r\<lparr>has_routine := False\<rparr>) d)) j = (if j = i then Some (r\<lparr>has_routine := False\<rparr>) else routine_at (routines d) j)" for j
    using routine_at_Some [OF i] by (simp add: set_routine_def routine_at_update)
  have tok: "tokens None ?d' j = tokens None d j" for j by (simp add: tokens_def set_routine_def graph)
  show ?thesis
  proof (rule core_transfer [OF inv], goal_cases)
    case (3 j r')
    then show ?case using core_routine [OF inv, of j] i by (auto simp: at tok split: if_splits)
  next
    case (6 j m r' l)
    with core_frame [OF inv 6(1)] i show ?case by (auto simp: at split: if_splits)
  next
    case 7
    show ?case using inv graph by (simp add: core_inv_def set_routine_def)
  qed (use i in \<open>auto simp: alive_def at tok\<close>, simp_all add: set_routine_def)
qed

lemma core_retire:
  assumes inv: "core_inv None d (add_mset (Check i) V)" and r: "routine_at (routines d) i = Some r" and free: "lock_count r = 0"
  shows "core_inv None ((set_routine i (r\<lparr>lock_count := n\<rparr>) d)\<lparr>retired := i # retired d\<rparr>) (add_mset (Loop i 0) V)"
proof -
  let ?d' = "(set_routine i (r\<lparr>lock_count := n\<rparr>) d)\<lparr>retired := i # retired d\<rparr>"
  note graph = same_next_graph [OF r, of "r\<lparr>lock_count := n\<rparr>", simplified]
  have at: "routine_at (routines (set_routine i (r\<lparr>lock_count := n\<rparr>) d)) j = (if j = i then Some (r\<lparr>lock_count := n\<rparr>) else routine_at (routines d) j)" for j
    using routine_at_Some [OF r] by (simp add: set_routine_def routine_at_update)
  have fields: "retired ?d' = i # retired d" "handles ?d' = handles d" by simp_all (simp add: set_routine_def)
  have tok: "tokens None ?d' j = tokens None d j" for j by (simp add: tokens_def set_routine_def graph)
  have al: "alive ?d' j = alive d j" for j using r by (simp add: alive_def at)
  have "i \<notin> set (retired d)" using core_frame [OF inv, of "Check i"] by simp
  with core_routine [OF inv r] free have none: "tokens None d i = 0" by simp
  have other: "frame_id f \<noteq> i" if "f \<in># V" for f
  proof
    assume "frame_id f = i"
    with that have "2 \<le> count (image_mset frame_id (add_mset (Check i) V)) i"
      by (auto simp: Suc_le_eq count_greater_zero_iff)
    with inv show False by (metis Suc_1 core_inv_def not_less_eq_eq work_inv_def)
  qed
  have "frame_ok None ?d' f" if "f \<in># V" for f
    using core_frame [OF inv, of f] that other [OF that] by (cases f) (auto simp: at tok al fields)
  moreover have "frame_ok None ?d' (Loop i 0)" by (simp add: at)
  moreover have "lock_inv None ?d'"
    using inv none r unfolding core_inv_def lock_inv_def by (auto simp: at al tok fields split: if_splits)
  moreover have "acyclic (edge (routines ?d'))" using inv graph by (simp add: core_inv_def set_routine_def)
  moreover have "i < length (routines d)" using routine_at_Some [OF r] by simp
  ultimately show ?thesis
    using inv unfolding core_inv_def work_inv_def by (auto simp: al tok fields) (auto simp: set_routine_def)
qed

lemma core_free:
  assumes inv: "core_inv None d (add_mset (Loop i k) V)" and r: "routine_at (routines d) i = Some r" and k: "\<not> k < length (next_tasks r)"
  shows "core_inv None (d\<lparr>routines := (routines d)[i := None], pending_count := a, completions := b\<rparr>) V"
    and "edge ((routines d)[i := None]) = edge (routines d)"
proof -
  let ?d' = "d\<lparr>routines := (routines d)[i := None], pending_count := a, completions := b\<rparr>"
  have len: "length (next_tasks r) = 4" using core_routine [OF inv r] by simp
  have ok: "frame_ok None d (Loop i k)" by (rule core_frame [OF inv]) simp
  with r k len have "next_tasks r ! j = None" if "j < 4" for j using that by auto
  then have clear: "Some z \<notin> set (next_tasks r)" for z using len by (auto simp: in_set_conv_nth)
  have at: "routine_at ((routines d)[i := None]) j = (if j = i then None else routine_at (routines d) j)" for j
    using routine_at_Some [OF r] by (simp add: routine_at_update)
  show edge: "edge ((routines d)[i := None]) = edge (routines d)"
    using clear r at by (auto simp: edge_def split: if_splits)
  have edges: "edges ((routines d)[i := None]) j = edges (routines d) j" for j
    using edges_update [of i "routines d" None j] routine_at_Some [OF r] clear [of j] by (simp add: links_def count_list_0_iff)
  have tok: "tokens None ?d' j = tokens None d j" for j by (simp add: tokens_def edges)
  have al: "alive ?d' j \<longleftrightarrow> alive d j \<and> j \<noteq> i" for j by (simp add: alive_def at)
  have ret: "i \<in> set (retired d)" using ok by simp
  then have none: "tokens None d i = 0" using core_token [OF inv, of i] by blast
  have other: "frame_id f \<noteq> i" if "f \<in># V" for f
  proof
    assume "frame_id f = i"
    with that have "2 \<le> count (image_mset frame_id (add_mset (Loop i k) V)) i"
      by (auto simp: Suc_le_eq count_greater_zero_iff)
    with inv show False by (metis Suc_1 core_inv_def not_less_eq_eq work_inv_def)
  qed
  have frames: "frame_ok None ?d' f" if "f \<in># V" for f
    using core_frame [OF inv, of f] that other [OF that] by (cases f) (auto simp: at tok al)
  have "lock_inv None ?d'"
    using inv none unfolding core_inv_def lock_inv_def by (auto simp: at al tok split: if_splits)
  moreover have "work_inv None ?d' V"
    using inv frames unfolding core_inv_def work_inv_def by (auto simp: al tok) (metis Suc_leD)+
  ultimately show "core_inv None ?d' V" using inv edge by (auto simp: core_inv_def)
qed

section \<open>The logs and the order\<close>

definition log_inv :: "dispatcher_t \<Rightarrow> bool" where
  "log_inv d \<longleftrightarrow>
     pending_count d = live (routines d) \<and> freed (routines d) \<subseteq> set (retired d) \<and> distinct (retired d) \<and> distinct (started d) \<and>
     uncalled (routines d) \<inter> set (started d) = {} \<and> set (with_function d) = set (started d) \<union> uncalled (routines d) \<and>
     set (started d) \<subseteq> {..<length (routines d)}"

text \<open>
  Two routines that were ordered: as long as the first one has not released its successors there is a path to the second one, which can neither start (if it
  had not started before) nor release its own successors.
\<close>

definition order_inv :: "dispatcher_t \<Rightarrow> bool" where
  "order_inv d \<longleftrightarrow>
     (\<forall>(a, b, fresh) \<in> set (ordered d).
        (a \<in> set (retired d) \<or> (a, b) \<in> (edge (routines d))\<^sup>+) \<and>
        (fresh \<and> b \<in> set (started d) \<longrightarrow> a \<in> set (retired d)) \<and> (b \<in> set (retired d) \<longrightarrow> a \<in> set (retired d)))"

lemma log_inv_same: "same_logs d d' \<Longrightarrow> log_inv d \<Longrightarrow> log_inv d'"
  by (auto simp: same_logs_def log_inv_def)

lemma log_inv_cong:
  "log_inv (d\<lparr>posted := x\<rparr>) = log_inv d" "log_inv (d\<lparr>handles := h\<rparr>) = log_inv d" "log_inv (d\<lparr>ordered := y\<rparr>) = log_inv d"
  by (simp_all add: log_inv_def)

lemma order_inv_mono:
  assumes "order_inv d" and "edge (routines d) \<subseteq> (edge (routines d'))\<^sup>+" and "retired d' = retired d" "started d' = started d" "ordered d' = ordered d"
  shows "order_inv d'"
proof -
  have "(edge (routines d))\<^sup>+ \<subseteq> (edge (routines d'))\<^sup>+" using assms(2) by (metis trancl_id trancl_mono_subset trans_trancl)
  with assms show ?thesis unfolding order_inv_def by fastforce
qed

lemma dispatch_logs:
  assumes "dispatch i d = (d', calls)"
  shows "same_logs d (d'\<lparr>posted := posted d\<rparr>)" and "edge (routines d') = edge (routines d)"
proof -
  show "same_logs d (d'\<lparr>posted := posted d\<rparr>)"
    using assms keep_update by (auto simp: dispatch_def same_logs_def set_routine_def Let_def split: option.splits if_splits)
  show "edge (routines d') = edge (routines d)"
    using assms same_next_graph(1) by (auto simp: dispatch_def set_routine_def Let_def split: option.splits if_splits)
qed

lemma dispatch_keeps:
  assumes "dispatch i d = (d', calls)" and "log_inv d" and "order_inv d"
  shows "log_inv d' \<and> order_inv d'"
proof
  show "log_inv d'" using log_inv_same [OF dispatch_logs(1) [OF assms(1)] assms(2)] by (simp add: log_inv_cong)
  show "order_inv d'"
    using dispatch_logs [OF assms(1)] by (intro order_inv_mono [OF assms(3)]) (auto simp: same_logs_def)
qed

text \<open>A routine without tokens is at the end of no path.\<close>

lemma no_path_to: "tokens x d i = 0 \<Longrightarrow> (a, i) \<notin> (edge (routines d))\<^sup>+"
  using edges_0_iff [of "routines d" i] by (auto simp: tokens_def elim: tranclE)

text \<open>A path from a routine that has not released its successors meets none that has.\<close>

lemma path_avoids:
  assumes "(a, b) \<in> E\<^sup>+" and "a \<noteq> i" and "i \<notin> Range E"
  shows "(a, b) \<in> {(p, q) \<in> E. p \<noteq> i}\<^sup>+"
  using assms(1)
proof (induction rule: trancl_induct)
  case (base y)
  with assms(2) show ?case by blast
next
  case (step y z)
  from step.hyps(1) have "y \<in> Range E" by (metis Range.RangeI trancl_range)
  with assms(3) step show ?case by (auto intro: trancl_into_trancl)
qed

lemma clear_slot_keeps:
  assumes inv: "core_inv None d W" and r: "routine_at (routines d) i = Some r" and ret: "i \<in> set (retired d)" and ord: "order_inv d" and logs: "log_inv d"
  shows "log_inv (set_next i k None d) \<and> order_inv (set_next i k None d)"
proof
  show "log_inv (set_next i k None d)" using log_inv_same [OF same_logs_set_next logs] .
  let ?d' = "set_next i k None d"
  have "tokens None d i = 0" using core_token [OF inv, of i] ret by blast
  then have "i \<notin> Range (edge (routines d))" using edges_0_iff [of "routines d" i] by (simp add: tokens_def)
  moreover have "{(p, q) \<in> edge (routines d). p \<noteq> i} \<subseteq> edge (routines ?d')"
    using slot_clear_edge(2) [OF r] r by (auto simp: set_next_def set_routine_def)
  ultimately have "(a, b) \<in> (edge (routines ?d'))\<^sup>+" if "(a, b) \<in> (edge (routines d))\<^sup>+" "a \<noteq> i" for a b
    using path_avoids [OF that(1)] that(2) by (meson subsetD trancl_mono_subset)
  moreover have "retired ?d' = retired d" "started ?d' = started d" "ordered ?d' = ordered d"
    using same_logs_set_next [of d i k None] by (auto simp: same_logs_def)
  ultimately show "order_inv ?d'" using ord ret unfolding order_inv_def by fastforce
qed

text \<open>One step of \<open>execute\<close>: what is posted or called takes the place of the work that was done.\<close>

fun called :: "routines \<Rightarrow> frame \<Rightarrow> bool" where
  "called rs (Exec i) = True"
| "called rs (Run i) = (i \<notin> uncalled rs)"
| "called rs (Check i) = (i \<notin> uncalled rs)"
| "called rs (Loop i k) = (i \<notin> uncalled rs)"

definition dag_ok :: "dispatcher_t \<Rightarrow> frame multiset \<Rightarrow> bool" where
  "dag_ok d W \<longleftrightarrow> core_inv None d W \<and> log_inv d \<and> order_inv d \<and> (\<forall>f \<in># W. called (routines d) f)"

lemma called_mono: "called rs f \<Longrightarrow> frame_id f \<in> uncalled rs' \<longrightarrow> frame_id f \<in> uncalled rs \<Longrightarrow> called rs' f"
  by (cases f) auto

lemma core_drop:
  assumes "core_inv x d (add_mset f V)" and "0 < tokens x d (frame_id f)" and "frame_id f \<notin> set (retired d)"
  shows "core_inv x d V"
proof -
  have "count (image_mset frame_id V) j \<le> count (image_mset frame_id (add_mset f V)) j" for j by simp
  with assms(1) have "count (image_mset frame_id V) j \<le> 1" for j unfolding core_inv_def work_inv_def by (meson order_trans)
  moreover have "j \<in># image_mset frame_id V" if "alive d j" "tokens x d j = 0 \<or> j \<in> set (retired d)" for j
  proof -
    have "j \<in># image_mset frame_id (add_mset f V)" using assms(1) that unfolding core_inv_def work_inv_def by blast
    with that assms(2,3) show ?thesis by auto
  qed
  ultimately show ?thesis using assms(1) unfolding core_inv_def work_inv_def by auto
qed

lemma exec_ok:
  assumes inv: "dag_ok d (add_mset (Exec i) V)" and step: "dag_execute_step (Exec i) d = Some (d', calls)"
  shows "posted d' = posted d \<and> dag_ok d' (V + mset calls)"
proof -
  have core: "core_inv None d (add_mset (Exec i) V)" using inv by (simp add: dag_ok_def)
  have ok: "frame_ok None d (Exec i)" by (rule core_frame [OF core]) simp
  then obtain r where r: "routine_at (routines d) i = Some r" by (auto simp: alive_def)
  show ?thesis
  proof (cases "has_routine r")
    case False
    with step r have "d' = d" "calls = [Check i]" by auto
    moreover have "i \<notin> uncalled (routines d)" using False r by (auto simp: uncalled_def)
    ultimately show ?thesis using inv ok core_replace [OF core, of "Check i"] by (simp add: dag_ok_def)
  next
    case True
    with step r have d': "d' = (set_routine i (r\<lparr>has_routine := False\<rparr>) d)\<lparr>started := i # started d\<rparr>" and calls: "calls = [Run i]" by auto
    have fields: "retired d' = retired d" "handles d' = handles d" "ordered d' = ordered d" "started d' = i # started d" "posted d' = posted d"
      "with_function d' = with_function d" "pending_count d' = pending_count d"
      and rs: "routines d' = (routines d)[i := Some (r\<lparr>has_routine := False\<rparr>)]" by (simp_all add: d' set_routine_def)
    note graph = same_next_graph [OF r, of "r\<lparr>has_routine := False\<rparr>", simplified]
    have i: "i < length (routines d)" "routines d ! i = Some r" using routine_at_Some [OF r] by auto
    have unc: "uncalled (routines d') = uncalled (routines d) - {i}" "i \<in> uncalled (routines d)"
      using i True r by (auto simp: uncalled_def rs routine_at_update split: if_splits)
    have "freed (routines d') = freed (routines d)" using i by (auto simp: freed_def rs nth_list_update)
    moreover have "live (routines d') = live (routines d)"
      using sum_list_update_one [OF i(1), where f = "\<lambda>r. if r = None then 0 else 1" and u = "Some (r\<lparr>has_routine := False\<rparr>)"] i(2)
      by (simp add: live_def rs)
    ultimately have "log_inv d'"
      using inv unc i(1) unfolding dag_ok_def log_inv_def fields by (auto simp: rs)
    moreover have "order_inv d'"
      using inv no_path_to [of None d i] ok unfolding dag_ok_def order_inv_def fields rs graph by fastforce
    moreover have "core_inv None d' (add_mset (Exec i) V)" unfolding d' by (rule core_call [OF core r])
    then have "core_inv None d' (add_mset (Run i) V)"
    proof (rule core_replace)
      show "frame_ok None d' (Run i)" using ok r i by (simp add: alive_def fields tokens_def rs graph routine_at_update)
    qed simp
    moreover have "called (routines d') f" if "f \<in># V" for f
      using inv that unc(1) called_mono [of "routines d" f "routines d'"] by (auto simp: dag_ok_def)
    ultimately show ?thesis using unc(1) by (auto simp: dag_ok_def calls fields)
  qed
qed

lemma check_ok:
  assumes inv: "dag_ok d (add_mset (Check i) V)" and step: "dag_execute_step (Check i) d = Some (d', calls)"
  shows "posted d' = posted d \<and> dag_ok d' (V + mset calls)"
proof -
  have core: "core_inv None d (add_mset (Check i) V)" using inv by (simp add: dag_ok_def)
  have ok: "frame_ok None d (Check i)" by (rule core_frame [OF core]) simp
  then obtain r where r: "routine_at (routines d) i = Some r" by (auto simp: alive_def)
  have lock: "lock_count r = int (tokens None d i)" using core_routine [OF core r] ok by simp
  show ?thesis
  proof (cases "lock_count r = 0")
    case False
    with step r have d': "d' = d" "calls = []" by auto
    have "core_inv None d V" using core_drop [OF core] False lock ok by simp
    with inv d' show ?thesis by (simp add: dag_ok_def)
  next
    case True
    with step r have d': "d' = (set_routine i (r\<lparr>lock_count := size_max\<rparr>) d)\<lparr>retired := i # retired d\<rparr>" and calls: "calls = [Loop i 0]" by auto
    have fields: "retired d' = i # retired d" "ordered d' = ordered d" "started d' = started d" "posted d' = posted d"
      "with_function d' = with_function d" "pending_count d' = pending_count d"
      and rs: "routines d' = (routines d)[i := Some (r\<lparr>lock_count := size_max\<rparr>)]" by (simp_all add: d' set_routine_def)
    note same = same_next_graph [OF r, of "r\<lparr>lock_count := size_max\<rparr>", simplified] keep_update [OF r, of "r\<lparr>lock_count := size_max\<rparr>", simplified]
    have "log_inv d'" using inv ok unfolding dag_ok_def log_inv_def fields by (auto simp: rs same)
    moreover have "order_inv d'"
      using inv no_path_to [of None d i] lock True unfolding dag_ok_def order_inv_def fields rs same by fastforce
    moreover have "core_inv None d' (add_mset (Loop i 0) V)" unfolding d' by (rule core_retire [OF core r True])
    moreover have "called (routines d') f" if "f \<in># add_mset (Loop i 0) V" for f
      using inv that called_mono [of "routines d" f "routines d'"] by (auto simp: dag_ok_def rs same)
    ultimately show ?thesis by (simp add: dag_ok_def calls fields)
  qed
qed

lemma loop_ok:
  assumes inv: "dag_ok d (add_mset (Loop i k) V)" and step: "dag_execute_step (Loop i k) d = Some (d', calls)"
  shows "\<exists>ps. posted d' = posted d @ ps \<and> dag_ok d' (V + mset (map Exec ps @ calls))"
proof -
  have core: "core_inv None d (add_mset (Loop i k) V)" using inv by (simp add: dag_ok_def)
  have ok: "frame_ok None d (Loop i k)" by (rule core_frame [OF core]) simp
  then obtain r where r: "routine_at (routines d) i = Some r" by auto
  have len: "length (next_tasks r) = 4" using core_routine [OF core r] by simp
  consider (free) "\<not> k < 4" | (gone) "k < 4" "next_tasks r ! k = None" | (task) p where "k < 4" "next_tasks r ! k = Some p" by fastforce
  then show ?thesis
  proof cases
    case free
    with step r len have d': "d' = d\<lparr>routines := (routines d)[i := None], pending_count := pending_count d - 1,
        completions := completions d + (if pending_count d = 1 then 1 else 0)\<rparr>" "calls = []" by auto
    have i: "i < length (routines d)" "routines d ! i = Some r" using routine_at_Some [OF r] by auto
    have "freed ((routines d)[i := None]) = insert i (freed (routines d))" using i by (auto simp: freed_def nth_list_update)
    moreover have "live ((routines d)[i := None]) + 1 = live (routines d)"
      using sum_list_update_one [OF i(1), where f = "\<lambda>r. if r = None then 0 else 1" and u = None] i(2) by (simp add: live_def)
    moreover have unc: "uncalled ((routines d)[i := None]) = uncalled (routines d)"
    proof -
      have "i \<notin> uncalled (routines d)" using inv by (simp add: dag_ok_def)
      then show ?thesis using r by (auto simp: uncalled_def routine_at_update split: if_splits)
    qed
    ultimately have "log_inv d'" using inv ok unfolding dag_ok_def log_inv_def d' by auto
    moreover have "order_inv d'"
      using inv core_free(2) [OF core r] free len unfolding dag_ok_def order_inv_def d' by simp
    moreover have "core_inv None d' V" unfolding d'(1) using free len by (intro core_free(1) [OF core r]) simp
    moreover have "called (routines d') f" if "f \<in># V" for f
      using inv that called_mono [of "routines d" f "routines d'"] by (auto simp: dag_ok_def d' unc)
    ultimately show ?thesis by (simp add: dag_ok_def d')
  next
    case gone
    with step r len have "d' = d" "calls = [Loop i (Suc k)]" by auto
    with inv core_loop_next [OF core r gone(2,1)] show ?thesis by (simp add: dag_ok_def)
  next
    case task
    obtain d1 cs where d1: "dispatch p (set_next i k None d) = (d1, cs)" by (cases "dispatch p (set_next i k None d)")
    with step r len task have d': "d' = d1" "calls = cs @ [Loop i (Suc k)]" by auto
    have c1: "core_inv (Some p) (set_next i k None d) (add_mset (Loop i k) V)"
      by (rule core_clear_slot [OF core _ r task]) simp
    have "routine_at (routines (set_next i k None d)) i = Some (r\<lparr>next_tasks := (next_tasks r)[k := None]\<rparr>)"
      using r routine_at_Some [OF r] by (simp add: set_next_def set_routine_def routine_at_update)
    from core_loop_next [OF c1 this] task(1) len have c2: "core_inv (Some p) (set_next i k None d) (add_mset (Loop i (Suc k)) V)" by simp
    have post: "posted (set_next i k None d) = posted d" using same_logs_set_next by (auto simp: same_logs_def)
    from dispatch_core [OF c2 d1] obtain ps where ps: "posted d1 = posted d @ ps"
      "core_inv None d1 (V + mset (map Exec ps @ cs @ [Loop i (Suc k)]))" by (auto simp: post)
    moreover have "log_inv d1 \<and> order_inv d1"
      using dispatch_keeps [OF d1] clear_slot_keeps [OF core r] ok inv by (simp add: dag_ok_def)
    moreover have unc: "uncalled (routines d1) = uncalled (routines d)"
      using dispatch_logs(1) [OF d1] same_logs_set_next [of d i k None] by (simp add: same_logs_def)
    moreover have "called (routines d1) f" if "f \<in># add_mset (Loop i (Suc k)) V" for f
      using inv that called_mono [of "routines d" f "routines d1"] by (auto simp: dag_ok_def unc)
    moreover have "called (routines d1) f" if "f \<in> set cs" for f
      using d1 that by (auto simp: dispatch_def Let_def split: option.splits if_splits)
    moreover have "i \<notin> uncalled (routines d)" using inv by (simp add: dag_ok_def)
    ultimately show ?thesis by (auto simp: dag_ok_def d' intro!: exI [of _ ps])
  qed
qed

section \<open>Every step keeps the invariant\<close>

definition work :: "dispatcher_t \<Rightarrow> frame list list \<Rightarrow> frame multiset" where
  "work d ts = mset (map Exec (posted d) @ concat ts)"

definition dag_inv :: "dispatcher_t \<times> frame list list \<Rightarrow> bool" where
  "dag_inv s = (case s of (d, ts) \<Rightarrow> dag_ok d (work d ts))"

lemma mset_concat_update:
  "t < length ts \<Longrightarrow> mset (concat (ts[t := xs])) = mset xs + mset (concat (ts[t := []]))"
  by (induction ts arbitrary: t) (auto split: nat.splits)

lemma mset_concat_nth: "t < length ts \<Longrightarrow> mset (concat ts) = mset (ts ! t) + mset (concat (ts[t := []]))"
  using mset_concat_update [of t ts "ts ! t"] by simp

lemma frame_in_work: "f \<in># work d ts \<longleftrightarrow> (\<exists>i \<in> set (posted d). f = Exec i) \<or> (\<exists>fs \<in> set ts. f \<in> set fs)"
  by (auto simp: work_def)

lemma dag_ok_posted: "dag_ok (d\<lparr>posted := ps\<rparr>) W = dag_ok d W"
  using core_inv_cong [of "d\<lparr>posted := ps\<rparr>" d] by (simp add: dag_ok_def log_inv_def order_inv_def)

lemma execute_step_ok:
  assumes "dag_ok d (add_mset f V)" and "dag_execute_step f d = Some (d', calls)"
  shows "\<exists>ps. posted d' = posted d @ ps \<and> dag_ok d' (V + mset (map Exec ps @ calls))"
proof (cases f)
  case (Exec i)
  with exec_ok [of d i V] assms show ?thesis by auto
next
  case (Run i)
  have core: "core_inv None d (add_mset (Run i) V)" using assms(1) Run by (simp add: dag_ok_def)
  have "frame_ok None d (Run i)" by (rule core_frame [OF core]) simp
  then have "core_inv None d (add_mset (Check i) V)" by (intro core_replace [OF core]) simp_all
  with assms Run show ?thesis by (auto simp: dag_ok_def)
next
  case (Check i)
  with check_ok [of d i V] assms show ?thesis by auto
next
  case (Loop i k)
  with loop_ok [of d i k V] assms show ?thesis by auto
qed

lemma allocate_ok:
  assumes inv: "dag_ok d W" and new: "allocate w f p d = (i, d')"
  shows "dag_ok (d'\<lparr>handles := (handles d)(i := 1), with_function := (if f then i # with_function d else with_function d)\<rparr>) W"
proof -
  have core: "core_inv None d W" using inv by (simp add: dag_ok_def)
  have i: "i = length (routines d)" and d': "d' = d\<lparr>routines := routines d @ [Some (routine_make f w p)], pending_count := pending_count d + 1\<rparr>"
    using new by (auto simp: allocate_def)
  let ?d = "d'\<lparr>handles := (handles d)(i := 1), with_function := (if f then i # with_function d else with_function d)\<rparr>"
  have none: "\<not> alive d i" by (simp add: alive_def i)
  then have "tokens None d i = 0" using core_token [OF core, of i] by blast
  then have "core_inv None (d'\<lparr>handles := (handles d')(i := 1)\<rparr>) W"
    by (intro core_keep_handle [OF core_fresh [OF core new]]) (simp_all add: tokens_def d' fresh_graph)
  then have "core_inv None ?d W" by (rule core_inv_cong [THEN iffD2, rotated 3]) (simp_all add: d')
  moreover have "log_inv ?d"
    using inv by (auto simp: dag_ok_def log_inv_def d' keep_append routine_make_def i)
  moreover have "order_inv ?d" using inv by (simp add: dag_ok_def order_inv_def d' fresh_graph)
  moreover have "called (routines ?d) g" if "g \<in># W" for g
  proof (rule called_mono)
    show "called (routines d) g" using inv that by (simp add: dag_ok_def)
    have "frame_id g \<noteq> i" using frame_ok_alive [OF core_frame [OF core that]] none by auto
    then show "frame_id g \<in> uncalled (routines ?d) \<longrightarrow> frame_id g \<in> uncalled (routines d)"
      by (auto simp: d' keep_append i split: if_splits)
  qed
  ultimately show ?thesis by (simp add: dag_ok_def)
qed

lemma order_ok:
  assumes inv: "dag_ok d W" and "0 < handles d i" "0 < handles d to" and ord: "order i to d = Some d'"
  shows "dag_ok d' W \<and> posted d' = posted d"
proof -
  have core: "core_inv None d W" using inv by (simp add: dag_ok_def)
  from ord obtain e where e: "order_internal i to d = Some e" and d': "d' = e\<lparr>ordered := (i, to, to \<notin> set (started d)) # ordered d\<rparr>"
    by (auto simp: order_def)
  have act: "i \<notin> set (retired d)" "to \<notin> set (retired d)" using core_token [OF core] assms(2,3) by (simp_all add: tokens_def)
  from core_order [OF e core assms(3) act(1)] have r: "core_inv None e W" "(i, to) \<in> (edge (routines e))\<^sup>+"
    "edge (routines d) \<subseteq> (edge (routines e))\<^sup>+" "same_logs d e" by blast+
  have fields: "retired e = retired d" "started e = started d" "ordered e = ordered d" "posted e = posted d" "uncalled (routines e) = uncalled (routines d)"
    using r(4) by (simp_all add: same_logs_def)
  have "core_inv None d' W = core_inv None e W" by (rule core_inv_cong) (simp_all add: d')
  with r(1) have "core_inv None d' W" by simp
  moreover have "log_inv d'" using log_inv_same [OF r(4)] inv by (simp add: d' log_inv_cong dag_ok_def)
  moreover have "order_inv e" by (rule order_inv_mono [of d]) (use inv r(3) in \<open>simp_all add: dag_ok_def fields\<close>)
  then have "order_inv d'" using r(2) act by (auto simp: order_inv_def d' fields)
  moreover have "called (routines d') f" if "f \<in># W" for f
  proof (rule called_mono)
    show "called (routines d) f" using inv that by (simp add: dag_ok_def)
  qed (simp add: d' fields)
  ultimately show ?thesis by (simp add: dag_ok_def d' fields)
qed

lemma defer_ok:
  assumes inv: "dag_ok d W" and "0 < handles d i \<or> Run i \<in># W"
  shows "dag_ok (defer_routine i d) W"
proof -
  have s: "same_logs d (add_lock i d)" by (rule same_logs_add_lock)
  have e: "edge (routines (add_lock i d)) = edge (routines d)"
    using same_next_graph(1) by (auto simp: add_lock_def set_routine_def split: option.splits)
  have "log_inv (defer_routine i d)" using log_inv_same [OF s] inv by (simp add: defer_routine_def log_inv_cong dag_ok_def)
  moreover have "order_inv (defer_routine i d)"
    by (rule order_inv_mono [of d]) (use inv s in \<open>auto simp: dag_ok_def defer_routine_def same_logs_def e\<close>)
  moreover have unc: "uncalled (routines (defer_routine i d)) = uncalled (routines d)" using s by (simp add: same_logs_def defer_routine_def)
  moreover have "called (routines (defer_routine i d)) f" if "f \<in># W" for f
    by (rule called_mono [of "routines d" f]) (use inv that in \<open>simp_all add: dag_ok_def unc\<close>)
  ultimately show ?thesis using core_defer [OF _ assms(2)] inv by (simp add: dag_ok_def)
qed

lemma dispatch_ok:
  assumes inv: "dag_ok d W" and "0 < handles d i" and "Run i \<notin># W" "Check i \<notin># W"
    and disp: "dispatch i (d\<lparr>handles := (handles d)(i := handles d i - 1)\<rparr>) = (d', calls)"
  shows "\<exists>ps. posted d' = posted d @ ps \<and> dag_ok d' (W + mset (map Exec ps @ calls))"
proof -
  let ?d = "d\<lparr>handles := (handles d)(i := handles d i - 1)\<rparr>"
  have "core_inv (Some i) ?d W" using inv assms(2-4) by (intro core_use_handle) (simp_all add: dag_ok_def)
  from dispatch_core [OF this disp] obtain ps where ps: "posted d' = posted d @ ps" "core_inv None d' (W + mset (map Exec ps @ calls))" by auto
  moreover have "log_inv d' \<and> order_inv d'"
    using inv by (intro dispatch_keeps [OF disp]) (simp_all add: dag_ok_def log_inv_cong order_inv_def)
  moreover have unc: "uncalled (routines d') = uncalled (routines d)"
    using dispatch_logs(1) [OF disp] by (simp add: same_logs_def)
  moreover have "called (routines d') f" if "f \<in># W" for f
    by (rule called_mono [of "routines d" f]) (use inv that in \<open>simp_all add: dag_ok_def unc\<close>)
  moreover have "called (routines d') f" if "f \<in> set calls" for f
    using disp that by (auto simp: dispatch_def Let_def split: option.splits if_splits)
  ultimately show ?thesis by (auto simp: dag_ok_def)
qed

lemma dag_step_inv: "dag_inv s \<Longrightarrow> dag_step True s s' \<Longrightarrow> dag_inv s'"
proof (erule dag_step.cases, goal_cases)
  case (1 w f p d i d' ts)
  have "posted d' = posted d" using 1(4) by (auto simp: allocate_def)
  with allocate_ok [OF _ 1(4), of "work d ts"] 1(1-3) show ?case by (simp add: dag_inv_def work_def)
next
  case (2 d i to d' ts)
  with order_ok [of d "work d ts" i to d'] show ?case by (simp add: dag_inv_def work_def)
next
  case (3 d i ts)
  have "0 < handles d i \<or> Run i \<in># work d ts" using 3(4) by (auto simp: frame_in_work)
  with defer_ok [of d "work d ts" i] 3(1-3) show ?case
    by (simp add: dag_inv_def work_def defer_routine_def add_lock_def set_routine_def split: option.splits)
next
  case (4 t ts d i d' calls)
  have "Run i \<notin># work d ts" "Check i \<notin># work d ts" using 4(6) by (auto simp: frame_in_work)
  with dispatch_ok [OF _ 4(5) _ _ 4(7), of "work d ts"] 4(1-3) obtain ps where
    "posted d' = posted d @ ps" "dag_ok d' (work d ts + mset (map Exec ps @ calls))" by (auto simp: dag_inv_def)
  then show ?case using 4(3,4) mset_concat_update [OF 4(4), of "calls @ ts ! t"] mset_concat_nth [OF 4(4)]
    by (simp add: dag_inv_def work_def ac_simps)
next
  case (5 t ts d xs i ys)
  then show ?case using mset_concat_update [OF 5(4), of "Exec i # ts ! t"] mset_concat_nth [OF 5(4)]
    by (simp add: dag_inv_def work_def dag_ok_posted)
next
  case (6 t ts f fs d d' calls)
  define V where "V = mset (map Exec (posted d)) + mset fs + mset (concat (ts[t := []]))"
  have "dag_ok d (add_mset f V)"
    using 6(1-3,5) mset_concat_nth [OF 6(4)] by (simp add: dag_inv_def work_def V_def ac_simps)
  from execute_step_ok [OF this 6(6)] obtain ps where "posted d' = posted d @ ps" "dag_ok d' (V + mset (map Exec ps @ calls))" by blast
  then show ?case using 6(3) mset_concat_update [OF 6(4), of "calls @ fs"] by (simp add: dag_inv_def work_def V_def ac_simps)
qed

interpretation dag: step_invariant "dag_step True" dag_inv
  by unfold_locales (rule dag_step_inv)

lemma routine_at_Nil [simp]: "routine_at [] i = None"
  by (simp add: routine_at_def)

lemma dag_inv_init: "dag_inv (dispatcher_init, replicate n [])"
  by (simp add: dag_inv_def dag_ok_def core_inv_def lock_inv_def work_inv_def log_inv_def order_inv_def work_def dispatcher_init_def
      tokens_def edges_def edge_def acyclic_def alive_def live_def freed_def uncalled_def)

definition dag_reachable :: "bool \<Rightarrow> nat \<Rightarrow> dispatcher_t \<Rightarrow> frame list list \<Rightarrow> bool" where
  "dag_reachable apart n d ts \<longleftrightarrow> (dag_step apart)\<^sup>*\<^sup>* (dispatcher_init, replicate n []) (d, ts)"

lemma reachable_dag_ok: "dag_reachable apart n d ts \<Longrightarrow> apart \<Longrightarrow> dag_ok d (work d ts)"
  using dag.reachable_inv [OF _ dag_inv_init] unfolding dag_reachable_def by (fastforce simp: dag_inv_def)

section \<open>Schedules\<close>

text \<open>A schedule is a list of calls of the clients and of steps of the threads, played one after another.\<close>

datatype dag_action = Allocate "nat option" bool nat | Order nat nat | Defer nat | Dispatch nat nat | Pick nat nat | Go nat

fun dag_perform :: "bool \<Rightarrow> dispatcher_t \<times> frame list list \<Rightarrow> dag_action \<Rightarrow> (dispatcher_t \<times> frame list list) option" where
  "dag_perform apart (d, ts) (Allocate w f p) =
     (let (i, d') = allocate w f p d
      in Some (d'\<lparr>handles := (handles d)(i := 1), with_function := (if f then i # with_function d else with_function d)\<rparr>, ts))"
| "dag_perform apart (d, ts) (Order i j) =
     (if 0 < handles d i \<and> 0 < handles d j then map_option (\<lambda>d'. (d', ts)) (order i j d) else None)"
| "dag_perform apart (d, ts) (Defer i) =
     (if 0 < handles d i \<or> (\<exists>fs \<in> set ts. Run i \<in> set fs) then Some (defer_routine i d, ts) else None)"
| "dag_perform apart (d, ts) (Dispatch t i) =
     (if t < length ts \<and> 0 < handles d i \<and> (apart \<longrightarrow> (\<forall>fs \<in> set ts. Run i \<notin> set fs \<and> Check i \<notin> set fs)) then
        let (d', calls) = dispatch i (d\<lparr>handles := (handles d)(i := handles d i - 1)\<rparr>) in Some (d', ts[t := calls @ ts ! t])
      else None)"
| "dag_perform apart (d, ts) (Pick t k) =
     (if t < length ts \<and> k < length (posted d) then
        Some (d\<lparr>posted := take k (posted d) @ drop (Suc k) (posted d)\<rparr>, ts[t := Exec (posted d ! k) # ts ! t])
      else None)"
| "dag_perform apart (d, ts) (Go t) =
     (if t < length ts \<and> ts ! t \<noteq> [] then
        map_option (\<lambda>(d', calls). (d', ts[t := calls @ tl (ts ! t)])) (dag_execute_step (hd (ts ! t)) d)
      else None)"

lemma dag_perform_step: "dag_perform apart s e = Some s' \<Longrightarrow> dag_step apart s s'"
proof (cases s; cases e)
  fix d ts t k
  assume "dag_perform apart s e = Some s'" "s = (d, ts)" "e = Pick t k"
  moreover from this have "posted d = take k (posted d) @ posted d ! k # drop (Suc k) (posted d)"
    by (simp add: id_take_nth_drop split: if_splits)
  ultimately show "dag_step apart s s'" using dag_step.pick [of t ts d "take k (posted d)" "posted d ! k" "drop (Suc k) (posted d)"]
    by (auto split: if_splits)
next
  fix d ts w f p
  assume "dag_perform apart s e = Some s'" "s = (d, ts)" "e = Allocate w f p"
  then show "dag_step apart s s'" using dag_step.allocate [of w f p d _ _ apart ts] by (auto split: prod.splits)
next
  fix d ts t
  assume a: "dag_perform apart s e = Some s'" "s = (d, ts)" "e = Go t"
  then obtain d' calls where g: "t < length ts" "ts ! t \<noteq> []" "dag_execute_step (hd (ts ! t)) d = Some (d', calls)" "s' = (d', ts[t := calls @ tl (ts ! t)])"
    by (auto split: if_splits)
  from dag_step.run [OF g(1) _ g(3), of "tl (ts ! t)"] g(2) show "dag_step apart s s'" by (simp add: a(2) g(4))
qed (auto split: if_splits prod.splits intro: dag_step.intros)

lemma dag_play_reachable:
  assumes "run_requests (dag_perform apart) (dispatcher_init, replicate n []) es = Some (d, ts)"
  shows "dag_reachable apart n d ts"
proof -
  have "(dag_step apart)\<^sup>*\<^sup>* s s'" if "run_requests (dag_perform apart) s es = Some s'" for s s'
    using that by (induction es arbitrary: s) (auto split: option.splits intro: converse_rtranclp_into_rtranclp dag_perform_step)
  with assms show ?thesis by (simp add: dag_reachable_def)
qed

text \<open>Two routines, the second one after the first, are run by one thread.\<close>

definition two_routines :: "dag_action list" where
  "two_routines = [Allocate None True 0, Allocate (Some 7) True 0, Order 0 1, Dispatch 0 1, Dispatch 0 0, Pick 0 0, Go 0, Go 0, Go 0]"

definition two_done :: "dag_action list" where
  "two_done = two_routines @ [Go 0, Pick 0 0, Go 0, Go 0, Go 0] @ replicate 9 (Go 0)"

lemma two_done_run:
  "map_option (\<lambda>(d, ts). ((posted d, started d, retired d, with_function d, ordered d), length (routines d), map (handles d) [0, 1], ts))
     (run_requests (dag_perform True) (dispatcher_init, replicate 1 []) two_done) =
   Some (([], [1, 0], [1, 0], [1, 0], [(0, 1, True)]), 2, [0, 0], [[]])"
  by code_simp

lemma two_done_reached:
  obtains d where "dag_reachable True 1 d [[]]" "posted d = []" "started d = [1, 0]" "with_function d = [1, 0]" "ordered d = [(0, 1, True)]"
    "\<forall>i. handles d i = 0"
proof -
  from two_done_run obtain d where d: "run_requests (dag_perform True) (dispatcher_init, replicate 1 []) two_done = Some (d, [[]])"
    "posted d = []" "started d = [1, 0]" "with_function d = [1, 0]" "ordered d = [(0, 1, True)]" "length (routines d) = 2"
    "handles d 0 = 0" "handles d 1 = 0" by auto
  have r: "dag_reachable True 1 d [[]]" by (rule dag_play_reachable [OF d(1)])
  have "handles d i = 0" for i
  proof (rule ccontr)
    assume pos: "handles d i \<noteq> 0"
    then have "alive d i" using reachable_dag_ok [OF r TrueI] core_token [of None d _ i] by (auto simp: dag_ok_def tokens_def)
    then have "i < 2" using d(6) by (auto simp: alive_def dest: routine_at_Some)
    with pos d(7,8) show False by (auto simp: less_2_cases_iff)
  qed
  with that d r show ?thesis by blast
qed

section \<open>Properties\<close>

text \<open>
  C8. Dependencies are kept, in every schedule of any number of threads in which no handle is dispatched while the function of its routine runs or has not been
  followed by the look at the count: when \<open>order (a, b)\<close> was called before \<open>b\<close> started, the function of \<open>b\<close> starts only after \<open>a\<close>
  is done, and in any case \<open>b\<close> is done only after \<open>a\<close>. Every function is called at most once.
\<close>

theorem dag_order_respected:
  assumes "dag_reachable apart n d ts" and apart and "(a, b, fresh) \<in> set (ordered d)"
  shows "(fresh \<and> b \<in> set (started d) \<longrightarrow> a \<in> set (retired d)) \<and> (b \<in> set (retired d) \<longrightarrow> a \<in> set (retired d)) \<and> distinct (started d)"
  using reachable_dag_ok [OF assms(1,2)] assms(3) by (fastforce simp: dag_ok_def order_inv_def log_inv_def)

theorem dag_order_respected_witness:
  "\<exists>d. dag_reachable True 1 d [[]] \<and> 0 \<in> set (retired d) \<and> set (started d) = {0, 1}"
proof -
  obtain d where d: "dag_reachable True 1 d [[]]" "started d = [1, 0]" "ordered d = [(0, 1, True)]" by (rule two_done_reached)
  from dag_order_respected [OF d(1) TrueI, of 0 1 True] d show ?thesis by (auto intro!: exI [of _ d])
qed

text \<open>
  C9. Nothing is forgotten, under the same condition on the schedule: when the clients hold no handles, nothing is posted and no thread is inside the dispatcher, every routine was
  freed, every function was called exactly once, and the count of pending routines is zero.
\<close>

theorem dag_nothing_forgotten:
  assumes "dag_reachable apart n d ts" and apart and "\<forall>i. handles d i = 0" and "posted d = []" and "\<forall>fs \<in> set ts. fs = []"
  shows "freed (routines d) = {..<length (routines d)} \<and> pending_count d = 0 \<and>
    set (started d) = set (with_function d) \<and> distinct (started d)"
proof -
  have ok: "dag_ok d {#}" using reachable_dag_ok [OF assms(1,2)] assms(4,5) by (simp add: work_def concat_eq_Nil_conv [THEN iffD2])
  then have core: "core_inv None d {#}" by (simp add: dag_ok_def)
  have pred: "i \<in> Range (edge (routines d))" if "alive d i" for i
    using core that assms(3) edges_0_iff [of "routines d" i] by (auto simp: core_inv_def work_inv_def tokens_def)
  have "wf (edge (routines d))" using core finite_edge by (intro finite_acyclic_wf) (simp_all add: core_inv_def)
  have "\<not> alive d i" for i
  proof
    assume "alive d i"
    then obtain z where "alive d z" and least: "\<And>y. (y, z) \<in> edge (routines d) \<Longrightarrow> \<not> alive d y"
      using wfE_min [OF \<open>wf (edge (routines d))\<close>, of i "Collect (alive d)"] by (metis mem_Collect_eq)
    from pred [OF this(1)] obtain y where y: "(y, z) \<in> edge (routines d)" by blast
    from least [OF this] y show False by (auto simp: edge_def alive_def)
  qed
  then have dead: "routine_at (routines d) i = None" for i by (simp add: alive_def)
  then have all: "routines d ! i = None" if "i < length (routines d)" for i using that by (metis routine_at_def)
  have "live (routines d) = 0" using all by (auto simp: live_def in_set_conv_nth)
  moreover have "uncalled (routines d) = {}" using dead by (auto simp: uncalled_def)
  ultimately show ?thesis using ok all by (auto simp: dag_ok_def log_inv_def freed_def)
qed

theorem dag_nothing_forgotten_witness:
  "\<exists>d. dag_reachable True 1 d [[]] \<and> pending_count d = 0 \<and> set (started d) = {0, 1}"
proof -
  obtain d where d: "dag_reachable True 1 d [[]]" "posted d = []" "started d = [1, 0]" "\<forall>i. handles d i = 0" by (rule two_done_reached)
  from dag_nothing_forgotten [OF d(1) TrueI d(4,2)] d(1,3) show ?thesis by (auto intro!: exI [of _ d])
qed



text \<open>
  Without the condition a thread reads a freed routine: a function defers its own routine and dispatches the handle before it returns. The routine, whose function was moved out, is
  executed at once inside and freed, and the \<open>execute\<close> around it looks at its count.
\<close>

lemma deferred_routine_read_freed:
  "map_option (\<lambda>(d, ts). (ts, routine_at (routines d) 0, dag_execute_step (Check 0) d = None))
     (run_requests (dag_perform False) (dispatcher_init, [[]])
       ([Allocate None True 0, Dispatch 0 0, Pick 0 0, Go 0, Defer 0, Dispatch 0 0] @ replicate 8 (Go 0))) =
   Some ([[Check 0]], None, True)"
  by code_simp

text \<open>
  A routine without a function that a client allocated is taken for a junction once it stands in the first of four taken slots. The new
  dependency is then put behind it, which closes a cycle where the graph of the client has none: routine 5 is ordered before the empty routine 1, and after
  routine 0, whose slots are taken by 1, 2, 3 and 4.
\<close>

definition junction_confused :: "dag_action list" where
  "junction_confused = [Allocate None True 0, Allocate None False 0, Allocate None True 0, Allocate None True 0, Allocate None True 0,
     Allocate None True 0, Order 0 1, Order 0 2, Order 0 3, Order 0 4, Order 5 1]"

lemma empty_routine_taken_for_junction:
  "(case run_requests (dag_perform True) (dispatcher_init, [[]]) junction_confused of
      None \<Rightarrow> False | Some (d, ts) \<Rightarrow> validate (routines d) 0 [5] = Some () \<and> order 0 5 d = None)"
  by code_simp

end
