(* ===== verification/Worker.thy ===== *)
theory Worker
  imports Prelude "HOL-Library.Multiset"
begin

text \<open>
  The pool of worker threads \<open>iris_async_worker_t\<close> of \<open>iris_dispatcher.h\<close>, in the variant that parks idle threads on an atomic word. The tasks are numbers; a slot of
  \<open>task_heads\<close> is the list of the tasks chained in it, newest first. The internal threads and the clients, which queue tasks, drain the slots
  or stop the pool, each stand at a program point; a step is one access to a shared atomic, in sequentially consistent order. A compare-and-swap loop is the step that succeeds. The
  epoch is a natural number: it wraps after \<open>2 ^ 64\<close> wake-ups. The priority handler is the default one, which declines, and no
  thread waits in the timed \<open>poll_one\<close>.
\<close>

section \<open>The pool\<close>

text \<open>\<open>submitted\<close> and \<open>executed\<close> are logs.\<close>

record worker_t =
  thread_count :: nat
  internal_thread_count :: nat
  task_heads :: "nat list list"
  terminated :: bool
  running_count :: nat
  task_count :: nat
  waiting_thread_count :: nat
  limit_count :: nat
  wake_epoch :: nat
  submitted :: "nat list"
  executed :: "nat list"

definition task_head_duplicate_count :: nat where
  "task_head_duplicate_count = 4"

text \<open>\<open>start\<close>, with \<open>n\<close> internal threads and \<open>extra\<close> appended ones.\<close>

definition worker_start :: "nat \<Rightarrow> nat \<Rightarrow> nat \<Rightarrow> worker_t" where
  "worker_start n extra limit =
     \<lparr>thread_count = n + extra, internal_thread_count = n, task_heads = replicate ((n + extra) * task_head_duplicate_count) [],
      terminated = False, running_count = 0, task_count = 0, waiting_thread_count = 0, limit_count = limit, wake_epoch = 0,
      submitted = [], executed = []\<rparr>"

text \<open>The order in which \<open>fetch\<close> looks at the slots, for the thread with index \<open>t\<close>.\<close>

definition fetch_order :: "worker_t \<Rightarrow> nat \<Rightarrow> nat \<Rightarrow> nat list" where
  "fetch_order w t priority_size =
     concat (map (\<lambda>k. map (\<lambda>n. ((k + t) mod task_head_duplicate_count) * thread_count w + n) [0..<priority_size])
       [0..<task_head_duplicate_count])"

text \<open>The number of priorities \<open>poll_one\<close> looks at.\<close>

definition poll_size :: "worker_t \<Rightarrow> nat \<Rightarrow> nat" where
  "poll_size w inv_priority = thread_count w + 1 - min (inv_priority + 1) (thread_count w)"

definition slot_priority :: "worker_t \<Rightarrow> nat \<Rightarrow> nat" where
  "slot_priority w i = i mod thread_count w"

definition set_head :: "nat \<Rightarrow> nat list \<Rightarrow> worker_t \<Rightarrow> worker_t" where
  "set_head i xs w = w\<lparr>task_heads := (task_heads w)[i := xs]\<rparr>"

section \<open>The internal threads\<close>

text \<open>Where a scan of the slots goes on.\<close>

datatype scan = Poll_Scan nat | Extra_Scan nat nat | Spin_Scan nat | Park_Scan | Final_Scan nat

datatype worker_pc =
    Loop_Check | Poll_Enter | Scan scan "nat list" | Poll_Load nat nat | Poll_Take nat nat | Poll_Put nat nat nat "nat list"
  | Poll_Return nat nat "nat list" | Poll_Waiters nat nat nat | Poll_Gate nat nat | Poll_Bump nat | Poll_Notify nat
  | Exec nat | Exec_Count | Poll_Leave bool
  | Delay_Check | Delay_Enter | Spin_Check nat | Spin_Count nat | Spin_Waiting nat | Park_Waiting | Epoch_Load | Epoch_Check nat
  | Final_Waiting nat | Compare nat | Blocked nat | Delay_Leave | Stopped

text \<open>What a scan does when it meets a task in slot \<open>i\<close>, and when it meets none.\<close>

fun scan_found :: "scan \<Rightarrow> nat \<Rightarrow> worker_pc" where
  "scan_found (Poll_Scan s) i = Poll_Load s i"
| "scan_found (Extra_Scan p x) i = Poll_Gate p x"
| "scan_found (Spin_Scan k) i = Delay_Leave"
| "scan_found Park_Scan i = Delay_Leave"
| "scan_found (Final_Scan e) i = Delay_Leave"

definition delay_spin_rounds :: nat where
  "delay_spin_rounds = 32"

definition spin_next :: "nat \<Rightarrow> worker_pc" where
  "spin_next k = (if k < delay_spin_rounds then Spin_Check (k + 1) else Park_Waiting)"

fun scan_none :: "scan \<Rightarrow> worker_pc" where
  "scan_none (Poll_Scan s) = Poll_Leave False"
| "scan_none (Extra_Scan p x) = Exec x"
| "scan_none (Spin_Scan k) = spin_next k"
| "scan_none Park_Scan = Epoch_Load"
| "scan_none (Final_Scan e) = Compare e"

text \<open>\<open>fetch\<close>, one slot at a time\<close>

fun fetch_step :: "worker_pc \<Rightarrow> worker_t \<Rightarrow> worker_t \<times> worker_pc" where
  "fetch_step (Scan c (i # is)) w = (w, if task_heads w ! i \<noteq> [] then scan_found c i else Scan c is)"
| "fetch_step (Scan c []) w = (w, scan_none c)"
| "fetch_step pc w = (w, pc)"

text \<open>\<open>thread_loop\<close> and \<open>poll_one\<close>\<close>

fun poll_one_step :: "nat \<Rightarrow> worker_pc \<Rightarrow> worker_t \<Rightarrow> worker_t \<times> worker_pc" where
  "poll_one_step t Loop_Check w = (w, if terminated w then Stopped else Poll_Enter)"
| "poll_one_step t Poll_Enter w =
     (w\<lparr>running_count := running_count w + 1\<rparr>,
      Scan (Poll_Scan (poll_size w (running_count w))) (fetch_order w t (poll_size w (running_count w))))"
| "poll_one_step t (Poll_Leave b) w = (w\<lparr>running_count := running_count w - 1\<rparr>, if b then Loop_Check else Delay_Check)"
| "poll_one_step t pc w = (w, pc)"

text \<open>\<open>poll_one_internal\<close>: the chain is taken, all but its first task put back, and what was chained in between is returned.\<close>

fun poll_one_internal_step :: "nat \<Rightarrow> worker_pc \<Rightarrow> worker_t \<Rightarrow> worker_t \<times> worker_pc" where
  "poll_one_internal_step t (Poll_Load s i) w = (w, if task_heads w ! i \<noteq> [] then Poll_Take s i else Poll_Leave True)"
| "poll_one_internal_step t (Poll_Take s i) w =
     (set_head i [] w, case task_heads w ! i of [] \<Rightarrow> Poll_Leave True | x # xs \<Rightarrow> Poll_Put s i x xs)"
| "poll_one_internal_step t (Poll_Put s i x xs) w =
     (set_head i xs w,
      if task_heads w ! i \<noteq> [] then Poll_Return i x (task_heads w ! i) else Poll_Waiters s (slot_priority w i) x)"
| "poll_one_internal_step t (Poll_Return i x (y # ys)) w =
     (set_head i (y # task_heads w ! i) w, if ys = [] then Poll_Gate (slot_priority w i) x else Poll_Return i x ys)"
| "poll_one_internal_step t (Poll_Waiters s p x) w =
     (w, if waiting_thread_count w > p + limit_count w then Scan (Extra_Scan p x) (fetch_order w t s) else Exec x)"
| "poll_one_internal_step t (Poll_Gate p x) w = (w, if waiting_thread_count w > p + limit_count w then Poll_Bump x else Exec x)"
| "poll_one_internal_step t (Poll_Bump x) w = (w\<lparr>wake_epoch := wake_epoch w + 1\<rparr>, Poll_Notify x)"
| "poll_one_internal_step t pc w = (w, pc)"

text \<open>\<open>execute_task\<close>: the task runs, and its guard takes it off the count.\<close>

fun execute_task_step :: "worker_pc \<Rightarrow> worker_t \<Rightarrow> worker_t \<times> worker_pc" where
  "execute_task_step (Exec x) w = (w\<lparr>executed := x # executed w\<rparr>, Exec_Count)"
| "execute_task_step Exec_Count w = (w\<lparr>task_count := task_count w - 1\<rparr>, Poll_Leave True)"
| "execute_task_step pc w = (w, pc)"

text \<open>\<open>delay\<close>\<close>

fun delay_step :: "nat \<Rightarrow> worker_pc \<Rightarrow> worker_t \<Rightarrow> worker_t \<times> worker_pc" where
  "delay_step t Delay_Check w = (w, if terminated w then Loop_Check else Delay_Enter)"
| "delay_step t Delay_Enter w = (w\<lparr>waiting_thread_count := waiting_thread_count w + 1\<rparr>, Spin_Check 0)"
| "delay_step t (Spin_Check k) w = (w, if terminated w then Delay_Leave else Spin_Count k)"
| "delay_step t (Spin_Count k) w = (w, if task_count w \<noteq> 0 then Spin_Waiting k else spin_next k)"
| "delay_step t (Spin_Waiting k) w = (w, Scan (Spin_Scan k) (fetch_order w t (waiting_thread_count w)))"
| "delay_step t Park_Waiting w = (w, Scan Park_Scan (fetch_order w t (waiting_thread_count w)))"
| "delay_step t Epoch_Load w = (w, Epoch_Check (wake_epoch w))"
| "delay_step t (Epoch_Check e) w = (w, if terminated w then Delay_Leave else Final_Waiting e)"
| "delay_step t (Final_Waiting e) w = (w, Scan (Final_Scan e) (fetch_order w t (waiting_thread_count w)))"
| "delay_step t (Compare e) w = (w, if wake_epoch w \<noteq> e then Spin_Check 0 else Blocked e)"
| "delay_step t Delay_Leave w = (w\<lparr>waiting_thread_count := waiting_thread_count w - 1\<rparr>, Loop_Check)"
| "delay_step t pc w = (w, pc)"

definition worker_advance :: "nat \<Rightarrow> worker_pc \<Rightarrow> worker_t \<Rightarrow> worker_t \<times> worker_pc" where
  "worker_advance t pc w =
     (case pc of
        Scan c is \<Rightarrow> fetch_step pc w
      | Loop_Check \<Rightarrow> poll_one_step t pc w | Poll_Enter \<Rightarrow> poll_one_step t pc w | Poll_Leave b \<Rightarrow> poll_one_step t pc w
      | Poll_Load s i \<Rightarrow> poll_one_internal_step t pc w | Poll_Take s i \<Rightarrow> poll_one_internal_step t pc w
      | Poll_Put s i x xs \<Rightarrow> poll_one_internal_step t pc w | Poll_Return i x ys \<Rightarrow> poll_one_internal_step t pc w
      | Poll_Waiters s p x \<Rightarrow> poll_one_internal_step t pc w | Poll_Gate p x \<Rightarrow> poll_one_internal_step t pc w
      | Poll_Bump x \<Rightarrow> poll_one_internal_step t pc w | Exec x \<Rightarrow> execute_task_step pc w
      | Exec_Count \<Rightarrow> execute_task_step pc w
      | _ \<Rightarrow> delay_step t pc w)"

section \<open>The clients\<close>

text \<open>
  A client queues a task (\<open>Queue_Check\<close> to \<open>Queue_Notify\<close>), calls \<open>poll\<close> (\<open>Drain_Take\<close> and \<open>Drain_Exec\<close>) or stops the pool. The slot a task is
  chained to when all are taken depends on addresses and is left open.
\<close>

datatype client_pc =
    Idle | Queue_Check nat nat | Queue_Try nat nat "nat list" | Queue_Chain nat nat nat | Queue_Late nat
  | Queue_Gate nat | Queue_Bump | Queue_Notify
  | Drain_Take nat | Drain_Exec nat nat "nat list" | Drain_Count nat "nat list"
  | Stop_Bump | Stop_Notify

text \<open>\<open>queue_task\<close>, up to the choice of the slot; \<open>t\<close> is the index of the current thread.\<close>

definition clamp_priority :: "worker_t \<Rightarrow> nat \<Rightarrow> nat" where
  "clamp_priority w p = min p (max (internal_thread_count w) 1 - 1)"

fun queue_task_step :: "nat \<Rightarrow> client_pc \<Rightarrow> worker_t \<Rightarrow> worker_t \<times> client_pc" where
  "queue_task_step t (Queue_Check p x) w =
     (w, if \<not> terminated w
         then Queue_Try (clamp_priority w p) x (map (\<lambda>n. (n + t) mod task_head_duplicate_count) [0..<task_head_duplicate_count])
         else Queue_Late x)"
| "queue_task_step t (Queue_Try p x (k # ks)) w =
     (let i = p + k * thread_count w
      in if task_heads w ! i = [] then (set_head i [x] w, Queue_Gate p) else (w, if ks = [] then Queue_Chain p x k else Queue_Try p x ks))"
| "queue_task_step t (Queue_Chain p x k) w =
     (let i = p + k * thread_count w in (set_head i (x # task_heads w ! i) w, Queue_Gate p))"
| "queue_task_step t (Queue_Late x) w = (set_head 0 (x # task_heads w ! 0) w, Idle)"
| "queue_task_step t pc w = (w, pc)"

text \<open>\<open>wakeup_one_with_priority\<close> and \<open>wakeup_one\<close>\<close>

fun wakeup_step :: "client_pc \<Rightarrow> worker_t \<Rightarrow> worker_t \<times> client_pc" where
  "wakeup_step (Queue_Gate p) w = (w, if waiting_thread_count w > p + limit_count w then Queue_Bump else Idle)"
| "wakeup_step Queue_Bump w = (w\<lparr>wake_epoch := wake_epoch w + 1\<rparr>, Queue_Notify)"
| "wakeup_step Stop_Bump w = (w\<lparr>wake_epoch := wake_epoch w + 1\<rparr>, Stop_Notify)"
| "wakeup_step pc w = (w, pc)"

text \<open>\<open>poll\<close>, which \<open>join\<close> repeats: every slot is emptied and its tasks executed.\<close>

fun poll_step :: "client_pc \<Rightarrow> worker_t \<Rightarrow> worker_t \<times> client_pc" where
  "poll_step (Drain_Take i) w =
     (if i < length (task_heads w) then
        (set_head i [] w, case task_heads w ! i of [] \<Rightarrow> Drain_Take (i + 1) | x # xs \<Rightarrow> Drain_Exec i x xs)
      else (w, Idle))"
| "poll_step (Drain_Exec i x xs) w = (w\<lparr>executed := x # executed w\<rparr>, Drain_Count i xs)"
| "poll_step (Drain_Count i xs) w =
     (w\<lparr>task_count := task_count w - 1\<rparr>, case xs of [] \<Rightarrow> Drain_Take (i + 1) | y # ys \<Rightarrow> Drain_Exec i y ys)"
| "poll_step pc w = (w, pc)"

definition client_advance :: "nat \<Rightarrow> client_pc \<Rightarrow> worker_t \<Rightarrow> worker_t \<times> client_pc" where
  "client_advance t pc w =
     (case pc of
        Queue_Check p x \<Rightarrow> queue_task_step t pc w | Queue_Try p x ks \<Rightarrow> queue_task_step t pc w
      | Queue_Chain p x k \<Rightarrow> queue_task_step t pc w | Queue_Late x \<Rightarrow> queue_task_step t pc w
      | Drain_Take i \<Rightarrow> poll_step pc w | Drain_Exec i x xs \<Rightarrow> poll_step pc w | Drain_Count i xs \<Rightarrow> poll_step pc w
      | _ \<Rightarrow> wakeup_step pc w)"

section \<open>Steps\<close>

type_synonym pool = "worker_t \<times> worker_pc list \<times> client_pc list"

text \<open>
  \<open>wake\<close> stands for the effect of \<open>notify_one\<close> on the parked threads: one of them compares again, or none if none is parked. A parked thread may also wake up for
  no reason.
\<close>

inductive wake :: "worker_pc list \<Rightarrow> worker_pc list \<Rightarrow> bool" where
  one: "u < length ws \<Longrightarrow> ws ! u = Blocked e \<Longrightarrow> wake ws (ws[u := Compare e])"
| none: "\<forall>u < length ws. \<forall>e. ws ! u \<noteq> Blocked e \<Longrightarrow> wake ws ws"

definition wake_all :: "worker_pc list \<Rightarrow> worker_pc list" where
  "wake_all ws = map (\<lambda>pc. case pc of Blocked e \<Rightarrow> Compare e | _ \<Rightarrow> pc) ws"

inductive pool_step :: "pool \<Rightarrow> pool \<Rightarrow> bool" where
  worker: "u < length ws \<Longrightarrow> \<forall>x e. ws ! u \<noteq> Poll_Notify x \<and> ws ! u \<noteq> Blocked e \<Longrightarrow> worker_advance u (ws ! u) w = (w', pc') \<Longrightarrow>
    pool_step (w, ws, cs) (w', ws[u := pc'], cs)"
| worker_notify: "u < length ws \<Longrightarrow> ws ! u = Poll_Notify x \<Longrightarrow> wake ws ws' \<Longrightarrow> pool_step (w, ws, cs) (w, ws'[u := Exec x], cs)"
| spurious: "u < length ws \<Longrightarrow> ws ! u = Blocked e \<Longrightarrow> pool_step (w, ws, cs) (w, ws[u := Compare e], cs)"
| client: "c < length cs \<Longrightarrow> cs ! c \<noteq> Queue_Notify \<Longrightarrow> cs ! c \<noteq> Stop_Notify \<Longrightarrow> client_advance t (cs ! c) w = (w', pc') \<Longrightarrow>
    pool_step (w, ws, cs) (w', ws, cs[c := pc'])"
| chain: "c < length cs \<Longrightarrow> cs ! c = Queue_Chain p x k \<Longrightarrow> k' < task_head_duplicate_count \<Longrightarrow>
    pool_step (w, ws, cs) (w, ws, cs[c := Queue_Chain p x k'])"
| client_notify: "c < length cs \<Longrightarrow> cs ! c = Queue_Notify \<Longrightarrow> wake ws ws' \<Longrightarrow> pool_step (w, ws, cs) (w, ws', cs[c := Idle])"
| stop_notify: "c < length cs \<Longrightarrow> cs ! c = Stop_Notify \<Longrightarrow> pool_step (w, ws, cs) (w, wake_all ws, cs[c := Idle])"
| queue: "c < length cs \<Longrightarrow> cs ! c = Idle \<Longrightarrow>
    pool_step (w, ws, cs) (w\<lparr>task_count := task_count w + 1, submitted := x # submitted w\<rparr>, ws, cs[c := Queue_Check p x])"
| drain: "c < length cs \<Longrightarrow> cs ! c = Idle \<Longrightarrow> pool_step (w, ws, cs) (w, ws, cs[c := Drain_Take 0])"
| terminate: "c < length cs \<Longrightarrow> cs ! c = Idle \<Longrightarrow> pool_step (w, ws, cs) (w\<lparr>terminated := True\<rparr>, ws, cs[c := Stop_Bump])"

definition pool_init :: "nat \<Rightarrow> nat \<Rightarrow> nat \<Rightarrow> nat \<Rightarrow> pool" where
  "pool_init n extra limit clients = (worker_start n extra limit, replicate n Loop_Check, replicate clients Idle)"

section \<open>Where the tasks are\<close>

text \<open>The tasks a thread or a client has in its hands.\<close>

fun holds :: "worker_pc \<Rightarrow> nat list" where
  "holds (Poll_Put s i x xs) = x # xs"
| "holds (Poll_Return i x ys) = x # ys"
| "holds (Poll_Waiters s p x) = [x]"
| "holds (Scan (Extra_Scan p x) is) = [x]"
| "holds (Poll_Gate p x) = [x]"
| "holds (Poll_Bump x) = [x]"
| "holds (Poll_Notify x) = [x]"
| "holds (Exec x) = [x]"
| "holds _ = []"

fun client_holds :: "client_pc \<Rightarrow> nat list" where
  "client_holds (Queue_Check p x) = [x]"
| "client_holds (Queue_Try p x ks) = [x]"
| "client_holds (Queue_Chain p x k) = [x]"
| "client_holds (Queue_Late x) = [x]"
| "client_holds (Drain_Exec i x xs) = x # xs"
| "client_holds (Drain_Count i xs) = xs"
| "client_holds _ = []"

text \<open>A task is counted until its execution is accounted for.\<close>

definition counts :: "worker_pc \<Rightarrow> nat" where
  "counts pc = length (holds pc) + (if pc = Exec_Count then 1 else 0)"

definition client_counts :: "client_pc \<Rightarrow> nat" where
  "client_counts pc = length (client_holds pc) + (case pc of Drain_Count i xs \<Rightarrow> 1 | _ \<Rightarrow> 0)"

text \<open>A thread in \<open>delay\<close> between the two updates of the count of waiting threads, and one in \<open>poll_one\<close>.\<close>

fun registered :: "worker_pc \<Rightarrow> bool" where
  "registered (Spin_Check k) = True"
| "registered (Spin_Count k) = True"
| "registered (Spin_Waiting k) = True"
| "registered (Scan (Spin_Scan k) is) = True"
| "registered Park_Waiting = True"
| "registered (Scan Park_Scan is) = True"
| "registered Epoch_Load = True"
| "registered (Epoch_Check e) = True"
| "registered (Final_Waiting e) = True"
| "registered (Scan (Final_Scan e) is) = True"
| "registered (Compare e) = True"
| "registered (Blocked e) = True"
| "registered Delay_Leave = True"
| "registered _ = False"

definition polling :: "worker_pc \<Rightarrow> bool" where
  "polling pc \<longleftrightarrow> \<not> registered pc \<and> pc \<noteq> Loop_Check \<and> pc \<noteq> Poll_Enter \<and> pc \<noteq> Delay_Check \<and> pc \<noteq> Delay_Enter \<and> pc \<noteq> Stopped"

text \<open>The slots a program point refers to exist, and a priority is one of an internal thread.\<close>

fun pc_ok :: "worker_t \<Rightarrow> worker_pc \<Rightarrow> bool" where
  "pc_ok w (Scan c is) = (\<forall>i \<in> set is. i < length (task_heads w))"
| "pc_ok w (Poll_Load s i) = (s \<le> thread_count w \<and> i < length (task_heads w))"
| "pc_ok w (Poll_Take s i) = (s \<le> thread_count w \<and> i < length (task_heads w))"
| "pc_ok w (Poll_Put s i x xs) = (s \<le> thread_count w \<and> i < length (task_heads w))"
| "pc_ok w (Poll_Waiters s p x) = (s \<le> thread_count w)"
| "pc_ok w (Poll_Return i x ys) = (i < length (task_heads w) \<and> ys \<noteq> [])"
| "pc_ok w _ = True"

definition scan_ok :: "worker_t \<Rightarrow> worker_pc \<Rightarrow> bool" where
  "scan_ok w pc \<longleftrightarrow> pc_ok w pc \<and> (\<forall>s is. pc = Scan (Poll_Scan s) is \<longrightarrow> s \<le> thread_count w)"

fun client_ok :: "worker_t \<Rightarrow> client_pc \<Rightarrow> bool" where
  "client_ok w (Queue_Try p x ks) = (p < internal_thread_count w \<and> ks \<noteq> [] \<and> (\<forall>k \<in> set ks. k < task_head_duplicate_count))"
| "client_ok w (Queue_Chain p x k) = (p < internal_thread_count w \<and> k < task_head_duplicate_count)"
| "client_ok w (Queue_Gate p) = (p < internal_thread_count w)"
| "client_ok w _ = True"

text \<open>The shape of the pool.\<close>

definition shape_inv :: "pool \<Rightarrow> bool" where
  "shape_inv s = (case s of (w, ws, cs) \<Rightarrow>
     0 < internal_thread_count w \<and> internal_thread_count w \<le> thread_count w \<and> length ws = internal_thread_count w \<and>
     length (task_heads w) = thread_count w * task_head_duplicate_count \<and>
     waiting_thread_count w = (\<Sum>pc \<leftarrow> ws. if registered pc then 1 else 0) \<and>
     running_count w = (\<Sum>pc \<leftarrow> ws. if polling pc then 1 else 0) \<and>
     (\<forall>pc \<in> set ws. scan_ok w pc) \<and> (\<forall>pc \<in> set cs. client_ok w pc))"

definition task_inv :: "pool \<Rightarrow> bool" where
  "task_inv s = (case s of (w, ws, cs) \<Rightarrow>
     mset (submitted w) = mset (executed w) + mset (concat (task_heads w)) + (\<Sum>pc \<leftarrow> ws. mset (holds pc)) + (\<Sum>pc \<leftarrow> cs. mset (client_holds pc)) \<and>
     task_count w = length (concat (task_heads w)) + (\<Sum>pc \<leftarrow> ws. counts pc) + (\<Sum>pc \<leftarrow> cs. client_counts pc))"

subsection \<open>The shape is kept\<close>

lemma set_fetch_order:
  "set (fetch_order w t s) =
   (\<Union>k \<in> {..<task_head_duplicate_count}. (\<lambda>n. ((k + t) mod task_head_duplicate_count) * thread_count w + n) ` {..<s})"
  unfolding fetch_order_def set_concat set_map atLeastLessThan_upt [symmetric] lessThan_atLeast0 by simp

lemma fetch_order_bound:
  assumes "s \<le> thread_count w" and "length (task_heads w) = thread_count w * task_head_duplicate_count"
  shows "\<forall>i \<in> set (fetch_order w t s). i < length (task_heads w)"
proof -
  have "m * thread_count w + n < thread_count w * task_head_duplicate_count" if "m < task_head_duplicate_count" "n < thread_count w" for m n
  proof -
    have "m * thread_count w + n < Suc m * thread_count w" using that(2) by simp
    also have "\<dots> \<le> task_head_duplicate_count * thread_count w" using that(1) by (intro mult_le_mono1) simp
    finally show ?thesis by (simp add: mult.commute)
  qed
  moreover have "0 < task_head_duplicate_count" by (simp add: task_head_duplicate_count_def)
  ultimately show ?thesis using assms unfolding set_fetch_order by auto
qed

lemma fetch_order_complete:
  assumes "i < thread_count w * task_head_duplicate_count" and "slot_priority w i < s" and "0 < thread_count w"
  shows "i \<in> set (fetch_order w t s)"
proof -
  let ?D = task_head_duplicate_count
  let ?m = "i div thread_count w"
  have D: "0 < ?D" by (simp add: task_head_duplicate_count_def)
  have m: "?m < ?D" using assms(1,3) by (simp add: less_mult_imp_div_less mult.commute)
  define k where "k = (?m + (?D - t mod ?D)) mod ?D"
  have "(k + t) mod ?D = (?m + (?D - t mod ?D) + t mod ?D) mod ?D" by (simp add: k_def mod_simps)
  also have "?m + (?D - t mod ?D) + t mod ?D = ?m + ?D" using mod_less_divisor [OF D, of t] by linarith
  also have "(?m + ?D) mod ?D = ?m" using m by simp
  finally have "(k + t) mod ?D = ?m" .
  moreover have "k < ?D" using D by (simp add: k_def)
  moreover have "i = ?m * thread_count w + slot_priority w i" by (simp add: slot_priority_def)
  ultimately show ?thesis unfolding set_fetch_order using assms(2)
    by (intro UN_I [of k] image_eqI [of _ _ "slot_priority w i"]) simp_all
qed

text \<open>What no step of a thread or client changes.\<close>

definition same_shape :: "worker_t \<Rightarrow> worker_t \<Rightarrow> bool" where
  "same_shape w w' \<longleftrightarrow> thread_count w' = thread_count w \<and> internal_thread_count w' = internal_thread_count w \<and>
     limit_count w' = limit_count w \<and> length (task_heads w') = length (task_heads w)"

lemmas worker_steps = worker_advance_def set_head_def spin_next_def same_shape_def

lemma set_head_simps [simp]:
  "task_heads (set_head i xs w) = (task_heads w)[i := xs]" "thread_count (set_head i xs w) = thread_count w"
  "internal_thread_count (set_head i xs w) = internal_thread_count w" "limit_count (set_head i xs w) = limit_count w"
  "waiting_thread_count (set_head i xs w) = waiting_thread_count w" "running_count (set_head i xs w) = running_count w"
  "task_count (set_head i xs w) = task_count w" "terminated (set_head i xs w) = terminated w" "wake_epoch (set_head i xs w) = wake_epoch w"
  "submitted (set_head i xs w) = submitted w" "executed (set_head i xs w) = executed w"
  by (simp_all add: set_head_def)

text \<open>A case distinction that lets every step be computed: by program point, and where it matters by the scan and by what is left to do.\<close>

fun evaluates :: "worker_pc \<Rightarrow> bool" where
  "evaluates (Scan (Poll_Scan s) []) = True"
| "evaluates (Scan (Poll_Scan s) (i # is)) = True"
| "evaluates (Scan (Extra_Scan p x) []) = True"
| "evaluates (Scan (Extra_Scan p x) (i # is)) = True"
| "evaluates (Scan (Spin_Scan k) []) = True"
| "evaluates (Scan (Spin_Scan k) (i # is)) = True"
| "evaluates (Scan Park_Scan []) = True"
| "evaluates (Scan Park_Scan (i # is)) = True"
| "evaluates (Scan (Final_Scan e) []) = True"
| "evaluates (Scan (Final_Scan e) (i # is)) = True"
| "evaluates (Poll_Return i x []) = True"
| "evaluates (Poll_Return i x (y # ys)) = True"
| "evaluates (Loop_Check) = True"
| "evaluates (Poll_Enter) = True"
| "evaluates (Poll_Load s i) = True"
| "evaluates (Poll_Take s i) = True"
| "evaluates (Poll_Put s i x xs) = True"
| "evaluates (Poll_Waiters s p x) = True"
| "evaluates (Poll_Gate p x) = True"
| "evaluates (Poll_Bump x) = True"
| "evaluates (Poll_Notify x) = True"
| "evaluates (Exec x) = True"
| "evaluates (Exec_Count) = True"
| "evaluates (Poll_Leave b) = True"
| "evaluates (Delay_Check) = True"
| "evaluates (Delay_Enter) = True"
| "evaluates (Spin_Check k) = True"
| "evaluates (Spin_Count k) = True"
| "evaluates (Spin_Waiting k) = True"
| "evaluates (Park_Waiting) = True"
| "evaluates (Epoch_Load) = True"
| "evaluates (Epoch_Check e) = True"
| "evaluates (Final_Waiting e) = True"
| "evaluates (Compare e) = True"
| "evaluates (Blocked e) = True"
| "evaluates (Delay_Leave) = True"
| "evaluates (Stopped) = True"

lemmas pc_split = evaluates.cases

lemma same_shape_refl [simp]: "same_shape w w"
  by (simp add: same_shape_def)

lemma worker_advance_same: "worker_advance t pc w = (w', pc') \<Longrightarrow> same_shape w w' \<and> terminated w' = terminated w \<and> submitted w' = submitted w"
  by (cases pc rule: pc_split) (auto simp: worker_steps)

lemma worker_advance_waiting:
  "worker_advance t pc w = (w', pc') \<Longrightarrow> (registered pc \<Longrightarrow> 0 < waiting_thread_count w) \<Longrightarrow>
   waiting_thread_count w' + (if registered pc then 1 else 0) = waiting_thread_count w + (if registered pc' then 1 else 0)"
  by (cases pc rule: pc_split) (auto simp: worker_steps split: list.splits if_splits)

lemma worker_advance_running:
  "worker_advance t pc w = (w', pc') \<Longrightarrow> (polling pc \<Longrightarrow> 0 < running_count w) \<Longrightarrow>
   running_count w' + (if polling pc then 1 else 0) = running_count w + (if polling pc' then 1 else 0)"
  by (cases pc rule: pc_split) (auto simp: worker_steps polling_def split: list.splits if_splits)

lemma sum_list_update_mset:
  "i < length ts \<Longrightarrow> (\<Sum>t \<leftarrow> ts[i := u]. f t) + f (ts ! i) = (\<Sum>t \<leftarrow> ts. f t) + (f u :: 'a multiset)"
  by (induction ts arbitrary: i) (auto split: nat.splits simp: ac_simps)

lemma mset_head_update:
  "i < length hs \<Longrightarrow> mset (concat (hs[i := xs])) + mset (hs ! i) = mset (concat hs) + mset xs"
  by (induction hs arbitrary: i) (auto split: nat.splits simp: ac_simps)

lemma length_head_update:
  "i < length hs \<Longrightarrow> length (concat (hs[i := xs])) + length (hs ! i) = length (concat hs) + length xs"
  by (induction hs arbitrary: i) (auto split: nat.splits)

lemma pc_ok_same: "same_shape w w' \<Longrightarrow> pc_ok w pc \<Longrightarrow> pc_ok w' pc"
  by (cases "(w, pc)" rule: pc_ok.cases) (auto simp: same_shape_def)

lemma client_ok_same: "same_shape w w' \<Longrightarrow> client_ok w pc \<Longrightarrow> client_ok w' pc"
  by (cases "(w, pc)" rule: client_ok.cases) (auto simp: same_shape_def)

lemma worker_advance_ok:
  assumes "worker_advance t pc w = (w', pc')" and "scan_ok w pc" and "waiting_thread_count w \<le> thread_count w"
    and "length (task_heads w) = thread_count w * task_head_duplicate_count" and "0 < thread_count w"
  shows "scan_ok w' pc'"
proof -
  have bound: "\<forall>i \<in> set (fetch_order w t s). i < length (task_heads w)" if "s \<le> thread_count w" for s
    by (rule fetch_order_bound [OF that assms(4)])
  have size: "poll_size w k \<le> thread_count w" for k using assms(5) by (auto simp: poll_size_def min_def)
  with assms(1-3) bound bound [OF size] show ?thesis
    by (cases pc rule: pc_split) (auto simp: worker_steps scan_ok_def split: list.splits if_splits)
qed

lemma worker_advance_tasks:
  assumes "worker_advance t pc w = (w', pc')" and "scan_ok w pc" and "counts pc \<le> task_count w"
  shows "mset (executed w') + mset (concat (task_heads w')) + mset (holds pc') = mset (executed w) + mset (concat (task_heads w)) + mset (holds pc) \<and>
    task_count w' + length (concat (task_heads w)) + counts pc = task_count w + length (concat (task_heads w')) + counts pc'"
proof -
  consider (take) s i where "pc = Poll_Take s i" | (put) s i x xs where "pc = Poll_Put s i x xs"
    | (return) i x y ys where "pc = Poll_Return i x (y # ys)"
    | (other) "\<forall>s i. pc \<noteq> Poll_Take s i" "\<forall>s i x xs. pc \<noteq> Poll_Put s i x xs" "\<forall>i x y ys. pc \<noteq> Poll_Return i x (y # ys)" by blast
  then show ?thesis
  proof cases
    case (take s i)
    have i: "i < length (task_heads w)" using assms(2) take by (simp add: scan_ok_def)
    from assms(1) take have w': "w' = set_head i [] w" and pc': "pc' = (case task_heads w ! i of [] \<Rightarrow> Poll_Leave True | x # xs \<Rightarrow> Poll_Put s i x xs)"
      by (simp_all add: worker_advance_def)
    show ?thesis
      using mset_head_update [OF i, of "[]"] length_head_update [OF i, of "[]"]
      by (cases "task_heads w ! i") (auto simp: w' pc' take counts_def ac_simps)
  next
    case (put s i x xs)
    have i: "i < length (task_heads w)" using assms(2) put by (simp add: scan_ok_def)
    from assms(1) put have w': "w' = set_head i xs w"
      and pc': "pc' = (if task_heads w ! i \<noteq> [] then Poll_Return i x (task_heads w ! i) else Poll_Waiters s (slot_priority w i) x)"
      by (simp_all add: worker_advance_def)
    show ?thesis
      using mset_head_update [OF i, of xs] length_head_update [OF i, of xs]
      by (cases "task_heads w ! i = []") (auto simp: w' pc' put counts_def ac_simps)
  next
    case (return i x y ys)
    have i: "i < length (task_heads w)" using assms(2) return by (simp add: scan_ok_def)
    from assms(1) return have w': "w' = set_head i (y # task_heads w ! i) w"
      and pc': "pc' = (if ys = [] then Poll_Gate (slot_priority w i) x else Poll_Return i x ys)"
      by (simp_all add: worker_advance_def)
    show ?thesis
      using mset_head_update [OF i, of "y # task_heads w ! i"] length_head_update [OF i, of "y # task_heads w ! i"]
      by (cases "ys = []") (auto simp: w' pc' return counts_def ac_simps)
  next
    case other
    with assms show ?thesis by (cases pc rule: pc_split) (auto simp: worker_steps counts_def split: if_splits)
  qed
qed

subsection \<open>The clients\<close>

lemmas client_steps = client_advance_def Let_def same_shape_def

lemma client_advance_same:
  "client_advance t pc w = (w', pc') \<Longrightarrow>
   same_shape w w' \<and> terminated w' = terminated w \<and> submitted w' = submitted w \<and> waiting_thread_count w' = waiting_thread_count w \<and>
   running_count w' = running_count w"
  by (cases pc) (auto simp: client_steps split: if_splits elim!: queue_task_step.elims)

lemma client_slot_bound:
  assumes "p < internal_thread_count w" and "k < task_head_duplicate_count" and "internal_thread_count w \<le> thread_count w"
  shows "p + k * thread_count w < thread_count w * task_head_duplicate_count"
proof -
  have "p + k * thread_count w < Suc k * thread_count w" using assms(1,3) by simp
  also have "\<dots> \<le> task_head_duplicate_count * thread_count w" using assms(2) by (intro mult_le_mono1) simp
  finally show ?thesis by (simp add: mult.commute)
qed

lemma client_advance_ok:
  assumes "client_advance t pc w = (w', pc')" and "client_ok w pc" and "0 < internal_thread_count w"
  shows "client_ok w' pc'"
proof (cases "\<exists>p x. pc = Queue_Check p x")
  case True
  have "0 < task_head_duplicate_count" by (simp add: task_head_duplicate_count_def)
  moreover have "clamp_priority w p < internal_thread_count w" for p using assms(3) unfolding clamp_priority_def by linarith
  ultimately show ?thesis using True assms by (auto simp: client_steps)
next
  case False
  with assms show ?thesis by (cases pc) (auto simp: client_steps split: if_splits list.splits elim!: queue_task_step.elims)
qed

lemma client_advance_tasks:
  assumes step: "client_advance t pc w = (w', pc')" and ok: "client_ok w pc" and le: "internal_thread_count w \<le> thread_count w"
    and len: "length (task_heads w) = thread_count w * task_head_duplicate_count" and pos: "0 < internal_thread_count w"
    and counted: "client_counts pc \<le> task_count w"
  shows "mset (executed w') + mset (concat (task_heads w')) + mset (client_holds pc') =
      mset (executed w) + mset (concat (task_heads w)) + mset (client_holds pc) \<and>
    task_count w' + length (concat (task_heads w)) + client_counts pc = task_count w + length (concat (task_heads w')) + client_counts pc'"
proof -
  note slot = client_slot_bound [OF _ _ le, folded len]
  note up = mset_head_update [of _ "task_heads w"] length_head_update [of _ "task_heads w"]
  show ?thesis
  proof (cases pc)
    case (Queue_Try p x ks)
    then obtain k ks' where ks: "ks = k # ks'" using ok by (cases ks) auto
    then have i: "p + k * thread_count w < length (task_heads w)" using slot ok Queue_Try by simp
    from step up(1) [OF i, of "[x]"] up(2) [OF i, of "[x]"] Queue_Try ks show ?thesis
      by (auto simp: client_steps client_counts_def ac_simps split: if_splits)
  next
    case (Queue_Chain p x k)
    let ?i = "p + k * thread_count w"
    have i: "?i < length (task_heads w)" using slot ok Queue_Chain by simp
    from step up(1) [OF i, of "x # task_heads w ! ?i"] up(2) [OF i, of "x # task_heads w ! ?i"] Queue_Chain show ?thesis
      by (auto simp: client_steps client_counts_def ac_simps)
  next
    case (Queue_Late x)
    have i: "0 < length (task_heads w)" using len le pos by (simp add: task_head_duplicate_count_def)
    from step up(1) [OF i, of "x # task_heads w ! 0"] up(2) [OF i, of "x # task_heads w ! 0"] Queue_Late show ?thesis
      by (auto simp: client_steps client_counts_def ac_simps)
  next
    case (Drain_Take i)
    show ?thesis
    proof (cases "i < length (task_heads w)")
      case True
      from step up(1) [OF this, of "[]"] up(2) [OF this, of "[]"] Drain_Take True show ?thesis
        by (cases "task_heads w ! i") (auto simp: client_steps client_counts_def ac_simps)
    next
      case False
      with step Drain_Take show ?thesis by (auto simp: client_steps client_counts_def)
    qed
  next
    case (Drain_Count i xs)
    with step counted show ?thesis by (cases xs) (auto simp: client_steps client_counts_def)
  qed (use step in \<open>auto simp: client_steps client_counts_def split: if_splits\<close>)
qed

subsection \<open>Waking\<close>

text \<open>Waking up moves parked threads to their comparison and nothing else.\<close>

definition woken :: "worker_pc \<Rightarrow> worker_pc \<Rightarrow> bool" where
  "woken pc pc' \<longleftrightarrow> pc' = pc \<or> (\<exists>e. pc = Blocked e \<and> pc' = Compare e)"

lemma wake_woken: "wake ws ws' \<Longrightarrow> list_all2 woken ws ws'"
  by (auto simp: list_all2_conv_all_nth woken_def nth_list_update elim!: wake.cases)

lemma wake_all_woken: "list_all2 woken ws (wake_all ws)"
  by (auto simp: list_all2_conv_all_nth woken_def wake_all_def split: worker_pc.splits)

subsection \<open>Every step keeps the shape and the tasks\<close>

lemma shape_counts:
  assumes "shape_inv (w, ws, cs)"
  shows "waiting_thread_count w \<le> thread_count w" and "pc \<in> set ws \<Longrightarrow> registered pc \<Longrightarrow> 0 < waiting_thread_count w"
    and "pc \<in> set ws \<Longrightarrow> polling pc \<Longrightarrow> 0 < running_count w" and "0 < thread_count w"
proof -
  have "(\<Sum>pc \<leftarrow> ws. if registered pc then 1 else 0) \<le> length ws" by (induction ws) auto
  then show "waiting_thread_count w \<le> thread_count w" "0 < thread_count w" using assms by (auto simp: shape_inv_def)
  show "0 < waiting_thread_count w" if "pc \<in> set ws" "registered pc"
    using sum_list_member_le [OF that(1), of "\<lambda>pc. if registered pc then 1 else 0"] that(2) assms by (simp add: shape_inv_def)
  show "0 < running_count w" if "pc \<in> set ws" "polling pc"
    using sum_list_member_le [OF that(1), of "\<lambda>pc. if polling pc then 1 else 0"] that(2) assms by (simp add: shape_inv_def)
qed

lemma set_update_all: "\<forall>x \<in> set xs. P x \<Longrightarrow> P y \<Longrightarrow> \<forall>x \<in> set (xs[i := y]). P x"
  using set_update_subset_insert [of xs i y] by blast

text \<open>What a step takes out of the hands of one party is found in the slots or the log, and the other way round.\<close>

lemma multiset_exchange:
  assumes "a' + h' = a + (h :: 'a multiset)" and "s' + h = s + h'"
  shows "a' + s' = a + s"
proof -
  have "a' + s' + h = a' + h' + s" using assms(2) by (metis add.assoc add.commute)
  also have "\<dots> = a + s + h" using assms(1) by (simp add: ac_simps)
  finally show ?thesis by simp
qed

lemma shape_worker:
  assumes inv: "shape_inv (w, ws, cs)" and u: "u < length ws" and step: "worker_advance t (ws ! u) w = (w', pc')"
  shows "shape_inv (w', ws[u := pc'], cs)"
proof -
  have mem: "ws ! u \<in> set ws" using u by simp
  have same: "same_shape w w'" using worker_advance_same [OF step] by blast
  have ok: "\<forall>pc \<in> set ws. scan_ok w' pc" "\<forall>pc \<in> set cs. client_ok w' pc"
    using inv pc_ok_same [OF same] client_ok_same [OF same] same by (auto simp: shape_inv_def scan_ok_def same_shape_def)
  have "scan_ok w' pc'"
    using worker_advance_ok [OF step] inv mem shape_counts(1,4) [OF inv] by (simp add: shape_inv_def)
  then have "\<forall>pc \<in> set (ws[u := pc']). scan_ok w' pc" by (rule set_update_all [OF ok(1)])
  moreover have "waiting_thread_count w' = (\<Sum>pc \<leftarrow> ws[u := pc']. if registered pc then 1 else 0)"
    using worker_advance_waiting [OF step shape_counts(2) [OF inv mem]] sum_list_update_one [OF u, of "\<lambda>pc. if registered pc then 1 else 0" pc'] inv
    by (simp add: shape_inv_def split: if_splits)
  moreover have "running_count w' = (\<Sum>pc \<leftarrow> ws[u := pc']. if polling pc then 1 else 0)"
    using worker_advance_running [OF step shape_counts(3) [OF inv mem]] sum_list_update_one [OF u, of "\<lambda>pc. if polling pc then 1 else 0" pc'] inv
    by (simp add: shape_inv_def split: if_splits)
  ultimately show ?thesis using inv same ok(2) by (simp add: shape_inv_def same_shape_def)
qed

lemma tasks_worker:
  assumes inv: "shape_inv (w, ws, cs)" "task_inv (w, ws, cs)" and u: "u < length ws" and step: "worker_advance t (ws ! u) w = (w', pc')"
  shows "task_inv (w', ws[u := pc'], cs)"
proof -
  have mem: "ws ! u \<in> set ws" using u by simp
  have "counts (ws ! u) \<le> task_count w" using sum_list_member_le [OF mem, of counts] inv(2) by (simp add: task_inv_def)
  then have m: "mset (executed w') + mset (concat (task_heads w')) + mset (holds pc') =
      mset (executed w) + mset (concat (task_heads w)) + mset (holds (ws ! u))"
    and c: "task_count w' + length (concat (task_heads w)) + counts (ws ! u) = task_count w + length (concat (task_heads w')) + counts pc'"
    using worker_advance_tasks [OF step] inv(1) mem by (simp_all add: shape_inv_def)
  have "submitted w' = submitted w" using worker_advance_same [OF step] by blast
  moreover have "mset (executed w') + mset (concat (task_heads w')) + (\<Sum>pc \<leftarrow> ws[u := pc']. mset (holds pc)) =
      mset (executed w) + mset (concat (task_heads w)) + (\<Sum>pc \<leftarrow> ws. mset (holds pc))"
    by (rule multiset_exchange [OF m sum_list_update_mset [OF u]])
  moreover have "task_count w' = length (concat (task_heads w')) + (\<Sum>pc \<leftarrow> ws[u := pc']. counts pc) + (\<Sum>pc \<leftarrow> cs. client_counts pc)"
    using c inv(2) sum_list_update_one [OF u, of counts pc'] by (simp add: task_inv_def)
  ultimately show ?thesis using inv(2) by (simp add: task_inv_def ac_simps)
qed

lemma shape_client:
  assumes inv: "shape_inv (w, ws, cs)" and c: "c < length cs" and step: "client_advance t (cs ! c) w = (w', pc')"
  shows "shape_inv (w', ws, cs[c := pc'])"
proof -
  have mem: "cs ! c \<in> set cs" using c by simp
  have same: "same_shape w w'" "waiting_thread_count w' = waiting_thread_count w" "running_count w' = running_count w"
    using client_advance_same [OF step] by blast+
  have ok: "\<forall>pc \<in> set ws. scan_ok w' pc" "\<forall>pc \<in> set cs. client_ok w' pc"
    using inv pc_ok_same [OF same(1)] client_ok_same [OF same(1)] same(1) by (auto simp: shape_inv_def scan_ok_def same_shape_def)
  have "client_ok w' pc'" using client_advance_ok [OF step] inv mem by (simp add: shape_inv_def)
  then have "\<forall>pc \<in> set (cs[c := pc']). client_ok w' pc" by (rule set_update_all [OF ok(2)])
  then show ?thesis using inv same ok(1) by (simp add: shape_inv_def same_shape_def)
qed

lemma tasks_client:
  assumes inv: "shape_inv (w, ws, cs)" "task_inv (w, ws, cs)" and c: "c < length cs" and step: "client_advance t (cs ! c) w = (w', pc')"
  shows "task_inv (w', ws, cs[c := pc'])"
proof -
  have mem: "cs ! c \<in> set cs" using c by simp
  have "client_counts (cs ! c) \<le> task_count w" using sum_list_member_le [OF mem, of client_counts] inv(2) by (simp add: task_inv_def)
  then have m: "mset (executed w') + mset (concat (task_heads w')) + mset (client_holds pc') =
      mset (executed w) + mset (concat (task_heads w)) + mset (client_holds (cs ! c))"
    and k: "task_count w' + length (concat (task_heads w)) + client_counts (cs ! c) = task_count w + length (concat (task_heads w')) + client_counts pc'"
    using client_advance_tasks [OF step] inv(1) mem by (simp_all add: shape_inv_def)
  have "submitted w' = submitted w" using client_advance_same [OF step] by blast
  moreover have "mset (executed w') + mset (concat (task_heads w')) + (\<Sum>pc \<leftarrow> cs[c := pc']. mset (client_holds pc)) =
      mset (executed w) + mset (concat (task_heads w)) + (\<Sum>pc \<leftarrow> cs. mset (client_holds pc))"
    by (rule multiset_exchange [OF m sum_list_update_mset [OF c]])
  moreover have "task_count w' = length (concat (task_heads w')) + (\<Sum>pc \<leftarrow> ws. counts pc) + (\<Sum>pc \<leftarrow> cs[c := pc']. client_counts pc)"
    using k inv(2) sum_list_update_one [OF c, of client_counts pc'] by (simp add: task_inv_def)
  ultimately show ?thesis using inv(2) by (simp add: task_inv_def ac_simps)
qed

section \<open>Every task in a slot is attended to\<close>

text \<open>
  The epoch a thread has loaded before its last look at the slots; whether it is out of \<open>delay\<close> or on its way out; and whether it is still going to
  look at slot \<open>i\<close> before it parks.
\<close>

fun loaded :: "worker_pc \<Rightarrow> nat option" where
  "loaded (Epoch_Check e) = Some e"
| "loaded (Final_Waiting e) = Some e"
| "loaded (Scan (Final_Scan e) is) = Some e"
| "loaded (Compare e) = Some e"
| "loaded (Blocked e) = Some e"
| "loaded _ = None"

definition away :: "worker_pc \<Rightarrow> bool" where
  "away pc \<longleftrightarrow> \<not> registered pc \<or> pc = Delay_Leave"

fun will_see :: "nat \<Rightarrow> worker_pc \<Rightarrow> bool" where
  "will_see i (Scan (Final_Scan e) is) = (i \<in> set is)"
| "will_see i (Compare e) = False"
| "will_see i (Blocked e) = False"
| "will_see i pc = True"

definition stale :: "nat \<Rightarrow> worker_pc \<Rightarrow> bool" where
  "stale epoch pc \<longleftrightarrow> (\<exists>e. loaded pc = Some e \<and> e \<noteq> epoch \<and> pc \<noteq> Blocked e)"

definition attends :: "nat \<Rightarrow> nat \<Rightarrow> worker_pc \<Rightarrow> bool" where
  "attends epoch i pc \<longleftrightarrow> away pc \<or> will_see i pc \<or> stale epoch pc"

definition pending_wake :: "client_pc \<Rightarrow> bool" where
  "pending_wake pc \<longleftrightarrow> (\<exists>p. pc = Queue_Gate p) \<or> pc = Queue_Bump"

text \<open>
  A thread attends to the slot, or a client is about to raise the epoch, or it has raised it and is about to wake a thread up, all of which
  have loaded an older one.
\<close>

definition attended :: "pool \<Rightarrow> nat \<Rightarrow> bool" where
  "attended s i = (case s of (w, ws, cs) \<Rightarrow>
     (\<exists>pc \<in> set ws. attends (wake_epoch w) i pc) \<or> (\<exists>pc \<in> set cs. pending_wake pc) \<or>
     Queue_Notify \<in> set cs \<and> (\<forall>pc \<in> set ws. loaded pc \<noteq> Some (wake_epoch w)))"

text \<open>
  No loaded epoch lies in the future; tasks are, and are put back, only in slots of the priorities of internal threads; and late tasks and stops belong to a
  terminated pool.
\<close>

fun put_ok :: "worker_t \<Rightarrow> worker_pc \<Rightarrow> bool" where
  "put_ok w (Poll_Put s i x xs) = (slot_priority w i < internal_thread_count w)"
| "put_ok w (Poll_Return i x ys) = (slot_priority w i < internal_thread_count w)"
| "put_ok w pc = True"

fun late_ok :: "worker_t \<Rightarrow> client_pc \<Rightarrow> bool" where
  "late_ok w (Queue_Late x) = terminated w"
| "late_ok w Stop_Bump = terminated w"
| "late_ok w Stop_Notify = terminated w"
| "late_ok w pc = True"

definition slots_inv :: "pool \<Rightarrow> bool" where
  "slots_inv s = (case s of (w, ws, cs) \<Rightarrow>
     (\<forall>pc \<in> set ws. put_ok w pc \<and> (\<forall>e. loaded pc = Some e \<longrightarrow> e \<le> wake_epoch w)) \<and>
     (\<forall>i < length (task_heads w). task_heads w ! i \<noteq> [] \<longrightarrow> slot_priority w i < internal_thread_count w) \<and>
     (\<forall>pc \<in> set cs. late_ok w pc))"

definition wake_inv :: "pool \<Rightarrow> bool" where
  "wake_inv s = (case s of (w, ws, cs) \<Rightarrow>
     \<not> terminated w \<and> limit_count w = 0 \<longrightarrow> (\<forall>i < length (task_heads w). task_heads w ! i \<noteq> [] \<longrightarrow> attended s i))"

text \<open>Threads that are registered all count; so where not all are counted, one is away.\<close>

lemma someone_away:
  assumes "shape_inv (w, ws, cs)" and "waiting_thread_count w < internal_thread_count w"
  shows "\<exists>pc \<in> set ws. away pc"
proof (rule ccontr)
  assume "\<not> (\<exists>pc \<in> set ws. away pc)"
  then have "map (\<lambda>pc. if registered pc then 1 else (0 :: nat)) ws = replicate (length ws) 1"
    by (auto simp: away_def map_replicate_const [symmetric] intro: map_cong)
  with assms show False by (simp add: shape_inv_def sum_list_replicate)
qed

text \<open>
  A step of a thread: it attends to the slot afterwards, or it did not before and has still the same epoch, or, when it has just counted too few
  waiting threads, some thread is away.
\<close>

lemma worker_attends:
  assumes step: "worker_advance t pc w = (w', pc')" and ok: "scan_ok w pc" and i: "task_heads w ! i \<noteq> []"
    and all: "\<not> registered pc \<or> wake_epoch w' = wake_epoch w"
    and count: "waiting_thread_count w < internal_thread_count w \<or> i \<in> set (fetch_order w t (waiting_thread_count w))"
  shows "attends (wake_epoch w') i pc' \<or> \<not> attends (wake_epoch w) i pc \<and> loaded pc' = loaded pc \<or>
    waiting_thread_count w < internal_thread_count w \<and> registered pc \<and> registered pc'"
  using assms by (cases pc rule: pc_split)
    (auto simp: worker_steps attends_def away_def stale_def split: list.splits if_splits)

lemma woken_map:
  assumes "list_all2 woken ws ws'" and "\<And>e. f (Compare e) = f (Blocked e)"
  shows "map f ws' = map f ws"
  using assms by (auto simp: list_all2_conv_all_nth woken_def intro!: nth_equalityI)

lemma woken_all:
  assumes "list_all2 woken ws ws'" and "\<And>e. P (Blocked e) \<Longrightarrow> P (Compare e)" and "\<forall>pc \<in> set ws. P pc"
  shows "\<forall>pc \<in> set ws'. P pc"
proof
  fix pc assume "pc \<in> set ws'"
  then obtain i where i: "i < length ws'" "pc = ws' ! i" by (auto simp: in_set_conv_nth)
  then have "woken (ws ! i) pc" "ws ! i \<in> set ws" using assms(1) by (auto simp: list_all2_conv_all_nth)
  with assms(2,3) show "P pc" by (auto simp: woken_def)
qed

lemma woken_sums:
  assumes "list_all2 woken ws ws'"
  shows "map (\<lambda>pc. if registered pc then 1 else (0 :: nat)) ws' = map (\<lambda>pc. if registered pc then 1 else 0) ws"
    and "map (\<lambda>pc. if polling pc then 1 else (0 :: nat)) ws' = map (\<lambda>pc. if polling pc then 1 else 0) ws"
    and "map (\<lambda>pc. mset (holds pc)) ws' = map (\<lambda>pc. mset (holds pc)) ws" and "map counts ws' = map counts ws"
    and "map (scan_ok w) ws' = map (scan_ok w) ws" and "map loaded ws' = map loaded ws" and "map (put_ok w) ws' = map (put_ok w) ws"
  by (rule woken_map [OF assms], simp add: polling_def counts_def scan_ok_def)+

lemma worker_fills:
  assumes "worker_advance t pc w = (w', pc')" and "scan_ok w pc" and "task_heads w' ! i \<noteq> []" and "task_heads w ! i = []"
  shows "away pc'"
  using assms by (cases pc rule: pc_split) (auto simp: worker_steps away_def split: list.splits if_splits)

lemma worker_epoch:
  "worker_advance t pc w = (w', pc') \<Longrightarrow> wake_epoch w' = wake_epoch w \<or> wake_epoch w' = wake_epoch w + 1 \<and> away pc'"
  by (cases pc rule: pc_split) (auto simp: worker_steps away_def split: list.splits if_splits)

lemma worker_slots:
  assumes step: "worker_advance t pc w = (w', pc')" and ok: "scan_ok w pc" "put_ok w pc" "\<And>e. loaded pc = Some e \<Longrightarrow> e \<le> wake_epoch w"
    and slots: "\<forall>i < length (task_heads w). task_heads w ! i \<noteq> [] \<longrightarrow> slot_priority w i < internal_thread_count w"
  shows "put_ok w' pc'" and "\<And>e. loaded pc' = Some e \<Longrightarrow> e \<le> wake_epoch w'"
    and "\<forall>i < length (task_heads w'). task_heads w' ! i \<noteq> [] \<longrightarrow> slot_priority w' i < internal_thread_count w'"
proof -
  show "put_ok w' pc'"
    using assms by (cases pc rule: pc_split) (auto simp: worker_steps scan_ok_def slot_priority_def split: list.splits if_splits)
  show "e \<le> wake_epoch w'" if "loaded pc' = Some e" for e
    using that step ok(3) by (cases pc rule: pc_split) (auto simp: worker_steps split: list.splits if_splits)
  show "\<forall>i < length (task_heads w'). task_heads w' ! i \<noteq> [] \<longrightarrow> slot_priority w' i < internal_thread_count w'"
    using assms by (cases pc rule: pc_split) (auto simp: worker_steps scan_ok_def slot_priority_def nth_list_update split: list.splits if_splits)
qed

lemma put_ok_same: "same_shape w w' \<Longrightarrow> put_ok w pc \<Longrightarrow> put_ok w' pc"
  by (cases "(w, pc)" rule: put_ok.cases) (auto simp: same_shape_def slot_priority_def)

lemma late_ok_same: "(terminated w \<Longrightarrow> terminated w') \<Longrightarrow> late_ok w pc \<Longrightarrow> late_ok w' pc"
  by (cases "(w, pc)" rule: late_ok.cases) auto

lemma slots_worker:
  assumes inv: "shape_inv (w, ws, cs)" "slots_inv (w, ws, cs)" and u: "u < length ws" and step: "worker_advance t (ws ! u) w = (w', pc')"
  shows "slots_inv (w', ws[u := pc'], cs)"
proof -
  have mem: "ws ! u \<in> set ws" using u by simp
  have same: "same_shape w w'" "terminated w' = terminated w" using worker_advance_same [OF step] by blast+
  have pre: "scan_ok w (ws ! u)" "put_ok w (ws ! u)" "\<And>e. loaded (ws ! u) = Some e \<Longrightarrow> e \<le> wake_epoch w"
    "\<forall>i < length (task_heads w). task_heads w ! i \<noteq> [] \<longrightarrow> slot_priority w i < internal_thread_count w"
    using inv mem by (auto simp: shape_inv_def slots_inv_def)
  note new = worker_slots [OF step pre]
  have "wake_epoch w \<le> wake_epoch w'" using worker_epoch [OF step] by auto
  then have "\<forall>pc \<in> set ws. put_ok w' pc \<and> (\<forall>e. loaded pc = Some e \<longrightarrow> e \<le> wake_epoch w')"
    using inv(2) put_ok_same [OF same(1)] by (fastforce simp: slots_inv_def)
  then have "\<forall>pc \<in> set (ws[u := pc']). put_ok w' pc \<and> (\<forall>e. loaded pc = Some e \<longrightarrow> e \<le> wake_epoch w')"
    using new(1,2) by (intro set_update_all) auto
  then show ?thesis using new(3) inv(2) late_ok_same [of w w'] same(2) by (auto simp: slots_inv_def)
qed

lemma attended_worker:
  assumes inv: "shape_inv (w, ws, cs)" "slots_inv (w, ws, cs)" "wake_inv (w, ws, cs)" and u: "u < length ws"
    and step: "worker_advance t (ws ! u) w = (w', pc')"
  shows "wake_inv (w', ws[u := pc'], cs)"
proof -
  have mem: "ws ! u \<in> set ws" using u by simp
  have ok: "scan_ok w (ws ! u)" using inv(1) mem by (simp add: shape_inv_def)
  have same: "same_shape w w'" "terminated w' = terminated w" using worker_advance_same [OF step] by blast+
  have "attended (w', ws[u := pc'], cs) i"
    if run: "\<not> terminated w'" "limit_count w' = 0" and i: "i < length (task_heads w')" "task_heads w' ! i \<noteq> []" for i
  proof (cases "attends (wake_epoch w') i pc'")
    case True
    then show ?thesis using u by (auto simp: attended_def set_update_memI)
  next
    case False
    then have "\<not> away pc'" by (auto simp: attends_def)
    then have i': "task_heads w ! i \<noteq> []" and epoch: "wake_epoch w' = wake_epoch w"
      using worker_fills [OF step ok i(2)] worker_epoch [OF step] by auto
    have ilen: "i < thread_count w * task_head_duplicate_count" using i(1) same(1) inv(1) by (simp add: same_shape_def shape_inv_def)
    have "slot_priority w i < internal_thread_count w"
      using inv(2) i(1) i' same(1) by (simp add: slots_inv_def same_shape_def)
    then have count: "waiting_thread_count w < internal_thread_count w \<or> i \<in> set (fetch_order w t (waiting_thread_count w))"
      using fetch_order_complete [OF ilen _ shape_counts(4) [OF inv(1)]] by (meson leI less_le_trans)
    from worker_attends [OF step ok i' _ count] epoch False consider
      (idle) "\<not> attends (wake_epoch w) i (ws ! u)" "loaded pc' = loaded (ws ! u)"
      | (few) "waiting_thread_count w < internal_thread_count w" "registered (ws ! u)" "registered pc'" by auto
    then show ?thesis
    proof cases
      case idle
      have att: "attended (w, ws, cs) i" using inv(3) run i i' same by (simp add: wake_inv_def same_shape_def)
      have "\<exists>pc \<in> set (ws[u := pc']). attends (wake_epoch w) i pc" if "\<exists>pc \<in> set ws. attends (wake_epoch w) i pc"
        using that idle(1) unfolding bex_nth_split [OF u] bex_list_update [OF u] by blast
      moreover have "\<forall>pc \<in> set (ws[u := pc']). loaded pc \<noteq> Some (wake_epoch w)" if "\<forall>pc \<in> set ws. loaded pc \<noteq> Some (wake_epoch w)"
        using that idle(2) mem by (intro set_update_all) auto
      ultimately show ?thesis using att by (auto simp: attended_def epoch)
    next
      case few
      have "ws ! u \<noteq> Delay_Leave" using step few(3) by (auto simp: worker_advance_def)
      then have "\<not> away (ws ! u)" using few(2) by (simp add: away_def)
      with someone_away [OF inv(1) few(1)] have "\<exists>pc \<in> set (ws[u := pc']). away pc"
        unfolding bex_nth_split [OF u] bex_list_update [OF u] by blast
      then show ?thesis by (auto simp: attended_def attends_def)
    qed
  qed
  then show ?thesis by (simp add: wake_inv_def)
qed

text \<open>The steps of the clients.\<close>

lemma slot_priority_client:
  "p < internal_thread_count w \<Longrightarrow> internal_thread_count w \<le> thread_count w \<Longrightarrow> slot_priority w (p + k * thread_count w) = p"
  by (simp add: slot_priority_def)

lemma client_slots:
  assumes step: "client_advance t pc w = (w', pc')" and ok: "client_ok w pc" "late_ok w pc"
    and dims: "0 < internal_thread_count w" "internal_thread_count w \<le> thread_count w" "length (task_heads w) = thread_count w * task_head_duplicate_count"
    and slots: "\<forall>i < length (task_heads w). task_heads w ! i \<noteq> [] \<longrightarrow> slot_priority w i < internal_thread_count w"
  shows "late_ok w' pc'" and "wake_epoch w \<le> wake_epoch w'"
    and "\<forall>i < length (task_heads w'). task_heads w' ! i \<noteq> [] \<longrightarrow> slot_priority w' i < internal_thread_count w'"
proof -
  show "late_ok w' pc'"
    using step ok by (cases pc) (auto simp: client_steps split: if_splits list.splits elim!: queue_task_step.elims)
  show "wake_epoch w \<le> wake_epoch w'"
    using step by (cases pc) (auto simp: client_steps split: if_splits elim!: queue_task_step.elims)
  have set_slot: "\<forall>i < length (task_heads w). (task_heads w)[j := xs] ! i \<noteq> [] \<longrightarrow> slot_priority w i < internal_thread_count w"
    if "xs = [] \<or> slot_priority w j < internal_thread_count w" for j xs
    using slots that by (cases "j < length (task_heads w)") (auto simp: nth_list_update)
  note own = slot_priority_client [OF _ dims(2)]
  have zero: "slot_priority w 0 < internal_thread_count w" using dims by (simp add: slot_priority_def)
  show "\<forall>i < length (task_heads w'). task_heads w' ! i \<noteq> [] \<longrightarrow> slot_priority w' i < internal_thread_count w'"
  proof (cases pc)
    case (Queue_Try p x ks)
    then obtain k ks' where ks: "ks = k # ks'" using ok by (cases ks) auto
    with Queue_Try step ok slots set_slot [of "[x]" "p + k * thread_count w"] own
    show ?thesis by (auto simp: client_steps slot_priority_def split: if_splits)
  next
    case (Queue_Chain p x k)
    with step ok set_slot [of "x # task_heads w ! (p + k * thread_count w)" "p + k * thread_count w"] own
    show ?thesis by (auto simp: client_steps slot_priority_def)
  next
    case (Queue_Late x)
    with step set_slot [of "x # task_heads w ! 0" 0] zero show ?thesis by (auto simp: client_steps slot_priority_def)
  next
    case (Drain_Take i)
    with step slots set_slot [of "[]" i] show ?thesis by (auto simp: client_steps slot_priority_def split: if_splits)
  qed (use step slots in \<open>auto simp: client_steps slot_priority_def split: if_splits\<close>)
qed

lemma slots_client:
  assumes inv: "shape_inv (w, ws, cs)" "slots_inv (w, ws, cs)" and c: "c < length cs" and step: "client_advance t (cs ! c) w = (w', pc')"
  shows "slots_inv (w', ws, cs[c := pc'])"
proof -
  have mem: "cs ! c \<in> set cs" using c by simp
  have same: "same_shape w w'" "terminated w' = terminated w" using client_advance_same [OF step] by blast+
  have new: "late_ok w' pc'" "wake_epoch w \<le> wake_epoch w'"
    "\<forall>i < length (task_heads w'). task_heads w' ! i \<noteq> [] \<longrightarrow> slot_priority w' i < internal_thread_count w'"
    using client_slots [OF step] inv mem by (simp_all add: shape_inv_def slots_inv_def)
  have "\<forall>pc \<in> set cs. late_ok w' pc" using inv(2) late_ok_same [of w w'] same(2) by (auto simp: slots_inv_def)
  then have "\<forall>pc \<in> set (cs[c := pc']). late_ok w' pc" using new(1) by (rule set_update_all)
  moreover have "\<forall>pc \<in> set ws. put_ok w' pc \<and> (\<forall>e. loaded pc = Some e \<longrightarrow> e \<le> wake_epoch w')"
    using inv(2) put_ok_same [OF same(1)] new(2) by (fastforce simp: slots_inv_def)
  ultimately show ?thesis using new(3) by (simp add: slots_inv_def)
qed

text \<open>A client that fills a slot is about to wake a thread up, and one that leaves this duty has raised the epoch or has seen too few threads waiting.\<close>

lemma client_attends:
  assumes step: "client_advance t pc w = (w', pc')" and run: "\<not> terminated w" "limit_count w = 0" "late_ok w pc"
  shows "pending_wake pc' \<or> wake_epoch w' = wake_epoch w + 1 \<and> pc' = Queue_Notify \<or>
    wake_epoch w' = wake_epoch w \<and> (\<forall>i. task_heads w' ! i \<noteq> [] \<longrightarrow> i < length (task_heads w) \<longrightarrow> task_heads w ! i \<noteq> []) \<and>
      (pending_wake pc \<longrightarrow> (\<exists>p. pc = Queue_Gate p \<and> waiting_thread_count w \<le> p)) \<and> (pc = Queue_Notify \<longrightarrow> pc' = pc)"
proof (cases pc)
  case (Queue_Try p x ks)
  with step show ?thesis by (cases ks) (auto simp: client_steps pending_wake_def split: if_splits)
next
  case (Drain_Take j)
  have "task_heads w ! i \<noteq> []" if "(task_heads w)[j := []] ! i \<noteq> []" "i < length (task_heads w)" for i
    using that by (cases "i = j") auto
  with Drain_Take step show ?thesis by (auto simp: client_steps pending_wake_def split: if_splits)
qed (use step run in \<open>auto simp: client_steps pending_wake_def split: if_splits\<close>)

lemma attended_client:
  assumes inv: "shape_inv (w, ws, cs)" "slots_inv (w, ws, cs)" "wake_inv (w, ws, cs)" and c: "c < length cs"
    and step: "client_advance t (cs ! c) w = (w', pc')" and ne: "cs ! c \<noteq> Queue_Notify"
  shows "wake_inv (w', ws, cs[c := pc'])"
proof -
  have mem: "cs ! c \<in> set cs" using c by simp
  have same: "same_shape w w'" "terminated w' = terminated w" using client_advance_same [OF step] by blast+
  have "attended (w', ws, cs[c := pc']) i"
    if run: "\<not> terminated w'" "limit_count w' = 0" and i: "i < length (task_heads w')" "task_heads w' ! i \<noteq> []" for i
  proof -
    have run': "\<not> terminated w" "limit_count w = 0" "i < length (task_heads w)" using run i(1) same by (simp_all add: same_shape_def)
    have late: "late_ok w (cs ! c)" using inv(2) mem by (simp add: slots_inv_def)
    from client_attends [OF step run'(1,2) late] consider (pend) "pending_wake pc'"
      | (bump) "wake_epoch w' = wake_epoch w + 1" "pc' = Queue_Notify"
      | (rest) "wake_epoch w' = wake_epoch w" "task_heads w ! i \<noteq> []"
          "pending_wake (cs ! c) \<Longrightarrow> \<exists>p. cs ! c = Queue_Gate p \<and> waiting_thread_count w \<le> p"
      using i(2) run'(3) by blast
    then show ?thesis
    proof cases
      case pend
      then show ?thesis using c by (auto simp: attended_def set_update_memI)
    next
      case bump
      have "\<forall>pc \<in> set ws. loaded pc \<noteq> Some (wake_epoch w')" using inv(2) by (auto simp: slots_inv_def bump(1))
      then show ?thesis using bump(2) c by (auto simp: attended_def set_update_memI)
    next
      case rest
      have att: "attended (w, ws, cs) i" using inv(3) run' rest(2) by (simp add: wake_inv_def)
      show ?thesis
      proof (cases "pending_wake (cs ! c)")
        case True
        with rest(3) obtain p where p: "cs ! c = Queue_Gate p" "waiting_thread_count w \<le> p" by blast
        moreover have "client_ok w (cs ! c)" using inv(1) mem by (simp add: shape_inv_def)
        ultimately have "waiting_thread_count w < internal_thread_count w" by auto
        from someone_away [OF inv(1) this] show ?thesis by (auto simp: attended_def attends_def)
      next
        case False
        then have "\<exists>pc \<in> set (cs[c := pc']). pending_wake pc" if "\<exists>pc \<in> set cs. pending_wake pc"
          using that unfolding bex_nth_split [OF c] bex_list_update [OF c] by blast
        moreover have "Queue_Notify \<in> set (cs[c := pc'])" if "Queue_Notify \<in> set cs"
          using that ne c by (metis in_set_conv_nth length_list_update nth_list_update_neq)
        ultimately show ?thesis using att by (auto simp: attended_def rest(1))
      qed
    qed
  qed
  then show ?thesis by (simp add: wake_inv_def)
qed

text \<open>Waking up: threads that attend to a slot go on to do so, and when the epoch was raised and none does, the one that wakes up will.\<close>

lemma woken_attends: "woken pc pc' \<Longrightarrow> attends epoch i pc \<Longrightarrow> attends epoch i pc'"
  by (auto simp: woken_def attends_def away_def stale_def)

lemma woken_attended:
  assumes "list_all2 woken ws ws'" and "\<exists>pc \<in> set ws. attends epoch i pc"
  shows "\<exists>pc \<in> set ws'. attends epoch i pc"
  using assms woken_attends by (fastforce simp: list_all2_conv_all_nth in_set_conv_nth)

lemma all_parked:
  assumes "\<not> attends epoch i pc" and "loaded pc \<noteq> Some epoch"
  shows "\<exists>e. pc = Blocked e"
  using assms by (cases pc rule: pc_split) (auto simp: attends_def away_def stale_def)

lemma wake_attends:
  assumes wake: "wake ws ws'" and ws: "ws \<noteq> []" and old: "\<forall>pc \<in> set ws. loaded pc \<noteq> Some epoch"
  shows "\<exists>pc \<in> set ws'. attends epoch i pc"
proof (cases "\<exists>pc \<in> set ws. attends epoch i pc")
  case True
  then show ?thesis by (rule woken_attended [OF wake_woken [OF wake]])
next
  case False
  then have parked: "\<exists>e. pc = Blocked e" if "pc \<in> set ws" for pc using old all_parked that by blast
  from wake show ?thesis
  proof cases
    case (one u e)
    then have "e \<noteq> epoch" using old nth_mem [OF one(2)] by force
    then have "attends epoch i (Compare e)" by (simp add: attends_def stale_def)
    then show ?thesis using one by (auto intro: set_update_memI)
  next
    case none
    moreover have "ws ! 0 \<in> set ws" "0 < length ws" using ws by simp_all
    ultimately show ?thesis using parked by blast
  qed
qed

lemma attended_woken:
  assumes att: "attended (w, ws, cs) i" and woken: "list_all2 woken ws ws'" and cs: "\<forall>pc \<in> set cs. pending_wake pc \<or> pc = Queue_Notify \<longrightarrow> pc \<in> set cs'"
  shows "attended (w, ws', cs') i"
proof -
  have "loaded ` set ws' = loaded ` set ws" using woken_sums(6) [OF woken] by (metis list.set_map)
  then have "(\<forall>pc \<in> set ws. loaded pc \<noteq> Some e) \<Longrightarrow> (\<forall>pc \<in> set ws'. loaded pc \<noteq> Some e)" for e by (metis imageE imageI)
  with att cs woken_attended [OF woken, of "wake_epoch w" i] show ?thesis unfolding attended_def prod.case by blast
qed

section \<open>Shutting down\<close>

text \<open>
  Once the pool is terminated, a thread parks only if a client is still about to wake all threads up: before the epoch is raised for it, or after that with an older
  epoch.
\<close>

fun checked :: "worker_pc \<Rightarrow> nat option" where
  "checked (Epoch_Check e) = None"
| "checked pc = loaded pc"

definition stop_inv :: "pool \<Rightarrow> bool" where
  "stop_inv s = (case s of (w, ws, cs) \<Rightarrow>
     terminated w \<longrightarrow> Stop_Bump \<in> set cs \<or>
       (\<forall>pc \<in> set ws. checked pc \<noteq> Some (wake_epoch w)) \<and> (Stop_Notify \<in> set cs \<or> (\<forall>pc \<in> set ws. \<forall>e. pc \<noteq> Blocked e)))"

lemma worker_stop:
  assumes "worker_advance t pc w = (w', pc')" and "terminated w" and "checked pc \<noteq> Some (wake_epoch w)"
  shows "checked pc' \<noteq> Some (wake_epoch w)" and "pc' = Blocked e \<Longrightarrow> pc = Blocked e"
proof -
  show "checked pc' \<noteq> Some (wake_epoch w)"
    using assms by (cases pc rule: pc_split) (auto simp: worker_steps split: list.splits if_splits)
  show "pc = Blocked e" if "pc' = Blocked e"
    using that assms by (cases pc rule: pc_split) (auto simp: worker_steps split: list.splits if_splits)
qed

lemma checked_loaded: "checked pc = Some e \<Longrightarrow> loaded pc = Some e"
  by (cases pc) auto

lemma stop_worker:
  assumes inv: "slots_inv (w, ws, cs)" "stop_inv (w, ws, cs)" and u: "u < length ws" and step: "worker_advance t (ws ! u) w = (w', pc')"
    and run: "\<forall>e. ws ! u \<noteq> Blocked e"
  shows "stop_inv (w', ws[u := pc'], cs)"
proof -
  have mem: "ws ! u \<in> set ws" using u by simp
  have same: "terminated w' = terminated w" using worker_advance_same [OF step] by blast
  show ?thesis
  proof (cases "terminated w \<and> Stop_Bump \<notin> set cs")
    case True
    then have old: "\<forall>pc \<in> set ws. checked pc \<noteq> Some (wake_epoch w)"
      and rest: "Stop_Notify \<in> set cs \<or> (\<forall>pc \<in> set ws. \<forall>e. pc \<noteq> Blocked e)" using inv(2) by (auto simp: stop_inv_def)
    from worker_epoch [OF step] consider (same) "wake_epoch w' = wake_epoch w" | (bump) "wake_epoch w' = wake_epoch w + 1" "away pc'" by blast
    then show ?thesis
    proof cases
      case same
      note new = worker_stop [OF step]
      have c: "checked pc' \<noteq> Some (wake_epoch w)" "\<forall>e. pc' \<noteq> Blocked e" using new True old mem run by blast+
      have "\<forall>pc \<in> set (ws[u := pc']). checked pc \<noteq> Some (wake_epoch w')" unfolding same by (rule set_update_all [OF old c(1)])
      moreover have "\<forall>pc \<in> set (ws[u := pc']). \<forall>e. pc \<noteq> Blocked e" if "\<forall>pc \<in> set ws. \<forall>e. pc \<noteq> Blocked e"
        by (rule set_update_all [OF that c(2)])
      ultimately show ?thesis using rest by (auto simp: stop_inv_def)
    next
      case bump
      have "checked pc' = None" "\<forall>e. pc' \<noteq> Blocked e" using bump(2) by (cases pc' rule: pc_split; auto simp: away_def)+
      moreover have "\<forall>pc \<in> set ws. checked pc \<noteq> Some (wake_epoch w')"
        using inv(1) checked_loaded by (fastforce simp: slots_inv_def bump(1))
      ultimately have "\<forall>pc \<in> set (ws[u := pc']). checked pc \<noteq> Some (wake_epoch w')" by (intro set_update_all) auto
      moreover have "\<forall>pc \<in> set (ws[u := pc']). \<forall>e. pc \<noteq> Blocked e" if "\<forall>pc \<in> set ws. \<forall>e. pc \<noteq> Blocked e"
        using that \<open>\<forall>e. pc' \<noteq> Blocked e\<close> by (rule set_update_all)
      ultimately show ?thesis using rest by (auto simp: stop_inv_def)
    qed
  qed (use same in \<open>auto simp: stop_inv_def\<close>)
qed

lemma stop_client:
  assumes inv: "slots_inv (w, ws, cs)" "stop_inv (w, ws, cs)" and c: "c < length cs" and step: "client_advance t (cs ! c) w = (w', pc')"
    and ne: "cs ! c \<noteq> Stop_Notify"
  shows "stop_inv (w', ws, cs[c := pc'])"
proof -
  have same: "terminated w' = terminated w" using client_advance_same [OF step] by blast
  have keep: "x \<in> set (cs[c := pc'])" if "x \<in> set cs" "cs ! c \<noteq> x" for x
    using that c by (metis in_set_conv_nth length_list_update nth_list_update_neq)
  have epoch: "wake_epoch w' = wake_epoch w \<or> wake_epoch w' = wake_epoch w + 1"
    using step by (cases "cs ! c") (auto simp: client_steps split: if_splits elim!: queue_task_step.elims)
  have "\<forall>pc \<in> set ws. checked pc \<noteq> Some (wake_epoch w + 1)"
    using inv(1) checked_loaded by (fastforce simp: slots_inv_def)
  then have up: "(\<forall>pc \<in> set ws. checked pc \<noteq> Some (wake_epoch w)) \<Longrightarrow> (\<forall>pc \<in> set ws. checked pc \<noteq> Some (wake_epoch w'))" using epoch by auto
  show ?thesis
  proof (cases "cs ! c = Stop_Bump")
    case True
    with step have "wake_epoch w' = wake_epoch w + 1" "pc' = Stop_Notify" by (auto simp: client_steps)
    moreover from this have "Stop_Notify \<in> set (cs[c := pc'])" using c by (simp add: set_update_memI)
    ultimately show ?thesis using \<open>\<forall>pc \<in> set ws. checked pc \<noteq> Some (wake_epoch w + 1)\<close> by (simp add: stop_inv_def)
  next
    case False
    then show ?thesis using inv(2) keep [of Stop_Bump] keep [of Stop_Notify] ne up same by (auto simp: stop_inv_def)
  qed
qed

lemma stop_woken:
  assumes "stop_inv (w, ws, cs)" and "list_all2 woken ws ws'" and "\<forall>pc \<in> {Stop_Bump, Stop_Notify}. pc \<in> set cs \<longrightarrow> pc \<in> set cs'"
  shows "stop_inv (w, ws', cs')"
proof -
  have "map checked ws' = map checked ws" by (rule woken_map [OF assms(2)]) simp
  then have "checked ` set ws' = checked ` set ws" by (metis list.set_map)
  then have "(\<forall>pc \<in> set ws. checked pc \<noteq> Some e) \<Longrightarrow> (\<forall>pc \<in> set ws'. checked pc \<noteq> Some e)" for e by (metis imageE imageI)
  moreover have "(\<forall>pc \<in> set ws. \<forall>e. pc \<noteq> Blocked e) \<Longrightarrow> (\<forall>pc \<in> set ws'. \<forall>e. pc \<noteq> Blocked e)"
    using assms(2) by (fastforce simp: list_all2_conv_all_nth in_set_conv_nth woken_def)
  ultimately show ?thesis using assms(1,3) by (auto simp: stop_inv_def)
qed

section \<open>What holds in every schedule\<close>

definition pool_inv :: "pool \<Rightarrow> bool" where
  "pool_inv s \<longleftrightarrow> shape_inv s \<and> task_inv s \<and> slots_inv s \<and> wake_inv s \<and> stop_inv s"

lemma shape_woken:
  assumes "shape_inv (w, ws, cs)" and "list_all2 woken ws ws'" and "\<forall>pc \<in> set cs'. client_ok w pc"
  shows "shape_inv (w, ws', cs')"
proof -
  have "\<forall>pc \<in> set ws'. scan_ok w pc" by (rule woken_all [OF assms(2)]) (use assms(1) in \<open>auto simp: scan_ok_def shape_inv_def\<close>)
  then show ?thesis
    using assms(1,3) list_all2_lengthD [OF assms(2)] by (simp add: shape_inv_def woken_sums(1,2) [OF assms(2)])
qed

lemma slots_woken:
  assumes "slots_inv (w, ws, cs)" and "list_all2 woken ws ws'" and "\<forall>pc \<in> set cs'. late_ok w pc"
  shows "slots_inv (w, ws', cs')"
proof -
  have "\<forall>pc \<in> set ws'. put_ok w pc \<and> (\<forall>e. loaded pc = Some e \<longrightarrow> e \<le> wake_epoch w)"
    by (rule woken_all [OF assms(2)]) (use assms(1) in \<open>auto simp: slots_inv_def\<close>)
  then show ?thesis using assms(1,3) by (simp add: slots_inv_def)
qed

text \<open>A client that moves on with the same tasks in its hands, while parked threads may wake up.\<close>

lemma client_moves:
  assumes inv: "pool_inv (w, ws, cs)" and c: "c < length cs" and woken: "list_all2 woken ws ws'"
    and tasks: "client_holds pc = client_holds (cs ! c)" "client_counts pc = client_counts (cs ! c)" and ok: "client_ok w pc" "late_ok w pc"
  shows "shape_inv (w, ws', cs[c := pc])" and "task_inv (w, ws', cs[c := pc])" and "slots_inv (w, ws', cs[c := pc])"
proof -
  have "\<forall>pc \<in> set cs. client_ok w pc" "\<forall>pc \<in> set cs. late_ok w pc"
    using inv by (simp_all add: pool_inv_def shape_inv_def slots_inv_def)
  then have "\<forall>pc \<in> set (cs[c := pc]). client_ok w pc" "\<forall>pc \<in> set (cs[c := pc]). late_ok w pc"
    using set_update_all [of cs "client_ok w" pc c] set_update_all [of cs "late_ok w" pc c] ok by blast+
  then show "shape_inv (w, ws', cs[c := pc])" "slots_inv (w, ws', cs[c := pc])"
    using inv shape_woken [OF _ woken] slots_woken [OF _ woken] by (auto simp: pool_inv_def)
  have "(\<Sum>pc \<leftarrow> cs[c := pc]. mset (client_holds pc)) = (\<Sum>pc \<leftarrow> cs. mset (client_holds pc))"
    "(\<Sum>pc \<leftarrow> cs[c := pc]. client_counts pc) = (\<Sum>pc \<leftarrow> cs. client_counts pc)"
    using sum_list_update_mset [OF c, of "\<lambda>pc. mset (client_holds pc)" pc] sum_list_update_one [OF c, of client_counts pc] tasks by simp_all
  then show "task_inv (w, ws', cs[c := pc])"
    using inv by (simp add: pool_inv_def task_inv_def woken_sums(3,4) [OF woken])
qed

lemma woken_refl: "list_all2 woken ws ws"
  by (simp add: list_all2_same woken_def)

lemma keep_client: "c < length cs \<Longrightarrow> x \<in> set cs \<Longrightarrow> x \<noteq> cs ! c \<Longrightarrow> x \<in> set (cs[c := pc])"
  by (metis in_set_conv_nth length_list_update nth_list_update_neq)

lemma wake_woken_inv:
  assumes "wake_inv (w, ws, cs)" and "list_all2 woken ws ws'" and "\<forall>pc \<in> set cs. pending_wake pc \<or> pc = Queue_Notify \<longrightarrow> pc \<in> set cs'"
  shows "wake_inv (w, ws', cs')"
  using assms(1) attended_woken [OF _ assms(2,3)] by (auto simp: wake_inv_def)

lemma update_twice: "u < length ws \<Longrightarrow> ws ! u = Poll_Notify x \<Longrightarrow> wake ws ws' \<Longrightarrow> u < length ws' \<and> ws' ! u = Poll_Notify x"
  by (auto elim!: wake.cases simp: nth_list_update)

text \<open>A thread that has woken another one up goes on to execute its task: it was, and is, away.\<close>

lemma pool_notified:
  assumes inv: "pool_inv (w, ws, cs)" and u: "u < length ws" "ws ! u = Poll_Notify x"
  shows "pool_inv (w, ws[u := Exec x], cs)"
proof -
  have "scan_ok w (Exec x)" by (simp add: scan_ok_def)
  moreover have "registered (Exec x) = registered (ws ! u)" "polling (Exec x) = polling (ws ! u)" "holds (Exec x) = holds (ws ! u)"
    "counts (Exec x) = counts (ws ! u)" using u by (simp_all add: polling_def counts_def)
  ultimately have "shape_inv (w, ws[u := Exec x], cs)" "task_inv (w, ws[u := Exec x], cs)"
    using inv sum_list_update_one [OF u(1), of "\<lambda>pc. if registered pc then 1 else 0" "Exec x"]
      sum_list_update_one [OF u(1), of "\<lambda>pc. if polling pc then 1 else 0" "Exec x"] sum_list_update_one [OF u(1), of counts "Exec x"]
      sum_list_update_mset [OF u(1), of "\<lambda>pc. mset (holds pc)" "Exec x"] set_update_all [of ws "scan_ok w" "Exec x" u]
    by (simp_all add: pool_inv_def shape_inv_def task_inv_def)
  moreover have "slots_inv (w, ws[u := Exec x], cs)"
    using inv by (auto simp: pool_inv_def slots_inv_def dest!: set_update_subset_insert [THEN subsetD])
  moreover have "Exec x \<in> set (ws[u := Exec x])" using u(1) by (rule set_update_memI)
  then have "wake_inv (w, ws[u := Exec x], cs)" by (force simp: wake_inv_def attended_def attends_def away_def)
  moreover have "stop_inv (w, ws[u := Exec x], cs)"
    using inv by (auto simp: pool_inv_def stop_inv_def dest!: set_update_subset_insert [THEN subsetD])
  ultimately show ?thesis by (simp add: pool_inv_def)
qed

lemma pool_woken:
  assumes "pool_inv (w, ws, cs)" and "list_all2 woken ws ws'"
  shows "pool_inv (w, ws', cs)"
  using assms shape_woken [of w ws cs ws' cs] slots_woken [of w ws cs ws' cs] wake_woken_inv [of w ws cs ws' cs] stop_woken [of w ws cs ws' cs]
  by (auto simp: pool_inv_def task_inv_def woken_sums(3,4) [OF assms(2)] shape_inv_def slots_inv_def)

lemma pool_queue:
  assumes inv: "pool_inv (w, ws, cs)" and c: "c < length cs" "cs ! c = Idle"
  shows "pool_inv (w\<lparr>task_count := task_count w + 1, submitted := x # submitted w\<rparr>, ws, cs[c := Queue_Check p x])"
proof -
  let ?w = "w\<lparr>task_count := task_count w + 1, submitted := x # submitted w\<rparr>" and ?cs = "cs[c := Queue_Check p x]"
  have same: "same_shape w ?w" by (simp add: same_shape_def)
  have "\<forall>pc \<in> set cs. client_ok ?w pc" "\<forall>pc \<in> set cs. late_ok ?w pc"
    using inv client_ok_same [OF same] late_ok_same [of w ?w] by (simp_all add: pool_inv_def shape_inv_def slots_inv_def)
  then have cs: "\<forall>pc \<in> set ?cs. client_ok ?w pc" "\<forall>pc \<in> set ?cs. late_ok ?w pc"
    using set_update_all [of cs "client_ok ?w" "Queue_Check p x" c] set_update_all [of cs "late_ok ?w" "Queue_Check p x" c] by auto
  have ws: "\<forall>pc \<in> set ws. scan_ok ?w pc" "\<forall>pc \<in> set ws. put_ok ?w pc"
    using inv pc_ok_same [OF same] put_ok_same [OF same] by (simp_all add: pool_inv_def shape_inv_def slots_inv_def scan_ok_def)
  have "shape_inv (?w, ws, ?cs)" using inv cs(1) ws(1) by (simp add: pool_inv_def shape_inv_def)
  moreover have "task_inv (?w, ws, ?cs)"
    using inv c(2) sum_list_update_mset [OF c(1), of "\<lambda>pc. mset (client_holds pc)" "Queue_Check p x"]
      sum_list_update_one [OF c(1), of client_counts "Queue_Check p x"] by (simp add: pool_inv_def task_inv_def client_counts_def)
  moreover have "slots_inv (?w, ws, ?cs)" using inv cs(2) ws(2) by (simp add: pool_inv_def slots_inv_def slot_priority_def)
  moreover have keep: "y \<in> set ?cs" if "y \<in> set cs" "y \<noteq> Idle" for y using keep_client [OF c(1) that(1)] that(2) c(2) by simp
  have "wake_inv (w, ws, ?cs)"
    by (rule wake_woken_inv [OF _ woken_refl]) (use inv keep in \<open>auto simp: pool_inv_def pending_wake_def\<close>)
  then have "wake_inv (?w, ws, ?cs)" by (simp add: wake_inv_def attended_def)
  moreover have "stop_inv (w, ws, ?cs)" by (rule stop_woken [OF _ woken_refl]) (use inv keep in \<open>auto simp: pool_inv_def\<close>)
  then have "stop_inv (?w, ws, ?cs)" by (simp add: stop_inv_def)
  ultimately show ?thesis by (simp add: pool_inv_def)
qed

lemma pool_terminate:
  assumes inv: "pool_inv (w, ws, cs)" and c: "c < length cs" "cs ! c = Idle"
  shows "pool_inv (w\<lparr>terminated := True\<rparr>, ws, cs[c := Stop_Bump])"
proof -
  let ?w = "w\<lparr>terminated := True\<rparr>" and ?cs = "cs[c := Stop_Bump]"
  have same: "same_shape w ?w" by (simp add: same_shape_def)
  have "\<forall>pc \<in> set cs. client_ok ?w pc" "\<forall>pc \<in> set cs. late_ok ?w pc"
    using inv client_ok_same [OF same] late_ok_same [of w ?w] by (simp_all add: pool_inv_def shape_inv_def slots_inv_def)
  then have cs: "\<forall>pc \<in> set ?cs. client_ok ?w pc" "\<forall>pc \<in> set ?cs. late_ok ?w pc"
    using set_update_all [of cs "client_ok ?w" Stop_Bump c] set_update_all [of cs "late_ok ?w" Stop_Bump c] by auto
  have ws: "\<forall>pc \<in> set ws. scan_ok ?w pc" "\<forall>pc \<in> set ws. put_ok ?w pc"
    using inv pc_ok_same [OF same] put_ok_same [OF same] by (simp_all add: pool_inv_def shape_inv_def slots_inv_def scan_ok_def)
  have "shape_inv (?w, ws, ?cs)" using inv cs(1) ws(1) by (simp add: pool_inv_def shape_inv_def)
  moreover have "task_inv (?w, ws, ?cs)"
    using inv c(2) sum_list_update_mset [OF c(1), of "\<lambda>pc. mset (client_holds pc)" Stop_Bump]
      sum_list_update_one [OF c(1), of client_counts Stop_Bump] by (simp add: pool_inv_def task_inv_def client_counts_def)
  moreover have "slots_inv (?w, ws, ?cs)" using inv cs(2) ws(2) by (simp add: pool_inv_def slots_inv_def slot_priority_def)
  moreover have "wake_inv (?w, ws, ?cs)" by (simp add: wake_inv_def)
  moreover have "stop_inv (?w, ws, ?cs)" using c(1) by (simp add: stop_inv_def set_update_memI)
  ultimately show ?thesis by (simp add: pool_inv_def)
qed

lemma pool_client_notify:
  assumes inv: "pool_inv (w, ws, cs)" and c: "c < length cs" "cs ! c = Queue_Notify" and wake: "wake ws ws'"
  shows "pool_inv (w, ws', cs[c := Idle])"
proof -
  note woken = wake_woken [OF wake]
  have moved: "shape_inv (w, ws', cs[c := Idle])" "task_inv (w, ws', cs[c := Idle])" "slots_inv (w, ws', cs[c := Idle])"
    using client_moves [OF inv c(1) woken, of Idle] c(2) by (simp_all add: client_counts_def)
  have "attended (w, ws', cs[c := Idle]) i" if "attended (w, ws, cs) i" for i
  proof (cases "Queue_Notify \<in> set cs \<and> (\<forall>pc \<in> set ws. loaded pc \<noteq> Some (wake_epoch w))")
    case True
    have "ws \<noteq> []" using inv by (auto simp: pool_inv_def shape_inv_def)
    with wake_attends [OF wake, of "wake_epoch w" i] True show ?thesis by (auto simp: attended_def)
  next
    case False
    with that consider "\<exists>pc \<in> set ws. attends (wake_epoch w) i pc" | "\<exists>pc \<in> set cs. pending_wake pc" by (auto simp: attended_def)
    then show ?thesis
    proof cases
      case 1
      then show ?thesis using woken_attended [OF woken] by (auto simp: attended_def)
    next
      case 2
      then have "\<exists>pc \<in> set (cs[c := Idle]). pending_wake pc" using keep_client [OF c(1)] c(2) by (metis client_pc.distinct pending_wake_def)
      then show ?thesis by (auto simp: attended_def)
    qed
  qed
  then have "wake_inv (w, ws', cs[c := Idle])" using inv by (simp add: pool_inv_def wake_inv_def)
  moreover have "stop_inv (w, ws', cs[c := Idle])"
    by (rule stop_woken [OF _ woken]) (use inv c keep_client [OF c(1)] in \<open>auto simp: pool_inv_def\<close>)
  ultimately show ?thesis using moved by (simp add: pool_inv_def)
qed

lemma pool_stop_notify:
  assumes inv: "pool_inv (w, ws, cs)" and c: "c < length cs" "cs ! c = Stop_Notify"
  shows "pool_inv (w, wake_all ws, cs[c := Idle])"
proof -
  note woken = wake_all_woken [of ws]
  have over: "terminated w" using inv c nth_mem [OF c(1)] by (force simp: pool_inv_def slots_inv_def)
  have "shape_inv (w, wake_all ws, cs[c := Idle])" "task_inv (w, wake_all ws, cs[c := Idle])" "slots_inv (w, wake_all ws, cs[c := Idle])"
    using client_moves [OF inv c(1) woken, of Idle] c(2) by (simp_all add: client_counts_def)
  moreover have "wake_inv (w, wake_all ws, cs[c := Idle])" using over by (simp add: wake_inv_def)
  moreover have "stop_inv (w, wake_all ws, cs[c := Idle])"
  proof -
    have unparked: "\<forall>pc \<in> set (wake_all ws). \<forall>e. pc \<noteq> Blocked e" by (auto simp: wake_all_def split: worker_pc.splits)
    have "\<forall>pc \<in> set (wake_all ws). checked pc \<noteq> Some (wake_epoch w)" if "\<forall>pc \<in> set ws. checked pc \<noteq> Some (wake_epoch w)"
      by (rule woken_all [OF woken _ that]) simp
    moreover have "Stop_Bump \<in> set (cs[c := Idle])" if "Stop_Bump \<in> set cs" using keep_client [OF c(1) that] c(2) by simp
    ultimately show ?thesis using inv unparked by (auto simp: pool_inv_def stop_inv_def)
  qed
  ultimately show ?thesis by (simp add: pool_inv_def)
qed

lemma pool_client_local:
  assumes inv: "pool_inv (w, ws, cs)" and c: "c < length cs"
    and tasks: "client_holds pc = client_holds (cs ! c)" "client_counts pc = client_counts (cs ! c)" and ok: "client_ok w pc" "late_ok w pc"
    and old: "\<not> pending_wake (cs ! c)" "cs ! c \<notin> {Queue_Notify, Stop_Bump, Stop_Notify}"
  shows "pool_inv (w, ws, cs[c := pc])"
proof -
  have keep: "y \<in> set (cs[c := pc])" if "y \<in> set cs" "pending_wake y \<or> y \<in> {Queue_Notify, Stop_Bump, Stop_Notify}" for y
    using keep_client [OF c that(1)] that(2) old by auto
  have "wake_inv (w, ws, cs[c := pc])" by (rule wake_woken_inv [OF _ woken_refl]) (use inv keep in \<open>auto simp: pool_inv_def\<close>)
  moreover have "stop_inv (w, ws, cs[c := pc])" by (rule stop_woken [OF _ woken_refl]) (use inv keep in \<open>auto simp: pool_inv_def\<close>)
  ultimately show ?thesis using client_moves [OF inv c woken_refl tasks ok] by (simp add: pool_inv_def)
qed

lemma pool_step_inv: "pool_inv s \<Longrightarrow> pool_step s s' \<Longrightarrow> pool_inv s'"
proof (erule pool_step.cases, goal_cases)
  case (1 u ws w w' pc' cs)
  then show ?case
    using shape_worker [of w ws cs u u w' pc'] tasks_worker [of w ws cs u u w' pc'] slots_worker [of w ws cs u u w' pc']
      attended_worker [of w ws cs u u w' pc'] stop_worker [of w ws cs u u w' pc'] by (simp add: pool_inv_def)
next
  case (2 u ws x ws' w cs)
  with pool_woken [OF _ wake_woken, of w ws cs ws'] pool_notified [of w ws' cs u x] update_twice [of u ws x ws'] show ?case by simp
next
  case (3 u ws e w cs)
  have "list_all2 woken ws (ws[u := Compare e])" using 3 by (auto simp: list_all2_conv_all_nth nth_list_update woken_def)
  with 3 pool_woken show ?case by blast
next
  case (4 c cs t w w' pc' ws)
  then show ?case
    using shape_client [of w ws cs c t w' pc'] tasks_client [of w ws cs c t w' pc'] slots_client [of w ws cs c t w' pc']
      attended_client [of w ws cs c t w' pc'] stop_client [of w ws cs c t w' pc'] by (simp add: pool_inv_def)
next
  case (5 c cs p x k k' w ws)
  have "client_ok w (cs ! c)" using 5 nth_mem [of c cs] by (force simp: pool_inv_def shape_inv_def)
  with 5 pool_client_local [of w ws cs c "Queue_Chain p x k'"] show ?case by (simp add: client_counts_def pending_wake_def)
next
  case (6 c cs ws ws' w)
  then show ?case using pool_client_notify by blast
next
  case (7 c cs w ws)
  then show ?case using pool_stop_notify by blast
next
  case (8 c cs w ws x p)
  then show ?case using pool_queue by blast
next
  case (9 c cs w ws)
  with pool_client_local [of w ws cs c "Drain_Take 0"] show ?case by (simp add: client_counts_def pending_wake_def)
next
  case (10 c cs w ws)
  then show ?case using pool_terminate by blast
qed

interpretation pool: step_invariant pool_step pool_inv
  by unfold_locales (rule pool_step_inv)

lemma pool_inv_init:
  assumes "0 < n"
  shows "pool_inv (pool_init n extra limit clients)"
proof -
  have "(\<Sum>x \<leftarrow> replicate k {#}. x) = ({#} :: nat multiset)" for k by (induction k) auto
  then show ?thesis using assms
    by (auto simp: pool_inv_def pool_init_def worker_start_def shape_inv_def task_inv_def slots_inv_def wake_inv_def stop_inv_def
        sum_list_replicate polling_def scan_ok_def counts_def client_counts_def concat_eq_Nil_conv [THEN iffD2] sum_list_triv)
qed

definition pool_reachable :: "nat \<Rightarrow> nat \<Rightarrow> nat \<Rightarrow> nat \<Rightarrow> pool \<Rightarrow> bool" where
  "pool_reachable n extra limit clients s \<longleftrightarrow> 0 < n \<and> pool_step\<^sup>*\<^sup>* (pool_init n extra limit clients) s"

lemma reachable_pool_inv: "pool_reachable n extra limit clients s \<Longrightarrow> pool_inv s"
  unfolding pool_reachable_def using pool.reachable_inv pool_inv_init by blast

lemma reachable_limit: "pool_reachable n extra limit clients (w, ws, cs) \<Longrightarrow> limit_count w = limit"
proof -
  have "limit_count (fst s') = limit_count (fst s)" if "pool_step\<^sup>*\<^sup>* s s'" for s s'
    using that
  proof (induction rule: rtranclp_induct)
    case (step y z)
    have "limit_count (fst z) = limit_count (fst y)"
      using step.hyps(2) worker_advance_same client_advance_same by (cases rule: pool_step.cases) (auto simp: same_shape_def)
    with step show ?case by simp
  qed simp
  then show "pool_reachable n extra limit clients (w, ws, cs) \<Longrightarrow> limit_count w = limit"
    unfolding pool_reachable_def by (fastforce simp: pool_init_def worker_start_def)
qed

section \<open>Schedules\<close>

datatype pool_action = Work nat | Worker_Wake nat nat | Client_Go nat nat | Client_Wake nat nat | Submit nat nat nat | Stop nat

fun pool_perform :: "pool \<Rightarrow> pool_action \<Rightarrow> pool option" where
  "pool_perform (w, ws, cs) (Work u) =
     (if u < length ws \<and> (case ws ! u of Poll_Notify x \<Rightarrow> False | Blocked e \<Rightarrow> False | _ \<Rightarrow> True) then
        let (w', pc') = worker_advance u (ws ! u) w in Some (w', ws[u := pc'], cs)
      else None)"
| "pool_perform (w, ws, cs) (Worker_Wake u v) =
     (if u < length ws \<and> v < length ws then
        case (ws ! u, ws ! v) of (Poll_Notify x, Blocked e) \<Rightarrow> Some (w, (ws[v := Compare e])[u := Exec x], cs) | _ \<Rightarrow> None
      else None)"
| "pool_perform (w, ws, cs) (Client_Go c t) =
     (if c < length cs \<and> cs ! c \<noteq> Queue_Notify \<and> cs ! c \<noteq> Stop_Notify then
        let (w', pc') = client_advance t (cs ! c) w in Some (w', ws, cs[c := pc'])
      else None)"
| "pool_perform (w, ws, cs) (Client_Wake c v) =
     (if c < length cs \<and> v < length ws \<and> cs ! c = Queue_Notify then
        case ws ! v of Blocked e \<Rightarrow> Some (w, ws[v := Compare e], cs[c := Idle]) | _ \<Rightarrow> None
      else if c < length cs \<and> cs ! c = Stop_Notify then Some (w, wake_all ws, cs[c := Idle])
      else None)"
| "pool_perform (w, ws, cs) (Submit c p x) =
     (if c < length cs \<and> cs ! c = Idle
      then Some (w\<lparr>task_count := task_count w + 1, submitted := x # submitted w\<rparr>, ws, cs[c := Queue_Check p x])
      else None)"
| "pool_perform (w, ws, cs) (Stop c) =
     (if c < length cs \<and> cs ! c = Idle then Some (w\<lparr>terminated := True\<rparr>, ws, cs[c := Stop_Bump]) else None)"

lemma pool_perform_step: "pool_perform s a = Some s' \<Longrightarrow> pool_step s s'"
  by (cases "(s, a)" rule: pool_perform.cases)
    (auto split: if_splits worker_pc.splits prod.splits intro: pool_step.intros [simplified] wake.intros)

lemma pool_play_reachable:
  assumes "run_requests pool_perform (pool_init n extra limit clients) as = Some s" and "0 < n"
  shows "pool_reachable n extra limit clients s"
proof -
  have "pool_step\<^sup>*\<^sup>* s s'" if "run_requests pool_perform s as = Some s'" for s s'
    using that by (induction as arbitrary: s) (auto split: option.splits intro: converse_rtranclp_into_rtranclp pool_perform_step)
  with assms show ?thesis by (simp add: pool_reachable_def)
qed

text \<open>One thread parks; a client queues a task and wakes it up; the thread executes the task and parks again.\<close>

definition one_task :: "pool_action list" where
  "one_task = replicate 91 (Work 0) @ [Submit 0 0 7, Client_Go 0 0, Client_Go 0 0, Client_Go 0 0, Client_Go 0 0, Client_Wake 0 0] @
     replicate 107 (Work 0)"

lemma one_task_run:
  "map_option (\<lambda>(w, ws, cs). (submitted w, executed w, terminated w, ws, cs)) (run_requests pool_perform (pool_init 1 0 0 1) one_task) =
   Some ([7], [7], False, [Blocked 1], [Idle])"
  by code_simp

lemma one_task_reached:
  obtains w where "pool_reachable 1 0 0 1 (w, [Blocked 1], [Idle])" "submitted w = [7]" "executed w = [7]" "\<not> terminated w"
proof -
  from one_task_run obtain w where w: "run_requests pool_perform (pool_init 1 0 0 1) one_task = Some (w, [Blocked 1], [Idle])"
    "submitted w = [7]" "executed w = [7]" "\<not> terminated w" by auto
  from pool_play_reachable [OF w(1)] w(2-4) that show ?thesis by simp
qed

section \<open>Properties\<close>

text \<open>
  C5. No task is lost or doubled, in every schedule of any number of threads and clients: what was submitted is what was executed, what
  is chained in the slots and what a thread or client has in its hands, and the task count is exact.
\<close>

theorem worker_conserves_tasks:
  assumes "pool_reachable n extra limit clients (w, ws, cs)"
  shows "mset (submitted w) = mset (executed w) + mset (concat (task_heads w)) + (\<Sum>pc \<leftarrow> ws. mset (holds pc)) + (\<Sum>pc \<leftarrow> cs. mset (client_holds pc)) \<and>
    task_count w = length (concat (task_heads w)) + (\<Sum>pc \<leftarrow> ws. counts pc) + (\<Sum>pc \<leftarrow> cs. client_counts pc)"
  using reachable_pool_inv [OF assms] by (simp add: pool_inv_def task_inv_def)

theorem worker_conserves_tasks_witness:
  "\<exists>w. pool_reachable 1 0 0 1 (w, [Blocked 1], [Idle]) \<and> mset (submitted w) = mset (executed w) + mset (concat (task_heads w)) \<and>
    task_count w = length (concat (task_heads w))"
proof -
  obtain w where "pool_reachable 1 0 0 1 (w, [Blocked 1], [Idle])" by (rule one_task_reached)
  with worker_conserves_tasks [OF this] show ?thesis by (auto simp: counts_def client_counts_def)
qed

text \<open>
  C6. No wake-up is lost, on two conditions: the priority limit of the pool is 0 (no limit on its threads), and the pool was not terminated. Then,
  whenever all internal threads are parked and all clients idle, no slot holds a task, and every
  task that was submitted has been executed. With a limit the claim is false (\<open>limit_starves\<close>).
\<close>

theorem worker_no_lost_wakeup:
  assumes "pool_reachable n extra 0 clients (w, ws, cs)" and "\<not> terminated w" and "\<forall>pc \<in> set ws. \<exists>e. pc = Blocked e" and "\<forall>pc \<in> set cs. pc = Idle"
  shows "concat (task_heads w) = [] \<and> mset (executed w) = mset (submitted w) \<and> task_count w = 0"
proof -
  have inv: "pool_inv (w, ws, cs)" by (rule reachable_pool_inv [OF assms(1)])
  have "\<not> attended (w, ws, cs) i" for i
  proof
    assume "attended (w, ws, cs) i"
    then consider pc where "pc \<in> set ws" "attends (wake_epoch w) i pc" | pc where "pc \<in> set cs" "pending_wake pc" | "Queue_Notify \<in> set cs"
      by (auto simp: attended_def)
    then show False
    proof cases
      case 1
      then show False using assms(3) by (force simp: attends_def away_def stale_def)
    next
      case 2
      then show False using assms(4) by (auto simp: pending_wake_def)
    next
      case 3
      then show False using assms(4) by auto
    qed
  qed
  moreover have "limit_count w = 0" by (rule reachable_limit [OF assms(1)])
  ultimately have "\<forall>i < length (task_heads w). task_heads w ! i = []" using inv assms(2) by (auto simp: pool_inv_def wake_inv_def)
  then have empty: "concat (task_heads w) = []" by (simp add: all_set_conv_all_nth)
  have "holds pc = []" "counts pc = 0" if "pc \<in> set ws" for pc using that assms(3) by (auto simp: counts_def)
  then have "(\<Sum>pc \<leftarrow> ws. mset (holds pc)) = {#}" "(\<Sum>pc \<leftarrow> ws. counts pc) = 0"
    by (simp_all cong: map_cong add: sum_list_triv)
  moreover have "(\<Sum>pc \<leftarrow> cs. mset (client_holds pc)) = {#}" "(\<Sum>pc \<leftarrow> cs. client_counts pc) = 0"
    using assms(4) by (induction cs) (auto simp: client_counts_def)
  ultimately show ?thesis using inv empty by (simp add: pool_inv_def task_inv_def)
qed

theorem worker_no_lost_wakeup_witness:
  "\<exists>w. pool_reachable 1 0 0 1 (w, [Blocked 1], [Idle]) \<and> concat (task_heads w) = [] \<and> task_count w = 0 \<and> executed w = [7]"
proof -
  obtain w where w: "pool_reachable 1 0 0 1 (w, [Blocked 1], [Idle])" "\<not> terminated w" "executed w = [7]" by (rule one_task_reached)
  from worker_no_lost_wakeup [OF w(1,2)] w(1,3) show ?thesis by auto
qed

text \<open>
  C7. Termination reaches every thread: when the pool is terminated and the calls of \<open>terminate\<close> have returned, no thread is or will stay parked, and once all have
  stopped the counts of running and waiting threads are zero, as \<open>join\<close> demands.
\<close>

theorem worker_shutdown:
  assumes "pool_reachable n extra limit clients (w, ws, cs)" and "terminated w" and "Stop_Bump \<notin> set cs" and "Stop_Notify \<notin> set cs"
  shows "(\<forall>pc \<in> set ws. \<forall>e. pc \<noteq> Blocked e \<and> (pc = Compare e \<longrightarrow> e \<noteq> wake_epoch w)) \<and>
    ((\<forall>pc \<in> set ws. pc = Stopped) \<longrightarrow> running_count w = 0 \<and> waiting_thread_count w = 0)"
proof -
  have inv: "shape_inv (w, ws, cs)" "stop_inv (w, ws, cs)" using reachable_pool_inv [OF assms(1)] by (simp_all add: pool_inv_def)
  have "(\<Sum>pc \<leftarrow> ws. if registered pc then 1 else (0 :: nat)) = 0" "(\<Sum>pc \<leftarrow> ws. if polling pc then 1 else (0 :: nat)) = 0"
    if "\<forall>pc \<in> set ws. pc = Stopped" using that by (induction ws) (auto simp: polling_def)
  moreover have "\<forall>pc \<in> set ws. \<forall>e. pc \<noteq> Blocked e \<and> (pc = Compare e \<longrightarrow> e \<noteq> wake_epoch w)"
  proof (intro ballI allI conjI impI)
    fix pc e assume pc: "pc \<in> set ws"
    then have stop: "checked pc \<noteq> Some (wake_epoch w)" "pc \<noteq> Blocked e" using inv(2) assms(2-4) by (simp_all add: stop_inv_def)
    then show "pc \<noteq> Blocked e" by simp
    show "e \<noteq> wake_epoch w" if "pc = Compare e" using stop(1) that by auto
  qed
  ultimately show ?thesis using inv(1) unfolding shape_inv_def prod.case by metis
qed

definition stop_one :: "pool_action list" where
  "stop_one = replicate 91 (Work 0) @ [Stop 0, Client_Go 0 0, Client_Wake 0 0, Work 0, Work 0, Work 0, Work 0]"

theorem worker_shutdown_witness:
  "\<exists>w. pool_reachable 1 0 0 1 (w, [Stopped], [Idle]) \<and> running_count w = 0 \<and> waiting_thread_count w = 0"
proof -
  have "map_option (\<lambda>(w, ws, cs). (terminated w, ws, cs)) (run_requests pool_perform (pool_init 1 0 0 1) stop_one) = Some (True, [Stopped], [Idle])"
    by code_simp
  then obtain w where w: "run_requests pool_perform (pool_init 1 0 0 1) stop_one = Some (w, [Stopped], [Idle])" "terminated w" by auto
  have r: "pool_reachable 1 0 0 1 (w, [Stopped], [Idle])" by (rule pool_play_reachable [OF w(1)]) simp
  from worker_shutdown [OF r w(2)] r show ?thesis by auto
qed

text \<open>
  With a limit on the threads a task may wait for ever: two threads are parked, the limit is one, and a task of priority 1 is chained without waking anybody up.
\<close>

definition limit_starves_schedule :: "pool_action list" where
  "limit_starves_schedule = replicate 95 (Work 0) @ replicate 103 (Work 1) @ [Submit 0 1 7, Client_Go 0 0, Client_Go 0 0, Client_Go 0 0]"

lemma limit_starves:
  "(case run_requests pool_perform (pool_init 2 0 1 1) limit_starves_schedule of
      None \<Rightarrow> False | Some (w, ws, cs) \<Rightarrow> ws = [Blocked 0, Blocked 0] \<and> cs = [Idle] \<and> concat (task_heads w) = [7] \<and> \<not> terminated w)"
  by code_simp

end
