(* ===== verification/Balancer.thy ===== *)
theory Balancer
  imports Worker
begin

text \<open>
  The balancer \<open>iris_async_balancer_t\<close> of \<open>iris_dispatcher.h\<close>: it counts idle rounds (\<open>down\<close>) against busy ones (\<open>up\<close>) and moves the limit of a pool of worker
  threads when one side outweighs the other by the size of a window.
\<close>

record balancer_t =
  current_limit :: nat
  window_size :: int
  balance :: int

type_synonym balanced = "balancer_t \<times> worker_t"

definition balancer_make :: "nat \<Rightarrow> worker_t \<Rightarrow> balanced" where
  "balancer_make sz w = (\<lparr>current_limit = 0, window_size = int sz, balance = 0\<rparr>, w\<lparr>limit_count := 0\<rparr>)"

definition balancer_down :: "balanced \<Rightarrow> balanced" where
  "balancer_down s = (case s of (b, w) \<Rightarrow>
     if current_limit b + 1 < thread_count w \<and> task_count w = 0 then
       if balance b + window_size b < 0 then
         (b\<lparr>current_limit := current_limit b + 1, balance := balance b + window_size b\<rparr>, w\<lparr>limit_count := current_limit b + 1\<rparr>)
       else (b\<lparr>balance := balance b - 1\<rparr>, w)
     else (b, w))"

definition balancer_up :: "balanced \<Rightarrow> balanced" where
  "balancer_up s = (case s of (b, w) \<Rightarrow>
     if current_limit b \<noteq> 0 \<and> task_count w > 0 then
       if balance b > window_size b then
         (b\<lparr>current_limit := current_limit b - 1, balance := balance b - window_size b\<rparr>, w\<lparr>limit_count := current_limit b - 1\<rparr>)
       else (b\<lparr>balance := balance b + 1\<rparr>, w)
     else (b, w))"

text \<open>Rounds of a pool: idle or busy, with the number of tasks it has at that moment.\<close>

fun balancer_round :: "balanced \<Rightarrow> bool \<times> nat \<Rightarrow> balanced" where
  "balancer_round (b, w) (busy, tasks) = (if busy then balancer_up else balancer_down) (b, w\<lparr>task_count := tasks\<rparr>)"

definition balanced_inv :: "nat \<Rightarrow> nat \<Rightarrow> balanced \<Rightarrow> bool" where
  "balanced_inv n sz s = (case s of (b, w) \<Rightarrow>
     thread_count w = n \<and> window_size b = int sz \<and> limit_count w = current_limit b \<and> (current_limit b = 0 \<or> current_limit b < n) \<and>
     \<bar>balance b\<bar> \<le> int sz + 1)"

lemma balancer_round_inv: "balanced_inv n sz s \<Longrightarrow> balanced_inv n sz (balancer_round s r)"
  by (cases s; cases r) (auto simp: balanced_inv_def balancer_up_def balancer_down_def)

lemma balancer_rounds_inv: "balanced_inv n sz s \<Longrightarrow> balanced_inv n sz (foldl balancer_round s rs)"
  by (induction rs arbitrary: s) (simp_all add: balancer_round_inv del: balancer_round.simps)

text \<open>
  The balancer keeps its bounds over every sequence of rounds: the limit of the pool is the balancer's own, at least one of the threads is not
  limited, and the balance never leaves its window by more than one.
\<close>

theorem balancer_bounds:
  assumes "0 < thread_count w" and "foldl balancer_round (balancer_make sz w) rs = (b, w')"
  shows "limit_count w' = current_limit b \<and> current_limit b < thread_count w' \<and> \<bar>balance b\<bar> \<le> int sz + 1"
proof -
  have "balanced_inv (thread_count w) sz (balancer_make sz w)" by (simp add: balanced_inv_def balancer_make_def)
  from balancer_rounds_inv [OF this, of rs] show ?thesis using assms by (auto simp: balanced_inv_def)
qed

theorem balancer_bounds_witness:
  "\<exists>b w. foldl balancer_round (balancer_make 1 (worker_start 2 0 0)) (replicate 5 (False, 0)) = (b, w) \<and> current_limit b = 1 \<and> current_limit b < thread_count w"
proof -
  obtain b w where r: "foldl balancer_round (balancer_make 1 (worker_start 2 0 0)) (replicate 5 (False, 0)) = (b, w)" by fastforce
  have "current_limit (fst (foldl balancer_round (balancer_make 1 (worker_start 2 0 0)) (replicate 5 (False, 0)))) = 1" by code_simp
  with r balancer_bounds [OF _ r] show ?thesis by (auto simp: worker_start_def)
qed

end
