(* ===== verification/Quick_List.thy ===== *)
theory Quick_List
  imports Queue_List
begin

text \<open>
  The quick list \<open>iris_queue_quick_list_t\<close> of \<open>iris_common.h\<close>: the chained queue with its nodes in a vector, so
  that an element is reached by its index in one step. The entity component system keeps its components in such lists.
  The vector \<open>nodes\<close> of the code lists the nodes of the chain in order, so it is the field \<^const>\<open>nodes\<close> of the chain.

  The index of an element is the number of elements pushed before it, as long as every node is filled once only
  (\<open>pool_room\<close>). The lemmas under \<open>Refinement\<close> prove access by index correct under that condition;
  \<open>reused_ring_index\<close> and \<open>reused_ring_announces_wrong_index\<close> show what happens without it.
\<close>

section \<open>Operations\<close>

text \<open>The node that \<open>get\<close> picks, in the arithmetic of \<open>size_t\<close>.\<close>

definition quick_node :: "queue_params_t \<Rightarrow> size_t \<Rightarrow> 'a queue_list_t \<Rightarrow> nat" where
  "quick_node c index l =
     (let b = list_begin_index l; n = of_nat (element_count c) in unat ((index - (b - b mod n)) div n))"

text \<open>Reading through the reference that \<open>get\<close> returns, and assigning through it.\<close>

definition quick_get :: "queue_params_t \<Rightarrow> size_t \<Rightarrow> 'a queue_list_t \<Rightarrow> 'a option" where
  "quick_get c index l =
     (let k = quick_node c index l in if k < length (nodes l) then queue_get c index (nodes l ! k) else None)"

definition quick_set :: "queue_params_t \<Rightarrow> size_t \<Rightarrow> 'a \<Rightarrow> 'a queue_list_t \<Rightarrow> 'a queue_list_t option" where
  "quick_set c index t l =
     (let k = quick_node c index l in
      if k < length (nodes l) then do {
        q \<leftarrow> slot_assign (nodes l ! k) (ring_index c index) t;
        Some (l\<lparr>nodes := (nodes l)[k := q]\<rparr>)
      } else None)"

section \<open>Refinement\<close>

text \<open>
  The list holds \<open>xs\<close> at the indices from \<open>b\<close> on: each node holds a stretch that ends at a multiple of its size,
  except that the last may end earlier.
\<close>

fun nodes_full :: "queue_params_t \<Rightarrow> nat \<Rightarrow> 'a iris_queue_t list \<Rightarrow> 'a list list \<Rightarrow> bool" where
  "nodes_full c b [] xss \<longleftrightarrow> xss = []"
| "nodes_full c b (q # qs) [] \<longleftrightarrow> False"
| "nodes_full c b (q # qs) (ys # yss) \<longleftrightarrow>
     ring_rel c 0 q b ys \<and> ys \<noteq> [] \<and> b mod element_count c + length ys = element_count c \<and>
     nodes_full c (b + length ys) qs yss"

definition nodes_at :: "queue_params_t \<Rightarrow> nat \<Rightarrow> 'a iris_queue_t list \<Rightarrow> 'a list \<Rightarrow> bool" where
  "nodes_at c b ns xs \<longleftrightarrow>
     (\<exists>qs q yss ys. ns = qs @ [q] \<and> xs = concat yss @ ys \<and> nodes_full c b qs yss \<and>
        ring_rel c 0 q (b + length (concat yss)) ys \<and>
        (b + length (concat yss)) mod element_count c + length ys \<le> element_count c \<and> (qs \<noteq> [] \<longrightarrow> ys \<noteq> []))"

definition next_node_index :: "queue_params_t \<Rightarrow> nat \<Rightarrow> nat" where
  "next_node_index c e = (if e = 0 then element_count c else (e + element_count c - 1) div element_count c * element_count c)"

definition pool_rel :: "queue_params_t \<Rightarrow> 'a queue_list_t \<Rightarrow> nat \<Rightarrow> 'a list \<Rightarrow> bool" where
  "pool_rel c l b xs \<longleftrightarrow>
     params_ok c \<and> \<not> spsc_optimized c \<and> spare l = [] \<and> b + length xs < 2 ^ 62 \<and>
     unat (iterator_counter l) = next_node_index c (b + length xs) \<and> nodes_at c b (nodes l) xs"

text \<open>A push that starts a new node needs the last node full, not partly emptied.\<close>

definition pool_room :: "queue_params_t \<Rightarrow> nat \<Rightarrow> nat \<Rightarrow> bool" where
  "pool_room c b n \<longleftrightarrow> (b + n) mod element_count c \<noteq> 0 \<or> b + n = 0 \<or> element_count c \<le> n"

lemma ring_rel_budget: "ring_rel c k q p xs \<Longrightarrow> \<not> spsc_optimized c \<Longrightarrow> k' \<le> 2 ^ 32 \<Longrightarrow> ring_rel c k' q p xs"
  by (auto simp: ring_rel_def shadows_ok_def)

lemma pool_relD:
  assumes "pool_rel c l b xs"
  shows "params_ok c" "\<not> spsc_optimized c" "spare l = []" "b + length xs < 2 ^ 62"
    "unat (iterator_counter l) = next_node_index c (b + length xs)" "nodes_at c b (nodes l) xs" "nodes l \<noteq> []"
    "0 < element_count c" "element_count c < 2 ^ 31"
  using assms by (auto simp: pool_rel_def nodes_at_def params_ok_def)

lemma nodes_full_length: "nodes_full c b qs xss \<Longrightarrow> length qs = length xss"
  by (induction c b qs xss rule: nodes_full.induct) auto

lemma index_below_modulus: "params_ok c \<Longrightarrow> i < 2 ^ 62 \<Longrightarrow> i mod counter_modulus c = i"
  using modulus_bounds(1) [of c] by simp

lemma ring_index_of_nat: "i < 2 ^ 62 \<Longrightarrow> ring_index c (of_nat i) = i mod element_count c"
  by (simp add: ring_index_def unat_of_nat)

lemma ring_rel_get:
  assumes "ring_rel c k q p ys" "p \<le> i" "i < p + length ys" "i < 2 ^ 62"
  shows "queue_get c (of_nat i) q = Some (ys ! (i - p))"
proof -
  note r = ring_relD [OF assms(1)]
  have "ring_buffer q ! ((p + (i - p)) mod element_count c) = Some (ys ! (i - p))"
    using holds_slot [OF r(2), of "i - p"] assms(2,3) by simp
  then show ?thesis using r(6,8) assms(2,4) by (simp add: queue_get_def slot_read_def ring_index_of_nat)
qed

lemma ring_rel_set:
  assumes "ring_rel c k q p ys" "p \<le> i" "i < p + length ys" "i < 2 ^ 62"
  shows "\<exists>q'. slot_assign q (ring_index c (of_nat i)) t = Some q' \<and> ring_rel c k q' p (ys[i - p := t])"
proof -
  note r = ring_relD [OF assms(1)]
  let ?i = "i mod element_count c"
  let ?q = "q\<lparr>ring_buffer := (ring_buffer q)[?i := Some t]\<rparr>"
  have "slot_read q ?i = Some (ys ! (i - p))"
    using ring_rel_get [OF assms] assms(4) by (simp add: queue_get_def ring_index_of_nat)
  then have "slot_assign q (ring_index c (of_nat i)) t = Some ?q"
    using r(6,8) assms(4) by (simp add: slot_assign_def slot_new_def ring_index_of_nat)
  moreover have "ring_rel c k ?q p (ys[i - p := t])"
    using r(1-5) holds_set [OF r(2), of "i - p" t] assms(2,3) by (simp add: ring_rel_def)
  ultimately show ?thesis by blast
qed

text \<open>Which node an index falls into.\<close>

lemma stretch_end:
  assumes "b mod n + m = (n :: nat)" "0 < n"
  shows "(b + m) mod n = 0" "(b + m) div n = Suc (b div n)"
proof -
  have "b + m = Suc (b div n) * n" using assms(1) div_mult_mod_eq [of b n] by (simp, linarith)
  then show "(b + m) mod n = 0" "(b + m) div n = Suc (b div n)" using assms(2) by simp_all
qed

lemma stretch_div:
  assumes "b mod n + m \<le> (n :: nat)" "b \<le> i" "i < b + m"
  shows "i div n = b div n"
proof -
  have "b div n * n \<le> i" "i < Suc (b div n) * n"
    using assms div_mult_mod_eq [of b n] by (simp_all, linarith+)
  then show ?thesis by (metis div_nat_eqI mult.commute)
qed

lemma nodes_full_end:
  "nodes_full c b qs yss \<Longrightarrow> 0 < element_count c \<Longrightarrow>
   (b + length (concat yss)) div element_count c = b div element_count c + length qs \<and>
   (qs \<noteq> [] \<longrightarrow> (b + length (concat yss)) mod element_count c = 0)"
proof (induction c b qs yss rule: nodes_full.induct)
  case (3 c b q qs ys yss)
  note e = stretch_end [of b "element_count c" "length ys"]
  from 3 e show ?case by (cases qs) (auto simp: add.assoc)
qed auto

lemma nodes_full_access:
  assumes "nodes_full c b qs yss" "0 < element_count c" "b \<le> i" "i < b + length (concat yss)" "i < 2 ^ 62"
  shows "i div element_count c - b div element_count c < length qs \<and>
    queue_get c (of_nat i) (qs ! (i div element_count c - b div element_count c)) = Some (concat yss ! (i - b)) \<and>
    (\<exists>q' zss. slot_assign (qs ! (i div element_count c - b div element_count c)) (ring_index c (of_nat i)) t = Some q' \<and>
       nodes_full c b (qs[i div element_count c - b div element_count c := q']) zss \<and> concat zss = (concat yss)[i - b := t])"
  using assms
proof (induction c b qs yss rule: nodes_full.induct)
  case (3 c b q qs ys yss)
  let ?n = "element_count c"
  from "3.prems" have h: "ring_rel c 0 q b ys" "ys \<noteq> []" "b mod ?n + length ys = ?n" "nodes_full c (b + length ys) qs yss" by auto
  show ?case
  proof (cases "i < b + length ys")
    case True
    then have "i div ?n = b div ?n" using stretch_div [of b ?n "length ys" i] h(3) "3.prems"(3) by simp
    moreover from ring_rel_set [OF h(1) "3.prems"(3) True "3.prems"(5), of t] obtain q' where
      "slot_assign q (ring_index c (of_nat i)) t = Some q'" "ring_rel c 0 q' b (ys[i - b := t])" by blast
    moreover have "nodes_full c b (q' # qs) (ys[i - b := t] # yss)" using calculation h by simp
    moreover have "concat (ys[i - b := t] # yss) = (concat (ys # yss))[i - b := t]"
      using less_diff_conv2 [OF "3.prems"(3), of "length ys"] True by (simp add: list_update_append add.commute)
    ultimately show ?thesis
      using ring_rel_get [OF h(1) "3.prems"(3) True "3.prems"(5)] True "3.prems"(3)
      by (auto simp: nth_append intro!: exI [of _ "ys[i - b := t] # yss"] simp del: nodes_full.simps)
  next
    case False
    note e = stretch_end [OF h(3) "3.prems"(2)]
    have "(b + length ys) div ?n \<le> i div ?n" using False by (intro div_le_mono) simp
    then obtain k where k: "i div ?n - b div ?n = Suc k" "i div ?n - (b + length ys) div ?n = k"
      using e(2) by (metis Suc_diff_Suc Suc_le_lessD diff_Suc_Suc)
    have "i < b + length ys + length (concat yss)" using "3.prems"(4) by (simp add: add.assoc)
    from "3.IH" [OF h(4) "3.prems"(2) _ this "3.prems"(5)] False k(2) obtain q' zss where
      z: "k < length qs" "queue_get c (of_nat i) (qs ! k) = Some (concat yss ! (i - (b + length ys)))"
      "slot_assign (qs ! k) (ring_index c (of_nat i)) t = Some q'"
      "nodes_full c (b + length ys) (qs[k := q']) zss" "concat zss = (concat yss)[i - (b + length ys) := t]" by auto
    have "i - b - length ys = i - (b + length ys)" "\<not> i - b < length ys" using False by simp_all
    then have "concat (ys # zss) = (concat (ys # yss))[i - b := t]"
      "concat (ys # yss) ! (i - b) = concat yss ! (i - (b + length ys))"
      using z(5) by (simp_all add: list_update_append nth_append)
    then show ?thesis
      unfolding k(1) using z(1-4) h by (intro conjI exI [of _ q'] exI [of _ "ys # zss"]) simp_all
  qed
qed auto

lemma nodes_at_access:
  assumes "nodes_at c b ns xs" "0 < element_count c" "b \<le> i" "i < b + length xs" "i < 2 ^ 62"
  shows "i div element_count c - b div element_count c < length ns \<and>
    queue_get c (of_nat i) (ns ! (i div element_count c - b div element_count c)) = Some (xs ! (i - b)) \<and>
    (\<exists>q'. slot_assign (ns ! (i div element_count c - b div element_count c)) (ring_index c (of_nat i)) t = Some q' \<and>
       nodes_at c b (ns[i div element_count c - b div element_count c := q']) (xs[i - b := t]))"
proof -
  let ?n = "element_count c"
  let ?k = "i div ?n - b div ?n"
  from assms(1) obtain qs q yss ys where n: "ns = qs @ [q]" "xs = concat yss @ ys" "nodes_full c b qs yss"
    "ring_rel c 0 q (b + length (concat yss)) ys" "(b + length (concat yss)) mod ?n + length ys \<le> ?n" "qs \<noteq> [] \<longrightarrow> ys \<noteq> []"
    unfolding nodes_at_def by blast
  show ?thesis
  proof (cases "i < b + length (concat yss)")
    case True
    then have lt: "i - b < length (concat yss)" using assms(3) by linarith
    from nodes_full_access [OF n(3) assms(2,3) True assms(5), of t] obtain q' zss where
      z: "?k < length qs" "queue_get c (of_nat i) (qs ! ?k) = Some (concat yss ! (i - b))"
      "slot_assign (qs ! ?k) (ring_index c (of_nat i)) t = Some q'"
      "nodes_full c b (qs[?k := q']) zss" "concat zss = (concat yss)[i - b := t]" by blast
    have "length (concat zss) = length (concat yss)" using z(5) by (metis length_list_update)
    then have "nodes_at c b (qs[?k := q'] @ [q]) (xs[i - b := t])"
      unfolding nodes_at_def using n z lt
      by (intro exI [of _ "qs[?k := q']"] exI [of _ q] exI [of _ zss] exI [of _ ys]) (simp_all add: list_update_append)
    then show ?thesis using z n(1,2) lt by (simp add: nth_append list_update_append)
  next
    case False
    let ?p = "b + length (concat yss)"
    have range: "?p \<le> i" "i < ?p + length ys" using False assms(4) n(2) by auto
    have "i div ?n = b div ?n + length qs"
      using stretch_div [OF n(5) range] nodes_full_end [OF n(3) assms(2)] by simp
    then have k: "?k = length qs" by simp
    from ring_rel_set [OF n(4) range assms(5), of t] obtain q' where
      q': "slot_assign q (ring_index c (of_nat i)) t = Some q'" "ring_rel c 0 q' ?p (ys[i - ?p := t])" by blast
    have off: "i - b - length (concat yss) = i - ?p" "\<not> i - b < length (concat yss)" using False by simp_all
    have "nodes_at c b (qs @ [q']) (xs[i - b := t])"
      unfolding nodes_at_def using n q' off
      by (intro exI [of _ qs] exI [of _ q'] exI [of _ yss] exI [of _ "ys[i - ?p := t]"]) (simp add: list_update_append)
    then show ?thesis
      unfolding k using q' n(1,2) ring_rel_get [OF n(4) range assms(5)] off by (simp add: nth_append)
  qed
qed

lemma pool_end_index:
  assumes "pool_rel c l b xs"
  shows "list_end_index l = of_nat (b + length xs)" "list_begin_index l = of_nat b"
proof -
  note r = pool_relD [OF assms]
  from r(6) obtain qs q yss ys where n: "nodes l = qs @ [q]" "xs = concat yss @ ys" "nodes_full c b qs yss"
    "ring_rel c 0 q (b + length (concat yss)) ys"
    unfolding nodes_at_def by blast
  have "unat (push_count q) = b + length xs"
    using ring_relD(4) [OF n(4)] n(2) r(4) index_below_modulus [OF r(1), of "b + length xs"] by (simp add: add.assoc)
  then show "list_end_index l = of_nat (b + length xs)" using n(1) by (metis last_snoc list_end_index_def of_nat_unat ucast_id)
  have "unat (pop_count (hd (nodes l))) = b"
  proof (cases qs)
    case Nil
    then show ?thesis using n ring_relD(3) [OF n(4)] r(4) index_below_modulus [OF r(1), of b] by simp
  next
    case (Cons q0 ps)
    with n(3) obtain ys0 where "ring_rel c 0 q0 b ys0" by (cases yss) auto
    then show ?thesis using Cons n(1) ring_relD(3) r(4) index_below_modulus [OF r(1), of b] by fastforce
  qed
  then show "list_begin_index l = of_nat b" by (metis list_begin_index_def of_nat_unat ucast_id)
qed

lemma quick_node_value:
  assumes "pool_rel c l b xs" "b \<le> i" "i < 2 ^ 62"
  shows "quick_node c (of_nat i) l = i div element_count c - b div element_count c"
proof -
  note r = pool_relD [OF assms(1)]
  let ?n = "element_count c" and ?B = "list_begin_index l"
  have B: "unat ?B = b" and n: "unat (of_nat ?n :: size_t) = ?n" and i: "unat (of_nat i :: size_t) = i"
    using pool_end_index(2) [OF assms(1)] assms(2,3) r(9) by (simp_all add: unat_of_nat)
  have mod: "unat (?B - ?B mod of_nat ?n) = b - b mod ?n"
    using B n by (simp add: unat_sub_if' unat_mod)
  then have diff: "unat (of_nat i - (?B - ?B mod of_nat ?n)) = i - (b - b mod ?n)"
    using assms(2) i by (subst unat_sub_if') simp
  have "i - (b - b mod ?n) = i - b div ?n * ?n" by (simp add: minus_mod_eq_div_mult)
  moreover have "b div ?n * ?n \<le> i" using assms(2) div_times_less_eq_dividend [of b ?n] by linarith
  then obtain r where "i = r + b div ?n * ?n" by (metis add.commute le_iff_add)
  then have "(i - b div ?n * ?n) div ?n = i div ?n - b div ?n" using r(8) by simp
  ultimately have "(i - (b - b mod ?n)) div ?n = i div ?n - b div ?n" by simp
  then show ?thesis unfolding quick_node_def Let_def by (simp add: unat_div diff n)
qed

lemma pool_get:
  assumes "pool_rel c l b xs" "b \<le> i" "i < b + length xs"
  shows "quick_get c (of_nat i) l = Some (xs ! (i - b))"
proof -
  note r = pool_relD [OF assms(1)]
  have "i < 2 ^ 62" using assms(3) r(4) by linarith
  with nodes_at_access [OF r(6,8) assms(2,3), of undefined] quick_node_value [OF assms(1,2)]
  show ?thesis by (simp add: quick_get_def)
qed

lemma pool_set:
  assumes "pool_rel c l b xs" "b \<le> i" "i < b + length xs"
  shows "\<exists>l'. quick_set c (of_nat i) t l = Some l' \<and> pool_rel c l' b (xs[i - b := t])"
proof -
  note r = pool_relD [OF assms(1)]
  have i: "i < 2 ^ 62" using assms(3) r(4) by linarith
  let ?k = "i div element_count c - b div element_count c"
  from nodes_at_access [OF r(6,8) assms(2,3) i, of t] obtain q' where q': "?k < length (nodes l)"
    "slot_assign (nodes l ! ?k) (ring_index c (of_nat i)) t = Some q'" "nodes_at c b ((nodes l)[?k := q']) (xs[i - b := t])" by blast
  have "pool_rel c (l\<lparr>nodes := (nodes l)[?k := q']\<rparr>) b (xs[i - b := t])"
    unfolding pool_rel_def using r q'(3) by simp
  then show ?thesis using q'(1,2) quick_node_value [OF assms(1,2) i] by (simp add: quick_set_def)
qed

lemma pool_top: "pool_rel c l b (x # xs) \<Longrightarrow> list_top c False l = Some (x, l)"
proof -
  assume rel: "pool_rel c l b (x # xs)"
  note r = pool_relD [OF rel]
  from r(6) obtain qs q yss ys where n: "nodes l = qs @ [q]" "x # xs = concat yss @ ys" "nodes_full c b qs yss"
    "ring_rel c 0 q (b + length (concat yss)) ys"
    unfolding nodes_at_def by blast
  have "queue_top c (hd (nodes l)) = Some x"
  proof (cases qs)
    case Nil
    then show ?thesis using n by (auto intro!: queue_top_rel)
  next
    case (Cons q0 ps)
    with n(3) obtain y ys0 yss' where "yss = (y # ys0) # yss'" "ring_rel c 0 q0 b (y # ys0)" by (cases yss) (auto simp: neq_Nil_conv)
    then show ?thesis using Cons n(1,2) by (auto intro!: queue_top_rel)
  qed
  then show ?thesis using r(7) by (simp add: list_top_def cleanup_fenced_def)
qed

lemma pool_make:
  assumes "params_ok c" "\<not> spsc_optimized c"
  shows "pool_rel c (list_make c) 0 []"
proof -
  have "ring_rel c 0 (queue_make c 0) 0 []" using ring_rel_make [OF assms(1), of 0 0] modulus_bounds(1) [OF assms(1)] by simp
  then have "nodes_at c 0 [queue_make c 0] []" unfolding nodes_at_def
    by (intro exI [of _ "[]"] exI [of _ "queue_make c 0"]) simp
  then show ?thesis using assms by (simp add: pool_rel_def list_make_def next_node_index_def unat_of_nat params_ok_def)
qed

lemma pool_empty:
  assumes "pool_rel c l b xs"
  shows "list_empty c l = Some (xs = [], l)"
proof -
  note r = pool_relD [OF assms]
  have same: "queue_empty c q = (pop_count q = push_count q, q)" for q :: "'a iris_queue_t"
    using r(2) by (simp add: queue_empty_def maybe_empty_def refresh_push_cached_def set_pop_shadow_def)
  have mt: "pop_count q = push_count q \<longleftrightarrow> zs = []" if "ring_rel c 0 q p zs" for q :: "'a iris_queue_t" and p zs
    using queue_empty_rel(1) [OF that] same by simp
  from r(6) obtain qs q yss ys where n: "nodes l = qs @ [q]" "xs = concat yss @ ys" "nodes_full c b qs yss"
    "ring_rel c 0 q (b + length (concat yss)) ys"
    unfolding nodes_at_def by blast
  have self: "l\<lparr>nodes := qs @ [q]\<rparr> = l" unfolding n(1) [symmetric] by simp
  show ?thesis
  proof (cases qs)
    case Nil
    then show ?thesis using n mt [OF n(4)] self by (simp add: list_empty_def same set_pop_head_def Let_def)
  next
    case (Cons q0 ps)
    with n(3) obtain y ys0 yss' where "yss = (y # ys0) # yss'" "ring_rel c 0 q0 b (y # ys0)" by (cases yss) (auto simp: neq_Nil_conv)
    then show ?thesis using Cons n(1,2) mt self by (force simp: list_empty_def same set_pop_head_def Let_def)
  qed
qed

text \<open>A push lands at the announced index, when the last node is full before the next one starts.\<close>

lemma next_node_index_step:
  assumes "0 < element_count c" "(e :: nat) mod element_count c \<noteq> 0 \<or> e = 0"
  shows "next_node_index c (Suc e) = next_node_index c e"
proof -
  let ?n = "element_count c"
  have "(Suc e + ?n - 1) div ?n = Suc (e div ?n)" using assms(1) div_add_self2 [of ?n e] by simp
  moreover have "(e + ?n - 1) div ?n = Suc (e div ?n)" if "e mod ?n \<noteq> 0"
  proof -
    have "e + ?n - 1 = (e - 1) + ?n" "e - 1 = e div ?n * ?n + (e mod ?n - 1)"
      using that div_mult_mod_eq [of e ?n] assms(1) by (cases e, auto)+
    moreover have "(e div ?n * ?n + (e mod ?n - 1)) div ?n = e div ?n" using assms(1) less_imp_diff_less [OF mod_less_divisor [OF assms(1)]] by simp
    ultimately show ?thesis using assms(1) div_add_self2 [of ?n "e - 1"] by simp
  qed
  ultimately show ?thesis using assms by (auto simp: next_node_index_def)
qed

lemma next_node_index_boundary:
  assumes "0 < element_count c" "(e :: nat) mod element_count c = 0" "e \<noteq> 0"
  shows "next_node_index c e = e" "next_node_index c (Suc e) = e + element_count c"
proof -
  let ?n = "element_count c"
  from assms(2) obtain k where k: "e = ?n * k" by auto
  have "(?n * k + (?n - 1)) div ?n = k" "(?n * k + ?n) div ?n = k + 1"
    using assms(1) div_mult_self4 [of ?n k "?n - 1"] div_mult_self4 [of ?n k ?n] by (simp_all del: div_mult_self4)
  then show "next_node_index c e = e" "next_node_index c (Suc e) = e + ?n"
    using assms(1,3) k Nat.add_diff_assoc [of 1 ?n "?n * k"] by (simp_all add: next_node_index_def mult.commute)
qed

lemma nodes_full_append:
  "nodes_full c b (qs @ rs) (yss @ zss) \<longleftrightarrow> nodes_full c b qs yss \<and> nodes_full c (b + length (concat yss)) rs zss"
  if "length qs = length yss"
  using that by (induction qs yss arbitrary: b rule: list_induct2) (auto simp: add.assoc)

lemma pool_push:
  assumes rel: "pool_rel c l b xs" and room: "pool_room c b (length xs)" and small: "Suc (b + length xs) < 2 ^ 62"
  shows "\<exists>l'. list_push c t l = Some l' \<and> pool_rel c l' b (xs @ [t])"
proof -
  note r = pool_relD [OF rel]
  let ?n = "element_count c" and ?e = "b + length xs"
  from r(6) obtain qs q yss ys where n: "nodes l = qs @ [q]" "xs = concat yss @ ys" "nodes_full c b qs yss"
    "ring_rel c 0 q (b + length (concat yss)) ys" "(b + length (concat yss)) mod ?n + length ys \<le> ?n" "qs \<noteq> [] \<longrightarrow> ys \<noteq> []"
    unfolding nodes_at_def by blast
  let ?p = "b + length (concat yss)"
  have e: "?e = ?p + length ys" using n(2) by simp
  from queue_push_rel [OF n(4), of t] obtain q1 where
    q1: "queue_push c t q = Some (if length ys < ?n then Some ((?p + length ys) mod ?n) else None, q1)"
    "ring_rel c 0 q1 ?p (if length ys < ?n then ys @ [t] else ys)" by blast
  show ?thesis
  proof (cases "?p mod ?n + length ys = ?n")
    case False
    then have lt: "?p mod ?n + length ys < ?n" using n(5) by simp
    then have "?e mod ?n = ?p mod ?n + length ys" unfolding e by (metis mod_add_left_eq mod_less)
    then have "?e mod ?n \<noteq> 0 \<or> ?e = 0" using room lt r(8) n(2,3,6) nodes_full_end [OF n(3) r(8)]
      by (auto simp: pool_room_def dest: nodes_full_length)
    then have next_eq: "next_node_index c (Suc ?e) = next_node_index c ?e" by (rule next_node_index_step [OF r(8)])
    have "list_push c t l = Some (set_push_head q1 l)" using q1(1) lt n(1) by (simp add: list_push_def Let_def)
    moreover have "nodes_at c b (qs @ [q1]) (xs @ [t])"
      unfolding nodes_at_def using n q1(2) lt
      by (intro exI [of _ qs] exI [of _ q1] exI [of _ yss] exI [of _ "ys @ [t]"]) simp
    then have "pool_rel c (set_push_head q1 l) b (xs @ [t])"
      using r(1-5) small next_eq n(1) by (simp add: pool_rel_def set_push_head_def)
    ultimately show ?thesis by blast
  next
    case True
    note b = stretch_end [OF True r(8)]
    from True r(8) e have pos: "?e \<noteq> 0" by (cases "?p = 0") auto
    have boundary: "?e mod ?n = 0" using b(1) by (simp only: e)
    have full: "length ys = ?n"
    proof (cases qs)
      case Nil
      then show ?thesis using room boundary pos n(2,3,5) by (auto simp: pool_room_def)
    next
      case (Cons q0 ps)
      then show ?thesis using nodes_full_end [OF n(3) r(8)] True by simp
    qed
    note ic = next_node_index_boundary [OF r(8) boundary pos]
    let ?l = "set_push_head q1 l"
    have ic': "unat (iterator_counter ?l) = ?e" using r(5) ic(1) by (simp add: set_push_head_def)
    have "?e < counter_modulus c" using small modulus_bounds(1) [OF r(1)] by simp
    with ring_rel_make [OF r(1), of "iterator_counter ?l" 0] ic'
    have "ring_rel c 0 (queue_make c (iterator_counter ?l)) ?e ([] :: 'a list)" by simp
    from queue_push_rel [OF this, of t] r(8) obtain p1 w where
      p1: "queue_push c t (queue_make c (iterator_counter ?l)) = Some (w, p1)" "ring_rel c 0 p1 ?e [t]" by auto
    have "list_push c t l = Some (chain_node c p1 ?l)" using q1(1) p1(1) full n(1) by (simp add: list_push_def Let_def)
    moreover have "nodes_full c b (qs @ [q1]) (yss @ [ys])"
      using n(3) q1(2) True full r(8) nodes_full_length [OF n(3)] by (auto simp: nodes_full_append)
    then have "nodes_at c b ((qs @ [q1]) @ [p1]) (xs @ [t])"
      unfolding nodes_at_def using n(2) p1(2) e boundary r(8)
      by (intro exI [of _ "qs @ [q1]"] exI [of _ p1] exI [of _ "yss @ [ys]"] exI [of _ "[t]"]) (simp add: add.assoc)
    moreover have "unat (step_counter c (iterator_counter ?l) (of_nat ?n)) = ?e + ?n"
      using step_counter_value [OF r(1), of "iterator_counter ?l" ?e ?n] ic' index_below_modulus [OF r(1), of ?e] small r(9)
        modulus_bounds(1) [OF r(1)] by simp
    ultimately have "pool_rel c (chain_node c p1 ?l) b (xs @ [t])"
      using r(1-4) small ic(2) n(1) by (simp add: pool_rel_def chain_node_def set_push_head_def)
    with \<open>list_push c t l = Some (chain_node c p1 ?l)\<close> show ?thesis by blast
  qed
qed

lemma pool_pop:
  assumes rel: "pool_rel c l b (x # xs)"
  shows "\<exists>l'. list_pop c False l = Some l' \<and> pool_rel c l' (Suc b) xs"
proof -
  note r = pool_relD [OF rel]
  let ?n = "element_count c"
  have same: "queue_empty c q = (pop_count q = push_count q, q)" for q :: "'a iris_queue_t"
    using r(2) by (simp add: queue_empty_def maybe_empty_def refresh_push_cached_def set_pop_shadow_def)
  have pop: "\<exists>q'. queue_pop c q = Some q' \<and> ring_rel c 0 q' (Suc p) zs" if "ring_rel c 0 q p (z # zs)" for q :: "'a iris_queue_t" and p z zs
    using queue_pop_rel [OF ring_rel_budget [OF that r(2), of "Suc 0"]] r(2) by (simp add: ring_checked_def)
  have keep: "pool_rel c (l\<lparr>nodes := ns\<rparr>) (Suc b) xs" if "nodes_at c (Suc b) ns xs" for ns
    using that r(1-5) by (simp add: pool_rel_def)
  from r(6) obtain qs q yss ys where n: "nodes l = qs @ [q]" "x # xs = concat yss @ ys" "nodes_full c b qs yss"
    "ring_rel c 0 q (b + length (concat yss)) ys" "(b + length (concat yss)) mod ?n + length ys \<le> ?n" "qs \<noteq> [] \<longrightarrow> ys \<noteq> []"
    unfolding nodes_at_def by blast
  show ?thesis
  proof (cases qs)
    case Nil
    then have y: "yss = []" "ys = x # xs" using n(2,3) by simp_all
    from pop [of q b x xs] n(4) y obtain q' where q': "queue_pop c q = Some q'" "ring_rel c 0 q' (Suc b) xs" by auto
    have "Suc b mod ?n + length xs \<le> ?n" using n(5) y r(8) by (cases "Suc (b mod ?n) = ?n") (auto simp: mod_Suc)
    then have "nodes_at c (Suc b) [q'] xs"
      unfolding nodes_at_def using q'(2) by (intro exI [of _ "[]"] exI [of _ q'] exI [of _ xs]) simp
    from keep [OF this] show ?thesis
      using q'(1) n(1) Nil by (simp add: list_pop_def cleanup_fenced_def cleanup_empty_def set_pop_head_def)
  next
    case (Cons q0 ps)
    with n(2,3) obtain zs zss where z: "yss = (x # zs) # zss" "ring_rel c 0 q0 b (x # zs)" "b mod ?n + Suc (length zs) = ?n"
      "nodes_full c (b + Suc (length zs)) ps zss" "xs = zs @ concat zss @ ys" by (cases yss) (auto simp: Cons_eq_append_conv)
    from pop [OF z(2)] obtain q' where q': "queue_pop c q0 = Some q'" "ring_rel c 0 q' (Suc b) zs" by auto
    have mt: "pop_count q' = push_count q' \<longleftrightarrow> zs = []" using queue_empty_rel(1) [OF q'(2)] same by simp
    obtain r1 rs where rest: "ps @ [q] = r1 # rs" by (cases "ps @ [q]") auto
    have tail: "Suc b + length zs + length (concat zss) = b + length (concat yss)"
      "b + Suc (length zs) = Suc b + length zs" using z(1) by simp_all
    show ?thesis
    proof (cases "zs = []")
      case True
      have "nodes_at c (Suc b) (ps @ [q]) xs"
        unfolding nodes_at_def using n(4-6) Cons z(1,4,5) True
        by (intro exI [of _ ps] exI [of _ q] exI [of _ zss] exI [of _ ys]) simp
      moreover have "queue_destruct c q' = Some (replicate ?n None)" by (rule queue_destruct_rel [OF q'(2)])
      then have "list_pop c False l = Some (l\<lparr>nodes := ps @ [q]\<rparr>)"
        using q'(1) n(1) Cons mt True rest same by (simp add: list_pop_def cleanup_fenced_def cleanup_empty_def set_pop_head_def)
      ultimately show ?thesis using keep by blast
    next
      case False
      have "Suc b mod ?n = Suc (b mod ?n)" using z(3) False r(8) by (cases zs) (auto simp: mod_Suc)
      then have "nodes_full c (Suc b) (q' # ps) (zs # zss)" using q'(2) z(3,4) tail False by simp
      then have "nodes_at c (Suc b) ((q' # ps) @ [q]) xs"
        unfolding nodes_at_def using n(4-6) Cons z(1,5)
        by (intro exI [of _ "q' # ps"] exI [of _ q] exI [of _ "zs # zss"] exI [of _ ys]) (simp add: add.assoc)
      moreover have "list_pop c False l = Some (l\<lparr>nodes := q' # ps @ [q]\<rparr>)"
        using q'(1) n(1) Cons mt False rest same by (simp add: list_pop_def cleanup_fenced_def cleanup_empty_def set_pop_head_def)
      ultimately show ?thesis using keep by auto
    qed
  qed
qed

lemma nodes_at_nodes_rel:
  assumes "nodes_at c b ns xs"
  shows "\<exists>xss. nodes_rel c 0 ns xss \<and> concat xss = xs \<and> (length xss > 1 \<longrightarrow> [] \<notin> set xss)"
proof -
  from assms obtain qs q yss ys where n: "ns = qs @ [q]" "xs = concat yss @ ys" "nodes_full c b qs yss"
    "ring_rel c 0 q (b + length (concat yss)) ys" "qs \<noteq> [] \<longrightarrow> ys \<noteq> []" unfolding nodes_at_def by blast
  from n(3) have "nodes_rel c 0 qs yss \<and> [] \<notin> set yss"
    by (induction c b qs yss rule: nodes_full.induct) auto
  moreover have "nodes_rel c 0 [q] [ys]" using n(4) by auto
  ultimately have "nodes_rel c 0 ns (yss @ [ys])" "length (yss @ [ys]) > 1 \<longrightarrow> [] \<notin> set (yss @ [ys])"
    using n(5) nodes_full_length [OF n(3)] unfolding n(1) nodes_rel_append by (blast, auto)
  then show ?thesis using n(2) by (intro exI [of _ "yss @ [ys]"]) simp
qed

lemma pool_list_rel:
  assumes "pool_rel c l b xs"
  shows "list_rel c 0 l xs"
proof -
  note r = pool_relD [OF assms]
  have "next_node_index c (b + length xs) \<le> b + length xs + element_count c"
    unfolding next_node_index_def using div_times_less_eq_dividend [of "b + length xs + element_count c - 1" "element_count c"] by (auto simp del: div_times_less_eq_dividend)
  then have "unat (iterator_counter l) < counter_modulus c"
    using r(4,5,9) modulus_bounds(1) [OF r(1)] by simp
  then show ?thesis using r(1,7) nodes_at_nodes_rel [OF r(6)] by (auto simp: list_rel_def params_ok_def)
qed

lemma pool_clear:
  assumes "pool_rel c l b xs"
  shows "\<exists>l'. list_clear c l = Some l' \<and> pool_rel c l' 0 []"
proof -
  note r = pool_relD [OF assms]
  from list_rel_head [OF pool_list_rel [OF assms]] obtain q qs p ys yss where
    n: "nodes l = q # qs" "ring_rel c 0 q p ys" "nodes_rel c 0 qs yss" by metis
  have "unat (0 :: size_t) < counter_modulus c" using modulus_bounds(1) [OF r(1)] by simp
  from queue_reset_rel [OF n(2) this, of 0] obtain q' where q': "queue_reset c 0 q = Some q'" "ring_rel c 0 q' 0 []" by auto
  have "reset_nodes c 0 (of_nat (element_count c)) qs = Some ([], of_nat (element_count c))"
    using destruct_nodes_rel [OF n(3)] by (cases qs) (simp_all del: destruct_nodes.simps)
  then have "list_clear c l = Some (l\<lparr>nodes := [q'], iterator_counter := of_nat (element_count c)\<rparr>)"
    using n(1) q'(1) r(3) by (simp add: list_clear_def list_reset_def)
  moreover have "nodes_at c 0 [q'] []" unfolding nodes_at_def using q'(2) by (intro exI [of _ "[]"] exI [of _ q']) simp
  ultimately show ?thesis using r(1-3,9) by (simp add: pool_rel_def next_node_index_def unat_of_nat)
qed

text \<open>
  When a ring is filled again after elements were popped from it, an index is looked up in a node that does not exist: with two
  elements to a node, after two pushes, a pop and a push the new element has index 2, and \<open>get(2)\<close> reads past the vector.
\<close>

lemma reused_ring_index:
  "let c = \<lparr>element_count = 2, spsc_optimized = False\<rparr> in do {
     l1 \<leftarrow> list_push c ''a'' (list_make c);
     l2 \<leftarrow> list_push c ''b'' l1;
     l3 \<leftarrow> list_pop c False l2;
     l4 \<leftarrow> list_push c ''c'' l3;
     Some (list_end_index l3, quick_node c (list_end_index l3) l4, length (nodes l4))
   } = Some (2, 1, 1)"
  by code_simp

text \<open>
  With one more push the chain grows: the index announced for the new element is 3, but it lands at 2, which
  the element before it has already.
\<close>

lemma reused_ring_announces_wrong_index:
  "let c = \<lparr>element_count = 2, spsc_optimized = False\<rparr> in do {
     l1 \<leftarrow> list_push c ''a'' (list_make c);
     l2 \<leftarrow> list_push c ''b'' l1;
     l3 \<leftarrow> list_pop c False l2;
     l4 \<leftarrow> list_push c ''c'' l3;
     l5 \<leftarrow> list_push c ''d'' l4;
     Some (list_end_index l4, quick_get c 3 l5, quick_get c 2 l5)
   } = Some (3, None, Some ''d'')"
  by code_simp

section \<open>The contract of an indexed list\<close>

text \<open>
  What a client that keeps indices relies on. Removing by index fills the hole with the oldest element: all indices but
  that of the oldest element stay valid.
\<close>

locale indexed_pool =
  fixes rel :: "'l \<Rightarrow> nat \<Rightarrow> 'a list \<Rightarrow> bool"
    and get :: "nat \<Rightarrow> 'l \<Rightarrow> 'a option"
    and set :: "nat \<Rightarrow> 'a \<Rightarrow> 'l \<Rightarrow> 'l option"
    and top :: "'l \<Rightarrow> ('a \<times> 'l) option"
    and pop :: "'l \<Rightarrow> 'l option"
  assumes get_rel: "rel l b xs \<Longrightarrow> b \<le> i \<Longrightarrow> i < b + length xs \<Longrightarrow> get i l = Some (xs ! (i - b))"
    and set_rel: "rel l b xs \<Longrightarrow> b \<le> i \<Longrightarrow> i < b + length xs \<Longrightarrow> \<exists>l'. set i t l = Some l' \<and> rel l' b (xs[i - b := t])"
    and top_rel: "rel l b (x # xs) \<Longrightarrow> top l = Some (x, l)"
    and pop_rel: "rel l b (x # xs) \<Longrightarrow> \<exists>l'. pop l = Some l' \<and> rel l' (Suc b) xs"
begin

lemma fill_hole:
  assumes "rel l b xs" "k < length xs"
  shows "\<exists>l1. top l = Some (hd xs, l) \<and> set (b + k) (hd xs) l = Some l1 \<and> rel l1 b (xs[k := hd xs])"
  using assms set_rel [of l b xs "b + k" "hd xs"] top_rel by (cases xs) auto

lemma drop_oldest: "rel l b xs \<Longrightarrow> xs \<noteq> [] \<Longrightarrow> \<exists>l'. pop l = Some l' \<and> rel l' (Suc b) (tl xs)"
  using pop_rel by (cases xs) auto

lemma others_keep_index:
  assumes "rel l' (Suc b) (tl (xs[k := hd xs]))" "Suc b \<le> i" "i < b + length xs" "i \<noteq> b + k"
  shows "get i l' = Some (xs ! (i - b))"
proof -
  from assms(2) obtain n where n: "i = Suc (b + n)" by (metis add_Suc le_Suc_ex)
  have "get i l' = Some (tl (xs[k := hd xs]) ! n)" using get_rel [OF assms(1,2)] assms(3) n by simp
  also have "tl (xs[k := hd xs]) ! n = xs[k := hd xs] ! Suc n" using assms(3) n by (intro nth_tl) simp
  finally show ?thesis using assms(4) n by simp
qed

end

interpretation quick: indexed_pool "pool_rel c" "\<lambda>i. quick_get c (of_nat i)" "\<lambda>i. quick_set c (of_nat i)" "list_top c False" "list_pop c False" for c
  by unfold_locales (rule pool_get pool_set pool_top pool_pop; assumption)+

section \<open>Iteration\<close>

text \<open>\<open>begin\<close> and \<open>end\<close>, and the distance of two iterators, which walks the chain from the second to the first.\<close>

definition list_begin :: "'a queue_list_t \<Rightarrow> list_iterator_t" where
  "list_begin l = (0, list_begin_index l)"

definition list_end :: "'a queue_list_t \<Rightarrow> list_iterator_t" where
  "list_end l = (length (nodes l) - 1, list_end_index l)"

fun list_iterator_minus :: "queue_params_t \<Rightarrow> 'a iris_queue_t list \<Rightarrow> list_iterator_t \<Rightarrow> list_iterator_t \<Rightarrow> nat option" where
  "list_iterator_minus c [] it rhs = None"
| "list_iterator_minus c (q # qs) it rhs =
     (if fst it = fst rhs then Some (unat (diff_counter c (snd it) (snd rhs)))
      else case qs of
        [] \<Rightarrow> None
      | t # _ \<Rightarrow> map_option (\<lambda>n. unat (diff_counter c (push_count q) (snd rhs)) + n) (list_iterator_minus c qs it (Suc (fst rhs), pop_count t)))"

text \<open>Every node's stretch of indices.\<close>

lemma nodes_full_stretch:
  "nodes_full c b qs yss \<Longrightarrow> 0 < element_count c \<Longrightarrow> k < length qs \<Longrightarrow>
   \<exists>p ys. ring_rel c 0 (qs ! k) p ys \<and> p = max b ((b div element_count c + k) * element_count c) \<and>
     p + length ys = Suc (b div element_count c + k) * element_count c \<and> p + length ys \<le> b + length (concat yss)"
proof (induction c b qs yss arbitrary: k rule: nodes_full.induct)
  case (3 c b q qs ys yss)
  let ?n = "element_count c"
  note e = stretch_end [of b ?n "length ys"]
  have b: "b div ?n * ?n \<le> b" by simp
  show ?case
  proof (cases k)
    case 0
    have "b + length ys = Suc (b div ?n) * ?n" using "3.prems"(1) div_mult_mod_eq [of b ?n] by (simp, linarith)
    then show ?thesis using 0 "3.prems"(1) b by (intro exI [of _ b] exI [of _ ys]) (auto simp: max_def)
  next
    case (Suc k')
    have next_start: "b + length ys = Suc (b div ?n) * ?n" using "3.prems"(1) div_mult_mod_eq [of b ?n] by (simp, linarith)
    from "3.IH" [of k'] "3.prems" Suc obtain p zs where z: "ring_rel c 0 (qs ! k') p zs"
      "p = max (b + length ys) (((b + length ys) div ?n + k') * ?n)" "p + length zs = Suc ((b + length ys) div ?n + k') * ?n"
      "p + length zs \<le> b + length ys + length (concat yss)" by auto
    have d: "(b + length ys) div ?n = Suc (b div ?n)" using e "3.prems" by simp
    have "p = (b div ?n + k) * ?n" using z(2) d next_start Suc by (simp add: max_def)
    moreover have "b \<le> (b div ?n + k) * ?n" using next_start Suc by (simp add: add_mult_distrib)
    ultimately show ?thesis using z(1,3,4) d Suc by (intro exI [of _ p] exI [of _ zs]) (simp add: max_def)
  qed
qed auto

lemma nodes_at_stretch:
  assumes "nodes_at c b ns xs" "0 < element_count c" "k < length ns"
  shows "\<exists>p ys. ring_rel c 0 (ns ! k) p ys \<and> p = max b ((b div element_count c + k) * element_count c) \<and>
     p + length ys = min (b + length xs) (Suc (b div element_count c + k) * element_count c)"
proof -
  let ?n = "element_count c"
  from assms(1) obtain qs q yss ys where n: "ns = qs @ [q]" "xs = concat yss @ ys" "nodes_full c b qs yss"
    "ring_rel c 0 q (b + length (concat yss)) ys" "(b + length (concat yss)) mod ?n + length ys \<le> ?n" "qs \<noteq> [] \<longrightarrow> ys \<noteq> []"
    unfolding nodes_at_def by blast
  show ?thesis
  proof (cases "k < length qs")
    case True
    from nodes_full_stretch [OF n(3) assms(2) this] obtain p zs where "ring_rel c 0 (qs ! k) p zs"
      "p = max b ((b div ?n + k) * ?n)" "p + length zs = Suc (b div ?n + k) * ?n" "p + length zs \<le> b + length (concat yss)" by blast
    then show ?thesis using n(1,2) True by (intro exI [of _ p] exI [of _ zs]) (auto simp: nth_append)
  next
    case False
    then have k: "k = length qs" using assms(3) n(1) by simp
    let ?p = "b + length (concat yss)"
    have div: "?p div ?n = b div ?n + k" and mod: "qs \<noteq> [] \<longrightarrow> ?p mod ?n = 0"
      using nodes_full_end [OF n(3) assms(2)] k by auto
    have pe: "?p = (b div ?n + k) * ?n + ?p mod ?n" using div_mult_mod_eq [of ?p ?n] div by simp
    have "?p = max b ((b div ?n + k) * ?n)"
    proof (cases "qs = []")
      case True
      then show ?thesis using n(3) k by simp
    next
      case False
      then have "?p = (b div ?n + k) * ?n" using mod pe by simp
      then show ?thesis by simp
    qed
    moreover have "?p + length ys = min (b + length xs) (Suc (b div ?n + k) * ?n)" using n(2,5) pe by simp
    ultimately show ?thesis using n(1,4) k by (intro exI [of _ ?p] exI [of _ ys]) (simp add: nth_append)
  qed
qed

lemma nodes_at_more:
  assumes "nodes_at c b ns xs" "0 < element_count c" "Suc k < length ns"
  shows "Suc (b div element_count c + k) * element_count c < b + length xs"
proof -
  let ?n = "element_count c"
  from assms(1) obtain qs q yss ys where n: "ns = qs @ [q]" "xs = concat yss @ ys" "nodes_full c b qs yss" "qs \<noteq> [] \<longrightarrow> ys \<noteq> []"
    unfolding nodes_at_def by blast
  from nodes_full_stretch [OF n(3) assms(2), of k] assms(3) n(1) have "Suc (b div ?n + k) * ?n \<le> b + length (concat yss)" by auto
  moreover have "qs \<noteq> []" using assms(3) n(1) by auto
  ultimately show ?thesis using n(2,4) by (cases ys) auto
qed

text \<open>An iterator that stands at index \<open>i\<close>. At the end, only its counter matters.\<close>

definition iterator_at :: "queue_params_t \<Rightarrow> nat \<Rightarrow> nat \<Rightarrow> list_iterator_t \<Rightarrow> nat \<Rightarrow> bool" where
  "iterator_at c b e it i \<longleftrightarrow>
     snd it = of_nat i \<and> (i < e \<longrightarrow> fst it = i div element_count c - b div element_count c)"

lemma of_nat_index:
  fixes q :: size_t
  assumes "params_ok c" "unat q = i mod counter_modulus c" "i < 2 ^ 62"
  shows "q = of_nat i"
  using assms index_below_modulus [OF assms(1,3)] by (metis of_nat_unat ucast_id)

lemma of_nat_index_eq:
  assumes small: "i < 2 ^ 62" "j < 2 ^ 62"
  shows "(of_nat i :: size_t) = of_nat j \<longleftrightarrow> i = j"
proof
  assume "(of_nat i :: size_t) = of_nat j"
  then have "unat (of_nat i :: size_t) = unat (of_nat j :: size_t)" by simp
  with small show "i = j" by (simp add: unat_of_nat)
qed simp

lemma pool_node_ends:
  assumes rel: "pool_rel c l b xs" and k: "k < length (nodes l)"
  shows "push_count (nodes l ! k) = of_nat (min (b + length xs) (Suc (b div element_count c + k) * element_count c))"
    "pop_count (nodes l ! k) = of_nat (max b ((b div element_count c + k) * element_count c))"
proof -
  note r = pool_relD [OF rel]
  from nodes_at_stretch [OF r(6,8) k] obtain p ys where p: "ring_rel c 0 (nodes l ! k) p ys"
    "p = max b ((b div element_count c + k) * element_count c)"
    "p + length ys = min (b + length xs) (Suc (b div element_count c + k) * element_count c)" by blast
  have "p + length ys < 2 ^ 62" using p(3) r(4) by simp
  with of_nat_index [OF r(1) ring_relD(4) [OF p(1)]] of_nat_index [OF r(1) ring_relD(3) [OF p(1)]]
  have "push_count (nodes l ! k) = of_nat (p + length ys)" "pop_count (nodes l ! k) = of_nat p" by auto
  then show "push_count (nodes l ! k) = of_nat (min (b + length xs) (Suc (b div element_count c + k) * element_count c))"
    "pop_count (nodes l ! k) = of_nat (max b ((b div element_count c + k) * element_count c))"
    by (simp_all only: p(2) p(3) [unfolded p(2)])
qed

lemma iterator_deref:
  assumes "pool_rel c l b xs" "iterator_at c b (b + length xs) it i" "b \<le> i" "i < b + length xs"
  shows "list_iterator_deref c (nodes l) it = Some (xs ! (i - b))"
proof -
  note r = pool_relD [OF assms(1)]
  have "i < 2 ^ 62" using assms(4) r(4) by linarith
  with nodes_at_access [OF r(6,8) assms(3,4), of undefined] assms(2,4) show ?thesis
    by (simp add: list_iterator_deref_def iterator_at_def)
qed

lemma iterator_step:
  assumes rel: "pool_rel c l b xs" and it: "iterator_at c b (b + length xs) it i" and i: "b \<le> i" "i < b + length xs"
  shows "iterator_at c b (b + length xs) (list_iterator_step c (nodes l) it) (Suc i)"
proof -
  note r = pool_relD [OF rel]
  let ?n = "element_count c" and ?e = "b + length xs"
  let ?k = "i div ?n - b div ?n" and ?E = "Suc (i div ?n) * ?n"
  have small: "Suc i < 2 ^ 62" using i(2) r(4) by linarith
  have kd: "b div ?n + ?k = i div ?n" using div_le_mono [OF i(1)] by simp
  have k: "?k < length (nodes l)" using nodes_at_access [OF r(6,8) i, of undefined] small by simp
  have iE: "i < ?E" using dividend_less_div_times [OF r(8), of i] by simp
  have next_i: "step_counter c (of_nat i) 1 = of_nat (Suc i)"
    using step_counter_value [OF r(1), of "of_nat i" i 1] index_below_modulus [OF r(1), of i] small
    by (intro of_nat_index [OF r(1)]) (simp_all add: unat_of_nat)
  have "of_nat (Suc i) = push_count (nodes l ! ?k) \<longleftrightarrow> Suc i = min ?e ?E"
    unfolding pool_node_ends(1) [OF rel k] kd using small r(4) by (intro of_nat_index_eq) simp_all
  then have step: "list_iterator_step c (nodes l) it =
      (if Suc i = min ?e ?E then if Suc ?k < length (nodes l) then (Suc ?k, pop_count (nodes l ! Suc ?k)) else (?k, of_nat (Suc i))
       else (?k, of_nat (Suc i)))"
    using it i(2) next_i by (simp add: list_iterator_step_def iterator_at_def Let_def del: of_nat_Suc)
  show ?thesis
  proof (cases "Suc i = ?E")
    case True
    then have d: "Suc i div ?n = Suc (i div ?n)" using r(8) by (metis nonzero_mult_div_cancel_right less_numeral_extra(3))
    show ?thesis
    proof (cases "Suc ?k < length (nodes l)")
      case True
      then have "?E < ?e" using nodes_at_more [OF r(6,8), of ?k] unfolding kd by simp
      moreover have "pop_count (nodes l ! Suc ?k) = of_nat (Suc i)"
        using pool_node_ends(2) [OF rel True] kd \<open>Suc i = ?E\<close> i(1) by (simp add: max_def)
      ultimately show ?thesis
        using step True \<open>Suc i = ?E\<close> d div_le_mono [OF i(1), of ?n] by (simp add: iterator_at_def Suc_diff_le)
    next
      case False
      have "\<not> Suc i < ?e"
      proof
        assume "Suc i < ?e"
        from nodes_at_access [OF r(6,8) _ this small, of undefined] i(1) have "Suc i div ?n - b div ?n < length (nodes l)" by simp
        then show False using False d div_le_mono [OF i(1), of ?n] by (simp add: Suc_diff_le)
      qed
      then show ?thesis using step False by (simp add: iterator_at_def del: of_nat_Suc split del: if_split) (simp del: of_nat_Suc)
    qed
  next
    case False
    then have "Suc i < ?E" using iE by simp
    then have "Suc i div ?n = i div ?n" using dividend_less_div_times by (intro div_nat_eqI) (simp_all add: mult.commute le_SucI)
    moreover have "list_iterator_step c (nodes l) it = (?k, of_nat (Suc i))"
      using nodes_at_more [OF r(6,8), of ?k] \<open>Suc i < ?E\<close> i(2) unfolding step kd by (auto simp del: of_nat_Suc simp: min_def)
    ultimately show ?thesis by (simp add: iterator_at_def del: of_nat_Suc)
  qed
qed

lemma pool_begin_end:
  assumes "pool_rel c l b xs"
  shows "iterator_at c b (b + length xs) (list_begin l) b" "snd (list_end l) = of_nat (b + length xs)"
  using pool_end_index [OF assms] by (simp_all add: iterator_at_def list_begin_def list_end_def)

lemma iterator_eq_end:
  assumes "pool_rel c l b xs" "iterator_at c b (b + length xs) it i" "i \<le> b + length xs"
  shows "list_iterator_eq it (list_end l) \<longleftrightarrow> i = b + length xs"
  using pool_begin_end(2) [OF assms(1)] of_nat_index_eq [of i "b + length xs"] assms(2,3) pool_relD(4) [OF assms(1)]
  by (simp add: list_iterator_eq_def iterator_at_def)

end
