(* ===== verification/Entity_System.thy ===== *)
theory Entity_System
  imports Quick_List
begin

text \<open>
  The entity component system \<open>iris_system_t\<close> of \<open>iris_system.h\<close> and the entity allocator: one quick list for each component type and one
  for the entities, which run in step, and a sorted vector from entities to indices. Removing an entity moves the oldest element of
  every list into the hole and leaves a tombstone in the vector.

  The components of all types are values of one type. An entity and an index are \<open>size_t\<close>, so \<open>iris_verify_cast\<close> changes nothing. A
  missing entity dereferences the end iterator, which is undefined: \<^const>\<open>None\<close>. The fences are debugging aids and
  assertions are compiled out.
\<close>

section \<open>State\<close>

record system_params_t =
  component_params :: "queue_params_t list"
  entity_params :: queue_params_t

record 'v system_t =
  components :: "'v queue_list_t list"
  entity_components :: "(size_t, size_t) iris_key_value_t list"
  entities :: "size_t queue_list_t"

definition tombstone :: size_t where
  "tombstone = NOT 0"

definition system_make :: "system_params_t \<Rightarrow> 'v system_t" where
  "system_make p =
     \<lparr>components = map list_make (component_params p), entity_components = [], entities = list_make (entity_params p)\<rparr>"

section \<open>All component lists at once\<close>

text \<open>
  The recursions over the component types: one operation after the other on the lists, which leaves further lists alone when there
  are fewer operations, as \<open>insert\<close> does with fewer components.
\<close>

fun each :: "('l \<Rightarrow> 'l option) list \<Rightarrow> 'l list \<Rightarrow> 'l list option" where
  "each [] ls = Some ls"
| "each (f # fs) [] = None"
| "each (f # fs) (l # ls) = do { l1 \<leftarrow> f l; ls1 \<leftarrow> each fs ls; Some (l1 # ls1) }"

definition emplace_components :: "queue_params_t list \<Rightarrow> 'v list \<Rightarrow> 'v queue_list_t list \<Rightarrow> 'v queue_list_t list option" where
  "emplace_components cs ts ls = each (map2 list_push cs ts) ls"

definition replace_components :: "queue_params_t list \<Rightarrow> size_t \<Rightarrow> 'v list \<Rightarrow> 'v queue_list_t list \<Rightarrow> 'v queue_list_t list option" where
  "replace_components cs index ts ls = each (map2 (\<lambda>c. quick_set c index) cs ts) ls"

definition move_components :: "queue_params_t list \<Rightarrow> size_t \<Rightarrow> 'v queue_list_t list \<Rightarrow> 'v queue_list_t list option" where
  "move_components cs index ls =
     each (map (\<lambda>c l. do { (top, l1) \<leftarrow> list_top c False l; quick_set c index top l1 }) cs) ls"

definition pop_components :: "queue_params_t list \<Rightarrow> 'v queue_list_t list \<Rightarrow> 'v queue_list_t list option" where
  "pop_components cs ls = each (map (\<lambda>c. list_pop c False) cs) ls"

definition clear_components :: "queue_params_t list \<Rightarrow> 'v queue_list_t list \<Rightarrow> 'v queue_list_t list option" where
  "clear_components cs ls = each (map list_clear cs) ls"

section \<open>Operations\<close>

text \<open>\<open>iris_binary_find\<close> on the part of the vector from \<open>lo\<close> to \<open>hi\<close>; a miss returns \<open>hi\<close>.\<close>

definition find_entity :: "(size_t, size_t) iris_key_value_t list \<Rightarrow> nat \<Rightarrow> nat \<Rightarrow> size_t \<Rightarrow> nat" where
  "find_entity v lo hi e = lo + iris_binary_find key_value_less (take (hi - lo) (drop lo v)) (e, 0)"

definition system_valid :: "size_t \<Rightarrow> 'v system_t \<Rightarrow> bool" where
  "system_valid e s =
     (let v = entity_components s; it = find_entity v 0 (length v) e in it \<noteq> length v \<and> snd (v ! it) \<noteq> tombstone)"

text \<open>\<open>insert\<close> returns whether the entity was there already.\<close>

definition system_insert :: "system_params_t \<Rightarrow> size_t \<Rightarrow> 'v list \<Rightarrow> 'v system_t \<Rightarrow> (bool \<times> 'v system_t) option" where
  "system_insert p e ts s =
     (let v = entity_components s; it = find_entity v 0 (length v) e in
      if it \<noteq> length v \<and> snd (v ! it) \<noteq> tombstone then do {
        ls \<leftarrow> replace_components (component_params p) (snd (v ! it)) ts (components s);
        Some (True, s\<lparr>components := ls\<rparr>)
      }
      else do {
        ls \<leftarrow> emplace_components (component_params p) ts (components s);
        let newIndex = list_end_index (entities s);
        let v1 = (if it \<noteq> length v then v[it := (fst (v ! it), newIndex)]
                  else fst (iris_binary_insert key_value_less v (e, newIndex)));
        es \<leftarrow> list_push (entity_params p) e (entities s);
        Some (False, \<lparr>components = ls, entity_components = v1, entities = es\<rparr>)
      })"

text \<open>\<open>compress\<close>: the loop that closes the gaps.\<close>

fun compress_loop :: "nat \<Rightarrow> nat \<Rightarrow> nat \<Rightarrow> (size_t, size_t) iris_key_value_t list \<Rightarrow> (size_t, size_t) iris_key_value_t list" where
  "compress_loop 0 i j v = take j v"
| "compress_loop (Suc n) i j v =
     (if snd (v ! i) \<noteq> tombstone then compress_loop n (i + 1) (j + 1) (v[j := v ! i]) else compress_loop n (i + 1) j v)"

definition system_compress :: "'v system_t \<Rightarrow> 'v system_t" where
  "system_compress s = s\<lparr>entity_components := compress_loop (length (entity_components s)) 0 0 (entity_components s)\<rparr>"

definition system_size :: "system_params_t \<Rightarrow> 'v system_t \<Rightarrow> nat" where
  "system_size p s = list_size (entity_params p) (entities s)"

definition system_get :: "system_params_t \<Rightarrow> nat \<Rightarrow> size_t \<Rightarrow> 'v system_t \<Rightarrow> 'v option" where
  "system_get p j e s =
     (let v = entity_components s; it = find_entity v 0 (length v) e in
      if it < length v then quick_get (component_params p ! j) (snd (v ! it)) (components s ! j) else None)"

text \<open>\<open>filter\<close> on a range of entities calls its operation on the components \<open>js\<close> of each, and returns the rest of the range.\<close>

fun get_components :: "system_params_t \<Rightarrow> nat list \<Rightarrow> size_t \<Rightarrow> 'v system_t \<Rightarrow> 'v list option" where
  "get_components p [] index s = Some []"
| "get_components p (j # js) index s = do {
     x \<leftarrow> quick_get (component_params p ! j) index (components s ! j); xs \<leftarrow> get_components p js index s; Some (x # xs)
   }"

fun filter_loop :: "system_params_t \<Rightarrow> nat list \<Rightarrow> nat \<Rightarrow> size_t list \<Rightarrow> 'v system_t \<Rightarrow> ('v list list \<times> size_t list) option" where
  "filter_loop p js ip [] s = Some ([], [])"
| "filter_loop p js ip (e # es) s =
     (let v = entity_components s; ip1 = find_entity v ip (length v) e in
      if ip1 = length v \<or> snd (v ! ip1) = tombstone then Some ([], e # es)
      else do {
        xs \<leftarrow> get_components p js (snd (v ! ip1)) s;
        (calls, rest) \<leftarrow> filter_loop p js ip1 es s;
        Some (xs # calls, rest)
      })"

definition system_filter :: "system_params_t \<Rightarrow> nat list \<Rightarrow> size_t list \<Rightarrow> 'v system_t \<Rightarrow> ('v list list \<times> size_t list) option" where
  "system_filter p js es s = filter_loop p js 0 es s"

text \<open>
  The swap of \<open>remove\<close>: unless the entity is the oldest, the oldest row moves into its place, and the vector records it. The oldest
  entity's entry is left of the removed one's when the entity is smaller, and right of it otherwise.
\<close>

definition swap_top :: "system_params_t \<Rightarrow> size_t \<Rightarrow> size_t \<Rightarrow> nat \<Rightarrow> 'v system_t \<Rightarrow> 'v system_t option" where
  "swap_top p e top_entity ip s =
     (let v = entity_components s in
      if e \<noteq> top_entity then do {
        let it = find_entity v (if e < top_entity then ip else 0) (if e > top_entity then ip else length v) top_entity;
        let index = snd (v ! ip);
        _ \<leftarrow> (if it < length v then Some () else None);
        let v1 = v[it := (fst (v ! it), index), ip := (fst (v ! ip), tombstone)];
        ls \<leftarrow> move_components (component_params p) index (components s);
        es \<leftarrow> quick_set (entity_params p) index top_entity (entities s);
        Some \<lparr>components = ls, entity_components = v1, entities = es\<rparr>
      }
      else Some (s\<lparr>entity_components := v[ip := (fst (v ! ip), tombstone)]\<rparr>))"

text \<open>\<open>remove\<close> on a range of entities returns the rest of the range.\<close>

fun remove_loop :: "system_params_t \<Rightarrow> nat \<Rightarrow> size_t list \<Rightarrow> 'v system_t \<Rightarrow> (size_t list \<times> 'v system_t) option" where
  "remove_loop p ip [] s = Some ([], s)"
| "remove_loop p ip (e # rest) s = do {
     (none, es0) \<leftarrow> list_empty (entity_params p) (entities s);
     if none then Some (e # rest, s\<lparr>entities := es0\<rparr>)
     else do {
       (top_entity, es) \<leftarrow> list_top (entity_params p) False es0;
       let v = entity_components s;
       let ip1 = find_entity v ip (length v) e;
       if ip1 = length v \<or> snd (v ! ip1) = tombstone then Some (e # rest, s\<lparr>entities := es\<rparr>)
       else do {
         s1 \<leftarrow> swap_top p e top_entity ip1 (s\<lparr>entities := es\<rparr>);
         ls \<leftarrow> pop_components (component_params p) (components s1);
         es1 \<leftarrow> list_pop (entity_params p) False (entities s1);
         remove_loop p ip1 rest (s1\<lparr>components := ls, entities := es1\<rparr>)
       }
     }
   }"

definition system_remove_range :: "system_params_t \<Rightarrow> size_t list \<Rightarrow> 'v system_t \<Rightarrow> (size_t list \<times> 'v system_t) option" where
  "system_remove_range p es s = remove_loop p 0 es s"

definition system_remove :: "system_params_t \<Rightarrow> size_t \<Rightarrow> 'v system_t \<Rightarrow> (bool \<times> 'v system_t) option" where
  "system_remove p e s = map_option (apfst (\<lambda>rest. rest = [])) (system_remove_range p [e] s)"

definition system_clear :: "system_params_t \<Rightarrow> 'v system_t \<Rightarrow> 'v system_t option" where
  "system_clear p s = do {
     ls \<leftarrow> clear_components (component_params p) (components s);
     es \<leftarrow> list_clear (entity_params p) (entities s);
     Some \<lparr>components = ls, entity_components = [], entities = es\<rparr>
   }"

section \<open>Iteration\<close>

text \<open>
  \<open>iterate\<close> calls its operation on the elements under its iterators, and steps them, until the first meets its end. The elements it is
  called on are collected. \<open>step_iterators\<close> is called without its second template argument, an empty pack of positions: it steps
  no iterator.
\<close>

definition step_iterators :: "list_iterator_t list \<Rightarrow> nat \<Rightarrow> list_iterator_t list" where
  "step_iterators its count = its"

fun do_operation :: "(queue_params_t \<times> 'v queue_list_t) list \<Rightarrow> list_iterator_t list \<Rightarrow> ('v list \<times> list_iterator_t list) option" where
  "do_operation ((c, l) # ls) (it # its) = do {
     x \<leftarrow> list_iterator_deref c (nodes l) it;
     (xs, its1) \<leftarrow> do_operation ls its;
     Some (x # xs, list_iterator_step c (nodes l) it # its1)
   }"
| "do_operation ls its = Some ([], [])"

partial_function (option) iterate_loop :: "(queue_params_t \<times> 'v queue_list_t) list \<Rightarrow> list_iterator_t list \<Rightarrow> list_iterator_t \<Rightarrow> 'v list list option" where
  "iterate_loop ls its fin =
     (if list_iterator_eq (hd its) fin then Some []
      else do {
        (xs, its1) \<leftarrow> do_operation ls its;
        rest \<leftarrow> iterate_loop ls (step_iterators its1 1) fin;
        Some (xs # rest)
      })"

declare iterate_loop.simps [code]

definition component_lists :: "system_params_t \<Rightarrow> nat list \<Rightarrow> 'v system_t \<Rightarrow> (queue_params_t \<times> 'v queue_list_t) list" where
  "component_lists p js s = map (\<lambda>j. (component_params p ! j, components s ! j)) js"

definition system_iterate :: "system_params_t \<Rightarrow> nat list \<Rightarrow> 'v system_t \<Rightarrow> 'v list list option" where
  "system_iterate p js s =
     (let ls = component_lists p js s in iterate_loop ls (map (list_begin \<circ> snd) ls) (list_end (snd (hd ls))))"

text \<open>\<open>iterate_batch\<close>: the length of each batch and the iterators passed with it.\<close>

partial_function (option) batch_loop :: "nat \<Rightarrow> nat \<Rightarrow> nat \<Rightarrow> list_iterator_t list \<Rightarrow> (nat \<times> list_iterator_t list) list option" where
  "batch_loop batch_count n i its =
     (if i < n then do {
        let count = min (i + batch_count) n - i;
        rest \<leftarrow> batch_loop batch_count n (i + batch_count) (step_iterators its count);
        Some ((count, its) # rest)
      } else Some [])"

declare batch_loop.simps [code]

definition system_iterate_batch :: "system_params_t \<Rightarrow> nat list \<Rightarrow> nat \<Rightarrow> 'v system_t \<Rightarrow> (nat \<times> list_iterator_t list) list option" where
  "system_iterate_batch p js batch_count s = do {
     let ls = component_lists p js s;
     n \<leftarrow> list_iterator_minus (fst (hd ls)) (nodes (snd (hd ls))) (list_end (snd (hd ls))) (list_begin (snd (hd ls)));
     batch_loop batch_count n 0 (map (list_begin \<circ> snd) ls)
   }"

section \<open>The entity allocator\<close>

record entity_allocator_t =
  free_entities :: "size_t queue_list_t"
  max_allocated_entity :: size_t

definition allocator_make :: "queue_params_t \<Rightarrow> entity_allocator_t" where
  "allocator_make c = \<lparr>free_entities = list_make c, max_allocated_entity = 0\<rparr>"

definition entity_allocate :: "queue_params_t \<Rightarrow> entity_allocator_t \<Rightarrow> (size_t \<times> entity_allocator_t) option" where
  "entity_allocate c a = do {
     (none, l) \<leftarrow> list_empty c (free_entities a);
     if \<not> none then do {
       (e, l1) \<leftarrow> list_top c False l;
       l2 \<leftarrow> list_pop c False l1;
       Some (e, a\<lparr>free_entities := l2\<rparr>)
     }
     else Some (max_allocated_entity a, a\<lparr>free_entities := l, max_allocated_entity := max_allocated_entity a + 1\<rparr>)
   }"

definition entity_free :: "queue_params_t \<Rightarrow> size_t \<Rightarrow> entity_allocator_t \<Rightarrow> entity_allocator_t option" where
  "entity_free c e a = map_option (\<lambda>l. a\<lparr>free_entities := l\<rparr>) (list_push c e (free_entities a))"

definition allocator_reset :: "queue_params_t \<Rightarrow> entity_allocator_t \<Rightarrow> entity_allocator_t option" where
  "allocator_reset c a = map_option (\<lambda>l. \<lparr>free_entities = l, max_allocated_entity = 0\<rparr>) (list_reset c 0 (free_entities a))"

section \<open>The sorted vector\<close>

lemma map_ok_slice: "map_ok v \<Longrightarrow> map_ok (take m (drop n v))"
  by (simp add: map_ok_def map_keys_def take_map [symmetric] drop_map [symmetric] sorted_wrt_take sorted_wrt_drop)

lemma map_ok_inj: "map_ok v \<Longrightarrow> i < length v \<Longrightarrow> j < length v \<Longrightarrow> fst (v ! i) = fst (v ! j) \<Longrightarrow> i = j"
  using map_ok_nth [of v i j] map_ok_nth [of v j i] by (cases i j rule: linorder_cases) auto

lemma find_entity_hit:
  assumes "map_ok v" "lo \<le> i" "i < hi" "hi \<le> length v" "fst (v ! i) = e"
  shows "find_entity v lo hi e = i"
proof -
  let ?w = "take (hi - lo) (drop lo v)"
  have len: "length ?w = hi - lo" using assms by simp
  have w: "?w ! k = v ! (lo + k)" if "k < hi - lo" for k using that assms by simp
  have "e \<in> fst ` set ?w" using w [of "i - lo"] len assms by (metis diff_less_mono image_eqI le_add_diff_inverse nth_mem)
  with binary_find_key [OF map_ok_slice [OF assms(1)], of "hi - lo" lo e 0] len w assms
  have "iris_binary_find key_value_less ?w (e, 0) < hi - lo"
    "fst (v ! (lo + iris_binary_find key_value_less ?w (e, 0))) = e" by auto
  with assms map_ok_inj [OF assms(1), of "lo + iris_binary_find key_value_less ?w (e, 0)" i]
  show ?thesis by (simp add: find_entity_def)
qed

lemma find_entity_miss:
  assumes "map_ok v" "lo \<le> hi" "hi \<le> length v" "\<forall>i. lo \<le> i \<longrightarrow> i < hi \<longrightarrow> fst (v ! i) \<noteq> e"
  shows "find_entity v lo hi e = hi"
proof -
  let ?w = "take (hi - lo) (drop lo v)"
  have len: "length ?w = hi - lo" using assms by simp
  have w: "?w ! k = v ! (lo + k)" if "k < hi - lo" for k using that assms by simp
  from binary_find_key [OF map_ok_slice [OF assms(1)], of "hi - lo" lo e 0] len w assms(2,4)
  have "iris_binary_find key_value_less ?w (e, 0) = hi - lo" by fastforce
  with assms(2) show ?thesis by (simp add: find_entity_def)
qed

lemma map_of_nth: "map_ok v \<Longrightarrow> i < length v \<Longrightarrow> map_of v (fst (v ! i)) = Some (snd (v ! i))"
  by (metis map_of_eq_memI nth_mem prod.collapse)

lemma map_of_slot:
  assumes "map_ok v" "map_of v e = Some x"
  obtains i where "i < length v" "v ! i = (e, x)"
  using assms map_of_eq_memI [OF assms(1)] by (metis in_set_conv_nth)

lemma map_of_missing: "map_of v e = None \<Longrightarrow> i < length v \<Longrightarrow> fst (v ! i) \<noteq> e"
  by (metis map_of_eq_None_iff nth_mem image_eqI)

lemma find_entity_whole:
  assumes "map_ok v"
  shows "(find_entity v 0 (length v) e \<noteq> length v) = (map_of v e \<noteq> None)"
    "map_of v e = Some x \<Longrightarrow> find_entity v 0 (length v) e < length v \<and> v ! find_entity v 0 (length v) e = (e, x)"
    "map_of v e = None \<Longrightarrow> find_entity v 0 (length v) e = length v"
proof -
  show hit: "find_entity v 0 (length v) e < length v \<and> v ! find_entity v 0 (length v) e = (e, x)" if "map_of v e = Some x" for x
    using map_of_slot [OF assms that] find_entity_hit [OF assms, of 0 _ "length v" e] by (metis fst_conv le0 le_refl)
  show miss: "find_entity v 0 (length v) e = length v" if "map_of v e = None"
    using find_entity_miss [OF assms, of 0 "length v" e] map_of_missing [OF that] by simp
  show "(find_entity v 0 (length v) e \<noteq> length v) = (map_of v e \<noteq> None)"
    using hit miss by (cases "map_of v e") auto
qed

text \<open>Overwriting a slot is an update of the map.\<close>

lemma slot_update:
  assumes "map_ok v" "i < length v" "fst (v ! i) = e"
  shows "map_ok (v[i := (e, x)])" "map_of (v[i := (e, x)]) = (map_of v)(e \<mapsto> x)"
proof -
  have keys: "map fst (v[i := (e, x)]) = map fst v" using assms(2,3) by (metis fst_conv list_update_id map_update nth_map)
  then show ok: "map_ok (v[i := (e, x)])" using assms(1) by (simp add: map_ok_def map_keys_def)
  show "map_of (v[i := (e, x)]) = (map_of v)(e \<mapsto> x)"
  proof
    fix k
    show "map_of (v[i := (e, x)]) k = ((map_of v)(e \<mapsto> x)) k"
    proof (cases "k = e")
      case True
      then show ?thesis using map_of_nth [OF ok, of i] assms(2) by simp
    next
      case False
      have "(k, y) \<in> set (v[i := (e, x)]) \<longleftrightarrow> (k, y) \<in> set v" for y
        using False assms(2,3) by (auto simp: in_set_conv_nth nth_list_update) (metis fst_conv nth_list_update_neq)+
      then have "map_of (v[i := (e, x)]) k = Some y \<longleftrightarrow> map_of v k = Some y" for y
        using map_of_eq_memI [OF ok] map_of_eq_memI [OF assms(1)] by simp
      then show ?thesis using False by (metis fun_upd_other option.exhaust)
    qed
  qed
qed

section \<open>The lists in step\<close>

text \<open>
  The component lists hold the rows \<open>rs\<close>, pairs of an entity and its components, at the indices from \<open>b\<close> on. Each
  of the operations on all lists is the operation on each.
\<close>

definition columns_rel :: "queue_params_t list \<Rightarrow> 'v queue_list_t list \<Rightarrow> nat \<Rightarrow> (size_t \<times> 'v list) list \<Rightarrow> bool" where
  "columns_rel cs ls b rs \<longleftrightarrow>
     length ls = length cs \<and> (\<forall>j < length cs. pool_rel (cs ! j) (ls ! j) b (map (\<lambda>r. snd r ! j) rs))"

lemma each_rel:
  "length fs = length ls \<Longrightarrow> \<forall>j < length ls. \<exists>l'. (fs ! j) (ls ! j) = Some l' \<and> Q j l' \<Longrightarrow>
   \<exists>ls'. each fs ls = Some ls' \<and> length ls' = length ls \<and> (\<forall>j < length ls. Q j (ls' ! j))"
proof (induction fs ls arbitrary: Q rule: each.induct)
  case (3 f fs l ls)
  from "3.prems"(2) [rule_format, of 0] obtain l' where l': "f l = Some l'" "Q 0 l'" by auto
  moreover from "3.IH" [OF l'(1), of "\<lambda>j. Q (Suc j)"] "3.prems" obtain ls' where
    "each fs ls = Some ls'" "length ls' = length ls" "\<forall>j < length ls. Q (Suc j) (ls' ! j)" by fastforce
  ultimately show ?case by (auto simp: less_Suc_eq_0_disj)
qed auto

lemma columns_step:
  assumes "columns_rel cs ls b rs" "length fs = length cs"
    and "\<And>j. j < length cs \<Longrightarrow> pool_rel (cs ! j) (ls ! j) b (map (\<lambda>r. snd r ! j) rs) \<Longrightarrow>
      \<exists>l'. (fs ! j) (ls ! j) = Some l' \<and> pool_rel (cs ! j) l' b' (map (\<lambda>r. snd r ! j) rs')"
  shows "\<exists>ls'. each fs ls = Some ls' \<and> columns_rel cs ls' b' rs'"
  using each_rel [of fs ls "\<lambda>j l'. pool_rel (cs ! j) l' b' (map (\<lambda>r. snd r ! j) rs')"] assms
  by (auto simp: columns_rel_def)

lemma columns_emplace:
  assumes "columns_rel cs ls b rs" "length ts = length cs" "\<forall>c \<in> set cs. pool_room c b (length rs)" "Suc (b + length rs) < 2 ^ 62"
  shows "\<exists>ls'. emplace_components cs ts ls = Some ls' \<and> columns_rel cs ls' b (rs @ [(e, ts)])"
  unfolding emplace_components_def
  by (rule columns_step [OF assms(1)]) (use assms pool_push in fastforce)+

lemma columns_replace:
  assumes "columns_rel cs ls b rs" "length ts = length cs" "k < length rs"
  shows "\<exists>ls'. replace_components cs (of_nat (b + k)) ts ls = Some ls' \<and> columns_rel cs ls' b (rs[k := (e, ts)])"
  unfolding replace_components_def
proof (rule columns_step [OF assms(1)])
  fix j
  assume j: "j < length cs" "pool_rel (cs ! j) (ls ! j) b (map (\<lambda>r. snd r ! j) rs)"
  from pool_set [OF this(2), of "b + k" "ts ! j"] assms(2,3) j(1)
  show "\<exists>l'. (map2 (\<lambda>c. quick_set c (of_nat (b + k))) cs ts ! j) (ls ! j) = Some l' \<and>
      pool_rel (cs ! j) l' b (map (\<lambda>r. snd r ! j) (rs[k := (e, ts)]))" by (simp add: map_update)
qed (use assms(2) in simp)

lemma columns_move:
  assumes "columns_rel cs ls b rs" "k < length rs"
  shows "\<exists>ls'. move_components cs (of_nat (b + k)) ls = Some ls' \<and> columns_rel cs ls' b (rs[k := hd rs])"
  unfolding move_components_def
proof (rule columns_step [OF assms(1)])
  fix j
  assume j: "j < length cs" "pool_rel (cs ! j) (ls ! j) b (map (\<lambda>r. snd r ! j) rs)"
  have "rs \<noteq> []" using assms(2) by auto
  with quick.fill_hole [OF j(2), of k] assms(2) j(1)
  show "\<exists>l'. (map (\<lambda>c l. do { (top, l1) \<leftarrow> list_top c False l; quick_set c (of_nat (b + k)) top l1 }) cs ! j) (ls ! j) = Some l' \<and>
      pool_rel (cs ! j) l' b (map (\<lambda>r. snd r ! j) (rs[k := hd rs]))" by (auto simp: map_update hd_map)
qed simp

lemma columns_pop:
  assumes "columns_rel cs ls b rs" "rs \<noteq> []"
  shows "\<exists>ls'. pop_components cs ls = Some ls' \<and> columns_rel cs ls' (Suc b) (tl rs)"
  unfolding pop_components_def
  by (rule columns_step [OF assms(1)]) (use assms quick.drop_oldest in \<open>fastforce simp: map_tl\<close>)+

lemma columns_clear:
  assumes "columns_rel cs ls b rs"
  shows "\<exists>ls'. clear_components cs ls = Some ls' \<and> columns_rel cs ls' 0 []"
  unfolding clear_components_def
  by (rule columns_step [OF assms(1)]) (use pool_clear in fastforce)+

section \<open>The system as a map\<close>

text \<open>The system holds the rows \<open>rs\<close> at the indices from \<open>b\<close> on, and the vector knows the index of each.\<close>

definition system_rel :: "system_params_t \<Rightarrow> 'v system_t \<Rightarrow> nat \<Rightarrow> (size_t \<times> 'v list) list \<Rightarrow> bool" where
  "system_rel p s b rs \<longleftrightarrow>
     pool_rel (entity_params p) (entities s) b (map fst rs) \<and> columns_rel (component_params p) (components s) b rs \<and>
     (\<forall>r \<in> set rs. length (snd r) = length (component_params p)) \<and> distinct (map fst rs) \<and> map_ok (entity_components s) \<and>
     (\<forall>k < length rs. map_of (entity_components s) (fst (rs ! k)) = Some (of_nat (b + k))) \<and>
     (\<forall>e x. map_of (entity_components s) e = Some x \<longrightarrow> x \<noteq> tombstone \<longrightarrow> e \<in> fst ` set rs)"

definition system_params_ok :: "system_params_t \<Rightarrow> bool" where
  "system_params_ok p \<longleftrightarrow> (\<forall>c \<in> set (entity_params p # component_params p). params_ok c \<and> \<not> spsc_optimized c)"

lemma system_relD:
  assumes "system_rel p s b rs"
  shows "pool_rel (entity_params p) (entities s) b (map fst rs)" "columns_rel (component_params p) (components s) b rs"
    "\<And>r. r \<in> set rs \<Longrightarrow> length (snd r) = length (component_params p)" "distinct (map fst rs)" "map_ok (entity_components s)"
    "\<And>k. k < length rs \<Longrightarrow> map_of (entity_components s) (fst (rs ! k)) = Some (of_nat (b + k))"
    "\<And>e x. map_of (entity_components s) e = Some x \<Longrightarrow> x \<noteq> tombstone \<Longrightarrow> e \<in> fst ` set rs"
    "b + length rs < 2 ^ 62"
  using assms pool_relD(4) [of "entity_params p" "entities s" b "map fst rs"] by (auto simp: system_rel_def)

lemma index_not_tombstone: "i < 2 ^ 62 \<Longrightarrow> (of_nat i :: size_t) \<noteq> tombstone"
proof -
  assume i: "i < 2 ^ 62"
  show ?thesis
  proof
    assume "(of_nat i :: size_t) = tombstone"
    then have "(of_nat (Suc i) :: size_t) = 0" by (simp add: tombstone_def)
    then have "unat (of_nat (Suc i) :: size_t) = 0" by (simp only: unat_0)
    then have "Suc i mod 2 ^ 64 = 0" by (simp only: unat_of_nat len_num1 len_bit0 len_num0 mult_2 numeral_plus_one) simp
    with i show False by simp
  qed
qed

text \<open>What the vector says of an entity.\<close>

lemma live_entity:
  assumes "system_rel p s b rs" "k < length rs"
  shows "map_of (entity_components s) (fst (rs ! k)) = Some (of_nat (b + k))" "(of_nat (b + k) :: size_t) \<noteq> tombstone"
  using system_relD(6,8) [OF assms(1)] assms(2) index_not_tombstone [of "b + k"] by auto

lemma row_of:
  assumes "e \<in> fst ` set rs"
  obtains k where "k < length rs" "fst (rs ! k) = e"
  using assms by (metis (no_types, lifting) image_iff in_set_conv_nth)

lemma dead_entity:
  assumes "system_rel p s b rs" "e \<notin> fst ` set rs"
  shows "map_of (entity_components s) e = None \<or> map_of (entity_components s) e = Some tombstone"
  using system_relD(7) [OF assms(1), of e] assms(2) by (cases "map_of (entity_components s) e") auto

lemma find_live:
  assumes "system_rel p s b rs" "k < length rs"
  defines "it \<equiv> find_entity (entity_components s) 0 (length (entity_components s)) (fst (rs ! k))"
  shows "it < length (entity_components s)" "entity_components s ! it = (fst (rs ! k), of_nat (b + k))"
  using find_entity_whole(2) [OF system_relD(5) [OF assms(1)] live_entity(1) [OF assms(1,2)]] by (simp_all add: it_def)

lemma find_dead:
  assumes "system_rel p s b rs" "e \<notin> fst ` set rs"
  defines "it \<equiv> find_entity (entity_components s) 0 (length (entity_components s)) e"
  shows "it = length (entity_components s) \<and> map_of (entity_components s) e = None \<or>
    it < length (entity_components s) \<and> entity_components s ! it = (e, tombstone)"
  using find_entity_whole(2,3) [OF system_relD(5) [OF assms(1)], of e] dead_entity [OF assms(1,2)] by (auto simp: it_def)

lemma system_valid_rel:
  assumes "system_rel p s b rs"
  shows "system_valid e s \<longleftrightarrow> e \<in> fst ` set rs"
proof (cases "e \<in> fst ` set rs")
  case True
  then obtain k where "k < length rs" "fst (rs ! k) = e" by (rule row_of)
  with find_live [OF assms this(1)] live_entity(2) [OF assms this(1)] True show ?thesis
    by (simp add: system_valid_def Let_def)
next
  case False
  with find_dead [OF assms False] show ?thesis by (auto simp: system_valid_def Let_def)
qed

lemma system_get_rel:
  assumes "system_rel p s b rs" "k < length rs" "j < length (component_params p)"
  shows "system_get p j (fst (rs ! k)) s = Some (snd (rs ! k) ! j)"
proof -
  have "pool_rel (component_params p ! j) (components s ! j) b (map (\<lambda>r. snd r ! j) rs)"
    using system_relD(2) [OF assms(1)] assms(3) by (simp add: columns_rel_def)
  from pool_get [OF this, of "b + k"] assms(2) find_live [OF assms(1,2)] show ?thesis
    by (simp add: system_get_def Let_def)
qed

lemma system_make_rel:
  assumes "system_params_ok p"
  shows "system_rel p (system_make p) 0 []"
proof -
  have "pool_rel (entity_params p) (list_make (entity_params p)) 0 []"
    using assms by (auto simp: system_params_ok_def intro: pool_make)
  moreover have "columns_rel (component_params p) (map list_make (component_params p)) 0 []"
    using assms by (auto simp: columns_rel_def system_params_ok_def intro!: pool_make)
  ultimately show ?thesis by (simp add: system_rel_def system_make_def map_ok_def map_keys_def)
qed

lemma system_insert_existing:
  assumes rel: "system_rel p s b rs" and k: "k < length rs" and ts: "length ts = length (component_params p)"
  shows "\<exists>s'. system_insert p (fst (rs ! k)) ts s = Some (True, s') \<and> system_rel p s' b (rs[k := (fst (rs ! k), ts)])"
proof -
  note r = system_relD [OF rel]
  let ?rs = "rs[k := (fst (rs ! k), ts)]"
  from columns_replace [OF r(2) ts k, of "fst (rs ! k)"] obtain ls where
    ls: "replace_components (component_params p) (of_nat (b + k)) ts (components s) = Some ls"
    "columns_rel (component_params p) ls b ?rs" by blast
  have keys: "map fst ?rs = map fst rs" using k by (metis fst_conv list_update_id map_update nth_map)
  have nth: "fst (?rs ! i) = fst (rs ! i)" if "i < length rs" for i using that by (cases "i = k") simp_all
  have "fst ` set ?rs = fst ` set rs" using keys by (metis list.set_map)
  then have "system_rel p (s\<lparr>components := ls\<rparr>) b ?rs"
    unfolding system_rel_def using r ls(2) keys nth ts set_update_subset_insert [of rs k "(fst (rs ! k), ts)"] by auto
  then show ?thesis
    using find_live [OF rel k] live_entity(2) [OF rel k] ls(1) by (simp add: system_insert_def Let_def)
qed

text \<open>A push onto every list stays in step when every list has room for it.\<close>

definition rows_room :: "system_params_t \<Rightarrow> nat \<Rightarrow> nat \<Rightarrow> bool" where
  "rows_room p b n \<longleftrightarrow> (\<forall>c \<in> set (entity_params p # component_params p). pool_room c b n) \<and> Suc (b + n) < 2 ^ 62"

lemma system_insert_fresh:
  assumes rel: "system_rel p s b rs" and e: "e \<notin> fst ` set rs" and ts: "length ts = length (component_params p)"
    and room: "rows_room p b (length rs)"
  shows "\<exists>s'. system_insert p e ts s = Some (False, s') \<and> system_rel p s' b (rs @ [(e, ts)])"
proof -
  note r = system_relD [OF rel]
  let ?v = "entity_components s" and ?i = "of_nat (b + length rs) :: size_t"
  let ?it = "find_entity ?v 0 (length ?v) e"
  from columns_emplace [OF r(2) ts, of e] room obtain ls where
    ls: "emplace_components (component_params p) ts (components s) = Some ls" "columns_rel (component_params p) ls b (rs @ [(e, ts)])"
    by (auto simp: rows_room_def)
  from pool_push [OF r(1), of e] room obtain es where
    es: "list_push (entity_params p) e (entities s) = Some es" "pool_rel (entity_params p) es b (map fst rs @ [e])"
    by (auto simp: rows_room_def)
  have index: "list_end_index (entities s) = ?i" using pool_end_index(1) [OF r(1)] by simp
  define v where "v = (if ?it \<noteq> length ?v then ?v[?it := (fst (?v ! ?it), ?i)] else fst (iris_binary_insert key_value_less ?v (e, ?i)))"
  have v: "map_ok v \<and> map_of v = (map_of ?v)(e \<mapsto> ?i)"
    using find_dead [OF rel e]
  proof
    assume "?it = length ?v \<and> map_of ?v e = None"
    then have "v = map_put e ?i ?v" using binary_insert_put [OF r(5), of e ?i] by (simp add: v_def)
    then show ?thesis using std_map.ok_put [OF r(5)] std_map.find_put by simp
  next
    assume "?it < length ?v \<and> ?v ! ?it = (e, tombstone)"
    then show ?thesis using slot_update [OF r(5), of ?it e ?i] by (simp add: v_def)
  qed
  have "system_insert p e ts s = Some (False, \<lparr>components = ls, entity_components = v, entities = es\<rparr>)"
    using find_dead [OF rel e] ls(1) es(1) index by (auto simp: system_insert_def Let_def v_def)
  moreover have "system_rel p \<lparr>components = ls, entity_components = v, entities = es\<rparr> b (rs @ [(e, ts)])"
    unfolding system_rel_def using r(3,4,6,7) ls(2) es(2) v e ts
    by (auto simp: nth_append less_Suc_eq split: if_splits)
  ultimately show ?thesis by blast
qed

text \<open>The rows after the hole at \<open>k\<close> is filled by the first row.\<close>

definition fill_hole :: "nat \<Rightarrow> 'a list \<Rightarrow> 'a list" where
  "fill_hole k rs = tl (rs[k := hd rs])"

lemma fill_hole_nth:
  assumes "k < length rs" "Suc m < length rs"
  shows "fill_hole k rs ! m = (if Suc m = k then rs ! 0 else rs ! Suc m)"
proof -
  have "hd rs = rs ! 0" using assms by (intro hd_conv_nth) auto
  then show ?thesis using assms by (auto simp: fill_hole_def nth_tl nth_list_update)
qed

lemma fill_hole_length [simp]: "length (fill_hole k rs) = length rs - 1"
  by (simp add: fill_hole_def)

lemma fill_hole_map: "rs \<noteq> [] \<Longrightarrow> map f (fill_hole k rs) = fill_hole k (map f rs)"
  by (simp add: fill_hole_def map_tl map_update hd_map)

lemma fill_hole_distinct:
  assumes "distinct xs" "k < length xs"
  shows "set (fill_hole k xs) = set xs - {xs ! k}" "distinct (fill_hole k xs)"
proof -
  from assms(2) obtain x ys where xs: "xs = x # ys" by (cases xs) auto
  show "set (fill_hole k xs) = set xs - {xs ! k}" "distinct (fill_hole k xs)"
    using assms xs by (cases k; auto simp: fill_hole_def set_update_distinct distinct_list_update)+
qed

lemma fill_hole_map_of:
  assumes "distinct (map fst rs)" "k < length rs"
  shows "map_of (fill_hole k rs) = (map_of rs)(fst (rs ! k) := None)"
proof -
  have ne: "rs \<noteq> []" using assms(2) by auto
  have d: "distinct (map fst (fill_hole k rs))"
    unfolding fill_hole_map [OF ne] using fill_hole_distinct(2) [OF assms(1)] assms(2) by simp
  have keys: "fst ` set (fill_hole k rs) = fst ` set rs - {fst (rs ! k)}"
    unfolding list.set_map [symmetric] fill_hole_map [OF ne] using fill_hole_distinct(1) [OF assms(1)] assms(2) by simp
  have rows: "set (fill_hole k rs) \<subseteq> set rs"
    using fill_hole_distinct(1) [of rs k] assms by (auto simp: distinct_map)
  show ?thesis
  proof
    fix e
    show "map_of (fill_hole k rs) e = ((map_of rs)(fst (rs ! k) := None)) e"
    proof (cases "map_of (fill_hole k rs) e")
      case None
      then have "e \<notin> fst ` set (fill_hole k rs)" by (simp add: map_of_eq_None_iff)
      then have "e = fst (rs ! k) \<or> map_of rs e = None" unfolding keys by (simp add: map_of_eq_None_iff) blast
      then show ?thesis using None by auto
    next
      case (Some x)
      then have mem: "(e, x) \<in> set (fill_hole k rs)" by (rule map_of_SomeD)
      then have "e \<in> fst ` set (fill_hole k rs)" by (rule rev_image_eqI) simp
      then have "e \<noteq> fst (rs ! k)" unfolding keys by simp
      moreover have "map_of rs e = Some x" using mem rows by (intro map_of_is_SomeI [OF assms(1)]) blast
      ultimately show ?thesis using Some by simp
    qed
  qed
qed

text \<open>The entries that the swap leaves, and the lists it leaves.\<close>

lemma swap_top_rel:
  assumes rel: "system_rel p s b rs" and k: "k < length rs"
    and i: "i < length (entity_components s)" "fst (entity_components s ! i) = fst (rs ! k)"
  shows "\<exists>s'. swap_top p (fst (rs ! k)) (fst (rs ! 0)) i s = Some s' \<and> columns_rel (component_params p) (components s') b (rs[k := hd rs]) \<and>
    pool_rel (entity_params p) (entities s') b (map fst (rs[k := hd rs])) \<and> map_ok (entity_components s') \<and>
    map_of (entity_components s') = (map_of (entity_components s))(fst (rs ! 0) \<mapsto> of_nat (b + k), fst (rs ! k) \<mapsto> tombstone) \<and>
    map fst (entity_components s') = map fst (entity_components s)"
proof -
  note r = system_relD [OF rel]
  let ?v = "entity_components s" and ?e = "fst (rs ! k)" and ?top = "fst (rs ! 0)" and ?x = "of_nat (b + k) :: size_t"
  have ne: "rs \<noteq> []" using k by auto
  have hd: "hd rs = rs ! 0" using ne by (simp add: hd_conv_nth)
  have vi: "?v ! i = (?e, ?x)" using map_of_nth [OF r(5) i(1)] i(2) live_entity(1) [OF rel k] by (simp add: prod_eq_iff)
  have keys: "map fst (w[j := (fst (w ! j), y)]) = map fst w" if "j < length w" for w :: "(size_t, size_t) iris_key_value_t list" and j y
    using that by (metis fst_conv list_update_id map_update nth_map)
  show ?thesis
  proof (cases "k = 0")
    case True
    then show ?thesis
      using r(1,2,5) slot_update [OF r(5) i, of tombstone] keys [OF i(1), of tombstone] i(2) hd by (simp add: swap_top_def Let_def)
  next
    case False
    have "map_of ?v ?top = Some (of_nat b)" using r(6) [of 0] ne by simp
    then obtain t where t: "t < length ?v" "?v ! t = (?top, of_nat b)" by (rule map_of_slot [OF r(5)])
    have neq: "?e \<noteq> ?top" using nth_eq_iff_index_eq [OF r(4), of k 0] k False ne by simp
    then have "t \<noteq> i" using t(2) vi by auto
    have it: "find_entity ?v (if ?e < ?top then i else 0) (if ?e > ?top then i else length ?v) ?top = t"
    proof (rule find_entity_hit [OF r(5)])
      show "(if ?e < ?top then i else 0) \<le> t" using map_ok_nth [OF r(5), of t i] i(1) t vi by (cases "t < i") auto
      show "t < (if ?e > ?top then i else length ?v)" using map_ok_nth [OF r(5), of i t] t vi \<open>t \<noteq> i\<close> by (cases "i < t") auto
    qed (use t i in auto)
    from columns_move [OF r(2) k] obtain ls where
      ls: "move_components (component_params p) ?x (components s) = Some ls" "columns_rel (component_params p) ls b (rs[k := hd rs])" by blast
    from pool_set [OF r(1), of "b + k" ?top] k obtain es where
      es: "quick_set (entity_params p) ?x ?top (entities s) = Some es" "pool_rel (entity_params p) es b (map fst (rs[k := hd rs]))"
      by (auto simp: hd map_update)
    note u1 = slot_update [OF r(5) t(1), of ?top ?x]
    have ui: "?v[t := (?top, ?x)] ! i = (?e, ?x)" using vi \<open>t \<noteq> i\<close> by simp
    note u2 = slot_update [OF u1(1), of i ?e tombstone]
    have "map fst (?v[t := (?top, ?x), i := (?e, tombstone)]) = map fst ?v"
      using keys [of t ?v ?x] keys [of i "?v[t := (?top, ?x)]" tombstone] t i(1) ui by simp
    moreover have "swap_top p ?e ?top i s = Some \<lparr>components = ls, entity_components = ?v[t := (?top, ?x), i := (?e, tombstone)], entities = es\<rparr>"
      using neq it t ls(1) es(1) vi by (simp add: swap_top_def Let_def)
    ultimately show ?thesis using ls(2) es(2) u1 u2 ui t i by simp
  qed
qed

text \<open>The vector that the swap leaves is right for the rows that are left.\<close>

lemma filled_rel:
  assumes rel: "system_rel p s b rs" and k: "k < length rs"
    and "columns_rel (component_params p) ls (Suc b) (fill_hole k rs)" "pool_rel (entity_params p) es (Suc b) (map fst (fill_hole k rs))"
    and v: "map_ok v" "map_of v = (map_of (entity_components s))(fst (rs ! 0) \<mapsto> of_nat (b + k), fst (rs ! k) \<mapsto> tombstone)"
    and s': "components s' = ls" "entities s' = es" "entity_components s' = v"
  shows "system_rel p s' (Suc b) (fill_hole k rs)"
proof -
  note r = system_relD [OF rel]
  have ne: "rs \<noteq> []" using k by auto
  have dist: "fst (rs ! m) = fst (rs ! m') \<longleftrightarrow> m = m'" if "m < length rs" "m' < length rs" for m m'
    using nth_eq_iff_index_eq [OF r(4), of m m'] that by simp
  have keys: "fst ` set (fill_hole k rs) = fst ` set rs - {fst (rs ! k)}" and d: "distinct (map fst (fill_hole k rs))"
    unfolding list.set_map [symmetric] fill_hole_map [OF ne] using fill_hole_distinct [OF r(4), of k] k by simp_all
  have rows: "set (fill_hole k rs) \<subseteq> set rs" using fill_hole_distinct(1) [of rs k] r(4) k by (auto simp: distinct_map)
  have index: "map_of v (fst (fill_hole k rs ! m)) = Some (of_nat (Suc b + m))" if "m < length (fill_hole k rs)" for m
  proof -
    have m: "Suc m < length rs" using that by simp
    show ?thesis
    proof (cases "Suc m = k")
      case True
      then show ?thesis using fill_hole_nth [OF k m] v(2) dist [of 0 k] k True ne by auto
    next
      case False
      then show ?thesis
        using fill_hole_nth [OF k m] v(2) dist [OF m, of 0] dist [OF m k] r(6) [OF m] ne by simp
    qed
  qed
  have "e \<in> fst ` set (fill_hole k rs)" if "map_of v e = Some x" "x \<noteq> tombstone" for e x
    using that v(2) r(7) [of e x] keys ne by (auto split: if_splits)
  with index d rows show ?thesis unfolding system_rel_def s' using assms(3,4) v(1) r(3) by blast
qed

text \<open>One round of \<open>remove\<close> on an entity that is there, and that the search from \<open>ip\<close> on meets.\<close>

lemma remove_round:
  assumes rel: "system_rel p s b rs" and k: "k < length rs"
    and i: "ip \<le> i" "i < length (entity_components s)" "fst (entity_components s ! i) = fst (rs ! k)"
  shows "\<exists>s'. remove_loop p ip (fst (rs ! k) # rest) s = remove_loop p i rest s' \<and> system_rel p s' (Suc b) (fill_hole k rs) \<and>
    map fst (entity_components s') = map fst (entity_components s)"
proof -
  note r = system_relD [OF rel]
  let ?v = "entity_components s" and ?e = "fst (rs ! k)" and ?top = "fst (rs ! 0)" and ?x = "of_nat (b + k) :: size_t"
  have ne: "rs \<noteq> []" using k by auto
  have found: "find_entity ?v ip (length ?v) ?e = i" by (rule find_entity_hit [OF r(5) i(1,2) le_refl i(3)])
  have vi: "snd (?v ! i) \<noteq> tombstone" using map_of_nth [OF r(5) i(2)] i(3) live_entity [OF rel k] by simp
  have top: "list_top (entity_params p) False (entities s) = Some (?top, entities s)" using pool_top r(1) ne by (cases rs) auto
  have mt: "list_empty (entity_params p) (entities s) = Some (False, entities s)" using pool_empty [OF r(1)] ne by simp
  have self: "s\<lparr>entities := entities s\<rparr> = s" by simp
  from swap_top_rel [OF rel k i(2,3)] obtain s1 where s1: "swap_top p ?e ?top i s = Some s1"
    "columns_rel (component_params p) (components s1) b (rs[k := hd rs])" "pool_rel (entity_params p) (entities s1) b (map fst (rs[k := hd rs]))"
    "map_ok (entity_components s1)" "map_of (entity_components s1) = (map_of ?v)(?top \<mapsto> ?x, ?e \<mapsto> tombstone)"
    "map fst (entity_components s1) = map fst ?v" by blast
  from columns_pop [OF s1(2)] ne obtain ls where ls: "pop_components (component_params p) (components s1) = Some ls"
    "columns_rel (component_params p) ls (Suc b) (fill_hole k rs)" by (auto simp: fill_hole_def)
  from quick.drop_oldest [OF s1(3)] ne obtain es where es: "list_pop (entity_params p) False (entities s1) = Some es"
    "pool_rel (entity_params p) es (Suc b) (map fst (fill_hole k rs))" by (auto simp: fill_hole_def map_tl)
  have "remove_loop p ip (?e # rest) s = remove_loop p i rest (s1\<lparr>components := ls, entities := es\<rparr>)"
    using mt top found vi i(2) s1(1) ls(1) es(1) self by (simp add: Let_def)
  moreover have "system_rel p (s1\<lparr>components := ls, entities := es\<rparr>) (Suc b) (fill_hole k rs)"
    by (rule filled_rel [OF rel k ls(2) es(2) s1(4,5)]) simp_all
  ultimately show ?thesis using s1(6) by auto
qed

text \<open>The search for the next entity of an ascending range starts where the last one was found.\<close>

lemma search_dead:
  assumes rel: "system_rel p s b rs" and e: "e \<notin> fst ` set rs" and ip: "ip \<le> length (entity_components s)"
    and seen: "\<forall>i < length (entity_components s). fst (entity_components s ! i) = e \<longrightarrow> ip \<le> i"
  defines "it \<equiv> find_entity (entity_components s) ip (length (entity_components s)) e"
  shows "it = length (entity_components s) \<or> snd (entity_components s ! it) = tombstone"
  using dead_entity [OF rel e]
proof
  note ok = system_relD(5) [OF rel]
  assume "map_of (entity_components s) e = None"
  then have "it = length (entity_components s)"
    unfolding it_def by (intro find_entity_miss [OF ok ip le_refl]) (simp add: map_of_missing)
  then show ?thesis ..
next
  note ok = system_relD(5) [OF rel]
  assume "map_of (entity_components s) e = Some tombstone"
  then obtain i where i: "i < length (entity_components s)" "entity_components s ! i = (e, tombstone)" by (rule map_of_slot [OF ok])
  then show ?thesis unfolding it_def using find_entity_hit [OF ok _ i(1) le_refl, of ip e] seen by simp
qed

lemma search_ahead:
  assumes "map_ok v" "i < length v" "\<forall>e \<in> set es. fst (v ! i) < e"
  shows "\<forall>j < length v. fst (v ! j) \<in> set es \<longrightarrow> i \<le> j"
proof (intro allI impI, rule ccontr)
  fix j
  assume "fst (v ! j) \<in> set es" "\<not> i \<le> j"
  then have "fst (v ! j) < fst (v ! i)" "fst (v ! i) < fst (v ! j)" using map_ok_nth [OF assms(1) _ assms(2), of j] assms(3) by simp_all
  then show False by simp
qed

text \<open>\<open>remove\<close> takes the live entities at the front of an ascending range.\<close>

lemma remove_stops:
  assumes rel: "system_rel p s b rs" and e: "e \<notin> fst ` set rs" and ip: "ip \<le> length (entity_components s)"
    and seen: "\<forall>i < length (entity_components s). fst (entity_components s ! i) = e \<longrightarrow> ip \<le> i"
  shows "remove_loop p ip (e # rest) s = Some (e # rest, s)"
proof (cases "rs = []")
  case True
  with pool_empty [OF system_relD(1) [OF rel]] show ?thesis by simp
next
  case False
  then have "list_top (entity_params p) False (entities s) = Some (fst (hd rs), entities s)"
    using pool_top system_relD(1) [OF rel] by (cases rs) auto
  then show ?thesis using search_dead [OF assms] pool_empty [OF system_relD(1) [OF rel]] False by auto
qed

lemma remove_ascending:
  "system_rel p s b rs \<Longrightarrow> sorted_wrt (<) es \<Longrightarrow> ip \<le> length (entity_components s) \<Longrightarrow>
   \<forall>i < length (entity_components s). fst (entity_components s ! i) \<in> set es \<longrightarrow> ip \<le> i \<Longrightarrow>
   \<exists>s' b' rs'. remove_loop p ip es s = Some (dropWhile (\<lambda>e. e \<in> fst ` set rs) es, s') \<and> system_rel p s' b' rs' \<and>
     map_of rs' = map_of rs |` (- set (takeWhile (\<lambda>e. e \<in> fst ` set rs) es))"
proof (induction es arbitrary: s b rs ip)
  case Nil
  then show ?case by fastforce
next
  case (Cons e es)
  let ?v = "entity_components s"
  show ?case
  proof (cases "e \<in> fst ` set rs")
    case False
    then show ?thesis using remove_stops [OF Cons.prems(1) False Cons.prems(3)] Cons.prems(1,4) by fastforce
  next
    case True
    then obtain k where k: "k < length rs" "fst (rs ! k) = e" by (rule row_of)
    note r = system_relD [OF Cons.prems(1)]
    from live_entity(1) [OF Cons.prems(1) k(1)] k(2) obtain i where i: "i < length ?v" "?v ! i = (e, of_nat (b + k))"
      using map_of_slot [OF r(5)] by metis
    have "ip \<le> i" using Cons.prems(4) i by simp
    from remove_round [OF Cons.prems(1) k(1) this i(1), of es] i(2) k(2) obtain s1 where
      s1: "remove_loop p ip (e # es) s = remove_loop p i es s1" "system_rel p s1 (Suc b) (fill_hole k rs)"
      "map fst (entity_components s1) = map fst ?v" by auto
    have len: "length (entity_components s1) = length ?v" using s1(3) by (metis length_map)
    have same: "fst (entity_components s1 ! j) = fst (?v ! j)" if "j < length ?v" for j using s1(3) that len by (metis nth_map)
    have "\<forall>j < length (entity_components s1). fst (entity_components s1 ! j) \<in> set es \<longrightarrow> i \<le> j"
      using search_ahead [OF r(5) i(1), of es] Cons.prems(2) i(2) same len by simp
    from Cons.IH [OF s1(2) _ _ this] Cons.prems(2) i(1) len obtain s' b' rs' where
      ih: "remove_loop p i es s1 = Some (dropWhile (\<lambda>e. e \<in> fst ` set (fill_hole k rs)) es, s')" "system_rel p s' b' rs'"
      "map_of rs' = map_of (fill_hole k rs) |` (- set (takeWhile (\<lambda>e. e \<in> fst ` set (fill_hole k rs)) es))" by auto
    have m: "map_of (fill_hole k rs) = (map_of rs)(e := None)" using fill_hole_map_of [OF r(4) k(1)] k(2) by simp
    then have keys: "fst ` set (fill_hole k rs) = fst ` set rs - {e}" unfolding dom_map_of_conv_image_fst [symmetric] by auto
    have "e \<notin> set es" using Cons.prems(2) by auto
    then have "dropWhile (\<lambda>e. e \<in> fst ` set (fill_hole k rs)) es = dropWhile (\<lambda>e. e \<in> fst ` set rs) es"
      "takeWhile (\<lambda>e. e \<in> fst ` set (fill_hole k rs)) es = takeWhile (\<lambda>e. e \<in> fst ` set rs) es"
      unfolding keys by (auto intro: dropWhile_cong takeWhile_cong)
    then show ?thesis using ih s1(1) True m
      by (intro exI [of _ s'] exI [of _ b'] exI [of _ rs']) (auto simp: restrict_map_def fun_eq_iff)
  qed
qed

lemma system_remove_range_rel:
  assumes "system_rel p s b rs" "sorted_wrt (<) es"
  shows "\<exists>s' b' rs'. system_remove_range p es s = Some (dropWhile (\<lambda>e. e \<in> fst ` set rs) es, s') \<and> system_rel p s' b' rs' \<and>
     map_of rs' = map_of rs |` (- set (takeWhile (\<lambda>e. e \<in> fst ` set rs) es))"
  unfolding system_remove_range_def by (rule remove_ascending [OF assms]) simp_all

lemma system_remove_live:
  assumes "system_rel p s b rs" "k < length rs"
  shows "\<exists>s'. system_remove p (fst (rs ! k)) s = Some (True, s') \<and> system_rel p s' (Suc b) (fill_hole k rs)"
proof -
  from live_entity(1) [OF assms] obtain i where i: "i < length (entity_components s)" "entity_components s ! i = (fst (rs ! k), of_nat (b + k))"
    using map_of_slot [OF system_relD(5) [OF assms(1)]] by metis
  from remove_round [OF assms _ i(1), of 0 "[]"] i(2) show ?thesis
    by (fastforce simp: system_remove_def system_remove_range_def simp del: remove_loop.simps(2))
qed

lemma system_remove_dead:
  assumes "system_rel p s b rs" "e \<notin> fst ` set rs"
  shows "system_remove p e s = Some (False, s)"
  using remove_stops [OF assms, of 0 "[]"] by (simp add: system_remove_def system_remove_range_def del: remove_loop.simps(2))

text \<open>\<open>compress\<close> drops the tombstones and \<open>clear\<close> everything.\<close>

lemma compress_loop_filter:
  "i + n = length v \<Longrightarrow> j \<le> i \<Longrightarrow> compress_loop n i j v = take j v @ filter (\<lambda>x. snd x \<noteq> tombstone) (drop i v)"
proof (induction n i j v rule: compress_loop.induct)
  case (2 n i j v)
  have "drop i v = v ! i # drop (Suc i) v" using "2.prems"(1) by (simp add: Cons_nth_drop_Suc)
  moreover have "take (Suc j) (v[j := v ! i]) = take j v @ [v ! i]"
    using "2.prems" by (simp add: take_Suc_conv_app_nth)
  ultimately show ?case using 2 by simp
qed simp

lemma system_compress_rel:
  assumes "system_rel p s b rs"
  shows "system_rel p (system_compress s) b rs"
    "entity_components (system_compress s) = filter (\<lambda>x. snd x \<noteq> tombstone) (entity_components s)"
proof -
  note r = system_relD [OF assms]
  let ?v = "entity_components s"
  show eq: "entity_components (system_compress s) = filter (\<lambda>x. snd x \<noteq> tombstone) ?v"
    by (simp add: system_compress_def compress_loop_filter)
  have ok: "map_ok (filter (\<lambda>x. snd x \<noteq> tombstone) ?v)" using r(5) by (simp add: map_ok_def map_keys_def sorted_wrt_map sorted_wrt_filter)
  have m: "map_of (filter (\<lambda>x. snd x \<noteq> tombstone) ?v) e = Some x \<longleftrightarrow> map_of ?v e = Some x \<and> x \<noteq> tombstone" for e x
    unfolding map_of_eq_memI [OF ok] map_of_eq_memI [OF r(5)] by simp
  have "components (system_compress s) = components s" "entities (system_compress s) = entities s" by (simp_all add: system_compress_def)
  then show "system_rel p (system_compress s) b rs"
    unfolding system_rel_def eq using r ok m live_entity [OF assms] by auto
qed

lemma system_clear_rel:
  assumes "system_rel p s b rs"
  shows "\<exists>s'. system_clear p s = Some s' \<and> system_rel p s' 0 []"
proof -
  note r = system_relD [OF assms]
  from columns_clear [OF r(2)] pool_clear [OF r(1)] show ?thesis
    by (auto simp: system_clear_def system_rel_def map_ok_def map_keys_def)
qed

lemma system_size_rel: "system_rel p s b rs \<Longrightarrow> system_size p s = length rs"
  using list_size_rel [OF pool_list_rel [OF system_relD(1)]] by (simp add: system_size_def)

text \<open>\<open>filter\<close> calls its operation on the live entities at the front of an ascending range.\<close>

lemma get_components_rel:
  assumes "system_rel p s b rs" "k < length rs" "\<forall>j \<in> set js. j < length (component_params p)"
  shows "get_components p js (of_nat (b + k)) s = Some (map ((!) (snd (rs ! k))) js)"
  using assms(3)
proof (induction js)
  case (Cons j js)
  then have "pool_rel (component_params p ! j) (components s ! j) b (map (\<lambda>r. snd r ! j) rs)"
    using system_relD(2) [OF assms(1)] by (simp add: columns_rel_def)
  from pool_get [OF this, of "b + k"] assms(2) Cons show ?case by simp
qed simp

lemma filter_ascending:
  assumes rel: "system_rel p s b rs" and js: "\<forall>j \<in> set js. j < length (component_params p)"
  shows "sorted_wrt (<) es \<Longrightarrow> ip \<le> length (entity_components s) \<Longrightarrow>
     \<forall>i < length (entity_components s). fst (entity_components s ! i) \<in> set es \<longrightarrow> ip \<le> i \<Longrightarrow>
     filter_loop p js ip es s =
       Some (map (\<lambda>e. map ((!) (the (map_of rs e))) js) (takeWhile (\<lambda>e. e \<in> fst ` set rs) es), dropWhile (\<lambda>e. e \<in> fst ` set rs) es)"
proof (induction es arbitrary: ip)
  case (Cons e es)
  note r = system_relD [OF rel]
  let ?v = "entity_components s"
  show ?case
  proof (cases "e \<in> fst ` set rs")
    case False
    then show ?thesis using search_dead [OF rel False Cons.prems(2)] Cons.prems(3) by auto
  next
    case True
    then obtain k where k: "k < length rs" "fst (rs ! k) = e" by (rule row_of)
    from live_entity [OF rel k(1)] k(2) obtain i where i: "i < length ?v" "?v ! i = (e, of_nat (b + k))" "(of_nat (b + k) :: size_t) \<noteq> tombstone"
      using map_of_slot [OF r(5)] by metis
    have found: "find_entity ?v ip (length ?v) e = i" using Cons.prems(3) i(1,2) by (intro find_entity_hit [OF r(5)]) simp_all
    have "\<forall>j < length ?v. fst (?v ! j) \<in> set es \<longrightarrow> i \<le> j" using search_ahead [OF r(5) i(1), of es] Cons.prems(1) i(2) by simp
    with Cons.IH [of i] Cons.prems(1) i(1) have ih: "filter_loop p js i es s =
       Some (map (\<lambda>e. map ((!) (the (map_of rs e))) js) (takeWhile (\<lambda>e. e \<in> fst ` set rs) es), dropWhile (\<lambda>e. e \<in> fst ` set rs) es)" by simp
    have "rs ! k = (e, snd (rs ! k))" using k(2) by (simp add: prod_eq_iff)
    then have "(e, snd (rs ! k)) \<in> set rs" using nth_mem [OF k(1)] by simp
    then have "map_of rs e = Some (snd (rs ! k))" using r(4) by simp
    then show ?thesis using found i True ih get_components_rel [OF rel k(1) js] by (simp add: Let_def)
  qed
qed simp

text \<open>\<open>iterate\<close> visits every row once, in order.\<close>

lemma do_operation_rel:
  assumes "system_rel p s b rs" "k < length rs"
  shows "\<forall>j \<in> set js. j < length (component_params p) \<Longrightarrow>
    list_all2 (\<lambda>j it. iterator_at (component_params p ! j) b (b + length rs) it (b + k)) js its \<Longrightarrow>
    \<exists>its'. do_operation (component_lists p js s) its = Some (map ((!) (snd (rs ! k))) js, its') \<and>
      list_all2 (\<lambda>j it. iterator_at (component_params p ! j) b (b + length rs) it (Suc (b + k))) js its'"
proof (induction js arbitrary: its)
  case Nil
  then show ?case by (simp add: component_lists_def)
next
  case (Cons j js)
  from Cons.prems(2) obtain it its2 where its: "its = it # its2" "iterator_at (component_params p ! j) b (b + length rs) it (b + k)"
    "list_all2 (\<lambda>j it. iterator_at (component_params p ! j) b (b + length rs) it (b + k)) js its2" by (auto simp: list_all2_Cons1)
  have rel: "pool_rel (component_params p ! j) (components s ! j) b (map (\<lambda>r. snd r ! j) rs)"
    using system_relD(2) [OF assms(1)] Cons.prems(1) by (simp add: columns_rel_def)
  from Cons.IH [of its2] Cons.prems(1) its(3) obtain its3 where its3: "do_operation (component_lists p js s) its2 = Some (map ((!) (snd (rs ! k))) js, its3)"
    "list_all2 (\<lambda>j it. iterator_at (component_params p ! j) b (b + length rs) it (Suc (b + k))) js its3" by auto
  show ?case
    using iterator_deref [OF rel, of it "b + k"] iterator_step [OF rel, of it "b + k"] its(1,2) its3 assms(2)
    by (simp add: component_lists_def)
qed

lemma iterate_rel:
  assumes rel: "system_rel p s b rs" and js: "\<forall>j \<in> set js. j < length (component_params p)" "js \<noteq> []"
  shows "n = length rs - k \<Longrightarrow> k \<le> length rs \<Longrightarrow>
    list_all2 (\<lambda>j it. iterator_at (component_params p ! j) b (b + length rs) it (b + k)) js its \<Longrightarrow>
    iterate_loop (component_lists p js s) its (list_end (snd (hd (component_lists p js s)))) =
      Some (map (\<lambda>r. map ((!) (snd r)) js) (drop k rs))"
proof (induction n arbitrary: k its)
  case 0
  from js(2) obtain j js' where j: "js = j # js'" by (cases js) auto
  have pool: "pool_rel (component_params p ! j) (components s ! j) b (map (\<lambda>r. snd r ! j) rs)"
    using system_relD(2) [OF rel] js(1) j by (simp add: columns_rel_def)
  have "list_iterator_eq (hd its) (list_end (components s ! j))"
    using iterator_eq_end [OF pool, of "hd its" "b + k"] 0 j by (auto simp: list_all2_Cons1)
  then show ?case using 0 j by (simp add: iterate_loop.simps component_lists_def)
next
  case (Suc n)
  from js(2) obtain j js' where j: "js = j # js'" by (cases js) auto
  have pool: "pool_rel (component_params p ! j) (components s ! j) b (map (\<lambda>r. snd r ! j) rs)"
    using system_relD(2) [OF rel] js(1) j by (simp add: columns_rel_def)
  have k: "k < length rs" using Suc.prems(1) by simp
  have go: "\<not> list_iterator_eq (hd its) (list_end (snd (hd (component_lists p js s))))"
    using iterator_eq_end [OF pool, of "hd its" "b + k"] Suc.prems k j by (auto simp: list_all2_Cons1 component_lists_def)
  from do_operation_rel [OF rel k js(1) Suc.prems(3)] obtain its' where its':
    "do_operation (component_lists p js s) its = Some (map ((!) (snd (rs ! k))) js, its')"
    "list_all2 (\<lambda>j it. iterator_at (component_params p ! j) b (b + length rs) it (b + Suc k)) js its'" by auto
  have "n = length rs - Suc k" "Suc k \<le> length rs" using Suc.prems(1) k by simp_all
  from Suc.IH [OF this its'(2)] show ?case
    using go its'(1) by (subst iterate_loop.simps) (simp add: step_iterators_def Cons_nth_drop_Suc [OF k, symmetric])
qed

lemma system_iterate_rel:
  assumes "system_rel p s b rs" "\<forall>j \<in> set js. j < length (component_params p)" "js \<noteq> []"
  shows "system_iterate p js s = Some (map (\<lambda>r. map ((!) (snd r)) js) rs)"
proof -
  have "list_all2 (\<lambda>j it. iterator_at (component_params p ! j) b (b + length rs) it (b + 0)) js (map (list_begin \<circ> snd) (component_lists p js s))"
    unfolding list_all2_conv_all_nth
  proof (intro conjI allI impI)
    fix i
    assume "i < length js"
    then have i: "js ! i < length (component_params p)" "i < length js" using assms(2) by simp_all
    then have "pool_rel (component_params p ! (js ! i)) (components s ! (js ! i)) b (map (\<lambda>r. snd r ! (js ! i)) rs)"
      using system_relD(2) [OF assms(1)] by (simp add: columns_rel_def)
    from pool_begin_end(1) [OF this] i(2)
    show "iterator_at (component_params p ! (js ! i)) b (b + length rs) (map (list_begin \<circ> snd) (component_lists p js s) ! i) (b + 0)"
      by (simp add: component_lists_def)
  qed (simp add: component_lists_def)
  from iterate_rel [OF assms refl _ this] show ?thesis by (simp add: system_iterate_def Let_def)
qed

text \<open>Every batch of \<open>iterate_batch\<close> starts at the same elements.\<close>

lemma batch_loop_same:
  assumes "batch_loop batch_count n i its = Some calls"
  shows "\<forall>c \<in> set calls. snd c = its"
proof (rule batch_loop.raw_induct [of "\<lambda>_ _ _ its calls. \<forall>c \<in> set calls. snd c = its", OF _ assms], goal_cases)
  case (1 loop batch_count n i its calls)
  show ?case
  proof (cases "i < n")
    case True
    with 1(2) obtain rest where "loop batch_count n (i + batch_count) its = Some rest" "calls = (min (i + batch_count) n - i, its) # rest"
      by (auto simp: step_iterators_def Let_def bind_eq_Some_conv)
    with 1(1) show ?thesis by fastforce
  qed (use 1(2) in simp)
qed

section \<open>Requests\<close>

datatype 'v system_request = Insert_Row size_t "'v list" | Remove_Row size_t | Compress_Rows | Clear_Rows

fun system_step :: "system_params_t \<Rightarrow> 'v system_request \<Rightarrow> 'v system_t \<Rightarrow> (bool \<times> 'v system_t) option" where
  "system_step p (Insert_Row e ts) s = system_insert p e ts s"
| "system_step p (Remove_Row e) s = system_remove p e s"
| "system_step p Compress_Rows s = Some (True, system_compress s)"
| "system_step p Clear_Rows s = map_option (Pair True) (system_clear p s)"

fun system_run :: "system_params_t \<Rightarrow> 'v system_request list \<Rightarrow> 'v system_t \<Rightarrow> (bool list \<times> 'v system_t) option" where
  "system_run p [] s = Some ([], s)"
| "system_run p (r # rs) s = do { (x, s1) \<leftarrow> system_step p r s; (xs, s2) \<leftarrow> system_run p rs s1; Some (x # xs, s2) }"

text \<open>The specification: a finite map from entities to their components.\<close>

fun map_request :: "'v system_request \<Rightarrow> (size_t \<rightharpoonup> 'v list) \<Rightarrow> bool \<times> (size_t \<rightharpoonup> 'v list)" where
  "map_request (Insert_Row e ts) m = (m e \<noteq> None, m(e \<mapsto> ts))"
| "map_request (Remove_Row e) m = (m e \<noteq> None, m(e := None))"
| "map_request Compress_Rows m = (True, m)"
| "map_request Clear_Rows m = (True, Map.empty)"

fun map_run :: "'v system_request list \<Rightarrow> (size_t \<rightharpoonup> 'v list) \<Rightarrow> bool list \<times> (size_t \<rightharpoonup> 'v list)" where
  "map_run [] m = ([], m)"
| "map_run (r # rs) m = (let (x, m1) = map_request r m; (xs, m2) = map_run rs m1 in (x # xs, m2))"

text \<open>
  What a run must respect: an insertion gives all components, and one of a new entity finds room in every list
  (\<^const>\<open>pool_room\<close>: it does not start a new node while the last is partly emptied).
\<close>

definition system_room :: "system_params_t \<Rightarrow> 'v system_t \<Rightarrow> bool" where
  "system_room p s \<longleftrightarrow>
     (\<forall>c \<in> set (entity_params p # component_params p). pool_room c (unat (list_begin_index (entities s))) (system_size p s)) \<and>
     list_end_index (entities s) < 0x3FFFFFFFFFFFFFFF"

fun request_ok :: "system_params_t \<Rightarrow> 'v system_request \<Rightarrow> 'v system_t \<Rightarrow> bool" where
  "request_ok p (Insert_Row e ts) s \<longleftrightarrow> length ts = length (component_params p) \<and> (system_valid e s \<or> system_room p s)"
| "request_ok p _ s \<longleftrightarrow> True"

fun requests_ok :: "system_params_t \<Rightarrow> 'v system_request list \<Rightarrow> 'v system_t \<Rightarrow> bool" where
  "requests_ok p [] s \<longleftrightarrow> True"
| "requests_ok p (r # rs) s \<longleftrightarrow> request_ok p r s \<and> (case system_step p r s of None \<Rightarrow> True | Some (_, s1) \<Rightarrow> requests_ok p rs s1)"

definition system_holds :: "system_params_t \<Rightarrow> 'v system_t \<Rightarrow> (size_t \<rightharpoonup> 'v list) \<Rightarrow> bool" where
  "system_holds p s m \<longleftrightarrow> (\<exists>b rs. system_rel p s b rs \<and> map_of rs = m)"

lemma holds_valid: "system_holds p s m \<Longrightarrow> system_valid e s \<longleftrightarrow> m e \<noteq> None"
  unfolding system_holds_def using system_valid_rel by (metis map_of_eq_None_iff)

lemma map_of_insert_row:
  assumes "distinct (map fst rs)" "k < length rs"
  shows "map_of (rs[k := (fst (rs ! k), ts)]) = (map_of rs)(fst (rs ! k) \<mapsto> ts)"
proof -
  have keys: "map fst (rs[k := (fst (rs ! k), ts)]) = map fst rs" using assms(2) by (metis fst_conv list_update_id map_update nth_map)
  have "map_of (rs[k := (fst (rs ! k), ts)]) e = ((map_of rs)(fst (rs ! k) \<mapsto> ts)) e" for e
  proof (cases "e = fst (rs ! k)")
    case True
    have "(e, ts) \<in> set (rs[k := (fst (rs ! k), ts)])" using assms(2) True by (metis length_list_update nth_list_update_eq nth_mem)
    then show ?thesis using True assms(1) keys by (metis fun_upd_same map_of_is_SomeI)
  next
    case False
    have "(e, x) \<in> set (rs[k := (fst (rs ! k), ts)]) \<longleftrightarrow> (e, x) \<in> set rs" for x
      unfolding in_set_conv_nth using False assms(2) by (auto simp: nth_list_update) (metis fst_conv)+
    then have "map_of (rs[k := (fst (rs ! k), ts)]) e = Some x \<longleftrightarrow> map_of rs e = Some x" for x
      using assms(1) keys by (metis map_of_SomeD map_of_is_SomeI)
    then show ?thesis using False by (metis fun_upd_other option.exhaust)
  qed
  then show ?thesis by (rule ext)
qed

lemma request_holds:
  assumes holds: "system_holds p s m" and ok: "request_ok p r s"
  shows "\<exists>s'. system_step p r s = Some (fst (map_request r m), s') \<and> system_holds p s' (snd (map_request r m))"
proof -
  from holds obtain b rs where rel: "system_rel p s b rs" and m: "map_of rs = m" by (auto simp: system_holds_def)
  note d = system_relD(4) [OF rel]
  have here: "m e \<noteq> None \<longleftrightarrow> e \<in> fst ` set rs" for e using m by (metis map_of_eq_None_iff)
  show ?thesis
  proof (cases r)
    case (Insert_Row e ts)
    show ?thesis
    proof (cases "e \<in> fst ` set rs")
      case True
      then obtain k where k: "k < length rs" "fst (rs ! k) = e" by (rule row_of)
      from system_insert_existing [OF rel k(1), of ts] ok Insert_Row k(2) map_of_insert_row [OF d k(1), of ts] m True here [of e]
      show ?thesis by (auto simp: system_holds_def)
    next
      case False
      then have "system_room p s" using ok Insert_Row system_valid_rel [OF rel] by auto
      moreover have "unat (list_begin_index (entities s)) = b"
        using pool_end_index(2) [OF system_relD(1) [OF rel]] system_relD(8) [OF rel] by (simp add: unat_of_nat)
      moreover have "unat (list_end_index (entities s)) = b + length rs"
        using pool_end_index(1) [OF system_relD(1) [OF rel]] system_relD(8) [OF rel] by (simp add: unat_of_nat del: of_nat_add)
      ultimately have "rows_room p b (length rs)"
        using system_size_rel [OF rel] by (simp add: system_room_def rows_room_def word_less_nat_alt)
      from system_insert_fresh [OF rel False _ this] ok Insert_Row obtain s' where
        s': "system_insert p e ts s = Some (False, s')" "system_rel p s' b (rs @ [(e, ts)])" by auto
      have "m e = None" using here [of e] False by blast
      then have "map_of (rs @ [(e, ts)]) = m(e \<mapsto> ts)" using m by (auto simp: map_add_def fun_eq_iff split: option.splits)
      with s'(2) have "system_holds p s' (m(e \<mapsto> ts))" unfolding system_holds_def by blast
      then show ?thesis using s'(1) Insert_Row \<open>m e = None\<close> by simp
    qed
  next
    case (Remove_Row e)
    show ?thesis
    proof (cases "e \<in> fst ` set rs")
      case True
      then obtain k where k: "k < length rs" "fst (rs ! k) = e" by (rule row_of)
      from system_remove_live [OF rel k(1)] fill_hole_map_of [OF d k(1)] k(2) m Remove_Row True here [of e]
      show ?thesis by (auto simp: system_holds_def)
    next
      case False
      then have "m(e := None) = m" using here [of e] by (auto simp: fun_upd_idem)
      then show ?thesis using system_remove_dead [OF rel False] Remove_Row False here [of e] holds by auto
    qed
  next
    case Compress_Rows
    then show ?thesis using system_compress_rel(1) [OF rel] m by (auto simp: system_holds_def)
  next
    case Clear_Rows
    then show ?thesis using system_clear_rel [OF rel] by (auto simp: system_holds_def intro!: exI [of _ "[]"])
  qed
qed

lemma run_holds:
  "system_holds p s m \<Longrightarrow> requests_ok p rs s \<Longrightarrow>
   \<exists>s'. system_run p rs s = Some (fst (map_run rs m), s') \<and> system_holds p s' (snd (map_run rs m))"
proof (induction rs arbitrary: s m)
  case (Cons r rs)
  from request_holds [OF Cons.prems(1), of r] Cons.prems(2) obtain s1 where
    s1: "system_step p r s = Some (fst (map_request r m), s1)" "system_holds p s1 (snd (map_request r m))" by auto
  from Cons.IH [OF s1(2)] Cons.prems(2) s1(1) show ?case by (auto simp: case_prod_beta)
qed simp

lemma make_holds: "system_params_ok p \<Longrightarrow> system_holds p (system_make p) Map.empty"
  unfolding system_holds_def by (intro exI conjI) (rule system_make_rel, assumption, simp)

lemma holds_rows:
  assumes "system_holds p s m"
  obtains b rs where "system_rel p s b rs" "map_of rs = m" "distinct (map fst rs)" "fst ` set rs = dom m"
  using assms system_relD(4) by (metis dom_map_of_conv_image_fst system_holds_def)

lemma holds_get:
  assumes "system_holds p s m" "m e = Some vs" "j < length (component_params p)"
  shows "system_get p j e s = Some (vs ! j)"
proof -
  from assms(1) obtain b rs where rs: "system_rel p s b rs" "map_of rs = m" "distinct (map fst rs)" by (rule holds_rows)
  from assms(2) rs(2) have "(e, vs) \<in> set rs" by (metis map_of_SomeD)
  then obtain k where "k < length rs" "rs ! k = (e, vs)" by (metis in_set_conv_nth)
  with system_get_rel [OF rs(1) _ assms(3), of k] show ?thesis by simp
qed

lemma holds_size: "system_holds p s m \<Longrightarrow> system_size p s = card (dom m)"
  by (erule holds_rows) (metis system_size_rel distinct_card length_map list.set_map)

lemma holds_iterate:
  assumes "system_holds p s m" "list_all (\<lambda>j. j < length (component_params p)) js" "js \<noteq> []"
  shows "\<exists>es. distinct es \<and> set es = dom m \<and> system_iterate p js s = Some (map (\<lambda>e. map ((!) (the (m e))) js) es)"
proof -
  from assms(1) obtain b rs where rs: "system_rel p s b rs" "map_of rs = m" "distinct (map fst rs)" "fst ` set rs = dom m" by (rule holds_rows)
  have row: "the (m (fst r)) = snd r" if "r \<in> set rs" for r using that rs(2,3) by (metis map_of_is_SomeI option.sel prod.collapse)
  have "system_iterate p js s = Some (map (\<lambda>e. map ((!) (the (m e))) js) (map fst rs))"
    using system_iterate_rel [OF rs(1) _ assms(3)] assms(2) row by (simp add: list_all_iff)
  then show ?thesis using rs(3,4) by (intro exI [of _ "map fst rs"]) simp
qed

section \<open>The entity allocator\<close>

lemma list_rel_budget: "list_rel c k l xs \<Longrightarrow> \<not> spsc_optimized c \<Longrightarrow> k' \<le> 2 ^ 32 \<Longrightarrow> list_rel c k' l xs"
proof -
  assume rel: "list_rel c k l xs" and c: "\<not> spsc_optimized c" "k' \<le> 2 ^ 32"
  have mono: "nodes_rel c k qs xss \<Longrightarrow> nodes_rel c k' qs xss" for qs :: "'a iris_queue_t list" and xss
    unfolding nodes_rel_def by (erule list_all2_mono) (blast intro: ring_rel_budget [OF _ c])
  from rel show ?thesis unfolding list_rel_def using c(2) mono by blast
qed

datatype allocator_request = Allocate_Entity | Free_Held nat

text \<open>A client that frees only entities it holds: \<open>Free_Held n\<close> frees the \<open>n\<close>-th of them.\<close>

fun allocator_step :: "queue_params_t \<Rightarrow> allocator_request \<Rightarrow> entity_allocator_t \<times> size_t list \<Rightarrow> (entity_allocator_t \<times> size_t list) option" where
  "allocator_step c Allocate_Entity (a, held) = map_option (\<lambda>(e, a1). (a1, e # held)) (entity_allocate c a)"
| "allocator_step c (Free_Held n) (a, held) =
     (if n < length held then map_option (\<lambda>a1. (a1, take n held @ drop (Suc n) held)) (entity_free c (held ! n) a)
      else Some (a, held))"

definition allocator_rel :: "queue_params_t \<Rightarrow> entity_allocator_t \<Rightarrow> size_t list \<Rightarrow> nat \<Rightarrow> bool" where
  "allocator_rel c a held n \<longleftrightarrow>
     n < 2 ^ 64 \<and> max_allocated_entity a = of_nat n \<and>
     (\<exists>free. list_rel c 0 (free_entities a) free \<and> distinct (held @ free) \<and> set (held @ free) = of_nat ` {0..<n})"

lemma entity_allocate_take:
  "entity_allocate c a = map_option (\<lambda>(x, l). case x of
       None \<Rightarrow> (max_allocated_entity a, a\<lparr>free_entities := l, max_allocated_entity := max_allocated_entity a + 1\<rparr>)
     | Some e \<Rightarrow> (e, a\<lparr>free_entities := l\<rparr>)) (list_take c False (free_entities a))"
  by (auto simp: entity_allocate_def list_take_def split: Option.bind_splits)

lemma allocator_step_rel:
  assumes rel: "allocator_rel c a held n" and c: "\<not> spsc_optimized c" and room: "Suc n < 2 ^ 64"
  shows "\<exists>a' held' n'. allocator_step c r (a, held) = Some (a', held') \<and> allocator_rel c a' held' n' \<and> n' \<le> Suc n"
proof -
  from rel obtain free where f: "list_rel c 0 (free_entities a) free" "distinct (held @ free)"
    "set (held @ free) = of_nat ` {0..<n}" "max_allocated_entity a = of_nat n" by (auto simp: allocator_rel_def)
  show ?thesis
  proof (cases r)
    case Allocate_Entity
    show ?thesis
    proof (cases free)
      case Nil
      from list_empty_rel [OF f(1)] Nil obtain l where l: "list_take c False (free_entities a) = Some (None, l)" "list_rel c 0 l []"
        by (auto simp: list_take_def)
      have new: "(of_nat n :: size_t) \<notin> of_nat ` {0..<n}"
      proof
        assume "(of_nat n :: size_t) \<in> of_nat ` {0..<n}"
        then obtain i where i: "i < n" "(of_nat n :: size_t) = of_nat i" by auto
        then have "unat (of_nat n :: size_t) = unat (of_nat i :: size_t)" by simp
        then show False using i(1) room by (simp add: unat_of_nat)
      qed
      have "set (of_nat n # held) = of_nat ` {0..<Suc n}" using f(3) Nil by (auto simp: less_Suc_eq)
      then have "allocator_rel c (a\<lparr>free_entities := l, max_allocated_entity := max_allocated_entity a + 1\<rparr>) (of_nat n # held) (Suc n)"
        using l(2) f(2-4) Nil new room by (auto simp: allocator_rel_def intro!: exI [of _ "[]"])
      then show ?thesis using Allocate_Entity l(1) f(4)
        by (intro exI [of _ "a\<lparr>free_entities := l, max_allocated_entity := max_allocated_entity a + 1\<rparr>"] exI [of _ "of_nat n # held"] exI [of _ "Suc n"])
          (simp add: entity_allocate_take)
    next
      case (Cons e rest)
      from list_take_rel [OF list_rel_budget [OF f(1) [unfolded Cons] c, of "Suc 0"], of False] c obtain l where
        l: "list_take c False (free_entities a) = Some (Some e, l)" "list_rel c 0 l rest" by auto
      have "allocator_rel c (a\<lparr>free_entities := l\<rparr>) (e # held) n"
        using l(2) f(2-4) Cons rel by (auto simp: allocator_rel_def intro!: exI [of _ rest])
      then show ?thesis using Allocate_Entity l(1)
        by (intro exI [of _ "a\<lparr>free_entities := l\<rparr>"] exI [of _ "e # held"] exI [of _ n]) (simp add: entity_allocate_take)
    qed
  next
    case (Free_Held i)
    show ?thesis
    proof (cases "i < length held")
      case True
      from list_push_rel [OF f(1), of "held ! i"] obtain l where
        l: "list_push c (held ! i) (free_entities a) = Some l" "list_rel c 0 l (free @ [held ! i])" by blast
      have held: "held = take i held @ held ! i # drop (Suc i) held" using True by (rule id_take_nth_drop)
      have d: "distinct ((take i held @ drop (Suc i) held) @ free @ [held ! i])" using f(2) by (subst (asm) held) auto
      have s: "set ((take i held @ drop (Suc i) held) @ free @ [held ! i]) = of_nat ` {0..<n}" unfolding f(3) [symmetric] by (subst (4) held) auto
      from d s have "allocator_rel c (a\<lparr>free_entities := l\<rparr>) (take i held @ drop (Suc i) held) n"
        unfolding allocator_rel_def using l(2) f(4) rel by (intro conjI exI [of _ "free @ [held ! i]"]) (simp_all add: allocator_rel_def)
      then show ?thesis using Free_Held True l(1) by (fastforce simp: entity_free_def)
    qed (use Free_Held rel in \<open>auto intro: le_SucI\<close>)
  qed
qed

lemma allocator_run_rel:
  "allocator_rel c a held n \<Longrightarrow> \<not> spsc_optimized c \<Longrightarrow> n + length reqs < 2 ^ 64 \<Longrightarrow>
   \<exists>a' held' n'. run_requests (\<lambda>x r. allocator_step c r x) (a, held) reqs = Some (a', held') \<and> allocator_rel c a' held' n' \<and> n' \<le> n + length reqs"
proof (induction reqs arbitrary: a held n)
  case (Cons r reqs)
  have "Suc n < 2 ^ 64 \<or> reqs = []" using Cons.prems(3) by auto
  from Cons.prems(3) have "Suc n < 2 ^ 64" by simp
  from allocator_step_rel [OF Cons.prems(1,2) this, of r] obtain a1 held1 n1 where
    s: "allocator_step c r (a, held) = Some (a1, held1)" "allocator_rel c a1 held1 n1" "n1 \<le> Suc n" by blast
  from Cons.IH [OF s(2) Cons.prems(2)] Cons.prems(3) s(1,3) show ?case by fastforce
qed auto

section \<open>Properties\<close>

text \<open>
  C11. The entity component system is a finite map from entities to component tuples: for every sequence of insertions,
  removals, compressions and clearings that finds room in the lists, no step is undefined, insertion and removal report
  whether the entity was there, and afterwards exactly the entities of the map are valid, \<open>get\<close> returns each of their components, and
  \<open>size\<close> counts them. Removal swaps the oldest row into the hole, tombstones are reused, and entities may be inserted again.
\<close>

theorem system_is_map:
  assumes "system_params_ok p" and "requests_ok p reqs (system_make p)"
  shows "\<exists>s. system_run p reqs (system_make p) = Some (fst (map_run reqs Map.empty), s) \<and>
    (\<forall>e. system_valid e s \<longleftrightarrow> snd (map_run reqs Map.empty) e \<noteq> None) \<and>
    (\<forall>e vs j. snd (map_run reqs Map.empty) e = Some vs \<longrightarrow> j < length (component_params p) \<longrightarrow> system_get p j e s = Some (vs ! j)) \<and>
    system_size p s = card (dom (snd (map_run reqs Map.empty)))"
proof -
  from run_holds [OF make_holds [OF assms(1)] assms(2)] obtain s where
    run: "system_run p reqs (system_make p) = Some (fst (map_run reqs Map.empty), s)" and
    holds: "system_holds p s (snd (map_run reqs Map.empty))" by blast
  show ?thesis
    using run holds_valid [OF holds] holds_get [OF holds] holds_size [OF holds] by (intro exI [of _ s] conjI) simp_all
qed

theorem system_is_map_witness:
  "\<exists>s. system_run \<lparr>component_params = [\<lparr>element_count = 2, spsc_optimized = False\<rparr>, \<lparr>element_count = 4, spsc_optimized = False\<rparr>],
       entity_params = \<lparr>element_count = 2, spsc_optimized = False\<rparr>\<rparr>
     [Insert_Row 7 [''a'', ''b''], Insert_Row 3 [''c'', ''d''], Insert_Row 9 [''e'', ''f''], Insert_Row 4 [''g'', ''h''],
      Remove_Row 3, Remove_Row 3, Insert_Row 9 [''i'', ''j'']]
     (system_make \<lparr>component_params = [\<lparr>element_count = 2, spsc_optimized = False\<rparr>, \<lparr>element_count = 4, spsc_optimized = False\<rparr>],
       entity_params = \<lparr>element_count = 2, spsc_optimized = False\<rparr>\<rparr>) =
       Some ([False, False, False, False, True, False, True], s) \<and>
     \<not> system_valid 3 s \<and> system_valid 7 s"
proof -
  let ?p = "\<lparr>component_params = [\<lparr>element_count = 2, spsc_optimized = False\<rparr>, \<lparr>element_count = 4, spsc_optimized = False\<rparr>],
       entity_params = \<lparr>element_count = 2, spsc_optimized = False\<rparr>\<rparr>"
  let ?reqs = "[Insert_Row 7 [''a'', ''b''], Insert_Row 3 [''c'', ''d''], Insert_Row 9 [''e'', ''f''], Insert_Row 4 [''g'', ''h''],
      Remove_Row 3, Remove_Row 3, Insert_Row 9 [''i'', ''j'']]"
  have "system_params_ok ?p" by (simp add: system_params_ok_def params_ok_def)
  moreover have "requests_ok ?p ?reqs (system_make ?p)" by code_simp
  moreover have "fst (map_run ?reqs Map.empty) = [False, False, False, False, True, False, True]" by simp
  moreover have "snd (map_run ?reqs Map.empty) 3 = None" "snd (map_run ?reqs Map.empty) 7 \<noteq> None" by simp_all
  ultimately show ?thesis using system_is_map [of ?p ?reqs] by (metis (no_types, lifting))
qed

text \<open>
  C13. Ranges: after any sequence of requests that finds room in the lists, \<open>filter\<close> and \<open>remove\<close> of an ascending range of entities work on its longest prefix of live
  entities and return the rest: \<open>filter\<close> calls its operation on the chosen components of each, in order, and after
  \<open>remove\<close> exactly the other entities are valid, each with all its components as before, and \<open>size\<close> counts them.
\<close>

theorem system_ranges:
  assumes "system_params_ok p" and "requests_ok p reqs (system_make p)" and "sorted_wrt (<) es"
    and "list_all (\<lambda>j. j < length (component_params p)) js"
  shows "\<exists>xs s s'. system_run p reqs (system_make p) = Some (xs, s) \<and>
    system_filter p js es s = Some (map (\<lambda>e. map ((!) (the (snd (map_run reqs Map.empty) e))) js)
        (takeWhile (\<lambda>e. snd (map_run reqs Map.empty) e \<noteq> None) es), dropWhile (\<lambda>e. snd (map_run reqs Map.empty) e \<noteq> None) es) \<and>
    system_remove_range p es s = Some (dropWhile (\<lambda>e. snd (map_run reqs Map.empty) e \<noteq> None) es, s') \<and>
    (\<forall>e. system_valid e s' \<longleftrightarrow> snd (map_run reqs Map.empty) e \<noteq> None \<and>
       e \<notin> set (takeWhile (\<lambda>e. snd (map_run reqs Map.empty) e \<noteq> None) es)) \<and>
    (\<forall>e vs j. snd (map_run reqs Map.empty) e = Some vs \<and> e \<notin> set (takeWhile (\<lambda>e. snd (map_run reqs Map.empty) e \<noteq> None) es) \<and>
       j < length (component_params p) \<longrightarrow> system_get p j e s' = Some (vs ! j)) \<and>
    system_size p s' = card (dom (snd (map_run reqs Map.empty)) - set (takeWhile (\<lambda>e. snd (map_run reqs Map.empty) e \<noteq> None) es))"
proof -
  define m where "m = snd (map_run reqs Map.empty)"
  from run_holds [OF make_holds [OF assms(1)] assms(2)] obtain s xs where
    run: "system_run p reqs (system_make p) = Some (xs, s)" "system_holds p s m" unfolding m_def by blast
  from run(2) obtain b rs where rs: "system_rel p s b rs" "map_of rs = m" "fst ` set rs = dom m" by (rule holds_rows)
  have live: "(\<lambda>e. e \<in> fst ` set rs) = (\<lambda>e. m e \<noteq> None)" using rs(3) by auto
  have js: "\<forall>j \<in> set js. j < length (component_params p)" using assms(4) by (simp add: list_all_iff)
  have filter: "system_filter p js es s = Some (map (\<lambda>e. map ((!) (the (m e))) js) (takeWhile (\<lambda>e. m e \<noteq> None) es), dropWhile (\<lambda>e. m e \<noteq> None) es)"
    using filter_ascending [OF rs(1) js assms(3), of 0] rs(2) unfolding live by (simp add: system_filter_def)
  from system_remove_range_rel [OF rs(1) assms(3)] rs(2) obtain s' b' rs' where
    rem: "system_remove_range p es s = Some (dropWhile (\<lambda>e. m e \<noteq> None) es, s')" "system_rel p s' b' rs'"
      "map_of rs' = m |` (- set (takeWhile (\<lambda>e. m e \<noteq> None) es))" unfolding live by blast
  have holds': "system_holds p s' (m |` (- set (takeWhile (\<lambda>e. m e \<noteq> None) es)))" using rem(2,3) unfolding system_holds_def by blast
  have "system_valid e s' \<longleftrightarrow> m e \<noteq> None \<and> e \<notin> set (takeWhile (\<lambda>e. m e \<noteq> None) es)" for e
    unfolding holds_valid [OF holds'] by (simp add: restrict_map_def)
  moreover have "system_get p j e s' = Some (vs ! j)"
    if "m e = Some vs \<and> e \<notin> set (takeWhile (\<lambda>e. m e \<noteq> None) es) \<and> j < length (component_params p)" for e vs j
    by (rule holds_get [OF holds']) (use that in auto)
  moreover have "system_size p s' = card (dom m - set (takeWhile (\<lambda>e. m e \<noteq> None) es))"
    unfolding holds_size [OF holds'] by (simp add: Diff_eq)
  ultimately show ?thesis using run(1) filter rem(1) unfolding m_def by blast
qed

theorem system_ranges_witness:
  "\<exists>xs s s'. system_run \<lparr>component_params = [\<lparr>element_count = 4, spsc_optimized = False\<rparr>], entity_params = \<lparr>element_count = 4, spsc_optimized = False\<rparr>\<rparr>
       [Insert_Row 7 [''a''], Insert_Row 3 [''c''], Insert_Row 9 [''e'']]
       (system_make \<lparr>component_params = [\<lparr>element_count = 4, spsc_optimized = False\<rparr>], entity_params = \<lparr>element_count = 4, spsc_optimized = False\<rparr>\<rparr>) =
       Some (xs, s) \<and>
     system_remove_range \<lparr>component_params = [\<lparr>element_count = 4, spsc_optimized = False\<rparr>], entity_params = \<lparr>element_count = 4, spsc_optimized = False\<rparr>\<rparr>
       [3, 7, 8, 9] s = Some ([8, 9], s') \<and> system_valid 9 s' \<and> \<not> system_valid 3 s' \<and>
     system_get \<lparr>component_params = [\<lparr>element_count = 4, spsc_optimized = False\<rparr>], entity_params = \<lparr>element_count = 4, spsc_optimized = False\<rparr>\<rparr> 0 9 s' = Some ''e''"
proof -
  let ?p = "\<lparr>component_params = [\<lparr>element_count = 4, spsc_optimized = False\<rparr>], entity_params = \<lparr>element_count = 4, spsc_optimized = False\<rparr>\<rparr>"
  let ?reqs = "[Insert_Row 7 [''a''], Insert_Row 3 [''c''], Insert_Row 9 [''e'']]"
  have "system_params_ok ?p" by (simp add: system_params_ok_def params_ok_def)
  moreover have "requests_ok ?p ?reqs (system_make ?p)" by code_simp
  moreover have m: "snd (map_run ?reqs Map.empty) = [7 \<mapsto> [''a''], 3 \<mapsto> [''c''], 9 \<mapsto> [''e'']]" by simp
  ultimately obtain xs s s' where w: "system_run ?p ?reqs (system_make ?p) = Some (xs, s)"
    "system_remove_range ?p [3, 7, 8, 9] s = Some ([8, 9], s')"
    "\<forall>e. system_valid e s' \<longleftrightarrow> [7 \<mapsto> [''a''], 3 \<mapsto> [''c''], 9 \<mapsto> [''e'']] e \<noteq> None \<and> e \<notin> {3, 7}"
    "system_get ?p 0 9 s' = Some ''e''"
    using system_ranges [of ?p ?reqs "[3, 7, 8, 9]" "[0]"] unfolding m by (auto simp del: system_run.simps requests_ok.simps)
  from w(3) have "system_valid 9 s'" "\<not> system_valid 3 s'" by simp_all
  with w(1,2,4) show ?thesis by metis
qed

text \<open>
  C12. After any sequence of requests that finds room in the lists \<open>iterate\<close> over one or more chosen component lists ends, meets no undefined behaviour, and calls its
  operation once for every live entity, on that entity's components: the iterators over the lists stay in step across the nodes of the chains.
\<close>

theorem system_iterates:
  assumes "system_params_ok p" and "requests_ok p reqs (system_make p)"
    and "list_all (\<lambda>j. j < length (component_params p)) js" and "js \<noteq> []"
  shows "\<exists>xs s es. system_run p reqs (system_make p) = Some (xs, s) \<and> distinct es \<and> set es = dom (snd (map_run reqs Map.empty)) \<and>
    system_iterate p js s = Some (map (\<lambda>e. map ((!) (the (snd (map_run reqs Map.empty) e))) js) es)"
proof -
  define m where "m = snd (map_run reqs Map.empty)"
  from run_holds [OF make_holds [OF assms(1)] assms(2)] obtain s xs where
    run: "system_run p reqs (system_make p) = Some (xs, s)" "system_holds p s m" unfolding m_def by blast
  from holds_iterate [OF run(2) assms(3,4)] run(1) show ?thesis unfolding m_def [symmetric] by blast
qed

theorem system_iterates_witness:
  "\<exists>xs s (es :: size_t list). system_run \<lparr>component_params = [\<lparr>element_count = 2, spsc_optimized = False\<rparr>], entity_params = \<lparr>element_count = 4, spsc_optimized = False\<rparr>\<rparr>
       [Insert_Row 7 [''a''], Insert_Row 3 [''c''], Insert_Row 9 [''e'']]
       (system_make \<lparr>component_params = [\<lparr>element_count = 2, spsc_optimized = False\<rparr>], entity_params = \<lparr>element_count = 4, spsc_optimized = False\<rparr>\<rparr>) =
       Some (xs, s) \<and> distinct es \<and> set es = {3, 7, 9} \<and>
     system_iterate \<lparr>component_params = [\<lparr>element_count = 2, spsc_optimized = False\<rparr>], entity_params = \<lparr>element_count = 4, spsc_optimized = False\<rparr>\<rparr> [0] s =
       Some (map (\<lambda>e. [if e = 7 then ''a'' else if e = 3 then ''c'' else ''e'']) es)"
proof -
  let ?p = "\<lparr>component_params = [\<lparr>element_count = 2, spsc_optimized = False\<rparr>], entity_params = \<lparr>element_count = 4, spsc_optimized = False\<rparr>\<rparr>"
  let ?reqs = "[Insert_Row 7 [''a''], Insert_Row 3 [''c''], Insert_Row 9 [''e'']]"
  have "system_params_ok ?p" by (simp add: system_params_ok_def params_ok_def)
  moreover have "requests_ok ?p ?reqs (system_make ?p)" by code_simp
  moreover have m: "snd (map_run ?reqs Map.empty) = [7 \<mapsto> [''a''], 3 \<mapsto> [''c''], 9 \<mapsto> [''e'']]" by simp
  ultimately obtain xs s and es :: "size_t list" where w: "system_run ?p ?reqs (system_make ?p) = Some (xs, s)" "distinct es" "set es = {3, 7, 9}"
    "system_iterate ?p [0] s = Some (map (\<lambda>e. map ((!) (the ([7 \<mapsto> [''a''], 3 \<mapsto> [''c''], 9 \<mapsto> [''e'']] e))) [0]) es)"
    using system_iterates [of ?p ?reqs "[0]"] unfolding m by (auto simp: insert_commute simp del: system_run.simps requests_ok.simps)
  have "map (\<lambda>e. map ((!) (the ([7 \<mapsto> [''a''], 3 \<mapsto> [''c''], 9 \<mapsto> [''e'']] e))) [0]) es =
      map (\<lambda>e. [if e = 7 then ''a'' else if e = 3 then ''c'' else ''e'']) es"
    using w(3) by (intro map_cong refl) auto
  from w(4) [unfolded this] w(1-3) show ?thesis by (intro exI conjI)
qed

text \<open>
  The entity allocator hands out no entity twice: however a client interleaves allocations with frees of entities it holds, the entities it
  holds are distinct, and smaller than the number of requests.
\<close>

theorem entity_allocator_distinct:
  assumes "params_ok c" and "\<not> spsc_optimized c" and "length reqs < 2 ^ 64"
  shows "\<exists>a held. run_requests (\<lambda>x r. allocator_step c r x) (allocator_make c, []) reqs = Some (a, held) \<and>
    distinct held \<and> (\<forall>e. e \<in> set held \<longrightarrow> unat e < length reqs)"
proof -
  have "allocator_rel c (allocator_make c) [] 0"
    using list_rel_make [OF assms(1), of 0] by (auto simp: allocator_rel_def allocator_make_def intro!: exI [of _ "[]"])
  from allocator_run_rel [OF this assms(2), of reqs] assms(3) obtain a held n where
    run: "run_requests (\<lambda>x r. allocator_step c r x) (allocator_make c, []) reqs = Some (a, held)" "allocator_rel c a held n" "n \<le> length reqs"
    by auto
  have "unat e < length reqs" if "e \<in> set held" for e
  proof -
    from run(2) that obtain i where "i < n" "e = of_nat i" by (fastforce simp: allocator_rel_def)
    then show ?thesis using run(3) assms(3) by (simp add: unat_of_nat)
  qed
  with run(1,2) show ?thesis by (auto simp: allocator_rel_def)
qed

theorem entity_allocator_distinct_witness:
  "\<exists>a held. run_requests (\<lambda>x r. allocator_step \<lparr>element_count = 2, spsc_optimized = False\<rparr> r x)
      (allocator_make \<lparr>element_count = 2, spsc_optimized = False\<rparr>, []) [Allocate_Entity, Allocate_Entity, Free_Held 1, Allocate_Entity, Allocate_Entity] =
      Some (a, held) \<and> distinct held"
  using entity_allocator_distinct [of "\<lparr>element_count = 2, spsc_optimized = False\<rparr>"
      "[Allocate_Entity, Allocate_Entity, Free_Held 1, Allocate_Entity, Allocate_Entity]"]
  by (auto simp: params_ok_def simp del: run_requests.simps)

section \<open>Where the lists fall out of step\<close>

text \<open>
  Two elements to a node: after two insertions, a removal and an insertion the new entity is valid, but its
  component is looked up in a node that does not exist.
\<close>

lemma reinserted_entity_lost:
  "map_option (\<lambda>(xs, s). (system_valid 3 s, system_get
       \<lparr>component_params = [\<lparr>element_count = 2, spsc_optimized = False\<rparr>], entity_params = \<lparr>element_count = 2, spsc_optimized = False\<rparr>\<rparr> 0 3 s))
     (system_run \<lparr>component_params = [\<lparr>element_count = 2, spsc_optimized = False\<rparr>], entity_params = \<lparr>element_count = 2, spsc_optimized = False\<rparr>\<rparr>
       [Insert_Row 1 [''a''], Insert_Row 2 [''b''], Remove_Row 1, Insert_Row 3 [''c'']]
       (system_make \<lparr>component_params = [\<lparr>element_count = 2, spsc_optimized = False\<rparr>], entity_params = \<lparr>element_count = 2, spsc_optimized = False\<rparr>\<rparr>))
   = Some (True, None)"
  by code_simp

text \<open>With three entities, batches of two are announced as two elements and one element, both from the first on: the third is never passed.\<close>

lemma iterate_batch_repeats:
  "map_option (\<lambda>(xs, s). system_iterate_batch
       \<lparr>component_params = [\<lparr>element_count = 4, spsc_optimized = False\<rparr>], entity_params = \<lparr>element_count = 4, spsc_optimized = False\<rparr>\<rparr> [0] 2 s)
     (system_run \<lparr>component_params = [\<lparr>element_count = 4, spsc_optimized = False\<rparr>], entity_params = \<lparr>element_count = 4, spsc_optimized = False\<rparr>\<rparr>
       [Insert_Row 1 [''a''], Insert_Row 2 [''b''], Insert_Row 3 [''c'']]
       (system_make \<lparr>component_params = [\<lparr>element_count = 4, spsc_optimized = False\<rparr>], entity_params = \<lparr>element_count = 4, spsc_optimized = False\<rparr>\<rparr>))
   = Some (Some [(2, [(0, 0)]), (1, [(0, 0)])])"
  by code_simp

end
