(* ===== verification/Systems.thy ===== *)
theory Systems
  imports Entity_System
begin

text \<open>
  The registry \<open>iris_systems_t\<close> of \<open>iris_system.h\<close>: the attached systems, each with a vector sorted by type hash
  that finds its component lists, and the operations that go over all of them. The memory maps the address of a system to its state, and
  \<open>P\<close> to its parameters. A hash is a number; the entry for the list of the entities themselves is left out of
  the vector, so operations are called on components only.
\<close>

section \<open>The registry\<close>

record system_info_t =
  address :: nat
  type_lists :: "(size_t, nat) iris_key_value_t list"

text \<open>\<open>attach\<close> and \<open>generate_info\<close>, for a system with component types of the given hashes.\<close>

definition systems_attach :: "nat \<Rightarrow> size_t list \<Rightarrow> system_info_t list \<Rightarrow> system_info_t list" where
  "systems_attach a hashes infos =
     infos @ [\<lparr>address = a, type_lists = sort_key fst (zip hashes [0..<length hashes])\<rparr>]"

fun systems_detach :: "nat \<Rightarrow> system_info_t list \<Rightarrow> system_info_t list" where
  "systems_detach a [] = []"
| "systems_detach a (i # infos) = (if address i = a then infos else i # systems_detach a infos)"

fun systems_compress :: "system_info_t list \<Rightarrow> (nat \<Rightarrow> 'v system_t) \<Rightarrow> nat \<Rightarrow> 'v system_t" where
  "systems_compress [] mem = mem"
| "systems_compress (i # infos) mem = systems_compress infos (mem(address i := system_compress (mem (address i))))"

fun systems_remove :: "(nat \<Rightarrow> system_params_t) \<Rightarrow> size_t \<Rightarrow> system_info_t list \<Rightarrow> (nat \<Rightarrow> 'v system_t) \<Rightarrow>
    (nat \<times> (nat \<Rightarrow> 'v system_t)) option" where
  "systems_remove P e [] mem = Some (0, mem)"
| "systems_remove P e (i # infos) mem = do {
     (removed, s) \<leftarrow> system_remove (P (address i)) e (mem (address i));
     (count, mem1) \<leftarrow> systems_remove P e infos (mem(address i := s));
     Some (of_bool removed + count, mem1)
   }"

fun systems_clear :: "(nat \<Rightarrow> system_params_t) \<Rightarrow> system_info_t list \<Rightarrow> (nat \<Rightarrow> 'v system_t) \<Rightarrow> (nat \<Rightarrow> 'v system_t) option" where
  "systems_clear P [] mem = Some mem"
| "systems_clear P (i # infos) mem = do {
     s \<leftarrow> system_clear (P (address i)) (mem (address i));
     systems_clear P infos (mem(address i := s))
   }"

definition systems_reset :: "system_info_t list \<Rightarrow> system_info_t list" where
  "systems_reset infos = []"

section \<open>Systems that have all the components asked for\<close>

fun match_iterators :: "size_t list \<Rightarrow> system_info_t \<Rightarrow> nat list option" where
  "match_iterators [] info = Some []"
| "match_iterators (h # hs) info =
     (let v = type_lists info; it = iris_binary_find key_value_less v (h, 0) in
      if it \<noteq> length v then map_option ((#) (snd (v ! it))) (match_iterators hs info) else None)"

fun systems_iterate :: "(nat \<Rightarrow> system_params_t) \<Rightarrow> size_t list \<Rightarrow> system_info_t list \<Rightarrow> (nat \<Rightarrow> 'v system_t) \<Rightarrow> 'v list list option" where
  "systems_iterate P hs [] mem = Some []"
| "systems_iterate P hs (i # infos) mem =
     (case match_iterators hs i of
        None \<Rightarrow> systems_iterate P hs infos mem
      | Some js \<Rightarrow> do {
          xs \<leftarrow> system_iterate (P (address i)) js (mem (address i));
          ys \<leftarrow> systems_iterate P hs infos mem;
          Some (xs @ ys)
        })"

text \<open>
  \<open>filter\<close> on one system. It means to step its iterators from the last entity's index to the next one's,
  but \<^const>\<open>step_iterators\<close> moves none, and \<open>last_index\<close> stays zero.
\<close>

fun systems_filter_loop :: "(queue_params_t \<times> 'v queue_list_t) list \<Rightarrow> (size_t, size_t) iris_key_value_t list \<Rightarrow> nat \<Rightarrow> list_iterator_t list \<Rightarrow>
    list_iterator_t list \<Rightarrow> size_t list \<Rightarrow> 'v list list option" where
  "systems_filter_loop ls v ip first its [] = Some []"
| "systems_filter_loop ls v ip first its (e # es) =
     (let ip1 = find_entity v ip (length v) e in
      if ip1 = length v \<or> snd (v ! ip1) = tombstone then Some []
      else do {
        let its1 = (if 0 < snd (v ! ip1) then first else its);
        (xs, its2) \<leftarrow> do_operation ls (step_iterators its1 (unat (snd (v ! ip1))));
        rest \<leftarrow> systems_filter_loop ls v ip1 first its2 es;
        Some (xs # rest)
      })"

fun systems_filter :: "(nat \<Rightarrow> system_params_t) \<Rightarrow> size_t list \<Rightarrow> size_t list \<Rightarrow> system_info_t list \<Rightarrow> (nat \<Rightarrow> 'v system_t) \<Rightarrow>
    'v list list option" where
  "systems_filter P hs es [] mem = Some []"
| "systems_filter P hs es (i # infos) mem =
     (case match_iterators hs i of
        None \<Rightarrow> systems_filter P hs es infos mem
      | Some js \<Rightarrow> do {
          let ls = component_lists (P (address i)) js (mem (address i));
          let first = map (list_begin \<circ> snd) ls;
          xs \<leftarrow> systems_filter_loop ls (entity_components (mem (address i))) 0 first first es;
          ys \<leftarrow> systems_filter P hs es infos mem;
          Some (xs @ ys)
        })"

section \<open>All systems at once\<close>

lemma holds_remove:
  assumes "system_holds p s m"
  shows "\<exists>s'. system_remove p e s = Some (m e \<noteq> None, s') \<and> system_holds p s' (m(e := None))"
  using request_holds [OF assms, of "Remove_Row e"] by simp

text \<open>
  Removing an entity removes it from every attached system, leaves every other system and entity alone, and counts the systems that had it.
\<close>

theorem systems_remove_everywhere:
  assumes "list_all (\<lambda>i. system_holds (P (address i)) (mem (address i)) (m (address i))) infos" and "distinct (map address infos)"
  shows "\<exists>mem'. systems_remove P e infos mem = Some (length (filter (\<lambda>i. m (address i) e \<noteq> None) infos), mem') \<and>
    (\<forall>a. if a \<in> address ` set infos then system_holds (P a) (mem' a) ((m a)(e := None)) else mem' a = mem a)"
  using assms
proof (induction infos arbitrary: mem)
  case Nil
  then show ?case by simp
next
  case (Cons i infos)
  let ?a = "address i"
  from Cons.prems(1) holds_remove [of "P ?a" "mem ?a" "m ?a" e] obtain s where
    s: "system_remove (P ?a) e (mem ?a) = Some (m ?a e \<noteq> None, s)" "system_holds (P ?a) s ((m ?a)(e := None))" by auto
  have "list_all (\<lambda>i. system_holds (P (address i)) ((mem(?a := s)) (address i)) (m (address i))) infos"
    using Cons.prems by (auto simp: list_all_iff) (metis image_eqI)
  moreover have "distinct (map address infos)" using Cons.prems(2) by simp
  ultimately obtain mem' where
    mem': "systems_remove P e infos (mem(?a := s)) = Some (length (filter (\<lambda>i. m (address i) e \<noteq> None) infos), mem')"
    "\<forall>a. if a \<in> address ` set infos then system_holds (P a) (mem' a) ((m a)(e := None)) else mem' a = (mem(?a := s)) a"
    using Cons.IH [of "mem(?a := s)"] by blast
  have "mem' ?a = s" using mem'(2) [rule_format, of ?a] Cons.prems(2) by simp
  then have "\<forall>a. if a \<in> address ` set (i # infos) then system_holds (P a) (mem' a) ((m a)(e := None)) else mem' a = mem a"
    using mem'(2) s(2) by auto
  then show ?case using s(1) mem'(1) by (intro exI [of _ mem']) simp
qed

theorem systems_remove_everywhere_witness:
  "\<exists>mem'. systems_remove (\<lambda>_. \<lparr>component_params = [], entity_params = \<lparr>element_count = 2, spsc_optimized = False\<rparr>\<rparr>) 5
      [\<lparr>address = 0, type_lists = []\<rparr>, \<lparr>address = 1, type_lists = []\<rparr>]
      (\<lambda>_. system_make \<lparr>component_params = [], entity_params = \<lparr>element_count = 2, spsc_optimized = False\<rparr>\<rparr> :: nat system_t) =
    Some (0, mem')"
proof -
  let ?p = "\<lparr>component_params = [], entity_params = \<lparr>element_count = 2, spsc_optimized = False\<rparr>\<rparr>"
  have "system_holds ?p (system_make ?p :: nat system_t) Map.empty"
    by (rule make_holds) (simp add: system_params_ok_def params_ok_def)
  then show ?thesis
    using systems_remove_everywhere [of "\<lambda>_. ?p" "\<lambda>_. system_make ?p :: nat system_t" "\<lambda>_. Map.empty"
        "[\<lparr>address = 0, type_lists = []\<rparr>, \<lparr>address = 1, type_lists = []\<rparr>]" 5] by auto
qed

text \<open>Iterating over all systems visits every entity of every system that has the components, and no other system.\<close>

lemma systems_iterate_visits:
  assumes "list_all (\<lambda>i. system_holds (P (address i)) (mem (address i)) (m (address i)) \<and>
      (case match_iterators hs i of None \<Rightarrow> True | Some js \<Rightarrow> js \<noteq> [] \<and> list_all (\<lambda>j. j < length (component_params (P (address i)))) js)) infos"
  shows "\<exists>ess. systems_iterate P hs infos mem = Some (concat (map2 (\<lambda>i es. map (\<lambda>e. map ((!) (the (m (address i) e))) (the (match_iterators hs i))) es)
      (filter (\<lambda>i. match_iterators hs i \<noteq> None) infos) ess)) \<and>
    list_all2 (\<lambda>i es. distinct es \<and> set es = dom (m (address i))) (filter (\<lambda>i. match_iterators hs i \<noteq> None) infos) ess"
  using assms
proof (induction infos)
  case (Cons i infos)
  then obtain ess where ih: "systems_iterate P hs infos mem = Some (concat (map2 (\<lambda>i es. map (\<lambda>e. map ((!) (the (m (address i) e))) (the (match_iterators hs i))) es)
      (filter (\<lambda>i. match_iterators hs i \<noteq> None) infos) ess))"
    "list_all2 (\<lambda>i es. distinct es \<and> set es = dom (m (address i))) (filter (\<lambda>i. match_iterators hs i \<noteq> None) infos) ess" by auto
  show ?case
  proof (cases "match_iterators hs i")
    case None
    with ih show ?thesis by auto
  next
    case (Some js)
    with Cons.prems holds_iterate [of "P (address i)" "mem (address i)" "m (address i)" js] obtain es where
      "distinct es" "set es = dom (m (address i))"
      "system_iterate (P (address i)) js (mem (address i)) = Some (map (\<lambda>e. map ((!) (the (m (address i) e))) js) es)" by auto
    with ih Some show ?thesis by (intro exI [of _ "es # ess"]) simp
  qed
qed simp

text \<open>With two entities in a system, \<open>filter\<close> for the second one is called on the components of the first.\<close>

lemma systems_filter_wrong_row:
  "(case system_run \<lparr>component_params = [\<lparr>element_count = 4, spsc_optimized = False\<rparr>], entity_params = \<lparr>element_count = 4, spsc_optimized = False\<rparr>\<rparr>
       [Insert_Row 1 [''a''], Insert_Row 2 [''b'']]
       (system_make \<lparr>component_params = [\<lparr>element_count = 4, spsc_optimized = False\<rparr>], entity_params = \<lparr>element_count = 4, spsc_optimized = False\<rparr>\<rparr>)
    of None \<Rightarrow> None
     | Some (xs, s) \<Rightarrow> systems_filter
         (\<lambda>_. \<lparr>component_params = [\<lparr>element_count = 4, spsc_optimized = False\<rparr>], entity_params = \<lparr>element_count = 4, spsc_optimized = False\<rparr>\<rparr>)
         [17] [2] (systems_attach 0 [17] []) (\<lambda>_. s))
   = Some [[''a'']]"
  by code_simp

end
