(* ===== verification/Root_Allocator.thy ===== *)
theory Root_Allocator
  imports Algorithms
begin

text \<open>
  The allocator of blocks \<open>iris_root_allocator_t\<close> of \<open>iris_common.h\<close>: large regions from the system, each cut into \<open>total_count\<close> blocks of
  \<open>alloc_size\<close> bytes, with a bitmap of the blocks in use. The address of a new region comes from \<open>iris_alloc_aligned\<close> and is an argument. Addresses
  are naturals. Code under the lock is one step: \<open>allocate\<close> is the scan and, when that finds nothing, the step that enters the new region.
\<close>

section \<open>State and operations\<close>

definition word_bits :: nat where
  "word_bits = 64"

record root_params_t =
  alloc_size :: nat
  total_count :: nat

definition bitmap_count :: "root_params_t \<Rightarrow> nat" where
  "bitmap_count c = (total_count c + word_bits - 1) div word_bits"

record block_t =
  block_address :: nat
  block_bitmap :: "size_t list"

text \<open>The lowest clear bit of one word of the bitmap; there is none when the addition wraps.\<close>

definition free_bit :: "size_t \<Rightarrow> size_t" where
  "free_bit bitmap = (let b = bitmap + 1 in b AND (NOT b + 1))"

fun take_in_words :: "root_params_t \<Rightarrow> nat \<Rightarrow> size_t list \<Rightarrow> (nat \<times> size_t list) option" where
  "take_in_words c n [] = None"
| "take_in_words c n (w # ws) =
     (let b = free_bit w; index = iris_get_trailing_zeros b + n * word_bits in
      if b \<noteq> 0 \<and> index < total_count c then Some (index, (w OR b) # ws)
      else map_option (apsnd ((#) w)) (take_in_words c (n + 1) ws))"

fun root_scan :: "root_params_t \<Rightarrow> block_t list \<Rightarrow> (nat \<times> block_t list) option" where
  "root_scan c [] = None"
| "root_scan c (b # bs) =
     (case take_in_words c 0 (block_bitmap b) of
        Some (index, ws) \<Rightarrow> Some (block_address b + index * alloc_size c, b\<lparr>block_bitmap := ws\<rparr> # bs)
      | None \<Rightarrow> map_option (apsnd ((#) b)) (root_scan c bs))"

definition root_append :: "root_params_t \<Rightarrow> nat \<Rightarrow> block_t list \<Rightarrow> block_t list" where
  "root_append c fresh bs =
     bs @ [\<lparr>block_address = fresh, block_bitmap = (replicate (bitmap_count c) 0)[0 := 1]\<rparr>]"

definition root_allocate :: "root_params_t \<Rightarrow> nat \<Rightarrow> block_t list \<Rightarrow> nat \<times> block_t list" where
  "root_allocate c fresh bs =
     (case root_scan c bs of Some r \<Rightarrow> r | None \<Rightarrow> (fresh, root_append c fresh bs))"

text \<open>\<open>deallocate\<close> also returns the region to give back to the system, if any.\<close>

fun root_deallocate :: "root_params_t \<Rightarrow> nat \<Rightarrow> block_t list \<Rightarrow> nat option \<times> block_t list" where
  "root_deallocate c p [] = (None, [])"
| "root_deallocate c p (b # bs) =
     (if p \<ge> block_address b \<and> p < block_address b + alloc_size c * total_count c then
        let index = (p - block_address b) div alloc_size c;
            page = index div word_bits;
            off = index mod word_bits;
            ws = (block_bitmap b)[page := block_bitmap b ! page AND NOT (push_bit off 1)]
        in if ws ! page = 0 \<and> list_all (\<lambda>w. w = 0) ws then (Some (block_address b), bs)
           else (None, b\<lparr>block_bitmap := ws\<rparr> # bs)
      else apsnd ((#) b) (root_deallocate c p bs))"

section \<open>Bits\<close>

lemma free_bit_alignment: "free_bit w = iris_get_alignment (w + 1)"
  by (simp add: free_bit_def iris_get_alignment_def Let_def)

text \<open>Adding one flips the lowest clear bit and clears the set bits below it.\<close>

lemma lowest_clear_bit:
  assumes "w + 1 \<noteq> (0 :: 'a :: len word)"
  shows "\<not> bit w (iris_get_trailing_zeros (w + 1))"
proof -
  let ?v = "w + 1" and ?i = "iris_get_trailing_zeros (w + 1)"
  from trailing_zeros_spec [OF assms] have i: "bit ?v ?i" "\<And>j. j < ?i \<Longrightarrow> \<not> bit ?v j" by auto
  have "take_bit ?i ?v = 0" by (rule bit_eqI) (auto simp: bit_take_bit_iff i(2))
  then have dvd: "2 ^ ?i dvd unat ?v"
    by (metis take_bit_eq_mod dvd_eq_mod_eq_0 unsigned_take_bit_eq unsigned_0)
  have ubit: "bit (unat x) n \<longleftrightarrow> bit x n" for x :: "'a word" and n by (simp add: bit_unsigned_iff)
  have odd: "odd (unat ?v div 2 ^ ?i)" using i(1) ubit [of ?v ?i] by (metis bit_iff_odd)
  from dvd obtain q where q: "unat ?v = 2 ^ ?i * q" by blast
  then have oq: "odd q" using odd by simp
  have w: "unat w = 2 ^ ?i * q - 1"
    using q assms unat_minus_one [of ?v] by simp
  have "q = Suc (q - 1)" using oq by (cases q) auto
  then have "2 ^ ?i * q = 2 ^ ?i + (q - 1) * 2 ^ ?i" by (metis mult.commute mult_Suc)
  moreover have "(1 :: nat) \<le> 2 ^ ?i" by simp
  ultimately have "unat w = (2 ^ ?i - 1) + (q - 1) * 2 ^ ?i" using w by (metis Nat.add_diff_assoc2)
  then have "unat w div 2 ^ ?i = q - 1 + (2 ^ ?i - 1) div 2 ^ ?i" by (metis div_mult_self1 power_not_zero zero_neq_numeral)
  then have "unat w div 2 ^ ?i = q - 1" by simp
  then have "\<not> bit (unat w) ?i" using oq by (simp only: bit_iff_odd) simp
  then show ?thesis by (simp only: ubit not_False_eq_True)
qed

lemma free_bit_spec:
  assumes "free_bit w \<noteq> 0"
  shows "free_bit w = push_bit (iris_get_trailing_zeros (free_bit w)) 1" "iris_get_trailing_zeros (free_bit w) < word_bits"
    "\<not> bit w (iris_get_trailing_zeros (free_bit w))"
proof -
  have v: "w + 1 \<noteq> 0" using assms by (auto simp: free_bit_def)
  let ?i = "iris_get_trailing_zeros (w + 1)"
  have i: "bit (w + 1) ?i" using trailing_zeros_spec [OF v] by blast
  then have lt: "?i < 64" using bit_imp_le_length [of "w + 1" ?i] by simp
  have f: "free_bit w = push_bit ?i 1" unfolding free_bit_alignment by (rule get_alignment_spec [OF v])
  have "iris_get_trailing_zeros (push_bit ?i (1 :: size_t)) = ?i"
    using lt by (intro trailing_zeros_unique) (auto simp: bit_exp_iff)
  then show "free_bit w = push_bit (iris_get_trailing_zeros (free_bit w)) 1" "iris_get_trailing_zeros (free_bit w) < word_bits"
    "\<not> bit w (iris_get_trailing_zeros (free_bit w))"
    using f lt lowest_clear_bit [OF v] by (simp_all add: word_bits_def)
qed

lemma bit_set_bit: "i < word_bits \<Longrightarrow> bit ((w :: size_t) OR 2 ^ i) j \<longleftrightarrow> bit w j \<or> j = i"
  by (auto simp: bit_or_iff bit_exp_iff word_bits_def)

lemma bit_clear_bit: "bit ((w :: size_t) AND NOT (2 ^ i)) j \<longleftrightarrow> bit w j \<and> j \<noteq> i"
  by (auto simp: bit_and_iff bit_not_iff bit_exp_iff intro: ccontr dest: bit_imp_le_length)

lemma word_zero_bits: "(w :: size_t) = 0 \<longleftrightarrow> (\<forall>j < word_bits. \<not> bit w j)"
  by (auto simp: word_bits_def intro!: bit_eqI dest: bit_imp_le_length)

section \<open>The bitmap of a block\<close>

definition used :: "root_params_t \<Rightarrow> block_t \<Rightarrow> nat \<Rightarrow> bool" where
  "used c b i \<longleftrightarrow> i < total_count c \<and> bit (block_bitmap b ! (i div word_bits)) (i mod word_bits)"

text \<open>A bitmap of the right length, with no bit set beyond the last block.\<close>

definition bitmap_ok :: "root_params_t \<Rightarrow> size_t list \<Rightarrow> bool" where
  "bitmap_ok c ws \<longleftrightarrow> length ws = bitmap_count c \<and>
     (\<forall>i < bitmap_count c * word_bits. bit (ws ! (i div word_bits)) (i mod word_bits) \<longrightarrow> i < total_count c)"

lemma bitmap_covers: "total_count c \<le> bitmap_count c * word_bits"
  unfolding bitmap_count_def word_bits_def using div_mult_mod_eq [of "total_count c + 64 - 1" 64] mod_less_divisor [of 64 "total_count c + 64 - 1"]
  by linarith

lemma page_bound: "i < total_count c \<Longrightarrow> i div word_bits < bitmap_count c"
  using bitmap_covers [of c] by (metis less_le_trans less_mult_imp_div_less)

lemma mod_word_bits [simp]: "i mod word_bits < word_bits"
  by (simp add: word_bits_def)

lemma take_in_words_spec:
  "take_in_words c n ws = Some (index, ws') \<Longrightarrow>
   \<exists>k < length ws. index div word_bits = n + k \<and> index < total_count c \<and> \<not> bit (ws ! k) (index mod word_bits) \<and>
     ws' = ws[k := ws ! k OR push_bit (index mod word_bits) 1]"
proof (induction c n ws arbitrary: ws' rule: take_in_words.induct)
  case (2 c n w ws)
  let ?t = "iris_get_trailing_zeros (free_bit w)"
  show ?case
  proof (cases "free_bit w \<noteq> 0 \<and> ?t + n * word_bits < total_count c")
    case True
    note f = free_bit_spec [of w]
    have "(?t + n * word_bits) div word_bits = n" "(?t + n * word_bits) mod word_bits = ?t"
      using f(2) True by (simp_all add: word_bits_def)
    moreover have "index = ?t + n * word_bits" "ws' = (w OR free_bit w) # ws" using True "2.prems" by (auto simp: Let_def)
    ultimately show ?thesis using True f by (intro exI [of _ 0]) simp
  next
    case False
    then obtain vs where vs: "take_in_words c (n + 1) ws = Some (index, vs)" "ws' = w # vs"
      using "2.prems" by (auto simp: Let_def)
    from "2.IH" [OF refl refl False vs(1)] obtain k where "k < length ws" "index div word_bits = n + 1 + k" "index < total_count c"
      "\<not> bit (ws ! k) (index mod word_bits)" "vs = ws[k := ws ! k OR push_bit (index mod word_bits) 1]" by blast
    then show ?thesis using vs(2) by (intro exI [of _ "Suc k"]) simp
  qed
qed simp

lemma nat_index_eq: "(i :: nat) = j \<longleftrightarrow> i div word_bits = j div word_bits \<and> i mod word_bits = j mod word_bits"
  by (metis div_mult_mod_eq)

lemma set_index:
  assumes "bitmap_ok c (block_bitmap b)" "index < total_count c"
    and "ws = (block_bitmap b)[index div word_bits := block_bitmap b ! (index div word_bits) OR push_bit (index mod word_bits) 1]"
  shows "bitmap_ok c ws" "used c (b\<lparr>block_bitmap := ws\<rparr>) i \<longleftrightarrow> used c b i \<or> i = index"
proof -
  have page: "index div word_bits < length (block_bitmap b)" using assms(1,2) page_bound by (simp add: bitmap_ok_def)
  have bits: "bit (ws ! (j div word_bits)) (j mod word_bits) \<longleftrightarrow> bit (block_bitmap b ! (j div word_bits)) (j mod word_bits) \<or> j = index"
    if "j div word_bits < length (block_bitmap b)" for j
    using that page nat_index_eq [of j index] unfolding assms(3) by (cases "j div word_bits = index div word_bits") (auto simp: bit_set_bit)
  show "bitmap_ok c ws" unfolding bitmap_ok_def
  proof (intro conjI allI impI)
    show "length ws = bitmap_count c" using assms(1,3) by (simp add: bitmap_ok_def)
    fix j
    assume j: "j < bitmap_count c * word_bits" "bit (ws ! (j div word_bits)) (j mod word_bits)"
    then have "j div word_bits < length (block_bitmap b)" using assms(1) less_mult_imp_div_less by (simp add: bitmap_ok_def)
    with bits j assms(1,2) show "j < total_count c" by (auto simp: bitmap_ok_def)
  qed
  show "used c (b\<lparr>block_bitmap := ws\<rparr>) i \<longleftrightarrow> used c b i \<or> i = index"
    using bits [of i] page_bound [of i c] assms(1,2) by (auto simp: used_def bitmap_ok_def)
qed

lemma clear_index:
  assumes "bitmap_ok c (block_bitmap b)" "index < total_count c"
    and "ws = (block_bitmap b)[index div word_bits := block_bitmap b ! (index div word_bits) AND NOT (push_bit (index mod word_bits) 1)]"
  shows "bitmap_ok c ws" "used c (b\<lparr>block_bitmap := ws\<rparr>) i \<longleftrightarrow> used c b i \<and> i \<noteq> index"
proof -
  have page: "index div word_bits < length (block_bitmap b)" using assms(1,2) page_bound by (simp add: bitmap_ok_def)
  have bits: "bit (ws ! (j div word_bits)) (j mod word_bits) \<longleftrightarrow> bit (block_bitmap b ! (j div word_bits)) (j mod word_bits) \<and> j \<noteq> index"
    if "j div word_bits < length (block_bitmap b)" for j
    using that page nat_index_eq [of j index] unfolding assms(3) by (cases "j div word_bits = index div word_bits") (auto simp: bit_clear_bit)
  show "bitmap_ok c ws" unfolding bitmap_ok_def
  proof (intro conjI allI impI)
    show "length ws = bitmap_count c" using assms(1,3) by (simp add: bitmap_ok_def)
    fix j
    assume j: "j < bitmap_count c * word_bits" "bit (ws ! (j div word_bits)) (j mod word_bits)"
    then have "j div word_bits < length (block_bitmap b)" using assms(1) less_mult_imp_div_less by (simp add: bitmap_ok_def)
    with bits j assms(1) show "j < total_count c" by (auto simp: bitmap_ok_def)
  qed
  show "used c (b\<lparr>block_bitmap := ws\<rparr>) i \<longleftrightarrow> used c b i \<and> i \<noteq> index"
    using bits [of i] page_bound [of i c] assms(1) by (auto simp: used_def bitmap_ok_def)
qed

lemma bitmap_empty:
  assumes "bitmap_ok c (block_bitmap b)"
  shows "list_all (\<lambda>w. w = 0) (block_bitmap b) \<longleftrightarrow> (\<forall>i. \<not> used c b i)"
proof
  assume zero: "list_all (\<lambda>w. w = 0) (block_bitmap b)"
  show "\<forall>i. \<not> used c b i"
  proof (intro allI notI)
    fix i
    assume "used c b i"
    moreover from this have "i div word_bits < length (block_bitmap b)" using page_bound assms by (simp add: used_def bitmap_ok_def)
    ultimately show False using zero by (simp add: used_def list_all_length)
  qed
next
  assume none: "\<forall>i. \<not> used c b i"
  show "list_all (\<lambda>w. w = 0) (block_bitmap b)" unfolding list_all_length word_zero_bits
  proof (intro allI impI notI)
    fix k j
    assume k: "k < length (block_bitmap b)" "j < word_bits" "bit (block_bitmap b ! k) j"
    have d: "(k * word_bits + j) div word_bits = k" "(k * word_bits + j) mod word_bits = j" using k(2) by (simp_all add: word_bits_def)
    have "k * word_bits + j < bitmap_count c * word_bits"
      using k(1,2) assms mult_le_mono1 [of "Suc k" "bitmap_count c" word_bits] by (simp add: bitmap_ok_def)
    with assms k d have "k * word_bits + j < total_count c" by (auto simp: bitmap_ok_def)
    with none k d show False by (auto simp: used_def)
  qed
qed

section \<open>The blocks handed out\<close>

definition block_live :: "root_params_t \<Rightarrow> block_t \<Rightarrow> nat set" where
  "block_live c b = {block_address b + i * alloc_size c | i. used c b i}"

definition region_end :: "root_params_t \<Rightarrow> block_t \<Rightarrow> nat" where
  "region_end c b = block_address b + alloc_size c * total_count c"

definition block_ok :: "root_params_t \<Rightarrow> block_t \<Rightarrow> bool" where
  "block_ok c b \<longleftrightarrow> bitmap_ok c (block_bitmap b) \<and> (\<exists>i. used c b i)"

definition regions_apart :: "root_params_t \<Rightarrow> block_t \<Rightarrow> block_t \<Rightarrow> bool" where
  "regions_apart c b b' \<longleftrightarrow> region_end c b \<le> block_address b' \<or> region_end c b' \<le> block_address b"

definition root_ok :: "root_params_t \<Rightarrow> block_t list \<Rightarrow> bool" where
  "root_ok c bs \<longleftrightarrow> 0 < alloc_size c \<and> 0 < total_count c \<and> list_all (block_ok c) bs \<and> sorted_wrt (regions_apart c) bs"

definition root_live :: "root_params_t \<Rightarrow> block_t list \<Rightarrow> nat set" where
  "root_live c bs = (\<Union>b \<in> set bs. block_live c b)"

lemma root_live_simps [simp]:
  "root_live c [] = {}" "root_live c (b # bs) = block_live c b \<union> root_live c bs"
  "root_live c (xs @ ys) = root_live c xs \<union> root_live c ys"
  by (auto simp: root_live_def)

lemma region_end_update [simp]:
  "region_end c (b\<lparr>block_bitmap := ws\<rparr>) = region_end c b"
  "regions_apart c (b\<lparr>block_bitmap := ws\<rparr>) b' = regions_apart c b b'" "regions_apart c b' (b\<lparr>block_bitmap := ws\<rparr>) = regions_apart c b' b"
  by (auto simp: region_end_def regions_apart_def)

lemma live_in_region:
  assumes "p \<in> block_live c b" "0 < alloc_size c"
  shows "block_address b \<le> p" "p + alloc_size c \<le> region_end c b"
proof -
  from assms(1) obtain i where i: "p = block_address b + i * alloc_size c" "i < total_count c" by (auto simp: block_live_def used_def)
  have "Suc i * alloc_size c \<le> total_count c * alloc_size c" using i(2) by (intro mult_le_mono1) simp
  then show "block_address b \<le> p" "p + alloc_size c \<le> region_end c b" using i(1) by (simp_all add: region_end_def mult.commute)
qed

lemma apart_live:
  assumes "regions_apart c b b'" "0 < alloc_size c" "p \<in> block_live c b"
  shows "\<not> (block_address b' \<le> p \<and> p < region_end c b')" "p \<notin> block_live c b'"
  using live_in_region [OF assms(3,2)] live_in_region [of p c b'] assms(1,2) by (auto simp: regions_apart_def)

lemma used_address:
  "0 < alloc_size c \<Longrightarrow> block_address b + i * alloc_size c \<in> block_live c b \<longleftrightarrow> used c b i"
  by (auto simp: block_live_def)

lemma root_scan_spec:
  "root_scan c bs = Some (p, bs') \<Longrightarrow> list_all (block_ok c) bs \<Longrightarrow> sorted_wrt (regions_apart c) bs \<Longrightarrow> 0 < alloc_size c \<Longrightarrow>
   p \<notin> root_live c bs \<and> root_live c bs' = insert p (root_live c bs) \<and> list_all (block_ok c) bs' \<and>
   map block_address bs' = map block_address bs \<and> (\<exists>b \<in> set bs. \<exists>i < total_count c. p = block_address b + i * alloc_size c)"
proof (induction c bs arbitrary: bs' rule: root_scan.induct)
  case (2 c b bs)
  show ?case
  proof (cases "take_in_words c 0 (block_bitmap b)")
    case None
    then obtain cs where cs: "root_scan c bs = Some (p, cs)" "bs' = b # cs" using "2.prems"(1) by auto
    from "2.IH" [OF None cs(1)] "2.prems"(2-4) have ih: "p \<notin> root_live c bs" "root_live c cs = insert p (root_live c bs)"
      "list_all (block_ok c) cs" "map block_address cs = map block_address bs" "\<exists>b \<in> set bs. \<exists>i < total_count c. p = block_address b + i * alloc_size c" by auto
    from ih(5) obtain b' i where b': "b' \<in> set bs" "i < total_count c" "p = block_address b' + i * alloc_size c" by blast
    have "p < region_end c b'" using b'(2,3) "2.prems"(4) by (simp add: region_end_def mult.commute)
    moreover have "regions_apart c b b'" using "2.prems"(3) b'(1) by simp
    ultimately have "p \<notin> block_live c b" using apart_live(1) [of c b b' p] "2.prems"(4) b'(3) by auto
    then show ?thesis using ih cs(2) "2.prems"(2) by auto
  next
    case (Some r)
    then obtain index ws where r: "take_in_words c 0 (block_bitmap b) = Some (index, ws)" by (cases r) auto
    then have eq: "p = block_address b + index * alloc_size c" "bs' = b\<lparr>block_bitmap := ws\<rparr> # bs" using "2.prems"(1) by auto
    from take_in_words_spec [OF r] have t: "index < total_count c" "\<not> used c b index"
      "ws = (block_bitmap b)[index div word_bits := block_bitmap b ! (index div word_bits) OR push_bit (index mod word_bits) 1]"
      by (auto simp: used_def)
    have ok: "bitmap_ok c (block_bitmap b)" using "2.prems"(2) by (simp add: block_ok_def)
    note set = set_index [OF ok t(1,3)]
    have live: "block_live c (b\<lparr>block_bitmap := ws\<rparr>) = insert p (block_live c b)" using set(2) eq(1) by (auto simp: block_live_def)
    have new: "p \<notin> block_live c b" unfolding eq(1) using used_address "2.prems"(4) t(2) by simp
    have p: "block_address b \<le> p" "p < region_end c b" using eq(1) t(1) "2.prems"(4) by (simp_all add: region_end_def mult.commute)
    have "p \<notin> root_live c bs"
    proof
      assume "p \<in> root_live c bs"
      then obtain b' where b': "b' \<in> set bs" "p \<in> block_live c b'" by (auto simp: root_live_def)
      then have "regions_apart c b' b" using "2.prems"(3) by (auto simp: regions_apart_def)
      from apart_live(1) [OF this "2.prems"(4) b'(2)] p show False by simp
    qed
    moreover have "block_ok c (b\<lparr>block_bitmap := ws\<rparr>)" using set by (auto simp: block_ok_def)
    ultimately show ?thesis using eq live new t(1) "2.prems"(2) by auto
  qed
qed simp

lemma root_append_ok:
  assumes "root_ok c bs" "list_all (\<lambda>b. region_end c b \<le> fresh \<or> fresh + alloc_size c * total_count c \<le> block_address b) bs"
  shows "root_ok c (root_append c fresh bs)" "root_live c (root_append c fresh bs) = insert fresh (root_live c bs)" "fresh \<notin> root_live c bs"
proof -
  let ?b = "\<lparr>block_address = fresh, block_bitmap = (replicate (bitmap_count c) 0)[0 := 1]\<rparr>"
  have pos: "0 < alloc_size c" "0 < total_count c" using assms(1) by (simp_all add: root_ok_def)
  have n: "0 < bitmap_count c" using page_bound [OF pos(2)] by simp
  have bit: "bit ((replicate (bitmap_count c) 0)[0 := 1 :: size_t] ! (i div word_bits)) (i mod word_bits) \<longleftrightarrow> i = 0" if "i div word_bits < bitmap_count c" for i
    using that n nat_index_eq [of i 0] by (cases "i div word_bits = 0") (auto simp: bit_1_iff)
  have used: "used c ?b i \<longleftrightarrow> i = 0" for i using bit [of i] page_bound [of i c] pos(2) by (auto simp: used_def)
  have "bitmap_ok c (block_bitmap ?b)"
    using bit pos(2) less_mult_imp_div_less by (fastforce simp: bitmap_ok_def)
  then have ok: "block_ok c ?b" using used by (simp add: block_ok_def)
  have live: "block_live c ?b = {fresh}" using used by (auto simp: block_live_def)
  have apart: "\<forall>b \<in> set bs. regions_apart c b ?b" using assms(2) by (auto simp: list_all_iff regions_apart_def region_end_def)
  show "root_ok c (root_append c fresh bs)" using assms(1) ok apart by (simp add: root_ok_def root_append_def sorted_wrt_append)
  show "root_live c (root_append c fresh bs) = insert fresh (root_live c bs)" using live by (auto simp: root_append_def)
  show "fresh \<notin> root_live c bs"
  proof
    assume "fresh \<in> root_live c bs"
    then obtain b where b: "b \<in> set bs" "fresh \<in> block_live c b" by (auto simp: root_live_def)
    from apart_live(2) [OF _ pos(1) b(2)] apart b(1) live show False by auto
  qed
qed

lemma regions_sorted_addresses:
  "sorted_wrt (regions_apart c) bs \<longleftrightarrow>
   sorted_wrt (\<lambda>x y. x + alloc_size c * total_count c \<le> y \<or> y + alloc_size c * total_count c \<le> x) (map block_address bs)"
  unfolding sorted_wrt_map by (rule arg_cong [of _ _ "\<lambda>r. sorted_wrt r bs"]) (simp add: fun_eq_iff regions_apart_def region_end_def)

lemma sorted_regions_map:
  "map block_address bs' = map block_address bs \<Longrightarrow> sorted_wrt (regions_apart c) bs' \<longleftrightarrow> sorted_wrt (regions_apart c) bs"
  by (simp add: regions_sorted_addresses)

lemma sorted_wrt_remove1: "sorted_wrt r xs \<Longrightarrow> sorted_wrt r (remove1 a xs)"
  by (induction xs) (auto dest: notin_set_remove1 set_mp [OF set_remove1_subset])

lemma regions_distinct:
  "sorted_wrt (regions_apart c) bs \<Longrightarrow> 0 < alloc_size c * total_count c \<Longrightarrow> distinct (map block_address bs)"
  by (induction bs) (auto simp: regions_apart_def region_end_def)

lemma root_deallocate_spec:
  "p \<in> root_live c bs \<Longrightarrow> list_all (block_ok c) bs \<Longrightarrow> sorted_wrt (regions_apart c) bs \<Longrightarrow> 0 < alloc_size c \<Longrightarrow>
   root_deallocate c p bs = (t, bs') \<Longrightarrow>
   root_live c bs' = root_live c bs - {p} \<and> list_all (block_ok c) bs' \<and>
   map block_address bs' = (case t of None \<Rightarrow> map block_address bs | Some a \<Rightarrow> remove1 a (map block_address bs)) \<and>
   (\<forall>a. t = Some a \<longrightarrow> a \<in> block_address ` set bs \<and> (\<forall>q \<in> root_live c bs'. q < a \<or> a + alloc_size c * total_count c \<le> q))"
proof (induction c p bs arbitrary: bs' rule: root_deallocate.induct)
  case (2 c p b bs)
  have apart: "\<forall>b' \<in> set bs. regions_apart c b' b" using "2.prems"(3) by (auto simp: regions_apart_def)
  have other: "q < block_address b \<or> region_end c b \<le> q" "q \<notin> block_live c b" if "q \<in> root_live c bs" for q
  proof -
    from that obtain b' where "b' \<in> set bs" "q \<in> block_live c b'" by (auto simp: root_live_def)
    with apart_live [OF _ "2.prems"(4)] apart show "q < block_address b \<or> region_end c b \<le> q" "q \<notin> block_live c b"
      by (meson not_less)+
  qed
  have ok: "bitmap_ok c (block_bitmap b)" using "2.prems"(2) by (simp add: block_ok_def)
  show ?case
  proof (cases "p \<ge> block_address b \<and> p < region_end c b")
    case False
    obtain cs where cs: "root_deallocate c p bs = (t, cs)" "bs' = b # cs"
      using "2.prems"(5) False by (cases "root_deallocate c p bs") (auto simp: region_end_def)
    have notin: "p \<notin> block_live c b" using False live_in_region [of p c b] "2.prems"(4) by auto
    with "2.prems"(1) have "p \<in> root_live c bs" by simp
    from "2.IH" [OF _ this _ _ "2.prems"(4) cs(1)] "2.prems"(2,3) False have ih: "root_live c cs = root_live c bs - {p}" "list_all (block_ok c) cs"
      "map block_address cs = (case t of None \<Rightarrow> map block_address bs | Some a \<Rightarrow> remove1 a (map block_address bs))"
      "\<forall>a. t = Some a \<longrightarrow> a \<in> block_address ` set bs \<and> (\<forall>q \<in> root_live c cs. q < a \<or> a + alloc_size c * total_count c \<le> q)"
      by (auto simp: region_end_def)
    have "a \<noteq> block_address b \<and> (\<forall>q \<in> block_live c b. q < a \<or> a + alloc_size c * total_count c \<le> q)" if "t = Some a" for a
    proof -
      from ih(4) that obtain b' where b': "b' \<in> set bs" "a = block_address b'" by auto
      with apart have ap: "regions_apart c b b'" by (auto simp: regions_apart_def)
      obtain i where "used c b i" using "2.prems"(2) by (auto simp: block_ok_def)
      then have "0 < total_count c" by (auto simp: used_def)
      then have "a \<noteq> block_address b" using ap b'(2) "2.prems"(4) by (auto simp: regions_apart_def region_end_def)
      moreover have "q < a \<or> a + alloc_size c * total_count c \<le> q" if "q \<in> block_live c b" for q
        using apart_live(1) [OF ap "2.prems"(4) that] b'(2) by (auto simp: region_end_def)
      ultimately show ?thesis by blast
    qed
    then show ?thesis using ih cs(2) notin "2.prems"(2) by (cases t) auto
  next
    case True
    then have inb: "p \<in> block_live c b" using other(1) [of p] "2.prems"(1) by auto
    then obtain index where index: "p = block_address b + index * alloc_size c" "used c b index" by (auto simp: block_live_def)
    have lt: "index < total_count c" using index(2) by (simp add: used_def)
    have idx: "(p - block_address b) div alloc_size c = index" using index(1) "2.prems"(4) by simp
    define ws where "ws = (block_bitmap b)[index div word_bits := block_bitmap b ! (index div word_bits) AND NOT (push_bit (index mod word_bits) 1)]"
    note clear = clear_index [OF ok lt ws_def]
    have live: "block_live c (b\<lparr>block_bitmap := ws\<rparr>) = block_live c b - {p}"
    proof (rule set_eqI)
      fix q
      have "block_address b + i * alloc_size c = p \<longleftrightarrow> i = index" for i using index(1) "2.prems"(4) by simp
      then show "q \<in> block_live c (b\<lparr>block_bitmap := ws\<rparr>) \<longleftrightarrow> q \<in> block_live c b - {p}"
        unfolding block_live_def clear(2) by force
    qed
    have notin: "p \<notin> root_live c bs" using other(2) inb by blast
    have page: "index div word_bits < length ws" using clear(1) page_bound [OF lt] by (simp add: bitmap_ok_def)
    have result: "(t, bs') = (if ws ! (index div word_bits) = 0 \<and> list_all (\<lambda>w. w = 0) ws then (Some (block_address b), bs)
        else (None, b\<lparr>block_bitmap := ws\<rparr> # bs))"
      unfolding "2.prems"(5) [symmetric] ws_def root_deallocate.simps if_P [OF True [unfolded region_end_def]] Let_def idx by (rule refl)
    have zero: "list_all (\<lambda>w. w = 0) ws \<longleftrightarrow> (\<forall>i. \<not> used c (b\<lparr>block_bitmap := ws\<rparr>) i)"
      using bitmap_empty [of c "b\<lparr>block_bitmap := ws\<rparr>"] clear(1) by simp
    show ?thesis
    proof (cases "list_all (\<lambda>w. w = 0) ws")
      case all: True
      then have "ws ! (index div word_bits) = 0" using page by (simp add: list_all_length)
      with all result have r: "t = Some (block_address b)" "bs' = bs" by simp_all
      have "block_live c b - {p} = {}" using live zero all by (auto simp: block_live_def)
      then have "root_live c (b # bs) - {p} = root_live c bs" using notin by auto
      moreover have "\<forall>q \<in> root_live c bs. q < block_address b \<or> block_address b + alloc_size c * total_count c \<le> q"
        using other(1) by (simp add: region_end_def)
      ultimately show ?thesis using "2.prems"(2) by (simp add: r)
    next
      case False
      with result have r: "t = None" "bs' = b\<lparr>block_bitmap := ws\<rparr> # bs" by auto
      have "block_ok c (b\<lparr>block_bitmap := ws\<rparr>)" using clear(1) zero False by (simp add: block_ok_def)
      then show ?thesis using r live notin "2.prems"(2) by auto
    qed
  qed
qed simp

section \<open>Threads\<close>

text \<open>
  The allocator with any number of threads, one locked section to a step: \<open>held\<close> are the blocks the clients hold, \<open>owned\<close>
  the regions taken from the system and not given back. A thread appends a region after its scan found nothing, perhaps
  long after. The system hands out regions that do not overlap those it has handed out before.
\<close>

type_synonym root_state = "block_t list \<times> nat list \<times> nat list"

inductive root_step :: "root_params_t \<Rightarrow> root_state \<Rightarrow> root_state \<Rightarrow> bool" for c where
  scan: "root_scan c bs = Some (p, bs') \<Longrightarrow> root_step c (bs, held, owned) (bs', p # held, owned)"
| append: "list_all (\<lambda>a. a + alloc_size c * total_count c \<le> fresh \<or> fresh + alloc_size c * total_count c \<le> a) owned \<Longrightarrow>
    root_step c (bs, held, owned) (root_append c fresh bs, fresh # held, fresh # owned)"
| release: "n < length held \<Longrightarrow> root_deallocate c (held ! n) bs = (t, bs') \<Longrightarrow>
    root_step c (bs, held, owned) (bs', take n held @ drop (Suc n) held, case t of None \<Rightarrow> owned | Some a \<Rightarrow> remove1 a owned)"

fun root_inv :: "root_params_t \<Rightarrow> root_state \<Rightarrow> bool" where
  "root_inv c (bs, held, owned) \<longleftrightarrow>
     root_ok c bs \<and> distinct held \<and> set held = root_live c bs \<and> distinct owned \<and> set owned = block_address ` set bs"

lemma held_split:
  "n < length held \<Longrightarrow> distinct held \<Longrightarrow>
   distinct (take n held @ drop (Suc n) held) \<and> set (take n held @ drop (Suc n) held) = set held - {held ! n}"
proof -
  assume n: "n < length held" "distinct held"
  then have split: "held = take n held @ held ! n # drop (Suc n) held" by (simp add: id_take_nth_drop)
  have "distinct (take n held @ held ! n # drop (Suc n) held)" using n(2) split by simp
  moreover have "set held = set (take n held @ held ! n # drop (Suc n) held)" using split by simp
  ultimately show ?thesis by auto
qed

lemma root_step_inv:
  assumes inv: "root_inv c s" and step: "root_step c s s'"
  shows "root_inv c s'"
  using step
proof cases
  case (scan bs p bs' held owned)
  with inv have ok: "list_all (block_ok c) bs" "sorted_wrt (regions_apart c) bs" "0 < alloc_size c" by (auto simp: root_ok_def)
  from root_scan_spec [OF scan(3) ok] have r: "p \<notin> root_live c bs" "root_live c bs' = insert p (root_live c bs)"
    "list_all (block_ok c) bs'" "map block_address bs' = map block_address bs" by auto
  have "block_address ` set bs' = block_address ` set bs" using r(4) by (metis list.set_map)
  then show ?thesis using inv scan(1,2) r sorted_regions_map [OF r(4)] by (auto simp: root_ok_def)
next
  case (append fresh owned bs held)
  have pos: "0 < alloc_size c * total_count c" using inv append(1) by (auto simp: root_ok_def)
  have "list_all (\<lambda>b. region_end c b \<le> fresh \<or> fresh + alloc_size c * total_count c \<le> block_address b) bs"
    using inv append(1,3) by (auto simp: list_all_iff region_end_def)
  note a = root_append_ok [OF _ this]
  have "fresh \<notin> set owned" using append(3) pos by (auto simp: list_all_iff)
  then show ?thesis using inv append(1,2) a by (auto simp: root_append_def)
next
  case (release n held bs t bs' owned)
  with inv have i: "list_all (block_ok c) bs" "sorted_wrt (regions_apart c) bs" "0 < alloc_size c" "0 < total_count c" "distinct held"
    "set held = root_live c bs" "distinct owned" "set owned = block_address ` set bs" by (auto simp: root_ok_def)
  have "held ! n \<in> root_live c bs" using release(3) i(6) nth_mem by blast
  from root_deallocate_spec [OF this i(1-3) release(4)] have d: "root_live c bs' = root_live c bs - {held ! n}" "list_all (block_ok c) bs'"
    "map block_address bs' = (case t of None \<Rightarrow> map block_address bs | Some a \<Rightarrow> remove1 a (map block_address bs))" by auto
  have dist: "distinct (map block_address bs)" by (rule regions_distinct [OF i(2)]) (use i(3,4) in simp)
  have s: "sorted_wrt (regions_apart c) bs'"
    using i(2) d(3) unfolding regions_sorted_addresses by (cases t) (auto intro: sorted_wrt_remove1)
  have "set (map block_address bs') = (case t of None \<Rightarrow> block_address ` set bs | Some a \<Rightarrow> block_address ` set bs - {a})"
    unfolding d(3) by (cases t) (simp_all add: set_remove1_eq [OF dist])
  then have "set (case t of None \<Rightarrow> owned | Some a \<Rightarrow> remove1 a owned) = block_address ` set bs'"
    using i(8) by (cases t) (simp_all add: set_remove1_eq [OF i(7)])
  moreover have "distinct (case t of None \<Rightarrow> owned | Some a \<Rightarrow> remove1 a owned)" using i(7) by (cases t) simp_all
  ultimately show ?thesis
    using release(1,2) held_split [OF release(3) i(5)] d(1,2) i(3,4,6) s by (auto simp: root_ok_def)
qed

interpretation root: step_invariant "root_step c" "root_inv c" for c
  by unfold_locales (rule root_step_inv)

section \<open>Properties\<close>

text \<open>
  C23. The root allocator with any number of threads, one locked section at a time, from the empty allocator on: the blocks the clients hold are
  distinct and do not overlap, each lies whole in a region owned by the allocator, regions are taken from the system once and
  given back once, and when the clients hold nothing no region is left, as the destructor asserts.
\<close>

theorem root_blocks_apart:
  assumes "0 < alloc_size c" and "0 < total_count c" and "(root_step c)\<^sup>*\<^sup>* ([], [], []) (bs, held, owned)"
  shows "distinct held \<and> distinct owned \<and> set owned = block_address ` set bs \<and>
    (\<forall>p \<in> set held. \<exists>a \<in> set owned. a \<le> p \<and> p + alloc_size c \<le> a + alloc_size c * total_count c) \<and>
    (\<forall>p \<in> set held. \<forall>q \<in> set held. p = q \<or> p + alloc_size c \<le> q \<or> q + alloc_size c \<le> p) \<and>
    (held = [] \<longleftrightarrow> bs = [])"
proof -
  have "root_inv c (bs, held, owned)"
    by (rule root.reachable_inv [OF assms(3)]) (use assms(1,2) in \<open>simp add: root_ok_def\<close>)
  then have i: "list_all (block_ok c) bs" "sorted_wrt (regions_apart c) bs" "distinct held" "set held = root_live c bs"
    "distinct owned" "set owned = block_address ` set bs" by (auto simp: root_ok_def)
  have apart: "b = b' \<or> regions_apart c b b'" if "b \<in> set bs" "b' \<in> set bs" for b b'
    using that i(2) by (induction bs) (auto simp: regions_apart_def)
  have within: "\<exists>a \<in> set owned. a \<le> p \<and> p + alloc_size c \<le> a + alloc_size c * total_count c" if p: "p \<in> set held" for p
  proof -
    from p i(4) obtain b where "b \<in> set bs" "p \<in> block_live c b" by (auto simp: root_live_def)
    with live_in_region [OF this(2) assms(1)] i(6) show ?thesis by (auto simp: region_end_def)
  qed
  have "p = q \<or> p + alloc_size c \<le> q \<or> q + alloc_size c \<le> p" if pq: "p \<in> set held" "q \<in> set held" for p q
  proof -
    from pq i(4) obtain b b' where b: "b \<in> set bs" "p \<in> block_live c b" "b' \<in> set bs" "q \<in> block_live c b'" by (auto simp: root_live_def)
    show ?thesis
    proof (cases "b = b'")
      case True
      with b obtain k l where kl: "p = block_address b + k * alloc_size c" "q = block_address b + l * alloc_size c" by (auto simp: block_live_def)
      have "Suc k * alloc_size c \<le> l * alloc_size c" if "k < l" for k l using that by (intro mult_le_mono1) simp
      with this [of k l] this [of l k] show ?thesis using kl by (cases k l rule: linorder_cases) (simp_all add: add.commute)
    next
      case False
      with apart [OF b(1,3)] live_in_region [OF b(2) assms(1)] live_in_region [OF b(4) assms(1)] show ?thesis by (auto simp: regions_apart_def)
    qed
  qed
  moreover have "held = [] \<longleftrightarrow> bs = []"
  proof
    assume "held = []"
    then have "root_live c bs = {}" using i(4) by simp
    then show "bs = []" using i(1) by (cases bs) (auto simp: block_ok_def block_live_def)
  qed (use i(4) in simp)
  ultimately show ?thesis using i(3,5,6) within by blast
qed

theorem root_blocks_apart_witness:
  "distinct [80 :: nat, 64] \<and> [80 :: nat, 64] \<noteq> []"
proof -
  let ?c = "\<lparr>alloc_size = 16, total_count = 2\<rparr>"
  have "root_step ?c ([], [], []) (root_append ?c 64 [], [64], [64])" using root_step.append [of ?c 64 "[]" "[]" "[]"] by simp
  moreover have "root_scan ?c (root_append ?c 64 []) = Some (80, [\<lparr>block_address = 64, block_bitmap = [3]\<rparr>])" by code_simp
  then have "root_step ?c (root_append ?c 64 [], [64], [64]) ([\<lparr>block_address = 64, block_bitmap = [3]\<rparr>], [80, 64], [64])" by (rule root_step.scan)
  ultimately have "(root_step ?c)\<^sup>*\<^sup>* ([], [], []) ([\<lparr>block_address = 64, block_bitmap = [3]\<rparr>], [80, 64], [64])" by (meson converse_rtranclp_into_rtranclp rtranclp.rtrancl_refl)
  from root_blocks_apart [OF _ _ this] show ?thesis by simp
qed

end
