(* ===== verification/Block_Allocator.thy ===== *)
theory Block_Allocator
  imports Root_Allocator
begin

text \<open>
  The block allocator \<open>iris_allocator_t\<close> of \<open>iris_common.h\<close>. Each block starts with a control block, with a bitmap of its items and a count of
  references: items in use, the place of the block in the slots or the recycled list, and threads that work on it. The thread-safe
  operations \<open>allocate_safe\<close> and \<open>deallocate_safe\<close> are steps of any number of threads, each at a program point; a step is one access
  to a shared atomic, in sequentially consistent order, and a compare-and-swap loop is the step that succeeds. The chain of recycled blocks is
  the list of its blocks. The root allocator hands out blocks that are not in use, as \<open>Root_Allocator\<close> shows, at multiples of the block size, a power of two.
  A step on a block that was given back is undefined: \<^const>\<open>None\<close>. The unsynchronised operations are functions for one thread.
\<close>

section \<open>State\<close>

record heap_params_t =
  item_size :: nat
  heap_block_size :: nat
  recycle_limit :: size_t
  slot_count :: nat

definition item_count :: "heap_params_t \<Rightarrow> nat" where
  "item_count c = heap_block_size c div item_size c"

definition bitmap_block_size :: "heap_params_t \<Rightarrow> nat" where
  "bitmap_block_size c = (item_count c + word_bits - 1) div word_bits"

text \<open>The items that the control block covers: two pointers, two counters and the bitmap, of eight bytes each.\<close>

definition header_items :: "heap_params_t \<Rightarrow> nat" where
  "header_items c = (8 * (4 + bitmap_block_size c) + item_size c - 1) div item_size c"

record control_block_t =
  ref_count :: nat
  managed :: bool
  bitmap :: "size_t list"

text \<open>\<open>held\<close> are the items the clients hold.\<close>

record heap_t =
  cells :: "nat \<Rightarrow> control_block_t option"
  control_blocks :: "nat option list"
  recycled :: "nat list"
  recycle_count :: size_t
  held :: "nat list"

definition heap_make :: "heap_params_t \<Rightarrow> heap_t" where
  "heap_make c = \<lparr>cells = (\<lambda>_. None), control_blocks = replicate (slot_count c) None, recycled = [], recycle_count = 0, held = []\<rparr>"

text \<open>The control block of an item, and its bit.\<close>

definition block_of :: "heap_params_t \<Rightarrow> nat \<Rightarrow> nat" where
  "block_of c t = t - t mod heap_block_size c"

definition item_id :: "heap_params_t \<Rightarrow> nat \<Rightarrow> nat" where
  "item_id c t = (t - block_of c t) div item_size c - header_items c"

section \<open>Program points\<close>

text \<open>Where the recycling of a block returns to: an allocation that returns an item, one that tries again, or a deallocation.\<close>

datatype return_point = Return_Item nat | Try_Again | Return_Done

datatype heap_pc =
    Idle
  | Slot_Load nat | Slot_Take nat | Head_Take | Head_Put nat "nat list" | Head_Rest nat "nat list" | Pop_Count nat
  | Unmanage nat | New_Block | Find_Bit nat nat | Set_Bit nat nat size_t | Add_Ref nat nat
  | Clear_Bit nat
  | Check_Managed nat return_point | Check_Limit nat return_point | Claim nat return_point | Slot_Put nat nat return_point
  | Push_Count nat return_point | Push nat return_point | Try_Free nat return_point

text \<open>Access to a control block.\<close>

definition with_cell :: "nat \<Rightarrow> heap_t \<Rightarrow> (control_block_t \<Rightarrow> control_block_t \<times> 'r) \<Rightarrow> (heap_t \<times> 'r) option" where
  "with_cell p h f =
     (case cells h p of None \<Rightarrow> None | Some b \<Rightarrow> (let (b1, r) = f b in Some (h\<lparr>cells := (cells h)(p \<mapsto> b1)\<rparr>, r)))"

fun recycle_return :: "return_point \<Rightarrow> heap_t \<Rightarrow> heap_t \<times> heap_pc" where
  "recycle_return (Return_Item t) h = (h\<lparr>held := t # held h\<rparr>, Idle)"
| "recycle_return Try_Again h = (h, Slot_Load 0)"
| "recycle_return Return_Done h = (h, Idle)"

text \<open>\<open>allocate_safe\<close>: take a block from the slots, from the recycled list, or a new one; \<open>fresh\<close> is the block of the root allocator.\<close>

fun take_block_step :: "heap_params_t \<Rightarrow> nat \<Rightarrow> heap_pc \<Rightarrow> heap_t \<Rightarrow> (heap_t \<times> heap_pc) option" where
  "take_block_step c fresh (Slot_Load n) h =
     Some (h, if n < slot_count c then if control_blocks h ! n \<noteq> None then Slot_Take n else Slot_Load (n + 1) else Head_Take)"
| "take_block_step c fresh (Slot_Take n) h =
     Some (h\<lparr>control_blocks := (control_blocks h)[n := None]\<rparr>,
       case control_blocks h ! n of Some p \<Rightarrow> Unmanage p | None \<Rightarrow> Slot_Load (n + 1))"
| "take_block_step c fresh Head_Take h =
     Some (h\<lparr>recycled := []\<rparr>, case recycled h of [] \<Rightarrow> New_Block | p # rest \<Rightarrow> Head_Put p rest)"
| "take_block_step c fresh (Head_Put p rest) h =
     (if recycled h = [] then Some (h\<lparr>recycled := rest\<rparr>, Pop_Count p)
      else Some (h, if rest = [] then Pop_Count p else Head_Rest p rest))"
| "take_block_step c fresh (Head_Rest p rest) h =
     (case rest of
        [] \<Rightarrow> Some (h, Pop_Count p)
      | t # ts \<Rightarrow> Some (h\<lparr>recycled := t # recycled h\<rparr>, if ts = [] then Pop_Count p else Head_Rest p ts))"
| "take_block_step c fresh (Pop_Count p) h = Some (h\<lparr>recycle_count := recycle_count h - 1\<rparr>, Unmanage p)"
| "take_block_step c fresh (Unmanage p) h = with_cell p h (\<lambda>b. (b\<lparr>managed := False\<rparr>, Find_Bit p 0))"
| "take_block_step c fresh New_Block h =
     Some (h\<lparr>cells := (cells h)(fresh \<mapsto> \<lparr>ref_count = 1, managed = False, bitmap = replicate (bitmap_block_size c) 0\<rparr>)\<rparr>, Find_Bit fresh 0)"
| "take_block_step c fresh pc h = None"

text \<open>\<open>allocate_safe\<close>: search the bitmap; when the block is full its reference is dropped and the search starts again.\<close>

fun find_item_step :: "heap_params_t \<Rightarrow> heap_pc \<Rightarrow> heap_t \<Rightarrow> (heap_t \<times> heap_pc) option" where
  "find_item_step c (Find_Bit p n) h =
     (if n < bitmap_block_size c then with_cell p h (\<lambda>b.
        (b, if bitmap b ! n \<noteq> NOT 0 then Set_Bit p n (iris_get_alignment (bitmap b ! n + 1)) else Find_Bit p (n + 1)))
      else Some (h, Try_Free p Try_Again))"
| "find_item_step c (Set_Bit p n w) h =
     with_cell p h (\<lambda>b. (b\<lparr>bitmap := (bitmap b)[n := bitmap b ! n OR w]\<rparr>,
       if bitmap b ! n AND w = 0 then
         let index = iris_get_trailing_zeros w + header_items c + n * word_bits in
           if index < item_count c then Add_Ref p index else Find_Bit p (n + 1)
       else Find_Bit p (n + 1)))"
| "find_item_step c (Add_Ref p index) h =
     with_cell p h (\<lambda>b. (b\<lparr>ref_count := ref_count b + 1\<rparr>, Check_Managed p (Return_Item (p + index * item_size c))))"
| "find_item_step c pc h = None"

text \<open>\<open>deallocate_safe\<close>\<close>

fun deallocate_step :: "heap_params_t \<Rightarrow> heap_pc \<Rightarrow> heap_t \<Rightarrow> (heap_t \<times> heap_pc) option" where
  "deallocate_step c (Clear_Bit t) h =
     (let p = block_of c t; id = item_id c t in
      with_cell p h (\<lambda>b.
        (b\<lparr>bitmap := (bitmap b)[id div word_bits := bitmap b ! (id div word_bits) AND NOT (push_bit (id mod word_bits) 1)]\<rparr>,
         Check_Managed p Return_Done)))"
| "deallocate_step c pc h = None"

text \<open>\<open>recycle_safe\<close> and \<open>try_free_safe\<close>\<close>

fun recycle_step :: "heap_params_t \<Rightarrow> heap_pc \<Rightarrow> heap_t \<Rightarrow> (heap_t \<times> heap_pc) option" where
  "recycle_step c (Check_Managed p r) h = with_cell p h (\<lambda>b. (b, if managed b then Try_Free p r else Check_Limit p r))"
| "recycle_step c (Check_Limit p r) h = Some (h, if recycle_count h < recycle_limit c then Claim p r else Try_Free p r)"
| "recycle_step c (Claim p r) h =
     with_cell p h (\<lambda>b. (b\<lparr>managed := True\<rparr>, if managed b then Try_Free p r else Slot_Put p 0 r))"
| "recycle_step c (Slot_Put p n r) h =
     (if n < slot_count c then
        if control_blocks h ! n = None then Some (recycle_return r (h\<lparr>control_blocks := (control_blocks h)[n := Some p]\<rparr>))
        else Some (h, Slot_Put p (n + 1) r)
      else Some (h, Push_Count p r))"
| "recycle_step c (Push_Count p r) h = Some (h\<lparr>recycle_count := recycle_count h + 1\<rparr>, Push p r)"
| "recycle_step c (Push p r) h = Some (recycle_return r (h\<lparr>recycled := p # recycled h\<rparr>))"
| "recycle_step c pc h = None"

fun try_free_step :: "heap_params_t \<Rightarrow> heap_pc \<Rightarrow> heap_t \<Rightarrow> (heap_t \<times> heap_pc) option" where
  "try_free_step c (Try_Free p r) h =
     (case cells h p of
        None \<Rightarrow> None
      | Some b \<Rightarrow> Some (recycle_return r
          (h\<lparr>cells := (if ref_count b = 1 then (cells h)(p := None) else (cells h)(p \<mapsto> b\<lparr>ref_count := ref_count b - 1\<rparr>))\<rparr>)))"
| "try_free_step c pc h = None"

definition heap_step :: "heap_params_t \<Rightarrow> nat \<Rightarrow> heap_pc \<Rightarrow> heap_t \<Rightarrow> (heap_t \<times> heap_pc) option" where
  "heap_step c fresh pc h =
     (case pc of
        Find_Bit _ _ \<Rightarrow> find_item_step c pc h | Set_Bit _ _ _ \<Rightarrow> find_item_step c pc h | Add_Ref _ _ \<Rightarrow> find_item_step c pc h
      | Clear_Bit _ \<Rightarrow> deallocate_step c pc h
      | Try_Free _ _ \<Rightarrow> try_free_step c pc h
      | Check_Managed _ _ \<Rightarrow> recycle_step c pc h | Check_Limit _ _ \<Rightarrow> recycle_step c pc h | Claim _ _ \<Rightarrow> recycle_step c pc h
      | Slot_Put _ _ _ \<Rightarrow> recycle_step c pc h | Push_Count _ _ \<Rightarrow> recycle_step c pc h | Push _ _ \<Rightarrow> recycle_step c pc h
      | _ \<Rightarrow> take_block_step c fresh pc h)"

section \<open>Threads\<close>

text \<open>An idle thread starts an allocation, or a deallocation of an item that the clients hold; the others take a step.\<close>

inductive heap_run :: "heap_params_t \<Rightarrow> heap_t \<times> heap_pc list \<Rightarrow> heap_t \<times> heap_pc list \<Rightarrow> bool" for c where
  start_allocate: "i < length pcs \<Longrightarrow> pcs ! i = Idle \<Longrightarrow> heap_run c (h, pcs) (h, pcs[i := Slot_Load 0])"
| start_deallocate: "i < length pcs \<Longrightarrow> pcs ! i = Idle \<Longrightarrow> n < length (held h) \<Longrightarrow>
    heap_run c (h, pcs) (h\<lparr>held := take n (held h) @ drop (Suc n) (held h)\<rparr>, pcs[i := Clear_Bit (held h ! n)])"
| run_thread: "i < length pcs \<Longrightarrow> cells h fresh = None \<Longrightarrow> heap_block_size c dvd fresh \<Longrightarrow> heap_step c fresh (pcs ! i) h = Some (h', pc) \<Longrightarrow>
    heap_run c (h, pcs) (h', pcs[i := pc])"

section \<open>Destruction\<close>

fun free_blocks :: "nat list \<Rightarrow> heap_t \<Rightarrow> heap_t option" where
  "free_blocks [] h = Some h"
| "free_blocks (p # ps) h = (case cells h p of None \<Rightarrow> None | Some _ \<Rightarrow> free_blocks ps (h\<lparr>cells := (cells h)(p := None)\<rparr>))"

definition heap_destroy :: "heap_t \<Rightarrow> heap_t option" where
  "heap_destroy h = free_blocks (List.map_filter id (control_blocks h) @ recycled h) h"

section \<open>The unsynchronised operations\<close>

text \<open>
  \<open>allocate_unsafe\<close> and \<open>deallocate_unsafe\<close>, for one thread. The loop over the slots stores a null pointer into the slots
  that are empty, and leaves the block it takes in its slot; a recycled block that is taken raises the count of recycled blocks.
\<close>

fun first_block :: "nat option list \<Rightarrow> nat option" where
  "first_block [] = None"
| "first_block (None # bs) = first_block bs"
| "first_block (Some p # bs) = Some p"

definition take_block_unsafe :: "heap_params_t \<Rightarrow> nat \<Rightarrow> heap_t \<Rightarrow> (heap_t \<times> nat) option" where
  "take_block_unsafe c fresh h =
     (case first_block (control_blocks h) of
        Some p \<Rightarrow> with_cell p h (\<lambda>b. (b\<lparr>managed := False\<rparr>, p))
      | None \<Rightarrow>
          (case recycled h of
             p # rest \<Rightarrow> with_cell p (h\<lparr>recycled := rest, recycle_count := recycle_count h + 1\<rparr>) (\<lambda>b. (b\<lparr>managed := False\<rparr>, p))
           | [] \<Rightarrow> Some (h\<lparr>cells := (cells h)(fresh \<mapsto> \<lparr>ref_count = 1, managed = False, bitmap = replicate (bitmap_block_size c) 0\<rparr>)\<rparr>, fresh)))"

fun find_item_unsafe :: "heap_params_t \<Rightarrow> nat \<Rightarrow> size_t list \<Rightarrow> nat option \<times> size_t list" where
  "find_item_unsafe c n [] = (None, [])"
| "find_item_unsafe c n (w # ws) =
     (let b = iris_get_alignment (w + 1); index = iris_get_trailing_zeros b + header_items c + n * word_bits in
      if w \<noteq> NOT 0 \<and> w AND b = 0 then
        if index < item_count c then (Some index, (w OR b) # ws)
        else apsnd ((#) (w OR b)) (find_item_unsafe c (n + 1) ws)
      else apsnd ((#) w) (find_item_unsafe c (n + 1) ws))"

definition try_free_unsafe :: "nat \<Rightarrow> heap_t \<Rightarrow> heap_t option" where
  "try_free_unsafe p h =
     (case cells h p of
        None \<Rightarrow> None
      | Some b \<Rightarrow> Some (h\<lparr>cells := (if ref_count b = 1 then (cells h)(p := None) else (cells h)(p \<mapsto> b\<lparr>ref_count := ref_count b - 1\<rparr>))\<rparr>))"

fun put_block :: "nat \<Rightarrow> nat option list \<Rightarrow> nat option list option" where
  "put_block p [] = None"
| "put_block p (None # bs) = Some (Some p # bs)"
| "put_block p (Some q # bs) = map_option ((#) (Some q)) (put_block p bs)"

definition recycle_unsafe :: "heap_params_t \<Rightarrow> nat \<Rightarrow> heap_t \<Rightarrow> heap_t option" where
  "recycle_unsafe c p h =
     (case cells h p of
        None \<Rightarrow> None
      | Some b \<Rightarrow>
          if \<not> managed b \<and> recycle_count h < recycle_limit c then
            let h = h\<lparr>cells := (cells h)(p \<mapsto> b\<lparr>managed := True\<rparr>)\<rparr> in
              case put_block p (control_blocks h) of
                Some bs \<Rightarrow> Some (h\<lparr>control_blocks := bs\<rparr>)
              | None \<Rightarrow> Some (h\<lparr>recycle_count := recycle_count h + 1, recycled := p # recycled h\<rparr>)
          else try_free_unsafe p h)"

text \<open>One turn of the loop, and the loop with a new block for each turn; without an item it has not ended yet.\<close>

definition allocate_turn :: "heap_params_t \<Rightarrow> nat \<Rightarrow> heap_t \<Rightarrow> (nat option \<times> heap_t) option" where
  "allocate_turn c fresh h =
     (case take_block_unsafe c fresh h of
        None \<Rightarrow> None
      | Some (h, p) \<Rightarrow>
          (case with_cell p h (\<lambda>b. let (found, ws) = find_item_unsafe c 0 (bitmap b) in
               (b\<lparr>bitmap := ws, ref_count := ref_count b + of_bool (found \<noteq> None)\<rparr>, found)) of
             None \<Rightarrow> None
           | Some (h, None) \<Rightarrow> map_option (Pair None) (try_free_unsafe p h)
           | Some (h, Some index) \<Rightarrow> map_option (Pair (Some (p + index * item_size c))) (recycle_unsafe c p h)))"

fun allocate_unsafe :: "heap_params_t \<Rightarrow> nat list \<Rightarrow> heap_t \<Rightarrow> (nat option \<times> heap_t) option" where
  "allocate_unsafe c [] h = Some (None, h)"
| "allocate_unsafe c (fresh # fs) h =
     (case allocate_turn c fresh h of
        None \<Rightarrow> None
      | Some (None, h) \<Rightarrow> allocate_unsafe c fs h
      | Some (Some t, h) \<Rightarrow> Some (Some t, h\<lparr>held := t # held h\<rparr>))"

definition deallocate_unsafe :: "heap_params_t \<Rightarrow> nat \<Rightarrow> heap_t \<Rightarrow> heap_t option" where
  "deallocate_unsafe c t h =
     (let p = block_of c t; id = item_id c t; h = h\<lparr>held := remove1 t (held h)\<rparr> in
      case with_cell p h (\<lambda>b. (b\<lparr>bitmap := (bitmap b)[id div word_bits := bitmap b ! (id div word_bits) AND NOT (push_bit (id mod word_bits) 1)]\<rparr>, ())) of
        None \<Rightarrow> None
      | Some (h, _) \<Rightarrow> recycle_unsafe c p h)"

section \<open>References\<close>

text \<open>What the place after recycling, and a program point, hold of the block \<open>q\<close>: references, the place where the block is kept, and items.\<close>

fun return_refs :: "heap_params_t \<Rightarrow> nat \<Rightarrow> return_point \<Rightarrow> nat" where
  "return_refs c q (Return_Item t) = of_bool (block_of c t = q)"
| "return_refs c q r = 0"

fun return_owns :: "nat \<Rightarrow> return_point \<Rightarrow> nat" where
  "return_owns t (Return_Item u) = of_bool (u = t)"
| "return_owns t r = 0"

fun thread_refs :: "heap_params_t \<Rightarrow> nat \<Rightarrow> heap_pc \<Rightarrow> nat" where
  "thread_refs c q (Head_Put p rest) = of_bool (p = q) + count_list rest q"
| "thread_refs c q (Head_Rest p rest) = of_bool (p = q) + count_list rest q"
| "thread_refs c q (Pop_Count p) = of_bool (p = q)"
| "thread_refs c q (Unmanage p) = of_bool (p = q)"
| "thread_refs c q (Find_Bit p n) = of_bool (p = q)"
| "thread_refs c q (Set_Bit p n w) = of_bool (p = q)"
| "thread_refs c q (Add_Ref p index) = of_bool (p = q)"
| "thread_refs c q (Clear_Bit t) = of_bool (block_of c t = q)"
| "thread_refs c q (Check_Managed p r) = of_bool (p = q) + return_refs c q r"
| "thread_refs c q (Check_Limit p r) = of_bool (p = q) + return_refs c q r"
| "thread_refs c q (Claim p r) = of_bool (p = q) + return_refs c q r"
| "thread_refs c q (Slot_Put p n r) = of_bool (p = q) + return_refs c q r"
| "thread_refs c q (Push_Count p r) = of_bool (p = q) + return_refs c q r"
| "thread_refs c q (Push p r) = of_bool (p = q) + return_refs c q r"
| "thread_refs c q (Try_Free p r) = of_bool (p = q) + return_refs c q r"
| "thread_refs c q pc = 0"

fun thread_places :: "nat \<Rightarrow> heap_pc \<Rightarrow> nat" where
  "thread_places q (Head_Put p rest) = of_bool (p = q) + count_list rest q"
| "thread_places q (Head_Rest p rest) = of_bool (p = q) + count_list rest q"
| "thread_places q (Pop_Count p) = of_bool (p = q)"
| "thread_places q (Unmanage p) = of_bool (p = q)"
| "thread_places q (Slot_Put p n r) = of_bool (p = q)"
| "thread_places q (Push_Count p r) = of_bool (p = q)"
| "thread_places q (Push p r) = of_bool (p = q)"
| "thread_places q pc = 0"

fun thread_owns :: "heap_params_t \<Rightarrow> nat \<Rightarrow> heap_pc \<Rightarrow> nat" where
  "thread_owns c t (Add_Ref p index) = of_bool (p + index * item_size c = t)"
| "thread_owns c t (Clear_Bit u) = of_bool (u = t)"
| "thread_owns c t (Check_Managed p r) = return_owns t r"
| "thread_owns c t (Check_Limit p r) = return_owns t r"
| "thread_owns c t (Claim p r) = return_owns t r"
| "thread_owns c t (Slot_Put p n r) = return_owns t r"
| "thread_owns c t (Push_Count p r) = return_owns t r"
| "thread_owns c t (Push p r) = return_owns t r"
| "thread_owns c t (Try_Free p r) = return_owns t r"
| "thread_owns c t pc = 0"

text \<open>What a program point knows.\<close>

fun pc_ok :: "heap_params_t \<Rightarrow> heap_pc \<Rightarrow> bool" where
  "pc_ok c (Slot_Take n) \<longleftrightarrow> n < slot_count c"
| "pc_ok c (Set_Bit p n w) \<longleftrightarrow>
     n < bitmap_block_size c \<and> iris_get_trailing_zeros w < word_bits \<and> w = push_bit (iris_get_trailing_zeros w) 1"
| "pc_ok c (Add_Ref p index) \<longleftrightarrow> heap_block_size c dvd p \<and> header_items c \<le> index \<and> index < item_count c"
| "pc_ok c pc \<longleftrightarrow> True"

definition stored_refs :: "heap_params_t \<Rightarrow> nat \<Rightarrow> heap_t \<Rightarrow> nat" where
  "stored_refs c q h = count_list (map (block_of c) (held h)) q + count_list (control_blocks h) (Some q) + count_list (recycled h) q"

definition stored_places :: "nat \<Rightarrow> heap_t \<Rightarrow> nat" where
  "stored_places q h = count_list (control_blocks h) (Some q) + count_list (recycled h) q"

text \<open>An address of an item, and the bit of an item in use.\<close>

definition item_address :: "heap_params_t \<Rightarrow> nat \<Rightarrow> bool" where
  "item_address c t \<longleftrightarrow> item_size c dvd t - block_of c t \<and> header_items c \<le> (t - block_of c t) div item_size c \<and>
     (t - block_of c t) div item_size c < item_count c"

definition item_bit :: "heap_params_t \<Rightarrow> heap_t \<Rightarrow> nat \<Rightarrow> bool" where
  "item_bit c h t \<longleftrightarrow> item_address c t \<and>
     (case cells h (block_of c t) of None \<Rightarrow> False
      | Some b \<Rightarrow> bit (bitmap b ! (item_id c t div word_bits)) (item_id c t mod word_bits))"

fun cell_ok :: "heap_params_t \<Rightarrow> nat \<Rightarrow> control_block_t option \<Rightarrow> nat \<Rightarrow> nat \<Rightarrow> bool" where
  "cell_ok c q None refs places \<longleftrightarrow> refs = 0"
| "cell_ok c q (Some b) refs places \<longleftrightarrow>
     ref_count b = refs \<and> 0 < refs \<and> places = of_bool (managed b) \<and> length (bitmap b) = bitmap_block_size c \<and> heap_block_size c dvd q"

text \<open>
  The invariant over the references, places and items of all threads: the count of a block is the number of its references, it
  is managed exactly when it has a place, and an item is owned, once, exactly when its bit is set.
\<close>

definition heap_ok :: "heap_params_t \<Rightarrow> heap_t \<Rightarrow> (nat \<Rightarrow> nat) \<Rightarrow> (nat \<Rightarrow> nat) \<Rightarrow> (nat \<Rightarrow> nat) \<Rightarrow> bool" where
  "heap_ok c h R P N \<longleftrightarrow> length (control_blocks h) = slot_count c \<and>
     (\<forall>q. cell_ok c q (cells h q) (stored_refs c q h + R q) (stored_places q h + P q)) \<and>
     (\<forall>t. count_list (held h) t + N t = of_bool (item_bit c h t))"

abbreviation heap_at :: "heap_params_t \<Rightarrow> heap_t \<Rightarrow> heap_pc \<Rightarrow> (nat \<Rightarrow> nat) \<Rightarrow> (nat \<Rightarrow> nat) \<Rightarrow> (nat \<Rightarrow> nat) \<Rightarrow> bool" where
  "heap_at c h pc R P N \<equiv>
     heap_ok c h (\<lambda>q. thread_refs c q pc + R q) (\<lambda>q. thread_places q pc + P q) (\<lambda>t. thread_owns c t pc + N t) \<and> pc_ok c pc"

section \<open>Addresses\<close>

definition heap_params_ok :: "heap_params_t \<Rightarrow> bool" where
  "heap_params_ok c \<longleftrightarrow> 0 < item_size c \<and> 0 < heap_block_size c"

lemma item_offset: "index < item_count c \<Longrightarrow> index * item_size c + item_size c \<le> heap_block_size c"
proof -
  assume "index < item_count c"
  then have "Suc index * item_size c \<le> heap_block_size c div item_size c * item_size c"
    unfolding item_count_def by (intro mult_le_mono1) simp
  also have "\<dots> \<le> heap_block_size c" by simp
  finally show ?thesis by simp
qed

lemma block_of_item:
  assumes "heap_params_ok c" "heap_block_size c dvd p" "index < item_count c"
  shows "block_of c (p + index * item_size c) = p"
proof -
  have "index * item_size c < heap_block_size c" using item_offset [OF assms(3)] assms(1) by (simp add: heap_params_ok_def)
  with assms(2) have "(p + index * item_size c) mod heap_block_size c = index * item_size c" by auto
  then show ?thesis by (simp add: block_of_def)
qed

lemma item_address_of:
  assumes "heap_params_ok c" "heap_block_size c dvd p" "header_items c \<le> index" "index < item_count c"
  shows "item_address c (p + index * item_size c)" "item_id c (p + index * item_size c) = index - header_items c"
  using assms block_of_item [OF assms(1,2,4)] by (simp_all add: item_address_def item_id_def heap_params_ok_def)

lemma block_of_le: "block_of c t \<le> t"
  by (simp add: block_of_def)

lemma item_address_form:
  assumes "item_address c t"
  shows "t = block_of c t + (item_id c t + header_items c) * item_size c" "item_id c t + header_items c < item_count c"
proof -
  let ?d = "(t - block_of c t) div item_size c"
  have "item_id c t + header_items c = ?d" using assms by (simp add: item_address_def item_id_def)
  moreover have "t = block_of c t + ?d * item_size c" using assms block_of_le [of c t] by (simp add: item_address_def)
  ultimately show "t = block_of c t + (item_id c t + header_items c) * item_size c" "item_id c t + header_items c < item_count c"
    using assms by (simp_all add: item_address_def)
qed

lemma item_address_unique:
  "item_address c t \<Longrightarrow> item_address c u \<Longrightarrow> block_of c t = block_of c u \<Longrightarrow> item_id c t = item_id c u \<Longrightarrow> t = u"
  by (metis item_address_form(1))

lemma item_page: "item_address c t \<Longrightarrow> item_id c t div word_bits < bitmap_block_size c"
proof -
  assume "item_address c t"
  then have "item_id c t < item_count c" using item_address_form(2) by fastforce
  moreover have "item_count c \<le> bitmap_block_size c * word_bits"
    unfolding bitmap_block_size_def word_bits_def
    using div_mult_mod_eq [of "item_count c + 64 - 1" 64] mod_less_divisor [of 64 "item_count c + 64 - 1"] by linarith
  ultimately show ?thesis by (metis less_le_trans less_mult_imp_div_less)
qed

section \<open>Steps keep the invariant\<close>

lemma count_cons: "count_list (x # xs) y = of_bool (x = y) + count_list xs y"
  by simp

lemma count_update:
  "k < length xs \<Longrightarrow> count_list (xs[k := y]) z + of_bool (xs ! k = z) = count_list xs z + of_bool (y = z)"
proof (induction xs arbitrary: k)
  case (Cons a xs)
  show ?case
  proof (cases k)
    case (Suc n)
    with Cons.IH [of n] Cons.prems show ?thesis by (simp add: count_cons del: count_list.simps(2))
  qed (simp add: count_cons del: count_list.simps(2))
qed simp

lemma item_bit_same [simp]:
  "item_bit c (h\<lparr>held := ts\<rparr>) t = item_bit c h t"
  "item_bit c (h\<lparr>control_blocks := bs\<rparr>) t = item_bit c h t"
  "item_bit c (h\<lparr>recycled := qs\<rparr>) t = item_bit c h t"
  "item_bit c (h\<lparr>recycle_count := n\<rparr>) t = item_bit c h t"
  by (simp_all add: item_bit_def)

lemma set_bit_in:
  "n < length ws \<Longrightarrow> i < word_bits \<Longrightarrow>
   bit (ws[n := ws ! n OR 2 ^ i] ! (j div word_bits)) (j mod word_bits) \<longleftrightarrow>
     bit ((ws :: size_t list) ! (j div word_bits)) (j mod word_bits) \<or> j = n * word_bits + i"
proof -
  assume "n < length ws" "i < word_bits"
  moreover have "j = n * word_bits + i \<longleftrightarrow> j div word_bits = n \<and> j mod word_bits = i" if "i < word_bits"
    using that by (auto simp: word_bits_def)
  ultimately show ?thesis by (cases "j div word_bits = n") (auto simp: bit_set_bit)
qed

lemma clear_bit_in:
  "n < length ws \<Longrightarrow> i < word_bits \<Longrightarrow>
   bit (ws[n := ws ! n AND NOT (2 ^ i)] ! (j div word_bits)) (j mod word_bits) \<longleftrightarrow>
     bit ((ws :: size_t list) ! (j div word_bits)) (j mod word_bits) \<and> j \<noteq> n * word_bits + i"
proof -
  assume "n < length ws" "i < word_bits"
  moreover have "j = n * word_bits + i \<longleftrightarrow> j div word_bits = n \<and> j mod word_bits = i" if "i < word_bits"
    using that by (auto simp: word_bits_def)
  ultimately show ?thesis by (cases "j div word_bits = n") (auto simp: bit_clear_bit)
qed

lemma live_block:
  assumes "heap_at c h pc R P N" "0 < thread_refs c p pc"
  obtains b where "cells h p = Some b" "ref_count b = stored_refs c p h + thread_refs c p pc + R p"
    "of_bool (managed b) = stored_places p h + thread_places p pc + P p" "length (bitmap b) = bitmap_block_size c" "heap_block_size c dvd p"
proof -
  have ok: "cell_ok c p (cells h p) (stored_refs c p h + (thread_refs c p pc + R p)) (stored_places p h + (thread_places p pc + P p))"
    using assms(1) by (simp add: heap_ok_def)
  show thesis using ok assms(2) that by (cases "cells h p") auto
qed

text \<open>Steps that leave the blocks alone, and steps that change one block.\<close>

lemma heap_ok_moved:
  assumes "heap_ok c h R P N" "cells h' = cells h" "length (control_blocks h') = length (control_blocks h)"
    and "\<And>q. stored_refs c q h' + R' q = stored_refs c q h + R q" "\<And>q. stored_places q h' + P' q = stored_places q h + P q"
    and "\<And>t. count_list (held h') t + N' t = count_list (held h) t + N t"
  shows "heap_ok c h' R' P' N'"
proof -
  have "item_bit c h' t = item_bit c h t" for t using assms(2) by (simp add: item_bit_def)
  then show ?thesis using assms unfolding heap_ok_def by simp
qed

lemma heap_ok_changed:
  assumes "heap_ok c h R P N" "\<And>q. q \<noteq> p \<Longrightarrow> cells h' q = cells h q" "held h' = held h" "control_blocks h' = control_blocks h" "recycled h' = recycled h"
    and "\<And>q. q \<noteq> p \<Longrightarrow> R' q = R q \<and> P' q = P q"
    and "cell_ok c p (cells h' p) (stored_refs c p h + R' p) (stored_places p h + P' p)"
    and "\<And>t. block_of c t \<noteq> p \<Longrightarrow> N' t = N t"
    and "\<And>t. block_of c t = p \<Longrightarrow> count_list (held h) t + N' t = of_bool (item_bit c h' t)"
  shows "heap_ok c h' R' P' N'"
proof -
  have s: "stored_refs c q h' = stored_refs c q h" "stored_places q h' = stored_places q h" for q
    using assms(3-5) by (simp_all add: stored_refs_def stored_places_def)
  have "item_bit c h' t = item_bit c h t" if "block_of c t \<noteq> p" for t using assms(2) that by (simp add: item_bit_def)
  then have "count_list (held h') t + N' t = of_bool (item_bit c h' t)" for t
    using assms(1,3,8,9) by (cases "block_of c t = p") (simp_all add: heap_ok_def)
  moreover have "cell_ok c q (cells h' q) (stored_refs c q h' + R' q) (stored_places q h' + P' q)" for q
    using assms(1,2,6,7) s by (cases "q = p") (simp_all add: heap_ok_def)
  ultimately show ?thesis using assms(1,4) by (simp add: heap_ok_def)
qed

lemma recycle_return_ok:
  assumes "heap_ok c h (\<lambda>q. return_refs c q r + R q) P (\<lambda>t. return_owns t r + N t)" "recycle_return r h = (h', pc)"
  shows "heap_at c h' pc R P N"
  using assms(2)
  by (cases r) (auto simp: stored_refs_def stored_places_def count_cons simp del: count_list.simps(2) intro!: heap_ok_moved [OF assms(1)])

text \<open>A thread at \<open>pc\<close> can take its step, and the invariant holds after it.\<close>

abbreviation heap_goes :: "heap_params_t \<Rightarrow> nat \<Rightarrow> heap_pc \<Rightarrow> heap_t \<Rightarrow> (nat \<Rightarrow> nat) \<Rightarrow> (nat \<Rightarrow> nat) \<Rightarrow> (nat \<Rightarrow> nat) \<Rightarrow> bool" where
  "heap_goes c fresh pc h R P N \<equiv> \<exists>h' pc'. heap_step c fresh pc h = Some (h', pc') \<and> heap_at c h' pc' R P N"

lemma slot_load_goes: "heap_at c h (Slot_Load n) R P N \<Longrightarrow> heap_goes c fresh (Slot_Load n) h R P N"
  by (simp add: heap_step_def)

lemma slot_take_goes:
  assumes "heap_at c h (Slot_Take n) R P N"
  shows "heap_goes c fresh (Slot_Take n) h R P N"
proof -
  have n: "n < length (control_blocks h)" using assms by (simp add: heap_ok_def)
  note u = count_update [OF n, of None "Some q" for q]
  show ?thesis
  proof (cases "control_blocks h ! n")
    case None
    then have "(control_blocks h)[n := None] = control_blocks h" by (metis list_update_id)
    then show ?thesis using assms None by (simp add: heap_step_def)
  next
    case (Some p)
    show ?thesis using assms Some u
      by (auto simp: heap_step_def stored_refs_def stored_places_def intro!: heap_ok_moved [OF conjunct1 [OF assms]])
  qed
qed

lemma head_take_goes:
  assumes "heap_at c h Head_Take R P N"
  shows "heap_goes c fresh Head_Take h R P N"
  using assms
  by (cases "recycled h")
    (auto simp: heap_step_def stored_refs_def stored_places_def count_cons simp del: count_list.simps(2) intro!: heap_ok_moved [OF conjunct1 [OF assms]])

lemma head_put_goes:
  assumes "heap_at c h (Head_Put p rest) R P N"
  shows "heap_goes c fresh (Head_Put p rest) h R P N"
  using assms
  by (cases "recycled h = []"; cases "rest = []")
    (auto simp: heap_step_def stored_refs_def stored_places_def intro!: heap_ok_moved [OF conjunct1 [OF assms]])

lemma head_rest_goes:
  assumes "heap_at c h (Head_Rest p rest) R P N"
  shows "heap_goes c fresh (Head_Rest p rest) h R P N"
  using assms
  by (cases rest)
    (auto simp: heap_step_def stored_refs_def stored_places_def count_cons simp del: count_list.simps(2) intro!: heap_ok_moved [OF conjunct1 [OF assms]])

lemma pop_count_goes:
  assumes "heap_at c h (Pop_Count p) R P N"
  shows "heap_goes c fresh (Pop_Count p) h R P N"
  using assms
  by (auto simp: heap_step_def stored_refs_def stored_places_def intro!: heap_ok_moved [OF conjunct1 [OF assms]])

text \<open>A step that rewrites the control block of the thread's block.\<close>

lemma with_cell_goes:
  assumes at: "heap_at c h pc R P N" and b: "cells h p = Some b"
    and step: "heap_step c fresh pc h = Some (h\<lparr>cells := (cells h)(p \<mapsto> b')\<rparr>, pc')"
    and cell: "cell_ok c p (Some b') (stored_refs c p h + (thread_refs c p pc' + R p)) (stored_places p h + (thread_places p pc' + P p))"
    and same: "\<And>q. q \<noteq> p \<Longrightarrow> thread_refs c q pc' = thread_refs c q pc \<and> thread_places q pc' = thread_places q pc"
    and owns: "\<And>t. block_of c t \<noteq> p \<Longrightarrow> thread_owns c t pc' = thread_owns c t pc"
    and bits: "\<And>t. block_of c t = p \<Longrightarrow> item_address c t \<Longrightarrow>
      thread_owns c t pc' + of_bool (bit (bitmap b ! (item_id c t div word_bits)) (item_id c t mod word_bits)) =
      thread_owns c t pc + of_bool (bit (bitmap b' ! (item_id c t div word_bits)) (item_id c t mod word_bits))"
    and none: "\<And>t. block_of c t = p \<Longrightarrow> \<not> item_address c t \<Longrightarrow> thread_owns c t pc' = thread_owns c t pc"
    and ok: "pc_ok c pc'"
  shows "heap_goes c fresh pc h R P N"
proof -
  let ?h = "h\<lparr>cells := (cells h)(p \<mapsto> b')\<rparr>"
  have "heap_ok c ?h (\<lambda>q. thread_refs c q pc' + R q) (\<lambda>q. thread_places q pc' + P q) (\<lambda>t. thread_owns c t pc' + N t)"
  proof (rule heap_ok_changed [of c h _ _ _ p])
    fix t
    assume t: "block_of c t = p"
    have "count_list (held h) t + (thread_owns c t pc + N t) = of_bool (item_bit c h t)" using at by (simp add: heap_ok_def)
    then show "count_list (held h) t + (thread_owns c t pc' + N t) = of_bool (item_bit c ?h t)"
      using bits [OF t] none [OF t] t b by (cases "item_address c t") (auto simp: item_bit_def)
  qed (use at cell same owns in simp_all)
  with step ok show ?thesis by simp
qed

lemma unmanage_goes:
  assumes "heap_at c h (Unmanage p) R P N"
  shows "heap_goes c fresh (Unmanage p) h R P N"
proof -
  obtain b where b: "cells h p = Some b" "ref_count b = stored_refs c p h + 1 + R p" "of_bool (managed b) = stored_places p h + 1 + P p"
    "length (bitmap b) = bitmap_block_size c" "heap_block_size c dvd p" using live_block [OF assms, of p] by auto
  then have "stored_places p h + P p = 0" by (cases "managed b") auto
  with b show ?thesis by (intro with_cell_goes [OF assms b(1), where b' = "b\<lparr>managed := False\<rparr>" and pc' = "Find_Bit p 0"]) (simp_all add: heap_step_def with_cell_def)
qed

lemma new_block_goes:
  assumes at: "heap_at c h New_Block R P N" and fresh: "cells h fresh = None" "heap_block_size c dvd fresh" and le: "\<And>q. P q \<le> R q"
  shows "heap_goes c fresh New_Block h R P N"
proof -
  let ?b = "\<lparr>ref_count = 1, managed = False, bitmap = replicate (bitmap_block_size c) 0\<rparr>"
  let ?h = "h\<lparr>cells := (cells h)(fresh \<mapsto> ?b)\<rparr>"
  have "stored_refs c fresh h + R fresh = 0" using at fresh(1) by (auto simp: heap_ok_def dest: spec [of _ fresh])
  then have z: "stored_refs c fresh h = 0" "stored_places fresh h = 0" "R fresh = 0" "P fresh = 0"
    using le [of fresh] by (auto simp: stored_refs_def stored_places_def)
  have "heap_ok c ?h (\<lambda>q. of_bool (fresh = q) + R q) P N"
  proof (rule heap_ok_changed [of c h _ _ _ fresh])
    fix t
    assume t: "block_of c t = fresh"
    have "count_list (held h) t + N t = of_bool (item_bit c h t)" using at by (simp add: heap_ok_def)
    moreover have "\<not> item_bit c h t" using t fresh by (simp add: item_bit_def)
    moreover have "\<not> item_bit c ?h t" using t item_page [of c t] by (auto simp: item_bit_def)
    ultimately show "count_list (held h) t + N t = of_bool (item_bit c ?h t)" by simp
  qed (use at z fresh(2) in simp_all)
  then show ?thesis by (simp add: heap_step_def with_cell_def)
qed

lemma find_bit_goes:
  assumes at: "heap_at c h (Find_Bit p n) R P N"
  shows "heap_goes c fresh (Find_Bit p n) h R P N"
proof (cases "n < bitmap_block_size c")
  case n: True
  obtain b where b: "cells h p = Some b" "ref_count b = stored_refs c p h + 1 + R p" "of_bool (managed b) = stored_places p h + P p"
    "length (bitmap b) = bitmap_block_size c" "heap_block_size c dvd p" using live_block [OF at, of p] by auto
  let ?w = "iris_get_alignment (bitmap b ! n + 1)"
  have "pc_ok c (Set_Bit p n ?w)" if "bitmap b ! n \<noteq> NOT 0"
  proof -
    have v: "bitmap b ! n + 1 \<noteq> 0" using that by (metis add_eq_0_iff2 bit.compl_zero)
    then have "?w \<noteq> 0" using get_alignment_spec [OF v] trailing_zeros_spec [OF v] bit_imp_le_length by fastforce
    from free_bit_spec [of "bitmap b ! n", unfolded free_bit_alignment, OF this] n show ?thesis by simp
  qed
  then show ?thesis using b n
    by (intro with_cell_goes [OF at b(1), where b' = b and pc' = "if bitmap b ! n \<noteq> NOT 0 then Set_Bit p n ?w else Find_Bit p (n + 1)"])
      (simp_all add: heap_step_def with_cell_def)
qed (use at in \<open>simp add: heap_step_def with_cell_def\<close>)

lemma and_single_bit: "(w :: size_t) AND 2 ^ i = 0 \<longleftrightarrow> \<not> bit w i" if "i < word_bits"
proof
  assume "w AND 2 ^ i = 0"
  then have "\<not> bit (w AND 2 ^ i) i" by simp
  then show "\<not> bit w i" using that by (simp add: bit_and_iff bit_exp_iff word_bits_def)
next
  assume "\<not> bit w i"
  then show "w AND 2 ^ i = 0" by (intro bit_eqI) (auto simp: bit_and_iff bit_exp_iff)
qed

lemma set_bit_goes:
  assumes par: "heap_params_ok c" and at: "heap_at c h (Set_Bit p n w) R P N"
  shows "heap_goes c fresh (Set_Bit p n w) h R P N"
proof -
  obtain b where b: "cells h p = Some b" "ref_count b = stored_refs c p h + 1 + R p" "of_bool (managed b) = stored_places p h + P p"
    "length (bitmap b) = bitmap_block_size c" "heap_block_size c dvd p" using live_block [OF at, of p] by auto
  define i where "i = iris_get_trailing_zeros w"
  define index where "index = i + header_items c + n * word_bits"
  define b' where "b' = b\<lparr>bitmap := (bitmap b)[n := bitmap b ! n OR w]\<rparr>"
  have w: "n < bitmap_block_size c" "i < word_bits" "w = 2 ^ i" using at by (simp_all add: i_def flip: push_bit_of_1)
  define pc' where "pc' = (if bitmap b ! n AND w = 0 \<and> index < item_count c then Add_Ref p index else Find_Bit p (n + 1))"
  have test: "bitmap b ! n AND w = 0 \<longleftrightarrow> \<not> bit (bitmap b ! n) i" using and_single_bit [OF w(2)] w(3) by simp
  have page: "(n * word_bits + i) div word_bits = n" "(n * word_bits + i) mod word_bits = i" using w(2) by (simp_all add: word_bits_def)
  have new: "bit (bitmap b' ! (j div word_bits)) (j mod word_bits) \<longleftrightarrow>
      bit (bitmap b ! (j div word_bits)) (j mod word_bits) \<or> j = n * word_bits + i" for j
    unfolding b'_def using set_bit_in [of n "bitmap b" i j] w b(4) by simp
  show ?thesis
  proof (rule with_cell_goes [OF at b(1), where b' = b' and pc' = pc'])
    fix t
    assume t: "block_of c t = p" "item_address c t"
    have old: "item_id c t = n * word_bits + i \<Longrightarrow> bit (bitmap b ! (item_id c t div word_bits)) (item_id c t mod word_bits) \<longleftrightarrow> bit (bitmap b ! n) i"
      by (simp only: page)
    have eq: "p + index * item_size c = t \<longleftrightarrow> item_id c t = n * word_bits + i" if lt: "index < item_count c"
    proof -
      have h: "header_items c \<le> index" by (simp add: index_def)
      have "item_id c (p + index * item_size c) = n * word_bits + i" using item_address_of(2) [OF par b(5) h lt] by (simp add: index_def)
      then show ?thesis using item_address_unique [OF item_address_of(1) [OF par b(5) h lt] t(2)] block_of_item [OF par b(5) lt] t(1) by auto
    qed
    have out: "item_id c t \<noteq> n * word_bits + i" if "\<not> index < item_count c"
      using item_address_form(2) [OF t(2)] that by (auto simp: index_def)
    show "thread_owns c t pc' + of_bool (bit (bitmap b ! (item_id c t div word_bits)) (item_id c t mod word_bits)) =
        thread_owns c t (Set_Bit p n w) + of_bool (bit (bitmap b' ! (item_id c t div word_bits)) (item_id c t mod word_bits))"
      unfolding new using old eq out test by (auto simp: pc'_def)
  next
    fix t
    assume t: "block_of c t = p" "\<not> item_address c t"
    have "p + index * item_size c \<noteq> t" if "index < item_count c"
      using item_address_of(1) [OF par b(5) _ that] t(2) by (auto simp: index_def)
    then show "thread_owns c t pc' = thread_owns c t (Set_Bit p n w)" by (simp add: pc'_def)
  next
    fix t
    assume "block_of c t \<noteq> p"
    then have "p + index * item_size c \<noteq> t" if "index < item_count c" using block_of_item [OF par b(5) that] by auto
    then show "thread_owns c t pc' = thread_owns c t (Set_Bit p n w)" by (simp add: pc'_def)
  qed (use b in \<open>simp_all add: heap_step_def with_cell_def b'_def pc'_def Let_def index_def i_def\<close>)
qed

lemma add_ref_goes:
  assumes par: "heap_params_ok c" and at: "heap_at c h (Add_Ref p index) R P N"
  shows "heap_goes c fresh (Add_Ref p index) h R P N"
proof -
  obtain b where b: "cells h p = Some b" "ref_count b = stored_refs c p h + 1 + R p" "of_bool (managed b) = stored_places p h + P p"
    "length (bitmap b) = bitmap_block_size c" "heap_block_size c dvd p" using live_block [OF at, of p] by auto
  have "block_of c (p + index * item_size c) = p" using at by (intro block_of_item [OF par b(5)]) simp
  then show ?thesis using b
    by (intro with_cell_goes [OF at b(1), where b' = "b\<lparr>ref_count := ref_count b + 1\<rparr>" and pc' = "Check_Managed p (Return_Item (p + index * item_size c))"])
      (simp_all add: heap_step_def with_cell_def)
qed

lemma clear_bit_goes:
  assumes at: "heap_at c h (Clear_Bit t) R P N"
  shows "heap_goes c fresh (Clear_Bit t) h R P N"
proof -
  define p where "p = block_of c t"
  obtain b where b: "cells h p = Some b" "ref_count b = stored_refs c p h + 1 + R p" "of_bool (managed b) = stored_places p h + P p"
    "length (bitmap b) = bitmap_block_size c" "heap_block_size c dvd p" using live_block [OF at, of p] by (auto simp: p_def)
  define id where "id = item_id c t"
  have "\<forall>u. count_list (held h) u + (thread_owns c u (Clear_Bit t) + N u) = of_bool (item_bit c h u)" using at by (simp add: heap_ok_def)
  from spec [OF this, of t] have "item_bit c h t" by (cases "item_bit c h t") simp_all
  then have it: "item_address c t" "bit (bitmap b ! (id div word_bits)) (id mod word_bits)"
    using b(1) by (auto simp: item_bit_def id_def p_def split: if_splits) 
  define b' where "b' = b\<lparr>bitmap := (bitmap b)[id div word_bits := bitmap b ! (id div word_bits) AND NOT (push_bit (id mod word_bits) 1)]\<rparr>"
  have new: "bit (bitmap b' ! (j div word_bits)) (j mod word_bits) \<longleftrightarrow> bit (bitmap b ! (j div word_bits)) (j mod word_bits) \<and> j \<noteq> id" for j
    unfolding b'_def using clear_bit_in [of "id div word_bits" "bitmap b" "id mod word_bits" j] item_page [OF it(1)] b(4) by (simp add: id_def)
  show ?thesis
  proof (rule with_cell_goes [OF at b(1), where b' = b' and pc' = "Check_Managed p Return_Done"])
    fix u
    assume u: "block_of c u = p" "item_address c u"
    have "item_id c u = id \<longleftrightarrow> t = u" using item_address_unique [OF u(2) it(1)] u(1) by (auto simp: id_def p_def)
    then show "thread_owns c u (Check_Managed p Return_Done) + of_bool (bit (bitmap b ! (item_id c u div word_bits)) (item_id c u mod word_bits)) =
        thread_owns c u (Clear_Bit t) + of_bool (bit (bitmap b' ! (item_id c u div word_bits)) (item_id c u mod word_bits))"
      unfolding new using it(2) by (auto simp: id_def)
  next
    fix u
    assume "block_of c u = p" "\<not> item_address c u"
    then show "thread_owns c u (Check_Managed p Return_Done) = thread_owns c u (Clear_Bit t)" using it(1) by auto
  qed (use b in \<open>auto simp: heap_step_def with_cell_def b'_def Let_def id_def p_def\<close>)
qed

lemma check_managed_goes:
  assumes at: "heap_at c h (Check_Managed p r) R P N"
  shows "heap_goes c fresh (Check_Managed p r) h R P N"
proof -
  obtain b where b: "cells h p = Some b" "ref_count b = stored_refs c p h + (1 + return_refs c p r) + R p"
    "of_bool (managed b) = stored_places p h + P p" "length (bitmap b) = bitmap_block_size c" "heap_block_size c dvd p"
    using live_block [OF at, of p] by auto
  then show ?thesis
    by (intro with_cell_goes [OF at b(1), where b' = b and pc' = "if managed b then Try_Free p r else Check_Limit p r"])
      (simp_all add: heap_step_def with_cell_def)
qed

lemma check_limit_goes: "heap_at c h (Check_Limit p r) R P N \<Longrightarrow> heap_goes c fresh (Check_Limit p r) h R P N"
  by (simp add: heap_step_def)

lemma claim_goes:
  assumes at: "heap_at c h (Claim p r) R P N"
  shows "heap_goes c fresh (Claim p r) h R P N"
proof -
  obtain b where b: "cells h p = Some b" "ref_count b = stored_refs c p h + (1 + return_refs c p r) + R p"
    "of_bool (managed b) = stored_places p h + P p" "length (bitmap b) = bitmap_block_size c" "heap_block_size c dvd p"
    using live_block [OF at, of p] by auto
  then show ?thesis
    by (intro with_cell_goes [OF at b(1), where b' = "b\<lparr>managed := True\<rparr>" and pc' = "if managed b then Try_Free p r else Slot_Put p 0 r"])
      (auto simp: heap_step_def with_cell_def)
qed

lemma slot_put_goes:
  assumes at: "heap_at c h (Slot_Put p n r) R P N"
  shows "heap_goes c fresh (Slot_Put p n r) h R P N"
proof (cases "n < slot_count c \<and> control_blocks h ! n = None")
  case True
  then have n: "n < length (control_blocks h)" "control_blocks h ! n = None" using at by (simp_all add: heap_ok_def)
  let ?h = "h\<lparr>control_blocks := (control_blocks h)[n := Some p]\<rparr>"
  have "heap_ok c ?h (\<lambda>q. return_refs c q r + R q) P (\<lambda>t. return_owns t r + N t)"
    using count_update [OF n(1), of "Some p" "Some q" for q] n(2)
    by (auto simp: stored_refs_def stored_places_def intro!: heap_ok_moved [OF conjunct1 [OF at]])
  from recycle_return_ok [OF this] show ?thesis using True by (cases "recycle_return r ?h") (simp add: heap_step_def)
qed (use at in \<open>auto simp: heap_step_def\<close>)

lemma push_count_goes:
  assumes "heap_at c h (Push_Count p r) R P N"
  shows "heap_goes c fresh (Push_Count p r) h R P N"
  using assms by (auto simp: heap_step_def stored_refs_def stored_places_def intro!: heap_ok_moved [OF conjunct1 [OF assms]])

lemma push_goes:
  assumes at: "heap_at c h (Push p r) R P N"
  shows "heap_goes c fresh (Push p r) h R P N"
proof -
  let ?h = "h\<lparr>recycled := p # recycled h\<rparr>"
  have "heap_ok c ?h (\<lambda>q. return_refs c q r + R q) P (\<lambda>t. return_owns t r + N t)"
    by (auto simp: stored_refs_def stored_places_def count_cons simp del: count_list.simps(2) intro!: heap_ok_moved [OF conjunct1 [OF at]])
  from recycle_return_ok [OF this] show ?thesis by (cases "recycle_return r ?h") (simp add: heap_step_def)
qed

text \<open>An item that somebody owns is a reference to its block.\<close>

lemma return_owns_le: "return_owns t r \<le> return_refs c (block_of c t) r"
  by (cases r) auto

lemma count_map_le: "count_list xs x \<le> count_list (map f xs) (f x)"
  by (induction xs) auto

lemma try_free_goes:
  assumes at: "heap_at c h (Try_Free p r) R P N" and le: "\<And>t. N t \<le> R (block_of c t)"
  shows "heap_goes c fresh (Try_Free p r) h R P N"
proof -
  obtain b where b: "cells h p = Some b" "ref_count b = stored_refs c p h + (1 + return_refs c p r) + R p"
    "of_bool (managed b) = stored_places p h + P p" "length (bitmap b) = bitmap_block_size c" "heap_block_size c dvd p"
    using live_block [OF at, of p] by auto
  let ?h = "h\<lparr>cells := (if ref_count b = 1 then (cells h)(p := None) else (cells h)(p \<mapsto> b\<lparr>ref_count := ref_count b - 1\<rparr>))\<rparr>"
  have "heap_ok c ?h (\<lambda>q. return_refs c q r + R q) P (\<lambda>t. return_owns t r + N t)"
  proof (rule heap_ok_changed [OF conjunct1 [OF at], of p])
    fix t
    assume t: "block_of c t = p"
    have n: "\<forall>t. count_list (held h) t + (return_owns t r + N t) = of_bool (item_bit c h t)" using at by (simp add: heap_ok_def)
    show "count_list (held h) t + (return_owns t r + N t) = of_bool (item_bit c ?h t)"
    proof (cases "ref_count b = 1")
      case True
      then have z: "stored_refs c p h = 0" "return_refs c p r = 0" "R p = 0" using b(2) by simp_all
      have "count_list (held h) t = 0" using z(1) count_map_le [of "held h" t "block_of c"] t by (simp add: stored_refs_def)
      moreover have "return_owns t r = 0" using z(2) return_owns_le [of t r c] t by simp
      moreover have "N t = 0" using z(3) le [of t] t by simp
      ultimately show ?thesis using True t by (simp add: item_bit_def)
    qed (use t n b(1) in \<open>simp add: item_bit_def\<close>)
  qed (use b in auto)
  from recycle_return_ok [OF this] show ?thesis using b(1) by (cases "recycle_return r ?h") (simp add: heap_step_def)
qed

lemma heap_goes_all:
  assumes "heap_params_ok c" "heap_at c h pc R P N" "pc \<noteq> Idle" "cells h fresh = None" "heap_block_size c dvd fresh"
    and "\<And>q. P q \<le> R q" "\<And>t. N t \<le> R (block_of c t)"
  shows "heap_goes c fresh pc h R P N"
proof (cases pc)
  case Slot_Load show ?thesis using assms(2) unfolding Slot_Load by (rule slot_load_goes)
next
  case Slot_Take show ?thesis using assms(2) unfolding Slot_Take by (rule slot_take_goes)
next
  case Head_Take show ?thesis using assms(2) unfolding Head_Take by (rule head_take_goes)
next
  case Head_Put show ?thesis using assms(2) unfolding Head_Put by (rule head_put_goes)
next
  case Head_Rest show ?thesis using assms(2) unfolding Head_Rest by (rule head_rest_goes)
next
  case Pop_Count show ?thesis using assms(2) unfolding Pop_Count by (rule pop_count_goes)
next
  case Unmanage show ?thesis using assms(2) unfolding Unmanage by (rule unmanage_goes)
next
  case New_Block show ?thesis using assms(2,4-6) unfolding New_Block by (rule new_block_goes)
next
  case Find_Bit show ?thesis using assms(2) unfolding Find_Bit by (rule find_bit_goes)
next
  case Set_Bit show ?thesis using assms(1,2) unfolding Set_Bit by (rule set_bit_goes)
next
  case Add_Ref show ?thesis using assms(1,2) unfolding Add_Ref by (rule add_ref_goes)
next
  case Clear_Bit show ?thesis using assms(2) unfolding Clear_Bit by (rule clear_bit_goes)
next
  case Check_Managed show ?thesis using assms(2) unfolding Check_Managed by (rule check_managed_goes)
next
  case Check_Limit show ?thesis using assms(2) unfolding Check_Limit by (rule check_limit_goes)
next
  case Claim show ?thesis using assms(2) unfolding Claim by (rule claim_goes)
next
  case Slot_Put show ?thesis using assms(2) unfolding Slot_Put by (rule slot_put_goes)
next
  case Push_Count show ?thesis using assms(2) unfolding Push_Count by (rule push_count_goes)
next
  case Push show ?thesis using assms(2) unfolding Push by (rule push_goes)
next
  case Try_Free show ?thesis using assms(2,7) unfolding Try_Free by (rule try_free_goes)
qed (use assms(3) in simp)

section \<open>All threads\<close>

fun heap_inv :: "heap_params_t \<Rightarrow> heap_t \<times> heap_pc list \<Rightarrow> bool" where
  "heap_inv c (h, pcs) \<longleftrightarrow>
     heap_ok c h (\<lambda>q. \<Sum>pc \<leftarrow> pcs. thread_refs c q pc) (\<lambda>q. \<Sum>pc \<leftarrow> pcs. thread_places q pc) (\<lambda>t. \<Sum>pc \<leftarrow> pcs. thread_owns c t pc) \<and>
     list_all (pc_ok c) pcs"

lemma places_le_refs: "thread_places q pc \<le> thread_refs c q pc"
  by (cases pc) auto

lemma owns_le_refs: "heap_params_ok c \<Longrightarrow> pc_ok c pc \<Longrightarrow> thread_owns c t pc \<le> thread_refs c (block_of c t) pc"
  using return_owns_le [of t _ c] by (cases pc) (auto simp: block_of_item intro: trans_le_add2 le_SucI)

lemma heap_inv_split:
  assumes "i < length pcs"
  shows "heap_inv c (h, pcs[i := pc]) \<longleftrightarrow>
    heap_at c h pc (\<lambda>q. \<Sum>x \<leftarrow> others i pcs. thread_refs c q x) (\<lambda>q. \<Sum>x \<leftarrow> others i pcs. thread_places q x)
      (\<lambda>t. \<Sum>x \<leftarrow> others i pcs. thread_owns c t x) \<and> list_all (pc_ok c) (others i pcs)"
  using assms by (auto simp only: heap_inv.simps sum_others_update list_all_others)

lemma heap_inv_at:
  assumes "heap_inv c (h, pcs)" "i < length pcs"
  shows "heap_at c h (pcs ! i) (\<lambda>q. \<Sum>x \<leftarrow> others i pcs. thread_refs c q x) (\<lambda>q. \<Sum>x \<leftarrow> others i pcs. thread_places q x)
      (\<lambda>t. \<Sum>x \<leftarrow> others i pcs. thread_owns c t x) \<and> list_all (pc_ok c) (others i pcs)"
  using assms heap_inv_split [OF assms(2), of c h "pcs ! i"] by (simp only: list_update_id)

lemma heap_inv_goes:
  assumes par: "heap_params_ok c" and inv: "heap_inv c (h, pcs)" and i: "i < length pcs" "pcs ! i \<noteq> Idle"
    and fresh: "cells h fresh = None" "heap_block_size c dvd fresh"
  shows "\<exists>h' pc. heap_step c fresh (pcs ! i) h = Some (h', pc) \<and> heap_inv c (h', pcs[i := pc])"
proof -
  note at = heap_inv_at [OF inv i(1)]
  have "(\<Sum>x \<leftarrow> others i pcs. thread_places q x) \<le> (\<Sum>x \<leftarrow> others i pcs. thread_refs c q x)" for q
    by (rule sum_list_mono) (rule places_le_refs)
  moreover have "(\<Sum>x \<leftarrow> others i pcs. thread_owns c t x) \<le> (\<Sum>x \<leftarrow> others i pcs. thread_refs c (block_of c t) x)" for t
    using at by (intro sum_list_mono owns_le_refs [OF par]) (auto simp: list_all_iff)
  ultimately show ?thesis using heap_goes_all [OF par conjunct1 [OF at] i(2) fresh] at unfolding heap_inv_split [OF i(1)] by blast
qed

lemma count_removed:
  "n < length xs \<Longrightarrow> count_list (take n xs @ drop (Suc n) xs) x + of_bool (xs ! n = x) = count_list xs x"
  by (subst (3) id_take_nth_drop [of n xs]) (simp_all add: count_list_append)

lemma start_allocate_inv:
  assumes "heap_inv c (h, pcs)" "i < length pcs" "pcs ! i = Idle"
  shows "heap_inv c (h, pcs[i := Slot_Load 0])"
  using heap_inv_at [OF assms(1,2)] unfolding heap_inv_split [OF assms(2)] assms(3) by simp

lemma start_deallocate_inv:
  assumes "heap_inv c (h, pcs)" "i < length pcs" "pcs ! i = Idle" "n < length (held h)"
  shows "heap_inv c (h\<lparr>held := take n (held h) @ drop (Suc n) (held h)\<rparr>, pcs[i := Clear_Bit (held h ! n)])"
proof -
  note at = heap_inv_at [OF assms(1,2), unfolded assms(3)]
  have refs: "count_list (map (block_of c) (take n (held h) @ drop (Suc n) (held h))) q + of_bool (block_of c (held h ! n) = q) =
      count_list (map (block_of c) (held h)) q" for q
    using count_removed [of n "map (block_of c) (held h)" q] assms(4) by (simp add: take_map drop_map)
  show ?thesis
    unfolding heap_inv_split [OF assms(2)]
  proof (intro conjI heap_ok_moved [OF conjunct1 [OF conjunct1 [OF at]]])
    fix q
    show "stored_refs c q (h\<lparr>held := take n (held h) @ drop (Suc n) (held h)\<rparr>) +
        (thread_refs c q (Clear_Bit (held h ! n)) + (\<Sum>x \<leftarrow> others i pcs. thread_refs c q x)) =
        stored_refs c q h + (thread_refs c q Idle + (\<Sum>x \<leftarrow> others i pcs. thread_refs c q x))"
      using refs [of q] by (simp add: stored_refs_def del: map_append)
  next
    fix t
    show "count_list (held (h\<lparr>held := take n (held h) @ drop (Suc n) (held h)\<rparr>)) t +
        (thread_owns c t (Clear_Bit (held h ! n)) + (\<Sum>x \<leftarrow> others i pcs. thread_owns c t x)) =
        count_list (held h) t + (thread_owns c t Idle + (\<Sum>x \<leftarrow> others i pcs. thread_owns c t x))"
      using count_removed [OF assms(4), of t] by (simp del: count_list_append)
  qed (use at in \<open>simp_all add: stored_places_def\<close>)
qed

lemma heap_run_inv:
  assumes "heap_params_ok c" "heap_inv c s" "heap_run c s s'"
  shows "heap_inv c s'"
  using assms(3)
proof cases
  case (run_thread i pcs h fresh h' pc)
  have "pcs ! i \<noteq> Idle" using run_thread(6) by (auto simp: heap_step_def)
  from heap_inv_goes [OF assms(1) _ run_thread(3) this run_thread(4,5)] assms(2) run_thread show ?thesis by auto
qed (use assms(2) start_allocate_inv start_deallocate_inv in auto)

interpretation heap: step_invariant "heap_run c" "\<lambda>s. heap_params_ok c \<and> heap_inv c s" for c
  by unfold_locales (auto intro: heap_run_inv)

lemma heap_make_inv: "heap_inv c (heap_make c, replicate m Idle)"
proof -
  have "(\<Sum>pc \<leftarrow> replicate m Idle. f pc) = 0" if "f Idle = (0 :: nat)" for f using that by (induction m) auto
  then show ?thesis
    by (simp add: heap_ok_def heap_make_def stored_refs_def stored_places_def item_bit_def list_all_iff del: replicate.simps)
qed

section \<open>Runs of one thread\<close>

text \<open>One thread alone; the list has the block the root allocator would hand out at each step.\<close>

fun run_alone :: "heap_params_t \<Rightarrow> nat list \<Rightarrow> heap_t \<times> heap_pc \<Rightarrow> (heap_t \<times> heap_pc) option" where
  "run_alone c [] s = Some s"
| "run_alone c (f # fs) (h, pc) =
     (if cells h f = None \<and> heap_block_size c dvd f then
        case heap_step c f pc h of None \<Rightarrow> None | Some s \<Rightarrow> run_alone c fs s
      else None)"

lemma run_alone_reaches: "run_alone c fs (h, pc) = Some (h', pc') \<Longrightarrow> (heap_run c)\<^sup>*\<^sup>* (h, [pc]) (h', [pc'])"
proof (induction c fs "(h, pc)" arbitrary: h pc rule: run_alone.induct)
  case (2 c f fs h pc)
  then obtain h1 pc1 where s: "heap_step c f pc h = Some (h1, pc1)" "run_alone c fs (h1, pc1) = Some (h', pc')" "cells h f = None" "heap_block_size c dvd f"
    by (auto split: if_splits option.splits)
  have "heap_run c (h, [pc]) (h1, [pc1])" using run_thread [of 0 "[pc]" h f c h1 pc1] s by simp
  then show ?case using 2(1) [OF _ s(1,2)] s(3,4) by (simp add: converse_rtranclp_into_rtranclp)
qed simp

lemma allocation_reaches:
  "run_alone c fs (heap_make c, Slot_Load 0) = Some (h', pc') \<Longrightarrow> (heap_run c)\<^sup>*\<^sup>* (heap_make c, replicate 1 Idle) (h', [pc'])"
  using start_allocate [of 0 "[Idle]" c "heap_make c"] run_alone_reaches by (fastforce intro: converse_rtranclp_into_rtranclp)

section \<open>Properties\<close>

lemma idle_sum: "list_all (\<lambda>pc. pc = Idle) pcs \<Longrightarrow> f Idle = (0 :: nat) \<Longrightarrow> (\<Sum>pc \<leftarrow> pcs. f pc) = 0"
  by (induction pcs) auto

lemma count_le_one_distinct: "(\<And>x. count_list xs x \<le> 1) \<Longrightarrow> distinct xs"
proof (induction xs)
  case (Cons a xs)
  have "count_list xs x \<le> 1" for x using Cons.prems [of x] by (simp split: if_splits)
  moreover have "count_list xs a = 0" using Cons.prems [of a] by simp
  ultimately show ?case using Cons.IH by (auto simp: count_list_0_iff)
qed simp

lemma header_covers: "0 < item_size c \<Longrightarrow> 8 * (4 + bitmap_block_size c) \<le> header_items c * item_size c"
proof -
  assume k: "0 < item_size c"
  let ?x = "8 * (4 + bitmap_block_size c)"
  have "?x + item_size c - 1 = header_items c * item_size c + (?x + item_size c - 1) mod item_size c" by (simp add: header_items_def)
  moreover have "(?x + item_size c - 1) mod item_size c < item_size c" using k by simp
  ultimately show ?thesis by linarith
qed

lemma held_item:
  assumes "heap_inv c (h, pcs)" "t \<in> set (held h)"
  shows "item_bit c h t" "count_list (held h) t = 1"
proof -
  have "\<forall>t. count_list (held h) t + (\<Sum>pc \<leftarrow> pcs. thread_owns c t pc) = of_bool (item_bit c h t)" using assms(1) by (simp add: heap_ok_def)
  note n = spec [OF this, of t]
  moreover have "0 < count_list (held h) t" using assms(2) by (meson count_list_0_iff neq0_conv)
  ultimately show "item_bit c h t" "count_list (held h) t = 1" by (cases "item_bit c h t"; simp)+
qed

lemma heap_reachable:
  assumes "heap_params_ok c" "(heap_run c)\<^sup>*\<^sup>* (heap_make c, replicate m Idle) (h, pcs)"
  shows "heap_inv c (h, pcs)"
  using heap.reachable_inv [OF assms(2)] assms(1) heap_make_inv by auto

text \<open>
  C24. The block allocator with any number of threads that allocate and deallocate, one access to a shared atomic at a time, from the empty
  allocator on: the items the clients hold are distinct and do not overlap, each lies in a block that was not given back, behind its control
  block; and no thread touches the control block of a block that was given back.
\<close>

theorem heap_items_apart:
  assumes "heap_params_ok c" and "(heap_run c)\<^sup>*\<^sup>* (heap_make c, replicate m Idle) (h, pcs)"
  shows "distinct (held h) \<and>
    (\<forall>t \<in> set (held h). \<exists>p. cells h p \<noteq> None \<and> p + 8 * (4 + bitmap_block_size c) \<le> t \<and> t + item_size c \<le> p + heap_block_size c) \<and>
    (\<forall>t \<in> set (held h). \<forall>u \<in> set (held h). t = u \<or> t + item_size c \<le> u \<or> u + item_size c \<le> t) \<and>
    (\<forall>i < length pcs. \<forall>fresh. pcs ! i \<noteq> Idle \<and> cells h fresh = None \<and> heap_block_size c dvd fresh \<longrightarrow> heap_step c fresh (pcs ! i) h \<noteq> None)"
proof (intro conjI ballI allI impI)
  note inv = heap_reachable [OF assms]
  have k: "0 < item_size c" using assms(1) by (simp add: heap_params_ok_def)
  show "distinct (held h)"
    using held_item(2) [OF inv] by (intro count_le_one_distinct) (metis count_list_0_iff le_numeral_extra(4) zero_le)
  fix t
  assume t: "t \<in> set (held h)"
  let ?id = "item_id c t + header_items c"
  obtain b where b: "cells h (block_of c t) = Some b" "item_address c t"
    using held_item(1) [OF inv t] by (auto simp: item_bit_def split: option.splits)
  note form = item_address_form [OF b(2)]
  have "header_items c * item_size c \<le> ?id * item_size c" by (rule mult_le_mono1) simp
  then have "block_of c t + 8 * (4 + bitmap_block_size c) \<le> t" using header_covers [OF k] form(1) by linarith
  moreover have "t + item_size c \<le> block_of c t + heap_block_size c" using item_offset [OF form(2)] form(1) by linarith
  ultimately show "\<exists>p. cells h p \<noteq> None \<and> p + 8 * (4 + bitmap_block_size c) \<le> t \<and> t + item_size c \<le> p + heap_block_size c" using b(1) by blast
  fix u
  assume u: "u \<in> set (held h)"
  then have a: "item_address c u" using held_item(1) [OF inv u] by (simp add: item_bit_def)
  have dvd: "heap_block_size c dvd block_of c x" for x by (simp add: block_of_def dvd_minus_mod)
  have apart: "x + item_size c \<le> y" if "item_address c x" "item_address c y" "x < y" for x y
  proof (cases "block_of c x = block_of c y")
    case True
    let ?i = "item_id c x + header_items c" and ?j = "item_id c y + header_items c"
    note e = item_address_form(1) [OF that(1)] item_address_form(1) [OF that(2), folded True]
    have "?i * item_size c < ?j * item_size c" using e that(3) by linarith
    then have "Suc ?i * item_size c \<le> ?j * item_size c" by (intro mult_le_mono1) simp
    then show ?thesis using e by simp
  next
    case False
    note e = item_address_form [OF that(1)] item_address_form [OF that(2)]
    have "\<not> block_of c y < block_of c x"
    proof
      assume "block_of c y < block_of c x"
      then have "block_of c y + heap_block_size c \<le> block_of c x" using dvd [of x] dvd [of y] by (metis dvd_imp_le dvd_diff_nat le_diff_conv2 less_imp_le zero_less_diff add.commute)
      then show False using item_offset [OF e(4)] e(1,3) that(3) by linarith
    qed
    then have "block_of c x + heap_block_size c \<le> block_of c y"
      using False dvd [of x] dvd [of y] by (metis dvd_imp_le dvd_diff_nat le_diff_conv2 less_imp_le zero_less_diff add.commute nat_neq_iff)
    then show ?thesis using item_offset [OF e(2)] e(1) block_of_le [of c y] by linarith
  qed
  show "t = u \<or> t + item_size c \<le> u \<or> u + item_size c \<le> t" using apart [OF a b(2)] apart [OF b(2) a] by (cases t u rule: linorder_cases) auto
next
  fix i fresh
  assume "i < length pcs" "pcs ! i \<noteq> Idle \<and> cells h fresh = None \<and> heap_block_size c dvd fresh"
  with heap_inv_goes [OF assms(1) heap_reachable [OF assms], of i fresh] show "heap_step c fresh (pcs ! i) h \<noteq> None" by auto
qed

text \<open>The run of an allocation on an empty allocator, in blocks of 96 bytes with items of 8.\<close>

definition example_params :: heap_params_t where
  "example_params = \<lparr>item_size = 8, heap_block_size = 96, recycle_limit = 8, slot_count = 1\<rparr>"

lemma example_run:
  obtains h where "(heap_run example_params)\<^sup>*\<^sup>* (heap_make example_params, replicate 1 Idle) (h, [Idle])" "held h = [136]"
    "cells h 96 = Some \<lparr>ref_count = 2, managed = True, bitmap = [1]\<rparr>"
proof -
  let ?r = "run_alone example_params (replicate 4 96 @ replicate 7 0) (heap_make example_params, Slot_Load 0)"
  have "map_option (\<lambda>(h, pc). (held h, cells h 96, pc)) ?r = Some ([136], Some \<lparr>ref_count = 2, managed = True, bitmap = [1]\<rparr>, Idle)" by code_simp
  then obtain h where h: "?r = Some (h, Idle)" "held h = [136]" "cells h 96 = Some \<lparr>ref_count = 2, managed = True, bitmap = [1]\<rparr>" by auto
  show thesis by (rule that [OF allocation_reaches [OF h(1)] h(2,3)])
qed

lemma example_params_ok: "heap_params_ok example_params"
  by (simp add: heap_params_ok_def example_params_def)

theorem heap_items_apart_witness: "\<exists>t p :: nat. t = 136 \<and> p + 40 \<le> t \<and> t + 8 \<le> p + 96"
proof -
  from example_run obtain h where h: "(heap_run example_params)\<^sup>*\<^sup>* (heap_make example_params, replicate 1 Idle) (h, [Idle])" "held h = [136]" by blast
  have "bitmap_block_size example_params = 1" by code_simp
  then show ?thesis using heap_items_apart [OF example_params_ok h(1)] h(2) by (auto simp: example_params_def)
qed

text \<open>
  C25. The block allocator loses and leaks nothing: in every reachable state a block in a slot or in the recycled list is there once and was not given back.
  When all threads are idle, every block that was not given back holds an item of a client or is kept in one place, its
  reference count is the number of both, it is marked managed exactly when it is kept, and the bits of its items are set exactly for the items in use.
\<close>

theorem heap_nothing_lost:
  assumes "heap_params_ok c" and "(heap_run c)\<^sup>*\<^sup>* (heap_make c, replicate m Idle) (h, pcs)"
  shows "(\<forall>p. count_list (control_blocks h) (Some p) + count_list (recycled h) p \<le> 1) \<and>
    (\<forall>p. Some p \<in> set (control_blocks h) \<or> p \<in> set (recycled h) \<longrightarrow> cells h p \<noteq> None) \<and>
    (list_all (\<lambda>pc. pc = Idle) pcs \<longrightarrow> (\<forall>p b. cells h p = Some b \<longrightarrow>
       ref_count b = length (filter (\<lambda>t. block_of c t = p) (held h)) + of_bool (managed b) \<and> 0 < ref_count b \<and>
       (managed b \<longleftrightarrow> Some p \<in> set (control_blocks h) \<or> p \<in> set (recycled h)) \<and>
       (\<forall>t. block_of c t = p \<and> item_address c t \<longrightarrow>
          (bit (bitmap b ! (item_id c t div word_bits)) (item_id c t mod word_bits) \<longleftrightarrow> t \<in> set (held h)))))"
proof (intro conjI allI impI)
  have inv: "heap_ok c h (\<lambda>q. \<Sum>pc \<leftarrow> pcs. thread_refs c q pc) (\<lambda>q. \<Sum>pc \<leftarrow> pcs. thread_places q pc) (\<lambda>t. \<Sum>pc \<leftarrow> pcs. thread_owns c t pc)"
    using heap_reachable [OF assms] by simp
  fix p
  have ok: "cell_ok c p (cells h p) (stored_refs c p h + (\<Sum>pc \<leftarrow> pcs. thread_refs c p pc)) (stored_places p h + (\<Sum>pc \<leftarrow> pcs. thread_places p pc))"
    using inv by (simp add: heap_ok_def)
  have le: "stored_places p h \<le> stored_refs c p h" by (simp add: stored_places_def stored_refs_def)
  show "count_list (control_blocks h) (Some p) + count_list (recycled h) p \<le> 1"
    using ok le by (cases "cells h p"; cases "managed (the (cells h p))") (auto simp: stored_places_def)
  show "cells h p \<noteq> None" if "Some p \<in> set (control_blocks h) \<or> p \<in> set (recycled h)"
    using ok le that by (cases "cells h p") (auto simp: stored_places_def count_list_0_iff)
  fix b
  assume idle: "list_all (\<lambda>pc. pc = Idle) pcs" and b: "cells h p = Some b"
  have sums: "(\<Sum>pc \<leftarrow> pcs. thread_refs c q pc) = 0" "(\<Sum>pc \<leftarrow> pcs. thread_places q pc) = 0" "(\<Sum>pc \<leftarrow> pcs. thread_owns c t pc) = 0" for q t
    by (simp_all add: idle_sum [OF idle])
  have held: "count_list (map f ts) p = length (filter (\<lambda>t. f t = p) ts)" for f :: "nat \<Rightarrow> nat" and ts by (induction ts) auto
  have places: "stored_places p h = of_bool (managed b)" and refs: "ref_count b = stored_refs c p h" "0 < ref_count b" using ok b by (simp_all add: sums)
  then show "ref_count b = length (filter (\<lambda>t. block_of c t = p) (held h)) + of_bool (managed b)" "0 < ref_count b"
    by (simp_all add: stored_refs_def stored_places_def held)
  show "managed b \<longleftrightarrow> Some p \<in> set (control_blocks h) \<or> p \<in> set (recycled h)"
  proof -
    have "managed b \<longleftrightarrow> stored_places p h \<noteq> 0" using places by simp
    then show ?thesis by (simp add: stored_places_def count_list_0_iff)
  qed
  fix t
  assume t: "block_of c t = p \<and> item_address c t"
  have "count_list (held h) t = of_bool (item_bit c h t)" using inv by (simp add: heap_ok_def sums)
  then have "item_bit c h t \<longleftrightarrow> t \<in> set (held h)" by (metis count_list_0_iff of_bool_eq_0_iff)
  then show "bit (bitmap b ! (item_id c t div word_bits)) (item_id c t mod word_bits) \<longleftrightarrow> t \<in> set (held h)"
    using t b by (simp add: item_bit_def)
qed

theorem heap_nothing_lost_witness:
  "(2 :: nat) = length (filter (\<lambda>t. block_of example_params t = 96) [136]) + of_bool True"
proof -
  from example_run obtain h where h: "(heap_run example_params)\<^sup>*\<^sup>* (heap_make example_params, replicate 1 Idle) (h, [Idle])" "held h = [136]"
    "cells h 96 = Some \<lparr>ref_count = 2, managed = True, bitmap = [1]\<rparr>" by blast
  let ?b = "\<lparr>ref_count = 2, managed = True, bitmap = [1]\<rparr> :: control_block_t"
  have "list_all (\<lambda>pc. pc = Idle) [Idle]" by simp
  with heap_nothing_lost [OF example_params_ok h(1)] h(3)
  have "ref_count ?b = length (filter (\<lambda>t. block_of example_params t = 96) (held h)) + of_bool (managed ?b)" by blast
  then show ?thesis unfolding h(2) by simp
qed

text \<open>When no thread is inside and the clients hold nothing, the destructor gives back every block, each once.\<close>

lemma free_blocks_spec:
  "distinct ps \<Longrightarrow> (\<And>p. p \<in> set ps \<Longrightarrow> cells h p \<noteq> None) \<Longrightarrow>
   \<exists>h'. free_blocks ps h = Some h' \<and> cells h' = (\<lambda>p. if p \<in> set ps then None else cells h p)"
proof (induction ps arbitrary: h)
  case (Cons p ps)
  from Cons.prems(2) [of p] obtain b where b: "cells h p = Some b" by auto
  have "\<exists>h'. free_blocks ps (h\<lparr>cells := (cells h)(p := None)\<rparr>) = Some h' \<and>
      cells h' = (\<lambda>q. if q \<in> set ps then None else cells (h\<lparr>cells := (cells h)(p := None)\<rparr>) q)"
    using Cons.prems by (intro Cons.IH) auto
  then show ?case using b by (auto simp: fun_eq_iff)
qed simp

lemma count_map_filter: "count_list (List.map_filter id xs) p = count_list xs (Some p)"
  by (induction xs) (auto simp: map_filter_simps split: option.splits)

theorem heap_destroy_frees_all:
  assumes "heap_params_ok c" and "(heap_run c)\<^sup>*\<^sup>* (heap_make c, replicate m Idle) (h, pcs)"
    and idle: "list_all (\<lambda>pc. pc = Idle) pcs" "held h = []"
  shows "\<exists>h'. heap_destroy h = Some h' \<and> cells h' = (\<lambda>_. None)"
proof -
  let ?ps = "List.map_filter id (control_blocks h) @ recycled h"
  have inv: "heap_ok c h (\<lambda>q. \<Sum>pc \<leftarrow> pcs. thread_refs c q pc) (\<lambda>q. \<Sum>pc \<leftarrow> pcs. thread_places q pc) (\<lambda>t. \<Sum>pc \<leftarrow> pcs. thread_owns c t pc)"
    using heap_reachable [OF assms(1,2)] by simp
  have ok: "cell_ok c p (cells h p) (stored_refs c p h) (stored_places p h)" for p
    using inv by (simp add: heap_ok_def idle_sum [OF idle(1)])
  have same: "stored_refs c p h = count_list ?ps p" "stored_places p h = count_list ?ps p" for p
    using idle(2) by (simp_all add: stored_refs_def stored_places_def count_map_filter)
  have "count_list ?ps p \<le> 1" for p using ok [of p] by (cases "cells h p") (auto simp: same)
  then have d: "distinct ?ps" by (rule count_le_one_distinct)
  have live: "p \<in> set ?ps \<longleftrightarrow> cells h p \<noteq> None" for p
    using ok [of p] count_list_0_iff [of ?ps p] by (cases "cells h p") (auto simp: same simp del: count_list_append)
  from free_blocks_spec [OF d, of h] obtain h' where "free_blocks ?ps h = Some h'" "cells h' = (\<lambda>p. if p \<in> set ?ps then None else cells h p)"
    using live by blast
  then have "heap_destroy h = Some h' \<and> cells h' = (\<lambda>_. None)" using live by (auto simp: heap_destroy_def fun_eq_iff)
  then show ?thesis by blast
qed

text \<open>
  The unsynchronised allocation leaves a block in its slot and then puts it into the next one too. Fill a block with its seven items, and allocate once more:
  every turn of the loop takes the full block again and drops a reference, until the block is given back with all its items in use; the next turn reads it.
\<close>

definition fill_block :: "heap_t option" where
  "fill_block = (let c = example_params\<lparr>slot_count := 8\<rparr> in
     fold (\<lambda>_ r. Option.bind r (\<lambda>h. map_option snd (allocate_unsafe c [96] h))) [1 .. 7] (Some (heap_make c)))"

theorem allocate_unsafe_frees_items:
  "map_option (\<lambda>h. (held h, control_blocks h, cells h 96 \<noteq> None)) fill_block =
     Some ([184, 176, 168, 160, 152, 144, 136], replicate 7 (Some 96) @ [None], True)"
  "map_option (\<lambda>(r, h). (r, length (held h), cells h 96))
     (Option.bind fill_block (allocate_unsafe (example_params\<lparr>slot_count := 8\<rparr>) (replicate 8 192))) = Some (None, 7, None)"
  "Option.bind fill_block (allocate_unsafe (example_params\<lparr>slot_count := 8\<rparr>) (replicate 9 192)) = None"
  by code_simp+

end
