(* ===== verification/Grid_Warp.thy ===== *)
theory Grid_Warp
  imports Prelude
begin

text \<open>
  The grid variant of \<open>iris_warp_t\<close> in \<open>iris_dispatcher.h\<close>: one queue of tasks for each worker thread, so that threads post without
  contention, and barriers with versions that order the tasks of different threads. The owner of the warp (a single thread, as the theory of the
  strand shows of the same guards) walks over the queues in \<open>execute_internal\<close>; the other threads post tasks and barriers between
  any two of its steps. A barrier is posted in two steps: it takes its version, then it enters the queue. The queues are lists, as
  the theory of the chained queue justifies. Ghost state: the number of barriers issued, with the number before it kept in each routine,
  and the tasks pushed to and started from each queue.
\<close>

section \<open>State and operations\<close>

datatype grid_task = Routine nat nat | Barrier size_t

record grid_t =
  queue_buffers :: "grid_task list list"
  queue_versions :: "size_t list"
  current_version :: size_t
  next_version :: size_t
  barrier_version :: size_t
  posting :: "size_t option list"
  issued :: nat
  pushed :: "grid_task list list"
  started :: "grid_task list list"

definition init_storage :: "nat \<Rightarrow> grid_t" where
  "init_storage thread_count = \<lparr>queue_buffers = replicate thread_count [], queue_versions = replicate thread_count 0,
     current_version = 0, next_version = 0, barrier_version = 0, posting = replicate thread_count None, issued = 0,
     pushed = replicate thread_count [], started = replicate thread_count []\<rparr>"

definition grid_empty :: "grid_t \<Rightarrow> bool" where
  "grid_empty g = list_all (\<lambda>b. b = []) (queue_buffers g)"

text \<open>\<open>push\<close>, by a thread of the pool, or by another one into the first queue.\<close>

definition push_grid :: "nat option \<Rightarrow> grid_task \<Rightarrow> grid_t \<Rightarrow> grid_t" where
  "push_grid thread_index f g =
     (let i = (case thread_index of Some i \<Rightarrow> i | None \<Rightarrow> 0) in
      g\<lparr>queue_buffers := (queue_buffers g)[i := queue_buffers g ! i @ [f]], pushed := (pushed g)[i := pushed g ! i @ [f]]\<rparr>)"

text \<open>\<open>queue_barrier\<close>, in two steps.\<close>

definition barrier_issue :: "nat \<Rightarrow> grid_t \<Rightarrow> grid_t" where
  "barrier_issue i g = g\<lparr>barrier_version := barrier_version g + 1, posting := (posting g)[i := Some (barrier_version g + 1)], issued := issued g + 1\<rparr>"

definition barrier_post :: "nat \<Rightarrow> size_t \<Rightarrow> grid_t \<Rightarrow> grid_t" where
  "barrier_post i v g = push_grid (Some i) (Barrier v) (g\<lparr>posting := (posting g)[i := None]\<rparr>)"

text \<open>\<open>execute_internal\<close>: program points of the owner, with the queue, the version to step to, and the count of executed tasks.\<close>

datatype grid_pc =
    Grid_Away | Round_Start
  | Buffer_Enter nat size_t nat | Buffer_Test nat size_t nat | Task_Run nat grid_task size_t nat | Buffer_Leave nat size_t nat
  | Round_End size_t nat

text \<open>What the function posted by \<open>queue_barrier\<close> does; other routines are those of the clients.\<close>

fun run_task :: "grid_task \<Rightarrow> grid_t \<Rightarrow> grid_t" where
  "run_task (Barrier v) g = g\<lparr>next_version := v\<rparr>"
| "run_task (Routine f e) g = g"

text \<open>\<open>stop\<close>: after the task the warp is suspended, or the thread has left it.\<close>

fun grid_internal_step :: "bool \<Rightarrow> grid_pc \<Rightarrow> grid_t \<Rightarrow> grid_t \<times> grid_pc" where
  "grid_internal_step stop Grid_Away g = (g, Grid_Away)"
| "grid_internal_step stop Round_Start g = (g, Buffer_Enter 0 (current_version g) 0)"
| "grid_internal_step stop (Buffer_Enter i step n) g =
     (if i < length (queue_buffers g) then (g\<lparr>next_version := queue_versions g ! i\<rparr>, Buffer_Test i step n)
      else (g, Round_End step n))"
| "grid_internal_step stop (Buffer_Test i step n) g =
     (if 0 \<le> sint (current_version g - queue_versions g ! i) then
        case queue_buffers g ! i of
          [] \<Rightarrow> (g, Buffer_Leave i step n)
        | f # fs \<Rightarrow> (g\<lparr>queue_buffers := (queue_buffers g)[i := fs], started := (started g)[i := started g ! i @ [f]]\<rparr>, Task_Run i f step n)
      else (g, Buffer_Leave i step n))"
| "grid_internal_step stop (Task_Run i f step n) g =
     (let g1 = run_task f g; g2 = g1\<lparr>queue_versions := (queue_versions g1)[i := next_version g1]\<rparr> in
      (g2, if stop then Grid_Away else Buffer_Test i step (n + 1)))"
| "grid_internal_step stop (Buffer_Leave i step n) g =
     (let counter = queue_versions g ! i in
      if current_version g + 1 = counter then (g, Buffer_Enter (i + 1) counter n)
      else if 0 < sint (current_version g - counter) then (g\<lparr>queue_versions := (queue_versions g)[i := current_version g]\<rparr>, Buffer_Enter (i + 1) step n)
      else (g, Buffer_Enter (i + 1) step n))"
| "grid_internal_step stop (Round_End step n) g = (g\<lparr>current_version := step\<rparr>, if n \<noteq> 0 then Round_Start else Grid_Away)"

inductive grid_step :: "grid_t \<times> grid_pc \<Rightarrow> grid_t \<times> grid_pc \<Rightarrow> bool" where
  post: "i < length (queue_buffers g) \<Longrightarrow> posting g ! i = None \<Longrightarrow> grid_step (g, pc) (push_grid (Some i) (Routine f (issued g)) g, pc)"
| issue: "i < length (queue_buffers g) \<Longrightarrow> posting g ! i = None \<Longrightarrow> grid_step (g, pc) (barrier_issue i g, pc)"
| post_barrier: "i < length (queue_buffers g) \<Longrightarrow> posting g ! i = Some v \<Longrightarrow> grid_step (g, pc) (barrier_post i v g, pc)"
| enter: "grid_step (g, Grid_Away) (g, Round_Start)"
| inside: "pc \<noteq> Grid_Away \<Longrightarrow> grid_internal_step stop pc g = (g', pc') \<Longrightarrow> grid_step (g, pc) (g', pc')"

section \<open>Versions\<close>

fun barriers :: "grid_task list \<Rightarrow> nat list" where
  "barriers [] = []"
| "barriers (Barrier v # ts) = unat v # barriers ts"
| "barriers (Routine f e # ts) = barriers ts"

lemma barriers_append [simp]: "barriers (xs @ ys) = barriers xs @ barriers ys"
  by (induction xs rule: barriers.induct) auto

lemma barrier_member: "Barrier v \<in> set ts \<Longrightarrow> unat v \<in> set (barriers ts)"
  by (induction ts rule: barriers.induct) auto

text \<open>The last barrier passed in a queue, and the versions on their way to it.\<close>

definition passed :: "grid_t \<Rightarrow> nat \<Rightarrow> nat" where
  "passed g i = last (0 # barriers (started g ! i))"

definition ahead :: "grid_t \<Rightarrow> nat \<Rightarrow> nat list" where
  "ahead g i = barriers (queue_buffers g ! i) @ (case posting g ! i of None \<Rightarrow> [] | Some v \<Rightarrow> [unat v])"

text \<open>A routine was posted after the barriers before it in its queue were issued.\<close>

fun epochs_ok :: "nat \<Rightarrow> grid_task list \<Rightarrow> bool" where
  "epochs_ok b [] \<longleftrightarrow> True"
| "epochs_ok b (Routine f e # ts) \<longleftrightarrow> b \<le> e \<and> epochs_ok b ts"
| "epochs_ok b (Barrier v # ts) \<longleftrightarrow> b < unat v \<and> epochs_ok (unat v) ts"

lemma epochs_ok_snoc:
  "epochs_ok b (ts @ [Routine f e]) \<longleftrightarrow> epochs_ok b ts \<and> last (b # barriers ts) \<le> e"
  "epochs_ok b (ts @ [Barrier v]) \<longleftrightarrow> epochs_ok b ts \<and> last (b # barriers ts) < unat v"
  by (induction b ts rule: epochs_ok.induct) auto

lemma epochs_ok_member: "epochs_ok b ts \<Longrightarrow> Routine f e \<in> set ts \<Longrightarrow> b \<le> e"
  by (induction b ts rule: epochs_ok.induct) auto

lemma epochs_ok_barriers: "epochs_ok b ts \<Longrightarrow> v \<in> set (barriers ts) \<Longrightarrow> b < v"
  by (induction b ts rule: epochs_ok.induct) (auto intro: less_trans)

lemma signed_difference:
  assumes "unat a < 2 ^ 63" "unat b < 2 ^ 63"
  shows "0 \<le> sint (a - b :: size_t) \<longleftrightarrow> unat b \<le> unat a" "0 < sint (a - b) \<longleftrightarrow> unat b < unat a"
proof -
  have "a - b = word_of_int (int (unat a) - int (unat b))" by simp
  moreover have "int (unat a) < 2 ^ 63" "int (unat b) < 2 ^ 63" 
    using assms by (metis of_nat_less_iff of_nat_numeral of_nat_power)+
  then have "uint a < 2 ^ 63" "uint b < 2 ^ 63" by simp_all
  then have "signed_take_bit 63 (uint a - uint b) = uint a - uint b"
    by (intro signed_take_bit_int_eq_self) (use uint_ge_0 [of a] uint_ge_0 [of b] in linarith)+
  then have "sint (word_of_int (int (unat a) - int (unat b)) :: size_t) = int (unat a) - int (unat b)"
    by (subst signed_of_int) simp
  ultimately have "sint (a - b) = int (unat a) - int (unat b)" by simp
  then show "0 \<le> sint (a - b :: size_t) \<longleftrightarrow> unat b \<le> unat a" "0 < sint (a - b) \<longleftrightarrow> unat b < unat a" by linarith+
qed

section \<open>The invariant\<close>

text \<open>Where the owner stands in its round.\<close>

fun position :: "grid_t \<Rightarrow> grid_pc \<Rightarrow> nat" where
  "position g (Buffer_Enter i s n) = i"
| "position g (Buffer_Test i s n) = i"
| "position g (Task_Run i f s n) = i"
| "position g (Buffer_Leave i s n) = i"
| "position g (Round_End s n) = length (queue_buffers g)"
| "position g pc = 0"

definition lengths_ok :: "grid_t \<Rightarrow> bool" where
  "lengths_ok g \<longleftrightarrow> length (queue_versions g) = length (queue_buffers g) \<and> length (posting g) = length (queue_buffers g) \<and>
     length (pushed g) = length (queue_buffers g) \<and> length (started g) = length (queue_buffers g)"

text \<open>The versions: those ahead of a queue are above the current one and ascend, and no two queues share one.\<close>

definition versions_ok :: "grid_t \<Rightarrow> bool" where
  "versions_ok g \<longleftrightarrow> unat (barrier_version g) = issued g \<and> unat (current_version g) \<le> issued g \<and>
     (\<forall>i < length (queue_buffers g).
        sorted_wrt (<) (0 # barriers (started g ! i)) \<and> sorted_wrt (<) (passed g i # ahead g i) \<and> passed g i \<le> issued g \<and>
        (\<forall>v \<in> set (ahead g i). unat (current_version g) < v \<and> v \<le> issued g)) \<and>
     (\<forall>i < length (queue_buffers g). \<forall>j < length (queue_buffers g). i \<noteq> j \<longrightarrow>
        set (passed g i # ahead g i) \<inter> set (passed g j # ahead g j) \<subseteq> {0})"

definition epochs_inv :: "grid_t \<Rightarrow> bool" where
  "epochs_inv g \<longleftrightarrow> (\<forall>i < length (queue_buffers g). epochs_ok (passed g i) (queue_buffers g ! i))"

text \<open>The counter of a queue is its last barrier, or not above the current version; the owner is about to write one of them.\<close>

fun counter_ok :: "grid_t \<Rightarrow> grid_pc \<Rightarrow> nat \<Rightarrow> bool" where
  "counter_ok g (Task_Run i f s n) j \<longleftrightarrow>
     (if i = j then unat (queue_versions g ! j) \<le> unat (current_version g) \<and>
        (case f of Barrier v \<Rightarrow> passed g j = unat v | Routine _ _ \<Rightarrow> passed g j \<le> unat (queue_versions g ! j) \<and> next_version g = queue_versions g ! j)
      else passed g j \<le> unat (queue_versions g ! j) \<and>
        (unat (queue_versions g ! j) = passed g j \<or> unat (queue_versions g ! j) \<le> unat (current_version g)))"
| "counter_ok g pc j \<longleftrightarrow> passed g j \<le> unat (queue_versions g ! j) \<and>
     (unat (queue_versions g ! j) = passed g j \<or> unat (queue_versions g ! j) \<le> unat (current_version g))"

text \<open>
  A routine of queue \<open>j\<close> that was posted before a barrier passed in queue \<open>i\<close> was issued: the owner has still to come to \<open>j\<close>, before \<open>i\<close>.
\<close>

definition late_ok :: "grid_t \<Rightarrow> grid_pc \<Rightarrow> bool" where
  "late_ok g pc \<longleftrightarrow> (\<forall>i < length (queue_buffers g). \<forall>j < length (queue_buffers g). \<forall>f e.
     Routine f e \<in> set (queue_buffers g ! j) \<and> e < passed g i \<longrightarrow>
       (passed g i \<le> unat (current_version g) \<longrightarrow> position g pc \<le> j \<and> j < i) \<and>
       (passed g i = unat (current_version g) + 1 \<and> i < position g pc \<longrightarrow> j < i \<or> position g pc \<le> j))"

definition step_ok :: "grid_t \<Rightarrow> grid_pc \<Rightarrow> size_t \<Rightarrow> bool" where
  "step_ok g pc s \<longleftrightarrow> s = current_version g \<or>
     unat s = unat (current_version g) + 1 \<and> (\<exists>i < position g pc. i < length (queue_buffers g) \<and> passed g i = unat s)"

fun point_ok :: "grid_t \<Rightarrow> grid_pc \<Rightarrow> bool" where
  "point_ok g (Buffer_Enter i s n) \<longleftrightarrow> i \<le> length (queue_buffers g) \<and> step_ok g (Buffer_Enter i s n) s"
| "point_ok g (Buffer_Test i s n) \<longleftrightarrow> i < length (queue_buffers g) \<and> step_ok g (Buffer_Test i s n) s \<and> next_version g = queue_versions g ! i"
| "point_ok g (Task_Run i f s n) \<longleftrightarrow> i < length (queue_buffers g) \<and> step_ok g (Task_Run i f s n) s"
| "point_ok g (Buffer_Leave i s n) \<longleftrightarrow> i < length (queue_buffers g) \<and> step_ok g (Buffer_Leave i s n) s \<and>
     (\<forall>j < length (queue_buffers g). passed g j \<le> unat (current_version g) + 1 \<longrightarrow>
        (\<forall>f e. Routine f e \<in> set (queue_buffers g ! i) \<longrightarrow> passed g j \<le> e))"
| "point_ok g (Round_End s n) \<longleftrightarrow> step_ok g (Round_End s n) s"
| "point_ok g pc \<longleftrightarrow> True"

definition fifo_ok :: "grid_t \<Rightarrow> bool" where
  "fifo_ok g \<longleftrightarrow> (\<forall>i < length (queue_buffers g). pushed g ! i = started g ! i @ queue_buffers g ! i)"

definition grid_inv :: "grid_t \<Rightarrow> grid_pc \<Rightarrow> bool" where
  "grid_inv g pc \<longleftrightarrow> lengths_ok g \<and> versions_ok g \<and> epochs_inv g \<and> (\<forall>j < length (queue_buffers g). counter_ok g pc j) \<and>
     late_ok g pc \<and> point_ok g pc \<and> fifo_ok g"

section \<open>Posting\<close>

text \<open>What the posting threads change, seen by the invariant.\<close>

lemma push_grid_views:
  assumes "lengths_ok g" "i < length (queue_buffers g)"
  shows "passed (push_grid (Some i) f g) j = passed g j"
    "queue_buffers (push_grid (Some i) f g) ! j = (if j = i then queue_buffers g ! i @ [f] else queue_buffers g ! j)"
    "length (queue_buffers (push_grid (Some i) f g)) = length (queue_buffers g)"
    "position (push_grid (Some i) f g) pc = position g pc"
    "current_version (push_grid (Some i) f g) = current_version g" "queue_versions (push_grid (Some i) f g) = queue_versions g"
    "next_version (push_grid (Some i) f g) = next_version g" "started (push_grid (Some i) f g) = started g"
    "posting (push_grid (Some i) f g) = posting g" "issued (push_grid (Some i) f g) = issued g"
    "barrier_version (push_grid (Some i) f g) = barrier_version g"
  using assms by (cases pc; auto simp: push_grid_def passed_def)+

lemma counter_ok_cong:
  "passed g' j = passed g j \<Longrightarrow> queue_versions g' = queue_versions g \<Longrightarrow> current_version g' = current_version g \<Longrightarrow>
   next_version g' = next_version g \<Longrightarrow> counter_ok g' pc j = counter_ok g pc j"
  by (cases "(g, pc, j)" rule: counter_ok.cases) (simp_all split: grid_task.splits)

lemma step_ok_cong:
  "(\<And>j. passed g' j = passed g j) \<Longrightarrow> current_version g' = current_version g \<Longrightarrow> length (queue_buffers g') = length (queue_buffers g) \<Longrightarrow>
   step_ok g' pc s = step_ok g pc s"
  by (cases pc) (simp_all add: step_ok_def)

text \<open>A thread adds to the end of its queue, what was issued before.\<close>

lemma posted_inv:
  assumes inv: "grid_inv g pc" and i: "i < length (queue_buffers g)"
    and g': "lengths_ok g'" "versions_ok g'" "fifo_ok g'" "\<And>j. passed g' j = passed g j" "length (queue_buffers g') = length (queue_buffers g)"
      "queue_versions g' = queue_versions g" "current_version g' = current_version g" "next_version g' = next_version g"
      "\<And>j. position g' pc = position g pc" "\<And>j. j \<noteq> i \<Longrightarrow> queue_buffers g' ! j = queue_buffers g ! j"
    and e: "epochs_ok (passed g i) (queue_buffers g' ! i)"
    and new: "\<And>f e. Routine f e \<in> set (queue_buffers g' ! i) \<Longrightarrow> Routine f e \<in> set (queue_buffers g ! i) \<or> issued g \<le> e"
  shows "grid_inv g' pc"
proof -
  have le: "passed g j \<le> issued g" if "j < length (queue_buffers g)" for j using inv that by (simp add: grid_inv_def versions_ok_def)
  have member: "Routine f e \<in> set (queue_buffers g ! j)" if "Routine f e \<in> set (queue_buffers g' ! j)" "e < issued g" for f e j
    using that new g'(10) by (cases "j = i") force+
  have ep: "epochs_inv g'" unfolding epochs_inv_def g'(4,5)
  proof (intro allI impI)
    fix j
    assume "j < length (queue_buffers g)"
    then show "epochs_ok (passed g j) (queue_buffers g' ! j)" using e inv g'(10) by (cases "j = i") (auto simp: grid_inv_def epochs_inv_def)
  qed
  have late: "late_ok g' pc"
    unfolding late_ok_def g'(4,5,7,9)
  proof (intro allI impI)
    fix k j f e
    assume k: "k < length (queue_buffers g)" "j < length (queue_buffers g)" and t: "Routine f e \<in> set (queue_buffers g' ! j) \<and> e < passed g k"
    from t le [OF k(1)] member have "Routine f e \<in> set (queue_buffers g ! j)" by fastforce
    then show "(passed g k \<le> unat (current_version g) \<longrightarrow> position g pc \<le> j \<and> j < k) \<and>
        (passed g k = unat (current_version g) + 1 \<and> k < position g pc \<longrightarrow> j < k \<or> position g pc \<le> j)"
      using inv k t unfolding grid_inv_def late_ok_def by blast
  qed
  have step: "step_ok g' q s = step_ok g q s" for q s by (rule step_ok_cong) (simp_all add: g')
  have point: "point_ok g' pc"
  proof (cases pc)
    case (Buffer_Leave k s n)
    have *: "passed g j \<le> e" if t: "k < length (queue_buffers g)" "j < length (queue_buffers g)" "passed g j \<le> unat (current_version g) + 1"
      "Routine f e \<in> set (queue_buffers g' ! k)" for j f e
    proof (cases "e < issued g")
      case True
      from member [OF t(4) True] show ?thesis using inv t Buffer_Leave by (simp add: grid_inv_def)
    next
      case False
      then show ?thesis using le [OF t(2)] by simp
    qed
    have "k < length (queue_buffers g) \<and> step_ok g (Buffer_Leave k s n) s" using inv Buffer_Leave by (simp add: grid_inv_def)
    then show ?thesis unfolding Buffer_Leave point_ok.simps step g'(4,5,7) using * by blast
  qed (use inv in \<open>simp_all add: grid_inv_def step g'(5-8)\<close>)
  have "counter_ok g' pc j = counter_ok g pc j" for j by (rule counter_ok_cong) (simp_all add: g')
  then show ?thesis using inv g'(1-3,5) ep late point by (simp add: grid_inv_def)
qed

lemma post_inv:
  assumes "grid_inv g pc" "i < length (queue_buffers g)" "posting g ! i = None"
  shows "grid_inv (push_grid (Some i) (Routine f (issued g)) g) pc"
proof -
  let ?g = "push_grid (Some i) (Routine f (issued g)) g"
  have l: "lengths_ok g" and v: "versions_ok g" and fifo: "fifo_ok g" and e: "epochs_ok (passed g i) (queue_buffers g ! i)"
    using assms(1,2) by (simp_all add: grid_inv_def epochs_inv_def)
  note views = push_grid_views [OF l assms(2), of "Routine f (issued g)"]
  have a: "ahead ?g j = ahead g j" for j by (simp add: ahead_def views)
  have le: "last (passed g i # barriers (queue_buffers g ! i)) \<le> issued g"
    using v assms(2) last_in_set [of "barriers (queue_buffers g ! i)"] by (auto simp: versions_ok_def ahead_def)
  show ?thesis
  proof (rule posted_inv [OF assms(1,2)])
    show "lengths_ok ?g" using l by (simp add: lengths_ok_def push_grid_def)
    show "versions_ok ?g" using v by (simp add: versions_ok_def views a)
    show "fifo_ok ?g" using fifo l assms(2) by (auto simp: fifo_ok_def push_grid_def nth_list_update lengths_ok_def)
    show "epochs_ok (passed g i) (queue_buffers ?g ! i)" using e le by (simp add: views epochs_ok_snoc)
  qed (auto simp: views)
qed

lemma issue_inv:
  assumes "grid_inv g pc" "i < length (queue_buffers g)" "posting g ! i = None" "issued g + 1 < 2 ^ 63"
  shows "grid_inv (barrier_issue i g) pc"
proof -
  let ?g = "barrier_issue i g"
  have l: "lengths_ok g" and v: "versions_ok g" and fifo: "fifo_ok g" and e: "epochs_ok (passed g i) (queue_buffers g ! i)"
    using assms(1,2) by (simp_all add: grid_inv_def epochs_inv_def)
  have il: "i < length (posting g)" using l assms(2) by (simp add: lengths_ok_def)
  have b: "unat (barrier_version g) = issued g" using v by (simp add: versions_ok_def)
  have lt: "issued g + 1 < 2 ^ 64" using assms(4) by simp
  have u: "unat (barrier_version g + 1) = issued g + 1"
    using b lt by (simp add: unat_word_ariths)
  have p: "passed ?g j = passed g j" for j by (simp add: passed_def barrier_issue_def)
  have a: "ahead ?g j = (if j = i then ahead g i @ [issued g + 1] else ahead g j)" for j
    using assms(3) il by (simp add: ahead_def barrier_issue_def u)
  have same: "queue_buffers ?g = queue_buffers g" "current_version ?g = current_version g" "issued ?g = issued g + 1" "started ?g = started g"
    "barrier_version ?g = barrier_version g + 1" by (simp_all add: barrier_issue_def)
  have bound: "x \<le> issued g" if "j < length (queue_buffers g)" "x \<in> set (passed g j # ahead g j)" for j x
    using v that by (auto simp: versions_ok_def)
  show ?thesis
  proof (rule posted_inv [OF assms(1,2)])
    show "lengths_ok ?g" using l by (simp add: lengths_ok_def barrier_issue_def)
    show "versions_ok ?g"
      unfolding versions_ok_def same p u
    proof (intro conjI allI impI)
      show "unat (current_version g) \<le> issued g + 1" using v by (simp add: versions_ok_def)
      fix k
      assume k: "k < length (queue_buffers g)"
      note vk = v [unfolded versions_ok_def, THEN conjunct2, THEN conjunct2, THEN conjunct1, rule_format, OF k]
      show "sorted_wrt (<) (0 # barriers (started g ! k))" "passed g k \<le> issued g + 1" using vk by simp_all
      show "sorted_wrt (<) (passed g k # ahead ?g k)" using vk bound [OF k] by (auto simp: a sorted_wrt_append less_Suc_eq_le)
      show "\<forall>v \<in> set (ahead ?g k). unat (current_version g) < v \<and> v \<le> issued g + 1"
      proof
        fix x
        assume "x \<in> set (ahead ?g k)"
        then have "x \<in> set (ahead g k) \<or> x = issued g + 1" by (auto simp: a split: if_splits)
        moreover have "unat (current_version g) \<le> issued g" using v by (simp add: versions_ok_def)
        ultimately show "unat (current_version g) < x \<and> x \<le> issued g + 1" using vk by auto
      qed
      fix j
      assume j: "j < length (queue_buffers g)" "k \<noteq> j"
      have "set (passed g k # ahead g k) \<inter> set (passed g j # ahead g j) \<subseteq> {0}" using v k j unfolding versions_ok_def by blast
      moreover have "issued g + 1 \<notin> set (passed g j # ahead g j)" "issued g + 1 \<notin> set (passed g k # ahead g k)"
        using bound [OF j(1)] bound [OF k] by (metis Suc_eq_plus1 not_less_eq_eq order_refl)+
      ultimately show "set (passed g k # ahead ?g k) \<inter> set (passed g j # ahead ?g j) \<subseteq> {0}" using j(2) by (auto simp: a)
    qed (rule refl)
    show "fifo_ok ?g" using fifo by (simp add: fifo_ok_def barrier_issue_def)
    show "epochs_ok (passed g i) (queue_buffers ?g ! i)" using e by (simp add: same)
    show "position ?g pc = position g pc" by (cases pc) (simp_all add: same)
  qed (simp_all add: p same, simp_all add: barrier_issue_def)
qed

lemma post_barrier_inv:
  assumes "grid_inv g pc" "i < length (queue_buffers g)" "posting g ! i = Some v"
  shows "grid_inv (barrier_post i v g) pc"
proof -
  let ?h = "g\<lparr>posting := (posting g)[i := None]\<rparr>" and ?g = "barrier_post i v g"
  have l: "lengths_ok g" and vs: "versions_ok g" and fifo: "fifo_ok g" and e: "epochs_ok (passed g i) (queue_buffers g ! i)"
    using assms(1,2) by (simp_all add: grid_inv_def epochs_inv_def)
  have lh: "lengths_ok ?h" "i < length (queue_buffers ?h)" using l assms(2) by (simp_all add: lengths_ok_def)
  note views = push_grid_views [OF lh, of "Barrier v", folded barrier_post_def, simplified]
  have il: "i < length (posting g)" using l assms(2) by (simp add: lengths_ok_def)
  have p: "passed ?g j = passed g j" for j by (simp add: views(1)) (simp add: passed_def)
  have pos: "position ?g pc = position g pc" by (cases pc) (simp_all add: views(2-))
  have a: "ahead ?g j = ahead g j" for j using assms(3) il by (simp add: ahead_def views(2-))
  have "sorted_wrt (<) (passed g i # ahead g i)" using vs assms(2) by (simp only: versions_ok_def)
  then have "last (passed g i # barriers (queue_buffers g ! i)) < unat v"
    using assms(3) last_in_set [of "barriers (queue_buffers g ! i)"] by (auto simp: ahead_def sorted_wrt_append)
  then have e': "epochs_ok (passed g i) (queue_buffers ?g ! i)" using e by (simp add: views(2-) epochs_ok_snoc)
  show ?thesis
  proof (rule posted_inv [OF assms(1,2)])
    show "lengths_ok ?g" using lh by (simp add: lengths_ok_def push_grid_def barrier_post_def)
    show "versions_ok ?g" using vs by (simp add: versions_ok_def views(2-) p a)
    show "fifo_ok ?g" using fifo l assms(2) by (auto simp: fifo_ok_def push_grid_def barrier_post_def nth_list_update lengths_ok_def)
  qed (use e' p pos in \<open>auto simp: views(2-)\<close>)
qed

section \<open>The owner's steps\<close>

lemma grid_bounds:
  assumes "grid_inv g pc" "issued g < 2 ^ 63" "i < length (queue_buffers g)"
  shows "passed g i \<le> issued g" "unat (current_version g) \<le> issued g" "unat (current_version g) < 2 ^ 63"
    "unat (current_version g + 1) = unat (current_version g) + 1"
    "\<And>f e. Routine f e \<in> set (queue_buffers g ! i) \<Longrightarrow> passed g i \<le> e"
    "j < length (queue_buffers g) \<Longrightarrow> passed g i = passed g j \<Longrightarrow> 0 < passed g i \<Longrightarrow> i = j"
proof -
  have v: "versions_ok g" and e: "epochs_inv g" using assms(1) by (simp_all add: grid_inv_def)
  show "passed g i \<le> issued g" "unat (current_version g) \<le> issued g" using v assms(3) by (simp_all add: versions_ok_def)
  then show lt: "unat (current_version g) < 2 ^ 63" using assms(2) by linarith
  then show "unat (current_version g + 1) = unat (current_version g) + 1" by (simp add: unat_word_ariths)
  show "passed g i \<le> e" if "Routine f e \<in> set (queue_buffers g ! i)" for f e
    using epochs_ok_member [OF _ that] e assms(3) by (simp add: epochs_inv_def)
  show "i = j" if "j < length (queue_buffers g)" "passed g i = passed g j" "0 < passed g i"
  proof (rule ccontr)
    assume "i \<noteq> j"
    then have "set (passed g i # ahead g i) \<inter> set (passed g j # ahead g j) \<subseteq> {0}" using v assms(3) that(1) unfolding versions_ok_def by blast
    then show False using that(2,3) by auto
  qed
qed

text \<open>The owner moves without touching the queues.\<close>

lemma round_start_inv: "grid_inv g Round_Start \<Longrightarrow> grid_inv g (Buffer_Enter 0 (current_version g) 0)"
  by (simp add: grid_inv_def late_ok_def step_ok_def)

lemma enter_inv: "grid_inv g Grid_Away \<Longrightarrow> grid_inv g Round_Start"
  by (simp add: grid_inv_def late_ok_def)

lemma next_version_views [simp]:
  "passed (g\<lparr>next_version := v\<rparr>) j = passed g j" "ahead (g\<lparr>next_version := v\<rparr>) j = ahead g j"
  "passed (g\<lparr>queue_versions := vs\<rparr>) j = passed g j" "ahead (g\<lparr>queue_versions := vs\<rparr>) j = ahead g j"
  "passed (g\<lparr>current_version := v\<rparr>) j = passed g j" "ahead (g\<lparr>current_version := v\<rparr>) j = ahead g j"
  by (simp_all add: passed_def ahead_def)

lemma late_ok_moved:
  assumes "late_ok g pc" "queue_buffers g' = queue_buffers g" "\<And>j. passed g' j = passed g j" "current_version g' = current_version g"
    and "position g' pc' = position g pc \<or> position g' pc' = 0"
  shows "late_ok g' pc'"
  unfolding late_ok_def assms(2-4)
proof (intro allI impI)
  fix i j f e
  assume "i < length (queue_buffers g)" "j < length (queue_buffers g)" "Routine f e \<in> set (queue_buffers g ! j) \<and> e < passed g i"
  with assms(1) have "(passed g i \<le> unat (current_version g) \<longrightarrow> position g pc \<le> j \<and> j < i) \<and>
      (passed g i = unat (current_version g) + 1 \<and> i < position g pc \<longrightarrow> j < i \<or> position g pc \<le> j)" unfolding late_ok_def by blast
  with assms(5) show "(passed g i \<le> unat (current_version g) \<longrightarrow> position g' pc' \<le> j \<and> j < i) \<and>
      (passed g i = unat (current_version g) + 1 \<and> i < position g' pc' \<longrightarrow> j < i \<or> position g' pc' \<le> j)" by auto
qed

lemma versions_ok_cong:
  assumes "versions_ok g" "queue_buffers g' = queue_buffers g" "started g' = started g" "posting g' = posting g"
    "current_version g' = current_version g" "barrier_version g' = barrier_version g" "issued g' = issued g"
  shows "versions_ok g'"
proof -
  have same: "passed g' = passed g" "ahead g' = ahead g" by (simp_all add: passed_def ahead_def fun_eq_iff assms)
  show ?thesis using assms(1) unfolding versions_ok_def assms(2-) same .
qed

lemma buffer_enter_inv:
  assumes inv: "grid_inv g (Buffer_Enter i s n)" and step: "grid_internal_step stop (Buffer_Enter i s n) g = (g', pc)"
  shows "grid_inv g' pc"
proof (cases "i < length (queue_buffers g)")
  case True
  then have g': "g' = g\<lparr>next_version := queue_versions g ! i\<rparr>" "pc = Buffer_Test i s n" using step by simp_all
  moreover have "versions_ok g'" by (rule versions_ok_cong [of g]) (use inv in \<open>simp_all add: grid_inv_def g'\<close>)
  moreover have "late_ok g' pc" by (rule late_ok_moved [of g "Buffer_Enter i s n"]) (use inv in \<open>simp_all add: grid_inv_def g'\<close>)
  ultimately show ?thesis using inv True by (simp add: grid_inv_def lengths_ok_def epochs_inv_def step_ok_def fifo_ok_def)
next
  case False
  then have g': "g' = g" "pc = Round_End s n" "i = length (queue_buffers g)" using step inv by (simp_all add: grid_inv_def)
  moreover have "late_ok g' pc" by (rule late_ok_moved [of g "Buffer_Enter i s n"]) (use inv in \<open>simp_all add: grid_inv_def g'\<close>)
  ultimately show ?thesis using inv by (simp add: grid_inv_def step_ok_def)
qed

lemma task_run_inv:
  assumes inv: "grid_inv g (Task_Run i f s n)" and step: "grid_internal_step stop (Task_Run i f s n) g = (g', pc)"
  shows "grid_inv g' pc"
proof -
  have i: "i < length (queue_buffers g)" "i < length (queue_versions g)" using inv by (simp_all add: grid_inv_def lengths_ok_def)
  define w where "w = (case f of Barrier v \<Rightarrow> v | Routine _ _ \<Rightarrow> next_version g)"
  have g': "g' = g\<lparr>next_version := w, queue_versions := (queue_versions g)[i := w]\<rparr>"
    using step by (cases f) (simp_all add: w_def)
  have pc: "pc = (if stop then Grid_Away else Buffer_Test i s (n + 1))" using step by (simp add: Let_def)
  have c: "counter_ok g (Task_Run i f s n) j" if "j < length (queue_buffers g)" for j using inv that by (simp add: grid_inv_def)
  have "counter_ok g' pc j" if j: "j < length (queue_buffers g)" for j
    using c [OF j] i(2) by (cases "i = j"; cases f; cases stop) (auto simp: g' pc w_def)
  moreover have "late_ok g' pc"
    by (rule late_ok_moved [of g "Task_Run i f s n"]) (use inv in \<open>simp_all add: grid_inv_def g' pc\<close>)
  moreover have "versions_ok g'" by (rule versions_ok_cong [of g]) (use inv in \<open>simp_all add: grid_inv_def g'\<close>)
  moreover have "point_ok g' pc" using inv i by (cases stop) (auto simp: grid_inv_def g' pc step_ok_def)
  ultimately show ?thesis using inv by (simp add: grid_inv_def g' lengths_ok_def epochs_inv_def fifo_ok_def)
qed

lemma sorted_last_le: "sorted_wrt (<) xs \<Longrightarrow> x \<in> set xs \<Longrightarrow> x \<le> (last xs :: nat)"
  by (induction xs) (auto, metis last_in_set order.strict_implies_order order_refl)

lemma buffer_test_inv:
  assumes inv: "grid_inv g (Buffer_Test i s n)" and small: "issued g < 2 ^ 63"
    and step: "grid_internal_step stop (Buffer_Test i s n) g = (g', pc)"
  shows "grid_inv g' pc"
proof -
  have i: "i < length (queue_buffers g)" "i < length (started g)" using inv by (simp_all add: grid_inv_def lengths_ok_def)
  note bounds = grid_bounds [OF inv small]
  have c: "passed g j \<le> unat (queue_versions g ! j)" "unat (queue_versions g ! j) = passed g j \<or> unat (queue_versions g ! j) \<le> unat (current_version g)"
    if "j < length (queue_buffers g)" for j using inv that by (simp_all add: grid_inv_def)
  have "unat (queue_versions g ! i) < 2 ^ 63" using c(2) [OF i(1)] bounds(1-3) [OF i(1)] small by linarith
  then have test: "0 \<le> sint (current_version g - queue_versions g ! i) \<longleftrightarrow> unat (queue_versions g ! i) \<le> unat (current_version g)"
    by (rule signed_difference [OF bounds(3) [OF i(1)]])
  show ?thesis
  proof (cases "unat (queue_versions g ! i) \<le> unat (current_version g) \<and> queue_buffers g ! i \<noteq> []")
    case False
    then have g': "g' = g" "pc = Buffer_Leave i s n" using step test by (auto split: list.splits if_splits)
    have drained: "passed g j \<le> e" if j: "j < length (queue_buffers g)" "passed g j \<le> unat (current_version g) + 1" "Routine f e \<in> set (queue_buffers g ! i)" for j f e
    proof -
      have "unat (current_version g) < unat (queue_versions g ! i)" using False j(3) by auto
      then have "passed g j \<le> passed g i" using c(2) [OF i(1)] j(2) by linarith
      then show ?thesis using bounds(5) [OF i(1) j(3)] by simp
    qed
    have "late_ok g' pc" by (rule late_ok_moved [of g "Buffer_Test i s n"]) (use inv in \<open>simp_all add: grid_inv_def g'\<close>)
    moreover have "point_ok g' pc" unfolding g' point_ok.simps using inv drained by (simp add: grid_inv_def step_ok_def)
    ultimately show ?thesis using inv by (simp add: grid_inv_def g')
  next
    case True
    then obtain f fs where f: "queue_buffers g ! i = f # fs" by (cases "queue_buffers g ! i") auto
    have g': "g' = g\<lparr>queue_buffers := (queue_buffers g)[i := fs], started := (started g)[i := started g ! i @ [f]]\<rparr>" "pc = Task_Run i f s n"
      using step True test f by simp_all
    have buffers: "queue_buffers g' ! j = (if j = i then fs else queue_buffers g ! j)" "length (queue_buffers g') = length (queue_buffers g)" for j
      using i by (simp_all add: g')
    have started: "started g' ! j = (if j = i then started g ! i @ [f] else started g ! j)" for j using i(2) by (simp add: g')
    have passed: "passed g' j = (if j = i then case f of Barrier v \<Rightarrow> unat v | Routine _ _ \<Rightarrow> passed g i else passed g j)" for j
      by (cases f) (simp_all add: passed_def started)
    have ahead: "ahead g j = (if j = i then case f of Barrier v \<Rightarrow> unat v # ahead g' i | Routine _ _ \<Rightarrow> ahead g' i else ahead g' j)" for j
      using f by (cases f) (auto simp: ahead_def buffers, simp_all add: g')
    have same: "current_version g' = current_version g" "queue_versions g' = queue_versions g" "barrier_version g' = barrier_version g"
      "issued g' = issued g" "next_version g' = next_version g" by (simp_all add: g')
    have v: "versions_ok g" and e: "epochs_ok (passed g i) (f # fs)" using inv i f by (auto simp: grid_inv_def epochs_inv_def)
    note vi = v [unfolded versions_ok_def, THEN conjunct2, THEN conjunct2, THEN conjunct1, rule_format]
    have vd: "set (passed g k # ahead g k) \<inter> set (passed g j # ahead g j) \<subseteq> {0}" if "k < length (queue_buffers g)" "j < length (queue_buffers g)" "k \<noteq> j" for k j
      using v that unfolding versions_ok_def by blast
    have sub: "set (passed g' j # ahead g' j) \<subseteq> set (passed g j # ahead g j)" for j
      using ahead [of j] by (cases f) (auto simp: passed)
    have "versions_ok g'"
      unfolding versions_ok_def same buffers(2)
    proof (intro conjI allI impI)
      show "unat (barrier_version g) = issued g" "unat (current_version g) \<le> issued g" using v by (simp_all add: versions_ok_def)
      fix k
      assume k: "k < length (queue_buffers g)"
      show "sorted_wrt (<) (0 # barriers (started g' ! k))"
      proof (cases "k = i")
        case True
        have b: "x < unat v" if "f = Barrier v" "x \<in> set (0 # barriers (started g ! i))" for x v
        proof -
          have "x \<le> passed g i" unfolding passed_def using sorted_last_le [OF _ that(2)] vi [OF i(1)] by blast
          moreover have "passed g i < unat v" using vi [OF i(1)] ahead [of i] that(1) by simp
          ultimately show ?thesis by simp
        qed
        have "barriers (started g' ! k) = barriers (started g ! i) @ (case f of Barrier v \<Rightarrow> [unat v] | Routine _ _ \<Rightarrow> [])"
          using True by (cases f) (simp_all add: started)
        then show ?thesis using vi [OF i(1)] b by (cases f) (auto simp: sorted_wrt_append)
      qed (use vi [OF k] in \<open>simp add: started\<close>)
      show "sorted_wrt (<) (passed g' k # ahead g' k)" using vi [OF k] ahead [of k] by (cases f; cases "k = i") (auto simp: passed)
      show "passed g' k \<le> issued g" using vi [OF k] ahead [of k] by (cases f; cases "k = i") (auto simp: passed)
      show "\<forall>v \<in> set (ahead g' k). unat (current_version g) < v \<and> v \<le> issued g" using vi [OF k] ahead [of k] by (cases f; cases "k = i") auto
      fix j
      assume j: "j < length (queue_buffers g)" "k \<noteq> j"
      show "set (passed g' k # ahead g' k) \<inter> set (passed g' j # ahead g' j) \<subseteq> {0}" using vd [OF k j] sub [of k] sub [of j] by blast
    qed
    moreover have "epochs_inv g'" using inv e by (cases f) (auto simp: epochs_inv_def buffers passed grid_inv_def)
    moreover have "counter_ok g' pc j" if j: "j < length (queue_buffers g)" for j
      using c [OF j] inv True by (cases f) (auto simp: g'(2) same passed grid_inv_def)
    moreover have "late_ok g' pc"
      unfolding late_ok_def buffers(2) same g'(2) position.simps
    proof (intro allI impI)
      fix k j h e'
      assume k: "k < length (queue_buffers g)" "j < length (queue_buffers g)" "Routine h e' \<in> set (queue_buffers g' ! j) \<and> e' < passed g' k"
      have mem: "Routine h e' \<in> set (queue_buffers g ! j)" using k(3) f by (auto simp: buffers split: if_splits)
      have "(passed g' k \<le> unat (current_version g) \<longrightarrow> i \<le> j \<and> j < k) \<and> (passed g' k = unat (current_version g) + 1 \<and> k < i \<longrightarrow> j < k \<or> i \<le> j)"
        if "passed g' k = passed g k"
        using inv k(1,2) mem k(3) that unfolding grid_inv_def late_ok_def position.simps by metis
      moreover have "k = i \<and> unat (current_version g) < passed g' k" if "passed g' k \<noteq> passed g k"
        using that vi [OF i(1)] ahead [of i] by (cases f; cases "k = i") (auto simp: passed)
      ultimately show "(passed g' k \<le> unat (current_version g) \<longrightarrow> i \<le> j \<and> j < k) \<and>
          (passed g' k = unat (current_version g) + 1 \<and> k < i \<longrightarrow> j < k \<or> i \<le> j)" by fastforce
    qed
    moreover have "point_ok g' pc" using inv by (auto simp: g'(2) grid_inv_def buffers(2) step_ok_def same passed)
    moreover have "lengths_ok g'" "fifo_ok g'" using inv f i by (auto simp: grid_inv_def lengths_ok_def fifo_ok_def g' nth_list_update)
    ultimately show ?thesis by (simp add: grid_inv_def buffers)
  qed
qed

lemma buffer_leave_inv:
  assumes inv: "grid_inv g (Buffer_Leave i s n)" and small: "issued g < 2 ^ 63"
    and step: "grid_internal_step stop (Buffer_Leave i s n) g = (g', pc)"
  shows "grid_inv g' pc"
proof -
  have i: "i < length (queue_buffers g)" "i < length (queue_versions g)" using inv by (simp_all add: grid_inv_def lengths_ok_def)
  note bounds = grid_bounds [OF inv small]
  have c: "passed g j \<le> unat (queue_versions g ! j)" "unat (queue_versions g ! j) = passed g j \<or> unat (queue_versions g ! j) \<le> unat (current_version g)"
    if "j < length (queue_buffers g)" for j using inv that by (simp_all add: grid_inv_def)
  have drained: "passed g j \<le> e" if "j < length (queue_buffers g)" "passed g j \<le> unat (current_version g) + 1" "Routine f e \<in> set (queue_buffers g ! i)" for j f e
    using inv that unfolding grid_inv_def point_ok.simps by blast
  have "unat (queue_versions g ! i) < 2 ^ 63" using c(2) [OF i(1)] bounds(1-3) [OF i(1)] small by linarith
  then have test: "0 < sint (current_version g - queue_versions g ! i) \<longleftrightarrow> unat (queue_versions g ! i) < unat (current_version g)"
    by (rule signed_difference [OF bounds(3) [OF i(1)]])
  define up where "up \<longleftrightarrow> current_version g + 1 = queue_versions g ! i"
  have up: "up \<longleftrightarrow> unat (queue_versions g ! i) = unat (current_version g) + 1" unfolding up_def using bounds(4) [OF i(1)] by (metis word_unat_eq_iff)
  obtain s' vs where g': "g' = g\<lparr>queue_versions := vs\<rparr>" "pc = Buffer_Enter (i + 1) s' n" and
    vs: "vs = (if \<not> up \<and> unat (queue_versions g ! i) < unat (current_version g) then (queue_versions g)[i := current_version g] else queue_versions g)" and
    s': "s' = (if up then queue_versions g ! i else s)"
    using step unfolding grid_internal_step.simps Let_def test up_def [symmetric] by (auto split: if_splits)
  have v: "versions_ok g'" by (rule versions_ok_cong [of g]) (use inv in \<open>simp_all add: grid_inv_def g'\<close>)
  have "counter_ok g' pc j" if j: "j < length (queue_buffers g)" for j
    using c [OF j] i(2) by (cases "i = j") (auto simp: g' vs)
  moreover have "late_ok g' pc"
    unfolding late_ok_def g' position.simps
  proof (intro allI impI)
    fix k j f e
    assume "k < length (queue_buffers (g\<lparr>queue_versions := vs\<rparr>))" "j < length (queue_buffers (g\<lparr>queue_versions := vs\<rparr>))"
      "Routine f e \<in> set (queue_buffers (g\<lparr>queue_versions := vs\<rparr>) ! j) \<and> e < passed (g\<lparr>queue_versions := vs\<rparr>) k"
    then have k: "k < length (queue_buffers g)" "j < length (queue_buffers g)" "Routine f e \<in> set (queue_buffers g ! j)" "e < passed g k" by simp_all
    have ne: "j \<noteq> i" if "passed g k \<le> unat (current_version g) + 1" using drained [OF k(1) that] k(3,4) by fastforce
    have own: "k \<noteq> j" using bounds(5) [OF k(2,3)] k(4) by auto
    have "(passed g k \<le> unat (current_version g) \<longrightarrow> i \<le> j \<and> j < k) \<and> (passed g k = unat (current_version g) + 1 \<and> k < i \<longrightarrow> j < k \<or> i \<le> j)"
      using inv k unfolding grid_inv_def late_ok_def position.simps by blast
    then have "(passed g k \<le> unat (current_version g) \<longrightarrow> i + 1 \<le> j \<and> j < k) \<and> (passed g k = unat (current_version g) + 1 \<and> k < i + 1 \<longrightarrow> j < k \<or> i + 1 \<le> j)"
      using ne own by (cases "k = i") auto
    then show "(passed (g\<lparr>queue_versions := vs\<rparr>) k \<le> unat (current_version (g\<lparr>queue_versions := vs\<rparr>)) \<longrightarrow> i + 1 \<le> j \<and> j < k) \<and>
        (passed (g\<lparr>queue_versions := vs\<rparr>) k = unat (current_version (g\<lparr>queue_versions := vs\<rparr>)) + 1 \<and> k < i + 1 \<longrightarrow> j < k \<or> i + 1 \<le> j)" by simp
  qed
  moreover have "point_ok g' pc"
  proof (cases up)
    case True
    then have "passed g i = unat (queue_versions g ! i)" "unat (queue_versions g ! i) = unat (current_version g) + 1" using up c(2) [OF i(1)] by auto
    then show ?thesis using i(1) True by (auto simp: g' s' step_ok_def)
  next
    case False
    have "step_ok g (Buffer_Leave i s n) s" using inv by (simp add: grid_inv_def)
    then show ?thesis using i(1) False by (auto simp: g' s' step_ok_def intro: less_SucI)
  qed
  moreover have "lengths_ok g'" using inv by (simp add: grid_inv_def lengths_ok_def g' vs)
  moreover have "epochs_inv g'" "fifo_ok g'" using inv by (simp_all add: grid_inv_def epochs_inv_def fifo_ok_def g')
  ultimately show ?thesis using v by (simp add: grid_inv_def g')
qed

lemma round_end_inv:
  assumes inv: "grid_inv g (Round_End s n)" and small: "issued g < 2 ^ 63"
    and step: "grid_internal_step stop (Round_End s n) g = (g', pc)"
  shows "grid_inv g' pc"
proof -
  let ?cur = "unat (current_version g)"
  have g': "g' = g\<lparr>current_version := s\<rparr>" "pc = (if n \<noteq> 0 then Round_Start else Grid_Away)" using step by simp_all
  have v: "versions_ok g" using inv by (simp add: grid_inv_def)
  have "step_ok g (Round_End s n) s" using inv by (simp add: grid_inv_def)
  then consider "s = current_version g" | i where "i < length (queue_buffers g)" "unat s = ?cur + 1" "passed g i = unat s"
    by (auto simp: step_ok_def)
  then have stepped: "unat s = ?cur \<or> (\<exists>i < length (queue_buffers g). unat s = ?cur + 1 \<and> passed g i = ?cur + 1)" by cases auto
  have ge: "?cur \<le> unat s" using stepped by auto
  have gone: "\<not> (Routine f e \<in> set (queue_buffers g ! j) \<and> e < passed g k \<and> passed g k \<le> ?cur)"
    "Routine f e \<in> set (queue_buffers g ! j) \<Longrightarrow> e < passed g k \<Longrightarrow> passed g k = ?cur + 1 \<Longrightarrow> j < k"
    if "k < length (queue_buffers g)" "j < length (queue_buffers g)" for k j f e
    using inv that unfolding grid_inv_def late_ok_def position.simps by (meson leD)+
  have "versions_ok g'"
  proof -
    have "unat s \<le> issued g" using stepped v by (auto simp: versions_ok_def)
    moreover have "unat s < x" if k: "k < length (queue_buffers g)" "x \<in> set (ahead g k)" for k x
    proof -
      have x: "?cur < x" "passed g k < x" using v k unfolding versions_ok_def by auto
      have "x \<noteq> ?cur + 1" if "i < length (queue_buffers g)" "passed g i = ?cur + 1" for i
      proof (cases "i = k")
        case False
        then have "set (passed g i # ahead g i) \<inter> set (passed g k # ahead g k) \<subseteq> {0}" using v k(1) that(1) unfolding versions_ok_def by blast
        then show ?thesis using that(2) k(2) by auto
      qed (use x that(2) in simp)
      then show ?thesis using stepped x(1) by fastforce
    qed
    ultimately show ?thesis using v by (simp add: versions_ok_def g')
  qed
  moreover have "counter_ok g' pc j" if "j < length (queue_buffers g)" for j
    using inv that ge by (auto simp: grid_inv_def g')
  moreover have "late_ok g' pc"
  proof -
    have "j < k" if k: "k < length (queue_buffers g)" "j < length (queue_buffers g)" "Routine f e \<in> set (queue_buffers g ! j)" "e < passed g k" "passed g k \<le> unat s" for k j f e
      using gone(1) [OF k(1,2), of f e] gone(2) [OF k(1,2,3,4)] k(3-5) stepped by fastforce
    then show ?thesis by (simp add: late_ok_def g') blast
  qed
  moreover have "point_ok g' pc" by (simp add: g')
  moreover have "lengths_ok g'" "epochs_inv g'" "fifo_ok g'" using inv by (simp_all add: grid_inv_def lengths_ok_def epochs_inv_def fifo_ok_def g')
  ultimately show ?thesis by (simp add: grid_inv_def g')
qed

section \<open>All steps\<close>

lemma run_task_issued [simp]: "issued (run_task f g) = issued g"
  by (cases f) simp_all

lemma grid_internal_inv:
  assumes "grid_inv g pc" "issued g < 2 ^ 63" "pc \<noteq> Grid_Away" "grid_internal_step stop pc g = (g', pc')"
  shows "grid_inv g' pc' \<and> issued g' = issued g"
proof (cases pc)
  case Round_Start
  then show ?thesis using assms(1,4) round_start_inv by auto
next
  case (Buffer_Enter i s n)
  then show ?thesis using buffer_enter_inv assms by (auto split: if_splits)
next
  case (Buffer_Test i s n)
  then show ?thesis using buffer_test_inv [of g i s n] assms by (auto split: if_splits list.splits)
next
  case (Task_Run i f s n)
  then show ?thesis using task_run_inv [of g i f s n] assms by (cases f) (auto simp: Let_def)
next
  case (Buffer_Leave i s n)
  then show ?thesis using buffer_leave_inv [of g i s n] assms by (auto simp: Let_def split: if_splits)
next
  case (Round_End s n)
  then show ?thesis using round_end_inv [of g s n] assms by auto
qed (use assms(3) in simp)

fun grid_ok :: "grid_t \<times> grid_pc \<Rightarrow> bool" where
  "grid_ok (g, pc) \<longleftrightarrow> (issued g < 2 ^ 63 \<longrightarrow> grid_inv g pc)"

lemma grid_step_ok: "grid_ok s \<Longrightarrow> grid_step s s' \<Longrightarrow> grid_ok s'"
proof (cases rule: grid_step.cases [of s s', consumes 1])
  assume ok: "grid_ok s" and step: "grid_step s s'"
  show "grid_step s s'" by (rule step)
next
  fix i g pc f
  assume "grid_ok s" "s = (g, pc)" "s' = (push_grid (Some i) (Routine f (issued g)) g, pc)" "i < length (queue_buffers g)" "posting g ! i = None"
  then show "grid_ok s'" using post_inv [of g pc i f] by (auto simp: push_grid_def)
next
  fix i g pc
  assume "grid_ok s" "s = (g, pc)" "s' = (barrier_issue i g, pc)" "i < length (queue_buffers g)" "posting g ! i = None"
  then show "grid_ok s'" using issue_inv [of g pc i] by (auto simp: barrier_issue_def)
next
  fix i g v pc
  assume "grid_ok s" "s = (g, pc)" "s' = (barrier_post i v g, pc)" "i < length (queue_buffers g)" "posting g ! i = Some v"
  then show "grid_ok s'" using post_barrier_inv [of g pc i v] by (auto simp: barrier_post_def push_grid_def)
next
  fix g
  assume "grid_ok s" "s = (g, Grid_Away)" "s' = (g, Round_Start)"
  then show "grid_ok s'" using enter_inv by auto
next
  fix pc stop g g' pc'
  assume a: "grid_ok s" "s = (g, pc)" "s' = (g', pc')" "pc \<noteq> Grid_Away" "grid_internal_step stop pc g = (g', pc')"
  have "issued g' = issued g" using a(5)
    by (cases pc) (auto simp: Let_def split: if_splits list.splits)
  then show "grid_ok s'" using grid_internal_inv [of g pc stop g' pc'] a by auto
qed

interpretation grid: step_invariant grid_step grid_ok
  by unfold_locales (rule grid_step_ok)

lemma init_storage_inv: "grid_inv (init_storage n) Grid_Away"
  by (simp add: grid_inv_def init_storage_def lengths_ok_def versions_ok_def epochs_inv_def late_ok_def fifo_ok_def passed_def ahead_def)

lemma length_started: "grid_inv g pc \<Longrightarrow> length (started g) = length (queue_buffers g)"
  by (simp add: grid_inv_def lengths_ok_def)

section \<open>Schedules\<close>

text \<open>The steps as moves that compute, for the concrete runs.\<close>

datatype grid_move = Do_Post nat nat | Do_Issue nat | Do_Post_Barrier nat | Do_Enter | Do_Inside bool

fun grid_run_move :: "grid_t \<times> grid_pc \<Rightarrow> grid_move \<Rightarrow> (grid_t \<times> grid_pc) option" where
  "grid_run_move (g, pc) (Do_Post i f) =
     (if i < length (queue_buffers g) \<and> posting g ! i = None then Some (push_grid (Some i) (Routine f (issued g)) g, pc) else None)"
| "grid_run_move (g, pc) (Do_Issue i) =
     (if i < length (queue_buffers g) \<and> posting g ! i = None then Some (barrier_issue i g, pc) else None)"
| "grid_run_move (g, pc) (Do_Post_Barrier i) =
     (if i < length (queue_buffers g) then map_option (\<lambda>v. (barrier_post i v g, pc)) (posting g ! i) else None)"
| "grid_run_move (g, pc) Do_Enter = (if pc = Grid_Away then Some (g, Round_Start) else None)"
| "grid_run_move (g, pc) (Do_Inside stop) = (if pc \<noteq> Grid_Away then Some (grid_internal_step stop pc g) else None)"

lemma grid_move_step: "grid_run_move s m = Some s' \<Longrightarrow> grid_step s s'"
proof (cases "(s, m)" rule: grid_run_move.cases)
  case (5 g pc stop)
  assume "grid_run_move s m = Some s'"
  with 5 have "s = (g, pc)" "pc \<noteq> Grid_Away" "grid_internal_step stop pc g = s'" by (auto split: if_splits)
  then show "grid_step s s'" using grid_step.inside [of pc stop g "fst s'" "snd s'"] by simp
qed (auto intro: grid_step.intros split: if_splits)

interpretation grid_moves: executable_moves grid_run_move grid_step
  by unfold_locales (rule grid_move_step)

section \<open>Properties\<close>

text \<open>
  C4. A warp with a queue for each thread, under every interleaving of the owner with the posting threads, below \<open>2 ^ 63\<close> barriers: each queue is
  executed in order, without loss, and when a routine runs that its thread posted behind a barrier, every routine that any thread had posted before
  the barrier was issued has been taken from its queue.
\<close>

theorem grid_barrier_order:
  assumes "grid_step\<^sup>*\<^sup>* (init_storage n, Grid_Away) (g, pc)" and "issued g < 2 ^ 63"
  shows "(\<forall>i < length (queue_buffers g). pushed g ! i = started g ! i @ queue_buffers g ! i) \<and>
    (\<forall>i f e step k. pc = Task_Run i (Routine f e) step k \<longrightarrow>
       (\<forall>v. Barrier v \<in> set (started g ! i) \<longrightarrow>
          (\<forall>j < length (queue_buffers g). \<forall>f' e'. Routine f' e' \<in> set (queue_buffers g ! j) \<longrightarrow> unat v \<le> e')))"
proof (intro conjI allI impI)
  have inv: "grid_inv g pc" using grid.reachable_inv [OF assms(1)] assms(2) init_storage_inv by simp
  then show "pushed g ! i = started g ! i @ queue_buffers g ! i" if "i < length (queue_buffers g)" for i
    using that by (simp add: grid_inv_def fifo_ok_def)
  fix i f e step k v j f' e'
  assume pc: "pc = Task_Run i (Routine f e) step k" and v: "Barrier v \<in> set (started g ! i)" and j: "j < length (queue_buffers g)"
    and r: "Routine f' e' \<in> set (queue_buffers g ! j)"
  have i: "i < length (queue_buffers g)" using inv by (simp add: pc grid_inv_def)
  have "unat v \<in> set (barriers (started g ! i))" using v by (rule barrier_member)
  moreover have "sorted_wrt (<) (0 # barriers (started g ! i))" using inv i by (simp add: grid_inv_def versions_ok_def)
  ultimately have le: "unat v \<le> passed g i" using sorted_last_le unfolding passed_def by (meson list.set_intros(2))
  have "counter_ok g pc i" using inv i by (simp add: grid_inv_def)
  then have "passed g i \<le> unat (current_version g)" by (simp add: pc)
  then have "\<not> e' < passed g i"
    using inv i j r unfolding grid_inv_def late_ok_def pc position.simps by (meson leD)
  then show "unat v \<le> e'" using le by simp
qed

text \<open>A routine of another thread, then a barrier and a routine behind it: the routine behind the barrier is the last to run.\<close>

theorem grid_barrier_order_witness:
  "\<exists>g :: grid_t. queue_buffers g = [[], []] \<and> pushed g ! 0 = [Barrier 1, Routine 7 1] \<and> pushed g ! 1 = [Routine 5 0] \<and>
     started g = pushed g \<and> unat (1 :: size_t) \<le> issued g"
proof -
  let ?ms = "[Do_Post 1 5, Do_Issue 0, Do_Post_Barrier 0, Do_Post 0 7, Do_Enter] @ replicate 16 (Do_Inside False)"
  obtain g step k where r: "run_requests grid_run_move (init_storage 2, Grid_Away) ?ms = Some (g, Task_Run 0 (Routine 7 1) step k)"
    "queue_buffers g = [[], []]" "pushed g = [[Barrier 1, Routine 7 1], [Routine 5 0]]" "length (started g) = 2" "issued g = 1"
  proof -
    have "map_option (\<lambda>(g, pc). (pc, queue_buffers g, pushed g, length (started g), issued g)) (run_requests grid_run_move (init_storage 2, Grid_Away) ?ms) =
        Some (Task_Run 0 (Routine 7 1) 1 0, [[], []], [[Barrier 1, Routine 7 1], [Routine 5 0]], 2, 1)" by code_simp
    then show thesis using that by auto
  qed
  from grid_barrier_order [OF grid_moves.moves_reach [OF r(1)]] r(5)
  have "\<forall>i < length (queue_buffers g). pushed g ! i = started g ! i @ queue_buffers g ! i" by simp
  then have "pushed g ! 0 = started g ! 0" "pushed g ! 1 = started g ! 1" by (auto simp: r(2) less_Suc_eq)
  moreover have "started g = [started g ! 0, started g ! 1]" using r(4) by (auto simp: numeral_2_eq_2 length_Suc_conv)
  ultimately have "started g = pushed g" using r(3) by (metis nth_Cons_0 nth_Cons_Suc One_nat_def)
  then show ?thesis using r by (intro exI [of _ g]) simp
qed

text \<open>
  Barriers of two threads strand a routine: the thread of queue 1 takes version 1, the thread of queue 0 version 2 and posts a routine behind its barrier. The round
  that steps to version 2 executes nothing, so the owner leaves, and the routine stays though it may run.
\<close>

theorem grid_barrier_strands:
  "map_option (\<lambda>(g, pc). (pc, queue_buffers g, current_version g, queue_versions g))
     (run_requests grid_run_move (init_storage 2, Grid_Away)
       ([Do_Issue 1, Do_Post_Barrier 1, Do_Issue 0, Do_Post_Barrier 0, Do_Post 0 7, Do_Enter] @ replicate 22 (Do_Inside False))) =
   Some (Grid_Away, [[Routine 7 2], []], 2, [2, 1])"
  by code_simp

text \<open>A routine that another thread posts after the barrier runs before a routine from before it.\<close>

theorem grid_barrier_one_queue:
  "map_option (\<lambda>(g, pc). (pushed g, started g))
     (run_requests grid_run_move (init_storage 2, Grid_Away)
       ([Do_Post 1 5, Do_Issue 1, Do_Post_Barrier 1, Do_Post 0 7, Do_Enter] @ replicate 3 (Do_Inside False))) =
   Some ([[Routine 7 1], [Routine 5 0, Barrier 1]], [[Routine 7 1], []])"
  by code_simp

end
