(* ===== verification/Mandelbrot.thy ===== *)
theory Mandelbrot
  imports Prelude
begin

text \<open>
  The renderer of fractal images of \<open>ngx_lua_cpp.cpp\<close>: the palette, the iteration of a pixel, the rows, the two ways to render them (one after the other,
  or one task for each row on the worker pool), and the encoder of the image file. The arithmetic of doubles is a set of operations that are
  arguments: what is shown holds for any of them, rounded or not. A row task writes its bytes into the shared buffer one at a time; the tasks
  of all rows interleave freely between the dispatch and the last \<open>co_await\<close>.
\<close>

unbundle bit_operations_syntax

section \<open>Floating point\<close>

record 'd floating =
  fadd :: "'d \<Rightarrow> 'd \<Rightarrow> 'd"
  fsub :: "'d \<Rightarrow> 'd \<Rightarrow> 'd"
  fmul :: "'d \<Rightarrow> 'd \<Rightarrow> 'd"
  fdiv :: "'d \<Rightarrow> 'd \<Rightarrow> 'd"
  fless :: "'d \<Rightarrow> 'd \<Rightarrow> bool"
  fle :: "'d \<Rightarrow> 'd \<Rightarrow> bool"
  fint :: "int \<Rightarrow> 'd"
  flit :: "int \<Rightarrow> int \<Rightarrow> 'd"
  flog :: "'d \<Rightarrow> 'd"
  flog2 :: "'d \<Rightarrow> 'd"
  fbyte :: "'d \<Rightarrow> uint8_t"

text \<open>\<open>flit F a b\<close> is the literal of the value \<open>a / b\<close>. \<open>std::clamp\<close> and \<open>std::max\<close>:\<close>

definition fclamp :: "'d floating \<Rightarrow> 'd \<Rightarrow> 'd \<Rightarrow> 'd \<Rightarrow> 'd" where
  "fclamp F v lo hi = (if fless F v lo then lo else if fless F hi v then hi else v)"

definition fmax :: "'d floating \<Rightarrow> 'd \<Rightarrow> 'd \<Rightarrow> 'd" where
  "fmax F a b = (if fless F a b then b else a)"

definition clamp :: "nat \<Rightarrow> nat \<Rightarrow> nat \<Rightarrow> nat" where
  "clamp v lo hi = (if v < lo then lo else if hi < v then hi else v)"

section \<open>The palette\<close>

record 'd palette_stop_t =
  stop_t :: 'd
  stop_r :: uint8_t
  stop_g :: uint8_t
  stop_b :: uint8_t

definition mandelbrot_palette :: "'d floating \<Rightarrow> 'd palette_stop_t list" where
  "mandelbrot_palette F =
     [\<lparr>stop_t = flit F 0 100, stop_r = 0, stop_g = 7, stop_b = 100\<rparr>,
      \<lparr>stop_t = flit F 16 100, stop_r = 32, stop_g = 107, stop_b = 203\<rparr>,
      \<lparr>stop_t = flit F 42 100, stop_r = 237, stop_g = 255, stop_b = 255\<rparr>,
      \<lparr>stop_t = flit F 64 100, stop_r = 255, stop_g = 170, stop_b = 0\<rparr>,
      \<lparr>stop_t = flit F 86 100, stop_r = 0, stop_g = 2, stop_b = 0\<rparr>]"

definition channel :: "'d floating \<Rightarrow> uint8_t \<Rightarrow> uint8_t \<Rightarrow> 'd \<Rightarrow> uint8_t" where
  "channel F a p k = fbyte F (fadd F (fint F (uint a)) (fmul F (fint F (uint p - uint a)) k))"

fun palette_loop :: "'d floating \<Rightarrow> 'd \<Rightarrow> 'd palette_stop_t list \<Rightarrow> uint8_t \<times> uint8_t \<times> uint8_t" where
  "palette_loop F t (a # p # stops) =
     (if fle F t (stop_t p) then
        let k = fdiv F (fsub F t (stop_t a)) (fsub F (stop_t p) (stop_t a)) in
          (channel F (stop_r a) (stop_r p) k, channel F (stop_g a) (stop_g p) k, channel F (stop_b a) (stop_b p) k)
      else palette_loop F t (p # stops))"
| "palette_loop F t [p] = (stop_r p, stop_g p, stop_b p)"
| "palette_loop F t [] = (0, 0, 0)"

definition palette_color :: "'d floating \<Rightarrow> 'd \<Rightarrow> uint8_t \<times> uint8_t \<times> uint8_t" where
  "palette_color F t =
     (let stops = mandelbrot_palette F; first = hd stops; final = last stops in
      if fle F t (flit F 0 1) then (stop_r first, stop_g first, stop_b first)
      else if fle F (flit F 1 1) t then (stop_r final, stop_g final, stop_b final)
      else palette_loop F t stops)"

section \<open>Pixels and rows\<close>

text \<open>The loop over \<open>n\<close> with \<open>zr\<close>, \<open>zi\<close>, \<open>zr2\<close> and \<open>zi2\<close>; the count and the squared absolute value at its end.\<close>

function escape :: "'d floating \<Rightarrow> nat \<Rightarrow> 'd \<Rightarrow> 'd \<Rightarrow> nat \<Rightarrow> 'd \<Rightarrow> 'd \<Rightarrow> 'd \<Rightarrow> 'd \<Rightarrow> nat \<times> 'd" where
  "escape F iterations cr ci n zr zi zr2 zi2 =
     (if n < iterations \<and> \<not> fless F (flit F 4 1) (fadd F zr2 zi2) then
        let zi = fadd F (fmul F (fmul F (flit F 2 1) zr) zi) ci;
            zr = fadd F (fsub F zr2 zi2) cr
        in escape F iterations cr ci (n + 1) zr zi (fmul F zr zr) (fmul F zi zi)
      else (n, fadd F zr2 zi2))"
  by auto
termination
  by (relation "measure (\<lambda>(F, iterations, cr, ci, n, z). iterations - n)") auto

declare escape.simps [simp del]

record 'd view_t =
  re_min :: 'd
  im_max :: 'd
  pixel_size :: 'd

text \<open>The three bytes of a pixel, in the order of the file.\<close>

definition mandelbrot_pixel :: "'d floating \<Rightarrow> nat \<Rightarrow> 'd view_t \<Rightarrow> nat \<Rightarrow> nat \<Rightarrow> bytes" where
  "mandelbrot_pixel F iterations v y x =
     (let zero = flit F 0 1;
          ci = fsub F (im_max v) (fmul F (fint F (int y)) (pixel_size v));
          cr = fadd F (re_min v) (fmul F (fint F (int x)) (pixel_size v));
          (n, norm) = escape F iterations cr ci 0 zero zero zero zero
      in if n = iterations then [0, 0, 0]
         else let mu = fsub F (fadd F (fint F (int n)) (flit F 1 1)) (flog2 F (fmul F (flog F norm) (flit F 1 2)));
                  t = fclamp F (fdiv F mu (fint F (int iterations))) zero (flit F 1 1);
                  (r, g, b) = palette_color F t
              in [b, g, r])"

text \<open>The writes of \<open>render_mandelbrot_row\<close> into the buffer of all pixels, where \<open>out\<close> points to row \<open>y\<close>.\<close>

type_synonym byte_write = "nat \<times> uint8_t"

definition render_mandelbrot_row :: "'d floating \<Rightarrow> nat \<Rightarrow> nat \<Rightarrow> 'd view_t \<Rightarrow> nat \<Rightarrow> byte_write list" where
  "render_mandelbrot_row F width iterations v y =
     concat (map (\<lambda>x. zip [y * width * 3 + x * 3, y * width * 3 + x * 3 + 1, y * width * 3 + x * 3 + 2] (mandelbrot_pixel F iterations v y x)) [0..<width])"

definition do_write :: "bytes \<Rightarrow> byte_write \<Rightarrow> bytes" where
  "do_write pixels w = pixels[fst w := snd w]"

text \<open>One row after the other, and the tasks of all rows: any of them takes its next write.\<close>

definition render_serial :: "'d floating \<Rightarrow> nat \<Rightarrow> nat \<Rightarrow> nat \<Rightarrow> 'd view_t \<Rightarrow> bytes" where
  "render_serial F width height iterations v =
     foldl (\<lambda>pixels y. foldl do_write pixels (render_mandelbrot_row F width iterations v y)) (replicate (width * height * 3) 0) [0..<height]"

inductive row_step :: "bytes \<times> byte_write list list \<Rightarrow> bytes \<times> byte_write list list \<Rightarrow> bool" where
  put_byte: "k < length tasks \<Longrightarrow> tasks ! k = w # ws \<Longrightarrow> row_step (pixels, tasks) (do_write pixels w, tasks[k := ws])"

definition row_tasks :: "'d floating \<Rightarrow> nat \<Rightarrow> nat \<Rightarrow> nat \<Rightarrow> 'd view_t \<Rightarrow> byte_write list list" where
  "row_tasks F width height iterations v = map (render_mandelbrot_row F width iterations v) [0..<height]"

section \<open>The image file\<close>

definition put :: "nat \<Rightarrow> bytes \<Rightarrow> bytes \<Rightarrow> bytes" where
  "put off xs bs = take off bs @ xs @ drop (off + length xs) bs"

text \<open>The bytes of a little-endian integer of \<open>n\<close> bytes; conversion to a narrower type keeps the low ones.\<close>

fun le_bytes :: "nat \<Rightarrow> nat \<Rightarrow> bytes" where
  "le_bytes 0 v = []"
| "le_bytes (Suc n) v = of_nat (v mod 256) # le_bytes n (v div 256)"

definition row_size :: "nat \<Rightarrow> nat" where
  "row_size width = unat ((of_nat (width * 3 + 3) :: size_t) AND NOT 3)"

definition bmp_header :: "nat \<Rightarrow> nat \<Rightarrow> bytes \<Rightarrow> bytes" where
  "bmp_header width height bmp =
     (let data_size = row_size width * height;
          bmp = put 0 [0x42] bmp; bmp = put 1 [0x4d] bmp;
          bmp = put 2 (le_bytes 4 (length bmp)) bmp;
          bmp = put 6 (le_bytes 4 0) bmp;
          bmp = put 10 (le_bytes 4 54) bmp;
          bmp = put 14 (le_bytes 4 40) bmp;
          bmp = put 18 (le_bytes 4 width) bmp;
          bmp = put 22 (le_bytes 4 height) bmp;
          bmp = put 26 (le_bytes 2 1) bmp;
          bmp = put 28 (le_bytes 2 24) bmp;
          bmp = put 30 (le_bytes 4 0) bmp
      in put 34 (le_bytes 4 data_size) bmp)"

definition encode_bmp :: "nat \<Rightarrow> nat \<Rightarrow> bytes \<Rightarrow> bytes" where
  "encode_bmp width height rgb =
     foldl (\<lambda>bmp y. put (54 + y * row_size width) (take (width * 3) (drop ((height - 1 - y) * width * 3) rgb)) bmp)
       (bmp_header width height (replicate (54 + row_size width * height) 0)) [0..<height]"

text \<open>The whole call: the size, the view, the pixels in the mode, the file.\<close>

definition mandelbrot_size :: "nat \<Rightarrow> nat \<Rightarrow> nat \<Rightarrow> nat \<times> nat \<times> nat" where
  "mandelbrot_size width height iterations = (clamp width 16 1600, clamp height 16 1200, clamp iterations 4 100000)"

definition mandelbrot_view :: "'d floating \<Rightarrow> nat \<Rightarrow> 'd \<Rightarrow> 'd \<Rightarrow> 'd \<Rightarrow> 'd view_t" where
  "mandelbrot_view F width cx cy zoom =
     (let span = fdiv F (flit F 3 1) (fmax F zoom (flit F 1 1000000)) in
      \<lparr>re_min = fsub F cx (fmul F span (flit F 1 2)), im_max = fadd F cy (fmul F span (flit F 1 2)), pixel_size = fdiv F span (fint F (int width))\<rparr>)"

inductive mandelbrot :: "'d floating \<Rightarrow> nat \<Rightarrow> nat \<Rightarrow> nat \<Rightarrow> 'd \<Rightarrow> 'd \<Rightarrow> 'd \<Rightarrow> nat \<Rightarrow> bytes \<Rightarrow> bool" for F where
  parallel: "mandelbrot_size width height iterations = (w, h, n) \<Longrightarrow> mode = 0 \<and> h > 1 \<Longrightarrow>
    row_step\<^sup>*\<^sup>* (replicate (w * h * 3) 0, row_tasks F w h n (mandelbrot_view F w cx cy zoom)) (pixels, tasks) \<Longrightarrow>
    list_all (\<lambda>t. t = []) tasks \<Longrightarrow> mandelbrot F width height iterations cx cy zoom mode (encode_bmp w h pixels)"
| serial: "mandelbrot_size width height iterations = (w, h, n) \<Longrightarrow> \<not> (mode = 0 \<and> h > 1) \<Longrightarrow>
    mandelbrot F width height iterations cx cy zoom mode (encode_bmp w h (render_serial F w h n (mandelbrot_view F w cx cy zoom)))"

section \<open>Reading the file\<close>

fun le_value :: "bytes \<Rightarrow> nat" where
  "le_value [] = 0"
| "le_value (b # bs) = unat b + 256 * le_value bs"

definition field :: "nat \<Rightarrow> nat \<Rightarrow> bytes \<Rightarrow> nat" where
  "field off n bs = le_value (take n (drop off bs))"

text \<open>The pixel at column \<open>x\<close> of the row \<open>y\<close> from the top, as the format defines it: rows are stored from the bottom up and padded to four bytes.\<close>

definition bmp_pixel :: "bytes \<Rightarrow> nat \<Rightarrow> nat \<Rightarrow> bytes" where
  "bmp_pixel bmp y x =
     (let width = field 18 4 bmp; height = field 22 4 bmp; stride = (width * field 28 2 bmp + 31) div 32 * 4 in
      take 3 (drop (field 10 4 bmp + (height - 1 - y) * stride + x * 3) bmp))"

section \<open>Writes\<close>

lemma length_do_write [simp]: "length (do_write pixels w) = length pixels"
  by (simp add: do_write_def)

lemma do_write_later:
  "fst w \<notin> fst ` set A \<Longrightarrow> foldl do_write pixels (A @ w # B) = foldl do_write (do_write pixels w) (A @ B)"
proof (induction A arbitrary: pixels)
  case (Cons a A)
  have "do_write (do_write pixels a) w = do_write (do_write pixels w) a" using Cons.prems by (auto simp: do_write_def intro: list_update_swap)
  then show ?case using Cons.IH [of "do_write pixels a"] Cons.prems by simp
qed simp

text \<open>Whatever the order, the writes that are left lead to the same image.\<close>

lemma row_step_result:
  assumes "row_step s s'" and "distinct (map fst (concat (snd s)))"
  shows "foldl do_write (fst s') (concat (snd s')) = foldl do_write (fst s) (concat (snd s)) \<and> distinct (map fst (concat (snd s')))"
  using assms(1)
proof cases
  case (put_byte k tasks w ws pixels)
  let ?A = "concat (take k tasks)" and ?B = "concat (drop (Suc k) tasks)"
  have t: "tasks = take k tasks @ (w # ws) # drop (Suc k) tasks" using put_byte(3,4) by (metis id_take_nth_drop)
  have c: "concat tasks = ?A @ w # ws @ ?B" by (subst t) simp
  have c': "concat (tasks[k := ws]) = ?A @ ws @ ?B" using put_byte(3) by (simp add: upd_conv_take_nth_drop)
  have d: "distinct (map fst (?A @ w # ws @ ?B))" using assms(2) put_byte(1) c by simp
  then have "fst w \<notin> fst ` set ?A" by auto
  then show ?thesis using d do_write_later [of w ?A pixels "ws @ ?B"] by (auto simp: put_byte(1,2) c c')
qed

definition writes_inv :: "bytes \<Rightarrow> bytes \<times> byte_write list list \<Rightarrow> bool" where
  "writes_inv result s \<longleftrightarrow> foldl do_write (fst s) (concat (snd s)) = result \<and> distinct (map fst (concat (snd s)))"

interpretation rows: step_invariant row_step "writes_inv result" for result
  by unfold_locales (simp add: writes_inv_def row_step_result)

text \<open>Writes that cover the buffer in order leave what they write.\<close>

lemma foldl_writes:
  "map fst ws = [n..<length pixels] \<Longrightarrow> n \<le> length pixels \<Longrightarrow> foldl do_write pixels ws = take n pixels @ map snd ws"
proof (induction ws arbitrary: n pixels)
  case (Cons w ws)
  then have "[n..<length pixels] = fst w # map fst ws" by simp
  then have n: "n < length pixels" "fst w = n" "map fst ws = [Suc n..<length pixels]" by (auto simp: upt_eq_Cons_conv)
  have "foldl do_write (do_write pixels w) ws = take (Suc n) (do_write pixels w) @ map snd ws"
    using n by (intro Cons.IH) simp_all
  moreover have "take (Suc n) (do_write pixels w) = take n pixels @ [snd w]" using n(1,2) by (simp add: do_write_def take_Suc_conv_app_nth)
  ultimately show ?case by simp
next
  case Nil
  from Nil(1) have "[n..<length pixels] = []" by (metis list.simps(8))
  then have "length pixels \<le> n" by auto
  then show ?case by simp
qed

lemma length_mandelbrot_pixel: "length (mandelbrot_pixel F iterations v y x) = 3"
  by (simp add: mandelbrot_pixel_def Let_def split: prod.splits)

lemma three: "length xs = 3 \<Longrightarrow> \<exists>a b c. xs = [a, b, c]"
  by (auto simp: numeral_3_eq_3 length_Suc_conv)

definition mandelbrot_row :: "'d floating \<Rightarrow> nat \<Rightarrow> nat \<Rightarrow> 'd view_t \<Rightarrow> nat \<Rightarrow> bytes" where
  "mandelbrot_row F width iterations v y = concat (map (mandelbrot_pixel F iterations v y) [0..<width])"

definition mandelbrot_image :: "'d floating \<Rightarrow> nat \<Rightarrow> nat \<Rightarrow> nat \<Rightarrow> 'd view_t \<Rightarrow> bytes" where
  "mandelbrot_image F width height iterations v = concat (map (mandelbrot_row F width iterations v) [0..<height])"

lemma row_writes:
  "map fst (render_mandelbrot_row F width iterations v y) = [y * width * 3..<y * width * 3 + width * 3]"
  "map snd (render_mandelbrot_row F width iterations v y) = mandelbrot_row F width iterations v y"
proof -
  have "map fst (concat (map (\<lambda>x. zip [a + x * 3, a + x * 3 + 1, a + x * 3 + 2] (mandelbrot_pixel F iterations v y x)) [0..<n])) = [a..<a + n * 3] \<and>
    map snd (concat (map (\<lambda>x. zip [a + x * 3, a + x * 3 + 1, a + x * 3 + 2] (mandelbrot_pixel F iterations v y x)) [0..<n])) =
      concat (map (mandelbrot_pixel F iterations v y) [0..<n])" for a n
  proof (induction n)
    case (Suc n)
    obtain p q r where "mandelbrot_pixel F iterations v y n = [p, q, r]" using three [OF length_mandelbrot_pixel] by blast
    moreover have "[a..<a + Suc n * 3] = [a..<a + n * 3] @ [a + n * 3, a + n * 3 + 1, a + n * 3 + 2]"
      by (simp add: numeral_3_eq_3)
    ultimately show ?case using Suc by simp
  qed simp
  then show "map fst (render_mandelbrot_row F width iterations v y) = [y * width * 3..<y * width * 3 + width * 3]"
    "map snd (render_mandelbrot_row F width iterations v y) = mandelbrot_row F width iterations v y"
    by (simp_all add: render_mandelbrot_row_def mandelbrot_row_def)
qed

lemma task_writes:
  "map fst (concat (row_tasks F width height iterations v)) = [0..<width * height * 3]"
  "map snd (concat (row_tasks F width height iterations v)) = mandelbrot_image F width height iterations v"
proof (induction height)
  case (Suc n)
  have "[0..<width * Suc n * 3] = [0..<width * n * 3] @ [n * width * 3..<n * width * 3 + width * 3]"
    using upt_add_eq_append [of 0 "width * n * 3" "width * 3"] by (simp add: algebra_simps)
  moreover note Suc row_writes [of F width iterations v n]
  ultimately show "map fst (concat (row_tasks F width (Suc n) iterations v)) = [0..<width * Suc n * 3]"
    "map snd (concat (row_tasks F width (Suc n) iterations v)) = mandelbrot_image F width (Suc n) iterations v"
    by (simp_all add: row_tasks_def mandelbrot_image_def)
qed (simp_all add: row_tasks_def mandelbrot_image_def)

lemma tasks_result:
  "foldl do_write (replicate (width * height * 3) 0) (concat (row_tasks F width height iterations v)) = mandelbrot_image F width height iterations v"
  using foldl_writes [of "concat (row_tasks F width height iterations v)" 0 "replicate (width * height * 3) 0"]
  by (simp add: task_writes)

lemma foldl_concat_writes: "foldl (\<lambda>b y. foldl do_write b (f y)) pixels ys = foldl do_write pixels (concat (map f ys))"
  by (induction ys arbitrary: pixels) simp_all

lemma serial_result: "render_serial F width height iterations v = mandelbrot_image F width height iterations v"
  unfolding render_serial_def foldl_concat_writes using tasks_result by (simp add: row_tasks_def)

lemma parallel_result:
  assumes "row_step\<^sup>*\<^sup>* (replicate (width * height * 3) 0, row_tasks F width height iterations v) (pixels, tasks)" "list_all (\<lambda>t. t = []) tasks"
  shows "pixels = mandelbrot_image F width height iterations v"
proof -
  have "writes_inv (mandelbrot_image F width height iterations v) (pixels, tasks)"
    by (rule rows.reachable_inv [OF assms(1)]) (simp add: writes_inv_def tasks_result task_writes(1))
  moreover have "concat tasks = []" using assms(2) by (auto simp: list_all_iff)
  ultimately show ?thesis by (simp add: writes_inv_def)
qed

section \<open>The image file and its reader\<close>

lemma length_le_bytes [simp]: "length (le_bytes n v) = n"
  by (induction n arbitrary: v) simp_all

lemma le_value_bytes: "le_value (le_bytes n v) = v mod 256 ^ n"
proof (induction n arbitrary: v)
  case (Suc n)
  have "unat (of_nat (v mod 256) :: uint8_t) = v mod 256" by (simp add: unat_of_nat)
  then have "le_value (le_bytes (Suc n) v) = v mod 256 + 256 * (v div 256 mod 256 ^ n)" by (simp add: Suc)
  also have "\<dots> = v mod (256 * 256 ^ n)" by (simp add: mod_mult2_eq)
  finally show ?case by simp
qed simp

lemma clear_low_bits: "(w :: size_t) AND NOT (mask k) = push_bit k (drop_bit k w)"
proof (rule bit_eqI)
  fix n
  assume "possible_bit TYPE(size_t) n"
  then show "bit (w AND NOT (mask k)) n \<longleftrightarrow> bit (push_bit k (drop_bit k w)) n"
    by (cases "n < k") (auto simp: bit_simps not_less dest: le_Suc_ex)
qed

lemma unat_round: "unat (push_bit 2 (drop_bit 2 (w :: size_t))) = (unat w div 4 * 4) mod 2 ^ 64"
proof -
  have lt: "unat w < 2 ^ 64" using unsigned_less [of w] by simp
  then have "unat w div 4 * 4 < 2 ^ 64" by linarith
  with lt show ?thesis
    unfolding unsigned_push_bit_eq unsigned_drop_bit_eq by (simp add: take_bit_eq_mod push_bit_eq_mult drop_bit_eq_div)
qed

lemma row_size_eq:
  assumes "width < 2 ^ 62"
  shows "row_size width = (width * 3 + 3) div 4 * 4"
proof -
  let ?w = "of_nat (width * 3 + 3) :: size_t"
  have lt: "width * 3 + 3 < 2 ^ 64" using assms by simp
  have "?w AND NOT 3 = push_bit 2 (drop_bit 2 ?w)" using clear_low_bits [of ?w 2] by (simp add: mask_eq_exp_minus_1)
  moreover have "unat ?w = width * 3 + 3" by (subst unat_of_nat) (use lt in simp)
  moreover have "unat (push_bit 2 (drop_bit 2 ?w)) = (unat ?w div 4 * 4) mod 2 ^ 64"
    by (rule unat_round)
  moreover have "(width * 3 + 3) div 4 * 4 < 2 ^ 64" using lt by simp
  ultimately show ?thesis by (simp add: row_size_def)
qed

text \<open>Writing behind what is written already.\<close>

lemma put_next: "length A = off \<Longrightarrow> length xs \<le> n \<Longrightarrow> put off xs (A @ replicate n 0) = (A @ xs) @ replicate (n - length xs) 0"
  by (simp add: put_def)

definition header_bytes :: "nat \<Rightarrow> nat \<Rightarrow> bytes" where
  "header_bytes width height = [0x42, 0x4d] @ le_bytes 4 (54 + row_size width * height) @ le_bytes 4 0 @ le_bytes 4 54 @ le_bytes 4 40 @
     le_bytes 4 width @ le_bytes 4 height @ le_bytes 2 1 @ le_bytes 2 24 @ le_bytes 4 0 @ le_bytes 4 (row_size width * height) @ replicate 16 0"

lemma put_first: "length xs \<le> n \<Longrightarrow> put 0 xs (replicate n 0) = xs @ replicate (n - length xs) 0"
  by (simp add: put_def)

lemma bmp_header_eq:
  "bmp_header width height (replicate (54 + row_size width * height) 0) = header_bytes width height @ replicate (row_size width * height) 0"
proof -
  let ?m = "row_size width * height"
  have "bmp_header width height (replicate (54 + ?m) 0) =
      ((((((((((([0x42] @ [0x4d]) @ le_bytes 4 (54 + ?m)) @ le_bytes 4 0) @ le_bytes 4 54) @ le_bytes 4 40) @ le_bytes 4 width) @ le_bytes 4 height) @
        le_bytes 2 1) @ le_bytes 2 24) @ le_bytes 4 0) @ le_bytes 4 ?m) @ replicate (16 + ?m) 0"
    by (simp add: bmp_header_def put_first put_next Let_def del: append_assoc append_Cons append_Nil replicate.simps le_bytes.simps)
  then show ?thesis by (simp add: header_bytes_def replicate_add del: replicate.simps le_bytes.simps)
qed

text \<open>The row stored at place \<open>k\<close> from the end of the header, with its padding.\<close>

definition stored_row :: "nat \<Rightarrow> nat \<Rightarrow> bytes \<Rightarrow> nat \<Rightarrow> bytes" where
  "stored_row width height rgb k = take (width * 3) (drop ((height - 1 - k) * width * 3) rgb) @ replicate (row_size width - width * 3) 0"

lemma row_fits: "width < 2 ^ 62 \<Longrightarrow> width * 3 \<le> row_size width"
  by (simp add: row_size_eq)

lemma length_stored_row:
  assumes "length rgb = width * height * 3" "k < height" "width < 2 ^ 62"
  shows "length (take (width * 3) (drop ((height - 1 - k) * width * 3) rgb)) = width * 3" "length (stored_row width height rgb k) = row_size width"
proof -
  obtain m where "height = Suc (k + m)" using less_imp_Suc_add [OF assms(2)] by blast
  then have "(height - 1 - k) * (width * 3) + width * 3 = (height - k) * (width * 3)" by simp
  also have "\<dots> \<le> height * (width * 3)" by simp
  finally show "length (take (width * 3) (drop ((height - 1 - k) * width * 3) rgb)) = width * 3" using assms(1) by (simp add: algebra_simps)
  then show "length (stored_row width height rgb k) = row_size width" using row_fits [OF assms(3)] by (simp add: stored_row_def)
qed

lemma length_header: "length (header_bytes width height) = 54"
  by (simp add: header_bytes_def)

lemma length_stored_rows:
  "length rgb = width * height * 3 \<Longrightarrow> width < 2 ^ 62 \<Longrightarrow> n \<le> height \<Longrightarrow>
   length (concat (map (stored_row width height rgb) [0..<n])) = n * row_size width"
  by (induction n) (simp_all add: length_stored_row(2))

lemma encode_bmp_eq:
  assumes rgb: "length rgb = width * height * 3" "width < 2 ^ 62"
  shows "encode_bmp width height rgb = header_bytes width height @ concat (map (stored_row width height rgb) [0..<height])"
proof -
  let ?f = "\<lambda>bmp y. put (54 + y * row_size width) (take (width * 3) (drop ((height - 1 - y) * width * 3) rgb)) bmp"
  let ?z = "\<lambda>m. replicate m (0 :: uint8_t)"
  have "foldl ?f (header_bytes width height @ ?z (row_size width * height)) [0..<n] =
      header_bytes width height @ concat (map (stored_row width height rgb) [0..<n]) @ ?z (row_size width * (height - n))" if "n \<le> height" for n
    using that
  proof (induction n)
    case (Suc n)
    let ?A = "header_bytes width height @ concat (map (stored_row width height rgb) [0..<n])"
    let ?row = "take (width * 3) (drop ((height - 1 - n) * width * 3) rgb)"
    have len: "length ?A = 54 + n * row_size width" using Suc.prems by (simp add: length_header length_stored_rows [OF rgb])
    have row: "length ?row = width * 3" using Suc.prems by (intro length_stored_row [OF rgb(1) _ rgb(2)]) simp
    obtain m where "height = Suc (n + m)" using less_imp_Suc_add [of n height] Suc.prems by auto
    then have split: "row_size width * (height - n) = row_size width + row_size width * (height - Suc n)" by simp
    have "length ?row \<le> row_size width * (height - n)" unfolding row split using row_fits [OF rgb(2)] by simp
    note p = put_next [OF len this]
    have rest: "?z (row_size width * (height - n) - length ?row) = ?z (row_size width - width * 3) @ ?z (row_size width * (height - Suc n))"
      unfolding row split using row_fits [OF rgb(2)] by (simp add: replicate_add [symmetric])
    have "foldl ?f (header_bytes width height @ ?z (row_size width * height)) [0..<Suc n] =
        ?f (foldl ?f (header_bytes width height @ ?z (row_size width * height)) [0..<n]) n" by simp
    also have "\<dots> = put (54 + n * row_size width) ?row (?A @ ?z (row_size width * (height - n)))" using Suc by simp
    also have "\<dots> = (?A @ ?row) @ ?z (row_size width - width * 3) @ ?z (row_size width * (height - Suc n))" unfolding p rest ..
    finally show ?case using stored_row_def [of width height rgb n] by simp
  qed simp
  from this [of height] show ?thesis by (simp add: encode_bmp_def bmp_header_eq)
qed

lemma concat_nth_block:
  "k < n \<Longrightarrow> (\<And>i. i < n \<Longrightarrow> length (f i) = r) \<Longrightarrow> drop (k * r) (concat (map f [0..<n])) = concat (map f [k..<n])"
proof (induction k)
  case (Suc k)
  have "drop (Suc k * r) (concat (map f [0..<n])) = drop r (drop (k * r) (concat (map f [0..<n])))" by (simp add: add.commute)
  also have "\<dots> = drop r (f k @ concat (map f [Suc k..<n]))" using Suc by (simp add: upt_conv_Cons)
  finally show ?case using Suc.prems by simp
qed simp

text \<open>The reader finds the fields and the pixels.\<close>

lemma header_fields:
  assumes "width < 2 ^ 16" "height < 2 ^ 16"
  shows "field 10 4 (header_bytes width height @ bs) = 54" "field 18 4 (header_bytes width height @ bs) = width"
    "field 22 4 (header_bytes width height @ bs) = height" "field 28 2 (header_bytes width height @ bs) = 24"
    "field 2 4 (header_bytes width height @ bs) = (54 + row_size width * height) mod 2 ^ 32"
  using assms by (simp_all add: field_def header_bytes_def le_value_bytes del: le_bytes.simps le_value.simps)

lemma encoded_pixel:
  assumes rgb: "length rgb = width * height * 3" and size: "width < 2 ^ 16" "height < 2 ^ 16" and at: "y < height" "x < width"
  shows "bmp_pixel (encode_bmp width height rgb) y x = take 3 (drop ((y * width + x) * 3) rgb)"
proof -
  have w: "width < 2 ^ 62" using size(1) by simp
  let ?k = "height - 1 - y"
  have k: "?k < height" "height - 1 - ?k = y" using at(1) by simp_all
  have stride: "(width * 24 + 31) div 32 * 4 = row_size width" 
  proof -
    have "(width * 24 + 31) div 32 = (width * 24 + 31) div 8 div 4" by (simp flip: div_mult2_eq)
    moreover have "(width * 24 + 31) div 8 = width * 3 + 3" by presburger
    ultimately show ?thesis unfolding row_size_eq [OF w] by simp
  qed
  have "bmp_pixel (encode_bmp width height rgb) y x =
      take 3 (drop (54 + ?k * row_size width + x * 3) (header_bytes width height @ concat (map (stored_row width height rgb) [0..<height])))"
    unfolding encode_bmp_eq [OF rgb w] by (simp only: bmp_pixel_def header_fields [OF size] Let_def stride)
  also have "\<dots> = take 3 (drop (x * 3) (drop (?k * row_size width) (concat (map (stored_row width height rgb) [0..<height]))))"
    by (simp add: length_header add.commute)
  also have "drop (?k * row_size width) (concat (map (stored_row width height rgb) [0..<height])) =
      stored_row width height rgb ?k @ concat (map (stored_row width height rgb) [Suc ?k..<height])"
    using concat_nth_block [of ?k height "stored_row width height rgb" "row_size width", OF k(1) length_stored_row(2) [OF rgb _ w]] k(1)
    by (simp add: upt_conv_Cons)
  also have "take 3 (drop (x * 3) (stored_row width height rgb ?k @ concat (map (stored_row width height rgb) [Suc ?k..<height]))) =
      take 3 (drop (x * 3) (take (width * 3) (drop (y * width * 3) rgb)))"
    using length_stored_row(1) [OF rgb k(1) w] at(2) by (simp add: stored_row_def k(2) [simplified])
  also have "\<dots> = take 3 (drop ((y * width + x) * 3) rgb)"
    using at(2) by (simp add: drop_take min_def algebra_simps)
  finally show ?thesis .
qed

lemma length_mandelbrot_row: "length (mandelbrot_row F width iterations v y) = width * 3"
  unfolding mandelbrot_row_def by (induction width) (simp_all add: length_mandelbrot_pixel)

lemma length_mandelbrot_image: "length (mandelbrot_image F width height iterations v) = width * height * 3"
  unfolding mandelbrot_image_def by (induction height) (simp_all add: length_mandelbrot_row algebra_simps)

lemma image_pixel:
  assumes "y < height" "x < width"
  shows "take 3 (drop ((y * width + x) * 3) (mandelbrot_image F width height iterations v)) = mandelbrot_pixel F iterations v y x"
proof -
  let ?row = "mandelbrot_row F width iterations v" and ?pixel = "mandelbrot_pixel F iterations v y"
  have "drop (x * 3) (?row y) = concat (map ?pixel [x..<width])"
    unfolding mandelbrot_row_def by (rule concat_nth_block [OF assms(2)]) (rule length_mandelbrot_pixel)
  then have row: "take 3 (drop (x * 3) (?row y)) = ?pixel x" using assms(2) by (simp add: upt_conv_Cons length_mandelbrot_pixel)
  have "drop (y * (width * 3)) (mandelbrot_image F width height iterations v) = concat (map ?row [y..<height])"
    unfolding mandelbrot_image_def by (rule concat_nth_block [OF assms(1)]) (rule length_mandelbrot_row)
  also have "\<dots> = ?row y @ concat (map ?row [Suc y..<height])" using assms(1) by (simp add: upt_conv_Cons)
  finally have "drop ((y * width + x) * 3) (mandelbrot_image F width height iterations v) = drop (x * 3) (?row y @ concat (map ?row [Suc y..<height]))"
    by (simp add: algebra_simps flip: drop_drop)
  moreover have "x * 3 + 3 \<le> length (?row y)" using assms(2) by (simp add: length_mandelbrot_row)
  ultimately show ?thesis using row by simp
qed

lemma mandelbrot_result:
  assumes "mandelbrot F width height iterations cx cy zoom mode bmp" "mandelbrot_size width height iterations = (w, h, n)"
  shows "bmp = encode_bmp w h (mandelbrot_image F w h n (mandelbrot_view F w cx cy zoom))"
  using assms(1)
proof cases
  case (parallel w' h' n' pixels tasks)
  then show ?thesis using assms(2) parallel_result [of w' h' F n'] by simp
next
  case (serial w' h' n')
  then show ?thesis using assms(2) by (simp add: serial_result)
qed

lemma mandelbrot_size_bounds:
  "mandelbrot_size width height iterations = (w, h, n) \<Longrightarrow> w < 2 ^ 16 \<and> h < 2 ^ 16 \<and> 54 + row_size w * h < 2 ^ 32"
proof -
  assume "mandelbrot_size width height iterations = (w, h, n)"
  then have b: "w \<le> 1600" "h \<le> 1200" by (auto simp: mandelbrot_size_def clamp_def split: if_splits)
  then have "row_size w \<le> 4804" by (subst row_size_eq) auto
  then have "row_size w * h \<le> 4804 * 1200" using b by (intro mult_le_mono)
  then show ?thesis using b by simp
qed

section \<open>Properties\<close>

text \<open>The row tasks finish, so every call has a result.\<close>

lemma rows_finish: "\<exists>pixels' tasks'. row_step\<^sup>*\<^sup>* (pixels, tasks) (pixels', tasks') \<and> list_all (\<lambda>t. t = []) tasks'"
proof (induction "length (concat tasks)" arbitrary: pixels tasks rule: less_induct)
  case less
  show ?case
  proof (cases "list_all (\<lambda>t. t = []) tasks")
    case False
    then obtain k w ws where k: "k < length tasks" "tasks ! k = w # ws" by (auto simp: list_all_length neq_Nil_conv)
    have "tasks = take k tasks @ (w # ws) # drop (Suc k) tasks" using k by (metis id_take_nth_drop)
    then have "length (concat tasks) = length (concat (take k tasks)) + Suc (length ws) + length (concat (drop (Suc k) tasks))"
      by (metis add_Suc add_Suc_right append.assoc concat.simps(2) concat_append length_Cons length_append add.assoc)
    then have "length (concat (tasks[k := ws])) < length (concat tasks)" using k(1) by (simp add: upd_conv_take_nth_drop)
    from less [OF this, of "do_write pixels w"] row_step.put_byte [OF k, of pixels] show ?thesis by (meson converse_rtranclp_into_rtranclp)
  qed auto
qed

lemma mandelbrot_returns: "\<exists>bmp. mandelbrot F width height iterations cx cy zoom mode bmp"
proof -
  obtain w h n where size: "mandelbrot_size width height iterations = (w, h, n)" by (cases "mandelbrot_size width height iterations")
  show ?thesis
    using rows_finish [of "replicate (w * h * 3) 0" "row_tasks F w h n (mandelbrot_view F w cx cy zoom)"] parallel [OF size] serial [OF size] by metis
qed

text \<open>
  C35. Whatever the floating-point operations do: every run of the renderer, in the parallel mode under any interleaving of the row tasks' writes and
  in the serial one, gives the same file; it has the size its header states, and its reader finds at each column and row the pixel the
  iteration computes there.
\<close>

theorem mandelbrot_renders:
  assumes "mandelbrot F width height iterations cx cy zoom mode bmp" and "mandelbrot_size width height iterations = (w, h, n)"
  shows "bmp = encode_bmp w h (render_serial F w h n (mandelbrot_view F w cx cy zoom)) \<and>
    length bmp = 54 + row_size w * h \<and> field 2 4 bmp = length bmp \<and> field 18 4 bmp = w \<and> field 22 4 bmp = h \<and>
    (\<forall>y < h. \<forall>x < w. bmp_pixel bmp y x = mandelbrot_pixel F n (mandelbrot_view F w cx cy zoom) y x)"
proof -
  let ?rgb = "mandelbrot_image F w h n (mandelbrot_view F w cx cy zoom)"
  note size = mandelbrot_size_bounds [OF assms(2)]
  have rgb: "length ?rgb = w * h * 3" by (rule length_mandelbrot_image)
  have bmp: "bmp = encode_bmp w h ?rgb" by (rule mandelbrot_result [OF assms])
  have enc: "bmp = header_bytes w h @ concat (map (stored_row w h ?rgb) [0..<h])" using size unfolding bmp by (intro encode_bmp_eq [OF rgb]) simp
  have fields: "field 2 4 bmp = 54 + row_size w * h" "field 18 4 bmp = w" "field 22 4 bmp = h"
    unfolding enc using size header_fields [of w h] by simp_all
  have "length bmp = 54 + row_size w * h" unfolding enc using size length_stored_rows [OF rgb, of h] by (simp add: length_header mult.commute)
  moreover have "bmp_pixel bmp y x = mandelbrot_pixel F n (mandelbrot_view F w cx cy zoom) y x" if "y < h" "x < w" for y x
    unfolding bmp encoded_pixel [OF rgb conjunct1 [OF size] conjunct1 [OF conjunct2 [OF size]] that] by (rule image_pixel [OF that])
  ultimately show ?thesis unfolding serial_result using fields bmp by auto
qed

text \<open>With operations on integers, the set of points is not left at the pixel in column 8 of row 8.\<close>

definition int_floating :: "int floating" where
  "int_floating = \<lparr>fadd = (+), fsub = (-), fmul = (*), fdiv = (div), fless = (<), fle = (\<le>), fint = (\<lambda>i. i), flit = (div), flog = (\<lambda>d. d), flog2 = (\<lambda>d. d),
     fbyte = word_of_int\<rparr>"

theorem mandelbrot_renders_witness:
  "\<exists>bmp. mandelbrot int_floating 16 16 4 0 0 1 1 bmp \<and> length bmp = 822 \<and> bmp_pixel bmp 8 8 = [0, 0, 0]"
proof -
  have s: "mandelbrot_size 16 16 4 = (16, 16, 4)" by (simp add: mandelbrot_size_def clamp_def)
  have "mandelbrot int_floating 16 16 4 0 0 1 1 (encode_bmp 16 16 (render_serial int_floating 16 16 4 (mandelbrot_view int_floating 16 0 0 1)))"
    by (rule mandelbrot.serial [OF s]) simp
  moreover have "mandelbrot_pixel int_floating 4 (mandelbrot_view int_floating 16 0 0 1) 8 8 = [0, 0, 0]" by code_simp
  moreover have "row_size 16 = 48" by (subst row_size_eq) simp_all
  ultimately show ?thesis using mandelbrot_renders [OF _ s, of int_floating 0 0 1 1] by fastforce
qed

end
