(* ===== verification/Sync_Event.thy ===== *)
theory Sync_Event
  imports Prelude "HOL-Library.Multiset"
begin

text \<open>
  The event \<open>iris_event_t\<close> of \<open>iris_coroutine.h\<close>: coroutines wait until it is signaled. Any number of threads, each at a program point; a step is one access to
  \<open>signaled\<close> or the section under the mutex. \<open>resumed\<close> are the coroutines that went on, at once or through \<open>dispatch\<close>. Ghost state: the coroutines that ever
  awaited the event.
\<close>

section \<open>State and steps\<close>

type_synonym coroutine = nat

record event_t =
  signaled :: bool
  handles :: "coroutine list"
  resumed :: "coroutine multiset"
  awaited :: "coroutine multiset"

definition event_make :: event_t where
  "event_make = \<lparr>signaled = False, handles = [], resumed = {#}, awaited = {#}\<rparr>"

datatype event_pc = Away | Wait_Ready coroutine | Wait_Check coroutine | Wait_Lock coroutine | Notify | Notify_Dispatch "coroutine list" | Reset

definition event_dispatch :: "coroutine \<Rightarrow> event_t \<Rightarrow> event_t" where
  "event_dispatch c e = e\<lparr>resumed := resumed e + {#c#}\<rparr>"

text \<open>\<open>await_ready\<close> and \<open>await_suspend\<close>; the section under the lock checks again before it pushes.\<close>

fun event_await_step :: "event_pc \<Rightarrow> event_t \<Rightarrow> event_t \<times> event_pc" where
  "event_await_step (Wait_Ready c) e = (if signaled e then (event_dispatch c e, Away) else (e, Wait_Check c))"
| "event_await_step (Wait_Check c) e = (if signaled e then (event_dispatch c e, Away) else (e, Wait_Lock c))"
| "event_await_step (Wait_Lock c) e = (if signaled e then (event_dispatch c e, Away) else (e\<lparr>handles := handles e @ [c]\<rparr>, Away))"
| "event_await_step pc e = (e, pc)"

text \<open>\<open>notify\<close>: the section under the lock, then one \<open>dispatch\<close> after the other.\<close>

fun event_notify_step :: "event_pc \<Rightarrow> event_t \<Rightarrow> event_t \<times> event_pc" where
  "event_notify_step Notify e = (e\<lparr>signaled := True, handles := []\<rparr>, Notify_Dispatch (handles e))"
| "event_notify_step (Notify_Dispatch []) e = (e, Away)"
| "event_notify_step (Notify_Dispatch (c # cs)) e = (event_dispatch c e, Notify_Dispatch cs)"
| "event_notify_step pc e = (e, pc)"

definition event_reset :: "event_t \<Rightarrow> event_t" where
  "event_reset e = e\<lparr>signaled := False\<rparr>"

definition event_advance :: "event_pc \<Rightarrow> event_t \<Rightarrow> event_t \<times> event_pc" where
  "event_advance pc e =
     (case pc of
        Away \<Rightarrow> (e, Away)
      | Notify \<Rightarrow> event_notify_step pc e | Notify_Dispatch _ \<Rightarrow> event_notify_step pc e
      | Reset \<Rightarrow> (event_reset e, Away)
      | _ \<Rightarrow> event_await_step pc e)"

inductive event_step :: "event_t \<times> event_pc list \<Rightarrow> event_t \<times> event_pc list \<Rightarrow> bool" where
  start_await: "t < length pcs \<Longrightarrow> pcs ! t = Away \<Longrightarrow> event_step (e, pcs) (e\<lparr>awaited := awaited e + {#c#}\<rparr>, pcs[t := Wait_Ready c])"
| start_call: "t < length pcs \<Longrightarrow> pcs ! t = Away \<Longrightarrow> pc \<in> {Notify, Reset} \<Longrightarrow> event_step (e, pcs) (e, pcs[t := pc])"
| run_thread: "t < length pcs \<Longrightarrow> event_advance (pcs ! t) e = (e', pc) \<Longrightarrow> event_step (e, pcs) (e', pcs[t := pc])"

section \<open>The invariant\<close>

fun in_thread :: "event_pc \<Rightarrow> coroutine multiset" where
  "in_thread (Wait_Ready c) = {#c#}"
| "in_thread (Wait_Check c) = {#c#}"
| "in_thread (Wait_Lock c) = {#c#}"
| "in_thread (Notify_Dispatch cs) = mset cs"
| "in_thread pc = {#}"

definition event_ok :: "event_t \<Rightarrow> coroutine multiset \<Rightarrow> bool" where
  "event_ok e inside \<longleftrightarrow> awaited e = resumed e + mset (handles e) + inside \<and> (signaled e \<longrightarrow> handles e = [])"

fun event_inv :: "event_t \<times> event_pc list \<Rightarrow> bool" where
  "event_inv (e, pcs) \<longleftrightarrow> event_ok e (\<Sum>pc \<leftarrow> pcs. in_thread pc)"

lemma event_advance_ok:
  "event_advance pc e = (e', pc') \<Longrightarrow> event_ok e (in_thread pc + A) \<Longrightarrow> event_ok e' (in_thread pc' + A)"
  by (cases pc; cases "case pc of Notify_Dispatch cs \<Rightarrow> cs | _ \<Rightarrow> []")
    (auto simp: event_advance_def event_ok_def event_dispatch_def event_reset_def split: if_splits)

lemma event_step_inv:
  assumes inv: "event_inv s" and step: "event_step s s'"
  shows "event_inv s'"
  using step
proof cases
  case (start_await t pcs e c)
  then show ?thesis using inv by (simp add: sum_others_update sum_others [of t pcs] event_ok_def)
next
  case (start_call t pcs pc e)
  then show ?thesis using inv by (auto simp: sum_others_update sum_others [of t pcs] event_ok_def)
next
  case (run_thread t pcs e e' pc)
  then have "event_ok e (in_thread (pcs ! t) + (\<Sum>x \<leftarrow> others t pcs. in_thread x))" using inv by (simp only: event_inv.simps sum_others [of t pcs])
  from event_advance_ok [OF run_thread(4) this] run_thread show ?thesis by (simp only: event_inv.simps sum_others_update)
qed

interpretation event: step_invariant event_step event_inv
  by unfold_locales (rule event_step_inv)

lemma event_make_inv: "event_inv (event_make, replicate n Away)"
proof -
  have "(\<Sum>pc \<leftarrow> replicate n Away. in_thread pc) = {#}" by (induction n) auto
  then show ?thesis by (simp add: event_make_def event_ok_def)
qed

section \<open>Properties\<close>

text \<open>
  C22. An event with any number of threads that wait, notify and reset: every coroutine that awaits it is waiting, on its way, or has gone on, exactly once for each time it
  awaited; nobody waits for a signaled event, so when it is signaled and no thread is inside, all have gone on.
\<close>

theorem event_wakes_all:
  assumes "event_step\<^sup>*\<^sup>* (event_make, replicate n Away) (e, pcs)"
  shows "awaited e = resumed e + mset (handles e) + (\<Sum>pc \<leftarrow> pcs. in_thread pc) \<and> (signaled e \<longrightarrow> handles e = []) \<and>
    (signaled e \<and> list_all (\<lambda>pc. pc = Away) pcs \<longrightarrow> resumed e = awaited e)"
proof -
  have inv: "event_ok e (\<Sum>pc \<leftarrow> pcs. in_thread pc)" using event.reachable_inv [OF assms event_make_inv] by simp
  moreover have "(\<Sum>pc \<leftarrow> pcs. in_thread pc) = {#}" if "list_all (\<lambda>pc. pc = Away) pcs" using that by (induction pcs) auto
  ultimately show ?thesis by (auto simp: event_ok_def)
qed

text \<open>The steps as moves that compute.\<close>

datatype event_move = Do_Await nat coroutine | Do_Notify nat | Do_Reset nat | Do_Run nat

fun event_run_move :: "event_t \<times> event_pc list \<Rightarrow> event_move \<Rightarrow> (event_t \<times> event_pc list) option" where
  "event_run_move (e, pcs) (Do_Await t c) =
     (if t < length pcs \<and> pcs ! t = Away then Some (e\<lparr>awaited := awaited e + {#c#}\<rparr>, pcs[t := Wait_Ready c]) else None)"
| "event_run_move (e, pcs) (Do_Notify t) = (if t < length pcs \<and> pcs ! t = Away then Some (e, pcs[t := Notify]) else None)"
| "event_run_move (e, pcs) (Do_Reset t) = (if t < length pcs \<and> pcs ! t = Away then Some (e, pcs[t := Reset]) else None)"
| "event_run_move (e, pcs) (Do_Run t) =
     (if t < length pcs then let (e, pc) = event_advance (pcs ! t) e in Some (e, pcs[t := pc]) else None)"

lemma event_move_step: "event_run_move s m = Some s' \<Longrightarrow> event_step s s'"
proof (cases "(s, m)" rule: event_run_move.cases)
  case (1 e pcs t c)
  assume "event_run_move s m = Some s'"
  then show "event_step s s'" using 1 event_step.start_await [of t pcs e c] by (auto split: if_splits)
qed (auto intro: event_step.intros split: if_splits prod.splits)

interpretation event_moves: executable_moves event_run_move event_step
  by unfold_locales (rule event_move_step)

text \<open>Coroutine 7 waits, coroutine 8 is about to wait when the event is signaled.\<close>

theorem event_wakes_all_witness: "\<exists>e :: event_t. signaled e \<and> resumed e = awaited e \<and> awaited e = {#7, 8 :: nat#}"
proof -
  let ?ms = "[Do_Await 0 7, Do_Run 0, Do_Run 0, Do_Run 0, Do_Await 0 8, Do_Run 0, Do_Notify 1, Do_Run 1, Do_Run 0, Do_Run 1, Do_Run 1]"
  have r: "map_option (\<lambda>(e, pcs). (pcs, signaled e)) (run_requests event_run_move (event_make, replicate 2 Away) ?ms) = Some ([Away, Away], True)" and a: "\<And>e pcs. run_requests event_run_move (event_make, replicate 2 Away) ?ms = Some (e, pcs) \<Longrightarrow> awaited e = {#7, 8#}"
    by (simp_all add: event_make_def event_advance_def event_dispatch_def numeral_2_eq_2)
  have "\<exists>e. r = Some (e, x) \<and> signaled e" if "map_option (\<lambda>(e, pcs). (pcs, signaled e)) r = Some (x, True)" for r :: "(event_t \<times> event_pc list) option" and x
    using that by (cases r) auto
  from this [OF r] obtain e where e: "run_requests event_run_move (event_make, replicate 2 Away) ?ms = Some (e, [Away, Away])" "signaled e" by blast
  have "signaled e \<and> list_all (\<lambda>pc. pc = Away) [Away, Away] \<longrightarrow> resumed e = awaited e"
    using event_wakes_all [OF event_moves.moves_reach [OF e(1)]] by blast
  then have "resumed e = awaited e" using e(2) by simp
  with e(2) a [OF e(1)] show ?thesis by blast
qed

end
