(* ===== verification/Pipe.thy ===== *)
theory Pipe
  imports Prelude
begin

text \<open>
  The pipe \<open>iris_pipe_t\<close> of \<open>iris_coroutine.h\<close>, with its mutexes: any number of producers emplace elements and any number of coroutines await them. Each
  thread stands at a program point; a step is one access to a shared counter, or what happens under one of the element locks; \<open>handle_lock\<close>
  has its holder in the state, and a thread that waits for it stays where it is. \<open>dispatched\<close> are the coroutines handed to the worker
  pool or their warp. Taking the front of an empty queue is undefined: \<^const>\<open>None\<close>. Ghost state: what was emplaced and what each
  coroutine received.
\<close>

section \<open>State and steps\<close>

type_synonym coroutine = nat

record 'e pipe_t =
  prepared_count :: nat
  waiting_count :: nat
  handle_lock :: "nat option"
  handles :: "coroutine list"
  elements :: "'e list"
  dispatched :: "coroutine list"
  emplaced :: "'e list"
  received :: "(coroutine \<times> 'e) list"

definition pipe_make :: "'e pipe_t" where
  "pipe_make = \<lparr>prepared_count = 0, waiting_count = 0, handle_lock = None, handles = [], elements = [], dispatched = [], emplaced = [], received = []\<rparr>"

datatype 'e pipe_pc =
    Idle
  | Await_Fast coroutine | Await_Lock coroutine | Await_Retry coroutine | Await_Push coroutine | Await_Count
  | Emplace_Element 'e | Emplace_Fast | Emplace_Pop | Emplace_Lock | Emplace_Retry | Emplace_Pop_Held | Emplace_Count
  | Resume coroutine

text \<open>\<open>flush_prepared\<close> and \<open>flush_waiting\<close>: the compare-and-swap that succeeds, or the load of zero.\<close>

definition flush_prepared :: "'e pipe_t \<Rightarrow> 'e pipe_t \<times> bool" where
  "flush_prepared p = (if prepared_count p \<noteq> 0 then (p\<lparr>prepared_count := prepared_count p - 1\<rparr>, True) else (p, False))"

definition flush_waiting :: "'e pipe_t \<Rightarrow> 'e pipe_t \<times> bool" where
  "flush_waiting p = (if waiting_count p \<noteq> 0 then (p\<lparr>waiting_count := waiting_count p - 1\<rparr>, True) else (p, False))"

definition pipe_dispatch :: "coroutine \<Rightarrow> 'e pipe_t \<Rightarrow> 'e pipe_t" where
  "pipe_dispatch c p = p\<lparr>dispatched := dispatched p @ [c]\<rparr>"

text \<open>Take the first waiting coroutine, release the lock and dispatch the coroutine.\<close>

definition pop_handle :: "'e pipe_t \<Rightarrow> 'e pipe_t option" where
  "pop_handle p = (case handles p of [] \<Rightarrow> None | c # cs \<Rightarrow> Some (pipe_dispatch c (p\<lparr>handles := cs, handle_lock := None\<rparr>)))"

text \<open>\<open>await_suspend\<close>\<close>

fun await_suspend_step :: "nat \<Rightarrow> 'e pipe_pc \<Rightarrow> 'e pipe_t \<Rightarrow> ('e pipe_t \<times> 'e pipe_pc) option" where
  "await_suspend_step t (Await_Fast c) p =
     (let (p, ok) = flush_prepared p in if ok then Some (pipe_dispatch c p, Idle) else Some (p, Await_Lock c))"
| "await_suspend_step t (Await_Lock c) p =
     Some (if handle_lock p = None then (p\<lparr>handle_lock := Some t\<rparr>, Await_Retry c) else (p, Await_Lock c))"
| "await_suspend_step t (Await_Retry c) p =
     (let (p, ok) = flush_prepared p in if ok then Some (pipe_dispatch c (p\<lparr>handle_lock := None\<rparr>), Idle) else Some (p, Await_Push c))"
| "await_suspend_step t (Await_Push c) p = Some (p\<lparr>handles := handles p @ [c]\<rparr>, Await_Count)"
| "await_suspend_step t Await_Count p = Some (p\<lparr>waiting_count := waiting_count p + 1, handle_lock := None\<rparr>, Idle)"
| "await_suspend_step t pc p = None"

text \<open>\<open>emplace\<close>\<close>

fun emplace_step :: "nat \<Rightarrow> 'e pipe_pc \<Rightarrow> 'e pipe_t \<Rightarrow> ('e pipe_t \<times> 'e pipe_pc) option" where
  "emplace_step t (Emplace_Element e) p = Some (p\<lparr>elements := elements p @ [e], emplaced := emplaced p @ [e]\<rparr>, Emplace_Fast)"
| "emplace_step t Emplace_Fast p =
     (let (p, ok) = flush_waiting p in Some (p, if ok then Emplace_Pop else Emplace_Lock))"
| "emplace_step t Emplace_Pop p =
     (if handle_lock p = None then map_option (\<lambda>p. (p, Idle)) (pop_handle p) else Some (p, Emplace_Pop))"
| "emplace_step t Emplace_Lock p =
     Some (if handle_lock p = None then (p\<lparr>handle_lock := Some t\<rparr>, Emplace_Retry) else (p, Emplace_Lock))"
| "emplace_step t Emplace_Retry p =
     (let (p, ok) = flush_waiting p in Some (p, if ok then Emplace_Pop_Held else Emplace_Count))"
| "emplace_step t Emplace_Pop_Held p = map_option (\<lambda>p. (p, Idle)) (pop_handle p)"
| "emplace_step t Emplace_Count p = Some (p\<lparr>prepared_count := prepared_count p + 1, handle_lock := None\<rparr>, Idle)"
| "emplace_step t pc p = None"

text \<open>\<open>await_resume\<close>\<close>

fun await_resume_step :: "'e pipe_pc \<Rightarrow> 'e pipe_t \<Rightarrow> ('e pipe_t \<times> 'e pipe_pc) option" where
  "await_resume_step (Resume c) p =
     (case elements p of [] \<Rightarrow> None | e # es \<Rightarrow> Some (p\<lparr>elements := es, received := received p @ [(c, e)]\<rparr>, Idle))"
| "await_resume_step pc p = None"

definition pipe_advance :: "nat \<Rightarrow> 'e pipe_pc \<Rightarrow> 'e pipe_t \<Rightarrow> ('e pipe_t \<times> 'e pipe_pc) option" where
  "pipe_advance t pc p =
     (case pc of
        Idle \<Rightarrow> None
      | Await_Fast _ \<Rightarrow> await_suspend_step t pc p | Await_Lock _ \<Rightarrow> await_suspend_step t pc p | Await_Retry _ \<Rightarrow> await_suspend_step t pc p
      | Await_Push _ \<Rightarrow> await_suspend_step t pc p | Await_Count \<Rightarrow> await_suspend_step t pc p
      | Resume _ \<Rightarrow> await_resume_step pc p
      | _ \<Rightarrow> emplace_step t pc p)"

text \<open>An idle thread awaits, emplaces, or resumes a dispatched coroutine.\<close>

inductive pipe_step :: "'e pipe_t \<times> 'e pipe_pc list \<Rightarrow> 'e pipe_t \<times> 'e pipe_pc list \<Rightarrow> bool" where
  start_await: "t < length pcs \<Longrightarrow> pcs ! t = Idle \<Longrightarrow> pipe_step (p, pcs) (p, pcs[t := Await_Fast c])"
| start_emplace: "t < length pcs \<Longrightarrow> pcs ! t = Idle \<Longrightarrow> pipe_step (p, pcs) (p, pcs[t := Emplace_Element e])"
| start_resume: "t < length pcs \<Longrightarrow> pcs ! t = Idle \<Longrightarrow> dispatched p = cs @ c # ds \<Longrightarrow>
    pipe_step (p, pcs) (p\<lparr>dispatched := cs @ ds\<rparr>, pcs[t := Resume c])"
| run_thread: "t < length pcs \<Longrightarrow> pipe_advance t (pcs ! t) p = Some (p', pc) \<Longrightarrow> pipe_step (p, pcs) (p', pcs[t := pc])"

section \<open>The invariant\<close>

text \<open>A thread that has taken a waiting count, one that has pushed a handle it has not counted, and one that answers for an element.\<close>

fun takes_handle :: "'e pipe_pc \<Rightarrow> nat" where
  "takes_handle Emplace_Pop = 1"
| "takes_handle Emplace_Pop_Held = 1"
| "takes_handle Await_Count = 1"
| "takes_handle pc = 0"

fun has_element :: "'e pipe_pc \<Rightarrow> nat" where
  "has_element Emplace_Fast = 1"
| "has_element Emplace_Pop = 1"
| "has_element Emplace_Lock = 1"
| "has_element Emplace_Retry = 1"
| "has_element Emplace_Pop_Held = 1"
| "has_element Emplace_Count = 1"
| "has_element (Resume c) = 1"
| "has_element pc = 0"

fun holds_lock :: "'e pipe_pc \<Rightarrow> bool" where
  "holds_lock (Await_Retry c) = True"
| "holds_lock (Await_Push c) = True"
| "holds_lock Await_Count = True"
| "holds_lock Emplace_Retry = True"
| "holds_lock Emplace_Pop_Held = True"
| "holds_lock Emplace_Count = True"
| "holds_lock pc = False"

text \<open>What the holder of the lock has seen.\<close>

fun pc_ok :: "'e pipe_t \<Rightarrow> 'e pipe_pc \<Rightarrow> bool" where
  "pc_ok p (Await_Push c) \<longleftrightarrow> prepared_count p = 0"
| "pc_ok p Await_Count \<longleftrightarrow> prepared_count p = 0"
| "pc_ok p Emplace_Count \<longleftrightarrow> waiting_count p = 0"
| "pc_ok p pc \<longleftrightarrow> True"

text \<open>The pipe with the sums over all threads.\<close>

definition counts_ok :: "'e pipe_t \<Rightarrow> nat \<Rightarrow> nat \<Rightarrow> bool" where
  "counts_ok p taking having \<longleftrightarrow> length (handles p) = waiting_count p + taking \<and>
     length (elements p) = prepared_count p + length (dispatched p) + having \<and>
     (prepared_count p = 0 \<or> waiting_count p = 0) \<and> emplaced p = map snd (received p) @ elements p"

fun pipe_inv :: "'e pipe_t \<times> 'e pipe_pc list \<Rightarrow> bool" where
  "pipe_inv (p, pcs) \<longleftrightarrow> counts_ok p (\<Sum>pc \<leftarrow> pcs. takes_handle pc) (\<Sum>pc \<leftarrow> pcs. has_element pc) \<and>
     list_all (pc_ok p) pcs \<and> (\<forall>t < length pcs. holds_lock (pcs ! t) \<longleftrightarrow> handle_lock p = Some t)"

text \<open>
  A step of one thread: the counts stay right for any count of the other threads, the lock moves only between it and nobody, and when another
  thread holds the lock the counters only fall.
\<close>

lemma pipe_advance_ok:
  assumes "counts_ok p (takes_handle pc + A) (has_element pc + B)" "pc_ok p pc" "holds_lock pc \<longleftrightarrow> handle_lock p = Some t" "pc \<noteq> Idle"
  shows "\<exists>p' pc'. pipe_advance t pc p = Some (p', pc') \<and> counts_ok p' (takes_handle pc' + A) (has_element pc' + B) \<and> pc_ok p' pc' \<and>
    (holds_lock pc' \<longleftrightarrow> handle_lock p' = Some t) \<and>
    (handle_lock p' = handle_lock p \<or> (handle_lock p = None \<or> handle_lock p = Some t) \<and> (handle_lock p' = None \<or> handle_lock p' = Some t)) \<and>
    (\<not> holds_lock pc \<longrightarrow> prepared_count p' \<le> prepared_count p \<and> waiting_count p' \<le> waiting_count p)"
  using assms
  by (cases pc)
    (auto simp: pipe_advance_def counts_ok_def flush_prepared_def flush_waiting_def pipe_dispatch_def pop_handle_def split: list.splits)

lemma pc_ok_falls: "pc_ok p pc \<Longrightarrow> prepared_count p' \<le> prepared_count p \<Longrightarrow> waiting_count p' \<le> waiting_count p \<Longrightarrow> pc_ok p' pc"
  by (cases pc) auto

lemma pc_ok_free: "\<not> holds_lock pc \<Longrightarrow> pc_ok p pc"
  by (cases pc) auto

text \<open>One thread and the others.\<close>

lemma pipe_inv_split:
  assumes "t < length pcs"
  shows "pipe_inv (p, pcs[t := pc]) \<longleftrightarrow>
    counts_ok p (takes_handle pc + (\<Sum>x \<leftarrow> others t pcs. takes_handle x)) (has_element pc + (\<Sum>x \<leftarrow> others t pcs. has_element x)) \<and>
    pc_ok p pc \<and> (holds_lock pc \<longleftrightarrow> handle_lock p = Some t) \<and>
    (\<forall>u < length pcs. u \<noteq> t \<longrightarrow> pc_ok p (pcs ! u) \<and> (holds_lock (pcs ! u) \<longleftrightarrow> handle_lock p = Some u))"
proof -
  have "(\<forall>u < length (pcs[t := pc]). holds_lock (pcs[t := pc] ! u) \<longleftrightarrow> handle_lock p = Some u) \<longleftrightarrow>
      (holds_lock pc \<longleftrightarrow> handle_lock p = Some t) \<and> (\<forall>u < length pcs. u \<noteq> t \<longrightarrow> (holds_lock (pcs ! u) \<longleftrightarrow> handle_lock p = Some u))"
    using assms by (auto simp: nth_list_update)
  then show ?thesis unfolding pipe_inv.simps sum_others_update [OF assms] list_all_others [OF assms] list_all_others_iff [OF assms] by blast
qed

lemma run_thread_inv:
  assumes inv: "pipe_inv (p, pcs)" and t: "t < length pcs" and idle: "pcs ! t \<noteq> Idle"
  shows "\<exists>p' pc. pipe_advance t (pcs ! t) p = Some (p', pc) \<and> pipe_inv (p', pcs[t := pc])"
proof -
  have c: "counts_ok p (takes_handle (pcs ! t) + (\<Sum>x \<leftarrow> others t pcs. takes_handle x)) (has_element (pcs ! t) + (\<Sum>x \<leftarrow> others t pcs. has_element x))"
    and ok: "pc_ok p (pcs ! t)" "holds_lock (pcs ! t) \<longleftrightarrow> handle_lock p = Some t"
    and rest: "\<forall>u < length pcs. u \<noteq> t \<longrightarrow> pc_ok p (pcs ! u) \<and> (holds_lock (pcs ! u) \<longleftrightarrow> handle_lock p = Some u)"
    using inv pipe_inv_split [OF t, of p "pcs ! t"] unfolding list_update_id by blast+
  from pipe_advance_ok [OF c ok idle] obtain p' pc where
    step: "pipe_advance t (pcs ! t) p = Some (p', pc)" and
    c': "counts_ok p' (takes_handle pc + (\<Sum>x \<leftarrow> others t pcs. takes_handle x)) (has_element pc + (\<Sum>x \<leftarrow> others t pcs. has_element x))" and
    p': "pc_ok p' pc" "holds_lock pc \<longleftrightarrow> handle_lock p' = Some t"
      "handle_lock p' = handle_lock p \<or> (handle_lock p = None \<or> handle_lock p = Some t) \<and> (handle_lock p' = None \<or> handle_lock p' = Some t)"
      "\<not> holds_lock (pcs ! t) \<longrightarrow> prepared_count p' \<le> prepared_count p \<and> waiting_count p' \<le> waiting_count p" by blast
  have "pc_ok p' (pcs ! u)" if u: "u < length pcs" "u \<noteq> t" for u
  proof (cases "holds_lock (pcs ! u)")
    case True
    then have "\<not> holds_lock (pcs ! t)" using rest ok(2) u by auto
    then show ?thesis using p'(4) rest u pc_ok_falls by blast
  qed (rule pc_ok_free)
  moreover have "holds_lock (pcs ! u) \<longleftrightarrow> handle_lock p' = Some u" if "u < length pcs" "u \<noteq> t" for u
    using rest p'(3) that by auto
  ultimately have "pipe_inv (p', pcs[t := pc])" unfolding pipe_inv_split [OF t] using c' p'(1,2) by blast
  with step show ?thesis by blast
qed

lemma start_inv:
  assumes inv: "pipe_inv (p, pcs)" and t: "t < length pcs" "pcs ! t = Idle"
    and p': "handle_lock p' = handle_lock p" "prepared_count p' = prepared_count p" "waiting_count p' = waiting_count p"
      "\<And>A B. counts_ok p A B \<Longrightarrow> counts_ok p' (takes_handle pc + A) (has_element pc + B)"
    and pc: "\<not> holds_lock pc" "pc_ok p' pc"
  shows "pipe_inv (p', pcs[t := pc])"
proof -
  have "pipe_inv (p, pcs[t := Idle])" using inv t(2) by (metis list_update_id)
  then have old: "counts_ok p (\<Sum>x \<leftarrow> others t pcs. takes_handle x) (\<Sum>x \<leftarrow> others t pcs. has_element x)" "handle_lock p \<noteq> Some t"
    "\<forall>u < length pcs. u \<noteq> t \<longrightarrow> pc_ok p (pcs ! u) \<and> (holds_lock (pcs ! u) \<longleftrightarrow> handle_lock p = Some u)"
    unfolding pipe_inv_split [OF t(1)] by simp_all
  have "pc_ok p' (pcs ! u)" if "u < length pcs" "u \<noteq> t" for u using old(3) that pc_ok_falls p'(2,3) by (metis order_refl)
  then show ?thesis unfolding pipe_inv_split [OF t(1)] using old p'(1,4) pc by simp
qed

lemma pipe_step_inv:
  assumes inv: "pipe_inv s" and step: "pipe_step s s'"
  shows "pipe_inv s'"
  using step
proof cases
  case (start_await t pcs p c)
  show ?thesis unfolding start_await(2) by (rule start_inv [of p]) (use inv start_await in \<open>simp_all del: pipe_inv.simps\<close>)
next
  case (start_emplace t pcs p e)
  show ?thesis unfolding start_emplace(2) by (rule start_inv [of p]) (use inv start_emplace in \<open>simp_all del: pipe_inv.simps\<close>)
next
  case (start_resume t pcs p cs c ds)
  show ?thesis unfolding start_resume(2)
    by (rule start_inv [of p]) (use inv start_resume in \<open>simp_all add: counts_ok_def del: pipe_inv.simps\<close>)
next
  case (run_thread t pcs p p' pc)
  have "pcs ! t \<noteq> Idle" using run_thread(4) by (auto simp: pipe_advance_def)
  with run_thread_inv [of p pcs t] inv run_thread show ?thesis by (auto simp del: pipe_inv.simps)
qed

interpretation pipe: step_invariant pipe_step pipe_inv
  by unfold_locales (rule pipe_step_inv)

lemma pipe_make_inv: "pipe_inv (pipe_make, replicate n Idle)"
proof -
  have "(\<Sum>pc \<leftarrow> replicate n Idle. f pc) = 0" if "f Idle = (0 :: nat)" for f :: "'a pipe_pc \<Rightarrow> nat" using that by (induction n) auto
  then show ?thesis by (simp add: pipe_make_def counts_ok_def list_all_iff)
qed

section \<open>Properties\<close>

text \<open>
  C19. A pipe with any number of producers and consumers, each step an access to shared state: no step takes the front of an empty queue, elements are received
  in the order of their emplacing, each once, and no wake-up is lost: when no thread is inside and no dispatched coroutine has still to resume, either no element
  or no coroutine waits.
\<close>

theorem pipe_delivers:
  assumes "pipe_step\<^sup>*\<^sup>* (pipe_make, replicate n Idle) (p, pcs)"
  shows "(\<forall>t < length pcs. pcs ! t \<noteq> Idle \<longrightarrow> pipe_advance t (pcs ! t) p \<noteq> None) \<and>
    emplaced p = map snd (received p) @ elements p \<and>
    (list_all (\<lambda>pc. pc = Idle) pcs \<and> dispatched p = [] \<longrightarrow> elements p = [] \<or> handles p = [])"
proof (intro conjI allI impI)
  have inv: "pipe_inv (p, pcs)" by (rule pipe.reachable_inv [OF assms pipe_make_inv])
  show "pipe_advance t (pcs ! t) p \<noteq> None" if "t < length pcs" "pcs ! t \<noteq> Idle" for t using run_thread_inv [OF inv that] by auto
  show "emplaced p = map snd (received p) @ elements p" using inv by (simp add: counts_ok_def)
  assume idle: "list_all (\<lambda>pc. pc = Idle) pcs \<and> dispatched p = []"
  then have sum: "(\<Sum>pc \<leftarrow> pcs. f pc) = 0" if "f Idle = (0 :: nat)" for f using that by (induction pcs) auto
  have "length (handles p) = waiting_count p" "length (elements p) = prepared_count p" "prepared_count p = 0 \<or> waiting_count p = 0"
    using inv idle by (simp_all add: counts_ok_def sum del: sum_list_eq_0_iff)
  then show "elements p = [] \<or> handles p = []" by auto
qed

text \<open>The steps as moves that compute.\<close>

datatype 'e pipe_move = Do_Await nat coroutine | Do_Emplace nat 'e | Do_Resume nat | Do_Run nat

fun pipe_run_move :: "'e pipe_t \<times> 'e pipe_pc list \<Rightarrow> 'e pipe_move \<Rightarrow> ('e pipe_t \<times> 'e pipe_pc list) option" where
  "pipe_run_move (p, pcs) (Do_Await t c) = (if t < length pcs \<and> pcs ! t = Idle then Some (p, pcs[t := Await_Fast c]) else None)"
| "pipe_run_move (p, pcs) (Do_Emplace t e) = (if t < length pcs \<and> pcs ! t = Idle then Some (p, pcs[t := Emplace_Element e]) else None)"
| "pipe_run_move (p, pcs) (Do_Resume t) =
     (if t < length pcs \<and> pcs ! t = Idle then
        case dispatched p of [] \<Rightarrow> None | c # ds \<Rightarrow> Some (p\<lparr>dispatched := ds\<rparr>, pcs[t := Resume c])
      else None)"
| "pipe_run_move (p, pcs) (Do_Run t) =
     (if t < length pcs then map_option (\<lambda>(p, pc). (p, pcs[t := pc])) (pipe_advance t (pcs ! t) p) else None)"

lemma pipe_move_step: "pipe_run_move s m = Some s' \<Longrightarrow> pipe_step s s'"
proof (cases "(s, m)" rule: pipe_run_move.cases)
  case (3 p pcs t)
  assume "pipe_run_move s m = Some s'"
  with 3 obtain c ds where "t < length pcs" "pcs ! t = Idle" "dispatched p = [] @ c # ds" "s' = (p\<lparr>dispatched := [] @ ds\<rparr>, pcs[t := Resume c])"
    by (auto split: if_splits list.splits)
  with 3 show "pipe_step s s'" using pipe_step.start_resume [of t pcs p "[]" c ds] by simp
qed (auto intro: pipe_step.intros split: if_splits)

interpretation pipe_moves: executable_moves pipe_run_move pipe_step
  by unfold_locales (rule pipe_move_step)

text \<open>Coroutine 1 waits first, coroutine 2 comes between the lock-free attempt and the lock of the producer; both elements arrive in order.\<close>

theorem pipe_delivers_witness: "\<exists>p :: nat pipe_t. emplaced p = [5, 6] \<and> map snd (received p) = [5, 6] \<and> elements p = [] \<and> handles p = []"
proof -
  let ?ms = "[Do_Await 0 1, Do_Run 0, Do_Run 0, Do_Run 0, Do_Run 0, Do_Run 0, Do_Emplace 1 5, Do_Run 1, Do_Run 1, Do_Run 1,
    Do_Emplace 1 6, Do_Run 1, Do_Run 1, Do_Await 0 2, Do_Run 0, Do_Run 0, Do_Run 0, Do_Run 0, Do_Run 0, Do_Run 1, Do_Run 1, Do_Run 1,
    Do_Resume 0, Do_Run 0, Do_Resume 1, Do_Run 1] :: nat pipe_move list"
  have "map_option (\<lambda>(p, pcs). (pcs, emplaced p, received p, dispatched p, handles p)) (run_requests pipe_run_move (pipe_make, replicate 2 Idle) ?ms) =
      Some ([Idle, Idle], [5, 6], [(1, 5), (2, 6)], [], [])" by code_simp
  then obtain p where p: "run_requests pipe_run_move (pipe_make, replicate 2 Idle) ?ms = Some (p, [Idle, Idle])"
    "emplaced p = [5, 6]" "received p = [(1, 5), (2, 6)]" "dispatched p = []" "handles p = []" by auto
  from pipe_delivers [OF pipe_moves.moves_reach [OF p(1)]] have "emplaced p = map snd (received p) @ elements p" by simp
  then show ?thesis using p by auto
qed

end
