(* ===== verification/Sync_Barrier.thy ===== *)
theory Sync_Barrier
  imports Prelude "HOL-Library.Multiset"
begin

text \<open>
  The barrier \<open>iris_barrier_t\<close> of \<open>iris_coroutine.h\<close>: the coroutines that reach it are suspended until as many have come as it waits for. Any number of
  threads run coroutines to the barrier, each at a program point; a step is one access to a shared counter or to one entry of
  \<open>handles\<close> and \<open>snapshot\<close>. An index out of their range is undefined: \<^const>\<open>None\<close>. \<open>running\<close> are the participants that are not suspended; \<open>dispatch\<close>
  puts a coroutine back among them. Two parameters of the step relation say what the clients do: with \<open>releases\<close> they call \<open>release\<close>, which
  takes participants out for good, and with \<open>prompt\<close> no coroutine comes to the barrier while a thread has dispatched its whole round but not
  left \<open>complete\<close>. Left out are the value and the callback.
\<close>

section \<open>State and steps\<close>

type_synonym coroutine = nat

record barrier_t =
  max_await_count :: nat
  slot_count :: nat
  commit_count :: nat
  release_await_count :: nat
  handles :: "coroutine option list"
  snapshot :: "coroutine list"
  running :: "coroutine multiset"

definition barrier_make :: "coroutine list \<Rightarrow> barrier_t" where
  "barrier_make cs = \<lparr>max_await_count = length cs, slot_count = 0, commit_count = 0, release_await_count = 0,
     handles = replicate (length cs) None, snapshot = [], running = mset cs\<rparr>"

datatype barrier_pc =
    Away
  | Arrive_Slot coroutine | Arrive_Write coroutine nat | Arrive_Commit | Arrive_Test nat
  | Release_Count nat | Release_Commit nat
  | Complete_Exchange | Complete_Slot | Complete_Load | Complete_Release nat | Complete_Store nat nat
  | Complete_Clear nat | Complete_Collect nat nat | Complete_Range | Complete_Dispatch nat nat | Complete_Finish

text \<open>\<open>await_suspend\<close>: take an index, publish the handle, commit, and test whether this was the last.\<close>

fun barrier_await_step :: "barrier_pc \<Rightarrow> barrier_t \<Rightarrow> (barrier_t \<times> barrier_pc) option" where
  "barrier_await_step (Arrive_Slot c) b = Some (b\<lparr>slot_count := slot_count b + 1\<rparr>, Arrive_Write c (slot_count b))"
| "barrier_await_step (Arrive_Write c index) b =
     (if index < length (handles b) then Some (b\<lparr>handles := (handles b)[index := Some c]\<rparr>, Arrive_Commit) else None)"
| "barrier_await_step Arrive_Commit b = Some (b\<lparr>commit_count := commit_count b + 1\<rparr>, Arrive_Test (commit_count b + 1))"
| "barrier_await_step (Arrive_Test n) b = Some (b, if n = max_await_count b then Complete_Exchange else Away)"
| "barrier_await_step pc b = None"

text \<open>\<open>release\<close>, up to the same test.\<close>

fun barrier_release_step :: "barrier_pc \<Rightarrow> barrier_t \<Rightarrow> (barrier_t \<times> barrier_pc) option" where
  "barrier_release_step (Release_Count n) b = Some (b\<lparr>release_await_count := release_await_count b + n\<rparr>, Release_Commit n)"
| "barrier_release_step (Release_Commit n) b = Some (b\<lparr>commit_count := commit_count b + n\<rparr>, Arrive_Test (commit_count b + n))"
| "barrier_release_step pc b = None"

text \<open>\<open>complete\<close>: reset the counts, shrink, take a snapshot of the handles, and dispatch it; the loop over it has fixed its end at the beginning.\<close>

fun barrier_complete_step :: "barrier_pc \<Rightarrow> barrier_t \<Rightarrow> (barrier_t \<times> barrier_pc) option" where
  "barrier_complete_step Complete_Exchange b = Some (b\<lparr>commit_count := 0\<rparr>, Complete_Slot)"
| "barrier_complete_step Complete_Slot b = Some (b\<lparr>slot_count := 0\<rparr>, Complete_Load)"
| "barrier_complete_step Complete_Load b = Some (b, Complete_Release (max_await_count b))"
| "barrier_complete_step (Complete_Release m) b = Some (b\<lparr>release_await_count := 0\<rparr>, Complete_Store m (release_await_count b))"
| "barrier_complete_step (Complete_Store m r) b = Some (b\<lparr>max_await_count := m - r\<rparr>, Complete_Clear m)"
| "barrier_complete_step (Complete_Clear m) b = Some (b\<lparr>snapshot := []\<rparr>, Complete_Collect m 0)"
| "barrier_complete_step (Complete_Collect m i) b =
     (if i < m then
        if i < length (handles b) then
          Some (b\<lparr>snapshot := (case handles b ! i of None \<Rightarrow> snapshot b | Some c \<Rightarrow> snapshot b @ [c]), handles := (handles b)[i := None]\<rparr>,
            Complete_Collect m (i + 1))
        else None
      else Some (b, Complete_Range))"
| "barrier_complete_step Complete_Range b = Some (b, Complete_Dispatch 0 (length (snapshot b)))"
| "barrier_complete_step (Complete_Dispatch i n) b =
     (if i < n then
        if i < length (snapshot b) then Some (b\<lparr>running := running b + {#snapshot b ! i#}\<rparr>, Complete_Dispatch (i + 1) n) else None
      else Some (b, Complete_Finish))"
| "barrier_complete_step Complete_Finish b = Some (b\<lparr>snapshot := []\<rparr>, Away)"
| "barrier_complete_step pc b = None"

definition barrier_advance :: "barrier_pc \<Rightarrow> barrier_t \<Rightarrow> (barrier_t \<times> barrier_pc) option" where
  "barrier_advance pc b =
     (case pc of
        Away \<Rightarrow> None
      | Arrive_Slot _ \<Rightarrow> barrier_await_step pc b | Arrive_Write _ _ \<Rightarrow> barrier_await_step pc b
      | Arrive_Commit \<Rightarrow> barrier_await_step pc b | Arrive_Test _ \<Rightarrow> barrier_await_step pc b
      | Release_Count _ \<Rightarrow> barrier_release_step pc b | Release_Commit _ \<Rightarrow> barrier_release_step pc b
      | _ \<Rightarrow> barrier_complete_step pc b)"

text \<open>A thread that has dispatched its whole round and still has to clear the snapshot.\<close>

fun leaving :: "barrier_pc \<Rightarrow> bool" where
  "leaving (Complete_Dispatch i n) \<longleftrightarrow> n \<le> i"
| "leaving Complete_Finish \<longleftrightarrow> True"
| "leaving pc \<longleftrightarrow> False"

inductive barrier_step :: "bool \<Rightarrow> bool \<Rightarrow> barrier_t \<times> barrier_pc list \<Rightarrow> barrier_t \<times> barrier_pc list \<Rightarrow> bool" for prompt releases where
  arrive: "t < length pcs \<Longrightarrow> pcs ! t = Away \<Longrightarrow> c \<in># running b \<Longrightarrow> prompt \<longrightarrow> list_all (\<lambda>pc. \<not> leaving pc) pcs \<Longrightarrow>
    barrier_step prompt releases (b, pcs) (b\<lparr>running := running b - {#c#}\<rparr>, pcs[t := Arrive_Slot c])"
| release: "t < length pcs \<Longrightarrow> pcs ! t = Away \<Longrightarrow> cs \<subseteq># running b \<Longrightarrow> releases \<Longrightarrow>
    barrier_step prompt releases (b, pcs) (b\<lparr>running := running b - cs\<rparr>, pcs[t := Release_Count (size cs)])"
| run_thread: "t < length pcs \<Longrightarrow> barrier_advance (pcs ! t) b = Some (b', pc) \<Longrightarrow> barrier_step prompt releases (b, pcs) (b', pcs[t := pc])"

section \<open>What the threads carry\<close>

text \<open>The coroutine a thread brings, the index it writes to, and the coroutines it has taken out of \<open>handles\<close>.\<close>

fun brings :: "barrier_pc \<Rightarrow> coroutine multiset" where
  "brings (Arrive_Slot c) = {#c#}"
| "brings (Arrive_Write c i) = {#c#}"
| "brings pc = {#}"

fun writes_to :: "barrier_pc \<Rightarrow> nat multiset" where
  "writes_to (Arrive_Write c i) = {#i#}"
| "writes_to pc = {#}"

fun has_taken :: "coroutine list \<Rightarrow> barrier_pc \<Rightarrow> coroutine multiset" where
  "has_taken cs (Complete_Collect m i) = mset cs"
| "has_taken cs Complete_Range = mset cs"
| "has_taken cs (Complete_Dispatch i n) = (if i < n then mset (drop i cs) else {#})"
| "has_taken cs pc = {#}"

fun completing :: "nat \<Rightarrow> barrier_pc \<Rightarrow> bool" where
  "completing n (Arrive_Test k) \<longleftrightarrow> k = n"
| "completing n Away \<longleftrightarrow> False"
| "completing n (Arrive_Slot c) \<longleftrightarrow> False"
| "completing n (Arrive_Write c i) \<longleftrightarrow> False"
| "completing n Arrive_Commit \<longleftrightarrow> False"
| "completing n (Release_Count k) \<longleftrightarrow> False"
| "completing n (Release_Commit k) \<longleftrightarrow> False"
| "completing n (Complete_Dispatch i k) \<longleftrightarrow> False"
| "completing n Complete_Finish \<longleftrightarrow> False"
| "completing n pc \<longleftrightarrow> True"

fun no_release :: "barrier_pc \<Rightarrow> bool" where
  "no_release (Release_Count n) \<longleftrightarrow> False"
| "no_release (Release_Commit n) \<longleftrightarrow> False"
| "no_release pc \<longleftrightarrow> True"

text \<open>
  Counts of a thread: it has published and not committed, it completes a round, it leaves, the coroutines it has still to dispatch, and
  whether the round is its own.
\<close>

datatype role = Committing | Completing | Leaving | Dispatching | Owning

fun pending :: "barrier_pc \<Rightarrow> nat" where
  "pending (Complete_Dispatch i n) = n - i"
| "pending pc = 0"

fun tally :: "nat \<Rightarrow> role \<Rightarrow> barrier_pc \<Rightarrow> nat" where
  "tally n Committing pc = of_bool (pc = Arrive_Commit)"
| "tally n Completing pc = of_bool (completing n pc)"
| "tally n Leaving pc = of_bool (leaving pc)"
| "tally n Dispatching pc = pending pc"
| "tally n Owning pc = of_bool (completing n pc \<or> 0 < pending pc)"

definition suspended :: "barrier_t \<Rightarrow> coroutine multiset" where
  "suspended b = mset (List.map_filter id (handles b))"

definition filled :: "barrier_t \<Rightarrow> nat multiset" where
  "filled b = filter_mset (\<lambda>i. handles b ! i \<noteq> None) (mset [0..<length (handles b)])"

lemma count_upto: "count (mset [0..<n]) i = of_bool (i < n)"
  by (induction n) auto

section \<open>The invariant\<close>

definition barrier_base :: "nat \<Rightarrow> barrier_t \<Rightarrow> bool" where
  "barrier_base n b \<longleftrightarrow> max_await_count b = n \<and> release_await_count b = 0 \<and> length (handles b) = n"

text \<open>While coroutines arrive: as many have committed as are suspended, and the indices given out are those written and those still to be written.\<close>

definition gathering :: "nat \<Rightarrow> barrier_t \<Rightarrow> nat multiset \<Rightarrow> nat \<Rightarrow> bool" where
  "gathering n b X K \<longleftrightarrow> commit_count b + K = size (suspended b) \<and> (0 < n \<longrightarrow> commit_count b < n) \<and> X + filled b = mset [0..<slot_count b]"

text \<open>What a thread that owns a round knows.\<close>

fun pc_ok :: "bool \<Rightarrow> nat \<Rightarrow> barrier_t \<Rightarrow> barrier_pc \<Rightarrow> bool" where
  "pc_ok prompt n b (Arrive_Test k) \<longleftrightarrow> (k = n \<longrightarrow> 1 \<le> n \<and> size (suspended b) = n)"
| "pc_ok prompt n b Complete_Exchange \<longleftrightarrow> 1 \<le> n \<and> size (suspended b) = n"
| "pc_ok prompt n b Complete_Slot \<longleftrightarrow> 1 \<le> n \<and> size (suspended b) = n \<and> commit_count b = 0"
| "pc_ok prompt n b Complete_Load \<longleftrightarrow> 1 \<le> n \<and> size (suspended b) = n \<and> commit_count b = 0 \<and> slot_count b = 0"
| "pc_ok prompt n b (Complete_Release m) \<longleftrightarrow> 1 \<le> n \<and> size (suspended b) = n \<and> commit_count b = 0 \<and> slot_count b = 0 \<and> m = n"
| "pc_ok prompt n b (Complete_Store m r) \<longleftrightarrow> 1 \<le> n \<and> size (suspended b) = n \<and> commit_count b = 0 \<and> slot_count b = 0 \<and> m = n \<and> r = 0"
| "pc_ok prompt n b (Complete_Clear m) \<longleftrightarrow> 1 \<le> n \<and> size (suspended b) = n \<and> commit_count b = 0 \<and> slot_count b = 0 \<and> m = n"
| "pc_ok prompt n b (Complete_Collect m i) \<longleftrightarrow> 1 \<le> n \<and> commit_count b = 0 \<and> slot_count b = 0 \<and> m = n \<and> i \<le> n \<and> (\<forall>k < i. handles b ! k = None)"
| "pc_ok prompt n b Complete_Range \<longleftrightarrow> 1 \<le> n \<and> commit_count b = 0 \<and> slot_count b = 0 \<and> (\<forall>k < n. handles b ! k = None)"
| "pc_ok prompt n b (Complete_Dispatch i m) \<longleftrightarrow> (i < m \<longrightarrow> prompt \<longrightarrow> m = length (snapshot b))"
| "pc_ok prompt n b pc \<longleftrightarrow> no_release pc"

definition present :: "barrier_t \<Rightarrow> coroutine multiset \<Rightarrow> coroutine multiset" where
  "present b C = running b + C + suspended b"

text \<open>
  The barrier with what all threads bring, write and have taken, and their counts. With prompt threads nothing is lost; otherwise a thread that leaves
  can clear the snapshot of the next round.
\<close>

definition barrier_ok :: "bool \<Rightarrow> coroutine list \<Rightarrow> barrier_t \<Rightarrow> coroutine multiset \<Rightarrow> nat multiset \<Rightarrow> coroutine multiset \<Rightarrow> (role \<Rightarrow> nat) \<Rightarrow> bool" where
  "barrier_ok prompt init b C X P N \<longleftrightarrow> barrier_base (length init) b \<and>
     present b C + P \<subseteq># mset init \<and> (prompt \<longrightarrow> present b C + P = mset init) \<and> size (present b C) + N Dispatching \<le> length init \<and>
     N Owning \<le> 1 \<and> (prompt \<longrightarrow> N Owning + N Leaving \<le> 1) \<and> (prompt \<and> 0 < N Leaving \<longrightarrow> running b \<noteq> {#}) \<and>
     (if N Completing = 0 then gathering (length init) b X (N Committing) else running b = {#} \<and> C = {#} \<and> X = {#} \<and> N Committing = 0)"

fun barrier_inv :: "bool \<Rightarrow> coroutine list \<Rightarrow> barrier_t \<times> barrier_pc list \<Rightarrow> bool" where
  "barrier_inv prompt init (b, pcs) \<longleftrightarrow>
     barrier_ok prompt init b (\<Sum>pc \<leftarrow> pcs. brings pc) (\<Sum>pc \<leftarrow> pcs. writes_to pc) (\<Sum>pc \<leftarrow> pcs. has_taken (snapshot b) pc)
       (\<lambda>k. \<Sum>pc \<leftarrow> pcs. tally (length init) k pc) \<and> list_all (pc_ok prompt (length init) b) pcs"

subsection \<open>The handles\<close>

lemma suspended_put:
  "i < length (handles b) \<Longrightarrow> handles b ! i = None \<Longrightarrow> suspended (b\<lparr>handles := (handles b)[i := Some c]\<rparr>) = suspended b + {#c#}"
proof -
  have "i < length hs \<Longrightarrow> hs ! i = None \<Longrightarrow> mset (List.map_filter id (hs[i := Some c])) = mset (List.map_filter id hs) + {#c#}" for hs
  proof (induction hs arbitrary: i)
    case (Cons h hs)
    then show ?case by (cases i; cases h) (auto simp: map_filter_simps)
  qed simp
  then show "i < length (handles b) \<Longrightarrow> handles b ! i = None \<Longrightarrow> ?thesis" by (simp add: suspended_def)
qed

lemma suspended_take:
  "i < length (handles b) \<Longrightarrow>
   suspended b = suspended (b\<lparr>handles := (handles b)[i := None]\<rparr>) + (case handles b ! i of None \<Rightarrow> {#} | Some c \<Rightarrow> {#c#})"
proof -
  have "i < length hs \<Longrightarrow>
      mset (List.map_filter id hs) = mset (List.map_filter id (hs[i := None])) + (case hs ! i of None \<Rightarrow> {#} | Some c \<Rightarrow> {#c#})" for hs
    by (induction hs arbitrary: i) (auto simp: map_filter_simps split: nat.splits option.splits)
  then show "i < length (handles b) \<Longrightarrow> ?thesis" by (simp add: suspended_def)
qed

lemma suspended_cong: "handles b' = handles b \<Longrightarrow> suspended b' = suspended b"
  by (simp add: suspended_def)

lemma filled_cong: "handles b' = handles b \<Longrightarrow> filled b' = filled b"
  by (simp add: filled_def)

lemma size_filled: "size (filled b) = size (suspended b)"
proof -
  have "length (filter (\<lambda>i. hs ! i \<noteq> None) [0..<length hs]) = length (filter (\<lambda>h. h \<noteq> None) hs)" for hs :: "coroutine option list"
  proof -
    have "length (filter (\<lambda>h. h \<noteq> None) (map (\<lambda>i. hs ! i) [0..<length hs])) = length (filter (\<lambda>i. hs ! i \<noteq> None) [0..<length hs])"
      by (simp add: filter_map comp_def)
    then show ?thesis by (simp add: map_nth)
  qed
  from this [of "handles b"] show ?thesis
    by (simp only: filled_def suspended_def map_filter_def mset_filter [symmetric] size_mset length_map id_apply)
qed

lemma count_filled: "count (filled b) i = of_bool (i < length (handles b) \<and> handles b ! i \<noteq> None)"
  by (simp add: filled_def count_upto)

lemma filled_put:
  "i < length (handles b) \<Longrightarrow> handles b ! i = None \<Longrightarrow> filled (b\<lparr>handles := (handles b)[i := Some c]\<rparr>) = filled b + {#i#}"
  by (rule multiset_eqI) (auto simp: count_filled nth_list_update)

lemma suspended_none: "\<forall>k < length (handles b). handles b ! k = None \<Longrightarrow> suspended b = {#} \<and> filled b = {#}"
proof
  assume none: "\<forall>k < length (handles b). handles b ! k = None"
  show "filled b = {#}" by (rule multiset_eqI) (use none in \<open>auto simp: count_filled\<close>)
  then show "suspended b = {#}" using size_filled [of b] by simp
qed

subsection \<open>One step of a thread\<close>

text \<open>What the step of a thread must give, for whatever the others bring, write and have taken.\<close>

definition step_good :: "bool \<Rightarrow> coroutine list \<Rightarrow> barrier_pc \<Rightarrow> barrier_t \<Rightarrow> coroutine multiset \<Rightarrow> nat multiset \<Rightarrow> coroutine multiset \<Rightarrow> (role \<Rightarrow> nat) \<Rightarrow>
    barrier_t \<Rightarrow> barrier_pc \<Rightarrow> bool" where
  "step_good prompt init pc b C X P N b' pc' \<longleftrightarrow>
     barrier_ok prompt init b' (brings pc' + C) (writes_to pc' + X) (has_taken (snapshot b') pc' + P) (\<lambda>k. tally (length init) k pc' + N k) \<and>
     pc_ok prompt (length init) b' pc'"

definition thread_ok :: "bool \<Rightarrow> coroutine list \<Rightarrow> barrier_pc \<Rightarrow> barrier_t \<Rightarrow> coroutine multiset \<Rightarrow> nat multiset \<Rightarrow> coroutine multiset \<Rightarrow> (role \<Rightarrow> nat) \<Rightarrow> bool" where
  "thread_ok prompt init pc b C X P N \<longleftrightarrow>
     barrier_ok prompt init b (brings pc + C) (writes_to pc + X) (has_taken (snapshot b) pc + P) (\<lambda>k. tally (length init) k pc + N k) \<and>
     pc_ok prompt (length init) b pc \<and> N Completing \<le> N Owning \<and> N Owning \<le> N Completing + N Dispatching \<and> (N Owning = 0 \<longrightarrow> P = {#} \<and> N Dispatching = 0) \<and> size X \<le> size C"

lemmas barrier_defs = barrier_ok_def barrier_base_def present_def gathering_def thread_ok_def step_good_def barrier_advance_def

lemma arrive_slot_good:
  assumes "thread_ok prompt init (Arrive_Slot c) b C X P N"
  shows "step_good prompt init (Arrive_Slot c) b C X P N (b\<lparr>slot_count := slot_count b + 1\<rparr>) (Arrive_Write c (slot_count b))"
  using assms by (auto simp: barrier_defs suspended_def filled_def ac_simps split: if_splits)

lemma arrive_write_good:
  assumes "thread_ok prompt init (Arrive_Write c i) b C X P N"
  shows "i < length (handles b)" "step_good prompt init (Arrive_Write c i) b C X P N (b\<lparr>handles := (handles b)[i := Some c]\<rparr>) Arrive_Commit"
proof -
  have g: "N Completing = 0" "{#i#} + X + filled b = mset [0..<slot_count b]" using assms by (auto simp: barrier_defs split: if_splits)
  have "count ({#i#} + X + filled b) i = of_bool (i < slot_count b)" unfolding g(2) count_upto ..
  then have none: "i < slot_count b" "i < length (handles b) \<longrightarrow> handles b ! i = None" by (auto simp: count_filled of_bool_def split: if_splits)
  have "size ({#i#} + X + filled b) = slot_count b" unfolding g(2) by simp
  then have "slot_count b \<le> length (handles b)" using assms size_filled [of b] by (auto simp: barrier_defs)
  then show i: "i < length (handles b)" using none by simp
  have n: "handles b ! i = None" using i none by simp
  note put = suspended_put [OF i n, of c] filled_put [OF i n, of c]
  show "step_good prompt init (Arrive_Write c i) b C X P N (b\<lparr>handles := (handles b)[i := Some c]\<rparr>) Arrive_Commit"
    using assms g put none by (auto simp: barrier_defs ac_simps split: if_splits)
qed

lemma arrive_commit_good:
  assumes "thread_ok prompt init Arrive_Commit b C X P N"
  shows "step_good prompt init Arrive_Commit b C X P N (b\<lparr>commit_count := commit_count b + 1\<rparr>) (Arrive_Test (commit_count b + 1))"
proof (cases "commit_count b + 1 = length init")
  case False
  then show ?thesis using assms by (auto simp: barrier_defs suspended_def filled_def split: if_splits)
next
  case True
  have g: "N Completing = 0" "commit_count b + (1 + N Committing) = size (suspended b)" using assms by (auto simp: barrier_defs split: if_splits)
  have le: "size (running b) + size C + size (suspended b) + N Dispatching \<le> length init" using assms by (auto simp: barrier_defs)
  with g(2) True have "size (running b) = 0" "size C = 0" "N Committing = 0" "size (suspended b) = length init" "N Dispatching = 0" by linarith+
  then have z: "N Committing = 0" "size (suspended b) = length init" "running b = {#}" "C = {#}" "N Dispatching = 0" by simp_all
  then have "N Owning = 0" "X = {#}" "P = {#}" using assms g by (auto simp: barrier_defs)
  moreover have "\<not> (prompt \<and> 0 < N Leaving)" using assms z(3) by (auto simp: barrier_defs)
  ultimately show ?thesis using assms z g True by (auto simp: barrier_defs suspended_def filled_def)
qed

lemma arrive_test_good:
  assumes "thread_ok prompt init (Arrive_Test k) b C X P N"
  shows "k = max_await_count b \<Longrightarrow> step_good prompt init (Arrive_Test k) b C X P N b Complete_Exchange"
    "k \<noteq> max_await_count b \<Longrightarrow> step_good prompt init (Arrive_Test k) b C X P N b Away"
  using assms by (auto simp: barrier_defs split: if_splits)

lemma complete_counts_good:
  "thread_ok prompt init Complete_Exchange b C X P N \<Longrightarrow> step_good prompt init Complete_Exchange b C X P N (b\<lparr>commit_count := 0\<rparr>) Complete_Slot"
  "thread_ok prompt init Complete_Slot b C X P N \<Longrightarrow> step_good prompt init Complete_Slot b C X P N (b\<lparr>slot_count := 0\<rparr>) Complete_Load"
  "thread_ok prompt init Complete_Load b C X P N \<Longrightarrow> step_good prompt init Complete_Load b C X P N b (Complete_Release (max_await_count b))"
  "thread_ok prompt init (Complete_Release m) b C X P N \<Longrightarrow>
    step_good prompt init (Complete_Release m) b C X P N (b\<lparr>release_await_count := 0\<rparr>) (Complete_Store m (release_await_count b))"
  "thread_ok prompt init (Complete_Store m r) b C X P N \<Longrightarrow>
    step_good prompt init (Complete_Store m r) b C X P N (b\<lparr>max_await_count := m - r\<rparr>) (Complete_Clear m)"
  by (auto simp: barrier_defs suspended_def)

lemma complete_clear_good:
  assumes "thread_ok prompt init (Complete_Clear m) b C X P N"
  shows "step_good prompt init (Complete_Clear m) b C X P N (b\<lparr>snapshot := []\<rparr>) (Complete_Collect m 0)"
  using assms by (auto simp: barrier_defs suspended_def)

lemma complete_collect_good:
  assumes "thread_ok prompt init (Complete_Collect m i) b C X P N"
  shows "i < m \<Longrightarrow> i < length (handles b)"
    "i < m \<Longrightarrow> step_good prompt init (Complete_Collect m i) b C X P N
      (b\<lparr>snapshot := (case handles b ! i of None \<Rightarrow> snapshot b | Some c \<Rightarrow> snapshot b @ [c]), handles := (handles b)[i := None]\<rparr>) (Complete_Collect m (i + 1))"
    "\<not> i < m \<Longrightarrow> step_good prompt init (Complete_Collect m i) b C X P N b Complete_Range"
proof -
  show i: "i < length (handles b)" if "i < m" using assms that by (auto simp: barrier_defs)
  show "\<not> i < m \<Longrightarrow> step_good prompt init (Complete_Collect m i) b C X P N b Complete_Range" using assms by (auto simp: barrier_defs)
  assume "i < m"
  let ?s = "case handles b ! i of None \<Rightarrow> snapshot b | Some c \<Rightarrow> snapshot b @ [c]" and ?taken = "case handles b ! i of None \<Rightarrow> {#} | Some c \<Rightarrow> {#c#}"
  let ?b = "b\<lparr>snapshot := ?s, handles := (handles b)[i := None]\<rparr>"
  have s: "mset ?s = mset (snapshot b) + ?taken" by (simp split: option.splits)
  have "suspended b = suspended (b\<lparr>handles := (handles b)[i := None]\<rparr>) + ?taken" by (rule suspended_take [OF i [OF \<open>i < m\<close>]])
  then have t: "suspended b = suspended ?b + ?taken" by (simp add: suspended_def)
  have "present ?b (brings (Complete_Collect m (i + 1)) + C) + (has_taken (snapshot ?b) (Complete_Collect m (i + 1)) + P) =
      present b (brings (Complete_Collect m i) + C) + (has_taken (snapshot b) (Complete_Collect m i) + P)"
    by (simp add: present_def t s ac_simps del: mset_append)
  moreover have "size (suspended ?b) \<le> size (suspended b)" unfolding t by simp
  ultimately show "step_good prompt init (Complete_Collect m i) b C X P N ?b (Complete_Collect m (i + 1))"
    using assms \<open>i < m\<close> unfolding thread_ok_def step_good_def barrier_ok_def
    by (simp add: barrier_base_def nth_list_update less_Suc_eq) (auto simp: present_def)
qed

lemma complete_range_good:
  assumes "thread_ok prompt init Complete_Range b C X P N"
  shows "step_good prompt init Complete_Range b C X P N b (Complete_Dispatch 0 (length (snapshot b)))"
proof -
  have n: "suspended b = {#} \<and> filled b = {#}" by (rule suspended_none) (use assms in \<open>auto simp: barrier_defs\<close>)
  have o: "N Owning = 0" "N Dispatching = 0" "N Completing = 0" "P = {#}" using assms by (auto simp: barrier_defs)
  have e: "running b = {#}" "C = {#}" "X = {#}" "N Committing = 0" "1 \<le> length init" "commit_count b = 0" "slot_count b = 0" using assms by (auto simp: barrier_defs)
  have p: "mset (snapshot b) \<subseteq># mset init" "prompt \<longrightarrow> mset (snapshot b) = mset init" using assms n o e by (auto simp: barrier_defs)
  then have "length (snapshot b) \<le> length init" "prompt \<longrightarrow> length (snapshot b) = length init" by (metis size_mset size_mset_mono)+
  then show ?thesis using assms n o e p by (auto simp: barrier_defs)
qed

lemma complete_dispatch_good:
  assumes "thread_ok prompt init (Complete_Dispatch i n) b C X P N"
  shows "i < n \<Longrightarrow> prompt \<Longrightarrow> i < length (snapshot b)"
    "i < n \<Longrightarrow> i < length (snapshot b) \<Longrightarrow>
      step_good prompt init (Complete_Dispatch i n) b C X P N (b\<lparr>running := running b + {#snapshot b ! i#}\<rparr>) (Complete_Dispatch (i + 1) n)"
    "\<not> i < n \<Longrightarrow> step_good prompt init (Complete_Dispatch i n) b C X P N b Complete_Finish"
proof -
  show "i < n \<Longrightarrow> prompt \<Longrightarrow> i < length (snapshot b)" using assms by (auto simp: barrier_defs)
  show "\<not> i < n \<Longrightarrow> step_good prompt init (Complete_Dispatch i n) b C X P N b Complete_Finish" using assms by (auto simp: barrier_defs)
  assume i: "i < n" "i < length (snapshot b)"
  let ?b = "b\<lparr>running := running b + {#snapshot b ! i#}\<rparr>"
  have o: "N Owning = 0" "N Dispatching = 0" "N Completing = 0" "P = {#}" using assms i by (auto simp: barrier_defs)
  have d: "drop i (snapshot b) = snapshot b ! i # drop (Suc i) (snapshot b)" using i(2) by (rule Cons_nth_drop_Suc [symmetric])
  have l: "prompt \<longrightarrow> n = length (snapshot b)" using assms i by (auto simp: thread_ok_def)
  have p: "present b C + mset (drop i (snapshot b)) \<subseteq># mset init" "prompt \<longrightarrow> present b C + mset (drop i (snapshot b)) = mset init"
    using assms i o by (auto simp: thread_ok_def barrier_ok_def)
  have "present ?b C + mset (drop (Suc i) (snapshot b)) = present b C + mset (drop i (snapshot b))" by (simp add: d present_def suspended_def)
  then have p': "present ?b C + mset (drop (Suc i) (snapshot b)) \<subseteq># mset init" "prompt \<longrightarrow> present ?b C + mset (drop (Suc i) (snapshot b)) = mset init"
    using p by simp_all
  have "present ?b C + (if Suc i < n then mset (drop (Suc i) (snapshot b)) else {#}) \<subseteq># mset init"
    using p'(1) by (cases "Suc i < n") (simp, simp, meson mset_subset_eq_add_left subset_mset.order_trans)
  moreover have "prompt \<longrightarrow> present ?b C + (if Suc i < n then mset (drop (Suc i) (snapshot b)) else {#}) = mset init" using p'(2) l by auto
  moreover have "size (present ?b C) + (n - Suc i) \<le> length init"
  proof -
    have "size (present b C) + (n - i) \<le> length init" using assms i o by (simp add: thread_ok_def barrier_ok_def)
    moreover have "size (present ?b C) = Suc (size (present b C))" by (simp add: present_def suspended_def)
    ultimately show ?thesis using i(1) by linarith
  qed
  moreover have "gathering (length init) ?b X (N Committing)"
  proof -
    have "gathering (length init) b X (N Committing)" using assms i o by (simp add: thread_ok_def barrier_ok_def)
    then show ?thesis by (simp add: gathering_def suspended_def filled_def)
  qed
  ultimately show "step_good prompt init (Complete_Dispatch i n) b C X P N ?b (Complete_Dispatch (i + 1) n)"
    using assms i o l unfolding thread_ok_def step_good_def barrier_ok_def by (auto simp: barrier_base_def)
qed

lemma complete_finish_good:
  assumes "thread_ok prompt init Complete_Finish b C X P N" "P' \<subseteq># P" "prompt \<longrightarrow> P' = P"
  shows "step_good prompt init Complete_Finish b C X P' N (b\<lparr>snapshot := []\<rparr>) Away"
proof -
  have "present b C + P' \<subseteq># mset init" if "present b C + P \<subseteq># mset init"
    using that assms(2) by (meson subset_mset.add_left_mono subset_mset.order_trans)
  then show ?thesis using assms by (auto simp: barrier_defs suspended_def filled_def)
qed

lemma barrier_advance_good:
  assumes ok: "thread_ok prompt init pc b C X P N" and pc: "pc \<noteq> Away"
  shows "barrier_advance pc b = None \<Longrightarrow> \<not> prompt \<and> (\<exists>i n. pc = Complete_Dispatch i n)"
    "barrier_advance pc b = Some (b', pc') \<Longrightarrow> P' \<subseteq># P \<Longrightarrow> (pc = Complete_Finish \<and> \<not> prompt) \<or> P' = P \<Longrightarrow> step_good prompt init pc b C X P' N b' pc'"
proof -
  have nr: "no_release pc" using ok by (cases pc) (auto simp: thread_ok_def)
  show "barrier_advance pc b = None \<Longrightarrow> \<not> prompt \<and> (\<exists>i n. pc = Complete_Dispatch i n)"
    using ok pc nr arrive_write_good(1) complete_collect_good(1) complete_dispatch_good(1)
    by (cases pc) (auto simp: barrier_advance_def split: if_splits)
  assume s: "barrier_advance pc b = Some (b', pc')" and P': "P' \<subseteq># P" "(pc = Complete_Finish \<and> \<not> prompt) \<or> P' = P"
  show "step_good prompt init pc b C X P' N b' pc'"
  proof (cases "pc = Complete_Finish")
    case True
    then show ?thesis using complete_finish_good [of prompt init b C X P N P'] ok s P' by (auto simp: barrier_advance_def)
  next
    case False
    then have "P' = P" using P' by simp
    with s ok pc nr False show ?thesis
      by (cases pc)
        (auto simp: barrier_advance_def simp del: One_nat_def split: if_splits
          intro: arrive_slot_good [simplified] arrive_write_good(2) arrive_commit_good [simplified] arrive_test_good complete_counts_good complete_clear_good
            complete_collect_good(2,3) [simplified] complete_range_good complete_dispatch_good(2,3) [simplified])
  qed
qed

lemma pc_ok_other:
  assumes step: "barrier_advance pc b = Some (b', pc')" and ok: "pc_ok prompt n b u" "pc_ok prompt n b pc"
    and alone: "0 < tally n Owning u \<longrightarrow> tally n Owning pc = 0 \<and> (prompt \<longrightarrow> \<not> leaving pc)"
    and quiet: "completing n u \<longrightarrow> brings pc = {#} \<and> pc \<noteq> Arrive_Commit"
  shows "pc_ok prompt n b' u"
proof (cases "0 < tally n Owning u")
  case False
  then show ?thesis using ok(1) by (cases u) auto
next
  case True
  then have own: "\<not> completing n pc" "pending pc = 0" "prompt \<longrightarrow> \<not> leaving pc" using alone by (auto split: if_splits)
  show ?thesis
  proof (cases "completing n u")
    case True
    then have "handles b' = handles b \<and> commit_count b' = commit_count b \<and> slot_count b' = slot_count b"
      using quiet own step ok(2) by (cases pc) (auto simp: barrier_advance_def split: if_splits)
    then show ?thesis using ok(1) True suspended_cong [of b' b] by (cases u) auto
  next
    case False
    have "prompt \<longrightarrow> snapshot b' = snapshot b" using own step ok(2) by (cases pc) (auto simp: barrier_advance_def split: if_splits)
    then show ?thesis using ok(1) False by (cases u) auto
  qed
qed

subsection \<open>All threads\<close>

lemma sum_threads:
  fixes pcs :: "barrier_pc list"
  shows "(\<Sum>pc \<leftarrow> pcs. tally n Completing pc) \<le> (\<Sum>pc \<leftarrow> pcs. tally n Owning pc)"
    "(\<Sum>pc \<leftarrow> pcs. tally n Owning pc) \<le> (\<Sum>pc \<leftarrow> pcs. tally n Completing pc) + (\<Sum>pc \<leftarrow> pcs. tally n Dispatching pc)"
    "size (\<Sum>pc \<leftarrow> pcs. writes_to pc) \<le> size (\<Sum>pc \<leftarrow> pcs. brings pc)"
    "(\<Sum>pc \<leftarrow> pcs. has_taken [] pc) \<subseteq># (\<Sum>pc \<leftarrow> pcs. has_taken cs pc)"
proof -
  have p: "tally n Completing pc \<le> tally n Owning pc" "tally n Owning pc \<le> tally n Completing pc + tally n Dispatching pc"
    "size (writes_to pc) \<le> size (brings pc)" "has_taken [] pc \<subseteq># has_taken cs pc" for pc
    by (cases pc; auto)+
  show "(\<Sum>pc \<leftarrow> pcs. tally n Completing pc) \<le> (\<Sum>pc \<leftarrow> pcs. tally n Owning pc)" by (rule sum_list_mono) (rule p(1))
  have "(\<Sum>pc \<leftarrow> pcs. tally n Owning pc) \<le> (\<Sum>pc \<leftarrow> pcs. tally n Completing pc + tally n Dispatching pc)" by (rule sum_list_mono) (rule p(2))
  then show "(\<Sum>pc \<leftarrow> pcs. tally n Owning pc) \<le> (\<Sum>pc \<leftarrow> pcs. tally n Completing pc) + (\<Sum>pc \<leftarrow> pcs. tally n Dispatching pc)"
    by (simp only: sum_list_addf)
  show "size (\<Sum>pc \<leftarrow> pcs. writes_to pc) \<le> size (\<Sum>pc \<leftarrow> pcs. brings pc)"
    by (induction pcs) (use p(3) in \<open>auto intro!: add_mono\<close>)
  show "(\<Sum>pc \<leftarrow> pcs. has_taken [] pc) \<subseteq># (\<Sum>pc \<leftarrow> pcs. has_taken cs pc)"
    by (induction pcs) (use p(4) in \<open>auto intro!: subset_mset.add_mono\<close>)
qed

lemma no_owner:
  "(\<Sum>pc \<leftarrow> pcs. tally n Owning pc) = 0 \<Longrightarrow> (\<Sum>pc \<leftarrow> pcs. has_taken cs pc) = {#} \<and> (\<Sum>pc \<leftarrow> pcs. tally n Dispatching pc) = 0"
proof (induction pcs)
  case (Cons pc pcs)
  then have "has_taken cs pc = {#} \<and> pending pc = 0" by (cases pc) (auto split: if_splits)
  with Cons show ?case by simp
qed simp

lemma barrier_inv_split:
  assumes "t < length pcs"
  shows "barrier_inv prompt init (b, pcs[t := pc]) \<longleftrightarrow>
    barrier_ok prompt init b (brings pc + (\<Sum>x \<leftarrow> others t pcs. brings x)) (writes_to pc + (\<Sum>x \<leftarrow> others t pcs. writes_to x))
      (has_taken (snapshot b) pc + (\<Sum>x \<leftarrow> others t pcs. has_taken (snapshot b) x)) (\<lambda>k. tally (length init) k pc + (\<Sum>x \<leftarrow> others t pcs. tally (length init) k x)) \<and>
    pc_ok prompt (length init) b pc \<and> (\<forall>u < length pcs. u \<noteq> t \<longrightarrow> pc_ok prompt (length init) b (pcs ! u))"
  unfolding barrier_inv.simps sum_others_update [OF assms] list_all_others [OF assms] list_all_others_iff [OF assms] ..

lemma member_sum: "pc \<in> set pcs \<Longrightarrow> tally n k pc \<le> (\<Sum>x \<leftarrow> pcs. tally n k x)"
  by (rule member_le_sum_list) simp_all

lemma others_mem: "u < length pcs \<Longrightarrow> u \<noteq> t \<Longrightarrow> pcs ! u \<in> set (others t pcs)"
  if "t < length pcs" for t
  using list_all_others_iff [OF that, of "\<lambda>x. x \<in> set (others t pcs)"] by (auto simp: list_all_iff)

lemma barrier_run_inv:
  assumes inv: "barrier_inv prompt init (b, pcs)" and t: "t < length pcs" and away: "pcs ! t \<noteq> Away"
  shows "barrier_advance (pcs ! t) b = None \<Longrightarrow> \<not> prompt \<and> (\<exists>i n. pcs ! t = Complete_Dispatch i n)"
    "barrier_advance (pcs ! t) b = Some (b', pc') \<Longrightarrow> barrier_inv prompt init (b', pcs[t := pc'])"
proof -
  define qs where "qs = others t pcs"
  let ?n = "length init" and ?P = "\<lambda>cs. \<Sum>x \<leftarrow> qs. has_taken cs x"
  let ?C = "\<Sum>x \<leftarrow> qs. brings x" and ?X = "\<Sum>x \<leftarrow> qs. writes_to x" and ?N = "\<lambda>k. \<Sum>x \<leftarrow> qs. tally ?n k x"
  have all: "barrier_ok prompt init b (brings (pcs ! t) + ?C) (writes_to (pcs ! t) + ?X) (has_taken (snapshot b) (pcs ! t) + ?P (snapshot b)) (\<lambda>k. tally ?n k (pcs ! t) + ?N k)"
    and at: "pc_ok prompt ?n b (pcs ! t)" "\<forall>u < length pcs. u \<noteq> t \<longrightarrow> pc_ok prompt ?n b (pcs ! u)"
    using inv barrier_inv_split [OF t, of prompt init b "pcs ! t"] unfolding list_update_id qs_def by blast+
  have ok: "thread_ok prompt init (pcs ! t) b ?C ?X (?P (snapshot b)) ?N"
    unfolding thread_ok_def by (intro conjI impI all at(1) sum_threads(1-3)) (use no_owner [of ?n qs "snapshot b"] in blast)+
  show "barrier_advance (pcs ! t) b = None \<Longrightarrow> \<not> prompt \<and> (\<exists>i n. pcs ! t = Complete_Dispatch i n)" by (rule barrier_advance_good(1) [OF ok away])
  assume step: "barrier_advance (pcs ! t) b = Some (b', pc')"
  have one: "tally ?n Owning (pcs ! t) + ?N Owning \<le> 1" "prompt \<longrightarrow> tally ?n Owning (pcs ! t) + ?N Owning + (tally ?n Leaving (pcs ! t) + ?N Leaving) \<le> 1"
    using all unfolding barrier_ok_def by blast+
  have still: "(pcs ! t = Complete_Finish \<and> \<not> prompt) \<or> ?P (snapshot b') = ?P (snapshot b)" "?P (snapshot b') \<subseteq># ?P (snapshot b)"
  proof -
    have "snapshot b' = snapshot b \<or> 0 < tally ?n Owning (pcs ! t) \<or> pcs ! t = Complete_Finish \<and> snapshot b' = []"
      using step at(1) by (cases "pcs ! t") (auto simp: barrier_advance_def split: if_splits)
    then consider "snapshot b' = snapshot b" | "?N Owning = 0" | "pcs ! t = Complete_Finish" "\<not> prompt" "snapshot b' = []"
    proof (elim disjE conjE)
      assume f: "pcs ! t = Complete_Finish" "snapshot b' = []"
      have "prompt \<Longrightarrow> ?N Owning = 0" using one(2) unfolding f(1) by (simp del: tally.simps(5))
      then show thesis using f that by blast
    qed (use one(1) that in linarith)+
    then have "((pcs ! t = Complete_Finish \<and> \<not> prompt) \<or> ?P (snapshot b') = ?P (snapshot b)) \<and> ?P (snapshot b') \<subseteq># ?P (snapshot b)"
      by cases (use no_owner [of ?n qs] sum_threads(4) [of qs] in \<open>auto simp del: sum_list_eq_0_iff\<close>)
    then show "(pcs ! t = Complete_Finish \<and> \<not> prompt) \<or> ?P (snapshot b') = ?P (snapshot b)" "?P (snapshot b') \<subseteq># ?P (snapshot b)" by blast+
  qed
  have good: "step_good prompt init (pcs ! t) b ?C ?X (?P (snapshot b')) ?N b' pc'" by (rule barrier_advance_good(2) [OF ok away step still(2,1)])
  have "pc_ok prompt ?n b' (pcs ! u)" if u: "u < length pcs" "u \<noteq> t" for u
  proof (rule pc_ok_other [OF step])
    have m: "tally ?n k (pcs ! u) \<le> ?N k" for k unfolding qs_def by (rule member_sum) (rule others_mem [OF t u])
    show "pc_ok prompt ?n b (pcs ! u)" "pc_ok prompt ?n b (pcs ! t)" using at u by blast+
    show "0 < tally ?n Owning (pcs ! u) \<longrightarrow> tally ?n Owning (pcs ! t) = 0 \<and> (prompt \<longrightarrow> \<not> leaving (pcs ! t))"
    proof
      assume "0 < tally ?n Owning (pcs ! u)"
      then have "0 < ?N Owning" using m [of Owning] by linarith
      then have "tally ?n Owning (pcs ! t) = 0" using one(1) by linarith
      moreover have "tally ?n Leaving (pcs ! t) = 0" if prompt using one(2) [rule_format, OF that] \<open>0 < ?N Owning\<close> by linarith
      ultimately show "tally ?n Owning (pcs ! t) = 0 \<and> (prompt \<longrightarrow> \<not> leaving (pcs ! t))" by simp
    qed
    show "completing ?n (pcs ! u) \<longrightarrow> brings (pcs ! t) = {#} \<and> pcs ! t \<noteq> Arrive_Commit"
    proof
      assume "completing ?n (pcs ! u)"
      then have "0 < ?N Completing" using m [of Completing] by simp
      then have "brings (pcs ! t) + ?C = {#} \<and> tally ?n Committing (pcs ! t) + ?N Committing = 0" using all unfolding barrier_ok_def by (metis add_is_0 less_not_refl)
      then show "brings (pcs ! t) = {#} \<and> pcs ! t \<noteq> Arrive_Commit" by simp
    qed
  qed
  with good show "barrier_inv prompt init (b', pcs[t := pc'])" unfolding barrier_inv_split [OF t] step_good_def qs_def by blast
qed

lemma barrier_step_inv:
  assumes inv: "barrier_inv prompt init s" and step: "barrier_step prompt False s s'"
  shows "barrier_inv prompt init s'"
  using step
proof cases
  case (arrive t pcs c b)
  define qs where "qs = others t pcs"
  let ?n = "length init" and ?b = "b\<lparr>running := running b - {#c#}\<rparr>"
  let ?C = "\<Sum>x \<leftarrow> qs. brings x" and ?P = "\<Sum>x \<leftarrow> qs. has_taken (snapshot b) x"
  have "barrier_inv prompt init (b, pcs[t := Away])" using inv arrive(1,4) by (metis list_update_id)
  note all = this [unfolded barrier_inv_split [OF arrive(3)], folded qs_def]
  have r: "running b = add_mset c (running ?b)" using arrive(5) by simp
  have s: "suspended ?b = suspended b" by (simp add: suspended_def)
  have p: "present ?b ({#c#} + ?C) = present b ?C" using arrive(5) by (simp add: present_def s)
  have "(\<Sum>x \<leftarrow> qs. tally ?n Completing x) = 0" using all r by (auto simp: barrier_ok_def split: if_splits)
  moreover have l: "prompt \<longrightarrow> (\<Sum>x \<leftarrow> qs. tally ?n Leaving x) = 0"
    using arrive(6) list_all_others_nth [OF arrive(3), of "\<lambda>pc. \<not> leaving pc"] by (auto simp: list_all_iff qs_def)
  moreover have "gathering ?n ?b X K = gathering ?n b X K" for X K by (simp add: gathering_def s filled_def)
  ultimately have "barrier_ok prompt init ?b ({#c#} + ?C) ({#} + (\<Sum>x \<leftarrow> qs. writes_to x)) ({#} + ?P) (\<lambda>k. tally ?n k (Arrive_Slot c) + (\<Sum>x \<leftarrow> qs. tally ?n k x))"
    using all p unfolding barrier_ok_def by (simp add: barrier_base_def) (use l in \<open>metis less_irrefl\<close>)
  moreover have "pc_ok prompt ?n ?b x = pc_ok prompt ?n b x" for x by (cases x) (simp_all add: suspended_def)
  ultimately show ?thesis unfolding arrive(2) barrier_inv_split [OF arrive(3)] qs_def [symmetric] using all by simp
next
  case (run_thread t pcs b b' pc)
  have "pcs ! t \<noteq> Away" using run_thread(4) by (auto simp: barrier_advance_def)
  with barrier_run_inv(2) [of prompt init b pcs t] inv run_thread show ?thesis by simp
qed simp

interpretation barrier: step_invariant "barrier_step prompt False" "barrier_inv prompt init" for prompt init
  by unfold_locales (rule barrier_step_inv)

lemma sum_away: "f Away = 0 \<Longrightarrow> (\<Sum>x \<leftarrow> replicate m Away. f x) = (0 :: 'b :: comm_monoid_add)"
  by (induction m) auto

lemma barrier_make_inv: "barrier_inv prompt init (barrier_make init, replicate m Away)"
proof -
  have t: "tally n k Away = 0" for n k by (cases k) simp_all
  have z: "(\<Sum>x \<leftarrow> replicate m Away. brings x) = {#}" "(\<Sum>x \<leftarrow> replicate m Away. writes_to x) = {#}"
    "(\<Sum>x \<leftarrow> replicate m Away. has_taken cs x) = {#}" "(\<Sum>x \<leftarrow> replicate m Away. tally n k x) = 0" for cs n k
    by (rule sum_away, simp add: t)+
  have "suspended (barrier_make init) = {#} \<and> filled (barrier_make init) = {#}" by (rule suspended_none) (simp add: barrier_make_def)
  then show ?thesis unfolding barrier_inv.simps z
    by (simp add: barrier_ok_def barrier_base_def present_def gathering_def barrier_make_def list_all_iff)
qed

section \<open>Properties\<close>

text \<open>
  C20. A barrier on which \<open>release\<close> is never called, with any number of threads (with releases the first claim is false: \<open>barrier_completes_twice\<close>). A round is completed only when every participant is suspended, no participant is ever in two places,
  and no index is out of the range of the handles. If moreover nobody comes while a thread is about to leave \<open>complete\<close>, every step is defined and
  no wake-up is lost: when no thread is inside, each participant runs or is suspended, and one of them has still to come.
\<close>

theorem barrier_meets:
  assumes "(barrier_step prompt False)\<^sup>*\<^sup>* (barrier_make init, replicate m Away) (b, pcs)"
  shows "(\<forall>t < length pcs. pcs ! t = Complete_Exchange \<longrightarrow> suspended b = mset init) \<and>
    running b + (\<Sum>pc \<leftarrow> pcs. brings pc) + suspended b \<subseteq># mset init \<and>
    (\<forall>t < length pcs. pcs ! t \<noteq> Away \<and> barrier_advance (pcs ! t) b = None \<longrightarrow> \<not> prompt \<and> (\<exists>i n. pcs ! t = Complete_Dispatch i n)) \<and>
    (prompt \<and> list_all (\<lambda>pc. pc = Away) pcs \<and> init \<noteq> [] \<longrightarrow> running b + suspended b = mset init \<and> running b \<noteq> {#})"
proof (intro conjI allI impI)
  have inv: "barrier_inv prompt init (b, pcs)" by (rule barrier.reachable_inv [OF assms barrier_make_inv])
  have sub: "present b (\<Sum>pc \<leftarrow> pcs. brings pc) \<subseteq># mset init"
    using inv unfolding barrier_inv.simps barrier_ok_def by (meson mset_subset_eq_add_left subset_mset.order_trans)
  then show "running b + (\<Sum>pc \<leftarrow> pcs. brings pc) + suspended b \<subseteq># mset init" by (simp add: present_def)
  show "suspended b = mset init" if "t < length pcs" "pcs ! t = Complete_Exchange" for t
  proof -
    have "pc_ok prompt (length init) b (pcs ! t)" using inv that(1) by (simp add: list_all_length)
    then have "size (suspended b) = size (mset init)" using that(2) by simp
    moreover have "suspended b \<subseteq># mset init" using sub unfolding present_def by (meson mset_subset_eq_add_right subset_mset.order_trans)
    ultimately show ?thesis by (metis mset_subset_size subset_mset.le_neq_trans less_irrefl)
  qed
  show "\<not> prompt" "\<exists>i n. pcs ! t = Complete_Dispatch i n" if "t < length pcs" "pcs ! t \<noteq> Away \<and> barrier_advance (pcs ! t) b = None" for t
    using barrier_run_inv(1) [OF inv that(1)] that(2) by simp_all
  assume away: "prompt \<and> list_all (\<lambda>pc. pc = Away) pcs \<and> init \<noteq> []"
  then have pcs: "pcs = replicate (length pcs) Away" by (simp add: list_all_iff replicate_eqI)
  have t: "tally n k Away = 0" for n k by (cases k) simp_all
  have z: "(\<Sum>x \<leftarrow> pcs. brings x) = {#}" "(\<Sum>x \<leftarrow> pcs. has_taken cs x) = {#}" "(\<Sum>x \<leftarrow> pcs. tally n k x) = 0" for cs n k
    by (subst pcs, rule sum_away, simp add: t)+
  have all: "running b + suspended b = mset init" "commit_count b = size (suspended b)" "commit_count b < length init"
    using inv away unfolding barrier_inv.simps z barrier_ok_def by (auto simp: present_def gathering_def)
  then show "running b + suspended b = mset init" by blast
  show "running b \<noteq> {#}" using all by (metis add_0 less_irrefl size_mset)
qed

text \<open>The steps as moves that compute.\<close>

datatype barrier_move = Do_Arrive nat coroutine | Do_Release nat "coroutine list" | Do_Run nat

fun barrier_run_move :: "bool \<Rightarrow> bool \<Rightarrow> barrier_t \<times> barrier_pc list \<Rightarrow> barrier_move \<Rightarrow> (barrier_t \<times> barrier_pc list) option" where
  "barrier_run_move prompt releases (b, pcs) (Do_Arrive t c) =
     (if t < length pcs \<and> pcs ! t = Away \<and> c \<in># running b \<and> (prompt \<longrightarrow> list_all (\<lambda>pc. \<not> leaving pc) pcs)
      then Some (b\<lparr>running := running b - {#c#}\<rparr>, pcs[t := Arrive_Slot c]) else None)"
| "barrier_run_move prompt releases (b, pcs) (Do_Release t cs) =
     (if t < length pcs \<and> pcs ! t = Away \<and> mset cs \<subseteq># running b \<and> releases
      then Some (b\<lparr>running := running b - mset cs\<rparr>, pcs[t := Release_Count (length cs)]) else None)"
| "barrier_run_move prompt releases (b, pcs) (Do_Run t) =
     (if t < length pcs then map_option (\<lambda>(b, pc). (b, pcs[t := pc])) (barrier_advance (pcs ! t) b) else None)"

lemma barrier_move_step: "barrier_run_move prompt releases s m = Some s' \<Longrightarrow> barrier_step prompt releases s s'"
proof (cases "(prompt, releases, s, m)" rule: barrier_run_move.cases)
  case (2 prompt' releases' b pcs t cs)
  assume "barrier_run_move prompt releases s m = Some s'"
  then show "barrier_step prompt releases s s'" using 2 barrier_step.release [of t pcs "mset cs" b releases prompt] by (auto split: if_splits)
qed (auto intro: barrier_step.intros split: if_splits)

interpretation barrier_moves: executable_moves "barrier_run_move prompt releases" "barrier_step prompt releases" for prompt releases
  by unfold_locales (rule barrier_move_step)

text \<open>Two coroutines meet, and go on.\<close>

definition round_of_two :: "barrier_move list" where
  "round_of_two = [Do_Arrive 0 1] @ replicate 4 (Do_Run 0) @ [Do_Arrive 1 2] @ replicate 18 (Do_Run 1)"

theorem barrier_meets_witness: "\<exists>b. running b + suspended b = {#1, 2#} \<and> running b \<noteq> {#}"
proof -
  have "map_option snd (run_requests (barrier_run_move True False) (barrier_make [1, 2], replicate 2 Away) round_of_two) = Some [Away, Away]"
    by code_simp
  then obtain b where b: "run_requests (barrier_run_move True False) (barrier_make [1, 2], replicate 2 Away) round_of_two = Some (b, [Away, Away])" by auto
  from barrier_meets [OF barrier_moves.moves_reach [OF b]] have "running b + suspended b = {#1, 2#}" "running b \<noteq> {#}" by simp_all
  then show ?thesis by blast
qed

text \<open>
  If coroutines come while a thread is about to leave \<open>complete\<close>, that thread can clear the snapshot another one fills for the next round: coroutine 1 is
  in no place any more, and will never be resumed.
\<close>

theorem barrier_loses_coroutine:
  "map_option (\<lambda>(b, pcs). (pcs, handles b, count (running b) 1, count (running b) 2))
     (run_requests (barrier_run_move False False) (barrier_make [1, 2], replicate 2 Away)
       ([Do_Arrive 0 1] @ replicate 4 (Do_Run 0) @ [Do_Arrive 1 2] @ replicate 16 (Do_Run 1) @
        [Do_Arrive 0 1] @ replicate 4 (Do_Run 0) @ [Do_Arrive 0 2] @ replicate 11 (Do_Run 0) @ replicate 2 (Do_Run 1) @ replicate 6 (Do_Run 0))) =
   Some ([Away, Away], [None, None], 0, 1)"
  by code_simp

text \<open>
  With \<open>release\<close> a round can be completed twice: thread 0 has committed coroutine 2 as the second of three and not yet compared, while thread 1 releases the third,
  completes the round and lets the barrier shrink to two. Coroutine 1 comes again and waits, then thread 0 compares with the new
  count, and coroutine 1 goes on without coroutine 2.
\<close>

definition release_race :: "barrier_move list" where
  "release_race = [Do_Arrive 0 1] @ replicate 4 (Do_Run 0) @ [Do_Arrive 0 2] @ replicate 3 (Do_Run 0) @ [Do_Release 1 [3]] @ replicate 18 (Do_Run 1) @
     [Do_Arrive 2 1] @ replicate 4 (Do_Run 2)"

theorem barrier_completes_twice:
  "map_option (\<lambda>(b, pcs). (pcs, max_await_count b, handles b, count (running b) 1, count (running b) 2))
     (run_requests (barrier_run_move True True) (barrier_make [1, 2, 3], replicate 3 Away) release_race) =
   Some ([Arrive_Test 2, Away, Away], 2, [Some 1, None, None], 0, 1) \<and>
   map_option (\<lambda>(b, pcs). (pcs, max_await_count b, handles b, count (running b) 1, count (running b) 2))
     (run_requests (barrier_run_move True True) (barrier_make [1, 2, 3], replicate 3 Away) (release_race @ replicate 14 (Do_Run 0))) =
   Some ([Away, Away, Away], 2, [None, None, None], 1, 1)"
  by (rule conjI; code_simp)

end
