(* ===== verification/Quota_Queue.thy ===== *)
theory Quota_Queue
  imports Quota
begin

text \<open>
  The queue of coroutines that wait for a quota, \<open>iris_quota_queue_t\<close> of \<open>iris_coroutine.h\<close>, over the quota of the theory \<open>Quota\<close>. Any number of threads ask for an
  amount (\<open>guard\<close> and \<open>co_await\<close>) or release one; each stands at a program point, a step is one access to a quantity or to the queue, and the mutex
  has its holder in the state. \<open>granted\<close> are the amounts the coroutines own as \<open>resource_t\<close>. Taking the front of an empty queue is undefined:
  \<^const>\<open>None\<close>.
\<close>

section \<open>State and steps\<close>

type_synonym coroutine = nat

record quota_queue_t =
  amounts :: "nat list"
  queue_lock :: "nat option"
  handles :: "(coroutine \<times> amount_t) list"
  granted :: "(coroutine \<times> amount_t) list"

text \<open>Who calls \<open>quota.acquire\<close>: the constructor of the awaitable, \<open>acquire_queued\<close>, or the walk of \<open>release\<close>.\<close>

datatype caller = From_Guard | From_Queued | From_Release

datatype queue_pc =
    Away
  | Acquire caller coroutine amount_t nat | Give_Back caller coroutine amount_t nat nat
  | Queue_Lock coroutine amount_t | Queue_Push coroutine amount_t
  | Release_Amount amount_t nat | Release_Lock | Release_Top

text \<open>\<open>quota.acquire\<close>, and what its callers do with the answer.\<close>

fun acquired :: "caller \<Rightarrow> coroutine \<Rightarrow> amount_t \<Rightarrow> quota_queue_t \<Rightarrow> (quota_queue_t \<times> queue_pc) option" where
  "acquired From_Guard c a q = Some (q\<lparr>granted := (c, a) # granted q\<rparr>, Away)"
| "acquired From_Queued c a q = Some (q\<lparr>granted := (c, a) # granted q, queue_lock := None\<rparr>, Away)"
| "acquired From_Release c a q =
     (case handles q of [] \<Rightarrow> None | h # hs \<Rightarrow> Some (q\<lparr>handles := hs, granted := h # granted q, queue_lock := None\<rparr>, Release_Lock))"

fun refused :: "caller \<Rightarrow> coroutine \<Rightarrow> amount_t \<Rightarrow> quota_queue_t \<Rightarrow> quota_queue_t \<times> queue_pc" where
  "refused From_Guard c a q = (q, Queue_Lock c a)"
| "refused From_Queued c a q = (q, Queue_Push c a)"
| "refused From_Release c a q = (q\<lparr>queue_lock := None\<rparr>, Away)"

fun quota_acquire_step :: "queue_pc \<Rightarrow> quota_queue_t \<Rightarrow> (quota_queue_t \<times> queue_pc) option" where
  "quota_acquire_step (Acquire r c a i) q =
     (if i < length (amounts q) then
        if a ! i = 0 then Some (q, Acquire r c a (i + 1))
        else if amounts q ! i < a ! i then Some (q, Give_Back r c a i 0)
        else Some (q\<lparr>amounts := (amounts q)[i := amounts q ! i - a ! i]\<rparr>, Acquire r c a (i + 1))
      else acquired r c a q)"
| "quota_acquire_step (Give_Back r c a i k) q =
     (if k < i then
        Some (if a ! k = 0 then q else q\<lparr>amounts := (amounts q)[k := amounts q ! k + a ! k]\<rparr>, Give_Back r c a i (k + 1))
      else Some (refused r c a q))"
| "quota_acquire_step pc q = None"

text \<open>\<open>acquire_queued\<close>\<close>

fun acquire_queued_step :: "nat \<Rightarrow> queue_pc \<Rightarrow> quota_queue_t \<Rightarrow> (quota_queue_t \<times> queue_pc) option" where
  "acquire_queued_step t (Queue_Lock c a) q =
     Some (if queue_lock q = None then (q\<lparr>queue_lock := Some t\<rparr>, Acquire From_Queued c a 0) else (q, Queue_Lock c a))"
| "acquire_queued_step t (Queue_Push c a) q = Some (q\<lparr>handles := handles q @ [(c, a)], queue_lock := None\<rparr>, Away)"
| "acquire_queued_step t pc q = None"

text \<open>\<open>release\<close>\<close>

fun release_step :: "nat \<Rightarrow> queue_pc \<Rightarrow> quota_queue_t \<Rightarrow> (quota_queue_t \<times> queue_pc) option" where
  "release_step t (Release_Amount a k) q =
     (if k < length (amounts q) then
        Some (if a ! k = 0 then q else q\<lparr>amounts := (amounts q)[k := amounts q ! k + a ! k]\<rparr>, Release_Amount a (k + 1))
      else Some (q, Release_Lock))"
| "release_step t Release_Lock q =
     Some (if queue_lock q = None then (q\<lparr>queue_lock := Some t\<rparr>, Release_Top) else (q, Release_Lock))"
| "release_step t Release_Top q =
     Some (case handles q of [] \<Rightarrow> (q\<lparr>queue_lock := None\<rparr>, Away) | (c, a) # hs \<Rightarrow> (q, Acquire From_Release c a 0))"
| "release_step t pc q = None"

definition queue_advance :: "nat \<Rightarrow> queue_pc \<Rightarrow> quota_queue_t \<Rightarrow> (quota_queue_t \<times> queue_pc) option" where
  "queue_advance t pc q =
     (case pc of
        Away \<Rightarrow> None
      | Acquire _ _ _ _ \<Rightarrow> quota_acquire_step pc q | Give_Back _ _ _ _ _ \<Rightarrow> quota_acquire_step pc q
      | Queue_Lock _ _ \<Rightarrow> acquire_queued_step t pc q | Queue_Push _ _ \<Rightarrow> acquire_queued_step t pc q
      | _ \<Rightarrow> release_step t pc q)"

text \<open>\<open>resource_t::release\<close>: a part of what a coroutine owns leaves it; \<open>clear\<close> releases all.\<close>

definition less_amount :: "amount_t \<Rightarrow> amount_t \<Rightarrow> amount_t" where
  "less_amount a d = map (\<lambda>i. a ! i - d ! i) [0..<length a]"

inductive queue_step :: "quota_queue_t \<times> queue_pc list \<Rightarrow> quota_queue_t \<times> queue_pc list \<Rightarrow> bool" where
  start_guard: "t < length pcs \<Longrightarrow> pcs ! t = Away \<Longrightarrow> length a = length (amounts q) \<Longrightarrow>
    queue_step (q, pcs) (q, pcs[t := Acquire From_Guard c a 0])"
| start_release: "t < length pcs \<Longrightarrow> pcs ! t = Away \<Longrightarrow> granted q = gs @ (c, a) # hs \<Longrightarrow> length d = length a \<Longrightarrow> \<forall>i < length a. d ! i \<le> a ! i \<Longrightarrow>
    queue_step (q, pcs) (q\<lparr>granted := gs @ (c, less_amount a d) # hs\<rparr>, pcs[t := Release_Amount d 0])"
| run_thread: "t < length pcs \<Longrightarrow> queue_advance t (pcs ! t) q = Some (q', pc) \<Longrightarrow> queue_step (q, pcs) (q', pcs[t := pc])"

definition quota_queue_make :: "amount_t \<Rightarrow> quota_queue_t" where
  "quota_queue_make init = \<lparr>amounts = init, queue_lock = None, handles = [], granted = []\<rparr>"

section \<open>The invariant\<close>

text \<open>What a thread has taken of resource \<open>j\<close>.\<close>

fun thread_holds :: "nat \<Rightarrow> queue_pc \<Rightarrow> nat" where
  "thread_holds j (Acquire r c a i) = (if j < i then a ! j else 0)"
| "thread_holds j (Give_Back r c a i k) = (if k \<le> j \<and> j < i then a ! j else 0)"
| "thread_holds j (Release_Amount a k) = (if k \<le> j then a ! j else 0)"
| "thread_holds j pc = 0"

fun holds_lock :: "queue_pc \<Rightarrow> bool" where
  "holds_lock (Acquire r c a i) = (r \<noteq> From_Guard)"
| "holds_lock (Give_Back r c a i k) = (r \<noteq> From_Guard)"
| "holds_lock (Queue_Push c a) = True"
| "holds_lock Release_Top = True"
| "holds_lock pc = False"

fun pc_ok :: "quota_queue_t \<Rightarrow> queue_pc \<Rightarrow> bool" where
  "pc_ok q (Acquire r c a i) \<longleftrightarrow> length a = length (amounts q) \<and> i \<le> length (amounts q) \<and> (r = From_Release \<longrightarrow> handles q \<noteq> [] \<and> hd (handles q) = (c, a))"
| "pc_ok q (Give_Back r c a i k) \<longleftrightarrow> length a = length (amounts q) \<and> k \<le> i \<and> i < length (amounts q)"
| "pc_ok q (Queue_Lock c a) \<longleftrightarrow> length a = length (amounts q)"
| "pc_ok q (Queue_Push c a) \<longleftrightarrow> length a = length (amounts q)"
| "pc_ok q (Release_Amount a k) \<longleftrightarrow> length a = length (amounts q) \<and> k \<le> length (amounts q)"
| "pc_ok q pc \<longleftrightarrow> True"

definition sum_granted :: "nat \<Rightarrow> quota_queue_t \<Rightarrow> nat" where
  "sum_granted j q = (\<Sum>(c, a) \<leftarrow> granted q. a ! j)"

text \<open>Every quantity with what is taken of it is the initial one; \<open>A\<close> is what the threads have taken.\<close>

definition balanced :: "amount_t \<Rightarrow> quota_queue_t \<Rightarrow> (nat \<Rightarrow> nat) \<Rightarrow> bool" where
  "balanced init q A \<longleftrightarrow> length (amounts q) = length init \<and> (\<forall>(c, a) \<in> set (granted q) \<union> set (handles q). length a = length init) \<and>
     (\<forall>j < length init. amounts q ! j + sum_granted j q + A j = init ! j)"

text \<open>
  Wake-ups, for a quota of one resource. A thread that will look at the front of the queue, and one that is about to put a
  coroutine there; when the request at the front could be served, somebody will look.
\<close>

fun will_look :: "queue_pc \<Rightarrow> bool" where
  "will_look (Acquire r c a i) = (r = From_Release)"
| "will_look (Release_Amount a k) = True"
| "will_look Release_Lock = True"
| "will_look Release_Top = True"
| "will_look pc = False"

fun will_push :: "queue_pc \<Rightarrow> amount_t \<Rightarrow> bool" where
  "will_push (Give_Back r c a i k) b = (r = From_Queued \<and> a = b)"
| "will_push (Queue_Push c a) b = (a = b)"
| "will_push pc b = False"

definition looked_after :: "quota_queue_t \<Rightarrow> bool \<Rightarrow> (amount_t \<Rightarrow> bool) \<Rightarrow> bool" where
  "looked_after q L W \<longleftrightarrow>
     (\<forall>a. (handles q \<noteq> [] \<and> snd (hd (handles q)) = a \<or> handles q = [] \<and> W a) \<and> a ! 0 \<le> amounts q ! 0 \<longrightarrow> L)"

text \<open>One step of a thread: it is defined, and keeps the balance for whatever the others have taken.\<close>

definition step_good :: "amount_t \<Rightarrow> quota_queue_t \<Rightarrow> nat \<Rightarrow> queue_pc \<Rightarrow> (nat \<Rightarrow> nat) \<Rightarrow> quota_queue_t \<Rightarrow> queue_pc \<Rightarrow> bool" where
  "step_good init q t pc A q' pc' \<longleftrightarrow> queue_advance t pc q = Some (q', pc') \<and> balanced init q' (\<lambda>j. thread_holds j pc' + A j) \<and> pc_ok q' pc' \<and>
    (holds_lock pc' \<longleftrightarrow> queue_lock q' = Some t) \<and>
    (queue_lock q' = queue_lock q \<or> (queue_lock q = None \<or> queue_lock q = Some t) \<and> (queue_lock q' = None \<or> queue_lock q' = Some t)) \<and>
    length (amounts q') = length (amounts q) \<and> (\<not> holds_lock pc \<longrightarrow> handles q' = handles q)"

lemma step_goodI:
  "queue_advance t pc q = Some (q', pc') \<Longrightarrow> balanced init q' (\<lambda>j. thread_holds j pc' + A j) \<Longrightarrow> pc_ok q' pc' \<Longrightarrow>
   (holds_lock pc' \<longleftrightarrow> queue_lock q' = Some t) \<Longrightarrow>
   (queue_lock q' = queue_lock q \<or> (queue_lock q = None \<or> queue_lock q = Some t) \<and> (queue_lock q' = None \<or> queue_lock q' = Some t)) \<Longrightarrow>
   length (amounts q') = length (amounts q) \<Longrightarrow> (\<not> holds_lock pc \<longrightarrow> handles q' = handles q) \<Longrightarrow> \<exists>q' pc'. step_good init q t pc A q' pc'"
  unfolding step_good_def by blast

text \<open>A thread takes from a resource, or gives to it.\<close>

lemma balanced_moved:
  assumes "balanced init q A" "amounts q' = amounts q" "granted q' = granted q" "set (handles q') \<subseteq> set (handles q)" "\<And>j. j < length init \<Longrightarrow> B j = A j"
  shows "balanced init q' B"
  using assms by (auto simp: balanced_def sum_granted_def) (fastforce simp: subset_iff)+

lemma balanced_changed:
  assumes "balanced init q A" "i < length (amounts q)" "B i + n = A i + amounts q ! i" "\<And>j. j \<noteq> i \<Longrightarrow> B j = A j"
  shows "balanced init (q\<lparr>amounts := (amounts q)[i := n]\<rparr>) B"
  unfolding balanced_def
proof (intro conjI allI impI)
  fix j
  assume j: "j < length init"
  have "amounts q ! j + sum_granted j q + A j = init ! j" "length (amounts q) = length init" using assms(1) j by (auto simp: balanced_def)
  then show "amounts (q\<lparr>amounts := (amounts q)[i := n]\<rparr>) ! j + sum_granted j (q\<lparr>amounts := (amounts q)[i := n]\<rparr>) + B j = init ! j"
    using assms(2-4) by (cases "j = i") (simp_all add: sum_granted_def)
qed (use assms(1) in \<open>auto simp: balanced_def\<close>)

lemma acquire_good:
  assumes "balanced init q (\<lambda>j. thread_holds j (Acquire r c a i) + A j)" "pc_ok q (Acquire r c a i)" "holds_lock (Acquire r c a i) \<longleftrightarrow> queue_lock q = Some t"
  shows "\<exists>q' pc'. step_good init q t (Acquire r c a i) A q' pc'"
proof (cases "i < length (amounts q)")
  case True
  consider "a ! i = 0" | "a ! i \<noteq> 0" "amounts q ! i < a ! i" | "a ! i \<noteq> 0" "a ! i \<le> amounts q ! i" by linarith
  then show ?thesis
  proof cases
    case 1
    have "balanced init q (\<lambda>j. thread_holds j (Acquire r c a (i + 1)) + A j)"
      by (rule balanced_moved [OF assms(1)]) (use 1 in \<open>auto simp: less_Suc_eq\<close>)
    then show ?thesis using assms True 1 by (intro step_goodI [of _ _ _ q "Acquire r c a (i + 1)"]) (auto simp: queue_advance_def)
  next
    case 2
    have "balanced init q (\<lambda>j. thread_holds j (Give_Back r c a i 0) + A j)" by (rule balanced_moved [OF assms(1)]) auto
    then show ?thesis using assms True 2 by (intro step_goodI [of _ _ _ q "Give_Back r c a i 0"]) (auto simp: queue_advance_def)
  next
    case 3
    let ?q = "q\<lparr>amounts := (amounts q)[i := amounts q ! i - a ! i]\<rparr>"
    have "balanced init ?q (\<lambda>j. thread_holds j (Acquire r c a (i + 1)) + A j)"
      by (rule balanced_changed [OF assms(1) True]) (use 3 in \<open>auto simp: less_Suc_eq\<close>)
    then show ?thesis using assms True 3 by (intro step_goodI [of _ _ _ ?q "Acquire r c a (i + 1)"]) (auto simp: queue_advance_def)
  qed
next
  case False
  then have i: "i = length (amounts q)" using assms(2) by simp
  have g: "balanced init (q\<lparr>granted := (c, a) # granted q\<rparr>) A" if "length a = length init"
    using assms(1) that by (auto simp: balanced_def sum_granted_def i)
  have n: "length a = length init" using assms(1,2) by (simp add: balanced_def)
  show ?thesis
  proof (cases r)
    case From_Guard
    then show ?thesis using assms i g [OF n]
      by (intro step_goodI [of _ _ _ "q\<lparr>granted := (c, a) # granted q\<rparr>" Away]) (auto simp: queue_advance_def balanced_def sum_granted_def)
  next
    case From_Queued
    then show ?thesis using assms i g [OF n]
      by (intro step_goodI [of _ _ _ "q\<lparr>granted := (c, a) # granted q, queue_lock := None\<rparr>" Away]) (auto simp: queue_advance_def balanced_def sum_granted_def)
  next
    case From_Release
    then obtain hs where hs: "handles q = (c, a) # hs" using assms(2) by (cases "handles q") auto
    then show ?thesis using assms i g [OF n] From_Release
      by (intro step_goodI [of _ _ _ "q\<lparr>handles := hs, granted := (c, a) # granted q, queue_lock := None\<rparr>" Release_Lock])
        (auto simp: queue_advance_def balanced_def sum_granted_def)
  qed
qed

lemma give_back_good:
  assumes "balanced init q (\<lambda>j. thread_holds j (Give_Back r c a i k) + A j)" "pc_ok q (Give_Back r c a i k)" "holds_lock (Give_Back r c a i k) \<longleftrightarrow> queue_lock q = Some t"
  shows "\<exists>q' pc'. step_good init q t (Give_Back r c a i k) A q' pc'"
proof (cases "k < i")
  case True
  let ?q = "if a ! k = 0 then q else q\<lparr>amounts := (amounts q)[k := amounts q ! k + a ! k]\<rparr>"
  have k: "k < length (amounts q)" using True assms(2) by simp
  have "balanced init ?q (\<lambda>j. thread_holds j (Give_Back r c a i (k + 1)) + A j)"
  proof (cases "a ! k = 0")
    case z: True
    show ?thesis unfolding if_P [OF z] by (rule balanced_moved [OF assms(1)]) (use z True in \<open>auto simp: le_less_Suc_eq Suc_le_eq dest: le_neq_implies_less\<close>)
  next
    case nz: False
    show ?thesis unfolding if_not_P [OF nz] by (rule balanced_changed [OF assms(1) k]) (use True in \<open>auto simp: Suc_le_eq\<close>)
  qed
  then show ?thesis using assms True by (intro step_goodI [of _ _ _ ?q "Give_Back r c a i (k + 1)"]) (auto simp: queue_advance_def)
next
  case False
  have b: "balanced init q A" by (rule balanced_moved [OF assms(1)]) (use False assms(2) in auto)
  then show ?thesis
    using assms(2,3) False
    by (cases r; intro step_goodI [of _ _ _ "fst (refused r c a q)" "snd (refused r c a q)"]) (auto simp: queue_advance_def balanced_def sum_granted_def)
qed

lemma release_amount_good:
  assumes "balanced init q (\<lambda>j. thread_holds j (Release_Amount a k) + A j)" "pc_ok q (Release_Amount a k)" "queue_lock q \<noteq> Some t"
  shows "\<exists>q' pc'. step_good init q t (Release_Amount a k) A q' pc'"
proof (cases "k < length (amounts q)")
  case True
  let ?q = "if a ! k = 0 then q else q\<lparr>amounts := (amounts q)[k := amounts q ! k + a ! k]\<rparr>"
  have "balanced init ?q (\<lambda>j. thread_holds j (Release_Amount a (k + 1)) + A j)"
  proof (cases "a ! k = 0")
    case z: True
    show ?thesis unfolding if_P [OF z] by (rule balanced_moved [OF assms(1)]) (use z in \<open>auto simp: Suc_le_eq dest: le_neq_implies_less\<close>)
  next
    case nz: False
    show ?thesis unfolding if_not_P [OF nz] by (rule balanced_changed [OF assms(1) True]) (auto simp: Suc_le_eq)
  qed
  then show ?thesis using assms True by (intro step_goodI [of _ _ _ ?q "Release_Amount a (k + 1)"]) (auto simp: queue_advance_def)
next
  case False
  have "balanced init q A" by (rule balanced_moved [OF assms(1)]) (use False assms(1,2) in \<open>auto simp: balanced_def\<close>)
  then show ?thesis using assms False by (intro step_goodI [of _ _ _ q Release_Lock]) (auto simp: queue_advance_def)
qed

lemma queue_advance_good:
  assumes "balanced init q (\<lambda>j. thread_holds j pc + A j)" "pc_ok q pc" "holds_lock pc \<longleftrightarrow> queue_lock q = Some t" "pc \<noteq> Away"
  shows "\<exists>q' pc'. step_good init q t pc A q' pc'"
proof (cases pc)
  case (Acquire r c a i) show ?thesis using assms(1-3) unfolding Acquire by (rule acquire_good)
next
  case (Give_Back r c a i k) show ?thesis using assms(1-3) unfolding Give_Back by (rule give_back_good)
next
  case (Release_Amount a k) show ?thesis using assms(1-3) unfolding Release_Amount by (intro release_amount_good) simp_all
next
  case (Queue_Lock c a)
  then show ?thesis using assms
    by (cases "queue_lock q"; intro step_goodI [of _ _ _ "if queue_lock q = None then q\<lparr>queue_lock := Some t\<rparr> else q"
      "if queue_lock q = None then Acquire From_Queued c a 0 else Queue_Lock c a"]) (auto simp: queue_advance_def balanced_def sum_granted_def)
next
  case (Queue_Push c a)
  then show ?thesis using assms
    by (intro step_goodI [of _ _ _ "q\<lparr>handles := handles q @ [(c, a)], queue_lock := None\<rparr>" Away]) (auto simp: queue_advance_def balanced_def sum_granted_def)
next
  case Release_Lock
  then show ?thesis using assms
    by (cases "queue_lock q"; intro step_goodI [of _ _ _ "if queue_lock q = None then q\<lparr>queue_lock := Some t\<rparr> else q"
      "if queue_lock q = None then Release_Top else Release_Lock"]) (auto simp: queue_advance_def balanced_def sum_granted_def)
next
  case Release_Top
  show ?thesis
  proof (cases "handles q")
    case Nil
    then show ?thesis using assms Release_Top
      by (intro step_goodI [of _ _ _ "q\<lparr>queue_lock := None\<rparr>" Away]) (auto simp: queue_advance_def balanced_def sum_granted_def)
  next
    case (Cons h hs)
    then show ?thesis using assms Release_Top
      by (cases h; intro step_goodI [of _ _ _ q "Acquire From_Release (fst h) (snd h) 0"]) (auto simp: queue_advance_def balanced_def)
  qed
qed (use assms(4) in simp)

text \<open>The wake-ups, in one step of a thread, for a quota of one resource; \<open>L\<close> and \<open>W\<close> speak of the other threads.\<close>

lemma queue_advance_looks:
  assumes good: "step_good init q t pc A q' pc'" and bal: "balanced init q (\<lambda>j. thread_holds j pc + A j)" and ok: "pc_ok q pc" and one: "length init = 1"
    and look: "looked_after q (will_look pc \<or> L) (\<lambda>a. will_push pc a \<or> W a)" and lock: "holds_lock pc \<longrightarrow> (\<forall>a. \<not> W a)"
  shows "looked_after q' (will_look pc' \<or> L) (\<lambda>a. will_push pc' a \<or> W a)"
proof -
  have n: "length (amounts q) = 1" using bal one by (simp add: balanced_def)
  have step: "queue_advance t pc q = Some (q', pc')" using good by (simp add: step_good_def)
  show ?thesis
  proof (cases pc)
    case (Acquire r c a i)
    then show ?thesis using step look lock ok n
      by (cases r) (auto simp: queue_advance_def looked_after_def less_Suc_eq nth_list_update split: if_splits list.splits)
  next
    case (Give_Back r c a i k)
    then show ?thesis using step look lock ok n
      by (cases r) (auto simp: queue_advance_def looked_after_def split: if_splits)
  next
    case (Queue_Lock c a)
    then show ?thesis using step look lock ok n by (auto simp: queue_advance_def looked_after_def split: if_splits)
  next
    case (Queue_Push c a)
    then show ?thesis using step look lock ok n by (cases "handles q") (auto simp: queue_advance_def looked_after_def split: if_splits)
  next
    case (Release_Amount a k)
    then show ?thesis using step look lock ok n by (auto simp: queue_advance_def looked_after_def split: if_splits)
  next
    case Release_Lock
    then show ?thesis using step look lock ok n by (auto simp: queue_advance_def looked_after_def split: if_splits)
  next
    case Release_Top
    then show ?thesis using step look lock ok n by (auto simp: queue_advance_def looked_after_def split: if_splits list.splits)
  qed (use step in \<open>simp add: queue_advance_def\<close>)
qed

section \<open>All threads\<close>

fun queue_inv :: "amount_t \<Rightarrow> quota_queue_t \<times> queue_pc list \<Rightarrow> bool" where
  "queue_inv init (q, pcs) \<longleftrightarrow> balanced init q (\<lambda>j. \<Sum>pc \<leftarrow> pcs. thread_holds j pc) \<and> list_all (pc_ok q) pcs \<and>
     (\<forall>t < length pcs. holds_lock (pcs ! t) \<longleftrightarrow> queue_lock q = Some t) \<and>
     (length init = 1 \<longrightarrow> looked_after q (\<exists>pc \<in> set pcs. will_look pc) (\<lambda>a. \<exists>pc \<in> set pcs. will_push pc a))"

lemma queue_inv_split:
  assumes "t < length pcs"
  shows "queue_inv init (q, pcs[t := pc]) \<longleftrightarrow>
    balanced init q (\<lambda>j. thread_holds j pc + (\<Sum>x \<leftarrow> others t pcs. thread_holds j x)) \<and> pc_ok q pc \<and> (holds_lock pc \<longleftrightarrow> queue_lock q = Some t) \<and>
    (\<forall>u < length pcs. u \<noteq> t \<longrightarrow> pc_ok q (pcs ! u) \<and> (holds_lock (pcs ! u) \<longleftrightarrow> queue_lock q = Some u)) \<and>
    (length init = 1 \<longrightarrow> looked_after q (will_look pc \<or> (\<exists>u < length pcs. u \<noteq> t \<and> will_look (pcs ! u)))
      (\<lambda>a. will_push pc a \<or> (\<exists>u < length pcs. u \<noteq> t \<and> will_push (pcs ! u) a)))"
proof -
  have "(\<forall>u < length (pcs[t := pc]). holds_lock (pcs[t := pc] ! u) \<longleftrightarrow> queue_lock q = Some u) \<longleftrightarrow>
      (holds_lock pc \<longleftrightarrow> queue_lock q = Some t) \<and> (\<forall>u < length pcs. u \<noteq> t \<longrightarrow> (holds_lock (pcs ! u) \<longleftrightarrow> queue_lock q = Some u))"
    using assms by (auto simp: nth_list_update)
  then show ?thesis
    unfolding queue_inv.simps sum_others_update [OF assms] list_all_others [OF assms] list_all_others_iff [OF assms] bex_list_update [OF assms] by blast
qed

lemma queue_inv_at:
  assumes "queue_inv init (q, pcs)" "t < length pcs"
  shows "balanced init q (\<lambda>j. thread_holds j (pcs ! t) + (\<Sum>x \<leftarrow> others t pcs. thread_holds j x))" "pc_ok q (pcs ! t)"
    "holds_lock (pcs ! t) \<longleftrightarrow> queue_lock q = Some t"
    "u < length pcs \<Longrightarrow> u \<noteq> t \<Longrightarrow> pc_ok q (pcs ! u) \<and> (holds_lock (pcs ! u) \<longleftrightarrow> queue_lock q = Some u)"
    "length init = 1 \<Longrightarrow> looked_after q (will_look (pcs ! t) \<or> (\<exists>u < length pcs. u \<noteq> t \<and> will_look (pcs ! u)))
      (\<lambda>a. will_push (pcs ! t) a \<or> (\<exists>u < length pcs. u \<noteq> t \<and> will_push (pcs ! u) a))"
  using assms(1) queue_inv_split [OF assms(2), of init q "pcs ! t"] unfolding list_update_id by blast+

lemma will_push_holds: "will_push pc a \<Longrightarrow> holds_lock pc"
  by (cases pc) auto

lemma queue_pc_ok_same: "pc_ok q pc \<Longrightarrow> length (amounts q') = length (amounts q) \<Longrightarrow> holds_lock pc \<longrightarrow> handles q' = handles q \<Longrightarrow> pc_ok q' pc"
  by (cases pc) auto

lemma queue_run_inv:
  assumes inv: "queue_inv init (q, pcs)" and t: "t < length pcs" and away: "pcs ! t \<noteq> Away"
  shows "\<exists>q' pc. queue_advance t (pcs ! t) q = Some (q', pc) \<and> queue_inv init (q', pcs[t := pc])"
proof -
  note at = queue_inv_at [OF inv t]
  obtain q' pc where good: "step_good init q t (pcs ! t) (\<lambda>j. \<Sum>x \<leftarrow> others t pcs. thread_holds j x) q' pc"
    using queue_advance_good [OF at(1-3) away] by blast
  have other: "pc_ok q' (pcs ! u) \<and> (holds_lock (pcs ! u) \<longleftrightarrow> queue_lock q' = Some u)" if u: "u < length pcs" "u \<noteq> t" for u
  proof
    have "holds_lock (pcs ! u) \<longrightarrow> handles q' = handles q" using at(3) at(4) [OF u] u(2) good by (auto simp: step_good_def)
    then show "pc_ok q' (pcs ! u)" using at(4) [OF u] good queue_pc_ok_same by (auto simp: step_good_def)
    show "holds_lock (pcs ! u) \<longleftrightarrow> queue_lock q' = Some u" using at(4) [OF u] u(2) good by (auto simp: step_good_def)
  qed
  have "looked_after q' (will_look pc \<or> (\<exists>u < length pcs. u \<noteq> t \<and> will_look (pcs ! u)))
      (\<lambda>a. will_push pc a \<or> (\<exists>u < length pcs. u \<noteq> t \<and> will_push (pcs ! u) a))" if one: "length init = 1"
  proof (rule queue_advance_looks [OF good at(1,2) one at(5) [OF one]])
    show "holds_lock (pcs ! t) \<longrightarrow> (\<forall>a. \<not> (\<exists>u < length pcs. u \<noteq> t \<and> will_push (pcs ! u) a))"
      using at(3,4) will_push_holds by (metis option.inject)
  qed
  then have "queue_inv init (q', pcs[t := pc])" unfolding queue_inv_split [OF t] using good other by (simp add: step_good_def)
  with good show ?thesis by (auto simp: step_good_def)
qed

lemma sum_granted_split: "sum_granted j (q\<lparr>granted := gs @ (c, a) # hs\<rparr>) = (\<Sum>(c, a) \<leftarrow> gs. a ! j) + a ! j + (\<Sum>(c, a) \<leftarrow> hs. a ! j)"
  by (simp add: sum_granted_def)

lemma queue_step_inv:
  assumes inv: "queue_inv init s" and step: "queue_step s s'"
  shows "queue_inv init s'"
  using step
proof cases
  case (start_guard t pcs a q c)
  note at = queue_inv_at [of init q pcs t, unfolded start_guard(4)]
  show ?thesis unfolding start_guard(2) queue_inv_split [OF start_guard(3)]
    using inv start_guard(1,3,5) at by (simp add: start_guard(4) del: queue_inv.simps) 
next
  case (start_release t pcs q gs c a hs d)
  let ?q = "q\<lparr>granted := gs @ (c, less_amount a d) # hs\<rparr>"
  have i: "queue_inv init (q, pcs)" using inv start_release(1) by simp
  note at = queue_inv_at [OF i start_release(3), unfolded start_release(4)]
  have len: "length a = length init" "length (amounts q) = length init" using at(1) start_release(5) by (auto simp: balanced_def)
  have "balanced init ?q (\<lambda>j. thread_holds j (Release_Amount d 0) + (\<Sum>x \<leftarrow> others t pcs. thread_holds j x))"
    unfolding balanced_def
  proof (intro conjI allI impI)
    fix j
    assume j: "j < length init"
    have "amounts q ! j + sum_granted j q + (\<Sum>x \<leftarrow> others t pcs. thread_holds j x) = init ! j" using at(1) j by (simp add: balanced_def)
    moreover have "sum_granted j q = (\<Sum>(c, a) \<leftarrow> gs. a ! j) + a ! j + (\<Sum>(c, a) \<leftarrow> hs. a ! j)" by (simp add: sum_granted_def start_release(5))
    moreover have "less_amount a d ! j + d ! j = a ! j" using start_release(7) j len by (simp add: less_amount_def)
    ultimately show "amounts ?q ! j + sum_granted j ?q + (thread_holds j (Release_Amount d 0) + (\<Sum>x \<leftarrow> others t pcs. thread_holds j x)) = init ! j"
      unfolding sum_granted_split by simp
  qed (use at(1) start_release(5) len in \<open>auto simp: balanced_def less_amount_def\<close>)
  moreover have "pc_ok ?q pc = pc_ok q pc" for pc by (cases pc) auto
  moreover have "looked_after ?q L W = looked_after q L W" for L W by (simp add: looked_after_def)
  ultimately show ?thesis unfolding start_release(2) queue_inv_split [OF start_release(3)]
    using at start_release(6) len by (simp add: looked_after_def)
next
  case (run_thread t pcs q q' pc)
  have "pcs ! t \<noteq> Away" using run_thread(4) by (auto simp: queue_advance_def)
  with queue_run_inv [of init q pcs t] inv run_thread show ?thesis by (auto simp del: queue_inv.simps)
qed

interpretation quota_queue: step_invariant queue_step "queue_inv init" for init
  by unfold_locales (rule queue_step_inv)

lemma quota_queue_make_inv: "queue_inv init (quota_queue_make init, replicate n Away)"
proof -
  have "(\<Sum>pc \<leftarrow> replicate n Away. thread_holds j pc) = 0" for j by (induction n) auto
  then show ?thesis by (simp add: quota_queue_make_def balanced_def sum_granted_def looked_after_def list_all_iff)
qed

section \<open>Properties\<close>

text \<open>
  C21. The queue of a quota with any number of threads: no step takes the front of an empty queue; each quantity with what the coroutines own of it and what the
  threads have taken is the initial amount; and for a quota of one resource no wake-up is lost: when no thread is inside, the
  request at the front of the queue cannot be served.
\<close>

theorem quota_queue_wakes:
  assumes "queue_step\<^sup>*\<^sup>* (quota_queue_make init, replicate n Away) (q, pcs)"
  shows "(\<forall>t < length pcs. pcs ! t \<noteq> Away \<longrightarrow> queue_advance t (pcs ! t) q \<noteq> None) \<and>
    (\<forall>j < length init. amounts q ! j + (\<Sum>(c, a) \<leftarrow> granted q. a ! j) + (\<Sum>pc \<leftarrow> pcs. thread_holds j pc) = init ! j) \<and>
    (length init = 1 \<and> list_all (\<lambda>pc. pc = Away) pcs \<and> handles q \<noteq> [] \<longrightarrow> amounts q ! 0 < snd (hd (handles q)) ! 0)"
proof (intro conjI allI impI)
  have inv: "queue_inv init (q, pcs)" by (rule quota_queue.reachable_inv [OF assms quota_queue_make_inv])
  show "queue_advance t (pcs ! t) q \<noteq> None" if "t < length pcs" "pcs ! t \<noteq> Away" for t using queue_run_inv [OF inv that] by auto
  show "amounts q ! j + (\<Sum>(c, a) \<leftarrow> granted q. a ! j) + (\<Sum>pc \<leftarrow> pcs. thread_holds j pc) = init ! j" if "j < length init" for j
    using inv that by (simp add: balanced_def sum_granted_def)
  assume idle: "length init = 1 \<and> list_all (\<lambda>pc. pc = Away) pcs \<and> handles q \<noteq> []"
  then have "\<not> (\<exists>pc \<in> set pcs. will_look pc)" by (auto simp: list_all_iff)
  then show "amounts q ! 0 < snd (hd (handles q)) ! 0" using inv idle by (auto simp: looked_after_def not_le)
qed

text \<open>The steps as moves that compute.\<close>

datatype queue_move = Do_Guard nat coroutine amount_t | Do_Release nat nat amount_t | Do_Run nat

fun queue_run_move :: "quota_queue_t \<times> queue_pc list \<Rightarrow> queue_move \<Rightarrow> (quota_queue_t \<times> queue_pc list) option" where
  "queue_run_move (q, pcs) (Do_Guard t c a) =
     (if t < length pcs \<and> pcs ! t = Away \<and> length a = length (amounts q) then Some (q, pcs[t := Acquire From_Guard c a 0]) else None)"
| "queue_run_move (q, pcs) (Do_Release t k d) =
     (if t < length pcs \<and> pcs ! t = Away \<and> k < length (granted q) \<and> length d = length (snd (granted q ! k)) \<and> list_all2 (\<le>) d (snd (granted q ! k)) then
        let (c, a) = granted q ! k in
          Some (q\<lparr>granted := take k (granted q) @ (c, less_amount a d) # drop (Suc k) (granted q)\<rparr>, pcs[t := Release_Amount d 0])
      else None)"
| "queue_run_move (q, pcs) (Do_Run t) =
     (if t < length pcs then map_option (\<lambda>(q, pc). (q, pcs[t := pc])) (queue_advance t (pcs ! t) q) else None)"

lemma queue_move_step: "queue_run_move s m = Some s' \<Longrightarrow> queue_step s s'"
proof (cases "(s, m)" rule: queue_run_move.cases)
  case (2 q pcs t k d)
  assume m: "queue_run_move s m = Some s'"
  obtain c a where ca: "granted q ! k = (c, a)" by (cases "granted q ! k")
  with m 2 have c: "t < length pcs" "pcs ! t = Away" "k < length (granted q)" "length d = length a" "list_all2 (\<le>) d a"
    and s': "s' = (q\<lparr>granted := take k (granted q) @ (c, less_amount a d) # drop (Suc k) (granted q)\<rparr>, pcs[t := Release_Amount d 0])"
    by (auto split: if_splits)
  have "granted q = take k (granted q) @ (c, a) # drop (Suc k) (granted q)" using c(3) ca by (metis id_take_nth_drop)
  then show "queue_step s s'" using 2 s' queue_step.start_release [OF c(1,2) _ c(4)] c(5) by (auto simp: list_all2_conv_all_nth)
qed (auto intro: queue_step.intros split: if_splits)

interpretation queue_moves: executable_moves queue_run_move queue_step
  by unfold_locales (rule queue_move_step)

text \<open>Coroutine 1 owns 2 of 3, coroutine 2 waits for 3.\<close>

theorem quota_queue_wakes_witness: "\<exists>q :: quota_queue_t. handles q = [(2, [3])] \<and> amounts q = [1] \<and> amounts q ! 0 < (snd (hd (handles q)) ! 0 :: nat)"
proof -
  let ?ms = "[Do_Guard 0 1 [2], Do_Run 0, Do_Run 0, Do_Guard 1 2 [3]] @ replicate 6 (Do_Run 1)"
  have "map_option (\<lambda>(q, pcs). (pcs, handles q, amounts q)) (run_requests queue_run_move (quota_queue_make [3], replicate 2 Away) ?ms) =
      Some ([Away, Away], [(2, [3])], [1])" by code_simp
  then obtain q where q: "run_requests queue_run_move (quota_queue_make [3], replicate 2 Away) ?ms = Some (q, [Away, Away])"
    "handles q = [(2, [3])]" "amounts q = [1]" by auto
  from quota_queue_wakes [OF queue_moves.moves_reach [OF q(1)]] q(2) have "amounts q ! 0 < snd (hd (handles q)) ! 0" by simp
  then show ?thesis using q(2,3) by blast
qed

text \<open>
  With two resources a wake-up can be lost: coroutine 3 waits for \<open>[1, 0]\<close>; while coroutine 2 releases it, coroutine 4 asks for \<open>[1, 1]\<close> and holds the first
  resource for a moment. The release finds it missing and leaves; then coroutine 4 gives it back and waits too. Coroutine 3 could be served, but nobody looks.
\<close>

theorem quota_queue_stalls:
  "map_option (\<lambda>(q, pcs). (pcs, handles q, amounts q)) (run_requests queue_run_move (quota_queue_make [1, 1], replicate 2 Away)
     ([Do_Guard 0 1 [0, 1]] @ replicate 3 (Do_Run 0) @ [Do_Guard 0 2 [1, 0]] @ replicate 3 (Do_Run 0) @
      [Do_Guard 0 3 [1, 0]] @ replicate 6 (Do_Run 0) @
      [Do_Release 0 0 [1, 0], Do_Run 0, Do_Run 0, Do_Run 0] @
      [Do_Guard 1 4 [1, 1], Do_Run 1, Do_Run 1] @ replicate 4 (Do_Run 0) @ replicate 8 (Do_Run 1))) =
   Some ([Away, Away], [(3, [1, 0]), (4, [1, 1])], [1, 0])"
  by code_simp

end
