(* ===== verification/Spec2Isabelle.thy ===== *)
theory Spec2Isabelle
  imports Lru_Cache Event_Bus Crypto Prime_Sieve Algorithms Queue_List Resource_Pool Quota Warp Http_Client Jobs
    Log_Analysis Udp Kd_Tree Dispatcher Balancer Systems Block_Allocator Grid_Warp Mandelbrot
    Sync_Event Pipe Sync_Barrier Quota_Queue
begin

text \<open>
  A verification of \<open>ngx_lua_cpp\<close>, an nginx module that offers C++ services to Lua scripts, and of the \<open>iris\<close> headers it is built on.

  \<^bold>\<open>The program.\<close> \<open>src/src/ngx_lua_cpp.cpp\<close> holds the services: a cache with lifetimes, an event bus, cryptographic helpers, background
  jobs, an analysis of access logs, an HTTP client and UDP endpoints. Lua calls a service; what may block runs on a worker thread and comes back to
  the thread of nginx through a warp. \<open>src/src/iris/iris_common.h\<close> holds the containers and algorithms below this (a single-producer
  single-consumer ring, a chain of rings, a pool, a quota, sorted vectors, disjoint sets, alignment), \<open>src/src/iris/iris_dispatcher.h\<close> the
  scheduling (warps, a dispatcher of dependent tasks, worker threads), \<open>src/src/iris/iris_tree.h\<close> a kd-tree of boxes, and
  \<open>src/src/iris/iris_system.h\<close> an entity component system.

  \<^bold>\<open>The shared theories.\<close> \<open>Prelude\<close> has the collections of simplification rules, the lemmas shared by several components and the interfaces:
  \<open>step_invariant\<close> (a relation that keeps an invariant, for the concurrent components), \<open>safe_machine\<close> (an executable machine that never
  meets undefined behaviour), \<open>executable_moves\<close> (moves that compute the steps of a relation, for concrete runs) and \<open>bounded_log\<close> (a sequence that keeps its
  newest entries). \<open>Std_Map\<close> models \<open>std::map\<close> as an ordered
  association list behind the interface \<open>ordered_map\<close>, \<open>Std_String\<close> the searches, substrings and conversions of \<open>std::string\<close> and the C library
  the services call. Each interface is interpreted on the definitions of the components that promise it.

  \<^bold>\<open>The services\<close> (\<open>ngx_lua_cpp.cpp\<close>).
  \<^item> \<open>Lru_Cache\<close>: \<open>lru_cache_t\<close> with \<open>cache_set\<close> and \<open>cache_get\<close>. The list of entries is a list, the map of iterators a \<open>std::map\<close> from keys to
    entry identities; an erased iterator that is used again is undefined and the value \<open>None\<close>. Both operations refine an abstract cache, a list in the
    order of use; no sequence of requests is undefined or exceeds 1024 entries.
  \<^item> \<open>Event_Bus\<close>: \<open>event_bus_t\<close>, publication, retention of 512 events per topic and polling with a cursor. A poll with the cursor of the last one returns
    exactly what was published in between. Event numbers are doubles in the code; they are reals here whose successor is
    rounded as the double addition rounds it, exact up to \<open>2 ^ 53\<close>.
  \<^item> \<open>Fips_180\<close>, \<open>Sha256\<close> and \<open>Crypto\<close>: FIPS 180-4 as the standard writes it (no code: rotations of the library, constants as roots of primes, the
    schedule as a recurrence), the streaming SHA-256 on 32-bit words and its equality with the standard, HMAC against RFC 2104, base64url in both
    directions with its errors, random hex digits, and the hash of a file read block by block.
  \<^item> \<open>Jobs\<close> and \<open>Prime_Sieve\<close>: submission, the runner as a step relation of any number of runners, the queries and the table that keeps 200 jobs;
    the segmented sieve of the prime job. Every job ends within 404 steps of its runner. Formatting of reals, the clock and the conversion of a
    payload number to \<open>size_t\<close> are arguments: C++ defines the conversion only in the range of \<open>size_t\<close>, and the property of a job's life asks for payloads in it.
  \<^item> \<open>Log_Analysis\<close>: the time stamps with the calendar arithmetic, compared with a calendar that counts the days year by year, the line parser, the scan and the report. \<open>std::sort\<close> is modelled by a stable sort; the
    properties of the report hold for every order among equal counts.
  \<^item> \<open>Http_Client\<close>: \<open>parse_http_url\<close>, \<open>http_get\<close> and the parallel \<open>fetch\<close>. The request itself is an argument: on platforms other than Windows the code
    has none, and the Windows branch calls a system library.
  \<^item> \<open>Udp\<close>: the one-shot \<open>udp_sendto_impl\<close> and \<open>udp_roundtrip_impl\<close>, and the listeners with their receiving thread, queue, reply and
    teardown. Socket calls are arguments, and each open, close and free is an event of a trace in which they are counted.
  \<^item> \<open>Mandelbrot\<close>: the renderer of fractal images with the tasks of its rows as a step relation over the shared buffer, and the encoder of the image file. Both modes give
    the same file, and a reader of the format finds each pixel at its place. The operations on doubles are arguments.

  \<^bold>\<open>The containers and algorithms\<close> (\<open>iris_common.h\<close>).
  \<^item> \<open>Ring_Queue\<close>: \<open>iris_queue_t\<close> with counters of 64-bit words that wrap, the shadow counters both sides keep, bulk transfers, allocation, iterators, moves
    and destruction. A slot is alive or not, and touching one in the wrong way is undefined. The ring refines the interface \<open>fifo_queue\<close> for sizes below
    \<open>2 ^ 31\<close>.
  \<^item> \<open>Queue_List\<close>: \<open>iris_queue_list_t\<close>, a chain of rings, refines the unbounded \<open>fifo_queue\<close>. Its loops are \<open>partial_function (option)\<close>: \<open>None\<close> also stands
    for a loop that never ends, and that they end is part of the properties.
  \<^item> \<open>Resource_Pool\<close> and \<open>Quota\<close>: \<open>iris_pool_t\<close> on a chained queue, and \<open>iris_quota_t\<close>, sequentially and as a step relation of threads that acquire and
    release.
  \<^item> \<open>Algorithms\<close>: the sorted vectors, the disjoint sets, and the arithmetic on powers of two at any word width.

  \<^bold>\<open>The allocators\<close> (\<open>iris_common.h\<close>). \<open>Root_Allocator\<close> has \<open>iris_root_allocator_t\<close>, which cuts regions of the system into blocks, with any number of threads:
  the blocks in use do not overlap, and no region is lost or given back twice. \<open>Block_Allocator\<close> has \<open>iris_allocator_t\<close> on such blocks: the lock-free operations as
  steps of any number of threads, with an invariant that the count of a block is the number of its references. Items in use do not overlap, no block is
  touched after it was given back, none is leaked. The unsynchronised operations give back blocks with items in use, as a concrete run shows.

  \<^bold>\<open>Scheduling\<close> (\<open>iris_dispatcher.h\<close>). \<open>Warp\<close> has the strand variant of \<open>iris_warp_t\<close> as a step relation of any number of threads, each at an
  explicit program point of \<open>execute\<close>, \<open>flush\<close>, \<open>yield\<close>, \<open>suspend\<close>, \<open>resume\<close>, \<open>queue_routine_parallel\<close> and the rest; a step is one access to a
  shared atomic, in sequentially consistent order. Its invariant gives exclusive execution, the order of the tasks, and that no task is forgotten.
  \<open>Grid_Warp\<close> has the other variant, with a queue for each thread and barriers with versions: the queues stay in order, and a barrier orders the routines behind it in its own queue after
  all earlier ones. Two concrete runs show its limits: a routine of another thread is not held by the barrier, and barriers of two threads can leave a
  routine behind that may run.
  \<open>Dispatcher\<close> has the dispatcher of dependent routines \<open>iris_dispatcher_t\<close>: the graph of the routines with its junctions and its check for cycles, and
  \<open>dispatch\<close> and \<open>execute\<close> as steps of any number of threads that interleave with the calls of the clients. Its invariant, that a lock count is the number of
  handles and pointers, gives the order of dependent routines, that none is forgotten, and that none is used after it was freed. It holds for the schedules in
  which no handle is dispatched while the function of its routine runs, or before \<open>execute\<close> has looked at the count after it: the parameter \<open>apart\<close> of the step
  relation. Without it the relation has every dispatch the code allows, and the run \<open>deferred_routine_read_freed\<close> shows \<open>execute\<close> reading a freed routine.
  \<open>Worker\<close> has the pool of worker threads \<open>iris_async_worker_t\<close>: the threads, and the clients that queue tasks, drain the pool or stop it, as step relations over
  the slots, the counters and the epoch word idle threads park on. No task is lost or doubled, no wake-up is lost while the pool has no limit on its threads and was not terminated, and termination reaches every
  thread. \<open>Balancer\<close> adds \<open>iris_async_balancer_t\<close>, which limits such a pool.

  \<^bold>\<open>Synchronization of coroutines\<close> (\<open>iris_coroutine.h\<close>). A coroutine is a number, and \<open>dispatch\<close> hands it back to those that run. \<open>Sync_Event\<close> has \<open>iris_event_t\<close>, \<open>Pipe\<close>
  has \<open>iris_pipe_t\<close>, \<open>Sync_Barrier\<close> has \<open>iris_barrier_t\<close> and \<open>Quota_Queue\<close> has \<open>iris_quota_queue_t\<close> on the quota, each as the steps of any number of threads: one access to a shared
  counter, or a section under a mutex. Their invariants give that no coroutine is lost or resumed twice and no wake-up is missed, under conditions that the properties
  name; three concrete runs show what goes wrong outside them: a quota of two resources can leave a coroutine waiting, a barrier can lose one when a
  round starts before the last one has been left, and with \<open>release\<close> it can let one pass too early.

  \<^bold>\<open>Trees\<close> (\<open>iris_tree.h\<close>). \<open>Kd_Tree\<close> has the rules for boxes, attaching, detaching, both queries and the rebuilding. The child pointers
  span a tree value, the parent pointers are the path to its root.

  \<^bold>\<open>Entities\<close> (\<open>iris_system.h\<close>). \<open>Quick_List\<close> adds access by index and iterators to the chained queue, behind the interface \<open>indexed_pool\<close>: correct as long
  as a new node is started only when the last one is full. \<open>Entity_System\<close> has \<open>iris_system_t\<close> on such lists and refines it to a finite map from entities to
  component tuples, with ranges and iteration, and the allocator of entities. \<open>Systems\<close> has the registry \<open>iris_systems_t\<close>.
  Four lemmas show what goes wrong outside that condition, and in the batched and filtering iterations.

  \<^bold>\<open>Conventions.\<close> What C++ leaves undefined is \<open>None\<close>, and errors the code reports are values. Code under a mutex is one step. Machine integers are words where
  they wrap or are shifted; sizes bounded by memory are naturals. Library functions the code calls are modelled as their documents say.

  \<^bold>\<open>Not modelled.\<close> The bindings to Lua (\<open>iris_lua.h\<close>) and the bridge to nginx are glue around two C programming interfaces, and the hooks
  replace system calls of the process. The coroutines themselves and what switches them between
  warps (\<open>iris_coroutine_t\<close>, \<open>iris_awaitable_t\<close>, \<open>iris_switch_t\<close>, \<open>iris_select_t\<close> of \<open>iris_coroutine.h\<close>) rest on frames the compiler generates; where a service suspends, the
  model has a step.
\<close>

end
